(* ===== verification/Prelude.thy ===== *)
theory Prelude
  imports Main "HOL-Library.Finite_Map" "HOL-Library.Word"
begin

text \<open>
  Shared vocabulary of the development. Go maps are finite maps (\<^typ>\<open>('k, 'v) fmap\<close>), Go
  strings are byte lists (\<^typ>\<open>string\<close>), instants and durations are nanosecond counts
  (\<^typ>\<open>int\<close>), \<open>uint64\<close> counters are 64-bit words, and the signed 64-bit \<open>int\<close> of Go is
  \<^typ>\<open>int\<close> with its wrap-around written out by \<open>wrap64\<close>. The lemmas are the facts on map
  sizes, wrapped sums and prefix sums that several components use.
\<close>

section \<open>Names for the types of the program\<close>

type_synonym time = int
type_synonym duration = int
type_synonym u64 = "64 word"

abbreviation second :: duration where "second \<equiv> 1000000000"
abbreviation minute :: duration where "minute \<equiv> 60 * second"
abbreviation hour :: duration where "hour \<equiv> 60 * minute"

named_theorems inv_defs \<open>definitions of the component invariants\<close>
named_theorems op_defs \<open>definitions of the component operations\<close>

section \<open>Signed 64-bit arithmetic\<close>

definition wrap64 :: "int \<Rightarrow> int" where
  "wrap64 x = (x + 2 ^ 63) mod 2 ^ 64 - 2 ^ 63"

definition fits64 :: "int \<Rightarrow> bool" where
  "fits64 x \<longleftrightarrow> - (2 ^ 63) \<le> x \<and> x < 2 ^ 63"

section \<open>Go maps\<close>

definition map_len :: "('k, 'v) fmap \<Rightarrow> nat" where
  "map_len m = fcard (fmdom m)"

definition map_keep :: "('v \<Rightarrow> bool) \<Rightarrow> ('k, 'v) fmap \<Rightarrow> ('k, 'v) fmap" where
  "map_keep P m = fmfilter (\<lambda>k. case fmlookup m k of None \<Rightarrow> False | Some v \<Rightarrow> P v) m"

definition map_dropped :: "('v \<Rightarrow> bool) \<Rightarrow> ('k, 'v) fmap \<Rightarrow> nat" where
  "map_dropped P m = map_len m - map_len (map_keep P m)"

section \<open>Lemmas on wrapped integers\<close>

lemma wrap64_id [simp]: "fits64 x \<Longrightarrow> wrap64 x = x"
  by (simp add: wrap64_def fits64_def)

lemma fits64_wrap64 [simp]: "fits64 (wrap64 x)"
  by (simp add: wrap64_def fits64_def)

lemma fits64_mono: "0 \<le> x \<Longrightarrow> x \<le> y \<Longrightarrow> fits64 y \<Longrightarrow> fits64 x"
  by (simp add: fits64_def)

section \<open>Lemmas on map sizes\<close>

lemma map_len_empty [simp]: "map_len fmempty = 0"
  by (simp add: map_len_def)

lemma map_len_eq_0 [simp]: "map_len m = 0 \<longleftrightarrow> m = fmempty"
  by (metis fcard_fempty fcard_0_eq fmdom_empty fmrestrict_fset_dom fmrestrict_fset_null map_len_def)

lemma map_len_fmupd:
  "map_len (fmupd k v m) = (if fmlookup m k = None then Suc (map_len m) else map_len m)"
  by (simp add: map_len_def fcard_finsert_if fmdom_notI fmdomI fmlookup_dom_iff)

lemma map_len_fmdrop:
  "map_len (fmdrop k m) = (if fmlookup m k = None then map_len m else map_len m - 1)"
  by (auto simp: map_len_def fcard_fminus_fsingleton_if fmlookup_dom_iff)

lemma map_len_pos: "fmlookup m k = Some v \<Longrightarrow> 0 < map_len m"
  by (metis bot_nat_0.not_eq_extremum fmempty_lookup map_len_eq_0 option.distinct(1))

lemma fmlookup_map_keep [simp]:
  "fmlookup (map_keep P m) k = (case fmlookup m k of None \<Rightarrow> None | Some v \<Rightarrow> if P v then Some v else None)"
  by (auto simp: map_keep_def split: option.splits)

lemma map_len_map_keep_le: "map_len (map_keep P m) \<le> map_len m"
  unfolding map_len_def map_keep_def by (auto intro!: fcard_mono)

lemma map_dropped_add: "map_len (map_keep P m) + map_dropped P m = map_len m"
  using map_len_map_keep_le [of P m] by (simp add: map_dropped_def)

text \<open>The mirror counters of the program: a row-guarded decrement keeps them exact.\<close>

lemma count_after_drop:
  assumes "c = (of_nat (map_len m) :: u64)" and "fmlookup m k = Some v"
  shows "c - 1 = of_nat (map_len (fmdrop k m))"
proof -
  have "0 < map_len m" using assms(2) by (rule map_len_pos)
  then have "map_len m = Suc (map_len m - 1)" by simp
  then have "c = of_nat (map_len m - 1) + 1"
    using assms(1) by (metis of_nat_Suc add.commute)
  then show ?thesis using assms(2) by (simp add: map_len_fmdrop)
qed

lemma count_after_keep:
  assumes "c = (of_nat (map_len m) :: u64)"
  shows "c - of_nat (map_dropped P m) = of_nat (map_len (map_keep P m))"
proof -
  have "c = of_nat (map_len (map_keep P m)) + of_nat (map_dropped P m)"
    using assms map_dropped_add [of P m] by (metis of_nat_add)
  then show ?thesis by simp
qed

lemma count_after_upd:
  assumes "c = (of_nat (map_len m) :: u64)"
  shows "(if fmlookup m k = None then c + 1 else c) = of_nat (map_len (fmupd k v m))"
  using assms by (simp add: map_len_fmupd)

end
