(* ===== verification/WeightedSelector.thy ===== *)
theory WeightedSelector
  imports Prelude
begin

text \<open>
  The binary search over cumulative weights that both load-balancing engines share
  (\<open>weightedSelector.pick\<close> of \<open>pkg/credentiallb/selector.go\<close> and of
  \<open>pkg/grouplb/selector.go\<close>), with the interface its clients rely on stated as the locale
  \<open>prefix_search\<close>: the search returns the least index whose cumulative weight exceeds the
  drawn number. The client lemmas of the locale say what that means for a weighted choice:
  each reference owns a half-open interval as wide as its weight.
\<close>

section \<open>The search loop\<close>

function pick_loop :: "'w::linorder list \<Rightarrow> 'w \<Rightarrow> nat \<Rightarrow> nat \<Rightarrow> nat" where
  "pick_loop ps r lo hi =
     (if lo < hi
      then let mid = (lo + hi) div 2
           in if ps ! mid > r then pick_loop ps r lo mid else pick_loop ps r (mid + 1) hi
      else lo)"
  by pat_completeness auto
termination
  by (relation "measure (\<lambda>(ps, r, lo, hi). hi - lo)") auto

declare pick_loop.simps [simp del]

definition pick_index :: "'w::linorder list \<Rightarrow> 'w \<Rightarrow> nat" where
  "pick_index ps r = pick_loop ps r 0 (length ps - 1)"

section \<open>Reference definitions\<close>

fun prefix_from :: "'w::plus \<Rightarrow> 'w list \<Rightarrow> 'w list" where
  "prefix_from acc [] = []"
| "prefix_from acc (w # ws) = (acc + w) # prefix_from (acc + w) ws"

fun walk_index :: "'w::{linorder,plus} \<Rightarrow> 'w \<Rightarrow> 'w list \<Rightarrow> nat option" where
  "walk_index r cum [] = None"
| "walk_index r cum (w # ws) =
     (if r < cum + w then Some 0 else map_option Suc (walk_index r (cum + w) ws))"

section \<open>Prefix sums\<close>

lemma length_prefix_from [simp]: "length (prefix_from a ws) = length ws"
  by (induction ws arbitrary: a) auto

lemma prefix_from_eq_Nil [simp]: "prefix_from a ws = [] \<longleftrightarrow> ws = []"
  by (cases ws) auto

lemma nth_prefix_from:
  fixes a :: "'w::ab_group_add"
  shows "i < length ws \<Longrightarrow> prefix_from a ws ! i = a + sum_list (take (Suc i) ws)"
proof (induction ws arbitrary: a i)
  case (Cons w ws)
  then show ?case by (cases i) (auto simp: add.assoc)
qed simp

lemma last_prefix_from:
  fixes a :: "'w::ab_group_add"
  assumes "ws \<noteq> []"
  shows "last (prefix_from a ws) = a + sum_list ws"
proof -
  have "last (prefix_from a ws) = prefix_from a ws ! (length ws - 1)"
    using assms by (simp add: last_conv_nth)
  then show ?thesis using assms by (simp add: nth_prefix_from)
qed

lemma sum_list_take_Suc:
  fixes ws :: "'w::ab_group_add list"
  shows "i < length ws \<Longrightarrow> sum_list (take (Suc i) ws) = sum_list (take i ws) + ws ! i"
  by (simp add: take_Suc_conv_app_nth)

lemma sum_list_take_mono:
  fixes ws :: "'w::linordered_idom list"
  assumes "\<forall>w \<in> set ws. 0 < w" and "i \<le> j"
  shows "sum_list (take i ws) \<le> sum_list (take j ws)"
proof -
  have "sum_list (take j ws) = sum_list (take i ws) + sum_list (take (j - i) (drop i ws))"
    using assms(2) by (metis le_add_diff_inverse sum_list_append take_add)
  moreover have "0 \<le> sum_list (take (j - i) (drop i ws))"
    using assms(1) by (intro sum_list_nonneg) (meson in_set_dropD in_set_takeD less_imp_le)
  ultimately show ?thesis by simp
qed

lemma sorted_prefix_from:
  fixes a :: "'w::linordered_idom"
  assumes "\<forall>w \<in> set ws. 0 < w"
  shows "sorted (prefix_from a ws)"
  using assms by (auto simp: sorted_iff_nth_mono nth_prefix_from intro: sum_list_take_mono)

section \<open>The interface\<close>

locale prefix_search =
  fixes search :: "'w::linordered_idom list \<Rightarrow> 'w \<Rightarrow> nat"
  assumes search_in: "ps \<noteq> [] \<Longrightarrow> search ps r < length ps"
    and search_above: "sorted ps \<Longrightarrow> ps \<noteq> [] \<Longrightarrow> r < last ps \<Longrightarrow> r < ps ! search ps r"
    and search_below: "sorted ps \<Longrightarrow> ps \<noteq> [] \<Longrightarrow> j < search ps r \<Longrightarrow> ps ! j \<le> r"
begin

lemma search_unique:
  assumes "sorted ps" and "i < length ps" and "r < ps ! i" and "\<forall>j < i. ps ! j \<le> r"
  shows "search ps r = i"
proof -
  have ne: "ps \<noteq> []" using assms(2) by auto
  have "ps ! i \<le> last ps"
    using assms(1,2) ne by (simp add: last_conv_nth sorted_nth_mono)
  then have above: "r < ps ! search ps r"
    using assms(1,3) ne by (intro search_above) auto
  show ?thesis
  proof (rule linorder_cases [of "search ps r" i])
    assume "search ps r < i"
    then show ?thesis using assms(4) above by (meson not_le)
  next
    assume "i < search ps r"
    then have "ps ! i \<le> r" using assms(1) ne by (intro search_below)
    then show ?thesis using assms(3) by simp
  qed simp
qed

lemma search_interval:
  assumes pos: "\<forall>w \<in> set ws. 0 < w" and i: "i < length ws"
    and r: "0 \<le> r" "r < sum_list ws"
  shows "search (prefix_from 0 ws) r = i \<longleftrightarrow>
         sum_list (take i ws) \<le> r \<and> r < sum_list (take (Suc i) ws)"
proof
  let ?ps = "prefix_from 0 ws"
  have ne: "?ps \<noteq> []" and srt: "sorted ?ps"
    using i pos by (auto intro: sorted_prefix_from)
  assume eq: "search ?ps r = i"
  have last: "r < last ?ps" using r(2) i by (subst last_prefix_from) auto
  have hi: "r < sum_list (take (Suc i) ws)"
    using search_above [OF srt ne last] eq i by (simp add: nth_prefix_from)
  have lo: "sum_list (take i ws) \<le> r"
  proof (cases i)
    case 0
    then show ?thesis using r(1) by simp
  next
    case (Suc k)
    then have "?ps ! k \<le> r" using search_below [OF srt ne] eq by simp
    then show ?thesis using Suc i by (simp add: nth_prefix_from)
  qed
  show "sum_list (take i ws) \<le> r \<and> r < sum_list (take (Suc i) ws)" using hi lo by simp
next
  let ?ps = "prefix_from 0 ws"
  assume as: "sum_list (take i ws) \<le> r \<and> r < sum_list (take (Suc i) ws)"
  show "search ?ps r = i"
  proof (rule search_unique)
    show "sorted ?ps" using pos by (rule sorted_prefix_from)
    show "i < length ?ps" using i by simp
    show "r < ?ps ! i" using as i by (simp add: nth_prefix_from)
    show "\<forall>j < i. ?ps ! j \<le> r"
    proof (intro allI impI)
      fix j assume j: "j < i"
      have "sum_list (take (Suc j) ws) \<le> sum_list (take i ws)"
        using pos j by (intro sum_list_take_mono) auto
      then show "?ps ! j \<le> r" using as i j by (simp add: nth_prefix_from)
    qed
  qed
qed

end

section \<open>The search loop implements the interface\<close>

lemma pick_loop_bounds: "lo \<le> hi \<Longrightarrow> lo \<le> pick_loop ps r lo hi \<and> pick_loop ps r lo hi \<le> hi"
proof (induction ps r lo hi rule: pick_loop.induct)
  case (1 ps r lo hi)
  show ?case
  proof (cases "lo < hi")
    case True
    let ?m = "(lo + hi) div 2"
    have m: "lo \<le> ?m" "?m < hi" using True by auto
    show ?thesis
    proof (cases "r < ps ! ?m")
      case t: True
      then show ?thesis
        using 1(1) [OF True refl t] m True by (subst (1 2) pick_loop.simps) (auto simp: Let_def)
    next
      case f: False
      then show ?thesis
        using 1(2) [OF True refl f] m True by (subst (1 2) pick_loop.simps) (auto simp: Let_def)
    qed
  qed (use 1 in \<open>simp add: pick_loop.simps\<close>)
qed

lemma pick_loop_spec:
  assumes "lo \<le> hi" and "hi < length ps" and "sorted ps" and "\<forall>j < lo. ps ! j \<le> r"
    and "Suc hi = length ps \<or> r < ps ! hi"
  shows "(\<forall>j < pick_loop ps r lo hi. ps ! j \<le> r) \<and>
         (Suc (pick_loop ps r lo hi) = length ps \<or> r < ps ! pick_loop ps r lo hi)"
  using assms
proof (induction ps r lo hi rule: pick_loop.induct)
  case (1 ps r lo hi)
  show ?case
  proof (cases "lo < hi")
    case True
    let ?m = "(lo + hi) div 2"
    have m: "lo \<le> ?m" "?m < hi" using True by auto
    show ?thesis
    proof (cases "r < ps ! ?m")
      case t: True
      have "pick_loop ps r lo hi = pick_loop ps r lo ?m"
        using True t by (subst pick_loop.simps) (simp add: Let_def)
      then show ?thesis using 1(1) [OF True refl t] m "1.prems" t by auto
    next
      case f: False
      have "\<forall>j < ?m + 1. ps ! j \<le> r"
      proof (intro allI impI)
        fix j assume "j < ?m + 1"
        then have "ps ! j \<le> ps ! ?m"
          using "1.prems"(2,3) m by (intro sorted_nth_mono) auto
        then show "ps ! j \<le> r" using f by simp
      qed
      moreover have "pick_loop ps r lo hi = pick_loop ps r (?m + 1) hi"
        using True f by (subst pick_loop.simps) (simp add: Let_def)
      ultimately show ?thesis using 1(2) [OF True refl f] m "1.prems" by auto
    qed
  next
    case False
    then have "pick_loop ps r lo hi = lo" by (simp add: pick_loop.simps)
    then show ?thesis using "1.prems" False by auto
  qed
qed

lemma pick_index_spec:
  assumes "sorted ps" and "ps \<noteq> []"
  shows "(\<forall>j < pick_index ps r. ps ! j \<le> r) \<and>
         (Suc (pick_index ps r) = length ps \<or> r < ps ! pick_index ps r)"
  unfolding pick_index_def using assms by (intro pick_loop_spec) auto

lemma pick_index_less: "ps \<noteq> [] \<Longrightarrow> pick_index ps r < length ps"
  using pick_loop_bounds [of 0 "length ps - 1" ps r] by (cases ps) (auto simp: pick_index_def)

interpretation bsearch: prefix_search "pick_index :: 'w::linordered_idom list \<Rightarrow> 'w \<Rightarrow> nat"
proof
  fix ps :: "'w list" and r :: 'w and j :: nat
  show "ps \<noteq> [] \<Longrightarrow> pick_index ps r < length ps" by (rule pick_index_less)
  show "r < ps ! pick_index ps r" if "sorted ps" "ps \<noteq> []" "r < last ps"
  proof (cases "Suc (pick_index ps r) = length ps")
    case True
    then have "ps ! pick_index ps r = last ps"
      using that(2) by (metis diff_Suc_1 last_conv_nth)
    then show ?thesis using that(3) by simp
  next
    case False
    then show ?thesis using pick_index_spec [OF that(1,2)] by blast
  qed
  show "ps ! j \<le> r" if "sorted ps" "ps \<noteq> []" "j < pick_index ps r"
    using pick_index_spec [OF that(1,2)] that(3) by blast
qed

section \<open>The linear walk is the same choice\<close>

lemma walk_index_Some_iff:
  fixes r :: "'w::linordered_idom"
  assumes "\<forall>w \<in> set ws. 0 < w" and "cum \<le> r"
  shows "walk_index r cum ws = Some i \<longleftrightarrow>
         i < length ws \<and> cum + sum_list (take i ws) \<le> r \<and> r < cum + sum_list (take (Suc i) ws)"
  using assms
proof (induction ws arbitrary: cum i)
  case (Cons w ws)
  show ?case
  proof (cases "r < cum + w")
    case True
    then show ?thesis
    proof (cases i)
      case (Suc k)
      have "0 \<le> sum_list (take k ws)"
        using Cons.prems(1) by (intro sum_list_nonneg) (auto dest: in_set_takeD intro: less_imp_le)
      then show ?thesis using True Suc by (auto simp: algebra_simps)
    qed (use Cons.prems in auto)
  next
    case False
    then have IH: "\<And>k. walk_index r (cum + w) ws = Some k \<longleftrightarrow>
        k < length ws \<and> cum + w + sum_list (take k ws) \<le> r \<and> r < cum + w + sum_list (take (Suc k) ws)"
      using Cons.prems by (intro Cons.IH) auto
    show ?thesis using False by (cases i) (auto simp: IH add.assoc)
  qed
qed simp

lemma walk_index_is_pick_index:
  fixes r :: "'w::linordered_idom"
  assumes "\<forall>w \<in> set ws. 0 < w" and "0 \<le> r" and "r < sum_list ws"
  shows "walk_index r 0 ws = Some (pick_index (prefix_from 0 ws) r)"
proof -
  let ?i = "pick_index (prefix_from 0 ws) r"
  have "ws \<noteq> []" using assms(2,3) by auto
  then have i: "?i < length ws" using pick_index_less [of "prefix_from 0 ws" r] by simp
  have "sum_list (take ?i ws) \<le> r \<and> r < sum_list (take (Suc ?i) ws)"
    using bsearch.search_interval [OF assms(1) i assms(2,3)] by simp
  then show ?thesis using i assms(1,2) by (subst walk_index_Some_iff) auto
qed

end
