(* ===== verification/StickyAffinity.thy ===== *)
theory StickyAffinity
  imports Prelude
begin

text \<open>
  The contract of a sticky selector, which the credential engine and the group engine both
  promise to the proxy: a conversation that keeps coming back within the idle limit keeps the
  target it was bound to, whatever other conversations do in between. The interface is the
  locale \<open>sticky_selector\<close>; its theorem \<open>affinity\<close> is proved once and holds for each engine by
  interpretation.
\<close>

type_synonym ('w, 'k) call = "time \<times> 'w \<times> 'k"

text \<open>A run of selections, each call with its clock reading, its random number and its key.\<close>

fun sticky_run :: "(time \<Rightarrow> 'w \<Rightarrow> 'k \<Rightarrow> 's \<Rightarrow> 'o \<times> 's) \<Rightarrow> 's \<Rightarrow> ('w, 'k) call list \<Rightarrow> ('k \<times> 'o) list" where
  "sticky_run select s [] = []"
| "sticky_run select s ((now, w, k) # cs) =
     (let (r, s') = select now w k s in (k, r) # sticky_run select s' cs)"

text \<open>Every call for the key comes within the idle limit of the previous one for that key.\<close>

fun within_idle :: "duration \<Rightarrow> 'k \<Rightarrow> time \<Rightarrow> ('w, 'k) call list \<Rightarrow> bool" where
  "within_idle t k prev [] = True"
| "within_idle t k prev ((now, w, k') # cs) =
     (if k' = k then now - prev \<le> t \<and> within_idle t k now cs else within_idle t k prev cs)"

lemma run_answers:
  "\<forall>(k, r) \<in> set xs. k = key \<longrightarrow> r = a \<Longrightarrow> snd ` {p \<in> set xs. fst p = key} \<subseteq> {a}"
  by auto

locale sticky_selector =
  fixes select :: "time \<Rightarrow> 'w \<Rightarrow> 'k \<Rightarrow> 's \<Rightarrow> 'o \<times> 's"
    and bound :: "'s \<Rightarrow> 'k \<Rightarrow> ('i \<times> time) option"
    and usable :: "'s \<Rightarrow> 'i \<Rightarrow> time \<Rightarrow> bool"
    and answer :: "'i \<Rightarrow> 'o"
    and idle :: duration
  assumes hit: "bound s k = Some (i, t) \<Longrightarrow> now - t \<le> idle \<Longrightarrow> usable s i now \<Longrightarrow>
        fst (select now w k s) = answer i"
    and refresh: "bound s k = Some (i, t) \<Longrightarrow> now - t \<le> idle \<Longrightarrow> usable s i now \<Longrightarrow>
        bound (snd (select now w k s)) k = Some (i, now)"
    and frame: "k' \<noteq> k \<Longrightarrow> bound (snd (select now w k' s)) k = bound s k"
    and usable_stable: "usable (snd (select now w k s)) i u = usable s i u"
begin

lemma affinity:
  assumes "bound s k = Some (i, t)" and "within_idle idle k t cs"
    and "\<forall>(now, w, k') \<in> set cs. k' = k \<longrightarrow> usable s i now"
  shows "\<forall>(k', r) \<in> set (sticky_run select s cs). k' = k \<longrightarrow> r = answer i"
  using assms
proof (induction cs arbitrary: s t)
  case (Cons c cs)
  obtain now w k' where c: "c = (now, w, k')" by (cases c)
  obtain r s' where sel: "select now w k' s = (r, s')" by fastforce
  have us: "\<forall>(now, w, k') \<in> set cs. k' = k \<longrightarrow> usable s' i now"
    using Cons.prems(3) usable_stable [of now w k' s i] sel by auto
  show ?case
  proof (cases "k' = k")
    case True
    have u: "usable s i now" "now - t \<le> idle" using Cons.prems c True by auto
    have "r = answer i" using hit [OF Cons.prems(1) u(2,1), of w] sel True by simp
    moreover have "bound s' k = Some (i, now)"
      using refresh [OF Cons.prems(1) u(2,1), of w] sel True by simp
    ultimately show ?thesis
      using Cons.IH [of s' now] Cons.prems(2) us c True sel by auto
  next
    case False
    then have "bound s' k = Some (i, t)"
      using frame [of k' k now w s] Cons.prems(1) sel by simp
    then show ?thesis using Cons.IH [of s' t] Cons.prems(2) us c False sel by auto
  qed
qed simp

end

end
