(* ===== verification/CredentialLB.thy ===== *)
theory CredentialLB
  imports WeightedSelector StickyAffinity
begin

text \<open>
  The credential load-balancing engine (\<open>pkg/credentiallb\<close>: \<open>selector.go\<close>, \<open>binding.go\<close>,
  \<open>engine.go\<close>, \<open>failure_class.go\<close>). Every operation of the engine is one definition on the
  records \<open>modelState\<close> and \<open>Engine\<close>. The wall clock is the argument \<open>now\<close>; the next number of
  the per-model random source is the argument \<open>w\<close>, reduced by \<open>Intn\<close> as \<open>rand.Intn\<close> does.
  \<open>GetOrSelect\<close> takes the per-model lock several times; \<open>gos_sections\<close> has one state argument
  for each of these critical sections, so that statements can be made about every interleaving
  with other calls, and \<open>st_GetOrSelect\<close> is the case where nothing interleaves.
  Operations on a nil engine, which return constants, are modelled only for the cooldown policy.
\<close>

section \<open>Data\<close>

record CredentialRef =
  CredentialID :: string
  Weight :: int
  Position :: int

record weightedSelector =
  credentialIDs :: "string list"
  prefixSum :: "int list"
  totalWeight :: int

record binding =
  credentialID :: string
  boundAt :: time

record modelState =
  credentials :: "CredentialRef list"
  selector :: "weightedSelector option"
  bindings :: "(string, binding) fmap"
  cooldowns :: "(string, time) fmap"
  hitsTotal :: u64
  missesTotal :: u64
  bindingsCount :: u64
  failoversTotal :: u64

record Engine =
  models :: "(string, modelState) fmap"
  ttl :: duration
  sweepInt :: duration
  defaultCooldown :: duration
  quotaCooldown :: duration
  stopped :: bool

datatype lb_error = ErrNoCredentials | PanicIntn

datatype ReselectMode = ReselectHealthy | ReselectSoonestExpiry | ReselectNone

datatype FailureClass = FailureClassRateLimit | FailureClassQuota

record EngineStats =
  Hits :: u64
  Misses :: u64
  Bindings :: u64
  Failovers :: u64
  Cooldowns :: u64

definition DefaultBindingTTL :: duration where "DefaultBindingTTL = 24 * hour"
definition DefaultSweepInterval :: duration where "DefaultSweepInterval = 5 * minute"
definition DefaultCooldown :: duration where "DefaultCooldown = 60 * second"
definition DefaultQuotaCooldown :: duration where "DefaultQuotaCooldown = 15 * minute"
definition QuotaCooldownFloor :: duration where "QuotaCooldownFloor = minute"
definition QuotaCooldownCeiling :: duration where "QuotaCooldownCeiling = 24 * hour"

section \<open>selector.go\<close>

fun sel_loop :: "string list \<Rightarrow> int list \<Rightarrow> int \<Rightarrow> CredentialRef list \<Rightarrow> weightedSelector option" where
  "sel_loop ids prefix tot [] =
     Some \<lparr>credentialIDs = ids, prefixSum = prefix, totalWeight = tot\<rparr>"
| "sel_loop ids prefix tot (r # rs) =
     (if Weight r \<le> 0 then None
      else let tot' = wrap64 (tot + Weight r)
           in sel_loop (ids @ [CredentialID r]) (prefix @ [tot']) tot' rs)"

definition newWeightedSelector :: "CredentialRef list \<Rightarrow> weightedSelector option" where
  "newWeightedSelector refs = (if refs = [] then None else sel_loop [] [] 0 refs)"

definition pick :: "weightedSelector \<Rightarrow> int \<Rightarrow> string" where
  "pick s r = credentialIDs s ! pick_index (prefixSum s) r"

section \<open>binding.go\<close>

definition expired :: "binding \<Rightarrow> duration \<Rightarrow> time \<Rightarrow> bool" where
  "expired b t now \<longleftrightarrow> now - boundAt b > t"

definition newModelState :: modelState where
  "newModelState = \<lparr>credentials = [], selector = None, bindings = fmempty, cooldowns = fmempty,
     hitsTotal = 0, missesTotal = 0, bindingsCount = 0, failoversTotal = 0\<rparr>"

definition credCount :: "modelState \<Rightarrow> nat" where
  "credCount st = length (credentials st)"

definition credentialInRefs :: "CredentialRef list \<Rightarrow> string \<Rightarrow> bool" where
  "credentialInRefs refs c = list_ex (\<lambda>r. CredentialID r = c) refs"

definition isCoolingLocked :: "modelState \<Rightarrow> string \<Rightarrow> time \<Rightarrow> bool" where
  "isCoolingLocked st c now =
     (case fmlookup (cooldowns st) c of None \<Rightarrow> False | Some until \<Rightarrow> until > now)"

definition Intn :: "int \<Rightarrow> nat \<Rightarrow> int option" where
  "Intn n w = (if n \<le> 0 then None else Some (int (w mod nat n)))"

fun healthy_total :: "modelState \<Rightarrow> time \<Rightarrow> int \<Rightarrow> CredentialRef list \<Rightarrow> int" where
  "healthy_total st now tot [] = tot"
| "healthy_total st now tot (r # rs) =
     (if isCoolingLocked st (CredentialID r) now then healthy_total st now tot rs
      else healthy_total st now (wrap64 (tot + Weight r)) rs)"

fun healthy_walk :: "modelState \<Rightarrow> time \<Rightarrow> int \<Rightarrow> int \<Rightarrow> CredentialRef list \<Rightarrow> string" where
  "healthy_walk st now r cum [] = ''''"
| "healthy_walk st now r cum (x # xs) =
     (if isCoolingLocked st (CredentialID x) now then healthy_walk st now r cum xs
      else let cum' = wrap64 (cum + Weight x)
           in if r < cum' then CredentialID x else healthy_walk st now r cum' xs)"

definition pickHealthyLocked :: "modelState \<Rightarrow> time \<Rightarrow> nat \<Rightarrow> lb_error + string" where
  "pickHealthyLocked st now w =
     (case selector st of
        None \<Rightarrow> Inr ''''
      | Some s \<Rightarrow>
          if totalWeight s \<le> 0 then Inr ''''
          else if map_len (cooldowns st) = 0 then
            (case Intn (totalWeight s) w of
               None \<Rightarrow> Inl PanicIntn
             | Some r \<Rightarrow> Inr (pick s r))
          else
            (let tot = healthy_total st now 0 (credentials st)
             in if tot = 0 then Inr ''''
                else case Intn tot w of
                       None \<Rightarrow> Inl PanicIntn
                     | Some r \<Rightarrow> Inr (healthy_walk st now r 0 (credentials st))))"

fun soonest_loop :: "modelState \<Rightarrow> time \<Rightarrow> string \<Rightarrow> time \<Rightarrow> CredentialRef list \<Rightarrow> string \<times> bool" where
  "soonest_loop st now best bestUntil [] = (best, best \<noteq> '''')"
| "soonest_loop st now best bestUntil (r # rs) =
     (case fmlookup (cooldowns st) (CredentialID r) of
        None \<Rightarrow> ('''', False)
      | Some until \<Rightarrow>
          if \<not> until > now then ('''', False)
          else if best = '''' \<or> until < bestUntil
          then soonest_loop st now (CredentialID r) until rs
          else soonest_loop st now best bestUntil rs)"

definition soonestCooldownLocked :: "modelState \<Rightarrow> time \<Rightarrow> string \<times> bool" where
  "soonestCooldownLocked st now = soonest_loop st now '''' 0 (credentials st)"

section \<open>engine.go: construction, configuration changes, the janitor\<close>

definition NewEngine :: "duration \<Rightarrow> duration \<Rightarrow> duration \<Rightarrow> Engine" where
  "NewEngine t sweepInterval cooldown =
     \<lparr>models = fmempty,
      ttl = (if t \<le> 0 then DefaultBindingTTL else t),
      sweepInt = (if sweepInterval \<le> 0 then DefaultSweepInterval else sweepInterval),
      defaultCooldown = (if cooldown \<le> 0 then DefaultCooldown else cooldown),
      quotaCooldown = DefaultQuotaCooldown,
      stopped = False\<rparr>"

definition sweep_state :: "duration \<Rightarrow> time \<Rightarrow> modelState \<Rightarrow> modelState" where
  "sweep_state t now st =
     st\<lparr>cooldowns := map_keep (\<lambda>until. until > now) (cooldowns st),
        bindings := map_keep (\<lambda>b. \<not> expired b t now) (bindings st),
        bindingsCount := bindingsCount st
          - of_nat (map_dropped (\<lambda>b. \<not> expired b t now) (bindings st))\<rparr>"

definition sweepOnce :: "Engine \<Rightarrow> time \<Rightarrow> Engine" where
  "sweepOnce e now = e\<lparr>models := fmmap (sweep_state (ttl e) now) (models e)\<rparr>"

definition applyRefsLocked :: "modelState \<Rightarrow> CredentialRef list \<Rightarrow> modelState" where
  "applyRefsLocked st refs = st\<lparr>credentials := refs, selector := newWeightedSelector refs\<rparr>"

definition filter_orphans :: "modelState \<Rightarrow> CredentialRef list \<Rightarrow> modelState" where
  "filter_orphans st refs =
     (let surviving = (\<lambda>b. credentialID b \<in> set (map CredentialID refs))
      in st\<lparr>bindings := map_keep surviving (bindings st),
            bindingsCount := bindingsCount st - of_nat (map_dropped surviving (bindings st))\<rparr>)"

definition OnModelChanged :: "Engine \<Rightarrow> string \<Rightarrow> CredentialRef list \<Rightarrow> Engine" where
  "OnModelChanged e modelID refs =
     (if refs = [] then e\<lparr>models := fmdrop modelID (models e)\<rparr>
      else let st = (case fmlookup (models e) modelID of None \<Rightarrow> newModelState | Some st \<Rightarrow> st)
           in e\<lparr>models := fmupd modelID (filter_orphans (applyRefsLocked st refs) refs) (models e)\<rparr>)"

definition RebindFromStore :: "Engine \<Rightarrow> string \<Rightarrow> CredentialRef list \<Rightarrow> Engine" where
  "RebindFromStore e modelID refs =
     (if refs = [] then e\<lparr>models := fmdrop modelID (models e)\<rparr>
      else let st = (case fmlookup (models e) modelID of None \<Rightarrow> newModelState | Some st \<Rightarrow> st)
           in e\<lparr>models := fmupd modelID (applyRefsLocked st refs) (models e)\<rparr>)"

definition delete_credential :: "string \<Rightarrow> modelState \<Rightarrow> modelState" where
  "delete_credential c st =
     st\<lparr>bindings := map_keep (\<lambda>b. credentialID b \<noteq> c) (bindings st),
        bindingsCount := bindingsCount st
          - of_nat (map_dropped (\<lambda>b. credentialID b \<noteq> c) (bindings st)),
        cooldowns := fmdrop c (cooldowns st)\<rparr>"

definition OnCredentialDeleted :: "Engine \<Rightarrow> string \<Rightarrow> Engine" where
  "OnCredentialDeleted e c = e\<lparr>models := fmmap (delete_credential c) (models e)\<rparr>"

definition Stop :: "Engine \<Rightarrow> Engine" where
  "Stop e = e\<lparr>stopped := True\<rparr>"

definition Stats :: "Engine \<Rightarrow> (string, EngineStats) fmap" where
  "Stats e = fmmap (\<lambda>st. \<lparr>Hits = hitsTotal st, Misses = missesTotal st,
       Bindings = bindingsCount st, Failovers = failoversTotal st,
       Cooldowns = of_nat (map_len (cooldowns st))\<rparr>) (models e)"

section \<open>engine.go: GetOrSelect, one definition per critical section\<close>

record gos_out =
  out_id :: string
  newlyBound :: bool
  gos_err :: "lb_error option"

abbreviation gos_fail :: "lb_error \<Rightarrow> gos_out" where
  "gos_fail x \<equiv> \<lparr>out_id = '''', newlyBound = False, gos_err = Some x\<rparr>"

abbreviation gos_ok :: "string \<Rightarrow> bool \<Rightarrow> gos_out" where
  "gos_ok i nb \<equiv> \<lparr>out_id = i, newlyBound = nb, gos_err = None\<rparr>"

definition binding_valid :: "duration \<Rightarrow> time \<Rightarrow> modelState \<Rightarrow> binding \<Rightarrow> bool" where
  "binding_valid t now st b \<longleftrightarrow>
     \<not> expired b t now \<and> credentialInRefs (credentials st) (credentialID b) \<and>
     \<not> isCoolingLocked st (credentialID b) now"

definition gos_read :: "duration \<Rightarrow> time \<Rightarrow> string \<Rightarrow> modelState \<Rightarrow> string option" where
  "gos_read t now key st =
     (if key = '''' then None
      else case fmlookup (bindings st) key of
             None \<Rightarrow> None
           | Some b \<Rightarrow> if binding_valid t now st b then Some (credentialID b) else None)"

definition gos_hit :: "duration \<Rightarrow> time \<Rightarrow> string \<Rightarrow> string \<Rightarrow> modelState \<Rightarrow> modelState option" where
  "gos_hit t now key hitCred st =
     (case fmlookup (bindings st) key of
        None \<Rightarrow> None
      | Some b \<Rightarrow>
          if credentialID b = hitCred \<and> \<not> expired b t now \<and> \<not> isCoolingLocked st (credentialID b) now
          then Some (st\<lparr>bindings := fmupd key (b\<lparr>boundAt := now\<rparr>) (bindings st),
                        hitsTotal := hitsTotal st + 1\<rparr>)
          else None)"

definition gos_pick :: "time \<Rightarrow> nat \<Rightarrow> string \<Rightarrow> modelState \<Rightarrow> gos_out \<times> modelState" where
  "gos_pick now w key st =
     (case pickHealthyLocked st now w of
        Inl x \<Rightarrow> (gos_fail x, st)
      | Inr p \<Rightarrow>
          if p = '''' then
            (let (soonest, allCooling) = soonestCooldownLocked st now
             in if \<not> allCooling \<or> soonest = '''' then (gos_fail ErrNoCredentials, st)
                else (gos_ok soonest False, st\<lparr>missesTotal := missesTotal st + 1\<rparr>))
          else
            (let st1 = st\<lparr>missesTotal := missesTotal st + 1\<rparr>
             in if key = '''' then (gos_ok p False, st1)
                else (gos_ok p True,
                      st1\<lparr>bindings := fmupd key \<lparr>credentialID = p, boundAt = now\<rparr> (bindings st1),
                          bindingsCount := bindingsCount st1 + 1\<rparr>)))"

definition gos_full :: "duration \<Rightarrow> time \<Rightarrow> nat \<Rightarrow> string \<Rightarrow> modelState \<Rightarrow> gos_out \<times> modelState" where
  "gos_full t now w key st =
     (if key = '''' then gos_pick now w key st
      else case fmlookup (bindings st) key of
             None \<Rightarrow> gos_pick now w key st
           | Some b \<Rightarrow>
               if binding_valid t now st b
               then (gos_ok (credentialID b) False,
                     st\<lparr>bindings := fmupd key (b\<lparr>boundAt := now\<rparr>) (bindings st),
                        hitsTotal := hitsTotal st + 1\<rparr>)
               else gos_pick now w key
                      (st\<lparr>bindings := fmdrop key (bindings st),
                          bindingsCount := bindingsCount st - 1\<rparr>))"

definition gos_sections ::
  "duration \<Rightarrow> time \<Rightarrow> nat \<Rightarrow> string \<Rightarrow> modelState \<Rightarrow> modelState \<Rightarrow> modelState \<Rightarrow> modelState \<Rightarrow> modelState
     \<Rightarrow> gos_out \<times> modelState option" where
  "gos_sections t now w key s_count s_fast s_read s_hit s_full =
     (if credCount s_count = 0 then (gos_fail ErrNoCredentials, None)
      else if credCount s_count = 1 then (gos_ok (CredentialID (hd (credentials s_fast))) False, None)
      else case gos_read t now key s_read of
             Some hitCred \<Rightarrow>
               (case gos_hit t now key hitCred s_hit of
                  Some st' \<Rightarrow> (gos_ok hitCred False, Some st')
                | None \<Rightarrow> map_prod id Some (gos_full t now w key s_full))
           | None \<Rightarrow> map_prod id Some (gos_full t now w key s_full))"

definition st_GetOrSelect :: "duration \<Rightarrow> time \<Rightarrow> nat \<Rightarrow> string \<Rightarrow> modelState \<Rightarrow> gos_out \<times> modelState" where
  "st_GetOrSelect t now w key st =
     (let (out, st') = gos_sections t now w key st st st st st
      in (out, case st' of None \<Rightarrow> st | Some s \<Rightarrow> s))"

definition GetOrSelect :: "Engine \<Rightarrow> time \<Rightarrow> nat \<Rightarrow> string \<Rightarrow> string \<Rightarrow> gos_out \<times> Engine" where
  "GetOrSelect e now w modelID key =
     (case fmlookup (models e) modelID of
        None \<Rightarrow> (gos_fail ErrNoCredentials, e)
      | Some st \<Rightarrow>
          (let (out, st') = st_GetOrSelect (ttl e) now w key st
           in (out, e\<lparr>models := fmupd modelID st' (models e)\<rparr>)))"

section \<open>failure_class.go: the cooldown policy\<close>

definition SetQuotaCooldown :: "Engine \<Rightarrow> duration \<Rightarrow> Engine" where
  "SetQuotaCooldown e d =
     (let d1 = (if d \<le> 0 then DefaultQuotaCooldown else d);
          d2 = (if d1 < QuotaCooldownFloor then QuotaCooldownFloor else d1);
          d3 = (if d2 > QuotaCooldownCeiling then QuotaCooldownCeiling else d2)
      in e\<lparr>quotaCooldown := d3\<rparr>)"

definition QuotaCooldown :: "Engine option \<Rightarrow> duration" where
  "QuotaCooldown eo =
     (case eo of
        None \<Rightarrow> DefaultQuotaCooldown
      | Some e \<Rightarrow> if quotaCooldown e \<le> 0 then DefaultQuotaCooldown else quotaCooldown e)"

definition CooldownFor :: "Engine option \<Rightarrow> FailureClass \<Rightarrow> duration \<Rightarrow> duration" where
  "CooldownFor eo cls ra =
     (let retryAfter = (if ra < 0 then 0 else ra)
      in if cls = FailureClassQuota then
           (let retryAfter = (if retryAfter > QuotaCooldownCeiling then QuotaCooldownCeiling
                              else retryAfter);
                q = QuotaCooldown eo
            in if retryAfter > q then retryAfter else q)
         else if retryAfter > 0 then retryAfter
         else case eo of
                None \<Rightarrow> DefaultCooldown
              | Some e \<Rightarrow> if defaultCooldown e \<le> 0 then DefaultCooldown else defaultCooldown e)"

section \<open>engine.go: ExcludeAndReselect\<close>

text \<open>
  A panic of the random source unwinds through the deferred unlock; \<open>ReselectPanic\<close> keeps that
  outcome apart from the three modes.
\<close>

datatype reselect_out = Reselected string ReselectMode | ReselectPanic

definition reselect_pick ::
  "time \<Rightarrow> nat \<Rightarrow> string \<Rightarrow> string \<Rightarrow> modelState \<Rightarrow> reselect_out \<times> modelState" where
  "reselect_pick now w key excl st =
     (case pickHealthyLocked st now w of
        Inl _ \<Rightarrow> (ReselectPanic, st)
      | Inr p \<Rightarrow>
          if p = '''' \<or> p = excl then
            (let (soonest, allCooling) = soonestCooldownLocked st now
             in if \<not> allCooling \<or> soonest = '''' then (Reselected '''' ReselectNone, st)
                else (Reselected soonest ReselectSoonestExpiry, st))
          else
            (let st1 = st\<lparr>failoversTotal := failoversTotal st + 1\<rparr>
             in if key = '''' then (Reselected p ReselectHealthy, st1)
                else (Reselected p ReselectHealthy,
                      st1\<lparr>bindingsCount :=
                            (if fmlookup (bindings st1) key = None then bindingsCount st1 + 1
                             else bindingsCount st1),
                          bindings := fmupd key \<lparr>credentialID = p, boundAt = now\<rparr> (bindings st1)\<rparr>)))"

definition st_excludeAndReselect ::
  "duration \<Rightarrow> time \<Rightarrow> nat \<Rightarrow> string \<Rightarrow> string \<Rightarrow> duration \<Rightarrow> modelState \<Rightarrow> reselect_out \<times> modelState" where
  "st_excludeAndReselect defCool now w key excl cool st =
     (if credCount st = 0 then (Reselected '''' ReselectNone, st)
      else if credCount st = 1 then (Reselected '''' ReselectNone, st)
      else
        (let cooldown = (if cool \<le> 0 then defCool else cool);
             st1 = st\<lparr>cooldowns := fmupd excl (now + cooldown) (cooldowns st)\<rparr>
         in if key = '''' then reselect_pick now w key excl st1
            else case fmlookup (bindings st1) key of
                   None \<Rightarrow> reselect_pick now w key excl st1
                 | Some b \<Rightarrow>
                     if credentialID b \<noteq> excl \<and> \<not> isCoolingLocked st1 (credentialID b) now
                     then (Reselected (credentialID b) ReselectHealthy, st1)
                     else reselect_pick now w key excl st1))"

definition excludeAndReselectWithCooldown ::
  "Engine \<Rightarrow> time \<Rightarrow> nat \<Rightarrow> string \<Rightarrow> string \<Rightarrow> string \<Rightarrow> duration \<Rightarrow> reselect_out \<times> Engine" where
  "excludeAndReselectWithCooldown e now w modelID key excl cool =
     (case fmlookup (models e) modelID of
        None \<Rightarrow> (Reselected '''' ReselectNone, e)
      | Some st \<Rightarrow>
          (let (out, st') = st_excludeAndReselect (defaultCooldown e) now w key excl cool st
           in (out, e\<lparr>models := fmupd modelID st' (models e)\<rparr>)))"

definition ExcludeAndReselectForClass ::
  "Engine \<Rightarrow> time \<Rightarrow> nat \<Rightarrow> string \<Rightarrow> string \<Rightarrow> string \<Rightarrow> FailureClass \<Rightarrow> duration \<Rightarrow> reselect_out \<times> Engine" where
  "ExcludeAndReselectForClass e now w modelID key excl cls retryAfter =
     excludeAndReselectWithCooldown e now w modelID key excl (CooldownFor (Some e) cls retryAfter)"

definition ExcludeAndReselect ::
  "Engine \<Rightarrow> time \<Rightarrow> nat \<Rightarrow> string \<Rightarrow> string \<Rightarrow> string \<Rightarrow> duration \<Rightarrow> reselect_out \<times> Engine" where
  "ExcludeAndReselect e now w modelID key excl retryAfter =
     ExcludeAndReselectForClass e now w modelID key excl FailureClassRateLimit retryAfter"

section \<open>Invariants and reachable engines\<close>

definition refs_valid :: "CredentialRef list \<Rightarrow> bool" where
  "refs_valid refs \<longleftrightarrow>
     (\<forall>r \<in> set refs. 0 < Weight r \<and> CredentialID r \<noteq> '''') \<and> fits64 (sum_list (map Weight refs))"

definition ms_inv :: "modelState \<Rightarrow> bool" where
  "ms_inv st \<longleftrightarrow>
     bindingsCount st = of_nat (map_len (bindings st)) \<and>
     selector st = newWeightedSelector (credentials st) \<and>
     fmlookup (bindings st) '''' = None \<and> credentials st \<noteq> []"

definition engine_inv :: "Engine \<Rightarrow> bool" where
  "engine_inv e \<longleftrightarrow> (\<forall>m st. fmlookup (models e) m = Some st \<longrightarrow> ms_inv st)"

inductive engine_step :: "Engine \<Rightarrow> Engine \<Rightarrow> bool" where
  step_select: "engine_step e (snd (GetOrSelect e now w m key))"
| step_exclude: "engine_step e (snd (ExcludeAndReselectForClass e now w m key excl cls ra))"
| step_changed: "engine_step e (OnModelChanged e m refs)"
| step_rebind: "engine_step e (RebindFromStore e m refs)"
| step_deleted: "engine_step e (OnCredentialDeleted e c)"
| step_sweep: "\<not> stopped e \<Longrightarrow> engine_step e (sweepOnce e now)"
| step_quota: "engine_step e (SetQuotaCooldown e d)"
| step_stop: "engine_step e (Stop e)"

inductive engine_reachable :: "Engine \<Rightarrow> bool" where
  reach_new: "engine_reachable (NewEngine t s c)"
| reach_step: "engine_reachable e \<Longrightarrow> engine_step e e' \<Longrightarrow> engine_reachable e'"

definition healthy_refs :: "modelState \<Rightarrow> time \<Rightarrow> CredentialRef list" where
  "healthy_refs st now = filter (\<lambda>r. \<not> isCoolingLocked st (CredentialID r) now) (credentials st)"

definition all_cooling :: "modelState \<Rightarrow> time \<Rightarrow> bool" where
  "all_cooling st now \<longleftrightarrow> (\<forall>r \<in> set (credentials st). isCoolingLocked st (CredentialID r) now)"

definition cooldown_until :: "modelState \<Rightarrow> string \<Rightarrow> time" where
  "cooldown_until st c = (case fmlookup (cooldowns st) c of None \<Rightarrow> 0 | Some u \<Rightarrow> u)"

definition soonest_cooling :: "modelState \<Rightarrow> string \<Rightarrow> bool" where
  "soonest_cooling st c \<longleftrightarrow> c \<in> CredentialID ` set (credentials st) \<and>
     (\<forall>r \<in> set (credentials st). cooldown_until st c \<le> cooldown_until st (CredentialID r))"

definition cred_bound :: "modelState \<Rightarrow> string \<Rightarrow> (string \<times> time) option" where
  "cred_bound st key =
     (if key = '''' then None
      else map_option (\<lambda>b. (credentialID b, boundAt b)) (fmlookup (bindings st) key))"

definition cred_usable :: "modelState \<Rightarrow> string \<Rightarrow> time \<Rightarrow> bool" where
  "cred_usable st c now \<longleftrightarrow>
     2 \<le> credCount st \<and> credentialInRefs (credentials st) c \<and> \<not> isCoolingLocked st c now"

text \<open>What a selection under the lock promises of its answer and of the state it leaves.\<close>

definition served :: "time \<Rightarrow> string \<Rightarrow> gos_out \<Rightarrow> modelState \<Rightarrow> bool" where
  "served now key out st' \<longleftrightarrow>
     gos_err out = None \<and>
     (\<not> isCoolingLocked st' (out_id out) now \<or>
      all_cooling st' now \<and> soonest_cooling st' (out_id out) \<and> \<not> newlyBound out) \<and>
     (newlyBound out \<longrightarrow>
        key \<noteq> '''' \<and> fmlookup (bindings st') key = Some \<lparr>credentialID = out_id out, boundAt = now\<rparr>)"

text \<open>What a failover to a healthy credential promises.\<close>

definition reselect_healthy :: "time \<Rightarrow> string \<Rightarrow> string \<Rightarrow> string \<Rightarrow> modelState \<Rightarrow> bool" where
  "reselect_healthy now key excl i st' \<longleftrightarrow>
     i \<noteq> excl \<and> \<not> isCoolingLocked st' i now \<and>
     (key \<noteq> '''' \<longrightarrow> map_option credentialID (fmlookup (bindings st') key) = Some i)"

text \<open>A concrete model with three credentials, for the instances below.\<close>

definition ex_refs :: "CredentialRef list" where
  "ex_refs = [\<lparr>CredentialID = ''a'', Weight = 3, Position = 0\<rparr>,
              \<lparr>CredentialID = ''b'', Weight = 1, Position = 1\<rparr>,
              \<lparr>CredentialID = ''c'', Weight = 2, Position = 2\<rparr>]"

definition ex_state :: modelState where
  "ex_state = (applyRefsLocked newModelState ex_refs)\<lparr>
     bindings := fmupd ''k'' \<lparr>credentialID = ''b'', boundAt = 100\<rparr> fmempty,
     bindingsCount := 1,
     cooldowns := fmupd ''a'' 500 fmempty\<rparr>"

definition ex_all_cooling :: modelState where
  "ex_all_cooling = ex_state\<lparr>cooldowns := fmupd ''c'' 300 (fmupd ''b'' 400 (fmupd ''a'' 500 fmempty))\<rparr>"

definition ex_engine :: Engine where
  "ex_engine = snd (GetOrSelect (OnModelChanged (NewEngine 0 0 0) ''m'' ex_refs) 100 3 ''m'' ''k'')"

section \<open>The weighted choice\<close>

lemma sum_list_nonneg_map: "\<forall>r \<in> set rs. (0::int) < f r \<Longrightarrow> 0 \<le> sum_list (map f rs)"
  by (induction rs) auto

lemma sum_list_pos: "\<forall>r \<in> set rs. (0::int) < f r \<Longrightarrow> rs \<noteq> [] \<Longrightarrow> 0 < sum_list (map f rs)"
proof (induction rs)
  case (Cons r rs)
  then show ?case by (cases "rs = []") auto
qed simp

lemma sel_loop_eq:
  assumes "\<forall>r \<in> set rs. 0 < Weight r" and "0 \<le> acc" and "fits64 (acc + sum_list (map Weight rs))"
  shows "sel_loop ids ps acc rs =
     Some \<lparr>credentialIDs = ids @ map CredentialID rs,
           prefixSum = ps @ prefix_from acc (map Weight rs),
           totalWeight = acc + sum_list (map Weight rs)\<rparr>"
  using assms
proof (induction rs arbitrary: ids ps acc)
  case (Cons r rs)
  have nn: "0 \<le> sum_list (map Weight rs)"
    using Cons.prems(1) by (simp add: sum_list_nonneg_map)
  have "fits64 (acc + Weight r)"
    using Cons.prems nn by (intro fits64_mono [OF _ _ Cons.prems(3)]) auto
  then show ?case using Cons by (auto simp: Let_def add.assoc)
qed simp

lemma newWeightedSelector_eq:
  assumes "refs_valid refs" and "refs \<noteq> []"
  shows "newWeightedSelector refs =
     Some \<lparr>credentialIDs = map CredentialID refs, prefixSum = prefix_from 0 (map Weight refs),
           totalWeight = sum_list (map Weight refs)\<rparr>"
  using assms sel_loop_eq [of refs 0 "[]" "[]"] by (auto simp: newWeightedSelector_def refs_valid_def)

lemma healthy_total_eq:
  assumes "\<forall>r \<in> set rs. 0 < Weight r" and "0 \<le> acc" and "fits64 (acc + sum_list (map Weight rs))"
  shows "healthy_total st now acc rs =
     acc + sum_list (map Weight (filter (\<lambda>r. \<not> isCoolingLocked st (CredentialID r) now) rs))"
  using assms
proof (induction rs arbitrary: acc)
  case (Cons r rs)
  have nn: "0 \<le> sum_list (map Weight rs)" and wr: "0 < Weight r"
    using Cons.prems(1) by (simp_all add: sum_list_nonneg_map)
  have f1: "fits64 (acc + Weight r)" and f2: "fits64 (acc + sum_list (map Weight rs))"
    using Cons.prems(2) nn wr by (auto intro!: fits64_mono [OF _ _ Cons.prems(3)])
  show ?case using Cons f1 f2 by (simp add: add.assoc)
qed simp

lemma healthy_walk_eq:
  assumes "\<forall>r \<in> set rs. 0 < Weight r" and "0 \<le> cum" and "fits64 (cum + sum_list (map Weight rs))"
  shows "healthy_walk st now r cum rs =
     (let hs = filter (\<lambda>r. \<not> isCoolingLocked st (CredentialID r) now) rs
      in case walk_index r cum (map Weight hs) of None \<Rightarrow> '''' | Some i \<Rightarrow> CredentialID (hs ! i))"
  using assms
proof (induction rs arbitrary: cum)
  case (Cons x xs)
  have nn: "0 \<le> sum_list (map Weight xs)" and wx: "0 < Weight x"
    using Cons.prems(1) by (simp_all add: sum_list_nonneg_map)
  have f1: "fits64 (cum + Weight x)" and f2: "fits64 (cum + sum_list (map Weight xs))"
    using Cons.prems(2) nn wx by (auto intro!: fits64_mono [OF _ _ Cons.prems(3)])
  show ?case using Cons f1 f2 by (auto simp: Let_def add.assoc split: option.splits)
qed simp

lemma Intn_bound: "0 < n \<Longrightarrow> int (w mod nat n) < n"
  by (metis mod_less_divisor of_nat_less_iff int_nat_eq less_imp_le zero_less_nat_eq)

lemma healthy_refs_no_cooldowns: "cooldowns st = fmempty \<Longrightarrow> healthy_refs st now = credentials st"
  by (simp add: healthy_refs_def isCoolingLocked_def)

lemma pickHealthyLocked_eq:
  assumes inv: "ms_inv st" and v: "refs_valid (credentials st)"
  shows "pickHealthyLocked st now w =
     (let hs = healthy_refs st now; ws = map Weight hs
      in if hs = [] then Inr ''''
         else Inr (CredentialID (hs ! pick_index (prefix_from 0 ws) (int (w mod nat (sum_list ws))))))"
proof -
  let ?cs = "credentials st" and ?hs = "healthy_refs st now"
  let ?ws = "map Weight ?hs"
  let ?r = "int (w mod nat (sum_list ?ws))"
  have ne: "?cs \<noteq> []" using inv by (simp add: ms_inv_def)
  have sel: "selector st = Some \<lparr>credentialIDs = map CredentialID ?cs,
      prefixSum = prefix_from 0 (map Weight ?cs), totalWeight = sum_list (map Weight ?cs)\<rparr>"
    using inv newWeightedSelector_eq [OF v ne] by (simp add: ms_inv_def)
  have pos: "\<forall>r \<in> set ?cs. 0 < Weight r" and hpos: "\<forall>r \<in> set ?hs. 0 < Weight r"
    and fit: "fits64 (0 + sum_list (map Weight ?cs))"
    using v by (auto simp: refs_valid_def healthy_refs_def)
  have tot: "0 < sum_list (map Weight ?cs)" using pos ne by (rule sum_list_pos)
  show ?thesis
  proof (cases "cooldowns st = fmempty")
    case True
    have "pick_index (prefix_from 0 (map Weight ?cs)) r < length ?cs" for r
      using ne pick_index_less [of "prefix_from 0 (map Weight ?cs)" r] by simp
    then show ?thesis
      using True sel tot ne
      by (simp add: pickHealthyLocked_def Intn_def pick_def healthy_refs_no_cooldowns Let_def)
  next
    case False
    have htot: "healthy_total st now 0 ?cs = sum_list ?ws"
      using healthy_total_eq [OF pos _ fit] by (simp add: healthy_refs_def)
    show ?thesis
    proof (cases "?hs = []")
      case True
      then show ?thesis using False sel tot htot by (simp add: pickHealthyLocked_def)
    next
      case h: False
      have hsum: "0 < sum_list ?ws" using hpos h by (rule sum_list_pos)
      have r: "0 \<le> ?r" "?r < sum_list ?ws" using hsum by (simp_all add: Intn_bound)
      have "walk_index ?r 0 ?ws = Some (pick_index (prefix_from 0 ?ws) ?r)"
        using hpos r by (intro walk_index_is_pick_index) auto
      then have "healthy_walk st now ?r 0 ?cs =
          CredentialID (?hs ! pick_index (prefix_from 0 ?ws) ?r)"
        using healthy_walk_eq [OF pos _ fit] by (simp add: healthy_refs_def Let_def)
      then show ?thesis
        using False sel tot htot h hsum by (simp add: pickHealthyLocked_def Intn_def Let_def)
    qed
  qed
qed

lemma pickHealthyLocked_cases:
  assumes "ms_inv st" and "refs_valid (credentials st)"
  obtains (none) "all_cooling st now" "pickHealthyLocked st now w = Inr ''''"
  | (some) r where "r \<in> set (credentials st)" "\<not> isCoolingLocked st (CredentialID r) now"
      "pickHealthyLocked st now w = Inr (CredentialID r)" "CredentialID r \<noteq> ''''"
proof (cases "healthy_refs st now = []")
  case True
  then show ?thesis
    using none pickHealthyLocked_eq [OF assms]
    by (auto simp: healthy_refs_def all_cooling_def filter_empty_conv Let_def)
next
  case False
  let ?hs = "healthy_refs st now"
  let ?i = "pick_index (prefix_from 0 (map Weight ?hs)) (int (w mod nat (sum_list (map Weight ?hs))))"
  have "?i < length ?hs"
    using False pick_index_less [of "prefix_from 0 (map Weight ?hs)"] by simp
  then have mem: "?hs ! ?i \<in> set ?hs" by (rule nth_mem)
  show ?thesis
    by (rule some [of "?hs ! ?i"])
      (use mem False pickHealthyLocked_eq [OF assms] assms(2) in
        \<open>auto simp: healthy_refs_def Let_def refs_valid_def\<close>)
qed

lemma pick_draws_card:
  fixes ws :: "int list"
  assumes "\<forall>x \<in> set ws. 0 < x" and "i < length ws"
  shows "card {w. w < nat (sum_list ws) \<and> pick_index (prefix_from 0 ws) (int w) = i} = nat (ws ! i)"
proof -
  let ?a = "sum_list (take i ws)" and ?b = "sum_list (take (Suc i) ws)"
  have b: "?b = ?a + ws ! i" using assms(2) by (rule sum_list_take_Suc)
  have a0: "0 \<le> ?a" using assms(1) by (intro sum_list_nonneg) (meson in_set_takeD less_imp_le)
  have bt: "?b \<le> sum_list ws"
    using sum_list_take_mono [OF assms(1), of "Suc i" "length ws"] assms(2) by simp
  have iff: "pick_index (prefix_from 0 ws) (int w) = i \<longleftrightarrow> ?a \<le> int w \<and> int w < ?b"
    if "int w < sum_list ws" for w
    using bsearch.search_interval [OF assms, of "int w"] that by simp
  have "w < nat (sum_list ws) \<and> pick_index (prefix_from 0 ws) (int w) = i \<longleftrightarrow> nat ?a \<le> w \<and> w < nat ?b" for w
  proof (cases "int w < sum_list ws")
    case True
    then show ?thesis unfolding iff [OF True] by (simp add: nat_le_iff zless_nat_eq_int_zless)
  next
    case False
    then show ?thesis using bt by (simp add: zless_nat_eq_int_zless)
  qed
  then have "{w. w < nat (sum_list ws) \<and> pick_index (prefix_from 0 ws) (int w) = i} = {nat ?a ..< nat ?b}"
    by (intro set_eqI) (simp only: mem_Collect_eq atLeastLessThan_iff)
  then show ?thesis using a0 b by simp
qed

section \<open>The least-recently-blocked fallback\<close>

lemma isCooling_iff: "isCoolingLocked st c now \<longleftrightarrow> (\<exists>u. fmlookup (cooldowns st) c = Some u \<and> now < u)"
  by (auto simp: isCoolingLocked_def split: option.splits)

lemma soonest_loop_all_cooling:
  assumes "\<forall>r \<in> set rs. isCoolingLocked st (CredentialID r) now \<and> CredentialID r \<noteq> ''''"
    and "best \<noteq> '''' \<longrightarrow> cooldown_until st best = bestUntil" and "best = '''' \<longrightarrow> rs \<noteq> []"
  shows "\<exists>c. soonest_loop st now best bestUntil rs = (c, True) \<and> c \<noteq> '''' \<and>
           (c = best \<or> c \<in> CredentialID ` set rs) \<and>
           (best \<noteq> '''' \<longrightarrow> cooldown_until st c \<le> bestUntil) \<and>
           (\<forall>r \<in> set rs. cooldown_until st c \<le> cooldown_until st (CredentialID r))"
  using assms
proof (induction rs arbitrary: best bestUntil)
  case (Cons r rs)
  obtain u where u: "fmlookup (cooldowns st) (CredentialID r) = Some u" "now < u"
    using Cons.prems(1) by (auto simp: isCooling_iff)
  then have cu: "cooldown_until st (CredentialID r) = u" by (simp add: cooldown_until_def)
  have id: "CredentialID r \<noteq> ''''" using Cons.prems(1) by simp
  show ?case
  proof (cases "best = '''' \<or> u < bestUntil")
    case True
    obtain c where "soonest_loop st now (CredentialID r) u rs = (c, True)" "c \<noteq> ''''"
        "c = CredentialID r \<or> c \<in> CredentialID ` set rs" "cooldown_until st c \<le> u"
        "\<forall>r \<in> set rs. cooldown_until st c \<le> cooldown_until st (CredentialID r)"
      using Cons.IH [of "CredentialID r" u] Cons.prems(1) cu id by auto
    then show ?thesis using True u cu by auto
  next
    case False
    then obtain c where "soonest_loop st now best bestUntil rs = (c, True)" "c \<noteq> ''''"
        "c = best \<or> c \<in> CredentialID ` set rs" "cooldown_until st c \<le> bestUntil"
        "\<forall>r \<in> set rs. cooldown_until st c \<le> cooldown_until st (CredentialID r)"
      using Cons.IH [of best bestUntil] Cons.prems by auto
    then show ?thesis using False u cu by auto
  qed
qed auto

lemma soonest_loop_not_all:
  "\<exists>r \<in> set rs. \<not> isCoolingLocked st (CredentialID r) now \<Longrightarrow>
   soonest_loop st now best bestUntil rs = ('''', False)"
  by (induction rs arbitrary: best bestUntil) (auto simp: isCoolingLocked_def split: option.splits)

lemma soonestCooldownLocked_spec:
  assumes "refs_valid (credentials st)" and "credentials st \<noteq> []"
  shows "if all_cooling st now
         then \<exists>c. soonestCooldownLocked st now = (c, True) \<and> soonest_cooling st c
         else soonestCooldownLocked st now = ('''', False)"
proof (cases "all_cooling st now")
  case True
  then have "\<forall>r \<in> set (credentials st). isCoolingLocked st (CredentialID r) now \<and> CredentialID r \<noteq> ''''"
    using assms(1) by (auto simp: all_cooling_def refs_valid_def)
  from soonest_loop_all_cooling [OF this, of "''''" 0] show ?thesis
    using True assms(2) by (auto simp: soonestCooldownLocked_def soonest_cooling_def)
next
  case False
  then have "\<exists>r \<in> set (credentials st). \<not> isCoolingLocked st (CredentialID r) now"
    by (auto simp: all_cooling_def)
  from soonest_loop_not_all [OF this] show ?thesis
    using False by (simp add: soonestCooldownLocked_def)
qed

section \<open>Every operation keeps the invariant\<close>

lemma ms_inv_gos_pick:
  assumes "ms_inv st" and "key \<noteq> '''' \<longrightarrow> fmlookup (bindings st) key = None"
  shows "ms_inv (snd (gos_pick now w key st))"
  using assms count_after_upd [of "bindingsCount st" "bindings st" key]
  by (auto simp: gos_pick_def ms_inv_def Let_def split: sum.splits prod.splits if_splits)

lemma ms_inv_touch:
  assumes "ms_inv st" and "fmlookup (bindings st) key = Some b" and "key \<noteq> ''''"
  shows "ms_inv (st\<lparr>bindings := fmupd key b' (bindings st), hitsTotal := h\<rparr>)"
  using assms by (auto simp: ms_inv_def map_len_fmupd)

lemma ms_inv_unbind:
  assumes "ms_inv st" and "fmlookup (bindings st) key = Some b"
  shows "ms_inv (st\<lparr>bindings := fmdrop key (bindings st), bindingsCount := bindingsCount st - 1\<rparr>)"
  using assms count_after_drop [of "bindingsCount st" "bindings st" key b] by (simp add: ms_inv_def)

lemma ms_inv_gos_full:
  assumes "ms_inv st"
  shows "ms_inv (snd (gos_full t now w key st))"
proof (cases "key = '''' \<or> fmlookup (bindings st) key = None")
  case True
  then show ?thesis using ms_inv_gos_pick [OF assms] by (auto simp: gos_full_def split: option.splits)
next
  case False
  then obtain b where b: "fmlookup (bindings st) key = Some b" by auto
  show ?thesis
    using False b ms_inv_touch [OF assms b] ms_inv_gos_pick [OF ms_inv_unbind [OF assms b]]
    by (simp add: gos_full_def)
qed

lemma ms_inv_gos_hit:
  assumes "ms_inv st" and "gos_hit t now key c st = Some st'"
  shows "ms_inv st'"
proof -
  have "key \<noteq> ''''" using assms by (auto simp: gos_hit_def ms_inv_def)
  then show ?thesis using assms ms_inv_touch [OF assms(1)] by (auto simp: gos_hit_def split: option.splits if_splits)
qed

lemma ms_inv_gos_sections:
  assumes "ms_inv s_hit" and "ms_inv s_full"
    and "gos_sections t now w key s_count s_fast s_read s_hit s_full = (out, Some st')"
  shows "ms_inv st'"
  using assms ms_inv_gos_full [OF assms(2), of t now w key] ms_inv_gos_hit [OF assms(1)]
  by (auto simp: gos_sections_def map_prod_def split: if_splits option.splits prod.splits)

lemma ms_inv_st_GetOrSelect:
  assumes "ms_inv st"
  shows "ms_inv (snd (st_GetOrSelect t now w key st))"
  using assms ms_inv_gos_sections [OF assms assms]
  by (auto simp: st_GetOrSelect_def split: prod.splits option.splits)

lemma ms_inv_cooldowns: "ms_inv (st\<lparr>cooldowns := cd\<rparr>) = ms_inv st"
  by (simp add: ms_inv_def)

lemma ms_inv_reselect_pick:
  assumes "ms_inv st"
  shows "ms_inv (snd (reselect_pick now w key excl st))"
  using assms count_after_upd [of "bindingsCount st" "bindings st" key]
  by (auto simp: reselect_pick_def ms_inv_def Let_def split: sum.splits prod.splits if_splits)

lemma ms_inv_st_exclude:
  assumes "ms_inv st"
  shows "ms_inv (snd (st_excludeAndReselect d now w key excl cool st))"
  using assms
  by (auto simp: st_excludeAndReselect_def Let_def ms_inv_cooldowns ms_inv_reselect_pick split: option.splits)

lemma ms_inv_keep:
  assumes "bindingsCount st = of_nat (map_len (bindings st))" and "fmlookup (bindings st) '''' = None"
    and "selector st = newWeightedSelector (credentials st)" and "credentials st \<noteq> []"
  shows "ms_inv (st\<lparr>bindings := map_keep P (bindings st),
           bindingsCount := bindingsCount st - of_nat (map_dropped P (bindings st))\<rparr>)"
  using assms count_after_keep [of "bindingsCount st" "bindings st" P] by (simp add: ms_inv_def)

lemma engine_inv_upd:
  "engine_inv e \<Longrightarrow> ms_inv st \<Longrightarrow> engine_inv (e\<lparr>models := fmupd m st (models e)\<rparr>)"
  by (auto simp: engine_inv_def)

lemma engine_inv_fmmap:
  "engine_inv e \<Longrightarrow> (\<And>st. ms_inv st \<Longrightarrow> ms_inv (f st)) \<Longrightarrow> engine_inv (e\<lparr>models := fmmap f (models e)\<rparr>)"
  by (auto simp: engine_inv_def)

lemma engine_inv_drop: "engine_inv e \<Longrightarrow> engine_inv (e\<lparr>models := fmdrop m (models e)\<rparr>)"
  by (auto simp: engine_inv_def)

lemma ms_inv_new_refs:
  assumes "refs \<noteq> []" and "ms_inv st \<or> st = newModelState"
  shows "ms_inv (applyRefsLocked st refs)"
  using assms by (auto simp: ms_inv_def applyRefsLocked_def newModelState_def)

lemma ms_inv_filter_orphans: "ms_inv st \<Longrightarrow> ms_inv (filter_orphans st refs)"
  using ms_inv_keep [of st] by (simp add: filter_orphans_def ms_inv_def)

lemma ms_inv_sweep: "ms_inv st \<Longrightarrow> ms_inv (sweep_state t now st)"
  using count_after_keep [of "bindingsCount st" "bindings st" "\<lambda>b. \<not> expired b t now"]
  by (simp add: sweep_state_def ms_inv_def)

lemma ms_inv_delete: "ms_inv st \<Longrightarrow> ms_inv (delete_credential c st)"
  using count_after_keep [of "bindingsCount st" "bindings st" "\<lambda>b. credentialID b \<noteq> c"]
  by (simp add: delete_credential_def ms_inv_def)

lemma engine_inv_lookup: "engine_inv e \<Longrightarrow> fmlookup (models e) m = Some st \<Longrightarrow> ms_inv st"
  by (simp add: engine_inv_def)

lemma snd_GetOrSelect:
  "snd (GetOrSelect e now w m key) =
     (case fmlookup (models e) m of
        None \<Rightarrow> e
      | Some st \<Rightarrow> e\<lparr>models := fmupd m (snd (st_GetOrSelect (ttl e) now w key st)) (models e)\<rparr>)"
  by (simp add: GetOrSelect_def case_prod_beta split: option.split)

lemma snd_Exclude:
  "snd (ExcludeAndReselectForClass e now w m key excl cls ra) =
     (case fmlookup (models e) m of
        None \<Rightarrow> e
      | Some st \<Rightarrow> e\<lparr>models := fmupd m (snd (st_excludeAndReselect (defaultCooldown e) now w key excl
            (CooldownFor (Some e) cls ra) st)) (models e)\<rparr>)"
  by (simp add: ExcludeAndReselectForClass_def excludeAndReselectWithCooldown_def case_prod_beta
      split: option.split)

lemma engine_inv_GetOrSelect: "engine_inv e \<Longrightarrow> engine_inv (snd (GetOrSelect e now w m key))"
  unfolding snd_GetOrSelect
  by (cases "fmlookup (models e) m") (simp_all add: engine_inv_upd engine_inv_lookup ms_inv_st_GetOrSelect)

lemma engine_inv_Exclude:
  "engine_inv e \<Longrightarrow> engine_inv (snd (ExcludeAndReselectForClass e now w m key excl cls ra))"
  unfolding snd_Exclude
  by (cases "fmlookup (models e) m") (simp_all add: engine_inv_upd engine_inv_lookup ms_inv_st_exclude)

lemma engine_inv_changed: "engine_inv e \<Longrightarrow> engine_inv (OnModelChanged e m refs)"
  by (auto simp: OnModelChanged_def engine_inv_drop split: option.splits
      intro!: engine_inv_upd ms_inv_filter_orphans ms_inv_new_refs dest: engine_inv_lookup)

lemma engine_inv_rebind: "engine_inv e \<Longrightarrow> engine_inv (RebindFromStore e m refs)"
  by (auto simp: RebindFromStore_def engine_inv_drop split: option.splits
      intro!: engine_inv_upd ms_inv_new_refs dest: engine_inv_lookup)

lemma engine_step_inv: "engine_step e e' \<Longrightarrow> engine_inv e \<Longrightarrow> engine_inv e'"
proof (induction rule: engine_step.induct)
  case (step_deleted e c)
  then show ?case using ms_inv_delete by (auto simp: OnCredentialDeleted_def intro: engine_inv_fmmap)
next
  case (step_sweep e now)
  then show ?case using ms_inv_sweep by (auto simp: sweepOnce_def intro: engine_inv_fmmap)
next
  case (step_quota e d)
  then show ?case by (simp add: SetQuotaCooldown_def engine_inv_def Let_def)
next
  case (step_stop e)
  then show ?case by (simp add: Stop_def engine_inv_def)
qed (simp_all add: engine_inv_GetOrSelect engine_inv_Exclude engine_inv_changed engine_inv_rebind)

lemma engine_reachable_inv: "engine_reachable e \<Longrightarrow> engine_inv e"
proof (induction rule: engine_reachable.induct)
  case (reach_new t s c)
  then show ?case by (simp add: engine_inv_def NewEngine_def)
next
  case (reach_step e e')
  then show ?case using engine_step_inv by blast
qed

section \<open>What one selection does\<close>

lemma gos_pick_frame:
  "snd (gos_pick now w key st) = st' \<Longrightarrow>
   credentials st' = credentials st \<and> cooldowns st' = cooldowns st \<and> selector st' = selector st \<and>
   (\<forall>k. k \<noteq> key \<or> key = '''' \<longrightarrow> fmlookup (bindings st') k = fmlookup (bindings st) k)"
  by (auto simp: gos_pick_def Let_def split: sum.splits prod.splits if_splits)

lemma gos_full_frame:
  "snd (gos_full t now w key st) = st' \<Longrightarrow>
   credentials st' = credentials st \<and> cooldowns st' = cooldowns st \<and> selector st' = selector st \<and>
   (\<forall>k. k \<noteq> key \<or> key = '''' \<longrightarrow> fmlookup (bindings st') k = fmlookup (bindings st) k)"
proof (cases "key = '''' \<or> fmlookup (bindings st) key = None")
  case True
  then have eq: "gos_full t now w key st = gos_pick now w key st" by (auto simp: gos_full_def)
  assume "snd (gos_full t now w key st) = st'"
  then show ?thesis unfolding eq by (rule gos_pick_frame)
next
  case False
  then obtain b where b: "fmlookup (bindings st) key = Some b" "key \<noteq> ''''" by auto
  let ?u = "st\<lparr>bindings := fmdrop key (bindings st), bindingsCount := bindingsCount st - 1\<rparr>"
  assume a: "snd (gos_full t now w key st) = st'"
  show ?thesis
  proof (cases "binding_valid t now st b")
    case True
    then show ?thesis using a b by (auto simp: gos_full_def)
  next
    case False
    then have "snd (gos_pick now w key ?u) = st'" using a b by (simp add: gos_full_def)
    from gos_pick_frame [OF this] show ?thesis using b(2) by auto
  qed
qed

lemma gos_hit_frame:
  "gos_hit t now key c st = Some st' \<Longrightarrow>
   credentials st' = credentials st \<and> cooldowns st' = cooldowns st \<and> selector st' = selector st \<and>
   (\<forall>k. k \<noteq> key \<longrightarrow> fmlookup (bindings st') k = fmlookup (bindings st) k)"
  by (auto simp: gos_hit_def split: option.splits if_splits)

lemma isCooling_cong: "cooldowns a = cooldowns b \<Longrightarrow> isCoolingLocked a c now = isCoolingLocked b c now"
  by (simp add: isCoolingLocked_def)

lemma gos_pick_served:
  assumes inv: "ms_inv st" and v: "refs_valid (credentials st)"
  obtains (healthy) r where "r \<in> set (credentials st)" "\<not> isCoolingLocked st (CredentialID r) now"
      "fst (gos_pick now w key st) = gos_ok (CredentialID r) (key \<noteq> '''')"
      "key \<noteq> '''' \<longrightarrow> fmlookup (bindings (snd (gos_pick now w key st))) key =
         Some \<lparr>credentialID = CredentialID r, boundAt = now\<rparr>"
  | (soonest) c where "all_cooling st now" "soonest_cooling st c"
      "fst (gos_pick now w key st) = gos_ok c False"
      "fmlookup (bindings (snd (gos_pick now w key st))) key = fmlookup (bindings st) key"
  using inv v
proof (cases rule: pickHealthyLocked_cases [of st now w])
  case none
  obtain c where c: "soonestCooldownLocked st now = (c, True)" "soonest_cooling st c"
    using soonestCooldownLocked_spec [OF v, of now] none(1) inv by (auto simp: ms_inv_def)
  moreover have "c \<noteq> ''''"
    using c(2) v by (auto simp: soonest_cooling_def refs_valid_def)
  ultimately show ?thesis using soonest [of c] none by (simp add: gos_pick_def)
next
  case (some r)
  then show ?thesis using healthy [of r] by (simp add: gos_pick_def Let_def)
qed

lemma cooling_frame:
  assumes "credentials a = credentials b" and "cooldowns a = cooldowns b"
  shows "isCoolingLocked a = isCoolingLocked b" and "all_cooling a = all_cooling b"
    and "soonest_cooling a = soonest_cooling b"
  using assms
  by (auto simp: fun_eq_iff isCoolingLocked_def all_cooling_def soonest_cooling_def cooldown_until_def)

lemma credentialInRefs_iff: "credentialInRefs refs c \<longleftrightarrow> c \<in> CredentialID ` set refs"
  by (auto simp: credentialInRefs_def list_ex_iff image_iff eq_commute)

lemma gos_pick_serves:
  assumes "ms_inv st" and "refs_valid (credentials st)"
  shows "served now key (fst (gos_pick now w key st)) (snd (gos_pick now w key st)) \<and>
         out_id (fst (gos_pick now w key st)) \<in> CredentialID ` set (credentials st)"
proof -
  let ?st' = "snd (gos_pick now w key st)"
  have "credentials ?st' = credentials st" "cooldowns ?st' = cooldowns st"
    using gos_pick_frame [OF refl] by auto
  note fr = cooling_frame [OF this]
  show ?thesis
    using assms
  proof (cases rule: gos_pick_served [of st now w key])
    case (healthy r)
    then show ?thesis by (auto simp: served_def fr)
  next
    case (soonest c)
    then show ?thesis by (auto simp: served_def fr soonest_cooling_def)
  qed
qed

lemma gos_full_serves:
  assumes "ms_inv st" and "refs_valid (credentials st)"
  shows "served now key (fst (gos_full t now w key st)) (snd (gos_full t now w key st)) \<and>
         out_id (fst (gos_full t now w key st)) \<in> CredentialID ` set (credentials st)"
proof (cases "key = '''' \<or> fmlookup (bindings st) key = None")
  case True
  then have "gos_full t now w key st = gos_pick now w key st" by (auto simp: gos_full_def)
  then show ?thesis using gos_pick_serves [OF assms] by simp
next
  case False
  then obtain b where b: "fmlookup (bindings st) key = Some b" "key \<noteq> ''''" by auto
  show ?thesis
  proof (cases "binding_valid t now st b")
    case True
    then show ?thesis using b
      by (auto simp: gos_full_def served_def binding_valid_def isCoolingLocked_def credentialInRefs_iff)
  next
    case False
    let ?u = "st\<lparr>bindings := fmdrop key (bindings st), bindingsCount := bindingsCount st - 1\<rparr>"
    have eq: "gos_full t now w key st = gos_pick now w key ?u" using False b by (simp add: gos_full_def)
    show ?thesis
      using gos_pick_serves [OF ms_inv_unbind [OF assms(1) b(1)], of now key w] assms(2) by (simp add: eq)
  qed
qed

text \<open>
  C9: whatever other calls do to the model between the critical sections of \<open>GetOrSelect\<close>, a call
  that goes past the single-credential fast path returns a credential that is not cooling down in
  the state it leaves, or, when every credential is cooling, the one whose cooldown ends first,
  unbound; and it reports a new binding only when it has stored that binding.
\<close>

theorem GetOrSelect_avoids_cooling:
  assumes "ms_inv s_full" and "refs_valid (credentials s_full)"
    and "gos_sections t now w key s_count s_fast s_read s_hit s_full = (out, Some st')"
  shows "served now key out st'"
proof (cases "\<exists>hc s1. gos_read t now key s_read = Some hc \<and> gos_hit t now key hc s_hit = Some s1")
  case True
  then obtain hc s1 where h: "gos_read t now key s_read = Some hc" "gos_hit t now key hc s_hit = Some s1"
    by blast
  then have "out = gos_ok hc False" "st' = s1"
    using assms(3) by (auto simp: gos_sections_def split: if_splits)
  moreover have "\<not> isCoolingLocked s1 hc now"
    using h(2) by (auto simp: gos_hit_def isCoolingLocked_def split: option.splits if_splits)
  ultimately show ?thesis by (simp add: served_def)
next
  case False
  then have "gos_full t now w key s_full = (out, st')"
    using assms(3) by (auto simp: gos_sections_def map_prod_def split: if_splits option.splits prod.splits)
  then show ?thesis using gos_full_serves [OF assms(1,2), of now key t w] by simp
qed

lemma ex_ms_inv: "ms_inv ex_state" "ms_inv ex_all_cooling"
  "refs_valid (credentials ex_state)" "refs_valid (credentials ex_all_cooling)"
  by code_simp+

theorem GetOrSelect_avoids_cooling_witness:
  "served 200 ''new'' (gos_ok ''b'' True)
     (snd (gos_full hour 200 3 ''new'' ex_state))"
proof (rule GetOrSelect_avoids_cooling
    [OF ex_ms_inv(1,3), where t = hour and w = 3 and s_count = ex_state and s_fast = ex_state
      and s_read = ex_state and s_hit = ex_all_cooling])
  show "gos_sections hour 200 3 ''new'' ex_state ex_state ex_state ex_all_cooling ex_state =
      (gos_ok ''b'' True, Some (snd (gos_full hour 200 3 ''new'' ex_state)))"
    by code_simp
qed

text \<open>
  C34: the choice among healthy credentials is proportional to their weights. Of the numbers the
  random source can draw, exactly \<open>Weight r\<close> lead to credential \<open>r\<close>, on the binary-search path
  (no cooldown recorded) and on the renormalising walk alike.
\<close>

theorem pickHealthyLocked_proportional:
  assumes "ms_inv st" and "refs_valid (credentials st)"
    and "distinct (map CredentialID (credentials st))"
    and "r \<in> set (credentials st)" and "\<not> isCoolingLocked st (CredentialID r) now"
  shows "card {w. w < nat (sum_list (map Weight (healthy_refs st now))) \<and>
                  pickHealthyLocked st now w = Inr (CredentialID r)} = nat (Weight r)"
proof -
  let ?hs = "healthy_refs st now"
  let ?ws = "map Weight ?hs"
  have "r \<in> set ?hs" using assms(4,5) by (simp add: healthy_refs_def)
  then obtain i where i: "i < length ?hs" "?hs ! i = r" by (auto simp: in_set_conv_nth)
  have dist: "distinct (map CredentialID ?hs)"
    using assms(3) by (simp add: healthy_refs_def distinct_map_filter)
  have pos: "\<forall>x \<in> set ?ws. 0 < x" using assms(2) by (auto simp: healthy_refs_def refs_valid_def)
  have "pickHealthyLocked st now w = Inr (CredentialID r) \<longleftrightarrow> pick_index (prefix_from 0 ?ws) (int w) = i"
    if "w < nat (sum_list ?ws)" for w
  proof -
    let ?j = "pick_index (prefix_from 0 ?ws) (int w)"
    have j: "?j < length ?hs" using i(1) pick_index_less [of "prefix_from 0 ?ws" "int w"] by (cases ?hs) auto
    have "pickHealthyLocked st now w = Inr (CredentialID (?hs ! ?j))"
      using pickHealthyLocked_eq [OF assms(1,2), of now w] i(1) that by (auto simp: Let_def)
    moreover have "CredentialID (?hs ! ?j) = CredentialID r \<longleftrightarrow> ?j = i"
      using nth_eq_iff_index_eq [OF dist, of ?j i] i j by simp
    ultimately show ?thesis by simp
  qed
  then have "{w. w < nat (sum_list ?ws) \<and> pickHealthyLocked st now w = Inr (CredentialID r)} =
      {w. w < nat (sum_list ?ws) \<and> pick_index (prefix_from 0 ?ws) (int w) = i}"
    by blast
  then show ?thesis using pick_draws_card [OF pos, of i] i by simp
qed

theorem pickHealthyLocked_proportional_witness:
  "card {w. w < nat (sum_list (map Weight (healthy_refs ex_state 200))) \<and>
            pickHealthyLocked ex_state 200 w = Inr ''c''} = 2"
proof -
  let ?c = "\<lparr>CredentialID = ''c'', Weight = 2, Position = 2\<rparr>"
  have "distinct (map CredentialID (credentials ex_state))" "?c \<in> set (credentials ex_state)"
    "\<not> isCoolingLocked ex_state (CredentialID ?c) 200"
    by code_simp+
  from pickHealthyLocked_proportional [OF ex_ms_inv(1,3) this] show ?thesis by simp
qed

text \<open>
  After any sequence of selections, exclusions, configuration changes, deletions and janitor
  passes, the lock-free statistics are exact: for every model the \<open>Bindings\<close> gauge is the size of
  its binding map, the selector is the one its references build, and no binding is stored under
  the empty conversation key.
\<close>

theorem engine_reachable_counts:
  assumes "engine_reachable e" and "fmlookup (models e) m = Some st"
  shows "map_option Bindings (fmlookup (Stats e) m) = Some (of_nat (map_len (bindings st))) \<and>
         selector st = newWeightedSelector (credentials st) \<and> credentials st \<noteq> [] \<and>
         fmlookup (bindings st) '''' = None"
  using engine_inv_lookup [OF engine_reachable_inv [OF assms(1)] assms(2)] assms(2)
  by (simp add: Stats_def ms_inv_def)

lemma ex_engine_reachable: "engine_reachable ex_engine"
  unfolding ex_engine_def
  by (intro reach_step [OF _ step_select] reach_step [OF _ step_changed] reach_new)

theorem engine_reachable_counts_witness:
  "map_option Bindings (fmlookup (Stats ex_engine) ''m'') = Some 1"
proof -
  let ?st = "the (fmlookup (models ex_engine) ''m'')"
  have l: "fmlookup (models ex_engine) ''m'' = Some ?st" by code_simp
  have n: "map_len (bindings ?st) = 1" by code_simp
  show ?thesis using engine_reachable_counts [OF ex_engine_reachable l] n by simp
qed

section \<open>Affinity\<close>

lemma cred_bound_frame:
  assumes "k' \<noteq> k"
  shows "cred_bound (snd (st_GetOrSelect t now w k' st)) k = cred_bound st k"
  using assms gos_full_frame [of t now w k' st] gos_hit_frame [of t now k' _ st]
  by (auto simp: st_GetOrSelect_def gos_sections_def cred_bound_def map_prod_def
      split: prod.splits option.splits if_splits)

lemma cred_usable_stable:
  "cred_usable (snd (st_GetOrSelect t now w k st)) c u = cred_usable st c u"
proof -
  let ?st' = "snd (st_GetOrSelect t now w k st)"
  have fr: "credentials ?st' = credentials st \<and> cooldowns ?st' = cooldowns st"
    using gos_full_frame [of t now w k st] gos_hit_frame [of t now k _ st]
    by (auto simp: st_GetOrSelect_def gos_sections_def map_prod_def
        split: prod.splits option.splits if_splits)
  then show ?thesis by (simp add: cred_usable_def credCount_def isCoolingLocked_def)
qed

lemma gos_hit_taken:
  assumes "cred_bound st k = Some (c, b)" and "now - b \<le> t" and "cred_usable st c now"
  shows "st_GetOrSelect t now w k st =
     (gos_ok c False, st\<lparr>bindings := fmupd k \<lparr>credentialID = c, boundAt = now\<rparr> (bindings st),
                         hitsTotal := hitsTotal st + 1\<rparr>)"
proof -
  have k: "k \<noteq> ''''" and l: "fmlookup (bindings st) k = Some \<lparr>credentialID = c, boundAt = b\<rparr>"
    using assms(1) by (auto simp: cred_bound_def split: if_splits)
  have n: "credCount st \<noteq> 0" "credCount st \<noteq> 1" "credentialInRefs (credentials st) c"
    "\<not> isCoolingLocked st c now"
    using assms(3) by (auto simp: cred_usable_def)
  have "gos_read t now k st = Some c"
    using k l n assms(2) by (simp add: gos_read_def binding_valid_def expired_def)
  moreover have "gos_hit t now k c st =
      Some (st\<lparr>bindings := fmupd k \<lparr>credentialID = c, boundAt = now\<rparr> (bindings st),
               hitsTotal := hitsTotal st + 1\<rparr>)"
    using l n assms(2) by (simp add: gos_hit_def expired_def)
  ultimately show ?thesis using n by (simp add: st_GetOrSelect_def gos_sections_def)
qed

interpretation cred_sticky: sticky_selector "st_GetOrSelect t" cred_bound cred_usable
  "\<lambda>c. gos_ok c False" t for t
proof
  fix st :: modelState and k k' :: string and c :: string and b now u :: time and w :: nat
  show "fst (st_GetOrSelect t now w k st) = gos_ok c False"
    if "cred_bound st k = Some (c, b)" "now - b \<le> t" "cred_usable st c now"
    using gos_hit_taken [OF that] by simp
  show "cred_bound (snd (st_GetOrSelect t now w k st)) k = Some (c, now)"
    if "cred_bound st k = Some (c, b)" "now - b \<le> t" "cred_usable st c now"
    using gos_hit_taken [OF that] that(1) by (simp add: cred_bound_def split: if_splits)
  show "cred_bound (snd (st_GetOrSelect t now w k' st)) k = cred_bound st k" if "k' \<noteq> k"
    using that by (rule cred_bound_frame)
  show "cred_usable (snd (st_GetOrSelect t now w k st)) c u = cred_usable st c u"
    by (rule cred_usable_stable)
qed

text \<open>
  Conversation affinity. A conversation bound to a credential that stays usable and that
  comes back each time within the binding TTL is served by that credential in every one of its
  calls, whatever calls for other conversations are interleaved.
\<close>

theorem conversation_affinity:
  assumes "cred_bound st key = Some (c, b)" and "within_idle t key b cs"
    and "\<forall>(now, w, k) \<in> set cs. k = key \<longrightarrow> cred_usable st c now"
  shows "\<forall>(k, r) \<in> set (sticky_run (st_GetOrSelect t) st cs). k = key \<longrightarrow> r = gos_ok c False"
  using assms by (rule cred_sticky.affinity)

theorem conversation_affinity_witness:
  "snd ` {p \<in> set (sticky_run (st_GetOrSelect hour) ex_state
       [(150, 0, ''k''), (160, 1, ''other''), (170, 2, ''''), (180, 3, ''k'')]). fst p = ''k''}
     \<subseteq> {gos_ok ''b'' False}"
proof -
  have "cred_bound ex_state ''k'' = Some (''b'', 100)"
    "within_idle hour ''k'' 100 [(150, 0, ''k''), (160, 1, ''other''), (170, 2, ''''), (180, 3, ''k'')]"
    "\<forall>(now, w, k) \<in> set [(150, 0, ''k''), (160, 1, ''other''), (170, 2, ''''), (180, 3, ''k'')].
       k = ''k'' \<longrightarrow> cred_usable ex_state ''b'' now"
    by code_simp+
  then show ?thesis by (intro run_answers conversation_affinity)
qed

section \<open>Failover\<close>

lemma reselect_pick_spec:
  assumes inv: "ms_inv st" and v: "refs_valid (credentials st)" and cool: "isCoolingLocked st excl now"
  shows "case fst (reselect_pick now w key excl st) of
           Reselected i ReselectHealthy \<Rightarrow> reselect_healthy now key excl i (snd (reselect_pick now w key excl st))
         | Reselected i ReselectSoonestExpiry \<Rightarrow>
             all_cooling st now \<and> soonest_cooling st i \<and> snd (reselect_pick now w key excl st) = st
         | _ \<Rightarrow> False"
    and "cooldowns (snd (reselect_pick now w key excl st)) = cooldowns st"
    and "credentials (snd (reselect_pick now w key excl st)) = credentials st"
proof -
  show "case fst (reselect_pick now w key excl st) of
           Reselected i ReselectHealthy \<Rightarrow> reselect_healthy now key excl i (snd (reselect_pick now w key excl st))
         | Reselected i ReselectSoonestExpiry \<Rightarrow>
             all_cooling st now \<and> soonest_cooling st i \<and> snd (reselect_pick now w key excl st) = st
         | _ \<Rightarrow> False"
    using inv v
  proof (cases rule: pickHealthyLocked_cases [of st now w])
    case none
    obtain c where c: "soonestCooldownLocked st now = (c, True)" "soonest_cooling st c"
      using soonestCooldownLocked_spec [OF v, of now] none(1) inv by (auto simp: ms_inv_def)
    moreover have "c \<noteq> ''''" using c(2) v by (auto simp: soonest_cooling_def refs_valid_def)
    ultimately show ?thesis using none by (simp add: reselect_pick_def)
  next
    case (some r)
    moreover have "CredentialID r \<noteq> excl" using some(2) cool by auto
    ultimately show ?thesis
      by (auto simp: reselect_pick_def reselect_healthy_def Let_def isCoolingLocked_def)
  qed
qed (auto simp: reselect_pick_def Let_def split: sum.splits prod.splits)

text \<open>
  What a failover promises when the model has at least two credentials. The failed credential
  is cooling until \<open>now + cooldown\<close>; the answer is always one of two modes. A healthy reselection
  names another credential that is not cooling, to which the conversation is bound afterwards; a
  soonest-expiry answer is given only when every credential is cooling, names the one whose
  cooldown ends first, and leaves the bindings as they were.
\<close>

theorem exclude_and_reselect_modes:
  assumes "ms_inv st" and "refs_valid (credentials st)" and "2 \<le> credCount st" and "0 < defCool"
    and "st_excludeAndReselect defCool now w key excl cool st = (out, st')"
  shows "fmlookup (cooldowns st') excl = Some (now + (if cool \<le> 0 then defCool else cool)) \<and>
         (case out of
            Reselected i ReselectHealthy \<Rightarrow> reselect_healthy now key excl i st'
          | Reselected i ReselectSoonestExpiry \<Rightarrow>
              all_cooling st' now \<and> soonest_cooling st' i \<and> bindings st' = bindings st
          | _ \<Rightarrow> False)"
proof -
  define s1 where "s1 = st\<lparr>cooldowns := fmupd excl (now + (if cool \<le> 0 then defCool else cool)) (cooldowns st)\<rparr>"
  have n: "credCount st \<noteq> 0" "credCount st \<noteq> 1" using assms(3) by auto
  have i1: "ms_inv s1" "refs_valid (credentials s1)"
    using assms(1,2) by (simp_all add: s1_def ms_inv_cooldowns)
  have c1: "isCoolingLocked s1 excl now" using assms(4) by (simp add: isCoolingLocked_def s1_def)
  have b1: "bindings s1 = bindings st" and
    l1: "fmlookup (cooldowns s1) excl = Some (now + (if cool \<le> 0 then defCool else cool))"
    by (simp_all add: s1_def)
  have eq: "(out, st') = (if key = '''' then reselect_pick now w key excl s1
      else case fmlookup (bindings s1) key of
             None \<Rightarrow> reselect_pick now w key excl s1
           | Some b \<Rightarrow> if credentialID b \<noteq> excl \<and> \<not> isCoolingLocked s1 (credentialID b) now
               then (Reselected (credentialID b) ReselectHealthy, s1)
               else reselect_pick now w key excl s1)"
    unfolding assms(5) [symmetric] st_excludeAndReselect_def s1_def Let_def
    using n by (simp only: if_False)
  show ?thesis
  proof (cases "(out, st') = reselect_pick now w key excl s1")
    case True
    then have "out = fst (reselect_pick now w key excl s1)" "st' = snd (reselect_pick now w key excl s1)"
      by (metis fst_conv, metis snd_conv)
    then show ?thesis
      using reselect_pick_spec [OF i1 c1, where w = w and key = key] b1 l1
      by (auto split: reselect_out.splits ReselectMode.splits)
  next
    case False
    then obtain b where "fmlookup (bindings s1) key = Some b" "credentialID b \<noteq> excl"
        "\<not> isCoolingLocked s1 (credentialID b) now" "out = Reselected (credentialID b) ReselectHealthy" "st' = s1"
      using eq by (auto split: option.splits if_splits)
    then show ?thesis using l1 by (simp add: reselect_healthy_def)
  qed
qed

theorem exclude_and_reselect_modes_witness:
  "fmlookup (cooldowns (snd (st_excludeAndReselect minute 200 0 ''k'' ''b'' 0 ex_state))) ''b'' =
     Some (200 + minute) \<and>
   fst (st_excludeAndReselect minute 200 0 ''k'' ''b'' 0 ex_state) = Reselected ''c'' ReselectHealthy \<and>
   reselect_healthy 200 ''k'' ''b'' ''c'' (snd (st_excludeAndReselect minute 200 0 ''k'' ''b'' 0 ex_state))"
proof -
  let ?r = "st_excludeAndReselect minute 200 0 ''k'' ''b'' 0 ex_state"
  have n: "2 \<le> credCount ex_state" and d: "0 < minute" by code_simp+
  have f: "fst ?r = Reselected ''c'' ReselectHealthy" by code_simp
  from exclude_and_reselect_modes [OF ex_ms_inv(1,3) n d, of 200 0 "''k''" "''b''" 0 "fst ?r" "snd ?r"]
  show ?thesis using f by simp
qed

section \<open>Configuration changes and the cooldown policy\<close>

text \<open>
  A configuration change keeps exactly the bindings whose credential is still referenced, and
  deleting a credential leaves no binding and no cooldown of it in any model, while bindings to
  other credentials stay.
\<close>

theorem config_change_filters_bindings:
  assumes "refs \<noteq> []" and "fmlookup (models e) m = Some st"
  shows "\<exists>st'. fmlookup (models (OnCredentialDeleted (OnModelChanged e m refs) c)) m = Some st' \<and>
           credentials st' = refs \<and> fmlookup (cooldowns st') c = None \<and>
           (\<forall>k b. fmlookup (bindings st') k = Some b \<longleftrightarrow>
              fmlookup (bindings st) k = Some b \<and> credentialID b \<noteq> c \<and>
              credentialInRefs refs (credentialID b))"
  using assms
  by (auto simp: OnModelChanged_def OnCredentialDeleted_def filter_orphans_def applyRefsLocked_def
      delete_credential_def credentialInRefs_iff Let_def split: option.splits)

theorem config_change_filters_bindings_witness:
  "\<exists>st'. fmlookup (models (OnCredentialDeleted (OnModelChanged ex_engine ''m'' (tl ex_refs)) ''c'')) ''m'' = Some st' \<and>
     credentials st' = tl ex_refs \<and> fmlookup (cooldowns st') ''c'' = None"
proof -
  have "tl ex_refs \<noteq> []" "fmlookup (models ex_engine) ''m'' = Some (the (fmlookup (models ex_engine) ''m''))"
    by code_simp+
  from config_change_filters_bindings [OF this, of "''c''"] show ?thesis by blast
qed

text \<open>
  The cooldown of every failure is positive, and for a quota failure it stays within the
  operator's limits: between one minute and one day, at least the configured quota cooldown, and
  as long as the provider asked for when that is at most a day.
\<close>

theorem cooldown_policy_bounds:
  "0 < CooldownFor (Some (SetQuotaCooldown e d)) cls ra \<and>
   (cls = FailureClassQuota \<longrightarrow>
      QuotaCooldownFloor \<le> CooldownFor (Some (SetQuotaCooldown e d)) cls ra \<and>
      CooldownFor (Some (SetQuotaCooldown e d)) cls ra \<le> QuotaCooldownCeiling \<and>
      QuotaCooldown (Some (SetQuotaCooldown e d)) \<le> CooldownFor (Some (SetQuotaCooldown e d)) cls ra \<and>
      min ra QuotaCooldownCeiling \<le> CooldownFor (Some (SetQuotaCooldown e d)) cls ra)"
  by (cases cls) (auto simp: CooldownFor_def SetQuotaCooldown_def QuotaCooldown_def Let_def
      QuotaCooldownFloor_def QuotaCooldownCeiling_def DefaultQuotaCooldown_def DefaultCooldown_def)

theorem cooldown_policy_bounds_witness:
  "CooldownFor (Some (SetQuotaCooldown ex_engine (2 * hour))) FailureClassQuota 30 \<le> QuotaCooldownCeiling"
  using cooldown_policy_bounds [of ex_engine "2 * hour" FailureClassQuota 30] by simp

lemma wrap64_overflow:
  assumes "fits64 a" and "fits64 b" and "2 ^ 63 \<le> a + b"
  shows "wrap64 (a + b) < 0"
proof -
  have "wrap64 (a + b) = wrap64 (a + b - 2 ^ 64)"
    using assms(3) by (simp add: wrap64_def mod_pos_geq)
  moreover have "fits64 (a + b - 2 ^ 64)" using assms by (simp add: fits64_def)
  ultimately show ?thesis using assms(1,2) by (simp add: fits64_def)
qed

text \<open>
  The total weight is a machine integer. Two references whose weights each pass validation
  (positive, with no upper bound) but whose sum leaves the 64-bit range make the model
  unservable: every selection on it fails with \<open>ErrNoCredentials\<close>, for every key and every draw.
\<close>

theorem weight_overflow_unservable:
  assumes "0 < w1" and "0 < w2" and "fits64 w1" and "fits64 w2" and "2 ^ 63 \<le> w1 + w2"
  shows "fst (GetOrSelect (OnModelChanged (NewEngine t s c) m
            [\<lparr>CredentialID = ''x'', Weight = w1, Position = 0\<rparr>,
             \<lparr>CredentialID = ''y'', Weight = w2, Position = 1\<rparr>]) now w m key) =
         gos_fail ErrNoCredentials"
  using assms wrap64_overflow [OF assms(3-5)]
  by (auto simp: GetOrSelect_def OnModelChanged_def NewEngine_def newModelState_def filter_orphans_def
      applyRefsLocked_def newWeightedSelector_def st_GetOrSelect_def gos_sections_def credCount_def
      gos_read_def gos_full_def gos_pick_def pickHealthyLocked_def soonestCooldownLocked_def Let_def)

theorem weight_overflow_unservable_witness:
  "fst (GetOrSelect (OnModelChanged (NewEngine 0 0 0) ''m''
            [\<lparr>CredentialID = ''x'', Weight = 4611686018427387904, Position = 0\<rparr>,
             \<lparr>CredentialID = ''y'', Weight = 4611686018427387904, Position = 1\<rparr>]) 0 5 ''m'' ''k'') =
         gos_fail ErrNoCredentials"
  by (rule weight_overflow_unservable) (simp_all add: fits64_def)

end
