(* ===== verification/GroupLB.thy ===== *)
theory GroupLB
  imports CredentialLB
begin

text \<open>
  The group load-balancing engine (\<open>pkg/grouplb\<close>: \<open>selector.go\<close>, \<open>binding.go\<close>, \<open>engine.go\<close>). A
  group has a default pool and a backup pool of member models; the pools have separate bindings
  and share one cooldown map. Names that the credential engine also uses carry the suffix \<open>_g\<close>.
  Weights are Go \<open>float64\<close> values; the model adds them as exact rationals, which is what the
  program computes as long as the partial sums have at most 53 significant bits (for instance
  integer weights). A draw is the rational number \<open>u\<close> with \<open>0 \<le> u < 1\<close>; since every number
  below the total weight is \<open>u\<close> times the total for some \<open>u\<close>, this covers the rounded product.
  As in the credential engine the clock is an argument, and an operation that takes the group
  lock several times has one state argument per critical section, or an argument \<open>others\<close> for
  what other calls do to the state between two of its writes.
\<close>

section \<open>Data\<close>

record MemberRef =
  ModelID :: string
  Weight_g :: rat
  Position_g :: int
  BackupOnly :: bool

record weightedSelector_g =
  memberIDs :: "string list"
  prefixSum_g :: "rat list"
  totalWeight_g :: rat

record binding_g =
  memberID :: string
  boundAt_g :: time

record groupState =
  members :: "MemberRef list"
  selector_g :: "weightedSelector_g option"
  defaultMembers :: "MemberRef list"
  backupMembers :: "MemberRef list"
  backupSelector :: "weightedSelector_g option"
  bindings_g :: "(string, binding_g) fmap"
  backupBindings :: "(string, binding_g) fmap"
  cooldowns_g :: "(string, time) fmap"
  bindingsCount_g :: u64
  backupBindingsCount :: u64

record Engine_g =
  groups :: "(string, groupState) fmap"
  ttl_g :: duration
  sweepInt_g :: duration
  defaultCooldown_g :: duration
  stopped_g :: bool

datatype group_error = ErrNoMembers

datatype ReselectMode_g = ReselectHealthy_g | ReselectSoonestExpiry_g | ReselectNone_g

record pickOutcome =
  out_member :: string
  out_newlyBound :: bool
  staleRepaired :: bool
  out_err :: "group_error option"

abbreviation outcome :: "string \<Rightarrow> bool \<Rightarrow> bool \<Rightarrow> pickOutcome" where
  "outcome m nb stale \<equiv> \<lparr>out_member = m, out_newlyBound = nb, staleRepaired = stale, out_err = None\<rparr>"

abbreviation outcome_err :: "bool \<Rightarrow> pickOutcome" where
  "outcome_err stale \<equiv>
     \<lparr>out_member = '''', out_newlyBound = False, staleRepaired = stale, out_err = Some ErrNoMembers\<rparr>"

definition DefaultBindingTTL_g :: duration where "DefaultBindingTTL_g = 24 * hour"
definition DefaultSweepInterval_g :: duration where "DefaultSweepInterval_g = 5 * minute"
definition DefaultCooldown_g :: duration where "DefaultCooldown_g = 60 * second"

section \<open>selector.go\<close>

fun sel_loop_g :: "string list \<Rightarrow> rat list \<Rightarrow> rat \<Rightarrow> MemberRef list \<Rightarrow> weightedSelector_g option" where
  "sel_loop_g ids prefix tot [] =
     Some \<lparr>memberIDs = ids, prefixSum_g = prefix, totalWeight_g = tot\<rparr>"
| "sel_loop_g ids prefix tot (r # rs) =
     (if Weight_g r \<le> 0 then None
      else let tot' = tot + Weight_g r
           in sel_loop_g (ids @ [ModelID r]) (prefix @ [tot']) tot' rs)"

definition newWeightedSelector_g :: "MemberRef list \<Rightarrow> weightedSelector_g option" where
  "newWeightedSelector_g refs = (if refs = [] then None else sel_loop_g [] [] 0 refs)"

definition pick_g :: "weightedSelector_g \<Rightarrow> rat \<Rightarrow> string" where
  "pick_g s r = memberIDs s ! pick_index (prefixSum_g s) r"

section \<open>binding.go\<close>

definition expired_g :: "binding_g \<Rightarrow> duration \<Rightarrow> time \<Rightarrow> bool" where
  "expired_g b t now \<longleftrightarrow> now - boundAt_g b > t"

definition newGroupState :: groupState where
  "newGroupState = \<lparr>members = [], selector_g = None, defaultMembers = [], backupMembers = [],
     backupSelector = None, bindings_g = fmempty, backupBindings = fmempty, cooldowns_g = fmempty,
     bindingsCount_g = 0, backupBindingsCount = 0\<rparr>"

definition memberCount :: "groupState \<Rightarrow> nat" where
  "memberCount st = length (members st)"

definition memberInRefs :: "MemberRef list \<Rightarrow> string \<Rightarrow> bool" where
  "memberInRefs refs m = list_ex (\<lambda>r. ModelID r = m) refs"

definition isCoolingLocked_g :: "groupState \<Rightarrow> string \<Rightarrow> time \<Rightarrow> bool" where
  "isCoolingLocked_g st m now =
     (case fmlookup (cooldowns_g st) m of None \<Rightarrow> False | Some until \<Rightarrow> until > now)"

fun healthy_total_g :: "groupState \<Rightarrow> time \<Rightarrow> rat \<Rightarrow> MemberRef list \<Rightarrow> rat" where
  "healthy_total_g st now tot [] = tot"
| "healthy_total_g st now tot (r # rs) =
     (if isCoolingLocked_g st (ModelID r) now then healthy_total_g st now tot rs
      else healthy_total_g st now (tot + Weight_g r) rs)"

fun healthy_walk_g :: "groupState \<Rightarrow> time \<Rightarrow> rat \<Rightarrow> rat \<Rightarrow> MemberRef list \<Rightarrow> string" where
  "healthy_walk_g st now r cum [] = ''''"
| "healthy_walk_g st now r cum (x # xs) =
     (if isCoolingLocked_g st (ModelID x) now then healthy_walk_g st now r cum xs
      else let cum' = cum + Weight_g x
           in if r < cum' then ModelID x else healthy_walk_g st now r cum' xs)"

definition pickHealthyLocked_g ::
  "groupState \<Rightarrow> time \<Rightarrow> rat \<Rightarrow> weightedSelector_g option \<Rightarrow> MemberRef list \<Rightarrow> string" where
  "pickHealthyLocked_g st now u sel refs =
     (case sel of
        None \<Rightarrow> ''''
      | Some s \<Rightarrow>
          if totalWeight_g s \<le> 0 then ''''
          else if map_len (cooldowns_g st) = 0 then pick_g s (u * totalWeight_g s)
          else let tot = healthy_total_g st now 0 refs
               in if tot \<le> 0 then '''' else healthy_walk_g st now (u * tot) 0 refs)"

fun soonest_loop_g ::
  "groupState \<Rightarrow> time \<Rightarrow> string \<Rightarrow> time \<Rightarrow> MemberRef list \<Rightarrow> string \<times> bool" where
  "soonest_loop_g st now best bestUntil [] = (best, best \<noteq> '''')"
| "soonest_loop_g st now best bestUntil (r # rs) =
     (case fmlookup (cooldowns_g st) (ModelID r) of
        None \<Rightarrow> ('''', False)
      | Some until \<Rightarrow>
          if \<not> until > now then ('''', False)
          else if best = '''' \<or> until < bestUntil
          then soonest_loop_g st now (ModelID r) until rs
          else soonest_loop_g st now best bestUntil rs)"

definition soonestCooldownLocked_g :: "groupState \<Rightarrow> time \<Rightarrow> MemberRef list \<Rightarrow> string \<times> bool" where
  "soonestCooldownLocked_g st now refs = soonest_loop_g st now '''' 0 refs"

section \<open>engine.go: construction, the janitor, group changes and probes\<close>

definition retryAfterIf :: "duration \<Rightarrow> duration \<Rightarrow> duration" where
  "retryAfterIf retryAfter fallback = (if retryAfter > 0 then retryAfter else fallback)"

definition NewEngine_g :: "duration \<Rightarrow> duration \<Rightarrow> duration \<Rightarrow> Engine_g" where
  "NewEngine_g t sweepInterval cooldown =
     \<lparr>groups = fmempty,
      ttl_g = (if t \<le> 0 then DefaultBindingTTL_g else t),
      sweepInt_g = (if sweepInterval \<le> 0 then DefaultSweepInterval_g else sweepInterval),
      defaultCooldown_g = (if cooldown \<le> 0 then DefaultCooldown_g else cooldown),
      stopped_g = False\<rparr>"

definition keep_bindings :: "(binding_g \<Rightarrow> bool) \<Rightarrow> groupState \<Rightarrow> groupState" where
  "keep_bindings P st =
     st\<lparr>bindings_g := map_keep P (bindings_g st),
        bindingsCount_g := bindingsCount_g st - of_nat (map_dropped P (bindings_g st)),
        backupBindings := map_keep P (backupBindings st),
        backupBindingsCount := backupBindingsCount st - of_nat (map_dropped P (backupBindings st))\<rparr>"

definition sweep_group :: "duration \<Rightarrow> time \<Rightarrow> groupState \<Rightarrow> groupState" where
  "sweep_group t now st =
     keep_bindings (\<lambda>b. \<not> expired_g b t now)
       (st\<lparr>cooldowns_g := map_keep (\<lambda>until. until > now) (cooldowns_g st)\<rparr>)"

definition sweepOnce_g :: "Engine_g \<Rightarrow> time \<Rightarrow> Engine_g" where
  "sweepOnce_g e now = e\<lparr>groups := fmmap (sweep_group (ttl_g e) now) (groups e)\<rparr>"

definition Stop_g :: "Engine_g \<Rightarrow> Engine_g" where
  "Stop_g e = e\<lparr>stopped_g := True\<rparr>"

definition HasGroup :: "Engine_g \<Rightarrow> string \<Rightarrow> bool" where
  "HasGroup e g \<longleftrightarrow> fmlookup (groups e) g \<noteq> None"

definition sel_live :: "weightedSelector_g option \<Rightarrow> bool" where
  "sel_live sel = (case sel of None \<Rightarrow> False | Some s \<Rightarrow> totalWeight_g s > 0)"

definition HasBackupPool :: "Engine_g \<Rightarrow> string \<Rightarrow> bool" where
  "HasBackupPool e g =
     (case fmlookup (groups e) g of None \<Rightarrow> False | Some st \<Rightarrow> sel_live (backupSelector st))"

definition DefaultPoolHealthy :: "Engine_g \<Rightarrow> time \<Rightarrow> string \<Rightarrow> bool" where
  "DefaultPoolHealthy e now g =
     (case fmlookup (groups e) g of
        None \<Rightarrow> False
      | Some st \<Rightarrow>
          sel_live (selector_g st) \<and>
          list_ex (\<lambda>r. \<not> isCoolingLocked_g st (ModelID r) now) (defaultMembers st))"

definition applyRefsLocked_g :: "groupState \<Rightarrow> MemberRef list \<Rightarrow> groupState" where
  "applyRefsLocked_g st refs =
     (let backups = filter BackupOnly refs; defaults = filter (\<lambda>r. \<not> BackupOnly r) refs
      in st\<lparr>members := refs, defaultMembers := defaults,
            selector_g := newWeightedSelector_g defaults,
            backupMembers := backups, backupSelector := newWeightedSelector_g backups\<rparr>)"

definition OnGroupChanged :: "Engine_g \<Rightarrow> string \<Rightarrow> MemberRef list \<Rightarrow> Engine_g" where
  "OnGroupChanged e g refs =
     (if refs = [] then e\<lparr>groups := fmdrop g (groups e)\<rparr>
      else let st = (case fmlookup (groups e) g of None \<Rightarrow> newGroupState | Some st \<Rightarrow> st)
           in e\<lparr>groups := fmupd g
                 (keep_bindings (\<lambda>b. memberID b \<in> set (map ModelID refs)) (applyRefsLocked_g st refs))
                 (groups e)\<rparr>)"

section \<open>engine.go: selection from the default pool\<close>

definition valid_g :: "duration \<Rightarrow> time \<Rightarrow> groupState \<Rightarrow> binding_g \<Rightarrow> bool" where
  "valid_g t now st b \<longleftrightarrow>
     \<not> expired_g b t now \<and> memberInRefs (members st) (memberID b) \<and>
     \<not> isCoolingLocked_g st (memberID b) now"

definition gos_read_g :: "duration \<Rightarrow> time \<Rightarrow> string \<Rightarrow> groupState \<Rightarrow> string option" where
  "gos_read_g t now key st =
     (if key = '''' then None
      else case fmlookup (bindings_g st) key of
             None \<Rightarrow> None
           | Some b \<Rightarrow> if valid_g t now st b then Some (memberID b) else None)"

definition gos_hit_g :: "duration \<Rightarrow> time \<Rightarrow> string \<Rightarrow> string \<Rightarrow> groupState \<Rightarrow> groupState option" where
  "gos_hit_g t now key hitMember st =
     (case fmlookup (bindings_g st) key of
        None \<Rightarrow> None
      | Some b \<Rightarrow>
          if memberID b = hitMember \<and> \<not> expired_g b t now \<and> \<not> isCoolingLocked_g st (memberID b) now
          then Some (st\<lparr>bindings_g := fmupd key (b\<lparr>boundAt_g := now\<rparr>) (bindings_g st)\<rparr>)
          else None)"

definition gos_pick_g ::
  "time \<Rightarrow> rat \<Rightarrow> string \<Rightarrow> bool \<Rightarrow> groupState \<Rightarrow> pickOutcome \<times> groupState" where
  "gos_pick_g now u key stale st =
     (let p = pickHealthyLocked_g st now u (selector_g st) (defaultMembers st)
      in if p = '''' then
           (let (soonest, allCooling) = soonestCooldownLocked_g st now (defaultMembers st)
            in if \<not> allCooling \<or> soonest = '''' then (outcome_err stale, st)
               else (outcome soonest False stale, st))
         else if key = '''' then (outcome p False stale, st)
         else (outcome p True stale,
               st\<lparr>bindings_g := fmupd key \<lparr>memberID = p, boundAt_g = now\<rparr> (bindings_g st),
                  bindingsCount_g := bindingsCount_g st + 1\<rparr>))"

definition gos_full_g ::
  "duration \<Rightarrow> time \<Rightarrow> rat \<Rightarrow> string \<Rightarrow> groupState \<Rightarrow> pickOutcome \<times> groupState" where
  "gos_full_g t now u key st =
     (if key = '''' then gos_pick_g now u key False st
      else case fmlookup (bindings_g st) key of
             None \<Rightarrow> gos_pick_g now u key False st
           | Some b \<Rightarrow>
               if valid_g t now st b
               then (outcome (memberID b) False False,
                     st\<lparr>bindings_g := fmupd key (b\<lparr>boundAt_g := now\<rparr>) (bindings_g st)\<rparr>)
               else gos_pick_g now u key (\<not> memberInRefs (members st) (memberID b))
                      (st\<lparr>bindings_g := fmdrop key (bindings_g st),
                          bindingsCount_g := bindingsCount_g st - 1\<rparr>))"

definition getOrSelect_sections ::
  "duration \<Rightarrow> time \<Rightarrow> rat \<Rightarrow> string \<Rightarrow> groupState \<Rightarrow> groupState \<Rightarrow> groupState \<Rightarrow> groupState \<Rightarrow> groupState
     \<Rightarrow> pickOutcome \<times> groupState option" where
  "getOrSelect_sections t now u key s_count s_fast s_read s_hit s_full =
     (let n = memberCount s_count
      in if n = 0 then (outcome_err False, None)
         else if n = 1 \<and> \<not> BackupOnly (hd (members s_fast))
         then (outcome (ModelID (hd (members s_fast))) False False, None)
         else case gos_read_g t now key s_read of
                Some hitMember \<Rightarrow>
                  (case gos_hit_g t now key hitMember s_hit of
                     Some st' \<Rightarrow> (outcome hitMember False False, Some st')
                   | None \<Rightarrow> map_prod id Some (gos_full_g t now u key s_full))
              | None \<Rightarrow> map_prod id Some (gos_full_g t now u key s_full))"

definition st_getOrSelect ::
  "duration \<Rightarrow> time \<Rightarrow> rat \<Rightarrow> string \<Rightarrow> groupState \<Rightarrow> pickOutcome \<times> groupState" where
  "st_getOrSelect t now u key st =
     (let (out, st') = getOrSelect_sections t now u key st st st st st
      in (out, case st' of None \<Rightarrow> st | Some s \<Rightarrow> s))"

definition getOrSelect :: "Engine_g \<Rightarrow> time \<Rightarrow> rat \<Rightarrow> string \<Rightarrow> string \<Rightarrow> pickOutcome \<times> Engine_g" where
  "getOrSelect e now u g key =
     (case fmlookup (groups e) g of
        None \<Rightarrow> (outcome_err False, e)
      | Some st \<Rightarrow>
          (let (out, st') = st_getOrSelect (ttl_g e) now u key st
           in (out, e\<lparr>groups := fmupd g st' (groups e)\<rparr>)))"

definition GetOrSelect_g :: "Engine_g \<Rightarrow> time \<Rightarrow> rat \<Rightarrow> string \<Rightarrow> string \<Rightarrow>
     (string \<times> bool \<times> group_error option) \<times> Engine_g" where
  "GetOrSelect_g e now u g key =
     (let (out, e') = getOrSelect e now u g key in ((out_member out, out_newlyBound out, out_err out), e'))"

definition GetOrSelectWithRepair :: "Engine_g \<Rightarrow> time \<Rightarrow> rat \<Rightarrow> string \<Rightarrow> string \<Rightarrow>
     (string \<times> bool \<times> bool \<times> group_error option) \<times> Engine_g" where
  "GetOrSelectWithRepair e now u g key =
     (let (out, e') = getOrSelect e now u g key
      in ((out_member out, out_newlyBound out, staleRepaired out, out_err out), e'))"

section \<open>engine.go: selection from the backup pool\<close>

definition pbm_has :: "groupState \<Rightarrow> bool" where
  "pbm_has st \<longleftrightarrow> sel_live (backupSelector st)"

definition pbm_fastEligible :: "groupState \<Rightarrow> bool" where
  "pbm_fastEligible st \<longleftrightarrow>
     pbm_has st \<and> length (backupMembers st) = 1 \<and> map_len (cooldowns_g st) = 0"

definition backup_bind :: "time \<Rightarrow> string \<Rightarrow> string \<Rightarrow> groupState \<Rightarrow> groupState" where
  "backup_bind now key m st =
     st\<lparr>backupBindingsCount :=
          (if fmlookup (backupBindings st) key = None then backupBindingsCount st + 1
           else backupBindingsCount st),
        backupBindings := fmupd key \<lparr>memberID = m, boundAt_g = now\<rparr> (backupBindings st)\<rparr>"

definition backup_touch :: "time \<Rightarrow> string \<Rightarrow> binding_g \<Rightarrow> groupState \<Rightarrow> groupState" where
  "backup_touch now key b st =
     st\<lparr>backupBindings := fmupd key (b\<lparr>boundAt_g := now\<rparr>) (backupBindings st)\<rparr>"

definition backup_unbind :: "string \<Rightarrow> groupState \<Rightarrow> groupState" where
  "backup_unbind key st =
     st\<lparr>backupBindings := fmdrop key (backupBindings st),
        backupBindingsCount := backupBindingsCount st - 1\<rparr>"

definition pbm_fast_bind ::
  "time \<Rightarrow> string \<Rightarrow> string \<Rightarrow> bool \<Rightarrow> groupState \<Rightarrow> pickOutcome option \<times> bool \<times> groupState" where
  "pbm_fast_bind now key fastID stale st =
     (if backupSelector st \<noteq> None \<and> length (backupMembers st) = 1 \<and> map_len (cooldowns_g st) = 0 \<and>
         ModelID (hd (backupMembers st)) = fastID
      then (Some (outcome fastID True stale), stale, backup_bind now key fastID st)
      else (None, stale, st))"

definition pbm_fast ::
  "duration \<Rightarrow> time \<Rightarrow> string \<Rightarrow> string \<Rightarrow> groupState \<Rightarrow> pickOutcome option \<times> bool \<times> groupState" where
  "pbm_fast t now key fastID st =
     (case fmlookup (backupBindings st) key of
        None \<Rightarrow> pbm_fast_bind now key fastID False st
      | Some b \<Rightarrow>
          (let found = memberInRefs (members st) (memberID b)
           in if found \<and> \<not> expired_g b t now
              then (Some (outcome (memberID b) False False), False, backup_touch now key b st)
              else pbm_fast_bind now key fastID (\<not> found) (backup_unbind key st)))"

definition pbm_pick ::
  "time \<Rightarrow> rat \<Rightarrow> string \<Rightarrow> bool \<Rightarrow> groupState \<Rightarrow> pickOutcome \<times> groupState" where
  "pbm_pick now u key stale st =
     (let p = pickHealthyLocked_g st now u (backupSelector st) (backupMembers st)
      in if p = '''' then
           (let (soonest, allCooling) = soonestCooldownLocked_g st now (backupMembers st)
            in if \<not> allCooling \<or> soonest = '''' then (outcome_err stale, st)
               else (outcome soonest False stale, st))
         else if key = '''' then (outcome p False stale, st)
         else (outcome p True stale, backup_bind now key p st))"

definition pbm_full ::
  "duration \<Rightarrow> time \<Rightarrow> rat \<Rightarrow> string \<Rightarrow> bool \<Rightarrow> groupState \<Rightarrow> pickOutcome \<times> groupState" where
  "pbm_full t now u key stale st =
     (if \<not> pbm_has st then (outcome_err stale, st)
      else if key = '''' then pbm_pick now u key stale st
      else case fmlookup (backupBindings st) key of
             None \<Rightarrow> pbm_pick now u key stale st
           | Some b \<Rightarrow>
               (let found = memberInRefs (members st) (memberID b)
                in if valid_g t now st b
                   then (outcome (memberID b) False False, backup_touch now key b st)
                   else pbm_pick now u key (stale \<or> \<not> found) (backup_unbind key st)))"

definition pickBackup_sections ::
  "duration \<Rightarrow> time \<Rightarrow> rat \<Rightarrow> string \<Rightarrow> groupState \<Rightarrow> groupState \<Rightarrow> (groupState \<Rightarrow> groupState) \<Rightarrow> groupState
     \<Rightarrow> pickOutcome \<times> groupState option" where
  "pickBackup_sections t now u key s_probe s_fast others s_full =
     (if \<not> pbm_has s_probe \<or> length (backupMembers s_probe) = 0 then (outcome_err False, None)
      else if pbm_fastEligible s_probe then
        (let fastID = ModelID (hd (backupMembers s_probe))
         in if key = '''' then (outcome fastID False False, None)
            else case pbm_fast t now key fastID s_fast of
                   (Some out, stale, st') \<Rightarrow> (out, Some st')
                 | (None, stale, st') \<Rightarrow> map_prod id Some (pbm_full t now u key stale (others st')))
      else map_prod id Some (pbm_full t now u key False s_full))"

definition st_pickBackupMember ::
  "duration \<Rightarrow> time \<Rightarrow> rat \<Rightarrow> string \<Rightarrow> groupState \<Rightarrow> pickOutcome \<times> groupState" where
  "st_pickBackupMember t now u key st =
     (let (out, st') = pickBackup_sections t now u key st st id st
      in (out, case st' of None \<Rightarrow> st | Some s \<Rightarrow> s))"

definition pickBackupMember :: "Engine_g \<Rightarrow> time \<Rightarrow> rat \<Rightarrow> string \<Rightarrow> string \<Rightarrow> pickOutcome \<times> Engine_g" where
  "pickBackupMember e now u g key =
     (case fmlookup (groups e) g of
        None \<Rightarrow> (outcome_err False, e)
      | Some st \<Rightarrow>
          (let (out, st') = st_pickBackupMember (ttl_g e) now u key st
           in (out, e\<lparr>groups := fmupd g st' (groups e)\<rparr>)))"

definition PickBackupMember_g :: "Engine_g \<Rightarrow> time \<Rightarrow> rat \<Rightarrow> string \<Rightarrow> string \<Rightarrow>
     (string \<times> bool \<times> group_error option) \<times> Engine_g" where
  "PickBackupMember_g e now u g key =
     (let (out, e') = pickBackupMember e now u g key
      in ((out_member out, out_newlyBound out, out_err out), e'))"

definition PickBackupMemberWithRepair :: "Engine_g \<Rightarrow> time \<Rightarrow> rat \<Rightarrow> string \<Rightarrow> string \<Rightarrow>
     (string \<times> bool \<times> bool \<times> group_error option) \<times> Engine_g" where
  "PickBackupMemberWithRepair e now u g key =
     (let (out, e') = pickBackupMember e now u g key
      in ((out_member out, out_newlyBound out, staleRepaired out, out_err out), e'))"

section \<open>engine.go: failover\<close>

definition cool_down :: "string \<Rightarrow> time \<Rightarrow> groupState \<Rightarrow> groupState" where
  "cool_down m until st = st\<lparr>cooldowns_g := fmupd m until (cooldowns_g st)\<rparr>"

definition default_bind :: "time \<Rightarrow> string \<Rightarrow> string \<Rightarrow> groupState \<Rightarrow> groupState" where
  "default_bind now key m st =
     st\<lparr>bindings_g := fmupd key \<lparr>memberID = m, boundAt_g = now\<rparr> (bindings_g st),
        bindingsCount_g :=
          (if fmlookup (bindings_g st) key = None then bindingsCount_g st + 1 else bindingsCount_g st)\<rparr>"

definition reselect_g ::
  "(groupState \<Rightarrow> weightedSelector_g option) \<Rightarrow> (groupState \<Rightarrow> MemberRef list) \<Rightarrow>
   (groupState \<Rightarrow> (string, binding_g) fmap) \<Rightarrow> (time \<Rightarrow> string \<Rightarrow> string \<Rightarrow> groupState \<Rightarrow> groupState) \<Rightarrow>
   time \<Rightarrow> rat \<Rightarrow> string \<Rightarrow> string \<Rightarrow> groupState \<Rightarrow> (string \<times> ReselectMode_g) \<times> groupState" where
  "reselect_g sel pool binds bind now u key excl st =
     (let again =
        (let p = pickHealthyLocked_g st now u (sel st) (pool st)
         in if p = '''' \<or> p = excl then
              (let (soonest, allCooling) = soonestCooldownLocked_g st now (pool st)
               in if \<not> allCooling \<or> soonest = '''' then (('''', ReselectNone_g), st)
                  else ((soonest, ReselectSoonestExpiry_g), st))
            else if key = '''' then ((p, ReselectHealthy_g), st)
            else ((p, ReselectHealthy_g), bind now key p st))
      in if key = '''' then again
         else case fmlookup (binds st) key of
                None \<Rightarrow> again
              | Some b \<Rightarrow>
                  if memberID b \<noteq> excl \<and> \<not> isCoolingLocked_g st (memberID b) now \<and>
                     memberInRefs (members st) (memberID b)
                  then ((memberID b, ReselectHealthy_g), st)
                  else again)"

definition st_ExcludeAndReselect_g ::
  "duration \<Rightarrow> time \<Rightarrow> rat \<Rightarrow> string \<Rightarrow> string \<Rightarrow> duration \<Rightarrow> groupState \<Rightarrow> (string \<times> ReselectMode_g) \<times> groupState" where
  "st_ExcludeAndReselect_g defCool now u key excl retryAfter st =
     (if memberCount st = 0 then (('''', ReselectNone_g), st)
      else if memberCount st = 1 then (('''', ReselectNone_g), st)
      else reselect_g selector_g defaultMembers bindings_g default_bind now u key excl
             (cool_down excl (now + (if retryAfter \<le> 0 then defCool else retryAfter)) st))"

definition ExcludeAndReselect_g ::
  "Engine_g \<Rightarrow> time \<Rightarrow> rat \<Rightarrow> string \<Rightarrow> string \<Rightarrow> string \<Rightarrow> duration \<Rightarrow> (string \<times> ReselectMode_g) \<times> Engine_g" where
  "ExcludeAndReselect_g e now u g key excl retryAfter =
     (case fmlookup (groups e) g of
        None \<Rightarrow> (('''', ReselectNone_g), e)
      | Some st \<Rightarrow>
          (let (out, st') = st_ExcludeAndReselect_g (defaultCooldown_g e) now u key excl retryAfter st
           in (out, e\<lparr>groups := fmupd g st' (groups e)\<rparr>)))"

definition st_ExcludeAndBackupReselect ::
  "duration \<Rightarrow> time \<Rightarrow> rat \<Rightarrow> string \<Rightarrow> string \<Rightarrow> duration \<Rightarrow> groupState \<Rightarrow> (string \<times> ReselectMode_g) \<times> groupState" where
  "st_ExcludeAndBackupReselect defCool now u key excl retryAfter st =
     (if \<not> pbm_has st \<or> length (backupMembers st) = 0 then (('''', ReselectNone_g), st)
      else if length (backupMembers st) = 1 \<and> backupSelector st \<noteq> None
      then (('''', ReselectNone_g), cool_down excl (now + retryAfterIf retryAfter defCool) st)
      else reselect_g backupSelector backupMembers backupBindings backup_bind now u key excl
             (cool_down excl (now + (if retryAfter \<le> 0 then defCool else retryAfter)) st))"

definition ExcludeAndBackupReselect ::
  "Engine_g \<Rightarrow> time \<Rightarrow> rat \<Rightarrow> string \<Rightarrow> string \<Rightarrow> string \<Rightarrow> duration \<Rightarrow> (string \<times> ReselectMode_g) \<times> Engine_g" where
  "ExcludeAndBackupReselect e now u g key excl retryAfter =
     (case fmlookup (groups e) g of
        None \<Rightarrow> (('''', ReselectNone_g), e)
      | Some st \<Rightarrow>
          (let (out, st') = st_ExcludeAndBackupReselect (defaultCooldown_g e) now u key excl retryAfter st
           in (out, e\<lparr>groups := fmupd g st' (groups e)\<rparr>)))"

section \<open>Invariants, reachable engines and specification predicates\<close>

definition refs_ok :: "MemberRef list \<Rightarrow> bool" where
  "refs_ok refs \<longleftrightarrow> (\<forall>r \<in> set refs. 0 < Weight_g r \<and> ModelID r \<noteq> '''')"

definition healthy_members :: "groupState \<Rightarrow> time \<Rightarrow> MemberRef list \<Rightarrow> MemberRef list" where
  "healthy_members st now refs = filter (\<lambda>r. \<not> isCoolingLocked_g st (ModelID r) now) refs"

definition until_g :: "groupState \<Rightarrow> string \<Rightarrow> time" where
  "until_g st m = (case fmlookup (cooldowns_g st) m of None \<Rightarrow> 0 | Some u \<Rightarrow> u)"

definition soonest_in :: "groupState \<Rightarrow> MemberRef list \<Rightarrow> string \<Rightarrow> bool" where
  "soonest_in st refs m \<longleftrightarrow>
     m \<in> ModelID ` set refs \<and> (\<forall>r \<in> set refs. until_g st m \<le> until_g st (ModelID r))"

definition best_of_pool :: "groupState \<Rightarrow> time \<Rightarrow> MemberRef list \<Rightarrow> string \<Rightarrow> bool" where
  "best_of_pool st now refs m \<longleftrightarrow>
     m \<in> ModelID ` set refs \<and>
     (\<not> isCoolingLocked_g st m now \<or> healthy_members st now refs = [] \<and> soonest_in st refs m)"

definition gs_inv :: "groupState \<Rightarrow> bool" where
  "gs_inv st \<longleftrightarrow>
     bindingsCount_g st = of_nat (map_len (bindings_g st)) \<and>
     backupBindingsCount st = of_nat (map_len (backupBindings st)) \<and>
     fmlookup (bindings_g st) '''' = None \<and> fmlookup (backupBindings st) '''' = None \<and>
     members st \<noteq> [] \<and>
     defaultMembers st = filter (\<lambda>r. \<not> BackupOnly r) (members st) \<and>
     backupMembers st = filter BackupOnly (members st) \<and>
     selector_g st = newWeightedSelector_g (defaultMembers st) \<and>
     backupSelector st = newWeightedSelector_g (backupMembers st)"

definition bindings_live :: "groupState \<Rightarrow> bool" where
  "bindings_live st \<longleftrightarrow>
     (\<forall>k b. fmlookup (bindings_g st) k = Some b \<longrightarrow> memberInRefs (members st) (memberID b)) \<and>
     (\<forall>k b. fmlookup (backupBindings st) k = Some b \<longrightarrow> memberInRefs (members st) (memberID b))"

definition gs_ok :: "groupState \<Rightarrow> bool" where
  "gs_ok st \<longleftrightarrow> gs_inv st \<and> bindings_live st \<and> refs_ok (members st)"

definition engine_inv_g :: "Engine_g \<Rightarrow> bool" where
  "engine_inv_g e \<longleftrightarrow> (\<forall>g st. fmlookup (groups e) g = Some st \<longrightarrow> gs_ok st)"

inductive engine_step_g :: "Engine_g \<Rightarrow> Engine_g \<Rightarrow> bool" where
  step_select_g: "0 \<le> u \<Longrightarrow> u < 1 \<Longrightarrow> engine_step_g e (snd (getOrSelect e now u g key))"
| step_backup_g: "0 \<le> u \<Longrightarrow> u < 1 \<Longrightarrow> engine_step_g e (snd (pickBackupMember e now u g key))"
| step_exclude_g: "0 \<le> u \<Longrightarrow> u < 1 \<Longrightarrow>
     engine_step_g e (snd (ExcludeAndReselect_g e now u g key excl ra))"
| step_exclude_backup_g: "0 \<le> u \<Longrightarrow> u < 1 \<Longrightarrow>
     engine_step_g e (snd (ExcludeAndBackupReselect e now u g key excl ra))"
| step_changed_g: "refs_ok refs \<Longrightarrow> engine_step_g e (OnGroupChanged e g refs)"
| step_sweep_g: "\<not> stopped_g e \<Longrightarrow> engine_step_g e (sweepOnce_g e now)"
| step_stop_g: "engine_step_g e (Stop_g e)"

inductive engine_reachable_g :: "Engine_g \<Rightarrow> bool" where
  reach_new_g: "engine_reachable_g (NewEngine_g t s c)"
| reach_step_g: "engine_reachable_g e \<Longrightarrow> engine_step_g e e' \<Longrightarrow> engine_reachable_g e'"

definition as_credential :: "MemberRef \<Rightarrow> CredentialRef" where
  "as_credential r = \<lparr>CredentialID = ModelID r, Weight = 1, Position = Position_g r\<rparr>"

definition as_modelState :: "groupState \<Rightarrow> MemberRef list \<Rightarrow> modelState" where
  "as_modelState st refs = newModelState\<lparr>credentials := map as_credential refs, cooldowns := cooldowns_g st\<rparr>"

definition default_bound :: "groupState \<Rightarrow> string \<Rightarrow> (string \<times> time) option" where
  "default_bound st key =
     (if key = '''' then None
      else map_option (\<lambda>b. (memberID b, boundAt_g b)) (fmlookup (bindings_g st) key))"

definition backup_bound :: "groupState \<Rightarrow> string \<Rightarrow> (string \<times> time) option" where
  "backup_bound st key =
     (if key = '''' then None
      else map_option (\<lambda>b. (memberID b, boundAt_g b)) (fmlookup (backupBindings st) key))"

definition default_usable :: "groupState \<Rightarrow> string \<Rightarrow> time \<Rightarrow> bool" where
  "default_usable st m now \<longleftrightarrow>
     2 \<le> memberCount st \<and> memberInRefs (members st) m \<and> \<not> isCoolingLocked_g st m now"

definition backup_usable :: "groupState \<Rightarrow> string \<Rightarrow> time \<Rightarrow> bool" where
  "backup_usable st m now \<longleftrightarrow>
     pbm_has st \<and> backupMembers st \<noteq> [] \<and> memberInRefs (members st) m \<and> \<not> isCoolingLocked_g st m now"

text \<open>
  What a selection from a pool promises, with the bindings it found in the state \<open>st0\<close>: an error
  only when the pool has no member; otherwise a member of the pool that is healthy (or the
  soonest to recover when none is), or the member the conversation was already bound to.
\<close>

definition served_g ::
  "(groupState \<Rightarrow> MemberRef list) \<Rightarrow> (groupState \<Rightarrow> (string, binding_g) fmap) \<Rightarrow> time \<Rightarrow> string \<Rightarrow>
   pickOutcome \<Rightarrow> groupState \<Rightarrow> groupState \<Rightarrow> bool" where
  "served_g pool binds now key out st0 st' \<longleftrightarrow>
     (case out_err out of
        Some e \<Rightarrow> pool st' = []
      | None \<Rightarrow>
          (best_of_pool st' now (pool st') (out_member out) \<or>
           map_option memberID (fmlookup (binds st0) key) = Some (out_member out) \<and>
             \<not> isCoolingLocked_g st' (out_member out) now \<and> \<not> out_newlyBound out) \<and>
          (out_newlyBound out \<longrightarrow>
             fmlookup (binds st') key = Some \<lparr>memberID = out_member out, boundAt_g = now\<rparr>))"

text \<open>What a failover within a pool promises.\<close>

definition reselected_g ::
  "(groupState \<Rightarrow> MemberRef list) \<Rightarrow> (groupState \<Rightarrow> (string, binding_g) fmap) \<Rightarrow> time \<Rightarrow> string \<Rightarrow> string \<Rightarrow>
   string \<times> ReselectMode_g \<Rightarrow> groupState \<Rightarrow> bool" where
  "reselected_g pool binds now key excl out st' =
     (case out of
        (m, ReselectHealthy_g) \<Rightarrow>
          m \<noteq> excl \<and> memberInRefs (members st') m \<and> \<not> isCoolingLocked_g st' m now \<and>
          (key \<noteq> '''' \<longrightarrow> map_option memberID (fmlookup (binds st') key) = Some m)
      | (m, ReselectSoonestExpiry_g) \<Rightarrow>
          healthy_members st' now (pool st') = [] \<and> soonest_in st' (pool st') m
      | (m, ReselectNone_g) \<Rightarrow> pool st' = [])"

text \<open>A concrete group with two default members and one backup, for the instances below.\<close>

definition ex_members :: "MemberRef list" where
  "ex_members = [\<lparr>ModelID = ''fast'', Weight_g = 3, Position_g = 0, BackupOnly = False\<rparr>,
                 \<lparr>ModelID = ''slow'', Weight_g = 1/2, Position_g = 1, BackupOnly = False\<rparr>,
                 \<lparr>ModelID = ''spare'', Weight_g = 1, Position_g = 2, BackupOnly = True\<rparr>]"

definition ex_group :: groupState where
  "ex_group = default_bind 100 ''k'' ''slow'' (applyRefsLocked_g newGroupState ex_members)"

definition ex_engine_g :: Engine_g where
  "ex_engine_g = snd (getOrSelect (OnGroupChanged (NewEngine_g 0 0 0) ''g'' ex_members) 100 0 ''g'' ''k'')"

section \<open>Choice within a pool\<close>

lemma sum_weights_nonneg: "\<forall>r \<in> set rs. (0::rat) < f r \<Longrightarrow> 0 \<le> sum_list (map f rs)"
  by (induction rs) auto

lemma sum_weights_pos: "\<forall>r \<in> set rs. (0::rat) < f r \<Longrightarrow> rs \<noteq> [] \<Longrightarrow> 0 < sum_list (map f rs)"
proof (induction rs)
  case (Cons r rs)
  then have "0 \<le> sum_list (map f rs)" by (intro sum_weights_nonneg) simp
  then show ?case using Cons.prems by (simp add: add_pos_nonneg)
qed simp

lemma sel_loop_g_eq:
  assumes "\<forall>r \<in> set rs. 0 < Weight_g r"
  shows "sel_loop_g ids ps acc rs =
     Some \<lparr>memberIDs = ids @ map ModelID rs, prefixSum_g = ps @ prefix_from acc (map Weight_g rs),
           totalWeight_g = acc + sum_list (map Weight_g rs)\<rparr>"
  using assms by (induction rs arbitrary: ids ps acc) (auto simp: Let_def not_le add.assoc)

lemma newWeightedSelector_g_eq:
  assumes "refs_ok refs" and "refs \<noteq> []"
  shows "newWeightedSelector_g refs =
     Some \<lparr>memberIDs = map ModelID refs, prefixSum_g = prefix_from 0 (map Weight_g refs),
           totalWeight_g = sum_list (map Weight_g refs)\<rparr>"
  using assms sel_loop_g_eq [of refs "[]" "[]" 0] by (simp add: newWeightedSelector_g_def refs_ok_def)

lemma sel_live_iff:
  assumes "refs_ok refs"
  shows "sel_live (newWeightedSelector_g refs) \<longleftrightarrow> refs \<noteq> []"
proof (cases "refs = []")
  case False
  have "0 < sum_list (map Weight_g refs)"
    using assms False by (intro sum_weights_pos) (auto simp: refs_ok_def)
  then show ?thesis using False by (simp add: sel_live_def newWeightedSelector_g_eq [OF assms])
qed (simp add: sel_live_def newWeightedSelector_g_def)

lemma healthy_total_g_eq:
  "healthy_total_g st now acc rs = acc + sum_list (map Weight_g (healthy_members st now rs))"
  by (induction rs arbitrary: acc) (auto simp: healthy_members_def add.assoc)

lemma healthy_walk_g_eq:
  "healthy_walk_g st now r cum rs =
     (case walk_index r cum (map Weight_g (healthy_members st now rs)) of
        None \<Rightarrow> '''' | Some i \<Rightarrow> ModelID (healthy_members st now rs ! i))"
  by (induction rs arbitrary: cum) (auto simp: healthy_members_def Let_def split: option.splits)

lemma draw_bounds: "0 \<le> u \<Longrightarrow> u < 1 \<Longrightarrow> 0 < (tot::rat) \<Longrightarrow> 0 \<le> u * tot \<and> u * tot < tot"
  by (simp add: mult_less_cancel_right1)

lemma refs_ok_healthy: "refs_ok refs \<Longrightarrow> refs_ok (healthy_members st now refs)"
  by (auto simp: refs_ok_def healthy_members_def)

lemma pickHealthyLocked_g_eq:
  assumes ok: "refs_ok refs" and u: "0 \<le> u" "u < 1"
  shows "pickHealthyLocked_g st now u (newWeightedSelector_g refs) refs =
     (let hs = healthy_members st now refs; ws = map Weight_g hs
      in if hs = [] then '''' else ModelID (hs ! pick_index (prefix_from 0 ws) (u * sum_list ws)))"
proof (cases "refs = []")
  case True
  then show ?thesis by (simp add: pickHealthyLocked_g_def newWeightedSelector_g_def healthy_members_def)
next
  case ne: False
  let ?hs = "healthy_members st now refs"
  let ?ws = "map Weight_g ?hs"
  have tot: "0 < sum_list (map Weight_g refs)"
    using ok ne by (intro sum_weights_pos) (auto simp: refs_ok_def)
  have hpos: "\<forall>w \<in> set ?ws. 0 < w" using refs_ok_healthy [OF ok] by (auto simp: refs_ok_def)
  show ?thesis
  proof (cases "cooldowns_g st = fmempty")
    case True
    then have "?hs = refs" by (simp add: healthy_members_def isCoolingLocked_g_def)
    moreover have "pick_index (prefix_from 0 (map Weight_g refs)) r < length refs" for r
      using ne pick_index_less [of "prefix_from 0 (map Weight_g refs)" r] by simp
    ultimately show ?thesis
      using True ne tot
      by (simp add: pickHealthyLocked_g_def newWeightedSelector_g_eq [OF ok ne] pick_g_def Let_def)
  next
    case False
    show ?thesis
    proof (cases "?hs = []")
      case True
      then show ?thesis
        using False tot
        by (simp add: pickHealthyLocked_g_def newWeightedSelector_g_eq [OF ok ne] healthy_total_g_eq)
    next
      case h: False
      have hs: "0 < sum_list ?ws"
        using h refs_ok_healthy [OF ok] by (intro sum_weights_pos) (auto simp: refs_ok_def)
      then have "walk_index (u * sum_list ?ws) 0 ?ws = Some (pick_index (prefix_from 0 ?ws) (u * sum_list ?ws))"
        using draw_bounds [OF u hs] hpos by (intro walk_index_is_pick_index) auto
      then show ?thesis
        using False tot h hs
        by (simp add: pickHealthyLocked_g_def newWeightedSelector_g_eq [OF ok ne] healthy_total_g_eq
            healthy_walk_g_eq Let_def not_le)
    qed
  qed
qed

lemma pickHealthyLocked_g_cases:
  assumes "refs_ok refs" and "0 \<le> u" and "u < 1"
  obtains (none) "healthy_members st now refs = []"
      "pickHealthyLocked_g st now u (newWeightedSelector_g refs) refs = ''''"
  | (some) r where "r \<in> set refs" "\<not> isCoolingLocked_g st (ModelID r) now" "ModelID r \<noteq> ''''"
      "pickHealthyLocked_g st now u (newWeightedSelector_g refs) refs = ModelID r"
proof (cases "healthy_members st now refs = []")
  case True
  then show ?thesis using none pickHealthyLocked_g_eq [OF assms, of st now] by simp
next
  case False
  let ?hs = "healthy_members st now refs"
  let ?i = "pick_index (prefix_from 0 (map Weight_g ?hs)) (u * sum_list (map Weight_g ?hs))"
  have "?i < length ?hs"
    using False pick_index_less [of "prefix_from 0 (map Weight_g ?hs)"] by simp
  then have mem: "?hs ! ?i \<in> set ?hs" by (rule nth_mem)
  show ?thesis
    by (rule some [of "?hs ! ?i"])
      (use mem False pickHealthyLocked_g_eq [OF assms, of st now] assms(1) in
        \<open>auto simp: healthy_members_def Let_def refs_ok_def\<close>)
qed

text \<open>The cooldown scans of the two engines are the same function.\<close>

lemma as_modelState_simps [simp]:
  "credentials (as_modelState st refs) = map as_credential refs"
  "cooldowns (as_modelState st refs) = cooldowns_g st"
  "CredentialID (as_credential r) = ModelID r"
  "isCoolingLocked (as_modelState st refs) m now = isCoolingLocked_g st m now"
  "cooldown_until (as_modelState st refs) m = until_g st m"
  by (simp_all add: as_modelState_def as_credential_def isCoolingLocked_def isCoolingLocked_g_def
      cooldown_until_def until_g_def)

lemma soonest_loop_g_refines:
  "soonest_loop_g st now best bestUntil rs =
   soonest_loop (as_modelState st refs) now best bestUntil (map as_credential rs)"
  by (induction rs arbitrary: best bestUntil) (auto split: option.splits)

lemma soonestCooldownLocked_g_spec:
  assumes "refs_ok refs" and "refs \<noteq> []" and "healthy_members st now refs = []"
  shows "\<exists>m. soonestCooldownLocked_g st now refs = (m, True) \<and> m \<noteq> '''' \<and> soonest_in st refs m"
proof -
  have "\<forall>r \<in> set (map as_credential refs).
      isCoolingLocked (as_modelState st refs) (CredentialID r) now \<and> CredentialID r \<noteq> ''''"
    using assms by (auto simp: healthy_members_def filter_empty_conv refs_ok_def)
  from soonest_loop_all_cooling [OF this, of "''''" 0] assms(2) show ?thesis
    by (auto simp: soonestCooldownLocked_g_def soonest_loop_g_refines [of _ _ _ _ _ refs] soonest_in_def
        image_image)
qed

lemma pool_choice:
  assumes "refs_ok refs" and "refs \<noteq> []" and "0 \<le> u" and "u < 1"
  obtains (healthy) p where "pickHealthyLocked_g st now u (newWeightedSelector_g refs) refs = p"
      "p \<noteq> ''''" "p \<in> ModelID ` set refs" "\<not> isCoolingLocked_g st p now"
  | (soonest) m where "pickHealthyLocked_g st now u (newWeightedSelector_g refs) refs = ''''"
      "soonestCooldownLocked_g st now refs = (m, True)" "m \<noteq> ''''"
      "healthy_members st now refs = []" "soonest_in st refs m"
  using assms(1,3,4)
proof (cases rule: pickHealthyLocked_g_cases [of refs u st now])
  case none
  then show ?thesis using soonest soonestCooldownLocked_g_spec [OF assms(1,2)] by blast
next
  case (some r)
  then show ?thesis using healthy by blast
qed

lemma pool_choice_empty:
  "pickHealthyLocked_g st now u (newWeightedSelector_g []) [] = ''''"
  "soonestCooldownLocked_g st now [] = ('''', False)"
  by (simp_all add: pickHealthyLocked_g_def newWeightedSelector_g_def soonestCooldownLocked_g_def)

lemma memberInRefs_iff: "memberInRefs refs m \<longleftrightarrow> m \<in> ModelID ` set refs"
  by (auto simp: memberInRefs_def list_ex_iff image_iff eq_commute)

lemma best_of_pool_soonest:
  "healthy_members st now refs = [] \<Longrightarrow> soonest_in st refs m \<Longrightarrow> best_of_pool st now refs m"
  by (simp add: best_of_pool_def soonest_in_def)

text \<open>
  The choice within a pool is proportional to the weights: over the draws \<open>u\<close> in the unit
  interval, a healthy member is chosen exactly when \<open>u\<close> times the healthy total falls into the
  member's own interval, which is as wide as its weight. The prefix-sum search (no cooldowns)
  and the renormalising walk make the same choice.
\<close>

theorem group_pick_interval:
  assumes "refs_ok refs" and "distinct (map ModelID refs)" and "0 \<le> u" and "u < 1"
    and "i < length (healthy_members st now refs)"
  shows "let hs = healthy_members st now refs; ws = map Weight_g hs
         in pickHealthyLocked_g st now u (newWeightedSelector_g refs) refs = ModelID (hs ! i) \<longleftrightarrow>
            sum_list (take i ws) \<le> u * sum_list ws \<and> u * sum_list ws < sum_list (take i ws) + Weight_g (hs ! i)"
proof -
  let ?hs = "healthy_members st now refs"
  let ?ws = "map Weight_g ?hs"
  let ?j = "pick_index (prefix_from 0 ?ws) (u * sum_list ?ws)"
  have ne: "?hs \<noteq> []" using assms(5) by auto
  have ok: "refs_ok ?hs" using assms(1) by (rule refs_ok_healthy)
  have pos: "\<forall>w \<in> set ?ws. 0 < w" using ok by (auto simp: refs_ok_def)
  have tot: "0 < sum_list ?ws" using ok ne by (intro sum_weights_pos) (auto simp: refs_ok_def)
  have j: "?j < length ?hs" using ne pick_index_less [of "prefix_from 0 ?ws"] by simp
  have dist: "distinct (map ModelID ?hs)"
    using assms(2) by (simp add: healthy_members_def distinct_map_filter)
  have "pickHealthyLocked_g st now u (newWeightedSelector_g refs) refs = ModelID (?hs ! ?j)"
    using pickHealthyLocked_g_eq [OF assms(1,3,4), of st now] ne by (simp add: Let_def)
  moreover have "ModelID (?hs ! ?j) = ModelID (?hs ! i) \<longleftrightarrow> ?j = i"
    using nth_eq_iff_index_eq [OF dist, of ?j i] j assms(5) by simp
  moreover have "?j = i \<longleftrightarrow> sum_list (take i ?ws) \<le> u * sum_list ?ws \<and>
      u * sum_list ?ws < sum_list (take (Suc i) ?ws)"
    using draw_bounds [OF assms(3,4) tot] pos assms(5) by (intro bsearch.search_interval) auto
  ultimately show ?thesis using assms(5) sum_list_take_Suc [of i ?ws] by (simp add: Let_def)
qed

lemma ex_members_ok: "refs_ok ex_members" "distinct (map ModelID ex_members)"
  by code_simp+

theorem group_pick_interval_witness:
  "pickHealthyLocked_g ex_group 200 (9/10) (newWeightedSelector_g ex_members) ex_members = ''spare''"
proof -
  have "(0::rat) \<le> 9/10" "(9/10::rat) < 1" "2 < length (healthy_members ex_group 200 ex_members)"
    by code_simp+
  note fact = group_pick_interval [OF ex_members_ok this]
  have "healthy_members ex_group 200 ex_members = ex_members" by code_simp
  with fact show ?thesis by (simp add: ex_members_def Let_def)
qed

section \<open>Every operation keeps the invariant\<close>

lemma gs_ok_pools:
  assumes "gs_ok st"
  shows "refs_ok (defaultMembers st)" and "refs_ok (backupMembers st)"
    and "ModelID ` set (defaultMembers st) \<subseteq> ModelID ` set (members st)"
    and "ModelID ` set (backupMembers st) \<subseteq> ModelID ` set (members st)"
    and "selector_g st = newWeightedSelector_g (defaultMembers st)"
    and "backupSelector st = newWeightedSelector_g (backupMembers st)"
  using assms by (auto simp: gs_ok_def gs_inv_def refs_ok_def)

lemma gs_ok_default_bind:
  assumes "gs_ok st" and "key \<noteq> ''''" and "memberInRefs (members st) m"
  shows "gs_ok (default_bind now key m st)"
  using assms count_after_upd [of "bindingsCount_g st" "bindings_g st" key]
  by (auto simp: gs_ok_def gs_inv_def bindings_live_def default_bind_def)

lemma gs_ok_backup_bind:
  assumes "gs_ok st" and "key \<noteq> ''''" and "memberInRefs (members st) m"
  shows "gs_ok (backup_bind now key m st)"
  using assms count_after_upd [of "backupBindingsCount st" "backupBindings st" key]
  by (auto simp: gs_ok_def gs_inv_def bindings_live_def backup_bind_def)

lemma gs_ok_touch:
  assumes "gs_ok st" and "fmlookup (bindings_g st) key = Some b"
  shows "gs_ok (st\<lparr>bindings_g := fmupd key (b\<lparr>boundAt_g := now\<rparr>) (bindings_g st)\<rparr>)"
  using assms by (auto simp: gs_ok_def gs_inv_def bindings_live_def map_len_fmupd)

lemma gs_ok_backup_touch:
  assumes "gs_ok st" and "fmlookup (backupBindings st) key = Some b"
  shows "gs_ok (backup_touch now key b st)"
  using assms by (auto simp: gs_ok_def gs_inv_def bindings_live_def backup_touch_def map_len_fmupd)

lemma gs_ok_unbind:
  assumes "gs_ok st" and "fmlookup (bindings_g st) key = Some b"
  shows "gs_ok (st\<lparr>bindings_g := fmdrop key (bindings_g st), bindingsCount_g := bindingsCount_g st - 1\<rparr>)"
  using assms count_after_drop [of "bindingsCount_g st" "bindings_g st" key b]
  by (auto simp: gs_ok_def gs_inv_def bindings_live_def)

lemma gs_ok_backup_unbind:
  assumes "gs_ok st" and "fmlookup (backupBindings st) key = Some b"
  shows "gs_ok (backup_unbind key st)"
  using assms count_after_drop [of "backupBindingsCount st" "backupBindings st" key b]
  by (auto simp: gs_ok_def gs_inv_def bindings_live_def backup_unbind_def)

lemma gs_ok_cool_down: "gs_ok (cool_down m until st) = gs_ok st"
  by (simp add: gs_ok_def gs_inv_def bindings_live_def cool_down_def)

lemma gs_inv_keep_bindings: "gs_inv st \<Longrightarrow> gs_inv (keep_bindings P st)"
  using count_after_keep [of "bindingsCount_g st" "bindings_g st" P]
    count_after_keep [of "backupBindingsCount st" "backupBindings st" P]
  by (simp add: gs_inv_def keep_bindings_def)

lemma gs_ok_sweep: "gs_ok st \<Longrightarrow> gs_ok (sweep_group t now st)"
  using gs_inv_keep_bindings
    [of "st\<lparr>cooldowns_g := map_keep (\<lambda>until. until > now) (cooldowns_g st)\<rparr>" "\<lambda>b. \<not> expired_g b t now"]
  by (auto simp: sweep_group_def gs_ok_def gs_inv_def bindings_live_def keep_bindings_def
      split: option.splits if_splits)

lemma gs_ok_changed:
  assumes "refs \<noteq> []" and "refs_ok refs" and "gs_ok st \<or> st = newGroupState"
  shows "gs_ok (keep_bindings (\<lambda>b. memberID b \<in> set (map ModelID refs)) (applyRefsLocked_g st refs))"
proof -
  have "gs_inv (applyRefsLocked_g st refs)"
    using assms(1,3) by (auto simp: gs_ok_def gs_inv_def applyRefsLocked_g_def newGroupState_def Let_def)
  then have "gs_inv (keep_bindings (\<lambda>b. memberID b \<in> set (map ModelID refs)) (applyRefsLocked_g st refs))"
    by (rule gs_inv_keep_bindings)
  moreover have "bindings_live (keep_bindings (\<lambda>b. memberID b \<in> set (map ModelID refs)) (applyRefsLocked_g st refs))"
    by (auto simp: bindings_live_def keep_bindings_def applyRefsLocked_g_def Let_def memberInRefs_iff
        split: option.splits if_splits)
  ultimately show ?thesis
    using assms(2) by (simp add: gs_ok_def keep_bindings_def applyRefsLocked_g_def Let_def)
qed

lemma gos_pick_g_cases:
  assumes "gs_ok st" and "0 \<le> u" and "u < 1"
  obtains (empty) "defaultMembers st = []" "gos_pick_g now u key stale st = (outcome_err stale, st)"
  | (fresh) p where "gos_pick_g now u key stale st =
        (outcome p (key \<noteq> '''') stale,
         if key = '''' then st
         else st\<lparr>bindings_g := fmupd key \<lparr>memberID = p, boundAt_g = now\<rparr> (bindings_g st),
                 bindingsCount_g := bindingsCount_g st + 1\<rparr>)"
      "p \<in> ModelID ` set (defaultMembers st)" "\<not> isCoolingLocked_g st p now"
  | (soonest) m where "gos_pick_g now u key stale st = (outcome m False stale, st)"
      "healthy_members st now (defaultMembers st) = []" "soonest_in st (defaultMembers st) m"
proof (cases "defaultMembers st = []")
  case True
  then show ?thesis
    using empty pool_choice_empty gs_ok_pools(5) [OF assms(1)] by (simp add: gos_pick_g_def Let_def)
next
  case False
  note pools = gs_ok_pools [OF assms(1)]
  show ?thesis
    using pools(1) False assms(2,3)
  proof (cases rule: pool_choice [of "defaultMembers st" u st now])
    case (healthy p)
    then show ?thesis using fresh [of p] pools(5) by (simp add: gos_pick_g_def Let_def)
  next
    case (soonest m)
    then show ?thesis using that(3) [of m] pools(5) by (simp add: gos_pick_g_def Let_def)
  qed
qed

lemma pbm_pick_cases:
  assumes "gs_ok st" and "0 \<le> u" and "u < 1" and "backupMembers st \<noteq> []"
  obtains (fresh) p where "pbm_pick now u key stale st =
        (outcome p (key \<noteq> '''') stale, if key = '''' then st else backup_bind now key p st)"
      "p \<in> ModelID ` set (backupMembers st)" "\<not> isCoolingLocked_g st p now"
  | (soonest) m where "pbm_pick now u key stale st = (outcome m False stale, st)"
      "healthy_members st now (backupMembers st) = []" "soonest_in st (backupMembers st) m"
  using gs_ok_pools(2) [OF assms(1)] assms(4,2,3)
proof (cases rule: pool_choice [of "backupMembers st" u st now])
  case (healthy p)
  then show ?thesis using fresh [of p] gs_ok_pools(6) [OF assms(1)] by (simp add: pbm_pick_def Let_def)
next
  case (soonest m)
  then show ?thesis using that(2) [of m] gs_ok_pools(6) [OF assms(1)] by (simp add: pbm_pick_def Let_def)
qed

lemma gs_ok_gos_pick_g:
  assumes "gs_ok st" and "0 \<le> u" and "u < 1" and "key \<noteq> '''' \<longrightarrow> fmlookup (bindings_g st) key = None"
  shows "gs_ok (snd (gos_pick_g now u key stale st))"
  using assms(1-3)
proof (cases rule: gos_pick_g_cases [of st u now key stale])
  case (fresh p)
  have "key \<noteq> '''' \<Longrightarrow> gs_ok (default_bind now key p st)"
    using assms(1) gs_ok_pools(3) [OF assms(1)] fresh(2)
    by (intro gs_ok_default_bind) (auto simp: memberInRefs_iff)
  then show ?thesis using fresh(1) assms(1,4) by (simp add: default_bind_def)
qed (use assms(1) in simp_all)

lemma gs_ok_gos_full_g:
  assumes "gs_ok st" and "0 \<le> u" and "u < 1"
  shows "gs_ok (snd (gos_full_g t now u key st))"
proof (cases "key = '''' \<or> fmlookup (bindings_g st) key = None")
  case True
  then have "gos_full_g t now u key st = gos_pick_g now u key False st" by (auto simp: gos_full_g_def)
  then show ?thesis using gs_ok_gos_pick_g [OF assms] True by auto
next
  case False
  then obtain b where b: "fmlookup (bindings_g st) key = Some b" "key \<noteq> ''''" by auto
  show ?thesis
    using b gs_ok_touch [OF assms(1) b(1)] gs_ok_gos_pick_g [OF gs_ok_unbind [OF assms(1) b(1)] assms(2,3)]
    by (cases "valid_g t now st b") (simp_all add: gos_full_g_def)
qed

lemma gs_ok_gos_hit_g: "gs_ok st \<Longrightarrow> gos_hit_g t now key m st = Some st' \<Longrightarrow> gs_ok st'"
  by (auto simp: gos_hit_g_def gs_ok_touch split: option.splits if_splits)

lemma gs_ok_st_getOrSelect:
  assumes "gs_ok st" and "0 \<le> u" and "u < 1"
  shows "gs_ok (snd (st_getOrSelect t now u key st))"
  using assms(1) gs_ok_gos_full_g [OF assms, of t now key] gs_ok_gos_hit_g [OF assms(1), of t now key]
  by (auto simp: st_getOrSelect_def getOrSelect_sections_def map_prod_def Let_def
      split: prod.splits option.splits)

lemma gs_ok_pbm_pick:
  assumes "gs_ok st" and "0 \<le> u" and "u < 1" and "backupMembers st \<noteq> []"
  shows "gs_ok (snd (pbm_pick now u key stale st))"
  using assms
proof (cases rule: pbm_pick_cases [of st u now key stale])
  case (fresh p)
  have "key \<noteq> '''' \<Longrightarrow> gs_ok (backup_bind now key p st)"
    using assms(1) gs_ok_pools(4) [OF assms(1)] fresh(2)
    by (intro gs_ok_backup_bind) (auto simp: memberInRefs_iff)
  then show ?thesis using fresh(1) assms(1) by simp
qed (use assms(1) in simp_all)

lemma pbm_has_iff: "gs_ok st \<Longrightarrow> pbm_has st \<longleftrightarrow> backupMembers st \<noteq> []"
  by (simp add: pbm_has_def gs_ok_pools(6) sel_live_iff gs_ok_pools(2))

lemma backup_unbind_simps [simp]:
  "backupMembers (backup_unbind key st) = backupMembers st"
  "backupSelector (backup_unbind key st) = backupSelector st"
  "cooldowns_g (backup_unbind key st) = cooldowns_g st"
  "members (backup_unbind key st) = members st"
  "fmlookup (backupBindings (backup_unbind key st)) k = (if k = key then None else fmlookup (backupBindings st) k)"
  by (simp_all add: backup_unbind_def)

lemma gs_ok_pbm_full:
  assumes "gs_ok st" and "0 \<le> u" and "u < 1"
  shows "gs_ok (snd (pbm_full t now u key stale st))"
proof (cases "\<not> pbm_has st \<or> key = '''' \<or> fmlookup (backupBindings st) key = None")
  case True
  then have "pbm_full t now u key stale st = (outcome_err stale, st) \<or>
      backupMembers st \<noteq> [] \<and> pbm_full t now u key stale st = pbm_pick now u key stale st"
    using pbm_has_iff [OF assms(1)] by (auto simp: pbm_full_def)
  then show ?thesis using gs_ok_pbm_pick [OF assms] assms(1) by auto
next
  case False
  then obtain b where b: "fmlookup (backupBindings st) key = Some b" "key \<noteq> ''''" "pbm_has st" by auto
  have "backupMembers st \<noteq> []" using b(3) pbm_has_iff [OF assms(1)] by simp
  then show ?thesis
    using b gs_ok_backup_touch [OF assms(1) b(1)]
      gs_ok_pbm_pick [OF gs_ok_backup_unbind [OF assms(1) b(1)] assms(2,3)]
    by (cases "valid_g t now st b") (simp_all add: pbm_full_def Let_def)
qed

lemma pbm_fast_bind_sequential:
  "pbm_fastEligible st \<Longrightarrow>
   pbm_fast_bind now key (ModelID (hd (backupMembers st))) stale st =
     (Some (outcome (ModelID (hd (backupMembers st))) True stale), stale,
      backup_bind now key (ModelID (hd (backupMembers st))) st)"
  by (auto simp: pbm_fast_bind_def pbm_fastEligible_def pbm_has_def sel_live_def split: option.splits)

lemma pbm_fastEligible_unbind [simp]: "pbm_fastEligible (backup_unbind key st) = pbm_fastEligible st"
  by (simp add: pbm_fastEligible_def pbm_has_def)

text \<open>With nothing interleaved the fast path always answers.\<close>

lemma pbm_fast_sequential:
  assumes "pbm_fastEligible st"
  shows "pbm_fast t now key (ModelID (hd (backupMembers st))) st =
     (case fmlookup (backupBindings st) key of
        None \<Rightarrow> (Some (outcome (ModelID (hd (backupMembers st))) True False), False,
                 backup_bind now key (ModelID (hd (backupMembers st))) st)
      | Some b \<Rightarrow>
          if memberInRefs (members st) (memberID b) \<and> \<not> expired_g b t now
          then (Some (outcome (memberID b) False False), False, backup_touch now key b st)
          else (Some (outcome (ModelID (hd (backupMembers st))) True (\<not> memberInRefs (members st) (memberID b))),
                \<not> memberInRefs (members st) (memberID b),
                backup_bind now key (ModelID (hd (backupMembers st))) (backup_unbind key st)))"
  using assms pbm_fast_bind_sequential [of st] pbm_fast_bind_sequential [of "backup_unbind key st"]
  by (auto simp: pbm_fast_def Let_def split: option.splits)

lemma st_pickBackupMember_eq:
  "st_pickBackupMember t now u key st =
     (if \<not> pbm_has st \<or> backupMembers st = [] then (outcome_err False, st)
      else if pbm_fastEligible st then
        (let fastID = ModelID (hd (backupMembers st))
         in if key = '''' then (outcome fastID False False, st)
            else case fmlookup (backupBindings st) key of
              None \<Rightarrow> (outcome fastID True False, backup_bind now key fastID st)
            | Some b \<Rightarrow>
                if memberInRefs (members st) (memberID b) \<and> \<not> expired_g b t now
                then (outcome (memberID b) False False, backup_touch now key b st)
                else (outcome fastID True (\<not> memberInRefs (members st) (memberID b)),
                      backup_bind now key fastID (backup_unbind key st)))
      else pbm_full t now u key False st)"
  by (simp add: st_pickBackupMember_def pickBackup_sections_def pbm_fast_sequential Let_def
      map_prod_def case_prod_beta split: option.split)

lemma gs_ok_st_pickBackupMember:
  assumes "gs_ok st" and "0 \<le> u" and "u < 1"
  shows "gs_ok (snd (st_pickBackupMember t now u key st))"
proof (cases "pbm_has st \<and> backupMembers st \<noteq> [] \<and> pbm_fastEligible st \<and> key \<noteq> ''''")
  case True
  let ?id = "ModelID (hd (backupMembers st))"
  have mem: "memberInRefs (members st) ?id"
    using True gs_ok_pools(4) [OF assms(1)] by (auto simp: memberInRefs_iff)
  show ?thesis
  proof (cases "fmlookup (backupBindings st) key")
    case None
    then show ?thesis
      using True gs_ok_backup_bind [OF assms(1) _ mem] by (simp add: st_pickBackupMember_eq Let_def)
  next
    case (Some b)
    have "gs_ok (backup_bind now key ?id (backup_unbind key st))"
      using True mem gs_ok_backup_unbind [OF assms(1) Some] by (intro gs_ok_backup_bind) auto
    then show ?thesis
      using True Some gs_ok_backup_touch [OF assms(1) Some] by (simp add: st_pickBackupMember_eq Let_def)
  qed
next
  case False
  then show ?thesis
    using assms(1) gs_ok_pbm_full [OF assms, of t now key False]
    by (auto simp: st_pickBackupMember_eq Let_def)
qed

lemma gs_ok_reselect_g:
  assumes "gs_ok st"
    and "\<And>p. key \<noteq> '''' \<Longrightarrow> p = pickHealthyLocked_g st now u (sel st) (pool st) \<Longrightarrow> p \<noteq> '''' \<Longrightarrow> gs_ok (bind now key p st)"
  shows "gs_ok (snd (reselect_g sel pool binds bind now u key excl st))"
  using assms by (auto simp: reselect_g_def Let_def split: option.splits prod.splits)

lemma pick_in_pool:
  assumes "refs_ok refs" and "0 \<le> u" and "u < 1" and "sel = newWeightedSelector_g refs"
    and "pickHealthyLocked_g st now u sel refs \<noteq> ''''"
  shows "pickHealthyLocked_g st now u sel refs \<in> ModelID ` set refs"
  using assms(1-3)
  by (cases rule: pickHealthyLocked_g_cases [of refs u st now]) (use assms(4,5) in auto)

lemma gs_ok_st_ExcludeAndReselect_g:
  assumes "gs_ok st" and "0 \<le> u" and "u < 1"
  shows "gs_ok (snd (st_ExcludeAndReselect_g d now u key excl ra st))"
proof -
  define s1 where "s1 = cool_down excl (now + (if ra \<le> 0 then d else ra)) st"
  have ok: "gs_ok s1" using assms(1) by (simp add: s1_def gs_ok_cool_down)
  have "gs_ok (snd (reselect_g selector_g defaultMembers bindings_g default_bind now u key excl s1))"
    using ok pick_in_pool [OF gs_ok_pools(1) [OF ok] assms(2,3) gs_ok_pools(5) [OF ok], of s1 now]
      gs_ok_pools(3) [OF ok]
    by (intro gs_ok_reselect_g gs_ok_default_bind) (auto simp: memberInRefs_iff)
  then show ?thesis using assms(1) by (simp add: st_ExcludeAndReselect_g_def s1_def)
qed

lemma gs_ok_st_ExcludeAndBackupReselect:
  assumes "gs_ok st" and "0 \<le> u" and "u < 1"
  shows "gs_ok (snd (st_ExcludeAndBackupReselect d now u key excl ra st))"
proof -
  define s1 where "s1 = cool_down excl (now + (if ra \<le> 0 then d else ra)) st"
  have ok: "gs_ok s1" using assms(1) by (simp add: s1_def gs_ok_cool_down)
  have "gs_ok (snd (reselect_g backupSelector backupMembers backupBindings backup_bind now u key excl s1))"
    using ok pick_in_pool [OF gs_ok_pools(2) [OF ok] assms(2,3) gs_ok_pools(6) [OF ok], of s1 now]
      gs_ok_pools(4) [OF ok]
    by (intro gs_ok_reselect_g gs_ok_backup_bind) (auto simp: memberInRefs_iff)
  then show ?thesis using assms(1) by (simp add: st_ExcludeAndBackupReselect_def s1_def gs_ok_cool_down)
qed

section \<open>Reachable engines\<close>

lemma engine_inv_g_upd:
  "engine_inv_g e \<Longrightarrow> (\<And>st. fmlookup (groups e) g = Some st \<Longrightarrow> gs_ok (f st)) \<Longrightarrow>
   engine_inv_g (case fmlookup (groups e) g of None \<Rightarrow> e | Some st \<Rightarrow> e\<lparr>groups := fmupd g (f st) (groups e)\<rparr>)"
  by (auto simp: engine_inv_g_def split: option.splits)

lemma engine_inv_g_ok: "engine_inv_g e \<Longrightarrow> fmlookup (groups e) g = Some st \<Longrightarrow> gs_ok st"
  by (simp add: engine_inv_g_def)

lemma snd_group_ops:
  "snd (getOrSelect e now u g key) = (case fmlookup (groups e) g of None \<Rightarrow> e
     | Some st \<Rightarrow> e\<lparr>groups := fmupd g (snd (st_getOrSelect (ttl_g e) now u key st)) (groups e)\<rparr>)"
  "snd (pickBackupMember e now u g key) = (case fmlookup (groups e) g of None \<Rightarrow> e
     | Some st \<Rightarrow> e\<lparr>groups := fmupd g (snd (st_pickBackupMember (ttl_g e) now u key st)) (groups e)\<rparr>)"
  "snd (ExcludeAndReselect_g e now u g key excl ra) = (case fmlookup (groups e) g of None \<Rightarrow> e
     | Some st \<Rightarrow> e\<lparr>groups := fmupd g (snd (st_ExcludeAndReselect_g (defaultCooldown_g e) now u key excl ra st)) (groups e)\<rparr>)"
  "snd (ExcludeAndBackupReselect e now u g key excl ra) = (case fmlookup (groups e) g of None \<Rightarrow> e
     | Some st \<Rightarrow> e\<lparr>groups := fmupd g (snd (st_ExcludeAndBackupReselect (defaultCooldown_g e) now u key excl ra st)) (groups e)\<rparr>)"
  by (simp_all add: getOrSelect_def pickBackupMember_def ExcludeAndReselect_g_def
      ExcludeAndBackupReselect_def case_prod_beta split: option.split)

lemma engine_inv_g_changed:
  assumes "engine_inv_g e" and "refs_ok refs"
  shows "engine_inv_g (OnGroupChanged e g refs)"
proof (cases "refs = []")
  case True
  then show ?thesis using assms(1) by (auto simp: OnGroupChanged_def engine_inv_g_def)
next
  case False
  let ?st = "case fmlookup (groups e) g of None \<Rightarrow> newGroupState | Some st \<Rightarrow> st"
  have "gs_ok ?st \<or> ?st = newGroupState"
    using engine_inv_g_ok [OF assms(1)] by (auto split: option.splits)
  from gs_ok_changed [OF False assms(2) this] show ?thesis
    using assms(1) False by (auto simp: OnGroupChanged_def engine_inv_g_def Let_def)
qed

lemma engine_step_g_inv: "engine_step_g e e' \<Longrightarrow> engine_inv_g e \<Longrightarrow> engine_inv_g e'"
proof (induction rule: engine_step_g.induct)
  case (step_sweep_g e now)
  then show ?case using gs_ok_sweep by (auto simp: sweepOnce_g_def engine_inv_g_def)
next
  case (step_stop_g e)
  then show ?case by (simp add: Stop_g_def engine_inv_g_def)
qed (simp_all add: snd_group_ops engine_inv_g_upd engine_inv_g_ok gs_ok_st_getOrSelect
    gs_ok_st_pickBackupMember gs_ok_st_ExcludeAndReselect_g gs_ok_st_ExcludeAndBackupReselect
    engine_inv_g_changed)

lemma engine_reachable_g_inv: "engine_reachable_g e \<Longrightarrow> engine_inv_g e"
proof (induction rule: engine_reachable_g.induct)
  case (reach_new_g t s c)
  then show ?case by (simp add: engine_inv_g_def NewEngine_g_def)
next
  case (reach_step_g e e')
  then show ?case using engine_step_g_inv by blast
qed

lemma ex_engine_g_reachable: "engine_reachable_g ex_engine_g"
  unfolding ex_engine_g_def
  by (intro reach_step_g [OF _ step_select_g] reach_step_g [OF _ step_changed_g] reach_new_g ex_members_ok) simp_all

text \<open>
  In every reachable group engine both binding counters are exact, the two pools partition
  the members, each selector is the one its pool builds, every binding names a current member
  (so the selection-time repair of stale bindings is a pure defence), and \<open>HasBackupPool\<close> says
  whether a backup member exists.
\<close>

theorem group_reachable_invariant:
  assumes "engine_reachable_g e" and "fmlookup (groups e) g = Some st"
  shows "bindingsCount_g st = of_nat (map_len (bindings_g st)) \<and>
         backupBindingsCount st = of_nat (map_len (backupBindings st)) \<and>
         set (defaultMembers st) \<union> set (backupMembers st) = set (members st) \<and>
         set (defaultMembers st) \<inter> set (backupMembers st) = {} \<and>
         selector_g st = newWeightedSelector_g (defaultMembers st) \<and>
         backupSelector st = newWeightedSelector_g (backupMembers st) \<and>
         bindings_live st \<and>
         (HasBackupPool e g \<longleftrightarrow> (\<exists>r. r \<in> set (members st) \<and> BackupOnly r))"
proof -
  have ok: "gs_ok st" using engine_inv_g_ok [OF engine_reachable_g_inv [OF assms(1)] assms(2)] .
  have "HasBackupPool e g \<longleftrightarrow> backupMembers st \<noteq> []"
    using assms(2) pbm_has_iff [OF ok] by (simp add: HasBackupPool_def pbm_has_def)
  moreover have "\<dots> \<longleftrightarrow> (\<exists>r. r \<in> set (members st) \<and> BackupOnly r)"
    using ok by (auto simp: gs_ok_def gs_inv_def filter_empty_conv)
  ultimately show ?thesis using ok by (auto simp: gs_ok_def gs_inv_def)
qed

theorem group_reachable_invariant_witness:
  "bindings_live (the (fmlookup (groups ex_engine_g) ''g'')) \<and> HasBackupPool ex_engine_g ''g''"
proof -
  have l: "fmlookup (groups ex_engine_g) ''g'' = Some (the (fmlookup (groups ex_engine_g) ''g''))"
    by code_simp
  have "\<lparr>ModelID = ''spare'', Weight_g = 1, Position_g = 2, BackupOnly = True\<rparr>
      \<in> set (members (the (fmlookup (groups ex_engine_g) ''g'')))"
    by code_simp
  with group_reachable_invariant [OF ex_engine_g_reachable l] show ?thesis
    by (metis MemberRef.select_convs(4))
qed

section \<open>What a selection promises\<close>

lemma cooling_frame_g:
  assumes "cooldowns_g a = cooldowns_g b"
  shows "isCoolingLocked_g a = isCoolingLocked_g b" and "best_of_pool a = best_of_pool b"
  using assms
  by (auto simp: fun_eq_iff isCoolingLocked_g_def best_of_pool_def healthy_members_def soonest_in_def until_g_def)

lemma gos_pick_g_serves:
  assumes "gs_ok st" and "0 \<le> u" and "u < 1"
  shows "served_g defaultMembers bindings_g now key (fst (gos_pick_g now u key stale st)) st0
           (snd (gos_pick_g now u key stale st))"
  using assms
proof (cases rule: gos_pick_g_cases [of st u now key stale])
  case (fresh p)
  let ?s = "snd (gos_pick_g now u key stale st)"
  have "cooldowns_g ?s = cooldowns_g st" "defaultMembers ?s = defaultMembers st" by (simp_all add: fresh(1))
  then show ?thesis
    using fresh(2,3) cooling_frame_g [of ?s st] by (simp add: fresh(1) served_g_def best_of_pool_def)
qed (auto simp: served_g_def best_of_pool_soonest)

lemma gos_full_g_serves:
  assumes "gs_ok st" and "0 \<le> u" and "u < 1"
  shows "served_g defaultMembers bindings_g now key (fst (gos_full_g t now u key st)) st
           (snd (gos_full_g t now u key st))"
proof (cases "key = '''' \<or> fmlookup (bindings_g st) key = None")
  case True
  then have "gos_full_g t now u key st = gos_pick_g now u key False st" by (auto simp: gos_full_g_def)
  then show ?thesis using gos_pick_g_serves [OF assms] by simp
next
  case False
  then obtain b where b: "fmlookup (bindings_g st) key = Some b" "key \<noteq> ''''" by auto
  show ?thesis
  proof (cases "valid_g t now st b")
    case True
    then show ?thesis
      using b by (auto simp: gos_full_g_def served_g_def valid_g_def isCoolingLocked_g_def)
  next
    case False
    then show ?thesis
      using b gos_pick_g_serves [OF gs_ok_unbind [OF assms(1) b(1)] assms(2,3), of now key _ st]
      by (simp add: gos_full_g_def)
  qed
qed

text \<open>
  C31: the default entry of a group, under every interleaving of its critical sections. A call
  that goes past the single-member fast path fails only when the group has no default member. Otherwise it
  returns a default member that is not cooling (the soonest to recover when all are), or the
  member this conversation was already bound to; a backup-only member is therefore reached through the
  default entry only by a binding made before it was reclassified.
\<close>

theorem group_default_entry:
  assumes "gs_ok s_full" and "0 \<le> u" and "u < 1"
    and "getOrSelect_sections t now u key s_count s_fast s_read s_hit s_full = (out, Some st')"
  shows "served_g defaultMembers bindings_g now key out s_hit st' \<or>
         served_g defaultMembers bindings_g now key out s_full st'"
proof (cases "\<exists>m s1. gos_read_g t now key s_read = Some m \<and> gos_hit_g t now key m s_hit = Some s1")
  case True
  then obtain m s1 where h: "gos_read_g t now key s_read = Some m" "gos_hit_g t now key m s_hit = Some s1"
    by blast
  then have "out = outcome m False False" "st' = s1"
    using assms(4) by (auto simp: getOrSelect_sections_def Let_def split: if_splits)
  moreover have "\<not> isCoolingLocked_g s1 m now" "map_option memberID (fmlookup (bindings_g s_hit) key) = Some m"
    using h(2) by (auto simp: gos_hit_g_def isCoolingLocked_g_def split: option.splits if_splits)
  ultimately show ?thesis by (simp add: served_g_def)
next
  case False
  then have "gos_full_g t now u key s_full = (out, st')"
    using assms(4)
    by (auto simp: getOrSelect_sections_def map_prod_def Let_def split: if_splits option.splits prod.splits)
  then show ?thesis using gos_full_g_serves [OF assms(1-3), of now key t] by simp
qed

lemma ex_group_ok: "gs_ok ex_group"
proof -
  have "gs_ok (keep_bindings (\<lambda>b. memberID b \<in> set (map ModelID ex_members)) (applyRefsLocked_g newGroupState ex_members))"
    using ex_members_ok by (intro gs_ok_changed) (auto simp: ex_members_def)
  moreover have "keep_bindings P (applyRefsLocked_g newGroupState ex_members) = applyRefsLocked_g newGroupState ex_members" for P
    by (simp add: keep_bindings_def applyRefsLocked_g_def newGroupState_def Let_def map_keep_def map_dropped_def)
  ultimately have "gs_ok (applyRefsLocked_g newGroupState ex_members)" by simp
  then show ?thesis unfolding ex_group_def by (rule gs_ok_default_bind) code_simp+
qed

theorem group_default_entry_witness:
  "served_g defaultMembers bindings_g 200 ''k'' (outcome ''slow'' False False) ex_group
     (snd (gos_full_g hour 200 0 ''k'' ex_group))"
proof -
  have "getOrSelect_sections hour 200 0 ''k'' ex_group ex_group ex_group ex_group ex_group =
      (outcome ''slow'' False False, Some (snd (gos_full_g hour 200 0 ''k'' ex_group)))"
    by code_simp
  from group_default_entry [OF ex_group_ok _ _ this] show ?thesis by simp
qed

lemma pbm_pick_serves:
  assumes "gs_ok st" and "0 \<le> u" and "u < 1" and "backupMembers st \<noteq> []"
  shows "served_g backupMembers backupBindings now key (fst (pbm_pick now u key stale st)) st0
           (snd (pbm_pick now u key stale st))"
  using assms
proof (cases rule: pbm_pick_cases [of st u now key stale])
  case (fresh p)
  let ?s = "snd (pbm_pick now u key stale st)"
  have "cooldowns_g ?s = cooldowns_g st" "backupMembers ?s = backupMembers st"
    by (simp_all add: fresh(1) backup_bind_def)
  then show ?thesis
    using fresh(2,3) cooling_frame_g [of ?s st]
    by (simp add: fresh(1) served_g_def best_of_pool_def backup_bind_def)
qed (auto simp: served_g_def best_of_pool_soonest)

lemma pbm_full_serves:
  assumes "gs_ok st" and "0 \<le> u" and "u < 1"
  shows "served_g backupMembers backupBindings now key (fst (pbm_full t now u key stale st)) st
           (snd (pbm_full t now u key stale st))"
proof (cases "pbm_has st")
  case False
  then show ?thesis using pbm_has_iff [OF assms(1)] by (simp add: pbm_full_def served_g_def)
next
  case has: True
  then have ne: "backupMembers st \<noteq> []" using pbm_has_iff [OF assms(1)] by simp
  show ?thesis
  proof (cases "key = '''' \<or> fmlookup (backupBindings st) key = None")
    case True
    then have "pbm_full t now u key stale st = pbm_pick now u key stale st"
      using has by (auto simp: pbm_full_def)
    then show ?thesis using pbm_pick_serves [OF assms ne] by simp
  next
    case False
    then obtain b where b: "fmlookup (backupBindings st) key = Some b" "key \<noteq> ''''" by auto
    show ?thesis
    proof (cases "valid_g t now st b")
      case True
      then show ?thesis using has b
        by (auto simp: pbm_full_def served_g_def valid_g_def isCoolingLocked_g_def backup_touch_def)
    next
      case False
      then show ?thesis
        using has b ne pbm_pick_serves [OF gs_ok_backup_unbind [OF assms(1) b(1)] assms(2,3), of now key _ st]
        by (simp add: pbm_full_def Let_def)
    qed
  qed
qed

lemma fastEligible_facts:
  assumes "pbm_fastEligible st" and "cooldowns_g st' = cooldowns_g st" and "backupMembers st' = backupMembers st"
  shows "\<not> isCoolingLocked_g st' m now" and "best_of_pool st' now (backupMembers st') (ModelID (hd (backupMembers st)))"
proof -
  have "cooldowns_g st = fmempty" and "length (backupMembers st) = 1"
    using assms(1) by (auto simp: pbm_fastEligible_def)
  then show "\<not> isCoolingLocked_g st' m now" "best_of_pool st' now (backupMembers st') (ModelID (hd (backupMembers st)))"
    using assms(2,3) by (auto simp: isCoolingLocked_g_def best_of_pool_def length_Suc_conv)
qed

text \<open>
  The backup entry of a group serves only from the backup pool: it fails exactly when there
  is no backup member, and otherwise returns a healthy backup member (the soonest to recover when
  all are cooling) or the member this conversation's backup binding names; the bindings of the
  default pool are never touched.
\<close>

theorem group_backup_entry:
  assumes ok: "gs_ok st" and u: "0 \<le> u" "u < 1"
  shows "served_g backupMembers backupBindings now key
           (fst (st_pickBackupMember t now u key st)) st (snd (st_pickBackupMember t now u key st)) \<and>
         (out_err (fst (st_pickBackupMember t now u key st)) = None \<longleftrightarrow> backupMembers st \<noteq> []) \<and>
         bindings_g (snd (st_pickBackupMember t now u key st)) = bindings_g st"
proof (cases "backupMembers st = []")
  case True
  then show ?thesis by (simp add: st_pickBackupMember_eq served_g_def)
next
  case ne: False
  then have has: "pbm_has st" using pbm_has_iff [OF ok] by simp
  have frame: "bindings_g (snd (pbm_pick now u k stale s)) = bindings_g s" for k stale s
    by (auto simp: pbm_pick_def Let_def backup_bind_def split: prod.splits)
  have err: "out_err (fst (pbm_pick now u k stale s)) = None"
    if "gs_ok s" "backupMembers s \<noteq> []" for k stale s
    using that(1) u that(2) by (cases rule: pbm_pick_cases [of s u now k stale]) auto
  show ?thesis
  proof (cases "pbm_fastEligible st")
    case True
    then show ?thesis using has ne fastEligible_facts [OF True]
      by (auto simp: st_pickBackupMember_eq Let_def served_g_def backup_bind_def backup_touch_def
          backup_unbind_def split: option.splits)
  next
    case False
    have eq: "st_pickBackupMember t now u key st = pbm_full t now u key False st"
      using False has ne by (simp add: st_pickBackupMember_eq)
    have "bindings_g (snd (pbm_full t now u key False st)) = bindings_g st"
      by (auto simp: pbm_full_def frame Let_def backup_touch_def backup_unbind_def split: option.splits)
    moreover have "out_err (fst (pbm_full t now u key False st)) = None"
      using has ne err [OF ok] err [OF gs_ok_backup_unbind [OF ok]]
      by (auto simp: pbm_full_def Let_def split: option.splits)
    ultimately show ?thesis using pbm_full_serves [OF ok u] ne by (simp add: eq)
  qed
qed

theorem group_backup_entry_witness:
  "fst (st_pickBackupMember hour 200 (1/2) ''k'' ex_group) = outcome ''spare'' True False \<and>
   served_g backupMembers backupBindings 200 ''k'' (outcome ''spare'' True False) ex_group
     (snd (st_pickBackupMember hour 200 (1/2) ''k'' ex_group))"
proof -
  have o: "fst (st_pickBackupMember hour 200 (1/2) ''k'' ex_group) = outcome ''spare'' True False"
    by code_simp
  have "(0::rat) \<le> 1/2" "(1/2::rat) < 1" by simp_all
  from group_backup_entry [OF ex_group_ok this, of 200 "''k''" hour] o show ?thesis by simp
qed

section \<open>Failover within a pool\<close>

lemma reselect_g_spec:
  assumes pool: "refs_ok (pool st)" "sel st = newWeightedSelector_g (pool st)"
      "ModelID ` set (pool st) \<subseteq> ModelID ` set (members st)"
    and u: "0 \<le> u" "u < 1"
    and bind: "\<And>p. members (bind now key p st) = members st" "\<And>p. cooldowns_g (bind now key p st) = cooldowns_g st"
      "\<And>p. map_option memberID (fmlookup (binds (bind now key p st)) key) = Some p"
    and cool: "isCoolingLocked_g st excl now"
    and r: "reselect_g sel pool binds bind now u key excl st = (out, st')"
  shows "reselected_g pool binds now key excl out st' \<and> cooldowns_g st' = cooldowns_g st"
proof (cases "\<exists>b. key \<noteq> '''' \<and> fmlookup (binds st) key = Some b \<and> memberID b \<noteq> excl \<and>
    \<not> isCoolingLocked_g st (memberID b) now \<and> memberInRefs (members st) (memberID b)")
  case True
  then show ?thesis using r by (auto simp: reselect_g_def reselected_g_def Let_def)
next
  case no: False
  show ?thesis
  proof (cases "pool st = []")
    case True
    then show ?thesis
      using r no pool(2) pool_choice_empty
      by (auto simp: reselect_g_def reselected_g_def Let_def split: option.splits if_splits)
  next
    case False
    show ?thesis
      using pool(1) False u
    proof (cases rule: pool_choice [of "pool st" u st now])
      case (healthy p)
      have ne: "p \<noteq> excl" using healthy(4) cool by auto
      have eq: "(out, st') = ((p, ReselectHealthy_g), if key = '''' then st else bind now key p st)"
        using r no pool(2) healthy ne by (auto simp: reselect_g_def Let_def split: option.splits if_splits)
      have "isCoolingLocked_g (bind now key p st) p now = isCoolingLocked_g st p now"
        using bind(2) by (simp add: isCoolingLocked_g_def)
      moreover have "memberInRefs (members st) p" using healthy(3) pool(3) by (auto simp: memberInRefs_iff)
      ultimately show ?thesis using eq healthy ne bind by (auto simp: reselected_g_def)
    next
      case (soonest m)
      then have "(out, st') = ((m, ReselectSoonestExpiry_g), st)"
        using r no pool(2) by (auto simp: reselect_g_def Let_def split: option.splits if_splits)
      then show ?thesis using soonest by (simp add: reselected_g_def)
    qed
  qed
qed

lemma cool_down_cooling: "now < until \<Longrightarrow> isCoolingLocked_g (cool_down m until st) m now"
  by (simp add: cool_down_def isCoolingLocked_g_def)

text \<open>
  Failover in the default pool of a group with at least two members. The failed member
  is cooling until the retry time; the answer is another configured, healthy member to which the
  conversation is bound afterwards, or, only when every default member is cooling, the soonest to
  recover, or nothing, only when the group has no default member.
\<close>

theorem group_failover_modes:
  assumes "gs_ok st" and "0 \<le> u" and "u < 1" and "2 \<le> memberCount st" and "0 < d"
    and "st_ExcludeAndReselect_g d now u key excl ra st = (out, st')"
  shows "reselected_g defaultMembers bindings_g now key excl out st' \<and>
         fmlookup (cooldowns_g st') excl = Some (now + (if ra \<le> 0 then d else ra))"
proof -
  define s1 where "s1 = cool_down excl (now + (if ra \<le> 0 then d else ra)) st"
  have ok: "gs_ok s1" using assms(1) by (simp add: s1_def gs_ok_cool_down)
  have r: "reselect_g selector_g defaultMembers bindings_g default_bind now u key excl s1 = (out, st')"
    using assms(4,6) by (simp add: st_ExcludeAndReselect_g_def s1_def)
  have "isCoolingLocked_g s1 excl now" using assms(5) by (simp add: s1_def cool_down_cooling)
  from reselect_g_spec [OF gs_ok_pools(1) [OF ok] gs_ok_pools(5) [OF ok] gs_ok_pools(3) [OF ok] assms(2,3)
      _ _ _ this r]
  have "reselected_g defaultMembers bindings_g now key excl out st' \<and> cooldowns_g st' = cooldowns_g s1"
    by (simp add: default_bind_def)
  then show ?thesis by (simp add: s1_def cool_down_def)
qed

theorem group_failover_modes_witness:
  "reselected_g defaultMembers bindings_g 200 ''k'' ''slow'' (''fast'', ReselectHealthy_g)
     (snd (st_ExcludeAndReselect_g minute 200 0 ''k'' ''slow'' 0 ex_group))"
proof -
  have "2 \<le> memberCount ex_group" "0 < minute"
    "st_ExcludeAndReselect_g minute 200 0 ''k'' ''slow'' 0 ex_group =
      ((''fast'', ReselectHealthy_g), snd (st_ExcludeAndReselect_g minute 200 0 ''k'' ''slow'' 0 ex_group))"
    by code_simp+
  from group_failover_modes [OF ex_group_ok _ _ this] show ?thesis by simp
qed

text \<open>
  Failover in the backup pool. The failed member is cooling afterwards in every case. With
  one backup the answer is \<open>ReselectNone\<close>, so that the caller gives up on the group; with more,
  it is another configured, healthy member bound in the backup pool, or the soonest to recover
  when every backup is cooling. Bindings of the default pool are untouched.
\<close>

theorem group_backup_failover_modes:
  assumes "gs_ok st" and "0 \<le> u" and "u < 1" and "backupMembers st \<noteq> []" and "0 < d"
    and "st_ExcludeAndBackupReselect d now u key excl ra st = (out, st')"
  shows "isCoolingLocked_g st' excl now \<and>
         (if length (backupMembers st) = 1 then out = ('''', ReselectNone_g)
          else reselected_g backupMembers backupBindings now key excl out st')"
proof -
  have has: "pbm_has st" using assms(4) pbm_has_iff [OF assms(1)] by simp
  then have sel: "backupSelector st \<noteq> None" by (auto simp: pbm_has_def sel_live_def split: option.splits)
  define s1 where "s1 = cool_down excl (now + (if ra \<le> 0 then d else ra)) st"
  show ?thesis
  proof (cases "length (backupMembers st) = 1")
    case True
    then have "out = ('''', ReselectNone_g)" "st' = cool_down excl (now + retryAfterIf ra d) st"
      using assms(6) has sel assms(4) by (auto simp: st_ExcludeAndBackupReselect_def)
    then show ?thesis using True assms(5) by (simp add: cool_down_cooling retryAfterIf_def)
  next
    case False
    have ok: "gs_ok s1" using assms(1) by (simp add: s1_def gs_ok_cool_down)
    have r: "reselect_g backupSelector backupMembers backupBindings backup_bind now u key excl s1 = (out, st')"
      using assms(4,6) has False by (simp add: st_ExcludeAndBackupReselect_def s1_def)
    have c: "isCoolingLocked_g s1 excl now" using assms(5) by (simp add: s1_def cool_down_cooling)
    from reselect_g_spec [OF gs_ok_pools(2) [OF ok] gs_ok_pools(6) [OF ok] gs_ok_pools(4) [OF ok] assms(2,3)
        _ _ _ c r]
    have "reselected_g backupMembers backupBindings now key excl out st' \<and> cooldowns_g st' = cooldowns_g s1"
      by (simp add: backup_bind_def)
    then show ?thesis using False c by (simp add: isCoolingLocked_g_def)
  qed
qed

theorem group_backup_failover_modes_witness:
  "isCoolingLocked_g (snd (st_ExcludeAndBackupReselect minute 200 0 ''k'' ''spare'' 0 ex_group)) ''spare'' 200"
proof -
  have "backupMembers ex_group \<noteq> []" "0 < minute" by code_simp+
  from group_backup_failover_modes [OF ex_group_ok _ _ this, of 0 200 "''k''" "''spare''" 0
      "fst (st_ExcludeAndBackupReselect minute 200 0 ''k'' ''spare'' 0 ex_group)"
      "snd (st_ExcludeAndBackupReselect minute 200 0 ''k'' ''spare'' 0 ex_group)"]
  show ?thesis by simp
qed

section \<open>Affinity in both pools\<close>

lemma gos_frames_g:
  "snd (gos_pick_g now u k stale st) = st1 \<Longrightarrow> k' \<noteq> k \<or> k = '''' \<Longrightarrow>
     members st1 = members st \<and> cooldowns_g st1 = cooldowns_g st \<and>
     fmlookup (bindings_g st1) k' = fmlookup (bindings_g st) k'"
  "snd (gos_full_g t now u k st) = st2 \<Longrightarrow> k' \<noteq> k \<or> k = '''' \<Longrightarrow>
     members st2 = members st \<and> cooldowns_g st2 = cooldowns_g st \<and>
     fmlookup (bindings_g st2) k' = fmlookup (bindings_g st) k'"
  by (auto simp: gos_full_g_def gos_pick_g_def Let_def split: prod.splits option.splits if_splits)

lemma gos_config_g:
  "members (snd (st_getOrSelect t now u k st)) = members st \<and>
   cooldowns_g (snd (st_getOrSelect t now u k st)) = cooldowns_g st"
  by (auto simp: st_getOrSelect_def getOrSelect_sections_def gos_full_g_def gos_pick_g_def gos_hit_g_def
      map_prod_def Let_def split: prod.splits option.splits if_splits)

lemma default_hit:
  assumes "default_bound st k = Some (m, b)" and "now - b \<le> t" and "default_usable st m now"
  shows "st_getOrSelect t now u k st =
     (outcome m False False, st\<lparr>bindings_g := fmupd k \<lparr>memberID = m, boundAt_g = now\<rparr> (bindings_g st)\<rparr>)"
proof -
  have k: "k \<noteq> ''''" and l: "fmlookup (bindings_g st) k = Some \<lparr>memberID = m, boundAt_g = b\<rparr>"
    using assms(1) by (auto simp: default_bound_def split: if_splits)
  have "gos_read_g t now k st = Some m"
    using k l assms(2,3) by (simp add: gos_read_g_def valid_g_def expired_g_def default_usable_def)
  moreover have "gos_hit_g t now k m st =
      Some (st\<lparr>bindings_g := fmupd k \<lparr>memberID = m, boundAt_g = now\<rparr> (bindings_g st)\<rparr>)"
    using l assms(2,3) by (simp add: gos_hit_g_def expired_g_def default_usable_def)
  ultimately show ?thesis
    using assms(3) by (simp add: st_getOrSelect_def getOrSelect_sections_def default_usable_def Let_def)
qed

lemma default_bound_frame:
  "k' \<noteq> k \<Longrightarrow> default_bound (snd (st_getOrSelect t now u k' st)) k = default_bound st k"
  using gos_frames_g(2) [of t now u k' st _ k]
  by (auto simp: st_getOrSelect_def getOrSelect_sections_def default_bound_def gos_hit_g_def map_prod_def
      Let_def split: prod.splits option.splits if_splits)

interpretation group_sticky: sticky_selector "st_getOrSelect t" default_bound default_usable
  "\<lambda>m. outcome m False False" t for t
proof
  fix st :: groupState and k k' m :: string and b now v :: time and u :: rat
  show "fst (st_getOrSelect t now u k st) = outcome m False False"
    if "default_bound st k = Some (m, b)" "now - b \<le> t" "default_usable st m now"
    using default_hit [OF that] by simp
  show "default_bound (snd (st_getOrSelect t now u k st)) k = Some (m, now)"
    if "default_bound st k = Some (m, b)" "now - b \<le> t" "default_usable st m now"
    using default_hit [OF that] that(1) by (simp add: default_bound_def split: if_splits)
  show "default_bound (snd (st_getOrSelect t now u k' st)) k = default_bound st k" if "k' \<noteq> k"
    using that by (rule default_bound_frame)
  show "default_usable (snd (st_getOrSelect t now u k st)) m v = default_usable st m v"
    using gos_config_g [of t now u k st]
    by (simp add: default_usable_def memberCount_def isCoolingLocked_g_def)
qed

lemma backup_hit:
  assumes "backup_bound st k = Some (m, b)" and "now - b \<le> t" and "backup_usable st m now"
  shows "st_pickBackupMember t now u k st =
     (outcome m False False, backup_touch now k \<lparr>memberID = m, boundAt_g = b\<rparr> st)"
proof -
  have k: "k \<noteq> ''''" and l: "fmlookup (backupBindings st) k = Some \<lparr>memberID = m, boundAt_g = b\<rparr>"
    using assms(1) by (auto simp: backup_bound_def split: if_splits)
  show ?thesis
    using k l assms(2,3)
    by (simp add: st_pickBackupMember_eq pbm_full_def valid_g_def expired_g_def backup_usable_def Let_def)
qed

lemma backup_config:
  "members (snd (st_pickBackupMember t now u k st)) = members st \<and>
   cooldowns_g (snd (st_pickBackupMember t now u k st)) = cooldowns_g st \<and>
   backupMembers (snd (st_pickBackupMember t now u k st)) = backupMembers st \<and>
   backupSelector (snd (st_pickBackupMember t now u k st)) = backupSelector st"
  by (auto simp: st_pickBackupMember_eq pbm_full_def pbm_pick_def backup_bind_def backup_touch_def
      backup_unbind_def Let_def split: prod.splits option.splits if_splits)

lemma backup_bound_frame:
  "k' \<noteq> k \<Longrightarrow> backup_bound (snd (st_pickBackupMember t now u k' st)) k = backup_bound st k"
  by (auto simp: st_pickBackupMember_eq pbm_full_def pbm_pick_def backup_bind_def backup_touch_def
      backup_unbind_def backup_bound_def Let_def split: prod.splits option.splits if_splits)

interpretation backup_sticky: sticky_selector "st_pickBackupMember t" backup_bound backup_usable
  "\<lambda>m. outcome m False False" t for t
proof
  fix st :: groupState and k k' m :: string and b now v :: time and u :: rat
  show "fst (st_pickBackupMember t now u k st) = outcome m False False"
    if "backup_bound st k = Some (m, b)" "now - b \<le> t" "backup_usable st m now"
    using backup_hit [OF that] by simp
  show "backup_bound (snd (st_pickBackupMember t now u k st)) k = Some (m, now)"
    if "backup_bound st k = Some (m, b)" "now - b \<le> t" "backup_usable st m now"
    using backup_hit [OF that] that(1) by (simp add: backup_bound_def backup_touch_def split: if_splits)
  show "backup_bound (snd (st_pickBackupMember t now u k' st)) k = backup_bound st k" if "k' \<noteq> k"
    using that by (rule backup_bound_frame)
  show "backup_usable (snd (st_pickBackupMember t now u k st)) m v = backup_usable st m v"
    using backup_config [of t now u k st]
    by (simp add: backup_usable_def pbm_has_def isCoolingLocked_g_def)
qed

text \<open>
  Affinity in both pools of a group. A conversation bound in a pool that comes back each
  time within the idle limit keeps its member in every call on that pool, whatever calls for
  other conversations are interleaved.
\<close>

theorem group_affinity:
  assumes "default_bound st key = Some (m, b)" and "within_idle t key b cs"
    and "\<forall>(now, u, k) \<in> set cs. k = key \<longrightarrow> default_usable st m now"
    and "backup_bound st key = Some (m2, b2)" and "within_idle t key b2 cs2"
    and "\<forall>(now, u, k) \<in> set cs2. k = key \<longrightarrow> backup_usable st m2 now"
  shows "(\<forall>(k, r) \<in> set (sticky_run (st_getOrSelect t) st cs). k = key \<longrightarrow> r = outcome m False False) \<and>
         (\<forall>(k, r) \<in> set (sticky_run (st_pickBackupMember t) st cs2). k = key \<longrightarrow> r = outcome m2 False False)"
  using group_sticky.affinity [OF assms(1-3)] backup_sticky.affinity [OF assms(4-6)] by (rule conjI)

theorem group_affinity_witness:
  "snd ` {p \<in> set (sticky_run (st_getOrSelect hour) (backup_bind 120 ''k'' ''spare'' ex_group)
        [(150, 0, ''k''), (160, 1/3, ''other''), (180, 1/2, ''k'')]). fst p = ''k''}
     \<subseteq> {outcome ''slow'' False False}"
proof -
  let ?st = "backup_bind 120 ''k'' ''spare'' ex_group"
  have "default_bound ?st ''k'' = Some (''slow'', 100)"
    "within_idle hour ''k'' 100 [(150, 0::rat, ''k''), (160, 1/3, ''other''), (180, 1/2, ''k'')]"
    "\<forall>(now, u, k) \<in> set [(150, 0::rat, ''k''), (160, 1/3, ''other''), (180, 1/2, ''k'')].
       k = ''k'' \<longrightarrow> default_usable ?st ''slow'' now"
    "backup_bound ?st ''k'' = Some (''spare'', 120)"
    "within_idle hour ''k'' 120 [(170, 0::rat, ''k'')]"
    "\<forall>(now, u, k) \<in> set [(170, 0::rat, ''k'')]. k = ''k'' \<longrightarrow> backup_usable ?st ''spare'' now"
    by code_simp+
  from group_affinity [OF this] have
    "\<forall>(k, r) \<in> set (sticky_run (st_getOrSelect hour) ?st
        [(150, 0, ''k''), (160, 1/3, ''other''), (180, 1/2, ''k'')]). k = ''k'' \<longrightarrow> r = outcome ''slow'' False False"
    by (rule conjunct1)
  then show ?thesis by (rule run_answers)
qed

end
