(* ===== verification/PeakHours.thy ===== *)
theory PeakHours
  imports GoStrings
begin

text \<open>
  Peak-hour windows (\<open>pkg/models/peak_hours.go\<close>): the \<open>HH:MM\<close> and UTC-offset formats, the window
  test on minutes of the day, and the local minute that \<open>ResolvePeakHourModel\<close> (modelled with the
  model records in \<open>ModelsConfig\<close>) compares with it. A UTC offset is a number of hours with at
  most two decimals; the model keeps it in hundredths of an hour. The \<open>float64\<close> of the program
  is the nearest number to it, which cannot change a comparison with \<open>-12\<close> or \<open>14\<close>, and
  \<open>offset * 60\<close> is at least a tenth away from every half, so \<open>math.Round\<close> gives the exact result.
  The branches of the source for an error of \<open>ParseFloat\<close> or \<open>Atoi\<close> cannot be taken once the
  regular expression has matched.
\<close>

section \<open>Definitions\<close>

datatype peak_error = ErrTimeEmpty | ErrTimeFormat | ErrHourRange | ErrMinuteRange
  | ErrOffsetFormat | ErrOffsetRange

definition timeFormatRegex :: "string \<Rightarrow> bool" where
  "timeFormatRegex s \<longleftrightarrow> length s = 5 \<and> list_all isDigit (take 2 s) \<and> s ! 2 = CHR '':''
     \<and> list_all isDigit (drop 3 s)"

definition digits12 :: "string \<Rightarrow> bool" where
  "digits12 ds \<longleftrightarrow> (length ds = 1 \<or> length ds = 2) \<and> list_all isDigit ds"

definition utcOffsetRegex :: "string \<Rightarrow> bool" where
  "utcOffsetRegex s = (case s of [] \<Rightarrow> False
     | c # r \<Rightarrow> (c = CHR ''+'' \<or> c = CHR ''-'') \<and> digits12 (takeWhile isDigit r)
         \<and> (case dropWhile isDigit r of [] \<Rightarrow> True | d # f \<Rightarrow> d = CHR ''.'' \<and> digits12 f))"

definition offset_hundredths :: "string \<Rightarrow> int" where
  "offset_hundredths s =
     (let r = tl s;
          whole = digits_val (takeWhile isDigit r);
          f = tl (dropWhile isDigit r);
          cents = (if length f = 1 then 10 * digits_val f else digits_val f);
          v = 100 * whole + cents
      in if hd s = CHR ''-'' then - v else v)"

definition parseUTCOffset :: "string \<Rightarrow> peak_error + int" where
  "parseUTCOffset offset =
     (if offset = [] then Inr 0
      else let s = TrimSpace offset in
        if \<not> utcOffsetRegex s then Inl ErrOffsetFormat
        else let v = offset_hundredths s in
          if v < -1200 \<or> v > 1400 then Inl ErrOffsetRange else Inr v)"

definition ValidateTimeFormat :: "string \<Rightarrow> peak_error option" where
  "ValidateTimeFormat s =
     (if s = [] then None
      else if \<not> timeFormatRegex s then Some ErrTimeFormat
      else let h = digits_val (take 2 s); m = digits_val (drop 3 s) in
        if h < 0 \<or> h > 23 then Some ErrHourRange
        else if m < 0 \<or> m > 59 then Some ErrMinuteRange else None)"

definition parseTime :: "string \<Rightarrow> peak_error + int \<times> int" where
  "parseTime s =
     (if s = [] then Inl ErrTimeEmpty
      else case ValidateTimeFormat s of Some e \<Rightarrow> Inl e
        | None \<Rightarrow> Inr (digits_val (take 2 s), digits_val (drop 3 s)))"

definition ValidateUTCOffset :: "string \<Rightarrow> peak_error option" where
  "ValidateUTCOffset s0 =
     (if s0 = [] then None
      else let s = TrimSpace s0 in
        if \<not> utcOffsetRegex s then Some ErrOffsetFormat
        else let v = offset_hundredths s in
          if v < -1200 \<or> v > 1400 then Some ErrOffsetRange else None)"

definition isWithinWindow :: "int \<Rightarrow> int \<Rightarrow> int \<Rightarrow> bool" where
  "isWithinWindow current start end =
     (if start \<le> end then current \<ge> start \<and> current < end
      else current \<ge> start \<or> current < end)"

definition timeToMinutes :: "int \<Rightarrow> int \<Rightarrow> int" where
  "timeToMinutes h m = h * 60 + m"

text \<open>\<open>math.Round(utcOffset * 60)\<close>, the hour and minute of a UTC instant, and Go's \<open>%\<close>.\<close>

definition offset_minutes :: "int \<Rightarrow> int" where
  "offset_minutes v = (if v < 0 then - ((6 * (- v) + 5) div 10) else (6 * v + 5) div 10)"

definition utc_hour :: "time \<Rightarrow> int" where
  "utc_hour now = now div hour mod 24"

definition utc_minute :: "time \<Rightarrow> int" where
  "utc_minute now = now div minute mod 60"

definition go_rem :: "int \<Rightarrow> int \<Rightarrow> int" where
  "go_rem a b = (if a < 0 then - ((- a) mod b) else a mod b)"

definition current_minutes :: "time \<Rightarrow> int \<Rightarrow> int" where
  "current_minutes now offsetMinutes =
     (let c = go_rem (utc_hour now * 60 + utc_minute now + offsetMinutes) (24 * 60)
      in if c < 0 then c + 24 * 60 else c)"

section \<open>What they mean\<close>

text \<open>The minute of the local day, counted from the epoch: the reference for the computation.\<close>

definition local_minute :: "time \<Rightarrow> int \<Rightarrow> int" where
  "local_minute now offsetMinutes = (now div minute + offsetMinutes) mod 1440"

lemma utc_minutes_mod: "utc_hour now * 60 + utc_minute now = now div minute mod 1440"
proof -
  define q where "q = now div minute"
  have h: "now div hour = q div 60"
    unfolding q_def using zdiv_zmult2_eq [of 60 now minute] by (simp add: mult.commute)
  have "q mod (60 * 24) = 60 * (q div 60 mod 24) + q mod 60"
    by (rule zmod_zmult2_eq) simp
  then show ?thesis unfolding utc_hour_def utc_minute_def h q_def [symmetric] by simp
qed

lemma go_rem_mod:
  assumes "0 < b"
  shows "(if go_rem a b < 0 then go_rem a b + b else go_rem a b) = a mod b"
proof (cases "a < 0")
  case False
  then show ?thesis using pos_mod_sign [OF assms, of a] by (auto simp: go_rem_def)
next
  case True
  have le: "0 \<le> (- a) mod b" using assms by simp
  show ?thesis
  proof (cases "(- a) mod b = 0")
    case True
    then have "a mod b = 0" by (metis dvd_imp_mod_0 dvd_minus_iff mod_0_imp_dvd)
    then show ?thesis using True \<open>a < 0\<close> by (simp add: go_rem_def)
  next
    case nz: False
    then have "a mod b = b - (- a) mod b"
      using zmod_zminus1_eq_if [of "- a" b] by simp
    then show ?thesis using nz le \<open>a < 0\<close> by (simp add: go_rem_def)
  qed
qed

lemma current_minutes_local: "current_minutes now off = local_minute now off"
proof -
  have "current_minutes now off = (now div minute mod 1440 + off) mod (24 * 60)"
    unfolding current_minutes_def utc_minutes_mod Let_def by (rule go_rem_mod) simp
  also have "24 * 60 = (1440 :: int)" by simp
  also have "(now div minute mod 1440 + off) mod 1440 = local_minute now off"
    unfolding local_minute_def by (rule mod_add_left_eq)
  finally show ?thesis .
qed

lemma local_minute_range: "0 \<le> local_minute now off" "local_minute now off < 1440"
  by (simp_all add: local_minute_def)

text \<open>The two cases of the window test are one: the time since the start is shorter than the window.\<close>

lemma isWithinWindow_iff:
  assumes "0 \<le> c" "c < 1440" "0 \<le> s" "s < 1440" "0 \<le> e" "e < 1440"
  shows "isWithinWindow c s e \<longleftrightarrow> (c - s) mod 1440 < (e - s) mod 1440"
proof -
  have wrap: "x mod 1440 = (if x < 0 then x + 1440 else x)" if "- 1440 < x" "x < 1440" for x :: int
    using that mod_pos_pos_trivial [of x 1440] mod_pos_pos_trivial [of "x + 1440" 1440]
      mod_add_self2 [of x 1440] by (auto split: if_splits)
  show ?thesis
    using assms by (auto simp: isWithinWindow_def wrap)
qed

lemma digits_val_nonneg: "list_all isDigit ds \<Longrightarrow> 0 \<le> digits_val ds"
proof -
  have "0 \<le> foldl (\<lambda>v d. 10 * v + digit_val d) v ds" if "list_all isDigit ds" "0 \<le> v" for v
    using that by (induction ds arbitrary: v) (auto simp: digit_val_def isDigit_def Let_def)
  then show "list_all isDigit ds \<Longrightarrow> 0 \<le> digits_val ds" by (simp add: digits_val_def)
qed

lemma parseTime_valid:
  assumes "ValidateTimeFormat s = None" and "s \<noteq> []"
  obtains h m where "parseTime s = Inr (h, m)" "0 \<le> timeToMinutes h m" "timeToMinutes h m < 1440"
proof -
  have "0 \<le> digits_val (take 2 s)" "digits_val (take 2 s) \<le> 23"
    "0 \<le> digits_val (drop 3 s)" "digits_val (drop 3 s) \<le> 59"
    using assms by (auto simp: ValidateTimeFormat_def Let_def split: if_splits)
  then show thesis
    using assms that by (simp add: parseTime_def timeToMinutes_def)
qed

lemma parseUTCOffset_valid:
  assumes "ValidateUTCOffset s = None"
  obtains v where "parseUTCOffset s = Inr v" "- 1200 \<le> v" "v \<le> 1400"
proof (cases "s = []")
  case True
  then show thesis using that [of 0] by (simp add: parseUTCOffset_def)
next
  case False
  then have *: "utcOffsetRegex (TrimSpace s)"
    "- 1200 \<le> offset_hundredths (TrimSpace s)" "offset_hundredths (TrimSpace s) \<le> 1400"
    using assms by (simp_all add: ValidateUTCOffset_def Let_def split: if_splits)
  show thesis
    by (rule that [of "offset_hundredths (TrimSpace s)"]) (use False * in \<open>simp_all add: parseUTCOffset_def Let_def\<close>)
qed

lemma ValidateUTCOffset_parse: "ValidateUTCOffset s = None \<longleftrightarrow> (\<exists>v. parseUTCOffset s = Inr v)"
  by (simp add: ValidateUTCOffset_def parseUTCOffset_def Let_def)

lemma offset_minutes_nearest: "\<bar>10 * offset_minutes v - 6 * v\<bar> < 5"
proof -
  have near: "\<bar>10 * ((6 * x + 5) div 10) - 6 * x\<bar> < 5" for x :: int
    by presburger
  show ?thesis
  proof (cases "v < 0")
    case True
    then show ?thesis using near [of "- v"] by (simp add: offset_minutes_def)
  next
    case False
    then show ?thesis using near [of v] by (simp add: offset_minutes_def)
  qed
qed

end
