(* ===== verification/Credentials.thy ===== *)
theory Credentials
  imports PeakHours
begin

text \<open>
  Reusable upstream credentials (\<open>pkg/models/credential.go\<close>) and the errors of the
  configuration layer. \<open>expandEnvVars\<close> substitutes environment variables into an API key; its
  loop for the \<open>${VAR:-default}\<close> form need not end, so it is a partial function and the verdict
  of a validation is \<open>Valid\<close>, \<open>Invalid\<close> with the error, or \<open>Hangs\<close>. What a call takes from its
  surroundings is one record \<open>world\<close>: the environment variables, AES-GCM encryption and
  decryption (\<open>None\<close> for an error), and the order in which this call iterates over a Go map.
  The stored API keys are the encrypted ones, as in the program.
\<close>

section \<open>Data\<close>

record CredentialConfig =
  ID_c :: string
  Provider :: string
  APIKey :: string
  BaseURL :: string

type_synonym CredentialsConfig = "(string, CredentialConfig) fmap"

record world =
  getenv :: "string \<Rightarrow> string"
  Encrypt :: "string \<Rightarrow> string option"
  Decrypt :: "string \<Rightarrow> string option"
  map_order :: "CredentialsConfig \<Rightarrow> string list"

text \<open>Go visits every key of a map once, in an order of its own.\<close>

definition enumerates :: "world \<Rightarrow> CredentialsConfig \<Rightarrow> bool" where
  "enumerates w cc \<longleftrightarrow> distinct (map_order w cc) \<and> set (map_order w cc) = fset (fmdom cc)"

datatype model_error =
    UnknownKind string | KindRequiresInternal | KindRequiresInternalModel | KindRequiresCredential
  | KindProvider string | KindNoFallback | KindNoSecondary | KindNoPeakHour | KindNoDeadline
  | KindRequiresExclude | ShadowIsSelf
  | NoMembers | TooManyMembers nat | NoDefaultMember nat | MemberEmpty nat | MemberWeight nat
  | MemberDuplicate string | MemberMissing string | MemberIsGroup string | MemberKind string string
  | ShadowMissing string | ShadowIsGroup string | ShadowKind string string | ShadowClaimed string string
  | CredentialRequired | RefEmpty nat | RefMissing string | RefWeight nat | RefDuplicate string
  | TooManyRefs | ProviderMismatch nat | InternalModelRequired | SecondaryRequiresInternal
  | PeakRequiresInternal | PeakStartRequired | PeakEndRequired | PeakTimezoneRequired
  | PeakModelRequired | PeakStartInvalid peak_error | PeakEndInvalid peak_error
  | PeakTimezoneInvalid peak_error | PeakSameTimes

datatype config_error =
    ErrInvalidModelID | ErrInvalidModelName | ErrDuplicateModelID | ErrModelNotFound
  | ErrCannotChangeModelID | ErrInvalidCredentialID | ErrDuplicateCredentialID
  | ErrCredentialNotFound | ErrCredentialInUse string | ErrCannotChangeCredentialID
  | ProviderRequired string | APIKeyRequired string | InvalidProvider string | EncryptFailed
  | FallbackChainTooLong | ModelError string model_error | MemberOfGroup string string

datatype verdict = Valid | Invalid config_error | Hangs

abbreviation reject :: "config_error option \<Rightarrow> verdict" where
  "reject e \<equiv> (case e of None \<Rightarrow> Valid | Some x \<Rightarrow> Invalid x)"

definition validProviders :: "string list" where
  "validProviders = [''openai'', ''anthropic'', ''gemini'', ''zhipu'', ''azure'', ''zai'', ''minimax'',
     ''grok'', ''deepseek'', ''opencode'', ''opencode-go'', ''lightllm'', ''openrouter'', ''typesafe'']"

definition isValidProvider :: "string \<Rightarrow> bool" where
  "isValidProvider p \<longleftrightarrow> p \<in> set validProviders"

section \<open>Environment variables in API keys\<close>

text \<open>Go's \<open>os.Expand\<close>, used for keys without a default.\<close>

definition isShellSpecialVar :: "char \<Rightarrow> bool" where
  "isShellSpecialVar c \<longleftrightarrow> isDigit c \<or> c \<in> set ''*#$@!?-''"

definition isAlphaNum :: "char \<Rightarrow> bool" where
  "isAlphaNum c \<longleftrightarrow> c = CHR ''_'' \<or> isDigit c
     \<or> (let n = of_char (lower_char c) :: nat in 97 \<le> n \<and> n \<le> 122)"

definition getShellName :: "string \<Rightarrow> string \<times> nat" where
  "getShellName s =
     (if hd s = CHR ''{'' then
        (if length s > 2 \<and> isShellSpecialVar (s ! 1) \<and> s ! 2 = CHR ''}'' then ([s ! 1], 3)
         else case Index (tl s) ''}'' of
             None \<Rightarrow> ([], 1)
           | Some 0 \<Rightarrow> ([], 2)
           | Some k \<Rightarrow> (take k (tl s), k + 2))
      else if isShellSpecialVar (hd s) then ([hd s], 1)
      else (takeWhile isAlphaNum s, length (takeWhile isAlphaNum s)))"

function os_Expand :: "(string \<Rightarrow> string) \<Rightarrow> string \<Rightarrow> string" where
  "os_Expand f [] = []"
| "os_Expand f (c # cs) =
     (if c = CHR ''$'' \<and> cs \<noteq> [] then
        (let (name, n) = getShellName cs;
             out = (if name = [] \<and> n > 0 then [] else if name = [] then [c] else f name)
         in out @ os_Expand f (drop n cs))
      else c # os_Expand f cs)"
  by pat_completeness auto
termination by (relation "measure (\<lambda>(f, s). length s)") auto

definition env_value :: "(string \<Rightarrow> string) \<Rightarrow> string \<Rightarrow> string" where
  "env_value env content =
     (case Index content '':-'' of
        Some sepIdx \<Rightarrow>
          (if env (take sepIdx content) = [] then drop (sepIdx + 2) content
           else env (take sepIdx content))
      | None \<Rightarrow> env content)"

partial_function (option) expand_loop :: "(string \<Rightarrow> string) \<Rightarrow> string \<Rightarrow> string option" where
  "expand_loop env s =
     (case Index s ''${'' of
        None \<Rightarrow> Some s
      | Some start \<Rightarrow>
        (case Index (drop start s) ''}'' of
           None \<Rightarrow> Some s
         | Some e \<Rightarrow>
           (let fin = e + start; content = take (fin - (start + 2)) (drop (start + 2) s)
            in expand_loop env (take start s @ env_value env content @ drop (fin + 1) s))))"

definition expandEnvVars :: "(string \<Rightarrow> string) \<Rightarrow> string \<Rightarrow> string option" where
  "expandEnvVars env s =
     (if s = [] then Some s
      else if Contains s '':-'' then expand_loop env s
      else Some (os_Expand env s))"

section \<open>One credential\<close>

definition ResolveAPIKey :: "world \<Rightarrow> CredentialConfig \<Rightarrow> string option" where
  "ResolveAPIKey w c = expandEnvVars (getenv w) (APIKey c)"

definition Validate_c :: "world \<Rightarrow> CredentialConfig \<Rightarrow> verdict" where
  "Validate_c w c =
     (if ID_c c = [] then Invalid ErrInvalidCredentialID
      else if Provider c = [] then Invalid (ProviderRequired (ID_c c))
      else case ResolveAPIKey w c of
        None \<Rightarrow> Hangs
      | Some key \<Rightarrow>
          if key = [] then Invalid (APIKeyRequired (ID_c c))
          else if \<not> isValidProvider (Provider c) then Invalid (InvalidProvider (Provider c))
          else Valid)"

section \<open>The collection of credentials\<close>

definition NewCredentialsConfig :: CredentialsConfig where
  "NewCredentialsConfig = fmempty"

definition decrypted :: "world \<Rightarrow> CredentialConfig \<Rightarrow> CredentialConfig" where
  "decrypted w c =
     (if APIKey c = [] then c
      else case Decrypt w (APIKey c) of None \<Rightarrow> c | Some k \<Rightarrow> c\<lparr>APIKey := k\<rparr>)"

definition GetCredential_c :: "world \<Rightarrow> CredentialsConfig \<Rightarrow> string \<Rightarrow> CredentialConfig option" where
  "GetCredential_c w cc i = map_option (decrypted w) (fmlookup cc i)"

definition GetCredentials_c :: "world \<Rightarrow> CredentialsConfig \<Rightarrow> CredentialConfig list" where
  "GetCredentials_c w cc = map (\<lambda>i. decrypted w (the (fmlookup cc i))) (map_order w cc)"

definition encrypted :: "world \<Rightarrow> CredentialConfig \<Rightarrow> CredentialConfig option" where
  "encrypted w c =
     (if APIKey c = [] then Some c
      else map_option (\<lambda>k. c\<lparr>APIKey := k\<rparr>) (Encrypt w (APIKey c)))"

definition AddCredential_c ::
  "world \<Rightarrow> CredentialsConfig \<Rightarrow> CredentialConfig \<Rightarrow> verdict \<times> CredentialsConfig" where
  "AddCredential_c w cc cred =
     (case Validate_c w cred of
        Valid \<Rightarrow>
          (case encrypted w cred of
             None \<Rightarrow> (Invalid EncryptFailed, cc)
           | Some c \<Rightarrow>
               if fmlookup cc (ID_c c) \<noteq> None then (Invalid ErrDuplicateCredentialID, cc)
               else (Valid, fmupd (ID_c c) c cc))
      | v \<Rightarrow> (v, cc))"

definition UpdateCredential_c ::
  "world \<Rightarrow> CredentialsConfig \<Rightarrow> string \<Rightarrow> CredentialConfig \<Rightarrow> verdict \<times> CredentialsConfig" where
  "UpdateCredential_c w cc i cred =
     (case Validate_c w cred of
        Valid \<Rightarrow>
          (case encrypted w cred of
             None \<Rightarrow> (Invalid EncryptFailed, cc)
           | Some c \<Rightarrow>
               if fmlookup cc i = None then (Invalid ErrCredentialNotFound, cc)
               else if ID_c c \<noteq> i then (Invalid ErrCannotChangeCredentialID, cc)
               else (Valid, fmupd i c cc))
      | v \<Rightarrow> (v, cc))"

definition RemoveCredential_c :: "CredentialsConfig \<Rightarrow> string \<Rightarrow> verdict \<times> CredentialsConfig" where
  "RemoveCredential_c cc i =
     (if fmlookup cc i = None then (Invalid ErrCredentialNotFound, cc) else (Valid, fmdrop i cc))"

definition SetCredentials :: "CredentialConfig list \<Rightarrow> CredentialsConfig" where
  "SetCredentials creds = foldl (\<lambda>cc c. fmupd (ID_c c) c cc) fmempty creds"

definition ToSlice :: "world \<Rightarrow> CredentialsConfig \<Rightarrow> CredentialConfig list" where
  "ToSlice w cc = map (\<lambda>i. the (fmlookup cc i)) (map_order w cc)"

section \<open>Lemmas\<close>

lemma decrypted_simps [simp]:
  "ID_c (decrypted w c) = ID_c c" "Provider (decrypted w c) = Provider c"
  "BaseURL (decrypted w c) = BaseURL c"
  by (simp_all add: decrypted_def split: option.splits)

lemma decrypted_encrypted:
  assumes "encrypted w c = Some c'" and "\<forall>k k'. Encrypt w k = Some k' \<longrightarrow> k' \<noteq> [] \<and> Decrypt w k' = Some k"
  shows "decrypted w c' = c"
  using assms by (auto simp: encrypted_def decrypted_def split: if_splits option.splits)

lemma encrypted_simps:
  "encrypted w c = Some c' \<Longrightarrow> ID_c c' = ID_c c \<and> Provider c' = Provider c \<and> BaseURL c' = BaseURL c"
  by (auto simp: encrypted_def split: if_splits)

lemma GetCredentials_set:
  assumes "enumerates w cc"
  shows "x \<in> set (GetCredentials_c w cc) \<longleftrightarrow> (\<exists>i c. fmlookup cc i = Some c \<and> x = decrypted w c)"
proof -
  have "x \<in> set (GetCredentials_c w cc)
    \<longleftrightarrow> (\<exists>i. i |\<in>| fmdom cc \<and> x = decrypted w (the (fmlookup cc i)))"
    using assms by (auto simp: GetCredentials_c_def enumerates_def)
  then show ?thesis by (metis fmlookup_dom_iff option.sel)
qed

subsection \<open>The substitution loop\<close>

abbreviation dollars :: "string \<Rightarrow> nat" where
  "dollars s \<equiv> count_list s (CHR ''$'')"

lemma dollars_append: "dollars (s @ t) = dollars s + dollars t"
  by (induction s) auto

lemma dollars_take_drop_le: "dollars (take n s) \<le> dollars s" "dollars (drop n s) \<le> dollars s"
  using dollars_append [of "take n s" "drop n s"] by simp_all

text \<open>One round of the loop cuts out a segment that starts with a dollar sign.\<close>

lemma expand_round:
  assumes st: "Index s ''${'' = Some st" and e: "Index (drop st s) ''}'' = Some e"
  defines "content \<equiv> take (e + st - (st + 2)) (drop (st + 2) s)"
  shows "s = take st s @ ''${'' @ content @ ''}'' @ drop (e + st + 1) s"
proof -
  define r where "r = drop (st + 2) s"
  have s: "s = take st s @ ''${'' @ r"
    using Index_Some [OF st] by (simp add: r_def)
  have d: "drop st s = CHR ''$'' # CHR ''{'' # r"
    using s Index_Some [OF st] by (metis append_Cons append_Nil append_take_drop_id same_append_eq)
  have "drop st s = take e (drop st s) @ ''}'' @ drop (e + 1) (drop st s)" "e + 1 \<le> length (drop st s)"
    using Index_Some [OF e] by simp_all
  moreover have "2 \<le> e"
  proof (rule ccontr)
    assume "\<not> 2 \<le> e"
    then have "e = 0 \<or> e = 1" by auto
    then show False using calculation(1) by (auto simp: d)
  qed
  moreover obtain k where "e = k + 2" using \<open>2 \<le> e\<close> by (metis le_add_diff_inverse2)
  ultimately have "r = take k r @ ''}'' @ drop (Suc k) r"
    by (simp add: d)
  moreover have "drop (Suc k) r = drop (e + st + 1) s"
    by (simp add: r_def \<open>e = k + 2\<close> add_ac)
  moreover have "content = take k r"
    by (simp add: content_def r_def \<open>e = k + 2\<close>)
  ultimately show ?thesis using s by (metis append.assoc)
qed

lemma expand_loop_returns:
  assumes env: "\<And>v. dollars (env v) = 0"
  shows "\<exists>r. expand_loop env s = Some r"
proof (induction "dollars s" arbitrary: s rule: less_induct)
  case less
  show ?case
  proof (cases "Index s ''${''")
    case None
    then show ?thesis by (simp add: expand_loop.simps)
  next
    case (Some st)
    show ?thesis
    proof (cases "Index (drop st s) ''}''")
      case None
      then show ?thesis using Some by (simp add: expand_loop.simps)
    next
      case e: (Some e)
      define content where "content = take (e + st - (st + 2)) (drop (st + 2) s)"
      have content: "take (e - 2) (drop (Suc (Suc st)) s) = content" by (simp add: content_def)
      define v where "v = env_value env content"
      have "dollars v \<le> dollars content"
        using env dollars_take_drop_le(2) by (simp add: v_def env_value_def split: option.split)
      moreover have "s = take st s @ ''${'' @ content @ ''}'' @ drop (e + st + 1) s"
        using expand_round [OF Some e] by (simp add: content_def)
      from arg_cong [OF this, of dollars]
      have "dollars s = dollars (take st s) + 1 + dollars content + dollars (drop (e + st + 1) s)"
        by (simp add: dollars_append)
      ultimately have "dollars (take st s @ v @ drop (e + st + 1) s) < dollars s"
        by (simp add: dollars_append)
      from less.hyps [OF this] show ?thesis
        using Some e by (subst expand_loop.simps) (simp add: Let_def v_def content)
    qed
  qed
qed

text \<open>A key that one round reproduces is never expanded.\<close>

lemma expand_loop_stuck:
  assumes "Index s ''${'' = Some 0" and "Index s ''}'' = Some e" and "drop (Suc e) s = []"
    and "env_value env (take (e - Suc (Suc 0)) (drop (Suc (Suc 0)) s)) = s"
  shows "expand_loop env s = None"
proof -
  have "g = env \<and> x = s \<longrightarrow> False" if "expand_loop g x = Some y" for g x y
  proof (induction g x y rule: expand_loop.raw_induct)
    case (1 f g x y)
    then show ?case using assms 1(1) [of env s y] by (auto simp: Let_def)
  qed (rule that)
  then show ?thesis by (cases "expand_loop env s") auto
qed

lemma expand_self_reference:
  "expandEnvVars (\<lambda>v. if v = ''KEY'' then ''${KEY:-none}'' else []) ''${KEY:-none}'' = None"
  by (simp add: expandEnvVars_def) (rule expand_loop_stuck [where e = 11]; simp add: env_value_def)

text \<open>C28.
  Expansion of an API key returns when no environment variable contains a dollar sign. Without
  that it need not: a variable that holds the text of the key makes validation of the credential
  loop for ever.\<close>

theorem key_expansion_termination:
  "((\<forall>v. CHR ''$'' \<notin> set (env v)) \<longrightarrow> (\<exists>r. expandEnvVars env s = Some r))
    \<and> (getenv w = (\<lambda>v. if v = ''KEY'' then ''${KEY:-none}'' else []) \<longrightarrow>
        Validate_c w \<lparr>ID_c = ''c'', Provider = ''openai'', APIKey = ''${KEY:-none}'', BaseURL = []\<rparr> = Hangs)"
proof (intro conjI impI)
  assume "\<forall>v. CHR ''$'' \<notin> set (env v)"
  then have "dollars (env v) = 0" for v by (simp add: count_list_0_iff)
  then show "\<exists>r. expandEnvVars env s = Some r"
    using expand_loop_returns [of env s] by (simp add: expandEnvVars_def)
next
  assume "getenv w = (\<lambda>v. if v = ''KEY'' then ''${KEY:-none}'' else [])"
  then show "Validate_c w \<lparr>ID_c = ''c'', Provider = ''openai'', APIKey = ''${KEY:-none}'', BaseURL = []\<rparr> = Hangs"
    by (simp only: Validate_c_def ResolveAPIKey_def CredentialConfig.simps expand_self_reference
        option.case list.distinct if_False)
qed

theorem key_expansion_termination_witness:
  "(\<exists>r. expandEnvVars (\<lambda>_. ''v'') ''${A:-b}'' = Some r)
    \<and> Validate_c \<lparr>getenv = (\<lambda>v. if v = ''KEY'' then ''${KEY:-none}'' else []), Encrypt = Some,
        Decrypt = Some, map_order = (\<lambda>_. [])\<rparr>
      \<lparr>ID_c = ''c'', Provider = ''openai'', APIKey = ''${KEY:-none}'', BaseURL = []\<rparr> = Hangs"
proof (intro conjI)
  show "\<exists>r. expandEnvVars (\<lambda>_. ''v'') ''${A:-b}'' = Some r"
    using key_expansion_termination [of "\<lambda>_. ''v''" "''${A:-b}''"] by simp
  show "Validate_c \<lparr>getenv = (\<lambda>v. if v = ''KEY'' then ''${KEY:-none}'' else []), Encrypt = Some,
        Decrypt = Some, map_order = (\<lambda>_. [])\<rparr>
      \<lparr>ID_c = ''c'', Provider = ''openai'', APIKey = ''${KEY:-none}'', BaseURL = []\<rparr> = Hangs"
    by (rule key_expansion_termination [THEN conjunct2, THEN mp]) (simp only: world.simps)
qed

end
