(* ===== verification/ModelsConfig.thy ===== *)
theory ModelsConfig
  imports CredentialLB Credentials
begin

text \<open>
  The configuration of models (\<open>pkg/models/config.go\<close>, \<open>group.go\<close>, and \<open>ResolvePeakHourModel\<close> of
  \<open>peak_hours.go\<close>): rows of the four kinds, the validation rules of each kind, the collection with
  its shadow-claim index, and its operations. Every error return of the source is a constructor
  of \<open>config_error\<close>; the texts of the messages are not modelled. Member weights are \<open>float64\<close> in
  the program and rationals here (only their sign is tested). An operation returns its verdict
  and the new collection; the mutex makes each of them one atomic step. \<open>Load\<close> and \<open>Save\<close> take the
  outcome of the file operations as an argument. The context variants \<open>LoadWithContext\<close> and
  \<open>SaveWithContext\<close> are not modelled.
\<close>

section \<open>Data\<close>

record GroupMember =
  ModelID_m :: string
  Weight_m :: rat
  BackupOnly_m :: bool

record ModelConfig =
  ID :: string
  Name :: string
  Enabled :: bool
  FallbackChain :: "string list"
  TruncateParams :: "string list"
  Internal :: bool
  InternalBaseURL :: string
  InternalModel :: string
  Credentials :: "CredentialRef list"
  ReleaseStreamChunkDeadline :: duration
  PeakHourEnabled :: bool
  PeakHourStart :: string
  PeakHourEnd :: string
  PeakHourTimezone :: string
  PeakHourModel :: string
  SecondaryUpstreamModel :: string
  ExcludeFromUltimateSwitching :: bool
  Kind :: string
  Members :: "GroupMember list"
  ShadowModelID :: string

record ModelsConfig =
  Models :: "ModelConfig list"
  Credentials_mc :: "CredentialsConfig option"
  filePath :: string
  claims :: "(string, string) fmap"

record ResolvedCredential =
  Provider_r :: string
  APIKey_r :: string
  BaseURL_r :: string
  InternalModel_r :: string
  CredentialID_r :: string
  NewlyBound :: bool

abbreviation KindChat :: string where "KindChat \<equiv> ''chat''"
abbreviation KindImageGen :: string where "KindImageGen \<equiv> ''image-gen''"
abbreviation KindDecision :: string where "KindDecision \<equiv> ''decision''"
abbreviation KindGroup :: string where "KindGroup \<equiv> ''group''"

definition MaxCredentialRefs :: nat where "MaxCredentialRefs = 16"
definition MaxGroupMembers :: nat where "MaxGroupMembers = 16"

definition IsImageGen :: "ModelConfig \<Rightarrow> bool" where "IsImageGen m \<longleftrightarrow> Kind m = KindImageGen"
definition IsDecision :: "ModelConfig \<Rightarrow> bool" where "IsDecision m \<longleftrightarrow> Kind m = KindDecision"
definition IsGroup :: "ModelConfig \<Rightarrow> bool" where "IsGroup m \<longleftrightarrow> Kind m = KindGroup"

definition PrimaryCredentialID :: "ModelConfig \<Rightarrow> string" where
  "PrimaryCredentialID m = (case Credentials m of [] \<Rightarrow> [] | r # _ \<Rightarrow> CredentialID r)"

definition GetInternalConfig :: "ModelConfig \<Rightarrow> (string \<times> string \<times> string) option" where
  "GetInternalConfig m =
     (if \<not> Internal m then None
      else Some (PrimaryCredentialID m, InternalBaseURL m, InternalModel m))"

definition GetReleaseStreamChunkDeadline :: "ModelConfig \<Rightarrow> duration" where
  "GetReleaseStreamChunkDeadline m =
     (if ReleaseStreamChunkDeadline m = 0 then 0 else ReleaseStreamChunkDeadline m)"

section \<open>Kind rules\<close>

definition validateImageGenRules :: "ModelConfig \<Rightarrow> string \<Rightarrow> model_error option" where
  "validateImageGenRules m internalProvider =
     (if \<not> Internal m then Some KindRequiresInternal
      else if InternalModel m = [] then Some KindRequiresInternalModel
      else if length (Credentials m) = 0 then Some KindRequiresCredential
      else if internalProvider \<noteq> [] \<and> internalProvider \<noteq> ''minimax'' then Some (KindProvider internalProvider)
      else if length (FallbackChain m) \<noteq> 0 then Some KindNoFallback
      else if SecondaryUpstreamModel m \<noteq> [] then Some KindNoSecondary
      else if PeakHourEnabled m then Some KindNoPeakHour
      else if ReleaseStreamChunkDeadline m \<noteq> 0 then Some KindNoDeadline
      else None)"

definition validateDecisionRules :: "ModelConfig \<Rightarrow> string \<Rightarrow> model_error option" where
  "validateDecisionRules m internalProvider =
     (if \<not> Internal m then Some KindRequiresInternal
      else if InternalModel m = [] then Some KindRequiresInternalModel
      else if length (Credentials m) = 0 then Some KindRequiresCredential
      else if internalProvider \<noteq> [] \<and> \<not> (internalProvider = ''openai'' \<or> internalProvider = ''typesafe'')
        then Some (KindProvider internalProvider)
      else if length (FallbackChain m) \<noteq> 0 then Some KindNoFallback
      else if SecondaryUpstreamModel m \<noteq> [] then Some KindNoSecondary
      else if PeakHourEnabled m then Some KindNoPeakHour
      else if ReleaseStreamChunkDeadline m \<noteq> 0 then Some KindNoDeadline
      else if \<not> ExcludeFromUltimateSwitching m then Some KindRequiresExclude
      else None)"

definition validateGroupRules :: "ModelConfig \<Rightarrow> model_error option" where
  "validateGroupRules m =
     (if \<not> Internal m then Some KindRequiresInternal
      else if length (FallbackChain m) \<noteq> 0 then Some KindNoFallback
      else if SecondaryUpstreamModel m \<noteq> [] then Some KindNoSecondary
      else if PeakHourEnabled m then Some KindNoPeakHour
      else if ReleaseStreamChunkDeadline m \<noteq> 0 then Some KindNoDeadline
      else if \<not> ExcludeFromUltimateSwitching m then Some KindRequiresExclude
      else if ShadowModelID m = ID m \<and> ShadowModelID m \<noteq> [] then Some ShadowIsSelf
      else None)"

definition ValidateKindRules :: "ModelConfig \<Rightarrow> string \<Rightarrow> model_error option" where
  "ValidateKindRules m internalProvider =
     (if Kind m = [] \<or> Kind m = KindChat then None
      else if Kind m = KindImageGen then validateImageGenRules m internalProvider
      else if Kind m = KindDecision then validateDecisionRules m internalProvider
      else if Kind m = KindGroup then validateGroupRules m
      else Some (UnknownKind (Kind m)))"

section \<open>Group members\<close>

text \<open>The collection lookup: a later row with the same identifier wins.\<close>

definition byID :: "ModelConfig list \<Rightarrow> string \<Rightarrow> ModelConfig option" where
  "byID collection = map_of (rev (map (\<lambda>row. (ID row, row)) collection))"

fun member_loop ::
  "(string \<Rightarrow> ModelConfig option) \<Rightarrow> string list \<Rightarrow> nat \<Rightarrow> GroupMember list \<Rightarrow> model_error option" where
  "member_loop rows seen idx [] = None"
| "member_loop rows seen idx (mm # mms) =
     (if ModelID_m mm = [] then Some (MemberEmpty idx)
      else if Weight_m mm \<le> 0 then Some (MemberWeight idx)
      else if ModelID_m mm \<in> set seen then Some (MemberDuplicate (ModelID_m mm))
      else case rows (ModelID_m mm) of
          None \<Rightarrow> Some (MemberMissing (ModelID_m mm))
        | Some target \<Rightarrow>
            if Kind target = KindGroup then Some (MemberIsGroup (ModelID_m mm))
            else if Kind target \<noteq> [] \<and> Kind target \<noteq> KindChat
              then Some (MemberKind (ModelID_m mm) (Kind target))
            else member_loop rows (ModelID_m mm # seen) (idx + 1) mms)"

definition claimed_by_other :: "ModelConfig \<Rightarrow> ModelConfig \<Rightarrow> bool" where
  "claimed_by_other m other \<longleftrightarrow> \<not> (ID other = ID m \<or> Kind other \<noteq> KindGroup)
     \<and> Enabled other \<and> ShadowModelID other = ShadowModelID m"

definition validate_shadow :: "ModelConfig \<Rightarrow> ModelConfig list \<Rightarrow> model_error option" where
  "validate_shadow m collection =
     (if ShadowModelID m = [] then None
      else case byID collection (ShadowModelID m) of
          None \<Rightarrow> Some (ShadowMissing (ShadowModelID m))
        | Some target \<Rightarrow>
            if Kind target = KindGroup then Some (ShadowIsGroup (ShadowModelID m))
            else if Kind target \<noteq> [] \<and> Kind target \<noteq> KindChat
              then Some (ShadowKind (ShadowModelID m) (Kind target))
            else case List.find (claimed_by_other m) collection of
                Some other \<Rightarrow> Some (ShadowClaimed (ShadowModelID m) (ID other))
              | None \<Rightarrow> None)"

definition ValidateGroupMembers :: "ModelConfig \<Rightarrow> ModelConfig list \<Rightarrow> model_error option" where
  "ValidateGroupMembers m collection =
     (if length (Members m) = 0 then Some NoMembers
      else if length (Members m) > MaxGroupMembers then Some (TooManyMembers (length (Members m)))
      else if length (filter (\<lambda>mm. \<not> BackupOnly_m mm) (Members m)) < 1
        then Some (NoDefaultMember (length (Members m)))
      else case member_loop (byID collection) [] 0 (Members m) of
          Some e \<Rightarrow> Some e
        | None \<Rightarrow> validate_shadow m collection)"

section \<open>Validation of the collection\<close>

fun ref_loop :: "string list \<Rightarrow> string list \<Rightarrow> nat \<Rightarrow> CredentialRef list \<Rightarrow> model_error option" where
  "ref_loop credIDs seen idx [] = None"
| "ref_loop credIDs seen idx (r # rs) =
     (if CredentialID r = [] then Some (RefEmpty idx)
      else if CredentialID r \<notin> set credIDs then Some (RefMissing (CredentialID r))
      else if Weight r \<le> 0 then Some (RefWeight idx)
      else if CredentialID r \<in> set seen then Some (RefDuplicate (CredentialID r))
      else ref_loop credIDs (CredentialID r # seen) (idx + 1) rs)"

fun provider_loop ::
  "(string \<Rightarrow> CredentialConfig option) \<Rightarrow> string \<Rightarrow> nat \<Rightarrow> CredentialRef list \<Rightarrow> model_error option" where
  "provider_loop creds primaryProvider idx [] = None"
| "provider_loop creds primaryProvider idx (r # rs) =
     (case creds (CredentialID r) of
        None \<Rightarrow> provider_loop creds primaryProvider (idx + 1) rs
      | Some refCred \<Rightarrow>
          if ToLower (Provider refCred) \<noteq> primaryProvider then Some (ProviderMismatch idx)
          else provider_loop creds primaryProvider (idx + 1) rs)"

definition credential_of :: "world \<Rightarrow> CredentialsConfig option \<Rightarrow> string \<Rightarrow> CredentialConfig option" where
  "credential_of w cco i = (case cco of None \<Rightarrow> None | Some cc \<Rightarrow> GetCredential_c w cc i)"

definition validate_internal ::
  "string list \<Rightarrow> (string \<Rightarrow> CredentialConfig option) \<Rightarrow> ModelConfig \<Rightarrow> model_error option" where
  "validate_internal credIDs creds m =
     (if \<not> Internal m then None
      else if length (Credentials m) = 0 then Some CredentialRequired
      else case ref_loop credIDs [] 0 (Credentials m) of
          Some e \<Rightarrow> Some e
        | None \<Rightarrow>
            if length (Credentials m) > MaxCredentialRefs then Some TooManyRefs
            else case (case creds (CredentialID (hd (Credentials m))) of
                   None \<Rightarrow> None
                 | Some primaryCred \<Rightarrow>
                     provider_loop creds (ToLower (Provider primaryCred)) 1 (tl (Credentials m))) of
                Some e \<Rightarrow> Some e
              | None \<Rightarrow> if InternalModel m = [] then Some InternalModelRequired else None)"

definition validate_peak :: "ModelConfig \<Rightarrow> model_error option" where
  "validate_peak m =
     (if \<not> PeakHourEnabled m then None
      else if \<not> Internal m then Some PeakRequiresInternal
      else if PeakHourStart m = [] then Some PeakStartRequired
      else if PeakHourEnd m = [] then Some PeakEndRequired
      else if PeakHourTimezone m = [] then Some PeakTimezoneRequired
      else if PeakHourModel m = [] then Some PeakModelRequired
      else case ValidateTimeFormat (PeakHourStart m) of Some e \<Rightarrow> Some (PeakStartInvalid e)
      | None \<Rightarrow> (case ValidateTimeFormat (PeakHourEnd m) of Some e \<Rightarrow> Some (PeakEndInvalid e)
      | None \<Rightarrow> (case ValidateUTCOffset (PeakHourTimezone m) of Some e \<Rightarrow> Some (PeakTimezoneInvalid e)
      | None \<Rightarrow> if PeakHourStart m = PeakHourEnd m then Some PeakSameTimes else None)))"

definition primary_provider :: "(string \<Rightarrow> CredentialConfig option) \<Rightarrow> ModelConfig \<Rightarrow> string" where
  "primary_provider creds m =
     (case Credentials m of [] \<Rightarrow> []
      | r # _ \<Rightarrow> (case creds (CredentialID r) of None \<Rightarrow> [] | Some c \<Rightarrow> ToLower (Provider c)))"

definition validate_row ::
  "string list \<Rightarrow> (string \<Rightarrow> CredentialConfig option) \<Rightarrow> ModelConfig list \<Rightarrow> ModelConfig \<Rightarrow> config_error option" where
  "validate_row credIDs creds collection m =
     (if ID m = [] then Some ErrInvalidModelID
      else if Kind m = KindGroup then
        (case ValidateKindRules m [] of Some e \<Rightarrow> Some (ModelError (ID m) e)
         | None \<Rightarrow> map_option (ModelError (ID m)) (ValidateGroupMembers m collection))
      else if length (FallbackChain m) > 1 then Some FallbackChainTooLong
      else case validate_internal credIDs creds m of Some e \<Rightarrow> Some (ModelError (ID m) e)
      | None \<Rightarrow>
        if SecondaryUpstreamModel m \<noteq> [] \<and> \<not> Internal m
        then Some (ModelError (ID m) SecondaryRequiresInternal)
        else case validate_peak m of Some e \<Rightarrow> Some (ModelError (ID m) e)
        | None \<Rightarrow> map_option (ModelError (ID m)) (ValidateKindRules m (primary_provider creds m)))"

fun row_loop :: "(ModelConfig \<Rightarrow> config_error option) \<Rightarrow> ModelConfig list \<Rightarrow> config_error option" where
  "row_loop check [] = None"
| "row_loop check (m # ms) = (case check m of Some e \<Rightarrow> Some e | None \<Rightarrow> row_loop check ms)"

fun cred_loop :: "world \<Rightarrow> CredentialConfig list \<Rightarrow> verdict" where
  "cred_loop w [] = Valid"
| "cred_loop w (c # cs) = (case Validate_c w c of Valid \<Rightarrow> cred_loop w cs | v \<Rightarrow> v)"

definition all_credentials :: "world \<Rightarrow> CredentialsConfig option \<Rightarrow> CredentialConfig list" where
  "all_credentials w cco = (case cco of None \<Rightarrow> [] | Some cc \<Rightarrow> GetCredentials_c w cc)"

definition Validate :: "world \<Rightarrow> ModelsConfig \<Rightarrow> verdict" where
  "Validate w mc =
     (case row_loop (validate_row (map ID_c (all_credentials w (Credentials_mc mc)))
                       (credential_of w (Credentials_mc mc)) (Models mc)) (Models mc) of
        Some e \<Rightarrow> Invalid e
      | None \<Rightarrow> cred_loop w (all_credentials w (Credentials_mc mc)))"

section \<open>The collection\<close>

definition NewModelsConfig :: ModelsConfig where
  "NewModelsConfig = \<lparr>Models = [], Credentials_mc = Some NewCredentialsConfig, filePath = [], claims = fmempty\<rparr>"

definition find_model :: "ModelsConfig \<Rightarrow> string \<Rightarrow> ModelConfig option" where
  "find_model mc modelID = List.find (\<lambda>m. ID m = modelID) (Models mc)"

definition GetTruncateParams :: "ModelsConfig \<Rightarrow> string \<Rightarrow> string list" where
  "GetTruncateParams mc modelID =
     (case find_model mc modelID of None \<Rightarrow> [] | Some m \<Rightarrow> TruncateParams m)"

definition GetModelNative :: "ModelsConfig \<Rightarrow> string \<Rightarrow> ModelConfig option" where
  "GetModelNative mc modelID = find_model mc modelID"

definition GetModel :: "ModelsConfig \<Rightarrow> string \<Rightarrow> ModelConfig option" where
  "GetModel mc modelID =
     (case fmlookup (claims mc) modelID of
        Some groupID \<Rightarrow>
          (if groupID \<noteq> [] then
             (case find_model mc groupID of
                Some g \<Rightarrow> if Enabled g then Some g else find_model mc modelID
              | None \<Rightarrow> find_model mc modelID)
           else find_model mc modelID)
      | None \<Rightarrow> find_model mc modelID)"

definition GetModelByName :: "ModelsConfig \<Rightarrow> string \<Rightarrow> ModelConfig option" where
  "GetModelByName mc modelName = List.find (\<lambda>m. Name m = modelName) (Models mc)"

definition GetFallbackChain :: "ModelsConfig \<Rightarrow> string \<Rightarrow> string list option" where
  "GetFallbackChain mc modelID = map_option (\<lambda>m. ID m # FallbackChain m) (find_model mc modelID)"

definition GetModels :: "ModelsConfig \<Rightarrow> ModelConfig list" where "GetModels mc = Models mc"

definition GetEnabledModels :: "ModelsConfig \<Rightarrow> ModelConfig list" where
  "GetEnabledModels mc = filter Enabled (Models mc)"

fun build_claims :: "(string, string) fmap \<Rightarrow> ModelConfig list \<Rightarrow> (string, string) fmap" where
  "build_claims cl [] = cl"
| "build_claims cl (m # ms) =
     build_claims (if Kind m = KindGroup \<and> Enabled m \<and> ShadowModelID m \<noteq> []
                   then fmupd (ShadowModelID m) (ID m) cl else cl) ms"

definition rebuildClaimsLocked :: "ModelsConfig \<Rightarrow> ModelsConfig" where
  "rebuildClaimsLocked mc = mc\<lparr>claims := build_claims fmempty (Models mc)\<rparr>"

definition snapshotForValidation :: "ModelConfig list \<Rightarrow> CredentialsConfig option \<Rightarrow> ModelsConfig" where
  "snapshotForValidation ms cco = \<lparr>Models = ms, Credentials_mc = cco, filePath = [], claims = fmempty\<rparr>"

definition AddModel :: "world \<Rightarrow> ModelConfig \<Rightarrow> ModelsConfig \<Rightarrow> verdict \<times> ModelsConfig" where
  "AddModel w model0 mc =
     (if ID model0 = [] then (Invalid ErrInvalidModelID, mc)
      else if Name model0 = [] then (Invalid ErrInvalidModelName, mc)
      else let model = model0\<lparr>Internal := True\<rparr> in
        if list_ex (\<lambda>m. ID m = ID model) (Models mc) then (Invalid ErrDuplicateModelID, mc)
        else case Validate w (snapshotForValidation (Models mc @ [model]) (Credentials_mc mc)) of
            Valid \<Rightarrow> (Valid, rebuildClaimsLocked (mc\<lparr>Models := Models mc @ [model]\<rparr>))
          | v \<Rightarrow> (v, mc))"

fun index_of :: "string \<Rightarrow> ModelConfig list \<Rightarrow> nat option" where
  "index_of i [] = None"
| "index_of i (m # ms) = (if ID m = i then Some 0 else map_option Suc (index_of i ms))"

definition UpdateModel :: "world \<Rightarrow> string \<Rightarrow> ModelConfig \<Rightarrow> ModelsConfig \<Rightarrow> verdict \<times> ModelsConfig" where
  "UpdateModel w modelID model0 mc =
     (if ID model0 = [] then (Invalid ErrInvalidModelID, mc)
      else if Name model0 = [] then (Invalid ErrInvalidModelName, mc)
      else let model = model0\<lparr>Internal := True\<rparr> in
        case index_of modelID (Models mc) of
          None \<Rightarrow> (Invalid ErrModelNotFound, mc)
        | Some i \<Rightarrow>
            if ID model \<noteq> modelID then (Invalid ErrCannotChangeModelID, mc)
            else case Validate w (snapshotForValidation ((Models mc)[i := model]) (Credentials_mc mc)) of
                Valid \<Rightarrow> (Valid, rebuildClaimsLocked (mc\<lparr>Models := (Models mc)[i := model]\<rparr>))
              | v \<Rightarrow> (v, mc))"

definition has_member :: "string \<Rightarrow> ModelConfig \<Rightarrow> bool" where
  "has_member modelID m \<longleftrightarrow> Kind m = KindGroup \<and> list_ex (\<lambda>mm. ModelID_m mm = modelID) (Members m)"

definition RemoveModel :: "world \<Rightarrow> string \<Rightarrow> ModelsConfig \<Rightarrow> verdict \<times> ModelsConfig" where
  "RemoveModel w modelID mc =
     (case List.find (has_member modelID) (Models mc) of
        Some g \<Rightarrow> (Invalid (MemberOfGroup modelID (ID g)), mc)
      | None \<Rightarrow>
        (case index_of modelID (Models mc) of
           None \<Rightarrow> (Invalid ErrModelNotFound, mc)
         | Some i \<Rightarrow>
             let mc' = mc\<lparr>Models := take i (Models mc) @ drop (i + 1) (Models mc)\<rparr>
             in case Validate w (snapshotForValidation (Models mc') (Credentials_mc mc')) of
                  Valid \<Rightarrow> (Valid, rebuildClaimsLocked mc')
                | v \<Rightarrow> (v, mc')))"

text \<open>The file operations of \<open>Load\<close> and \<open>Save\<close> are reduced to their outcome.\<close>

datatype load_file = FileMissing bool | ReadOrParseError
  | FileContent "ModelConfig list" "CredentialConfig list"

definition Load :: "string \<Rightarrow> load_file \<Rightarrow> ModelsConfig \<Rightarrow> bool \<times> ModelsConfig" where
  "Load path file mc =
     (case file of
        FileMissing created \<Rightarrow>
          (created, mc\<lparr>Models := [], Credentials_mc := Some NewCredentialsConfig, filePath := path\<rparr>)
      | ReadOrParseError \<Rightarrow> (False, mc)
      | FileContent ms creds \<Rightarrow>
          (True, rebuildClaimsLocked
             (mc\<lparr>Models := ms, Credentials_mc := Some (SetCredentials creds), filePath := path\<rparr>)))"

definition Save :: "world \<Rightarrow> bool \<Rightarrow> ModelsConfig \<Rightarrow> (verdict \<times> bool) \<times> ModelsConfig" where
  "Save w io_ok mc =
     (let mc' = mc\<lparr>Models := map (\<lambda>m. m\<lparr>Internal := True\<rparr>) (Models mc)\<rparr>;
          v = Validate w (snapshotForValidation (Models mc') (Credentials_mc mc'))
      in ((v, v = Valid \<and> io_ok), mc'))"

section \<open>Resolution\<close>

definition ResolvePeakHourModel :: "ModelConfig \<Rightarrow> time \<Rightarrow> string" where
  "ResolvePeakHourModel m now =
     (if \<not> PeakHourEnabled m then []
      else if \<not> Internal m then []
      else if PeakHourModel m = [] then []
      else case parseUTCOffset (PeakHourTimezone m) of Inl _ \<Rightarrow> []
      | Inr utcOffset \<Rightarrow>
        (case parseTime (PeakHourStart m) of Inl _ \<Rightarrow> []
         | Inr (startH, startM) \<Rightarrow>
           (case parseTime (PeakHourEnd m) of Inl _ \<Rightarrow> []
            | Inr (endH, endM) \<Rightarrow>
                if \<not> isWithinWindow (current_minutes now (offset_minutes utcOffset))
                       (timeToMinutes startH startM) (timeToMinutes endH endM)
                then [] else PeakHourModel m)))"

definition ResolveInternalConfig ::
  "world \<Rightarrow> time \<Rightarrow> ModelsConfig \<Rightarrow> string \<Rightarrow> (string \<times> string \<times> string \<times> string) option" where
  "ResolveInternalConfig w now mc modelID =
     (case find_model mc modelID of
        None \<Rightarrow> None
      | Some m \<Rightarrow>
          if \<not> Internal m then None
          else if PrimaryCredentialID m = [] then None
          else case credential_of w (Credentials_mc mc) (PrimaryCredentialID m) of
              None \<Rightarrow> None
            | Some cred \<Rightarrow>
                let baseURL = (if InternalBaseURL m = [] then BaseURL cred else InternalBaseURL m);
                    peakModel = ResolvePeakHourModel m now;
                    actualModel = (if peakModel \<noteq> [] then peakModel else InternalModel m)
                in Some (Provider cred, APIKey cred, baseURL, actualModel))"

definition ResolveInternalConfigWithAffinity ::
  "world \<Rightarrow> time \<Rightarrow> ModelsConfig \<Rightarrow> string \<Rightarrow> string \<Rightarrow> ResolvedCredential option" where
  "ResolveInternalConfigWithAffinity w now mc modelID conversationKey =
     (case ResolveInternalConfig w now mc modelID of
        None \<Rightarrow> None
      | Some (provider, apiKey, baseURL, internalModel) \<Rightarrow>
          let primaryID = (case find_model mc modelID of None \<Rightarrow> [] | Some m \<Rightarrow> PrimaryCredentialID m)
          in Some \<lparr>Provider_r = provider, APIKey_r = apiKey, BaseURL_r = baseURL,
                 InternalModel_r = internalModel, CredentialID_r = primaryID, NewlyBound = False\<rparr>)"

section \<open>Credentials of the collection\<close>

definition GetCredential :: "world \<Rightarrow> ModelsConfig \<Rightarrow> string \<Rightarrow> CredentialConfig option" where
  "GetCredential w mc i = credential_of w (Credentials_mc mc) i"

definition GetCredentials :: "world \<Rightarrow> ModelsConfig \<Rightarrow> CredentialConfig list" where
  "GetCredentials w mc = all_credentials w (Credentials_mc mc)"

definition AddCredential :: "world \<Rightarrow> CredentialConfig \<Rightarrow> ModelsConfig \<Rightarrow> verdict \<times> ModelsConfig" where
  "AddCredential w cred mc =
     (let cc = (case Credentials_mc mc of None \<Rightarrow> NewCredentialsConfig | Some cc \<Rightarrow> cc);
          (v, cc') = AddCredential_c w cc cred
      in (v, mc\<lparr>Credentials_mc := Some cc'\<rparr>))"

definition UpdateCredential ::
  "world \<Rightarrow> string \<Rightarrow> CredentialConfig \<Rightarrow> ModelsConfig \<Rightarrow> verdict \<times> ModelsConfig" where
  "UpdateCredential w i cred mc =
     (case Credentials_mc mc of
        None \<Rightarrow> (Invalid ErrCredentialNotFound, mc)
      | Some cc \<Rightarrow>
          let (v, cc') = UpdateCredential_c w cc i cred in (v, mc\<lparr>Credentials_mc := Some cc'\<rparr>))"

definition uses_credential :: "string \<Rightarrow> ModelConfig \<Rightarrow> bool" where
  "uses_credential i m \<longleftrightarrow> list_ex (\<lambda>r. CredentialID r = i) (Credentials m)"

definition RemoveCredential :: "string \<Rightarrow> ModelsConfig \<Rightarrow> verdict \<times> ModelsConfig" where
  "RemoveCredential i mc =
     (case Credentials_mc mc of
        None \<Rightarrow> (Invalid ErrCredentialNotFound, mc)
      | Some cc \<Rightarrow>
          (case List.find (uses_credential i) (Models mc) of
             Some m \<Rightarrow> (Invalid (ErrCredentialInUse (ID m)), mc)
           | None \<Rightarrow>
               let (v, cc') = RemoveCredential_c cc i in (v, mc\<lparr>Credentials_mc := Some cc'\<rparr>)))"

section \<open>What the loops decide\<close>

lemma row_loop_None: "row_loop check ms = None \<longleftrightarrow> (\<forall>m \<in> set ms. check m = None)"
  by (induction ms) (auto split: option.splits)

lemma cred_loop_Valid: "cred_loop w cs = Valid \<longleftrightarrow> (\<forall>c \<in> set cs. Validate_c w c = Valid)"
  by (induction cs) (auto split: verdict.splits)

lemma Validate_Valid:
  "Validate w mc = Valid \<longleftrightarrow>
     (\<forall>m \<in> set (Models mc). validate_row (map ID_c (all_credentials w (Credentials_mc mc)))
        (credential_of w (Credentials_mc mc)) (Models mc) m = None)
     \<and> (\<forall>c \<in> set (all_credentials w (Credentials_mc mc)). Validate_c w c = Valid)"
  by (auto simp: Validate_def row_loop_None [symmetric] cred_loop_Valid split: option.split)

lemma Validate_snapshot [simp]:
  "Validate w (snapshotForValidation ms (Credentials_mc mc)) = Validate w (mc\<lparr>Models := ms\<rparr>)"
  by (simp add: Validate_def snapshotForValidation_def cong: option.case_cong)

definition is_chat :: "ModelConfig \<Rightarrow> bool" where
  "is_chat m \<longleftrightarrow> Kind m = [] \<or> Kind m = KindChat"

lemma member_loop_None:
  "member_loop rows seen idx ms = None \<longleftrightarrow>
     distinct (map ModelID_m ms) \<and> set (map ModelID_m ms) \<inter> set seen = {}
     \<and> (\<forall>mm \<in> set ms. ModelID_m mm \<noteq> [] \<and> 0 < Weight_m mm
         \<and> (\<exists>t. rows (ModelID_m mm) = Some t \<and> is_chat t))"
proof (induction ms arbitrary: seen idx)
  case (Cons mm ms)
  show ?case
    by (auto simp: Cons.IH is_chat_def split: option.splits)
qed simp

lemma ref_loop_None:
  "ref_loop ids seen idx rs = None \<longleftrightarrow>
     distinct (map CredentialID rs) \<and> set (map CredentialID rs) \<inter> set seen = {}
     \<and> (\<forall>r \<in> set rs. CredentialID r \<noteq> [] \<and> CredentialID r \<in> set ids \<and> 0 < Weight r)"
  by (induction rs arbitrary: seen idx) auto

lemma provider_loop_None:
  "provider_loop creds p idx rs = None \<longleftrightarrow>
     (\<forall>r \<in> set rs. \<forall>c. creds (CredentialID r) = Some c \<longrightarrow> ToLower (Provider c) = p)"
  by (induction rs arbitrary: idx) (auto split: option.splits)

text \<open>The lookups: with distinct identifiers the row is the same whichever end the search starts from.\<close>

lemma find_model_Some:
  "find_model mc i = Some m \<Longrightarrow> m \<in> set (Models mc) \<and> ID m = i"
  by (auto simp: find_model_def find_Some_iff)

lemma find_model_None: "find_model mc i = None \<longleftrightarrow> i \<notin> ID ` set (Models mc)"
  by (auto simp: find_model_def find_None_iff)

lemma find_model_distinct:
  assumes "distinct (map ID (Models mc))" and "m \<in> set (Models mc)"
  shows "find_model mc (ID m) = Some m"
proof (cases "find_model mc (ID m)")
  case None
  then show ?thesis using assms(2) by (auto simp: find_model_None)
next
  case (Some m')
  then have "m' \<in> set (Models mc)" "ID m' = ID m" by (auto dest: find_model_Some)
  then show ?thesis using Some assms by (metis distinct_map inj_on_def)
qed

lemma byID_iff:
  assumes "distinct (map ID ms)"
  shows "byID ms i = Some m \<longleftrightarrow> m \<in> set ms \<and> ID m = i"
proof -
  have "distinct (map fst (rev (map (\<lambda>row. (ID row, row)) ms)))"
    using assms by (simp add: rev_map [symmetric] o_def)
  then show ?thesis
    by (auto simp: byID_def map_of_eq_Some_iff)
qed

lemma byID_Some: "byID ms i = Some m \<Longrightarrow> m \<in> set ms \<and> ID m = i"
  by (auto simp: byID_def dest!: map_of_SomeD)

section \<open>Claims\<close>

definition claims_id :: "ModelConfig \<Rightarrow> string \<Rightarrow> bool" where
  "claims_id g i \<longleftrightarrow> Kind g = KindGroup \<and> Enabled g \<and> ShadowModelID g = i \<and> i \<noteq> []"

lemma build_claims_Some:
  "fmlookup (build_claims cl ms) i = Some g \<Longrightarrow>
     (\<exists>m \<in> set ms. claims_id m i \<and> ID m = g) \<or> fmlookup cl i = Some g"
  by (induction ms arbitrary: cl) (fastforce simp: claims_id_def split: if_splits)+

lemma build_claims_None:
  "fmlookup (build_claims cl ms) i = None \<longleftrightarrow>
     (\<forall>m \<in> set ms. \<not> claims_id m i) \<and> fmlookup cl i = None"
  by (induction ms arbitrary: cl) (auto simp: claims_id_def split: if_splits)

section \<open>Valid configurations\<close>

definition keyed :: "CredentialsConfig option \<Rightarrow> bool" where
  "keyed cco = (case cco of None \<Rightarrow> True | Some cc \<Rightarrow> \<forall>i c. fmlookup cc i = Some c \<longrightarrow> ID_c c = i)"

definition ordered :: "world \<Rightarrow> CredentialsConfig option \<Rightarrow> bool" where
  "ordered w cco = (case cco of None \<Rightarrow> True | Some cc \<Rightarrow> enumerates w cc)"

definition config_ok :: "world \<Rightarrow> ModelsConfig \<Rightarrow> bool" where
  "config_ok w mc \<longleftrightarrow> Validate w mc = Valid \<and> distinct (map ID (Models mc))
     \<and> claims mc = build_claims fmempty (Models mc)
     \<and> keyed (Credentials_mc mc) \<and> ordered w (Credentials_mc mc)"

definition stored :: "CredentialsConfig option \<Rightarrow> string \<Rightarrow> CredentialConfig option" where
  "stored cco i = (case cco of None \<Rightarrow> None | Some cc \<Rightarrow> fmlookup cc i)"

lemma credential_of_stored: "credential_of w cco i = map_option (decrypted w) (stored cco i)"
  by (simp add: credential_of_def stored_def GetCredential_c_def split: option.split)

lemma all_credentials_stored:
  "ordered w cco \<Longrightarrow> c \<in> set (all_credentials w cco) \<longleftrightarrow> (\<exists>i d. stored cco i = Some d \<and> c = decrypted w d)"
  by (auto simp: ordered_def all_credentials_def stored_def GetCredentials_set split: option.splits)

lemma credential_ids_stored:
  "ordered w cco \<Longrightarrow> keyed cco \<Longrightarrow>
     i \<in> set (map ID_c (all_credentials w cco)) \<longleftrightarrow> stored cco i \<noteq> None"
proof -
  assume o: "ordered w cco" and k: "keyed cco"
  have id: "ID_c d = j" if "stored cco j = Some d" for j d
    using k that by (auto simp: keyed_def stored_def split: option.splits)
  show "i \<in> set (map ID_c (all_credentials w cco)) \<longleftrightarrow> stored cco i \<noteq> None"
  proof
    assume "i \<in> set (map ID_c (all_credentials w cco))"
    then obtain c where "c \<in> set (all_credentials w cco)" "i = ID_c c" by auto
    then show "stored cco i \<noteq> None" using id by (auto simp: all_credentials_stored [OF o])
  next
    assume "stored cco i \<noteq> None"
    then obtain d where d: "stored cco i = Some d" by auto
    then have "decrypted w d \<in> set (all_credentials w cco)"
      by (auto simp: all_credentials_stored [OF o])
    then show "i \<in> set (map ID_c (all_credentials w cco))"
      using id [OF d] by (metis decrypted_simps(1) image_eqI set_map)
  qed
qed

lemma config_ok_row:
  assumes "config_ok w mc" and "m \<in> set (Models mc)"
  shows "validate_row (map ID_c (all_credentials w (Credentials_mc mc)))
     (credential_of w (Credentials_mc mc)) (Models mc) m = None"
  using assms by (auto simp: config_ok_def Validate_Valid)

section \<open>Claim resolution\<close>

lemma group_not_chat: "Kind g = KindGroup \<Longrightarrow> \<not> is_chat g"
  by (simp add: is_chat_def)

lemma group_row_ok:
  assumes "validate_row ids creds ms g = None" and "Kind g = KindGroup"
  shows "Internal g" "ShadowModelID g \<noteq> ID g \<or> ShadowModelID g = []"
    "length (Members g) \<le> MaxGroupMembers" "\<exists>mm \<in> set (Members g). \<not> BackupOnly_m mm"
    "member_loop (byID ms) [] 0 (Members g) = None" "validate_shadow g ms = None"
proof -
  have kr: "validateGroupRules g = None" and vm: "ValidateGroupMembers g ms = None"
    using assms by (auto simp: validate_row_def ValidateKindRules_def split: if_splits option.splits)
  show "Internal g" "ShadowModelID g \<noteq> ID g \<or> ShadowModelID g = []"
    using kr by (auto simp: validateGroupRules_def split: if_splits)
  show "length (Members g) \<le> MaxGroupMembers" "member_loop (byID ms) [] 0 (Members g) = None"
    "validate_shadow g ms = None"
    using vm by (auto simp: ValidateGroupMembers_def split: if_splits option.splits)
  have "filter (\<lambda>mm. \<not> BackupOnly_m mm) (Members g) \<noteq> []"
    using vm by (auto simp: ValidateGroupMembers_def split: if_splits)
  then show "\<exists>mm \<in> set (Members g). \<not> BackupOnly_m mm" by (auto simp: filter_empty_conv)
qed

lemma validate_shadow_None:
  assumes "validate_shadow g ms = None" and "ShadowModelID g \<noteq> []"
  shows "\<exists>t. byID ms (ShadowModelID g) = Some t \<and> is_chat t"
    "\<forall>o' \<in> set ms. \<not> claimed_by_other g o'"
  using assms by (auto simp: validate_shadow_def is_chat_def find_None_iff split: if_splits option.splits)

lemma unique_claim:
  assumes "config_ok w mc" "g \<in> set (Models mc)" "g' \<in> set (Models mc)"
    "claims_id g i" "claims_id g' i"
  shows "g = g'"
proof -
  have "validate_shadow g (Models mc) = None"
    using assms config_ok_row [OF assms(1,2)] by (auto simp: claims_id_def dest: group_row_ok(6))
  then have "\<not> claimed_by_other g g'"
    using assms by (auto simp: claims_id_def dest: validate_shadow_None(2))
  then have "ID g' = ID g" using assms by (auto simp: claims_id_def claimed_by_other_def)
  then show ?thesis
    using assms find_model_distinct [of mc g] find_model_distinct [of mc g'] by (simp add: config_ok_def)
qed

lemma claim_target_chat:
  assumes "config_ok w mc" "g \<in> set (Models mc)" "claims_id g i"
  shows "\<exists>t. find_model mc i = Some t \<and> is_chat t \<and> ID t = i"
proof -
  have "validate_shadow g (Models mc) = None"
    using assms config_ok_row [OF assms(1,2)] by (auto simp: claims_id_def dest: group_row_ok(6))
  then obtain t where "byID (Models mc) i = Some t" "is_chat t"
    using assms(3) by (auto simp: claims_id_def dest: validate_shadow_None(1))
  then show ?thesis
    using assms(1) find_model_distinct [of mc t] by (auto simp: config_ok_def dest!: byID_Some)
qed

lemma row_ID_nonempty: "config_ok w mc \<Longrightarrow> m \<in> set (Models mc) \<Longrightarrow> ID m \<noteq> []"
  by (drule (1) config_ok_row) (auto simp: validate_row_def split: if_splits)

lemma GetModel_claimed:
  assumes "config_ok w mc" "g \<in> set (Models mc)" "claims_id g i"
  shows "GetModel mc i = Some g"
proof -
  have "fmlookup (claims mc) i \<noteq> None"
    using assms by (auto simp: config_ok_def build_claims_None)
  then obtain gid where gid: "fmlookup (claims mc) i = Some gid" by auto
  then obtain g' where "g' \<in> set (Models mc)" "claims_id g' i" "ID g' = gid"
    using assms(1) by (auto simp: config_ok_def dest!: build_claims_Some)
  then have "gid = ID g" using unique_claim [OF assms(1)] assms by blast
  then show ?thesis
    using gid assms row_ID_nonempty [OF assms(1,2)] find_model_distinct [of mc g]
    by (simp add: GetModel_def config_ok_def claims_id_def)
qed

lemma GetModel_unclaimed:
  assumes "config_ok w mc" "\<And>g. g \<in> set (Models mc) \<Longrightarrow> \<not> claims_id g i"
  shows "GetModel mc i = GetModelNative mc i"
proof -
  have "fmlookup (claims mc) i = None"
    using assms by (simp add: config_ok_def build_claims_None)
  then show ?thesis by (simp add: GetModel_def GetModelNative_def)
qed

text \<open>C14.
  In a valid configuration a client-facing lookup returns the one enabled group that claims the
  identifier, and otherwise the row of that identifier; a group cannot be hijacked by another
  group, and the rows that claims hide are chat models that the direct lookup still returns.\<close>

theorem claim_first_resolution:
  assumes "config_ok w mc"
  shows "(GetModel mc i = Some g \<longleftrightarrow>
            g \<in> set (Models mc) \<and>
            (claims_id g i \<or> (ID g = i \<and> (\<nexists>h. h \<in> set (Models mc) \<and> claims_id h i))))
    \<and> (g \<in> set (Models mc) \<and> claims_id g i \<longrightarrow>
         (\<exists>t. GetModelNative mc i = Some t \<and> is_chat t \<and> t \<noteq> g))
    \<and> (h \<in> set (Models mc) \<and> IsGroup h \<longrightarrow> GetModel mc (ID h) = Some h)"
proof (intro conjI impI)
  have native: "GetModelNative mc i = Some g \<longleftrightarrow> g \<in> set (Models mc) \<and> ID g = i" for i g
    using assms find_model_distinct [of mc g]
    by (auto simp: GetModelNative_def config_ok_def dest: find_model_Some)
  show "GetModel mc i = Some g \<longleftrightarrow> g \<in> set (Models mc) \<and>
      (claims_id g i \<or> (ID g = i \<and> (\<nexists>h. h \<in> set (Models mc) \<and> claims_id h i)))"
  proof (cases "\<exists>h. h \<in> set (Models mc) \<and> claims_id h i")
    case True
    then obtain h where h: "h \<in> set (Models mc)" "claims_id h i" by blast
    then show ?thesis
      using GetModel_claimed [OF assms h] unique_claim [OF assms] by (metis option.inject)
  next
    case False
    then show ?thesis using GetModel_unclaimed [OF assms] native by metis
  qed
  show "\<exists>t. GetModelNative mc i = Some t \<and> is_chat t \<and> t \<noteq> g"
    if g: "g \<in> set (Models mc) \<and> claims_id g i"
  proof -
    obtain t where "find_model mc i = Some t" "is_chat t"
      using claim_target_chat [OF assms] g by blast
    moreover have "\<not> is_chat g" using g by (simp add: claims_id_def group_not_chat)
    ultimately show ?thesis by (auto simp: GetModelNative_def)
  qed
  show "GetModel mc (ID h) = Some h" if h: "h \<in> set (Models mc) \<and> IsGroup h"
  proof -
    have "\<not> claims_id g (ID h)" if "g \<in> set (Models mc)" for g
      using claim_target_chat [OF assms that, of "ID h"] h assms find_model_distinct [of mc h]
      by (auto simp: config_ok_def is_chat_def IsGroup_def)
    then show ?thesis using GetModel_unclaimed [OF assms] native h by metis
  qed
qed

text \<open>A concrete configuration for the witnesses: a chat model and a group that shadows it.\<close>

definition ex_world :: world where
  "ex_world = \<lparr>getenv = \<lambda>_. [], Encrypt = \<lambda>k. Some (CHR ''e'' # k), Decrypt = \<lambda>k. Some (tl k),
     map_order = \<lambda>cc. filter (\<lambda>i. fmlookup cc i \<noteq> None) [''c1'', ''c2'']\<rparr>"

definition ex_cred :: "string \<Rightarrow> string \<Rightarrow> CredentialConfig" where
  "ex_cred i p = \<lparr>ID_c = i, Provider = p, APIKey = ''ek'', BaseURL = ''http://u''\<rparr>"

definition ex_model :: "string \<Rightarrow> string list \<Rightarrow> ModelConfig" where
  "ex_model i cs = \<lparr>ID = i, Name = i, Enabled = True, FallbackChain = [], TruncateParams = [],
     Internal = True, InternalBaseURL = [], InternalModel = ''glm'',
     Credentials = map (\<lambda>c. \<lparr>CredentialID = c, Weight = 1, Position = 0\<rparr>) cs,
     ReleaseStreamChunkDeadline = 0, PeakHourEnabled = False, PeakHourStart = [], PeakHourEnd = [],
     PeakHourTimezone = [], PeakHourModel = [], SecondaryUpstreamModel = [],
     ExcludeFromUltimateSwitching = False, Kind = [], Members = [], ShadowModelID = []\<rparr>"

definition ex_group_row :: "string \<Rightarrow> string \<Rightarrow> string \<Rightarrow> ModelConfig" where
  "ex_group_row i member shadow = (ex_model i [])\<lparr>Kind := KindGroup, ExcludeFromUltimateSwitching := True,
     Members := [\<lparr>ModelID_m = member, Weight_m = 1, BackupOnly_m = False\<rparr>], ShadowModelID := shadow\<rparr>"

definition ex_config :: "ModelConfig list \<Rightarrow> CredentialConfig list \<Rightarrow> ModelsConfig" where
  "ex_config ms cs = rebuildClaimsLocked
     \<lparr>Models = ms, Credentials_mc = Some (SetCredentials cs), filePath = [], claims = fmempty\<rparr>"

lemmas ex_defs = ex_world_def ex_cred_def ex_model_def ex_group_row_def ex_config_def

lemmas config_eval = Validate_def snapshotForValidation_def validate_row_def validate_internal_def
  all_credentials_def credential_of_def GetCredentials_c_def GetCredential_c_def decrypted_def
  SetCredentials_def Validate_c_def ResolveAPIKey_def expandEnvVars_def isValidProvider_def
  validProviders_def validate_peak_def primary_provider_def ValidateKindRules_def
  validateGroupRules_def ValidateGroupMembers_def validate_shadow_def byID_def claimed_by_other_def
  MaxCredentialRefs_def MaxGroupMembers_def rebuildClaimsLocked_def config_ok_def keyed_def
  ordered_def enumerates_def

lemma ex_config_ok:
  "config_ok ex_world (ex_config [ex_model ''coding'' [''c1''], ex_group_row ''grp'' ''coding'' ''coding''] [ex_cred ''c1'' ''openai''])"
  by (simp add: ex_defs config_eval)

theorem claim_first_resolution_witness:
  "(let mc = ex_config [ex_model ''coding'' [''c1''], ex_group_row ''grp'' ''coding'' ''coding''] [ex_cred ''c1'' ''openai'']
    in GetModel mc ''coding'' = Some (ex_group_row ''grp'' ''coding'' ''coding'')
      \<and> GetModelNative mc ''coding'' = Some (ex_model ''coding'' [''c1'']))"
  using claim_first_resolution [OF ex_config_ok, of "''coding''" "ex_group_row ''grp'' ''coding'' ''coding''" "ex_group_row ''grp'' ''coding'' ''coding''"]
  by (simp add: ex_defs rebuildClaimsLocked_def claims_id_def GetModelNative_def find_model_def)

section \<open>Validity is kept\<close>

text \<open>A row check reads the credentials only at the references of an internal row, and there only
  whether they exist and their provider.\<close>

definition provider_at :: "(string \<Rightarrow> CredentialConfig option) \<Rightarrow> string \<Rightarrow> string option" where
  "provider_at creds i = map_option (\<lambda>c. ToLower (Provider c)) (creds i)"

lemma ref_loop_cong:
  "\<forall>r \<in> set rs. CredentialID r \<in> set ids \<longleftrightarrow> CredentialID r \<in> set ids' \<Longrightarrow>
     ref_loop ids seen idx rs = ref_loop ids' seen idx rs"
  by (induction rs arbitrary: seen idx) auto

lemma provider_loop_cong:
  "\<forall>r \<in> set rs. provider_at creds (CredentialID r) = provider_at creds' (CredentialID r) \<Longrightarrow>
     provider_loop creds p idx rs = provider_loop creds' p idx rs"
proof (induction rs arbitrary: idx)
  case (Cons r rs)
  then have "provider_at creds (CredentialID r) = provider_at creds' (CredentialID r)" by simp
  then show ?case
    using Cons by (auto simp: provider_at_def split: option.splits)
qed simp

lemma validate_internal_cong:
  assumes "Internal m \<Longrightarrow> \<forall>r \<in> set (Credentials m). (CredentialID r \<in> set ids \<longleftrightarrow> CredentialID r \<in> set ids')
      \<and> provider_at creds (CredentialID r) = provider_at creds' (CredentialID r)"
  shows "validate_internal ids creds m = validate_internal ids' creds' m"
proof (cases "Internal m \<and> Credentials m \<noteq> []")
  case True
  then obtain r rs where r: "Credentials m = r # rs" by (cases "Credentials m") auto
  have "provider_at creds (CredentialID r) = provider_at creds' (CredentialID r)"
    using assms True r by simp
  moreover have "ref_loop ids [] 0 (Credentials m) = ref_loop ids' [] 0 (Credentials m)"
    using assms True by (intro ref_loop_cong) blast
  moreover have "provider_loop creds p 1 rs = provider_loop creds' p 1 rs" for p
    using assms True r by (intro provider_loop_cong) auto
  ultimately show ?thesis
    by (auto simp: validate_internal_def r provider_at_def split: option.splits)
qed (auto simp: validate_internal_def)

lemma validate_row_cong:
  assumes "Internal m \<Longrightarrow> Kind m \<noteq> KindGroup \<Longrightarrow>
      \<forall>r \<in> set (Credentials m). (CredentialID r \<in> set ids \<longleftrightarrow> CredentialID r \<in> set ids')
        \<and> provider_at creds (CredentialID r) = provider_at creds' (CredentialID r)"
  shows "validate_row ids creds ms m = validate_row ids' creds' ms m"
proof (cases "Kind m = KindGroup")
  case False
  have "ValidateKindRules m (primary_provider creds m) = ValidateKindRules m (primary_provider creds' m)"
  proof (cases "Internal m")
    case True
    then have "primary_provider creds m = primary_provider creds' m"
      using assms [OF True False]
      by (auto simp: primary_provider_def provider_at_def split: list.splits option.splits)
    then show ?thesis by simp
  qed (simp add: ValidateKindRules_def validateImageGenRules_def validateDecisionRules_def)
  moreover have "validate_internal ids creds m = validate_internal ids' creds' m"
    by (rule validate_internal_cong) (use assms False in blast)
  ultimately show ?thesis by (simp only: validate_row_def)
qed (simp add: validate_row_def)

lemma provider_at_stored:
  "provider_at (credential_of w cco) i = map_option (\<lambda>c. ToLower (Provider c)) (stored cco i)"
  by (cases "stored cco i") (simp_all add: provider_at_def credential_of_stored)

text \<open>So a change of the credentials keeps validity when it keeps the provider of every credential
  that a row uses and every new credential is valid on its own.\<close>

lemma row_ref_stored:
  assumes "config_ok w mc" "m \<in> set (Models mc)" "Internal m" "Kind m \<noteq> KindGroup" "r \<in> set (Credentials m)"
  shows "stored (Credentials_mc mc) (CredentialID r) \<noteq> None"
proof -
  have "ref_loop (map ID_c (all_credentials w (Credentials_mc mc))) [] 0 (Credentials m) = None"
    using config_ok_row [OF assms(1,2)] assms(3-5)
    by (auto simp: validate_row_def validate_internal_def split: if_splits option.splits)
  then show ?thesis
    using assms credential_ids_stored [of w "Credentials_mc mc" "CredentialID r"]
    by (auto simp: ref_loop_None config_ok_def)
qed

lemma credentials_change:
  assumes ok: "config_ok w mc" and new: "keyed cco" "ordered w cco"
    and use: "\<And>m r. m \<in> set (Models mc) \<Longrightarrow> r \<in> set (Credentials m) \<Longrightarrow>
      stored (Credentials_mc mc) (CredentialID r) \<noteq> None \<Longrightarrow>
      map_option (\<lambda>c. ToLower (Provider c)) (stored cco (CredentialID r))
        = map_option (\<lambda>c. ToLower (Provider c)) (stored (Credentials_mc mc) (CredentialID r))"
    and valid: "\<And>i c. stored cco i = Some c \<Longrightarrow> Validate_c w (decrypted w c) = Valid"
  shows "config_ok w (mc\<lparr>Credentials_mc := cco\<rparr>)"
proof -
  let ?old = "Credentials_mc mc"
  have old: "keyed ?old" "ordered w ?old" using ok by (simp_all add: config_ok_def)
  have row: "validate_row (map ID_c (all_credentials w cco)) (credential_of w cco) (Models mc) m = None"
    if m: "m \<in> set (Models mc)" for m
  proof -
    have "validate_row (map ID_c (all_credentials w cco)) (credential_of w cco) (Models mc) m
      = validate_row (map ID_c (all_credentials w ?old)) (credential_of w ?old) (Models mc) m"
    proof (rule validate_row_cong, rule ballI)
      fix r assume i: "Internal m" "Kind m \<noteq> KindGroup" and r: "r \<in> set (Credentials m)"
      have s: "stored ?old (CredentialID r) \<noteq> None" by (rule row_ref_stored [OF ok m i r])
      have e: "map_option (\<lambda>c. ToLower (Provider c)) (stored cco (CredentialID r))
        = map_option (\<lambda>c. ToLower (Provider c)) (stored ?old (CredentialID r))"
        by (rule use [OF m r s])
      then have "stored cco (CredentialID r) \<noteq> None" using s by auto
      then show "(CredentialID r \<in> set (map ID_c (all_credentials w cco)) \<longleftrightarrow>
          CredentialID r \<in> set (map ID_c (all_credentials w ?old)))
        \<and> provider_at (credential_of w cco) (CredentialID r) = provider_at (credential_of w ?old) (CredentialID r)"
        using s e by (simp add: credential_ids_stored [OF new(2,1)] credential_ids_stored [OF old(2,1)]
            provider_at_stored del: set_map)
    qed
    then show ?thesis using config_ok_row [OF ok m] by simp
  qed
  have "Validate_c w c = Valid" if "c \<in> set (all_credentials w cco)" for c
    using that valid by (auto simp: all_credentials_stored [OF new(2)])
  then show ?thesis
    using row new ok by (simp add: config_ok_def Validate_Valid)
qed

datatype config_op = AddOp ModelConfig | UpdateOp string ModelConfig | RemoveOp string
  | AddCredOp CredentialConfig | UpdateCredOp string CredentialConfig | RemoveCredOp string

primrec apply_op :: "world \<Rightarrow> config_op \<Rightarrow> ModelsConfig \<Rightarrow> verdict \<times> ModelsConfig" where
  "apply_op w (AddOp m) mc = AddModel w m mc"
| "apply_op w (UpdateOp i m) mc = UpdateModel w i m mc"
| "apply_op w (RemoveOp i) mc = RemoveModel w i mc"
| "apply_op w (AddCredOp c) mc = AddCredential w c mc"
| "apply_op w (UpdateCredOp i c) mc = UpdateCredential w i c mc"
| "apply_op w (RemoveCredOp i) mc = RemoveCredential i mc"

definition same_provider :: "ModelsConfig \<Rightarrow> string \<Rightarrow> CredentialConfig \<Rightarrow> bool" where
  "same_provider mc i cred \<longleftrightarrow>
     (\<forall>c. stored (Credentials_mc mc) i = Some c \<longrightarrow> ToLower (Provider c) = ToLower (Provider cred))"

text \<open>The two operations that do not keep validity by themselves: a removal that fails its
  validation, and a change of a credential's provider.\<close>

definition harmless :: "config_op \<Rightarrow> verdict \<Rightarrow> ModelsConfig \<Rightarrow> ModelsConfig \<Rightarrow> bool" where
  "harmless op v mc mc' = (case op of
     RemoveOp _ \<Rightarrow> v = Valid \<or> mc' = mc
   | UpdateCredOp i cred \<Rightarrow> same_provider mc i cred
   | _ \<Rightarrow> True)"

definition crypto_ok :: "world \<Rightarrow> bool" where
  "crypto_ok w \<longleftrightarrow> (\<forall>k k'. Encrypt w k = Some k' \<longrightarrow> k' \<noteq> [] \<and> Decrypt w k' = Some k)"

inductive config_reachable :: "world \<Rightarrow> ModelsConfig \<Rightarrow> bool" for w where
  start: "ordered w (Credentials_mc NewModelsConfig) \<Longrightarrow> config_reachable w NewModelsConfig"
| step: "config_reachable w mc \<Longrightarrow> apply_op w op mc = (v, mc') \<Longrightarrow> harmless op v mc mc' \<Longrightarrow>
    ordered w (Credentials_mc mc') \<Longrightarrow> config_reachable w mc'"
| saved: "config_reachable w mc \<Longrightarrow> Save w io_ok mc = ((Valid, ok), mc') \<Longrightarrow> config_reachable w mc'"
| loaded: "config_reachable w mc \<Longrightarrow> Load path (FileContent ms creds) mc = (ok, mc') \<Longrightarrow>
    distinct (map ID ms) \<Longrightarrow> Validate w mc' = Valid \<Longrightarrow> ordered w (Credentials_mc mc') \<Longrightarrow> config_reachable w mc'"
| loaded_none: "config_reachable w mc \<Longrightarrow> Models mc = [] \<Longrightarrow> Load path (FileMissing created) mc = (ok, mc') \<Longrightarrow>
    ordered w (Credentials_mc mc') \<Longrightarrow> config_reachable w mc'"

lemma index_of_Some: "index_of i ms = Some k \<Longrightarrow> k < length ms \<and> ID (ms ! k) = i"
  by (induction ms arbitrary: k) (auto split: if_splits)

lemma config_ok_models:
  assumes "config_ok w mc" "Validate w (mc\<lparr>Models := ms\<rparr>) = Valid" "distinct (map ID ms)"
  shows "config_ok w (rebuildClaimsLocked (mc\<lparr>Models := ms\<rparr>))"
proof -
  have "Validate w (rebuildClaimsLocked (mc\<lparr>Models := ms\<rparr>)) = Validate w (mc\<lparr>Models := ms\<rparr>)"
    by (simp add: Validate_Valid Validate_def rebuildClaimsLocked_def cong: option.case_cong)
  then show ?thesis using assms by (simp add: config_ok_def rebuildClaimsLocked_def)
qed

lemma AddModel_ok:
  assumes "config_ok w mc" "AddModel w m mc = (v, mc')"
  shows "config_ok w mc'"
proof -
  have "distinct (map ID (Models mc @ [m\<lparr>Internal := True\<rparr>]))"
    if "\<not> list_ex (\<lambda>x. ID x = ID m) (Models mc)"
    using that assms(1) by (auto simp: config_ok_def list_ex_iff)
  then show ?thesis
    using assms config_ok_models [OF assms(1), of "Models mc @ [m\<lparr>Internal := True\<rparr>]"]
    by (auto simp: AddModel_def Let_def split: if_splits verdict.splits)
qed

lemma UpdateModel_ok:
  assumes "config_ok w mc" "UpdateModel w i m mc = (v, mc')"
  shows "config_ok w mc'"
proof -
  have "distinct (map ID ((Models mc)[k := m\<lparr>Internal := True\<rparr>]))"
    if "index_of i (Models mc) = Some k" "ID m = i" for k
  proof -
    have "map ID ((Models mc)[k := m\<lparr>Internal := True\<rparr>]) = map ID (Models mc)"
      using index_of_Some [OF that(1)] that(2) by (simp add: map_update list_update_same_conv)
    then show ?thesis using assms(1) by (simp add: config_ok_def)
  qed
  then show ?thesis
    using assms config_ok_models [OF assms(1)]
    by (auto simp: UpdateModel_def Let_def split: if_splits verdict.splits option.splits)
qed

lemma RemoveModel_ok:
  assumes "config_ok w mc" "RemoveModel w i mc = (v, mc')" "v = Valid \<or> mc' = mc"
  shows "config_ok w mc'"
proof -
  have "distinct (map ID (take k (Models mc) @ drop (Suc k) (Models mc)))" for k
  proof -
    have "distinct (map ID (Models mc))" using assms(1) by (simp add: config_ok_def)
    then show ?thesis
      using set_take_disj_set_drop_if_distinct [of "map ID (Models mc)" k "Suc k"]
      by (simp add: take_map [symmetric] drop_map [symmetric] del: set_map)
  qed
  then show ?thesis
    using assms config_ok_models [OF assms(1)]
    by (auto simp: RemoveModel_def Let_def split: verdict.splits option.splits)
qed

lemma stored_Some [simp]: "stored (Some cc) i = fmlookup cc i" "stored None i = None"
  by (simp_all add: stored_def)

lemma stored_valid:
  assumes "config_ok w mc" "stored (Credentials_mc mc) i = Some c"
  shows "Validate_c w (decrypted w c) = Valid" "ID_c c = i"
proof -
  have "decrypted w c \<in> set (all_credentials w (Credentials_mc mc))"
    using assms by (auto simp: config_ok_def all_credentials_stored)
  then show "Validate_c w (decrypted w c) = Valid"
    using assms(1) by (simp add: config_ok_def Validate_Valid)
  show "ID_c c = i"
    using assms by (auto simp: config_ok_def keyed_def stored_def split: option.splits)
qed

lemma encrypted_valid:
  assumes "crypto_ok w" "encrypted w c = Some c'" "Validate_c w c = Valid"
  shows "Validate_c w (decrypted w c') = Valid" "ID_c c' = ID_c c" "Provider c' = Provider c"
proof -
  have "decrypted w c' = c"
    by (rule decrypted_encrypted [OF assms(2)]) (use assms(1) in \<open>simp add: crypto_ok_def\<close>)
  then show "Validate_c w (decrypted w c') = Valid" using assms(3) by simp
  show "ID_c c' = ID_c c" "Provider c' = Provider c"
    using encrypted_simps [OF assms(2)] by simp_all
qed

lemma AddCredential_ok:
  assumes "crypto_ok w" "config_ok w mc" "AddCredential w c mc = (v, mc')" "ordered w (Credentials_mc mc')"
  shows "config_ok w mc'"
proof -
  define cc where "cc = (case Credentials_mc mc of None \<Rightarrow> NewCredentialsConfig | Some cc \<Rightarrow> cc)"
  have cc: "fmlookup cc = stored (Credentials_mc mc)"
    by (auto simp: cc_def NewCredentialsConfig_def stored_def fun_eq_iff split: option.split)
  obtain cc' where r: "AddCredential_c w cc c = (v, cc')" and mc': "mc' = mc\<lparr>Credentials_mc := Some cc'\<rparr>"
    using assms(3) by (auto simp: AddCredential_def cc_def Let_def split: prod.splits)
  have "cc' = cc \<or> (\<exists>c'. encrypted w c = Some c' \<and> Validate_c w c = Valid
      \<and> fmlookup cc (ID_c c') = None \<and> cc' = fmupd (ID_c c') c' cc)"
    using r by (auto simp: AddCredential_c_def split: verdict.splits option.splits if_splits)
  then have new: "stored (Some cc') i = stored (Credentials_mc mc) i \<or>
      (stored (Credentials_mc mc) i = None \<and> (\<exists>c'. stored (Some cc') i = Some c' \<and> ID_c c' = i
        \<and> Validate_c w (decrypted w c') = Valid))" for i
    using encrypted_valid(1) [OF assms(1)] by (auto simp: cc split: if_splits)
  show ?thesis unfolding mc'
  proof (rule credentials_change [OF assms(2)])
    show "keyed (Some cc')"
      using new stored_valid(2) [OF assms(2)] by (auto simp: keyed_def) (metis option.inject)
    show "ordered w (Some cc')" using assms(4) mc' by simp
    show "map_option (\<lambda>c. ToLower (Provider c)) (stored (Some cc') (CredentialID r))
        = map_option (\<lambda>c. ToLower (Provider c)) (stored (Credentials_mc mc) (CredentialID r))"
      if "stored (Credentials_mc mc) (CredentialID r) \<noteq> None" for r
      using new [of "CredentialID r"] that by auto
    show "Validate_c w (decrypted w d) = Valid" if "stored (Some cc') i = Some d" for i d
      using new [of i] that stored_valid(1) [OF assms(2)] by auto
  qed
qed

lemma UpdateCredential_ok:
  assumes "crypto_ok w" "config_ok w mc" "UpdateCredential w i c mc = (v, mc')"
    "ordered w (Credentials_mc mc')" "same_provider mc i c"
  shows "config_ok w mc'"
proof (cases "Credentials_mc mc")
  case None
  then show ?thesis using assms by (simp add: UpdateCredential_def)
next
  case (Some cc)
  obtain cc' where r: "UpdateCredential_c w cc i c = (v, cc')" and mc': "mc' = mc\<lparr>Credentials_mc := Some cc'\<rparr>"
    using assms(3) Some by (auto simp: UpdateCredential_def split: prod.splits)
  have "cc' = cc \<or> (\<exists>c'. encrypted w c = Some c' \<and> Validate_c w c = Valid
      \<and> fmlookup cc i \<noteq> None \<and> ID_c c' = i \<and> cc' = fmupd i c' cc)"
    using r by (auto simp: UpdateCredential_c_def split: verdict.splits option.splits if_splits)
  then have new: "fmlookup cc' j = fmlookup cc j \<or> (j = i \<and> (\<exists>c' old. fmlookup cc i = Some old
      \<and> fmlookup cc' i = Some c' \<and> ID_c c' = i \<and> Validate_c w (decrypted w c') = Valid
      \<and> ToLower (Provider c') = ToLower (Provider old)))" for j
    using encrypted_valid(1,3) [OF assms(1)] assms(5) Some by (auto simp: same_provider_def split: if_splits)
  show ?thesis unfolding mc'
  proof (rule credentials_change [OF assms(2)])
    show "keyed (Some cc')"
      using new stored_valid(2) [OF assms(2)] Some by (auto simp: keyed_def) (metis option.inject)
    show "ordered w (Some cc')" using assms(4) mc' by simp
    show "map_option (\<lambda>c. ToLower (Provider c)) (stored (Some cc') (CredentialID r))
        = map_option (\<lambda>c. ToLower (Provider c)) (stored (Credentials_mc mc) (CredentialID r))" for r
      using new [of "CredentialID r"] Some by auto
    show "Validate_c w (decrypted w d) = Valid" if "stored (Some cc') j = Some d" for j d
      using new [of j] that stored_valid(1) [OF assms(2)] Some by auto
  qed
qed

lemma RemoveCredential_ok:
  assumes "config_ok w mc" "RemoveCredential i mc = (v, mc')" "ordered w (Credentials_mc mc')"
  shows "config_ok w mc'"
proof (cases "Credentials_mc mc")
  case None
  then show ?thesis using assms by (simp add: RemoveCredential_def)
next
  case (Some cc)
  show ?thesis
  proof (cases "List.find (uses_credential i) (Models mc)")
    case (Some m)
    then show ?thesis using assms \<open>Credentials_mc mc = Some cc\<close> by (simp add: RemoveCredential_def)
  next
    case None
    obtain cc' where r: "RemoveCredential_c cc i = (v, cc')" and mc': "mc' = mc\<lparr>Credentials_mc := Some cc'\<rparr>"
      using assms(2) Some None by (auto simp: RemoveCredential_def split: prod.splits)
    then have cc': "cc' = cc \<or> cc' = fmdrop i cc"
      by (auto simp: RemoveCredential_c_def split: if_splits)
    show ?thesis unfolding mc'
    proof (rule credentials_change [OF assms(1)])
      show "keyed (Some cc')"
        using cc' stored_valid(2) [OF assms(1)] Some by (auto simp: keyed_def split: if_splits)
      show "ordered w (Some cc')" using assms(3) mc' by simp
      show "map_option (\<lambda>c. ToLower (Provider c)) (stored (Some cc') (CredentialID r))
          = map_option (\<lambda>c. ToLower (Provider c)) (stored (Credentials_mc mc) (CredentialID r))"
        if "m \<in> set (Models mc)" "r \<in> set (Credentials m)" for m r
      proof -
        have "CredentialID r \<noteq> i"
          using None that by (auto simp: find_None_iff uses_credential_def list_ex_iff)
        then show ?thesis using cc' Some by auto
      qed
      show "Validate_c w (decrypted w d) = Valid" if "stored (Some cc') j = Some d" for j d
        using cc' that stored_valid(1) [OF assms(1)] Some by (auto split: if_splits)
    qed
  qed
qed

lemma NewModelsConfig_ok:
  assumes "ordered w (Credentials_mc NewModelsConfig)"
  shows "config_ok w NewModelsConfig"
proof -
  have "set (all_credentials w (Some fmempty)) = {}"
    by (rule equals0I) (use assms in \<open>simp add: NewModelsConfig_def NewCredentialsConfig_def all_credentials_stored\<close>)
  then show ?thesis
    using assms by (simp add: NewModelsConfig_def NewCredentialsConfig_def config_ok_def Validate_Valid keyed_def
        del: set_empty)
qed

lemma apply_op_ok:
  assumes "crypto_ok w" "config_ok w mc" "apply_op w op mc = (v, mc')" "harmless op v mc mc'"
    "ordered w (Credentials_mc mc')"
  shows "config_ok w mc'"
proof (cases op)
  case (AddOp m)
  then show ?thesis using AddModel_ok [OF assms(2)] assms(3) by simp
next
  case (UpdateOp i m)
  then show ?thesis using UpdateModel_ok [OF assms(2)] assms(3) by simp
next
  case (RemoveOp i)
  then show ?thesis using RemoveModel_ok [OF assms(2)] assms(3,4) by (simp add: harmless_def)
next
  case (AddCredOp c)
  then show ?thesis using AddCredential_ok [OF assms(1,2)] assms(3,5) by simp
next
  case (UpdateCredOp i c)
  then show ?thesis using UpdateCredential_ok [OF assms(1,2)] assms(3-5) by (simp add: harmless_def)
next
  case (RemoveCredOp i)
  then show ?thesis using RemoveCredential_ok [OF assms(2)] assms(3,5) by simp
qed

lemma build_claims_internal: "build_claims cl (map (\<lambda>m. m\<lparr>Internal := True\<rparr>) ms) = build_claims cl ms"
  by (induction ms arbitrary: cl) simp_all

lemma Save_ok:
  assumes "config_ok w mc" "Save w io_ok mc = ((Valid, ok), mc')"
  shows "config_ok w mc'"
proof -
  let ?ms = "map (\<lambda>m. m\<lparr>Internal := True\<rparr>) (Models mc)"
  have "mc' = mc\<lparr>Models := ?ms\<rparr>" "Validate w (mc\<lparr>Models := ?ms\<rparr>) = Valid"
    using assms(2) by (auto simp: Save_def Let_def)
  moreover have "map ID ?ms = map ID (Models mc)" by simp
  ultimately show ?thesis using assms(1) by (simp add: config_ok_def build_claims_internal del: map_map)
qed

lemma SetCredentials_keyed: "fmlookup (SetCredentials creds) i = Some c \<Longrightarrow> ID_c c = i"
  by (induction creds rule: rev_induct) (auto simp: SetCredentials_def split: if_splits)

lemma Load_ok:
  assumes "Load path (FileContent ms creds) mc = (ok, mc')" "distinct (map ID ms)" "Validate w mc' = Valid"
    "ordered w (Credentials_mc mc')"
  shows "config_ok w mc'"
  using assms by (auto simp: Load_def config_ok_def rebuildClaimsLocked_def keyed_def dest: SetCredentials_keyed)

lemma Load_missing_ok:
  assumes "config_ok w mc" "Models mc = []" "Load path (FileMissing created) mc = (ok, mc')"
    "ordered w (Credentials_mc mc')"
  shows "config_ok w mc'"
proof -
  have mc': "Models mc' = []" "claims mc' = claims mc" "Credentials_mc mc' = Some NewCredentialsConfig"
    using assms(3) by (auto simp: Load_def)
  have "set (all_credentials w (Some NewCredentialsConfig)) = {}"
    by (rule equals0I) (use assms(4) mc'(3) in \<open>simp add: NewCredentialsConfig_def all_credentials_stored stored_def\<close>)
  then show ?thesis using assms mc' by (simp add: config_ok_def Validate_Valid keyed_def NewCredentialsConfig_def del: set_empty)
qed


definition ex_one :: ModelsConfig where
  "ex_one = NewModelsConfig\<lparr>Credentials_mc := Some (fmupd ''c1'' ((ex_cred ''c1'' ''openai'')\<lparr>APIKey := ''eek''\<rparr>) fmempty)\<rparr>"

definition ex_two :: ModelsConfig where
  "ex_two = ex_one\<lparr>Models := [ex_model ''m'' [''c1'']]\<rparr>"

lemma ex_AddCredential:
  "AddCredential ex_world (ex_cred ''c1'' ''openai'') NewModelsConfig = (Valid, ex_one)"
  by (simp add: ex_world_def ex_cred_def AddCredential_def AddCredential_c_def encrypted_def ex_one_def
      NewModelsConfig_def NewCredentialsConfig_def Validate_c_def ResolveAPIKey_def expandEnvVars_def
      isValidProvider_def validProviders_def)

lemma ex_AddModel: "AddModel ex_world (ex_model ''m'' [''c1'']) ex_one = (Valid, ex_two)"
  by (simp add: ex_defs config_eval AddModel_def ex_one_def ex_two_def NewModelsConfig_def)

lemma ex_reachable: "config_reachable ex_world ex_two"
proof -
  have start: "config_reachable ex_world NewModelsConfig"
    by (rule config_reachable.start) (simp add: ex_world_def NewModelsConfig_def NewCredentialsConfig_def
        ordered_def enumerates_def)
  have o: "ordered ex_world (Credentials_mc ex_one)"
    by (simp add: ex_world_def ex_one_def NewModelsConfig_def ordered_def enumerates_def)
  have one: "config_reachable ex_world ex_one"
    by (rule config_reachable.step [OF start, of "AddCredOp (ex_cred ''c1'' ''openai'')" Valid])
      (use o in \<open>simp_all add: ex_AddCredential harmless_def\<close>)
  show ?thesis
    by (rule config_reachable.step [OF one, of "AddOp (ex_model ''m'' [''c1''])" Valid])
      (use o in \<open>simp_all add: ex_AddModel harmless_def ex_two_def\<close>)
qed


section \<open>Resolution of a valid row\<close>

lemma chat_row_ok:
  assumes "validate_row ids creds ms m = None" "Kind m \<noteq> KindGroup"
  shows "validate_internal ids creds m = None" "validate_peak m = None"
    "ValidateKindRules m (primary_provider creds m) = None" "length (FallbackChain m) \<le> 1"
  using assms by (auto simp: validate_row_def split: if_splits option.splits)

lemma validate_internal_None:
  assumes "validate_internal ids creds m = None" "Internal m"
  shows "Credentials m \<noteq> []" "InternalModel m \<noteq> []" "length (Credentials m) \<le> MaxCredentialRefs"
    "ref_loop ids [] 0 (Credentials m) = None"
    "creds (CredentialID (hd (Credentials m))) = Some p \<Longrightarrow>
       provider_loop creds (ToLower (Provider p)) 1 (tl (Credentials m)) = None"
  using assms by (auto simp: validate_internal_def split: if_splits option.splits)

lemma group_no_peak:
  "validate_row ids creds ms m = None \<Longrightarrow> Kind m = KindGroup \<Longrightarrow> \<not> PeakHourEnabled m"
  by (auto simp: validate_row_def ValidateKindRules_def validateGroupRules_def split: if_splits option.splits)

lemma validate_peak_None:
  assumes "validate_peak m = None" "PeakHourEnabled m"
  shows "Internal m" "PeakHourModel m \<noteq> []" "PeakHourStart m \<noteq> []" "PeakHourEnd m \<noteq> []"
    "ValidateTimeFormat (PeakHourStart m) = None" "ValidateTimeFormat (PeakHourEnd m) = None"
    "ValidateUTCOffset (PeakHourTimezone m) = None"
  using assms by (auto simp: validate_peak_def split: if_splits option.splits)

definition minute_of :: "string \<Rightarrow> int" where
  "minute_of s = (case parseTime s of Inl _ \<Rightarrow> 0 | Inr (h, m) \<Rightarrow> timeToMinutes h m)"

definition offset_of :: "string \<Rightarrow> int" where
  "offset_of s = (case parseUTCOffset s of Inl _ \<Rightarrow> 0 | Inr v \<Rightarrow> offset_minutes v)"

lemma ResolvePeakHourModel_window:
  assumes "validate_peak m = None" "PeakHourEnabled m"
  shows "ResolvePeakHourModel m now =
    (if (local_minute now (offset_of (PeakHourTimezone m)) - minute_of (PeakHourStart m)) mod 1440
        < (minute_of (PeakHourEnd m) - minute_of (PeakHourStart m)) mod 1440
     then PeakHourModel m else [])"
proof -
  note v = validate_peak_None [OF assms]
  obtain sh sm where s: "parseTime (PeakHourStart m) = Inr (sh, sm)"
    "0 \<le> timeToMinutes sh sm" "timeToMinutes sh sm < 1440"
    using parseTime_valid [OF v(5,3)] by blast
  obtain eh em where e: "parseTime (PeakHourEnd m) = Inr (eh, em)"
    "0 \<le> timeToMinutes eh em" "timeToMinutes eh em < 1440"
    using parseTime_valid [OF v(6,4)] by blast
  obtain off where o: "parseUTCOffset (PeakHourTimezone m) = Inr off"
    using v(7) by (auto simp: ValidateUTCOffset_parse)
  show ?thesis
    using isWithinWindow_iff [OF local_minute_range s(2,3) e(2,3), of now "offset_minutes off"] v(1,2) assms(2)
    by (simp add: ResolvePeakHourModel_def s(1) e(1) o minute_of_def offset_of_def current_minutes_local)
qed

text \<open>C15.
  Every internal row of a valid configuration that is not a group resolves: to its primary
  credential, which exists, has a supported provider, the provider of all its other credentials,
  and a key that expands to a non-empty one, and to a non-empty upstream model.\<close>

theorem valid_model_resolves:
  assumes "config_ok w mc" "find_model mc i = Some m" "Internal m" "Kind m \<noteq> KindGroup"
  shows "\<exists>c url model. GetCredential w mc (PrimaryCredentialID m) = Some c
    \<and> ResolveInternalConfig w now mc i = Some (Provider c, APIKey c, url, model)
    \<and> Provider c \<in> set validProviders
    \<and> (\<exists>key. ResolveAPIKey w c = Some key \<and> key \<noteq> [])
    \<and> (\<forall>r \<in> set (Credentials m). \<exists>d. GetCredential w mc (CredentialID r) = Some d
          \<and> ToLower (Provider d) = ToLower (Provider c))
    \<and> model \<noteq> []"
proof -
  have m: "m \<in> set (Models mc)" using find_model_Some [OF assms(2)] by simp
  note vi = validate_internal_None [OF chat_row_ok(1) [OF config_ok_row [OF assms(1) m] assms(4)] assms(3)]
  obtain r rs where r: "Credentials m = r # rs" using vi(1) by (cases "Credentials m") auto
  have exists: "\<exists>d. GetCredential w mc (CredentialID x) = Some (decrypted w d)
      \<and> stored (Credentials_mc mc) (CredentialID x) = Some d" if "x \<in> set (Credentials m)" for x
    using row_ref_stored [OF assms(1) m assms(3,4) that] by (auto simp: GetCredential_def credential_of_stored)
  then obtain d where d: "GetCredential w mc (CredentialID r) = Some (decrypted w d)"
    "stored (Credentials_mc mc) (CredentialID r) = Some d" using r by auto
  define c where "c = decrypted w d"
  have p: "PrimaryCredentialID m = CredentialID r" "CredentialID r \<noteq> []"
    using vi(4) r by (auto simp: PrimaryCredentialID_def ref_loop_None)
  have valid: "Validate_c w c = Valid" using stored_valid(1) [OF assms(1) d(2)] by (simp add: c_def)
  have same: "ToLower (Provider x) = ToLower (Provider c)"
    if "y \<in> set (Credentials m)" "GetCredential w mc (CredentialID y) = Some x" for x y
    using vi(5) [of c] d that r by (auto simp: provider_loop_None GetCredential_def c_def)
  have "\<exists>url model. ResolveInternalConfig w now mc i = Some (Provider c, APIKey c, url, model) \<and> model \<noteq> []"
    using assms(2,3) p d(1) vi(2) by (auto simp: ResolveInternalConfig_def GetCredential_def c_def Let_def)
  moreover have "Provider c \<in> set validProviders" "\<exists>key. ResolveAPIKey w c = Some key \<and> key \<noteq> []"
    using valid by (auto simp: Validate_c_def isValidProvider_def split: if_splits option.splits)
  moreover have "\<forall>y \<in> set (Credentials m). \<exists>x. GetCredential w mc (CredentialID y) = Some x
      \<and> ToLower (Provider x) = ToLower (Provider c)"
    using exists same by metis
  ultimately show ?thesis using d(1) p(1) unfolding c_def by metis
qed

lemma ex_row:
  "find_model (ex_config [ex_model ''coding'' [''c1''], ex_group_row ''grp'' ''coding'' ''coding''] [ex_cred ''c1'' ''openai''])
     ''coding'' = Some (ex_model ''coding'' [''c1''])"
  "Internal (ex_model i cs)" "Kind (ex_model i cs) \<noteq> KindGroup"
  by (simp_all add: ex_model_def ex_group_row_def ex_config_def rebuildClaimsLocked_def find_model_def)

theorem valid_model_resolves_witness:
  "\<exists>(c :: CredentialConfig) url model. ResolveInternalConfig ex_world 0
      (ex_config [ex_model ''coding'' [''c1''], ex_group_row ''grp'' ''coding'' ''coding''] [ex_cred ''c1'' ''openai''])
      ''coding'' = Some (Provider c, APIKey c, url, model) \<and> model \<noteq> []"
  using valid_model_resolves [OF ex_config_ok ex_row, of 0]
  by blast

text \<open>C26.
  For a valid row with peak hours the substitute model is used exactly while the time since the
  start of the window, on the clock of the configured offset, is shorter than the window, which
  may cross midnight; and then it is the model that resolution returns.\<close>

theorem peak_hour_window:
  assumes "config_ok w mc" "find_model mc i = Some m" "PeakHourEnabled m"
  shows "ResolvePeakHourModel m now =
      (if (local_minute now (offset_of (PeakHourTimezone m)) - minute_of (PeakHourStart m)) mod 1440
          < (minute_of (PeakHourEnd m) - minute_of (PeakHourStart m)) mod 1440
       then PeakHourModel m else [])
    \<and> (\<exists>p k u. ResolveInternalConfig w now mc i =
         Some (p, k, u, if ResolvePeakHourModel m now = [] then InternalModel m else PeakHourModel m))
    \<and> PeakHourModel m \<noteq> []"
proof -
  have m: "m \<in> set (Models mc)" using find_model_Some [OF assms(2)] by simp
  have k: "Kind m \<noteq> KindGroup" using group_no_peak config_ok_row [OF assms(1) m] assms(3) by blast
  have v: "validate_peak m = None" by (rule chat_row_ok(2) [OF config_ok_row [OF assms(1) m] k])
  note win = ResolvePeakHourModel_window [OF v assms(3), of now]
  have ne: "PeakHourModel m \<noteq> []" by (rule validate_peak_None(2) [OF v assms(3)])
  obtain p kk u model where "ResolveInternalConfig w now mc i = Some (p, kk, u, model)"
    using valid_model_resolves [OF assms(1,2) validate_peak_None(1) [OF v assms(3)] k, of now] by blast
  moreover from this have "model = (if ResolvePeakHourModel m now = [] then InternalModel m else PeakHourModel m)"
    using assms(2) ne
    by (auto simp: ResolveInternalConfig_def win Let_def split: if_splits option.splits)
  ultimately show ?thesis using win ne by blast
qed

definition ex_peak :: ModelConfig where
  "ex_peak = (ex_model ''m'' [''c1''])\<lparr>PeakHourEnabled := True, PeakHourStart := ''22:00'',
     PeakHourEnd := ''06:00'', PeakHourTimezone := ''+5.5'', PeakHourModel := ''air''\<rparr>"

lemmas peak_eval = ValidateTimeFormat_def ValidateUTCOffset_def timeFormatRegex_def utcOffsetRegex_def
  digits12_def offset_hundredths_def parseTime_def parseUTCOffset_def isDigit_def digit_val_def
  digits_val_def TrimSpace_def isSpace_def

lemma ex_peak_formats:
  "ValidateTimeFormat ''22:00'' = None" "ValidateTimeFormat ''06:00'' = None" "ValidateUTCOffset ''+5.5'' = None"
  "minute_of ''22:00'' = 1320" "minute_of ''06:00'' = 360" "offset_of ''+5.5'' = 330"
  by (simp_all add: peak_eval minute_of_def offset_of_def timeToMinutes_def offset_minutes_def)

lemma ex_peak_ok: "config_ok ex_world (ex_config [ex_peak] [ex_cred ''c1'' ''openai''])"
  by (simp add: ex_peak_def ex_defs config_eval ex_peak_formats)

lemma ex_peak_row:
  "find_model (ex_config [ex_peak] [ex_cred ''c1'' ''openai'']) ''m'' = Some ex_peak" "PeakHourEnabled ex_peak"
  by (simp_all add: ex_peak_def ex_model_def ex_config_def rebuildClaimsLocked_def find_model_def)

text \<open>At 18:00 UTC it is 23:30 at \<open>+5.5\<close>, and at 12:00 UTC it is 17:30.\<close>

theorem peak_hour_window_witness:
  "ResolvePeakHourModel ex_peak (18 * hour) = ''air'' \<and> ResolvePeakHourModel ex_peak (12 * hour) = []"
  using peak_hour_window [OF ex_peak_ok ex_peak_row, of "18 * hour"]
    peak_hour_window [OF ex_peak_ok ex_peak_row, of "12 * hour"]
  by (simp add: ex_peak_def ex_model_def ex_peak_formats local_minute_def)

section \<open>Changes that break a configuration\<close>

lemma index_of_None: "index_of i ms = None \<longleftrightarrow> i \<notin> ID ` set ms"
  by (induction ms) auto

lemma filter_other_IDs: "i \<notin> ID ` set ms \<Longrightarrow> filter (\<lambda>m. ID m \<noteq> i) ms = ms"
  by (induction ms) auto

lemma index_of_filter:
  "distinct (map ID ms) \<Longrightarrow> index_of i ms = Some k \<Longrightarrow> take k ms @ drop (Suc k) ms = filter (\<lambda>m. ID m \<noteq> i) ms"
proof (induction ms arbitrary: k)
  case (Cons m ms)
  show ?case
  proof (cases "ID m = i")
    case True
    then have "i \<notin> ID ` set ms" using Cons.prems(1) by auto
    from filter_other_IDs [OF this] show ?thesis using True Cons.prems(2) by simp
  next
    case False
    then show ?thesis using Cons by auto
  qed
qed simp

lemma byID_filter:
  assumes "distinct (map ID ms)"
  shows "byID (filter (\<lambda>m. ID m \<noteq> b) ms) i = (if i = b then None else byID ms i)"
proof -
  have d: "distinct (map ID (filter (\<lambda>m. ID m \<noteq> b) ms))" using assms by (rule distinct_map_filter)
  have e: "byID (filter (\<lambda>m. ID m \<noteq> b) ms) i = Some m \<longleftrightarrow> i \<noteq> b \<and> byID ms i = Some m" for m
    unfolding byID_iff [OF d] byID_iff [OF assms] by auto
  show ?thesis
  proof (cases "byID (filter (\<lambda>m. ID m \<noteq> b) ms) i")
    case None
    then have "\<not> (i \<noteq> b \<and> byID ms i = Some m)" for m using e [of m] by simp
    then show ?thesis unfolding None by (cases "byID ms i") auto
  next
    case (Some m)
    then show ?thesis using e [of m] by simp
  qed
qed

text \<open>What the removal of a row does to the validity of the others.\<close>

lemma validate_row_removed:
  assumes "validate_row ids creds ms m = None" and "distinct (map ID ms)" and "\<not> has_member b m"
  shows "validate_row ids creds (filter (\<lambda>m. ID m \<noteq> b) ms) m =
     (if Kind m = KindGroup \<and> ShadowModelID m = b \<and> b \<noteq> []
      then Some (ModelError (ID m) (ShadowMissing b)) else None)"
proof (cases "Kind m = KindGroup")
  case False
  then have "validate_row ids creds (filter (\<lambda>m. ID m \<noteq> b) ms) m = validate_row ids creds ms m"
    by (simp add: validate_row_def)
  then show ?thesis using assms(1) False by simp
next
  case True
  let ?ms = "filter (\<lambda>m. ID m \<noteq> b) ms"
  have ml: "member_loop (byID ms) [] 0 (Members m) = None" and vs: "validate_shadow m ms = None"
    using group_row_ok [OF assms(1) True] by simp_all
  have ne: "ModelID_m mm \<noteq> b" if "mm \<in> set (Members m)" for mm
    using assms(3) True that by (auto simp: has_member_def list_ex_iff)
  have ml': "member_loop (byID ?ms) [] 0 (Members m) = None"
    using ml ne by (simp add: member_loop_None byID_filter [OF assms(2)])
  have vs': "validate_shadow m ?ms = (if ShadowModelID m = b \<and> b \<noteq> [] then Some (ShadowMissing b) else None)"
  proof (cases "ShadowModelID m = b \<or> ShadowModelID m = []")
    case True
    then show ?thesis by (auto simp: validate_shadow_def byID_filter [OF assms(2)])
  next
    case False
    have "List.find (claimed_by_other m) ?ms = None"
      using validate_shadow_None(2) [OF vs] False by (auto simp: find_None_iff)
    then show ?thesis
      using False vs by (auto simp: validate_shadow_def byID_filter [OF assms(2)] split: option.splits if_splits)
  qed
  show ?thesis
    using assms(1) True ml ml' vs'
    by (auto simp: validate_row_def ValidateGroupMembers_def split: option.splits if_splits)
qed

lemma row_loop_first:
  assumes "\<And>m. m \<in> set ms \<Longrightarrow> check m = (if bad m then Some (e m) else None)" and "\<exists>m \<in> set ms. bad m"
  shows "\<exists>m \<in> set ms. bad m \<and> row_loop check ms = Some (e m)"
  using assms by (induction ms) auto

text \<open>A group whose shadowed identifier has no row makes every collection invalid.\<close>

lemma dangling_shadow_invalid:
  assumes "m \<in> set (Models mc)" and "Kind m = KindGroup" and "ShadowModelID m \<noteq> []"
    and "ShadowModelID m \<notin> ID ` set (Models mc)"
  shows "Validate w mc \<noteq> Valid"
proof
  assume "Validate w mc = Valid"
  then have "validate_row (map ID_c (all_credentials w (Credentials_mc mc)))
      (credential_of w (Credentials_mc mc)) (Models mc) m = None"
    using assms(1) by (simp add: Validate_Valid)
  from group_row_ok(6) [OF this assms(2)] validate_shadow_None(1) [OF _ assms(3)]
  obtain t where "byID (Models mc) (ShadowModelID m) = Some t" by blast
  from byID_Some [OF this] assms(4) show False by (metis imageI)
qed

text \<open>C39.
  Removing a model that a group shadows, and that is a member of no group, is refused, in every valid
  configuration: the verdict is that a group shadows a missing model. But the row is gone all the same,
  only the other rows are left. From then on every saving of the file fails, whatever the file system
  does, and so do the addition of any model but the removed one and the update of any row but the
  group's.\<close>

theorem refused_removal_removes:
  assumes "config_ok w mc" and "g \<in> set (Models mc)" and "Kind g = KindGroup" and "ShadowModelID g = b"
    and "b \<noteq> []" and "list_all (\<lambda>m. \<not> has_member b m) (Models mc)" and "RemoveModel w b mc = (v, mc')"
  shows "(\<exists>g' \<in> set (Models mc). Kind g' = KindGroup \<and> ShadowModelID g' = b \<and>
            v = Invalid (ModelError (ID g') (ShadowMissing b))) \<and>
         GetModelNative mc b \<noteq> None \<and> Models mc' = filter (\<lambda>m. ID m \<noteq> b) (Models mc) \<and>
         (\<forall>io_ok. fst (fst (Save w io_ok mc')) \<noteq> Valid \<and> \<not> snd (fst (Save w io_ok mc'))) \<and>
         (\<forall>m. ID m \<noteq> b \<longrightarrow> fst (AddModel w m mc') \<noteq> Valid \<and> snd (AddModel w m mc') = mc') \<and>
         (\<forall>i m. i \<noteq> ID g \<longrightarrow> fst (UpdateModel w i m mc') \<noteq> Valid \<and> snd (UpdateModel w i m mc') = mc')"
proof -
  have d: "distinct (map ID (Models mc))" using assms(1) by (simp add: config_ok_def)
  have row: "validate_row (map ID_c (all_credentials w (Credentials_mc mc)))
      (credential_of w (Credentials_mc mc)) (Models mc) m = None" if "m \<in> set (Models mc)" for m
    using config_ok_row [OF assms(1) that] .
  have nm: "\<not> has_member b m" if "m \<in> set (Models mc)" for m
    using assms(6) that by (simp add: list_all_iff)
  obtain t where t: "t \<in> set (Models mc)" "ID t = b"
    using validate_shadow_None(1) [OF group_row_ok(6) [OF row [OF assms(2)] assms(3)]] assms(4,5) byID_Some by blast
  have gb: "ID g \<noteq> b" using group_row_ok(2) [OF row [OF assms(2)] assms(3)] assms(4,5) by simp
  obtain k where k: "index_of b (Models mc) = Some k"
    using t index_of_None [of b "Models mc"] by (cases "index_of b (Models mc)") auto
  let ?ms = "filter (\<lambda>m. ID m \<noteq> b) (Models mc)"
  let ?bad = "\<lambda>m. Kind m = KindGroup \<and> ShadowModelID m = b \<and> b \<noteq> []"
  have g: "g \<in> set ?ms" "b \<notin> ID ` set ?ms" using assms(2) gb by auto
  have "\<exists>m \<in> set ?ms. ?bad m \<and>
      row_loop (validate_row (map ID_c (all_credentials w (Credentials_mc mc)))
        (credential_of w (Credentials_mc mc)) ?ms) ?ms = Some (ModelError (ID m) (ShadowMissing b))"
  proof (rule row_loop_first)
    show "\<exists>m \<in> set ?ms. ?bad m" using g(1) assms(3,4,5) by blast
  qed (use validate_row_removed [OF row d nm] in simp)
  then obtain g' where g': "g' \<in> set (Models mc)" "Kind g' = KindGroup" "ShadowModelID g' = b"
      "Validate w (mc\<lparr>Models := ?ms\<rparr>) = Invalid (ModelError (ID g') (ShadowMissing b))"
    by (auto simp: Validate_def)
  have "List.find (has_member b) (Models mc) = None" using nm by (auto simp: find_None_iff)
  then have rm: "v = Invalid (ModelError (ID g') (ShadowMissing b))" "mc' = mc\<lparr>Models := ?ms\<rparr>"
    using assms(7) k g'(4) index_of_filter [OF d k] by (simp_all add: RemoveModel_def Let_def)
  have bad: "Validate w (mc'\<lparr>Models := ms\<rparr>) \<noteq> Valid"
    if "x \<in> set ms" "Kind x = KindGroup" "ShadowModelID x = b" "b \<notin> ID ` set ms" for ms x
    using dangling_shadow_invalid [of x "mc'\<lparr>Models := ms\<rparr>"] that assms(5) by simp
  have m': "Models mc' = ?ms" using rm(2) by simp
  have save: "Validate w (mc'\<lparr>Models := map (\<lambda>m. m\<lparr>Internal := True\<rparr>) ?ms\<rparr>) \<noteq> Valid"
    by (rule bad [of "g\<lparr>Internal := True\<rparr>"]) (use g assms(3,4) in auto)
  have save': "fst (fst (Save w io_ok mc')) \<noteq> Valid \<and> \<not> snd (fst (Save w io_ok mc'))" for io_ok
    using save by (simp add: Save_def Let_def m' Validate_def snapshotForValidation_def cong: option.case_cong)
  have add: "fst (AddModel w m mc') \<noteq> Valid \<and> snd (AddModel w m mc') = mc'" if "ID m \<noteq> b" for m
  proof -
    have "Validate w (mc'\<lparr>Models := Models mc' @ [m\<lparr>Internal := True\<rparr>]\<rparr>) \<noteq> Valid"
      by (rule bad [of g]) (use g assms(3,4) that m' in auto)
    then show ?thesis by (auto simp: AddModel_def Let_def split: verdict.splits)
  qed
  have upd: "fst (UpdateModel w i m mc') \<noteq> Valid \<and> snd (UpdateModel w i m mc') = mc'" if "i \<noteq> ID g" for i m
  proof -
    have "Validate w (mc'\<lparr>Models := (Models mc')[j := m\<lparr>Internal := True\<rparr>]\<rparr>) \<noteq> Valid"
      if j: "index_of i (Models mc') = Some j" "ID m = i" for j
    proof (rule bad [of g])
      have "i \<noteq> b" using j(1) g(2) index_of_Some [OF j(1)] m' by (metis image_eqI nth_mem)
      then show "b \<notin> ID ` set ((Models mc')[j := m\<lparr>Internal := True\<rparr>])"
        using g(2) m' j(2) set_update_subset_insert [of "Models mc'" j] by fastforce
      obtain n where n: "n < length (Models mc')" "Models mc' ! n = g" using g(1) m' by (metis in_set_conv_nth)
      then have "n \<noteq> j" using index_of_Some [OF j(1)] \<open>i \<noteq> ID g\<close> by auto
      then show "g \<in> set ((Models mc')[j := m\<lparr>Internal := True\<rparr>])"
        using n by (metis length_list_update nth_list_update_neq nth_mem)
    qed (use assms(3,4) in auto)
    then show ?thesis by (auto simp: UpdateModel_def Let_def split: verdict.splits option.splits)
  qed
  have nat: "GetModelNative mc b \<noteq> None" using t by (auto simp: GetModelNative_def find_model_None)
  show ?thesis using g'(1-3) rm(1) m' nat save' add upd by blast
qed

theorem refused_removal_removes_witness:
  "let mc = ex_config [ex_model ''a'' [''c1''], ex_model ''b'' [''c1''], ex_group_row ''grp'' ''a'' ''b''] [ex_cred ''c1'' ''openai'']
   in fst (AddModel ex_world (ex_model ''n'' [''c1'']) (snd (RemoveModel ex_world ''b'' mc))) \<noteq> Valid
    \<and> \<not> snd (fst (Save ex_world True (snd (RemoveModel ex_world ''b'' mc))))"
proof -
  let ?mc = "ex_config [ex_model ''a'' [''c1''], ex_model ''b'' [''c1''], ex_group_row ''grp'' ''a'' ''b''] [ex_cred ''c1'' ''openai'']"
  let ?g = "ex_group_row ''grp'' ''a'' ''b''"
  have ok: "config_ok ex_world ?mc" by (simp add: ex_defs config_eval)
  have g: "?g \<in> set (Models ?mc)" "Kind ?g = KindGroup" "ShadowModelID ?g = ''b''" "''b'' \<noteq> []"
    "list_all (\<lambda>m. \<not> has_member ''b'' m) (Models ?mc)"
    by (simp_all add: ex_defs rebuildClaimsLocked_def has_member_def)
  have n: "ID (ex_model ''n'' [''c1'']) \<noteq> ''b''" by (simp add: ex_defs)
  note r = refused_removal_removes [OF ok g surjective_pairing [of "RemoveModel ex_world ''b'' ?mc"]]
  show ?thesis using r n by (simp only: Let_def) blast
qed

text \<open>Changing the provider of a credential is accepted without a look at the rows that use it: a row
  whose credentials then differ in provider makes the configuration invalid, and adding a model or
  saving fails.\<close>

theorem provider_change_breaks_rows:
  "let mc = ex_config [ex_model ''a'' [''c1'', ''c2'']] [ex_cred ''c1'' ''openai'', ex_cred ''c2'' ''openai''];
       (v, mc') = UpdateCredential ex_world ''c2'' ((ex_cred ''c2'' ''anthropic'')\<lparr>APIKey := ''k''\<rparr>) mc
   in config_ok ex_world mc \<and> v = Valid
    \<and> fst (AddModel ex_world (ex_model ''n'' [''c1'']) mc') = Invalid (ModelError ''a'' (ProviderMismatch 1))
    \<and> fst (Save ex_world True mc') = (Invalid (ModelError ''a'' (ProviderMismatch 1)), False)"
proof -
  let ?mc = "ex_config [ex_model ''a'' [''c1'', ''c2'']] [ex_cred ''c1'' ''openai'', ex_cred ''c2'' ''openai'']"
  let ?mc' = "?mc\<lparr>Credentials_mc := Some (SetCredentials [ex_cred ''c1'' ''openai'', ex_cred ''c2'' ''anthropic''])\<rparr>"
  have ok: "config_ok ex_world ?mc"
    by (simp add: ex_defs config_eval ToLower_def lower_char_def insert_commute)
  have up: "UpdateCredential ex_world ''c2'' ((ex_cred ''c2'' ''anthropic'')\<lparr>APIKey := ''k''\<rparr>) ?mc = (Valid, ?mc')"
    by (simp add: ex_defs config_eval UpdateCredential_def UpdateCredential_c_def encrypted_def)
  have add: "fst (AddModel ex_world (ex_model ''n'' [''c1'']) ?mc') = Invalid (ModelError ''a'' (ProviderMismatch 1))"
    by (simp add: ex_defs config_eval AddModel_def ToLower_def lower_char_def)
  have save: "fst (Save ex_world True ?mc') = (Invalid (ModelError ''a'' (ProviderMismatch 1)), False)"
    by (simp add: ex_defs config_eval Save_def ToLower_def lower_char_def)
  show ?thesis using ok up add save by (simp only: Let_def case_prod_conv simp_thms)
qed

text \<open>A key given as a reference to an environment variable passes validation because it expands to a
  key, but resolution hands out the reference itself.\<close>

theorem resolved_key_not_expanded:
  "let w = ex_world\<lparr>getenv := \<lambda>v. if v = ''K'' then ''sk-1'' else []\<rparr>;
       mc = ex_config [ex_model ''a'' [''c1'']] [(ex_cred ''c1'' ''openai'')\<lparr>APIKey := ''e${K}''\<rparr>]
   in config_ok w mc
    \<and> map_option (ResolveAPIKey w) (GetCredential w mc ''c1'') = Some (Some ''sk-1'')
    \<and> ResolveInternalConfig w 0 mc ''a'' = Some (''openai'', ''${K}'', ''http://u'', ''glm'')"
  by (simp add: Let_def ex_defs config_eval getShellName_def isShellSpecialVar_def isDigit_def GetCredential_def
      ResolveInternalConfig_def find_model_def PrimaryCredentialID_def ResolvePeakHourModel_def)

end
