(* ===== verification/GroupRewrite.thy ===== *)
theory GroupRewrite
  imports GroupLB ModelsConfig
begin

text \<open>
  The rewrite of a request's model list (\<open>pkg/store/database/store_group_rewrite.go\<close>,
  \<open>GroupMemberRefs\<close> of \<open>store.go\<close>, and the two callers \<open>applyGroupRewrite\<close> and
  \<open>tryGroupReentry\<close> of \<open>pkg/proxy\<close>): every entry that names a group is replaced by a member of the
  group that the group engine picks and the member's own fallback chain. The rows that the
  database holds during the call are the function \<open>native\<close> from identifiers to rows
  (\<open>GetModelNative\<close>); the calls of the engine within one rewrite share the instant \<open>now\<close> and each
  has a draw of its own, \<open>rnd n\<close>. Both selection loops of \<open>pickServableGroupMember\<close> are one
  function, \<open>pool_loop\<close>, over the operations of the pool; the argument of the loop is the number
  of attempts that are left.
\<close>

section \<open>Definitions\<close>

definition GroupMemberRefs :: "GroupMember list \<Rightarrow> MemberRef list" where
  "GroupMemberRefs ms =
     map (\<lambda>(i, mm). \<lparr>ModelID = ModelID_m mm, Weight_g = Weight_m mm, Position_g = int i,
        BackupOnly = BackupOnly_m mm\<rparr>) (enumerate 0 ms)"

definition isServableGroupMember :: "ModelConfig option \<Rightarrow> bool" where
  "isServableGroupMember row = (case row of None \<Rightarrow> False
     | Some m \<Rightarrow> Enabled m \<and> (Kind m = [] \<or> Kind m = KindChat))"

definition defaultRefs :: "MemberRef list \<Rightarrow> MemberRef list" where
  "defaultRefs refs = filter (\<lambda>r. \<not> BackupOnly r) refs"

definition backupRefs :: "MemberRef list \<Rightarrow> MemberRef list" where
  "backupRefs refs = filter BackupOnly refs"

abbreviation PoolDefault :: string where "PoolDefault \<equiv> ''default''"
abbreviation PoolBackup :: string where "PoolBackup \<equiv> ''backup''"

type_synonym pick_result = "string \<times> bool \<times> bool \<times> group_error option"

fun pool_loop ::
  "(nat \<Rightarrow> 'e \<Rightarrow> pick_result \<times> 'e) \<Rightarrow> (nat \<Rightarrow> string \<Rightarrow> 'e \<Rightarrow> 'e) \<Rightarrow> (string \<Rightarrow> bool) \<Rightarrow> nat \<Rightarrow> 'e
     \<Rightarrow> (string \<times> bool \<times> bool) option \<times> 'e" where
  "pool_loop pk excl servable 0 e = (None, e)"
| "pool_loop pk excl servable (Suc n) e =
     (case pk n e of ((m, newly, repaired, err), e1) \<Rightarrow>
        if err \<noteq> None then (None, e1)
        else if servable m then (Some (m, newly, repaired), e1)
        else pool_loop pk excl servable n (excl n m e1))"

definition default_pick :: "time \<Rightarrow> (nat \<Rightarrow> rat) \<Rightarrow> string \<Rightarrow> string \<Rightarrow> nat \<Rightarrow> Engine_g \<Rightarrow> pick_result \<times> Engine_g" where
  "default_pick now rnd g key n e = GetOrSelectWithRepair e now (rnd (2 * n)) g key"

definition default_excl :: "time \<Rightarrow> (nat \<Rightarrow> rat) \<Rightarrow> string \<Rightarrow> string \<Rightarrow> nat \<Rightarrow> string \<Rightarrow> Engine_g \<Rightarrow> Engine_g" where
  "default_excl now rnd g key n m e = snd (ExcludeAndReselect_g e now (rnd (2 * n + 1)) g key m 0)"

definition backup_pick :: "time \<Rightarrow> (nat \<Rightarrow> rat) \<Rightarrow> string \<Rightarrow> string \<Rightarrow> nat \<Rightarrow> Engine_g \<Rightarrow> pick_result \<times> Engine_g" where
  "backup_pick now rnd g key n e = PickBackupMemberWithRepair e now (rnd (2 * n)) g key"

definition backup_excl :: "time \<Rightarrow> (nat \<Rightarrow> rat) \<Rightarrow> string \<Rightarrow> string \<Rightarrow> nat \<Rightarrow> string \<Rightarrow> Engine_g \<Rightarrow> Engine_g" where
  "backup_excl now rnd g key n m e = snd (ExcludeAndBackupReselect e now (rnd (2 * n + 1)) g key m 0)"

type_synonym served_member = "string \<times> bool \<times> string \<times> bool"

definition pickServableGroupMember ::
  "(string \<Rightarrow> ModelConfig option) \<Rightarrow> time \<Rightarrow> (nat \<Rightarrow> rat) \<Rightarrow> ModelConfig \<Rightarrow> string \<Rightarrow> Engine_g
     \<Rightarrow> served_member option \<times> Engine_g" where
  "pickServableGroupMember native now rnd grp key e =
     (let refs = GroupMemberRefs (Members grp);
          e1 = (if HasGroup e (ID grp) then e else OnGroupChanged e (ID grp) refs);
          defaultPoolExhausted = (HasBackupPool e1 (ID grp) \<and> \<not> DefaultPoolHealthy e1 now (ID grp));
          servable = (\<lambda>m. isServableGroupMember (native m));
          (d, e2) = (if defaultPoolExhausted then (None, e1)
                     else pool_loop (default_pick now rnd (ID grp) key) (default_excl now rnd (ID grp) key)
                            servable (length (defaultRefs refs) + 1) e1)
      in case d of
           Some (m, newly, repaired) \<Rightarrow> (Some (m, newly, PoolDefault, repaired), e2)
         | None \<Rightarrow>
             (case pool_loop (backup_pick now rnd (ID grp) key) (backup_excl now rnd (ID grp) key)
                     servable (length (backupRefs refs) + 1) e2 of
                (Some (m, newly, repaired), e3) \<Rightarrow> (Some (m, newly, PoolBackup, repaired), e3)
              | (None, e3) \<Rightarrow> (None, e3)))"

record GroupRewriteResult =
  ModelList :: "string list"
  AnyGroup :: bool
  GroupID :: string
  MemberID :: string
  MemberNewlyBound :: bool
  MemberPool :: string
  BindingStale :: bool
  FailedGroupID :: string

definition empty_result :: GroupRewriteResult where
  "empty_result = \<lparr>ModelList = [], AnyGroup = False, GroupID = [], MemberID = [], MemberNewlyBound = False,
     MemberPool = [], BindingStale = False, FailedGroupID = []\<rparr>"

definition rewrite_entry ::
  "(string \<Rightarrow> ModelConfig option) \<Rightarrow> time \<Rightarrow> (nat \<Rightarrow> rat) \<Rightarrow> string \<Rightarrow> string
     \<Rightarrow> GroupRewriteResult \<times> Engine_g \<Rightarrow> GroupRewriteResult \<times> Engine_g" where
  "rewrite_entry native now rnd key entry = (\<lambda>(res, e).
     case native entry of
       None \<Rightarrow> (res\<lparr>ModelList := ModelList res @ [entry]\<rparr>, e)
     | Some row \<Rightarrow>
         if \<not> IsGroup row then (res\<lparr>ModelList := ModelList res @ [entry]\<rparr>, e)
         else (case pickServableGroupMember native now rnd row key e of
             (None, e') \<Rightarrow> (res\<lparr>AnyGroup := True, FailedGroupID := ID row\<rparr>, e')
           | (Some (member, newly, pool, stale), e') \<Rightarrow>
               (case native member of
                  None \<Rightarrow> (res\<lparr>AnyGroup := True, FailedGroupID := ID row\<rparr>, e')
                | Some memberRow \<Rightarrow>
                    let res1 = res\<lparr>AnyGroup := True,
                          ModelList := ModelList res @ [ID memberRow] @ FallbackChain memberRow\<rparr>
                    in (if GroupID res = [] then
                          res1\<lparr>GroupID := ID row, MemberID := ID memberRow, MemberNewlyBound := newly,
                               MemberPool := pool, BindingStale := stale\<rparr>
                        else res1, e'))))"

fun rewrite_loop ::
  "(string \<Rightarrow> ModelConfig option) \<Rightarrow> time \<Rightarrow> (nat \<Rightarrow> nat \<Rightarrow> rat) \<Rightarrow> string \<Rightarrow> string list
     \<Rightarrow> GroupRewriteResult \<times> Engine_g \<Rightarrow> GroupRewriteResult \<times> Engine_g" where
  "rewrite_loop native now rnd key [] acc = acc"
| "rewrite_loop native now rnd key (entry # es) acc =
     rewrite_loop native now rnd key es (rewrite_entry native now (rnd (length es)) key entry acc)"

definition RewriteGroupEntries ::
  "(string \<Rightarrow> ModelConfig option) \<Rightarrow> time \<Rightarrow> (nat \<Rightarrow> nat \<Rightarrow> rat) \<Rightarrow> string list \<Rightarrow> string \<Rightarrow> Engine_g
     \<Rightarrow> GroupRewriteResult \<times> Engine_g" where
  "RewriteGroupEntries native now rnd modelList key e =
     rewrite_loop native now rnd key modelList (empty_result, e)"

definition pickServableBackup ::
  "(string \<Rightarrow> ModelConfig option) \<Rightarrow> time \<Rightarrow> (nat \<Rightarrow> rat) \<Rightarrow> string \<Rightarrow> string \<Rightarrow> Engine_g
     \<Rightarrow> string option \<times> Engine_g" where
  "pickServableBackup native now rnd g key e =
     (case PickBackupMember_g e now (rnd 1) g key of
        ((bPick, _, err), e1) \<Rightarrow>
          if err \<noteq> None \<or> bPick = [] then (None, e1)
          else if isServableGroupMember (native bPick) then (Some bPick, e1)
          else (case ExcludeAndBackupReselect e1 now (rnd 2) g key bPick 0 of
                  ((replacement, mode), e2) \<Rightarrow>
                    if replacement = [] \<or> mode = ReselectNone_g then (None, e2)
                    else (Some replacement, e2)))"

definition ExcludeGroupMember ::
  "(string \<Rightarrow> ModelConfig option) \<Rightarrow> time \<Rightarrow> (nat \<Rightarrow> rat) \<Rightarrow> string \<Rightarrow> string \<Rightarrow> string \<Rightarrow> Engine_g
     \<Rightarrow> (string \<times> string) option \<times> Engine_g" where
  "ExcludeGroupMember native now rnd g key member e =
     (case ExcludeAndReselect_g e now (rnd 0) g key member 0 of
        ((info, mode), e1) \<Rightarrow>
          if mode = ReselectHealthy_g \<and> info \<noteq> [] then (Some (info, PoolDefault), e1)
          else if mode = ReselectSoonestExpiry_g \<and> info \<noteq> [] \<and> \<not> HasBackupPool e1 g
            then (Some (info, PoolDefault), e1)
          else (case pickServableBackup native now rnd g key e1 of
                  (Some bPick, e2) \<Rightarrow> (Some (bPick, PoolBackup), e2)
                | (None, e2) \<Rightarrow> (None, e2)))"

text \<open>The two callers in the proxy: the rewrite before dispatch and the single re-entry.\<close>

record groupPickInfo =
  pick_GroupID :: string
  pick_MemberID :: string
  pick_NewlyBound :: bool
  pick_Pool :: string
  pick_BindingStale :: bool

definition applyGroupRewrite ::
  "(string \<Rightarrow> ModelConfig option) \<Rightarrow> time \<Rightarrow> (nat \<Rightarrow> nat \<Rightarrow> rat) \<Rightarrow> string list \<Rightarrow> string \<Rightarrow> Engine_g
     \<Rightarrow> (string list \<times> groupPickInfo option \<times> string) \<times> Engine_g" where
  "applyGroupRewrite native now rnd modelList key e =
     (case RewriteGroupEntries native now rnd modelList key e of
        (res, e') \<Rightarrow>
          if FailedGroupID res \<noteq> [] then (([], None, FailedGroupID res), e')
          else if \<not> AnyGroup res then ((modelList, None, []), e')
          else ((ModelList res,
                 Some \<lparr>pick_GroupID = GroupID res, pick_MemberID = MemberID res,
                   pick_NewlyBound = MemberNewlyBound res,
                   pick_Pool = (if MemberPool res = [] then PoolDefault else MemberPool res),
                   pick_BindingStale = BindingStale res\<rparr>, []), e'))"

definition tryGroupReentry ::
  "(string \<Rightarrow> ModelConfig option) \<Rightarrow> time \<Rightarrow> (nat \<Rightarrow> rat) \<Rightarrow> (nat \<Rightarrow> nat \<Rightarrow> rat) \<Rightarrow> string list \<Rightarrow> string
     \<Rightarrow> groupPickInfo \<Rightarrow> Engine_g \<Rightarrow> (string list \<times> groupPickInfo) option \<times> Engine_g" where
  "tryGroupReentry native now rnd rnd' modelListOriginal key info e =
     (case ExcludeGroupMember native now rnd (pick_GroupID info) key (pick_MemberID info) e of
        (None, e1) \<Rightarrow> (None, e1)
      | (Some (replacement, pool), e1) \<Rightarrow>
          if replacement = [] then (None, e1)
          else (case applyGroupRewrite native now rnd' modelListOriginal key e1 of
                  ((newList, Some info', failGroup), e2) \<Rightarrow>
                    if failGroup \<noteq> [] then (None, e2) else (Some (newList, info'), e2)
                | ((newList, None, failGroup), e2) \<Rightarrow> (None, e2)))"

section \<open>The retry loop over a pool\<close>

text \<open>What the loop needs of a pool: a pick returns a candidate as long as a good member is left,
  and excluding a stale pick takes it out of the candidates and leaves every other good member.\<close>

locale stale_retry =
  fixes pk :: "nat \<Rightarrow> 'e \<Rightarrow> pick_result \<times> 'e" and excl :: "nat \<Rightarrow> string \<Rightarrow> 'e \<Rightarrow> 'e"
    and inv :: "'e \<Rightarrow> bool" and good :: "'e \<Rightarrow> string set" and cand :: "'e \<Rightarrow> string set"
  assumes cand_finite: "inv e \<Longrightarrow> finite (cand e)"
    and pick_law: "inv e \<Longrightarrow> m \<in> good e \<Longrightarrow> pk n e = ((p, newly, repaired, err), e') \<Longrightarrow>
      err = None \<and> p \<in> cand e' \<and> inv e' \<and> good e' = good e \<and> cand e' \<subseteq> cand e"
    and excl_law: "inv e \<Longrightarrow> m \<in> good e \<Longrightarrow> p \<in> cand e \<Longrightarrow> m \<noteq> p \<Longrightarrow>
      inv (excl n p e) \<and> m \<in> good (excl n p e) \<and> cand (excl n p e) \<subseteq> cand e - {p}"
begin

lemma loop_finds:
  assumes "inv e" "m \<in> good e" "servable m" "card {p \<in> cand e. \<not> servable p} < n"
  shows "\<exists>p newly repaired. fst (pool_loop pk excl servable n e) = Some (p, newly, repaired)
    \<and> servable p \<and> p \<in> cand e"
  using assms
proof (induction n arbitrary: e)
  case (Suc n)
  obtain p newly repaired err e1 where got: "pk n e = ((p, newly, repaired, err), e1)"
    by (cases "pk n e") (metis prod_cases4)
  note law = pick_law [OF Suc.prems(1,2) got]
  show ?case
  proof (cases "servable p")
    case True
    then show ?thesis using law got by auto
  next
    case False
    then have "m \<noteq> p" using Suc.prems(3) by auto
    from excl_law [of e1 m p n] law Suc.prems(2) this
    have ex: "inv (excl n p e1)" "m \<in> good (excl n p e1)" "cand (excl n p e1) \<subseteq> cand e1 - {p}" by auto
    have "{q \<in> cand (excl n p e1). \<not> servable q} \<subset> {q \<in> cand e. \<not> servable q}"
      using ex(3) law False by blast
    then have "card {q \<in> cand (excl n p e1). \<not> servable q} < card {q \<in> cand e. \<not> servable q}"
      using cand_finite [OF Suc.prems(1)] by (intro psubset_card_mono) auto
    then have "card {q \<in> cand (excl n p e1). \<not> servable q} < n" using Suc.prems(4) by simp
    from Suc.IH [OF ex(1,2) Suc.prems(3) this] show ?thesis
      using law got False ex(3) by auto
  qed
qed simp

end

lemma pool_loop_servable:
  "fst (pool_loop pk excl servable n e) = Some (p, newly, repaired) \<Longrightarrow> servable p"
  by (induction n arbitrary: e) (auto split: prod.splits if_splits)

section \<open>The two pools keep the contract\<close>

definition good_in :: "(groupState \<Rightarrow> MemberRef list) \<Rightarrow> time \<Rightarrow> groupState \<Rightarrow> string set" where
  "good_in pool now st = {m \<in> ModelID ` set (pool st). \<not> isCoolingLocked_g st m now}"

definition bound_in :: "(groupState \<Rightarrow> (string, binding_g) fmap) \<Rightarrow> string \<Rightarrow> groupState \<Rightarrow> string option" where
  "bound_in binds key st = (if key = '''' then None else map_option memberID (fmlookup (binds st) key))"

definition cand_in ::
  "(groupState \<Rightarrow> MemberRef list) \<Rightarrow> (groupState \<Rightarrow> (string, binding_g) fmap) \<Rightarrow> time \<Rightarrow> string \<Rightarrow> groupState \<Rightarrow> string set" where
  "cand_in pool binds now key st =
     good_in pool now st \<union> {m. bound_in binds key st = Some m \<and> \<not> isCoolingLocked_g st m now}"

text \<open>What one pick, and one exclusion of \<open>p\<close>, do to a pool.\<close>

definition pick_step ::
  "(groupState \<Rightarrow> MemberRef list) \<Rightarrow> (groupState \<Rightarrow> (string, binding_g) fmap) \<Rightarrow> time \<Rightarrow> string \<Rightarrow>
   groupState \<Rightarrow> pickOutcome \<Rightarrow> groupState \<Rightarrow> bool" where
  "pick_step pool binds now key st out st' \<longleftrightarrow>
     out_err out = None \<and> out_member out \<in> cand_in pool binds now key st'
     \<and> pool st' = pool st \<and> cooldowns_g st' = cooldowns_g st
     \<and> (\<forall>x. bound_in binds key st' = Some x \<longrightarrow> bound_in binds key st = Some x \<or> x \<in> good_in pool now st)"

definition excl_step ::
  "(groupState \<Rightarrow> MemberRef list) \<Rightarrow> (groupState \<Rightarrow> (string, binding_g) fmap) \<Rightarrow> time \<Rightarrow> string \<Rightarrow>
   string \<Rightarrow> groupState \<Rightarrow> groupState \<Rightarrow> bool" where
  "excl_step pool binds now key p st st' \<longleftrightarrow>
     pool st' = pool st \<and> (\<exists>t > now. cooldowns_g st' = fmupd p t (cooldowns_g st))
     \<and> (\<forall>x. bound_in binds key st' = Some x \<longrightarrow> bound_in binds key st = Some x \<or> x \<in> good_in pool now st)"

lemma pick_step_sets:
  assumes "pick_step pool binds now key st out st'"
  shows "good_in pool now st' = good_in pool now st" "cand_in pool binds now key st' \<subseteq> cand_in pool binds now key st"
proof -
  have c: "isCoolingLocked_g st' = isCoolingLocked_g st"
    using assms by (intro cooling_frame_g) (simp add: pick_step_def)
  then show g: "good_in pool now st' = good_in pool now st"
    using assms by (simp add: good_in_def pick_step_def)
  show "cand_in pool binds now key st' \<subseteq> cand_in pool binds now key st"
    using assms by (auto simp: cand_in_def g c pick_step_def)
qed

lemma excl_step_cooling:
  "excl_step pool binds now key p st st' \<Longrightarrow>
     isCoolingLocked_g st' m now \<longleftrightarrow> m = p \<or> isCoolingLocked_g st m now"
  by (auto simp: excl_step_def isCoolingLocked_g_def split: if_splits)

lemma excl_step_sets:
  assumes "excl_step pool binds now key p st st'"
  shows "good_in pool now st' = good_in pool now st - {p}"
    "cand_in pool binds now key st' \<subseteq> cand_in pool binds now key st - {p}"
proof -
  show "good_in pool now st' = good_in pool now st - {p}"
    using assms excl_step_cooling [OF assms] by (auto simp: good_in_def excl_step_def)
  then show "cand_in pool binds now key st' \<subseteq> cand_in pool binds now key st - {p}"
    using assms excl_step_cooling [OF assms] by (auto simp: cand_in_def excl_step_def)
qed

lemma good_not_empty: "m \<in> good_in pool now st \<Longrightarrow> healthy_members st now (pool st) \<noteq> []"
  by (auto simp: good_in_def healthy_members_def filter_empty_conv)

lemma gos_pick_step:
  assumes "gs_ok st" "0 \<le> u" "u < 1" "m \<in> good_in defaultMembers now st"
  shows "pick_step defaultMembers bindings_g now key st (fst (gos_pick_g now u key stale st)) (snd (gos_pick_g now u key stale st))"
  using assms(1-3)
proof (cases rule: gos_pick_g_cases [of st u now key stale])
  case empty
  then show ?thesis using assms(4) by (simp add: good_in_def)
next
  case (fresh p)
  then show ?thesis by (auto simp: pick_step_def cand_in_def good_in_def bound_in_def isCoolingLocked_g_def)
next
  case (soonest m')
  then show ?thesis using good_not_empty [OF assms(4)] by simp
qed

lemma pick_step_weaken:
  assumes "pick_step pool binds now key s1 out st'" "pool s1 = pool st" "cooldowns_g s1 = cooldowns_g st"
    "\<And>x. bound_in binds key s1 = Some x \<Longrightarrow> bound_in binds key st = Some x"
  shows "pick_step pool binds now key st out st'"
proof -
  have c: "isCoolingLocked_g s1 = isCoolingLocked_g st" using assms(3) by (rule cooling_frame_g)
  have g: "good_in pool now s1 = good_in pool now st" by (simp add: good_in_def c assms(2))
  show ?thesis using assms g by (auto simp: pick_step_def)
qed

lemma st_getOrSelect_step:
  assumes ok: "gs_ok st" and u: "0 \<le> u" "u < 1" and m: "m \<in> good_in defaultMembers now st"
  shows "pick_step defaultMembers bindings_g now key st (fst (st_getOrSelect t now u key st)) (snd (st_getOrSelect t now u key st))"
proof -
  have full: "pick_step defaultMembers bindings_g now key st (fst (gos_full_g t now u key st)) (snd (gos_full_g t now u key st))"
  proof (cases "key = '''' \<or> fmlookup (bindings_g st) key = None")
    case True
    then have "gos_full_g t now u key st = gos_pick_g now u key False st" by (auto simp: gos_full_g_def)
    then show ?thesis using gos_pick_step [OF ok u m] by simp
  next
    case False
    then obtain b where b: "fmlookup (bindings_g st) key = Some b" "key \<noteq> ''''" by auto
    define s1 where "s1 = st\<lparr>bindings_g := fmdrop key (bindings_g st), bindingsCount_g := bindingsCount_g st - 1\<rparr>"
    have "m \<in> good_in defaultMembers now s1" using m by (simp add: good_in_def s1_def isCoolingLocked_g_def)
    moreover have "gs_ok s1" using gs_ok_unbind [OF ok b(1)] by (simp add: s1_def)
    moreover have frame: "defaultMembers s1 = defaultMembers st" "cooldowns_g s1 = cooldowns_g st"
      "bound_in bindings_g key s1 = None"
      by (simp_all add: s1_def bound_in_def)
    ultimately have "pick_step defaultMembers bindings_g now key st
        (fst (gos_pick_g now u key (\<not> memberInRefs (members st) (memberID b)) s1))
        (snd (gos_pick_g now u key (\<not> memberInRefs (members st) (memberID b)) s1))"
      by (intro pick_step_weaken [OF gos_pick_step [OF _ u]]) simp_all
    then have stale: "\<not> valid_g t now st b \<Longrightarrow> ?thesis" using b by (simp add: gos_full_g_def s1_def)
    have "valid_g t now st b \<Longrightarrow> ?thesis"
      using b by (simp add: gos_full_g_def valid_g_def pick_step_def cand_in_def bound_in_def isCoolingLocked_g_def)
    with stale show ?thesis by blast
  qed
  have hit: "pick_step defaultMembers bindings_g now key st (outcome p False False) st'"
    if "gos_read_g t now key st = Some p" "gos_hit_g t now key p st = Some st'" for p st'
    using that by (auto simp: gos_read_g_def gos_hit_g_def pick_step_def cand_in_def bound_in_def isCoolingLocked_g_def
        split: if_splits option.splits)
  show ?thesis
  proof (cases "memberCount st = 1 \<and> \<not> BackupOnly (hd (members st))")
    case True
    then obtain r where r: "members st = [r]" "\<not> BackupOnly r"
      by (auto simp: memberCount_def length_Suc_conv)
    then have "defaultMembers st = [r]" using ok by (simp add: gs_ok_def gs_inv_def)
    then have "ModelID r \<in> good_in defaultMembers now st" using m by (auto simp: good_in_def)
    then show ?thesis
      using r True by (auto simp: st_getOrSelect_def getOrSelect_sections_def pick_step_def cand_in_def)
  next
    case False
    have "memberCount st \<noteq> 0" using ok by (simp add: memberCount_def gs_ok_def gs_inv_def)
    then show ?thesis
      using False full hit
      by (auto simp: st_getOrSelect_def getOrSelect_sections_def Let_def map_prod_def
          split: option.splits prod.splits)
  qed
qed

lemma bound_default_bind:
  "bound_in bindings_g key (default_bind now key p st) = (if key = '''' then None else Some p)"
  by (simp add: bound_in_def default_bind_def)

lemma bound_backup_bind:
  "bound_in backupBindings key (backup_bind now key p st) = (if key = '''' then None else Some p)"
  by (simp add: bound_in_def backup_bind_def)

lemma reselect_step:
  assumes pool: "refs_ok (pool st)" "sel st = newWeightedSelector_g (pool st)" and u: "0 \<le> u" "u < 1"
    and bind: "\<And>p. cooldowns_g (bind now key p st) = cooldowns_g st" "\<And>p. pool (bind now key p st) = pool st"
      "\<And>p. bound_in binds key (bind now key p st) = (if key = '''' then None else Some p)"
    and r: "st' = snd (reselect_g sel pool binds bind now u key excl st)"
  shows "pool st' = pool st \<and> cooldowns_g st' = cooldowns_g st
    \<and> (\<forall>x. bound_in binds key st' = Some x \<longrightarrow> bound_in binds key st = Some x \<or> x \<in> good_in pool now st)"
proof -
  have "p \<in> good_in pool now st" if "p = pickHealthyLocked_g st now u (sel st) (pool st)" "p \<noteq> ''''" for p
  proof (cases "pool st = []")
    case True
    then show ?thesis using that pool(2) pool_choice_empty by simp
  next
    case False
    show ?thesis using pool(1) False u
      by (cases rule: pool_choice [of "pool st" u st now]) (use that pool(2) in \<open>auto simp: good_in_def\<close>)
  qed
  then show ?thesis
    using r bind by (auto simp: reselect_g_def Let_def split: option.splits prod.splits if_splits)
qed

lemma excl_step_cooled:
  assumes "0 < d" "pool (cool_down p (now + d) st) = pool st"
    "bound_in binds key (cool_down p (now + d) st) = bound_in binds key st"
    and "pool st' = pool (cool_down p (now + d) st) \<and> cooldowns_g st' = cooldowns_g (cool_down p (now + d) st)
      \<and> (\<forall>x. bound_in binds key st' = Some x \<longrightarrow> bound_in binds key (cool_down p (now + d) st) = Some x
            \<or> x \<in> good_in pool now (cool_down p (now + d) st))"
  shows "excl_step pool binds now key p st st'"
proof -
  have "good_in pool now (cool_down p (now + d) st) \<subseteq> good_in pool now st"
    using assms(1,2) by (auto simp: good_in_def isCoolingLocked_g_def cool_down_def split: if_splits)
  then show ?thesis
    using assms by (auto simp: excl_step_def cool_down_def intro!: exI [of _ "now + d"])
qed

lemma st_ExcludeAndReselect_step:
  assumes "gs_ok st" "0 \<le> u" "u < 1" "0 < d" "2 \<le> memberCount st"
  shows "excl_step defaultMembers bindings_g now key p st (snd (st_ExcludeAndReselect_g d now u key p 0 st))"
proof -
  let ?s = "cool_down p (now + d) st"
  have ok: "gs_ok ?s" using assms(1) by (simp add: gs_ok_cool_down)
  have "snd (st_ExcludeAndReselect_g d now u key p 0 st)
      = snd (reselect_g selector_g defaultMembers bindings_g default_bind now u key p ?s)"
    using assms(5) by (simp add: st_ExcludeAndReselect_g_def)
  from reselect_step [OF gs_ok_pools(1) [OF ok] gs_ok_pools(5) [OF ok] assms(2,3) _ _ bound_default_bind this]
  show ?thesis
    by (intro excl_step_cooled [OF assms(4)]) (simp_all add: cool_down_def bound_in_def default_bind_def)
qed

lemma st_ExcludeAndBackupReselect_step:
  assumes "gs_ok st" "0 \<le> u" "u < 1" "0 < d" "backupMembers st \<noteq> []"
  shows "excl_step backupMembers backupBindings now key p st (snd (st_ExcludeAndBackupReselect d now u key p 0 st))"
proof -
  let ?s = "cool_down p (now + d) st"
  have ok: "gs_ok ?s" using assms(1) by (simp add: gs_ok_cool_down)
  have has: "pbm_has st" using pbm_has_iff [OF assms(1)] assms(5) by simp
  then have sel: "backupSelector st \<noteq> None" by (auto simp: pbm_has_def sel_live_def split: option.splits)
  show ?thesis
  proof (cases "length (backupMembers st) = 1")
    case True
    then have "snd (st_ExcludeAndBackupReselect d now u key p 0 st) = ?s"
      using has sel assms(5) by (simp add: st_ExcludeAndBackupReselect_def retryAfterIf_def)
    then show ?thesis
      by (intro excl_step_cooled [OF assms(4)]) (simp_all add: cool_down_def bound_in_def)
  next
    case False
    then have "snd (st_ExcludeAndBackupReselect d now u key p 0 st)
        = snd (reselect_g backupSelector backupMembers backupBindings backup_bind now u key p ?s)"
      using has assms(5) by (simp add: st_ExcludeAndBackupReselect_def)
    from reselect_step [OF gs_ok_pools(2) [OF ok] gs_ok_pools(6) [OF ok] assms(2,3) _ _ bound_backup_bind this]
    show ?thesis
      by (intro excl_step_cooled [OF assms(4)]) (simp_all add: cool_down_def bound_in_def backup_bind_def)
  qed
qed

lemma pbm_pick_step:
  assumes "gs_ok st" "0 \<le> u" "u < 1" "m \<in> good_in backupMembers now st"
  shows "pick_step backupMembers backupBindings now key st (fst (pbm_pick now u key stale st)) (snd (pbm_pick now u key stale st))"
proof -
  have "backupMembers st \<noteq> []" using assms(4) by (auto simp: good_in_def)
  with assms(1-3) show ?thesis
  proof (cases rule: pbm_pick_cases [of st u now key stale])
    case (fresh p)
    then show ?thesis
      by (auto simp: pick_step_def cand_in_def good_in_def bound_in_def backup_bind_def isCoolingLocked_g_def)
  next
    case (soonest m')
    then show ?thesis using good_not_empty [OF assms(4)] by simp
  qed
qed

lemma st_pickBackupMember_step:
  assumes ok: "gs_ok st" and u: "0 \<le> u" "u < 1" and m: "m \<in> good_in backupMembers now st"
  shows "pick_step backupMembers backupBindings now key st (fst (st_pickBackupMember t now u key st)) (snd (st_pickBackupMember t now u key st))"
proof -
  have ne: "backupMembers st \<noteq> []" using m by (auto simp: good_in_def)
  then have has: "pbm_has st" using pbm_has_iff [OF ok] by simp
  show ?thesis
  proof (cases "pbm_fastEligible st")
    case True
    then obtain r where r: "backupMembers st = [r]" "cooldowns_g st = fmempty"
      by (auto simp: pbm_fastEligible_def length_Suc_conv)
    show ?thesis
      using True has r
      by (auto simp: st_pickBackupMember_eq Let_def pick_step_def cand_in_def bound_in_def backup_bind_def
          good_in_def isCoolingLocked_g_def backup_touch_def backup_unbind_def split: option.splits)
  next
    case slow: False
    have eq: "st_pickBackupMember t now u key st = pbm_full t now u key False st"
      using slow has ne by (simp add: st_pickBackupMember_eq)
    show ?thesis
    proof (cases "key = '''' \<or> fmlookup (backupBindings st) key = None")
      case True
      then have "pbm_full t now u key False st = pbm_pick now u key False st" using has by (auto simp: pbm_full_def)
      then show ?thesis using pbm_pick_step [OF ok u m] eq by simp
    next
      case False
      then obtain b where b: "fmlookup (backupBindings st) key = Some b" "key \<noteq> ''''" by auto
      have "m \<in> good_in backupMembers now (backup_unbind key st)"
        using m by (simp add: good_in_def isCoolingLocked_g_def backup_unbind_def)
      moreover have "gs_ok (backup_unbind key st)" by (rule gs_ok_backup_unbind [OF ok b(1)])
      moreover have frame: "backupMembers (backup_unbind key st) = backupMembers st"
        "cooldowns_g (backup_unbind key st) = cooldowns_g st" "bound_in backupBindings key (backup_unbind key st) = None"
        by (simp_all add: backup_unbind_def bound_in_def)
      ultimately have "pick_step backupMembers backupBindings now key st
          (fst (pbm_pick now u key stale (backup_unbind key st))) (snd (pbm_pick now u key stale (backup_unbind key st)))" for stale
        by (intro pick_step_weaken [OF pbm_pick_step [OF _ u]]) simp_all
      then have stale: "\<not> valid_g t now st b \<Longrightarrow> ?thesis" using b has eq by (simp add: pbm_full_def Let_def)
      have "valid_g t now st b \<Longrightarrow> ?thesis"
        using b has eq by (simp add: pbm_full_def valid_g_def pick_step_def cand_in_def bound_in_def
            backup_touch_def isCoolingLocked_g_def Let_def)
      with stale show ?thesis by blast
    qed
  qed
qed

section \<open>The pools of the engine satisfy the contract of the loop\<close>

definition draws_ok :: "(nat \<Rightarrow> rat) \<Rightarrow> bool" where
  "draws_ok rnd \<longleftrightarrow> (\<forall>n. 0 \<le> rnd n \<and> rnd n < 1)"

definition group_inv :: "(nat \<Rightarrow> rat) \<Rightarrow> string \<Rightarrow> Engine_g \<Rightarrow> bool" where
  "group_inv rnd g e \<longleftrightarrow> draws_ok rnd \<and> 0 < defaultCooldown_g e \<and> (\<exists>st. fmlookup (groups e) g = Some st \<and> gs_ok st)"

definition good_of :: "(groupState \<Rightarrow> MemberRef list) \<Rightarrow> time \<Rightarrow> string \<Rightarrow> Engine_g \<Rightarrow> string set" where
  "good_of pool now g e = (case fmlookup (groups e) g of None \<Rightarrow> {} | Some st \<Rightarrow> good_in pool now st)"

definition cand_of ::
  "(groupState \<Rightarrow> MemberRef list) \<Rightarrow> (groupState \<Rightarrow> (string, binding_g) fmap) \<Rightarrow> time \<Rightarrow> string \<Rightarrow> string \<Rightarrow> Engine_g \<Rightarrow> string set" where
  "cand_of pool binds now g key e = (case fmlookup (groups e) g of None \<Rightarrow> {} | Some st \<Rightarrow> cand_in pool binds now key st)"

lemma cand_in_card:
  "finite (cand_in pool binds now key st)" "card (cand_in pool binds now key st) \<le> card (good_in pool now st) + 1"
proof -
  have f: "finite (good_in pool now st)" by (simp add: good_in_def)
  have s: "cand_in pool binds now key st \<subseteq> good_in pool now st \<union> set_option (bound_in binds key st)"
    by (auto simp: cand_in_def)
  then show "finite (cand_in pool binds now key st)" by (rule finite_subset) (simp add: f)
  have "card (set_option (bound_in binds key st)) \<le> 1" by (cases "bound_in binds key st") simp_all
  then show "card (cand_in pool binds now key st) \<le> card (good_in pool now st) + 1"
    using card_mono [OF _ s] card_Un_le [of "good_in pool now st" "set_option (bound_in binds key st)"] f by simp
qed

lemma two_members:
  assumes "gs_ok st" "m \<in> ModelID ` set (members st)" "p \<in> ModelID ` set (members st)" "m \<noteq> p"
  shows "2 \<le> memberCount st"
proof (rule ccontr)
  assume "\<not> 2 \<le> memberCount st"
  then have "length (members st) = 0 \<or> length (members st) = 1" unfolding memberCount_def by linarith
  then show False using assms by (auto simp: length_Suc_conv)
qed

lemma cand_member:
  assumes "gs_ok st" "ModelID ` set (pool st) \<subseteq> ModelID ` set (members st)"
    "\<forall>k b. fmlookup (binds st) k = Some b \<longrightarrow> memberInRefs (members st) (memberID b)"
    and "p \<in> cand_in pool binds now key st"
  shows "p \<in> ModelID ` set (members st)"
  using assms(2-4) by (auto simp: cand_in_def good_in_def bound_in_def memberInRefs_iff split: if_splits)

interpretation default_retry: stale_retry "default_pick now rnd g key" "default_excl now rnd g key"
  "group_inv rnd g" "good_of defaultMembers now g" "cand_of defaultMembers bindings_g now g key"
  for now rnd g key
proof
  fix e :: Engine_g and m p :: string and n :: nat and newly repaired err e'
  assume inv: "group_inv rnd g e"
  then obtain st where st: "fmlookup (groups e) g = Some st" "gs_ok st" and d: "0 < defaultCooldown_g e"
    and u: "0 \<le> rnd k" "rnd k < 1" for k
    by (auto simp: group_inv_def draws_ok_def)
  show "finite (cand_of defaultMembers bindings_g now g key e)"
    using st by (simp add: cand_of_def cand_in_card)
  assume "m \<in> good_of defaultMembers now g e"
  then have m: "m \<in> good_in defaultMembers now st" using st by (simp add: good_of_def)
  {
    assume pk: "default_pick now rnd g key n e = ((p, newly, repaired, err), e')"
    obtain out st' where o: "st_getOrSelect (ttl_g e) now (rnd (2 * n)) key st = (out, st')"
      by (cases "st_getOrSelect (ttl_g e) now (rnd (2 * n)) key st")
    have s: "pick_step defaultMembers bindings_g now key st out st'" and ok': "gs_ok st'"
      using st_getOrSelect_step [OF st(2) u m, of key "ttl_g e" "2 * n"]
        gs_ok_st_getOrSelect [OF st(2) u, of "ttl_g e" now "2 * n" key] o by simp_all
    have e': "e' = e\<lparr>groups := fmupd g st' (groups e)\<rparr>" "p = out_member out" "err = out_err out"
      using pk st o by (auto simp: default_pick_def GetOrSelectWithRepair_def getOrSelect_def)
    show "err = None \<and> p \<in> cand_of defaultMembers bindings_g now g key e' \<and> group_inv rnd g e' \<and>
        good_of defaultMembers now g e' = good_of defaultMembers now g e \<and>
        cand_of defaultMembers bindings_g now g key e' \<subseteq> cand_of defaultMembers bindings_g now g key e"
      using e' s ok' inv pick_step_sets [OF s] st
      by (auto simp: cand_of_def good_of_def group_inv_def pick_step_def)
  next
    assume p: "p \<in> cand_of defaultMembers bindings_g now g key e" and ne: "m \<noteq> p"
    have "p \<in> ModelID ` set (members st)"
      using p st gs_ok_pools(3) [OF st(2)]
      by (intro cand_member [of st defaultMembers bindings_g]) (auto simp: cand_of_def gs_ok_def bindings_live_def)
    moreover have "m \<in> ModelID ` set (members st)"
      using m gs_ok_pools(3) [OF st(2)] by (auto simp: good_in_def)
    ultimately have two: "2 \<le> memberCount st" using two_members [OF st(2)] ne by blast
    define st' where "st' = snd (st_ExcludeAndReselect_g (defaultCooldown_g e) now (rnd (2 * n + 1)) key p 0 st)"
    have s: "excl_step defaultMembers bindings_g now key p st st'"
      unfolding st'_def by (rule st_ExcludeAndReselect_step [OF st(2) u d two])
    have "default_excl now rnd g key n p e = e\<lparr>groups := fmupd g st' (groups e)\<rparr>"
      using st by (simp add: default_excl_def ExcludeAndReselect_g_def st'_def case_prod_beta)
    moreover have "gs_ok st'" unfolding st'_def by (rule gs_ok_st_ExcludeAndReselect_g [OF st(2) u])
    ultimately show "group_inv rnd g (default_excl now rnd g key n p e) \<and>
        m \<in> good_of defaultMembers now g (default_excl now rnd g key n p e) \<and>
        cand_of defaultMembers bindings_g now g key (default_excl now rnd g key n p e)
          \<subseteq> cand_of defaultMembers bindings_g now g key e - {p}"
      using inv excl_step_sets [OF s] m ne st by (auto simp: group_inv_def good_of_def cand_of_def)
  }
qed

interpretation backup_retry: stale_retry "backup_pick now rnd g key" "backup_excl now rnd g key"
  "group_inv rnd g" "good_of backupMembers now g" "cand_of backupMembers backupBindings now g key"
  for now rnd g key
proof
  fix e :: Engine_g and m p :: string and n :: nat and newly repaired err e'
  assume inv: "group_inv rnd g e"
  then obtain st where st: "fmlookup (groups e) g = Some st" "gs_ok st" and d: "0 < defaultCooldown_g e"
    and u: "0 \<le> rnd k" "rnd k < 1" for k
    by (auto simp: group_inv_def draws_ok_def)
  show "finite (cand_of backupMembers backupBindings now g key e)"
    using st by (simp add: cand_of_def cand_in_card)
  assume "m \<in> good_of backupMembers now g e"
  then have m: "m \<in> good_in backupMembers now st" using st by (simp add: good_of_def)
  {
    assume pk: "backup_pick now rnd g key n e = ((p, newly, repaired, err), e')"
    obtain out st' where o: "st_pickBackupMember (ttl_g e) now (rnd (2 * n)) key st = (out, st')"
      by (cases "st_pickBackupMember (ttl_g e) now (rnd (2 * n)) key st")
    have s: "pick_step backupMembers backupBindings now key st out st'" and ok': "gs_ok st'"
      using st_pickBackupMember_step [OF st(2) u m, of key "ttl_g e" "2 * n"]
        gs_ok_st_pickBackupMember [OF st(2) u, of "ttl_g e" now "2 * n" key] o by simp_all
    have e': "e' = e\<lparr>groups := fmupd g st' (groups e)\<rparr>" "p = out_member out" "err = out_err out"
      using pk st o by (auto simp: backup_pick_def PickBackupMemberWithRepair_def pickBackupMember_def)
    show "err = None \<and> p \<in> cand_of backupMembers backupBindings now g key e' \<and> group_inv rnd g e' \<and>
        good_of backupMembers now g e' = good_of backupMembers now g e \<and>
        cand_of backupMembers backupBindings now g key e' \<subseteq> cand_of backupMembers backupBindings now g key e"
      using e' s ok' inv pick_step_sets [OF s] st
      by (auto simp: cand_of_def good_of_def group_inv_def pick_step_def)
  next
    assume p: "p \<in> cand_of backupMembers backupBindings now g key e" and ne: "m \<noteq> p"
    have ne': "backupMembers st \<noteq> []" using m by (auto simp: good_in_def)
    define st' where "st' = snd (st_ExcludeAndBackupReselect (defaultCooldown_g e) now (rnd (2 * n + 1)) key p 0 st)"
    have s: "excl_step backupMembers backupBindings now key p st st'"
      unfolding st'_def by (rule st_ExcludeAndBackupReselect_step [OF st(2) u d ne'])
    have "backup_excl now rnd g key n p e = e\<lparr>groups := fmupd g st' (groups e)\<rparr>"
      using st by (simp add: backup_excl_def ExcludeAndBackupReselect_def st'_def case_prod_beta)
    moreover have "gs_ok st'" unfolding st'_def by (rule gs_ok_st_ExcludeAndBackupReselect [OF st(2) u])
    ultimately show "group_inv rnd g (backup_excl now rnd g key n p e) \<and>
        m \<in> good_of backupMembers now g (backup_excl now rnd g key n p e) \<and>
        cand_of backupMembers backupBindings now g key (backup_excl now rnd g key n p e)
          \<subseteq> cand_of backupMembers backupBindings now g key e - {p}"
      using inv excl_step_sets [OF s] m ne st by (auto simp: group_inv_def good_of_def cand_of_def)
  }
qed

section \<open>A servable member is found\<close>

lemma pool_loop_inv:
  assumes "\<And>n e. I e \<Longrightarrow> I (snd (pk n e))" "\<And>n p e. I e \<Longrightarrow> \<not> servable p \<Longrightarrow> I (excl n p e)" "I e"
  shows "I (snd (pool_loop pk excl servable n e))"
  using assms(3)
proof (induction n arbitrary: e)
  case (Suc n)
  have "I (snd (pk n e))" by (rule assms(1) [OF Suc.prems])
  then show ?case using Suc.IH assms(2) by (auto split: prod.split)
qed simp

definition in_sync :: "Engine_g \<Rightarrow> ModelConfig \<Rightarrow> bool" where
  "in_sync e grp \<longleftrightarrow> (\<forall>st. fmlookup (groups e) (ID grp) = Some st \<longrightarrow>
     gs_ok st \<and> members st = GroupMemberRefs (Members grp))"

definition resting :: "Engine_g \<Rightarrow> string \<Rightarrow> time \<Rightarrow> string \<Rightarrow> bool" where
  "resting e g now m \<longleftrightarrow> (\<exists>st. fmlookup (groups e) g = Some st \<and> isCoolingLocked_g st m now)"

lemma GroupMemberRefs_set:
  "r \<in> set (GroupMemberRefs ms) \<Longrightarrow> \<exists>mm \<in> set ms. ModelID r = ModelID_m mm \<and> Weight_g r = Weight_m mm \<and> BackupOnly r = BackupOnly_m mm"
  by (auto simp: GroupMemberRefs_def in_set_enumerate_eq)

lemma GroupMemberRefs_mem:
  assumes "mm \<in> set ms"
  shows "\<exists>r \<in> set (GroupMemberRefs ms). ModelID r = ModelID_m mm \<and> BackupOnly r = BackupOnly_m mm"
proof -
  obtain i where "i < length ms" "ms ! i = mm" using assms by (auto simp: in_set_conv_nth)
  then have "(i, mm) \<in> set (enumerate 0 ms)" by (simp add: in_set_enumerate_eq)
  then show ?thesis by (force simp: GroupMemberRefs_def)
qed

lemma valid_group_refs:
  assumes "config_ok w mc" "grp \<in> set (Models mc)" "IsGroup grp"
  shows "refs_ok (GroupMemberRefs (Members grp))" "GroupMemberRefs (Members grp) \<noteq> []"
    "\<exists>mm \<in> set (Members grp). \<not> BackupOnly_m mm"
proof -
  note row = config_ok_row [OF assms(1,2)]
  have ml: "member_loop (byID (Models mc)) [] 0 (Members grp) = None"
    using assms(3) row by (auto simp: IsGroup_def dest: group_row_ok(5))
  then show "refs_ok (GroupMemberRefs (Members grp))"
    by (auto simp: refs_ok_def member_loop_None dest!: GroupMemberRefs_set)
  show ex: "\<exists>mm \<in> set (Members grp). \<not> BackupOnly_m mm"
    using assms(3) row by (auto simp: IsGroup_def dest: group_row_ok(4))
  then show "GroupMemberRefs (Members grp) \<noteq> []" using GroupMemberRefs_mem by fastforce
qed

text \<open>After the lazy seed the engine holds the members of the row.\<close>

lemma seeded:
  assumes "in_sync e grp" "refs_ok (GroupMemberRefs (Members grp))" "GroupMemberRefs (Members grp) \<noteq> []"
  defines "e1 \<equiv> if HasGroup e (ID grp) then e else OnGroupChanged e (ID grp) (GroupMemberRefs (Members grp))"
  obtains st where "fmlookup (groups e1) (ID grp) = Some st" "gs_ok st" "members st = GroupMemberRefs (Members grp)"
    "\<And>m. isCoolingLocked_g st m now \<Longrightarrow> resting e (ID grp) now m" "defaultCooldown_g e1 = defaultCooldown_g e"
proof (cases "HasGroup e (ID grp)")
  case True
  then obtain st where "fmlookup (groups e) (ID grp) = Some st" by (auto simp: HasGroup_def)
  then show thesis using that [of st] assms(1) True by (auto simp: e1_def in_sync_def resting_def)
next
  case False
  define st where "st = keep_bindings (\<lambda>b. memberID b \<in> set (map ModelID (GroupMemberRefs (Members grp))))
      (applyRefsLocked_g newGroupState (GroupMemberRefs (Members grp)))"
  have "gs_ok st" unfolding st_def by (rule gs_ok_changed [OF assms(3,2)]) simp
  moreover have "members st = GroupMemberRefs (Members grp)" "\<not> isCoolingLocked_g st m now" for m
    by (auto simp: st_def keep_bindings_def applyRefsLocked_g_def newGroupState_def isCoolingLocked_g_def Let_def)
  moreover have "fmlookup (groups e1) (ID grp) = Some st" "defaultCooldown_g e1 = defaultCooldown_g e"
    using False assms(3) by (auto simp: e1_def HasGroup_def OnGroupChanged_def st_def Let_def)
  ultimately show thesis using that by blast
qed

lemma card_unservable:
  assumes "gs_ok st" "m \<in> good_in pool now st" "servable m"
  shows "card {p \<in> cand_in pool binds now key st. \<not> servable p} < length (pool st) + 1"
proof -
  let ?U = "{p \<in> cand_in pool binds now key st. \<not> servable p}"
  have "?U \<subseteq> (good_in pool now st - {m}) \<union> set_option (bound_in binds key st)"
    using assms(3) by (auto simp: cand_in_def)
  then have "card ?U \<le> card (good_in pool now st - {m}) + card (set_option (bound_in binds key st))"
    by (intro order_trans [OF card_mono card_Un_le]) (auto simp: good_in_def)
  moreover have "card (set_option (bound_in binds key st)) \<le> 1" by (cases "bound_in binds key st") simp_all
  moreover have f: "finite (good_in pool now st)" by (simp add: good_in_def)
  then have "card (good_in pool now st - {m}) = card (good_in pool now st) - 1" "0 < card (good_in pool now st)"
    using assms(2) by (auto simp: card_gt_0_iff)
  moreover have "card (good_in pool now st) \<le> length (pool st)"
  proof -
    have "card (good_in pool now st) \<le> card (set (map ModelID (pool st)))"
      by (rule card_mono) (auto simp: good_in_def)
    then show ?thesis using card_length [of "map ModelID (pool st)"] by simp
  qed
  ultimately show ?thesis by linarith
qed

text \<open>The default loop does not touch what the backup loop needs.\<close>

lemma default_loop_keeps_backup:
  assumes "group_inv rnd g e" "m \<in> good_of backupMembers now g e" "servable m"
  shows "group_inv rnd g (snd (pool_loop (default_pick now rnd g key) (default_excl now rnd g key) servable n e))
    \<and> m \<in> good_of backupMembers now g (snd (pool_loop (default_pick now rnd g key) (default_excl now rnd g key) servable n e))
    \<and> (\<exists>st st'. fmlookup (groups e) g = Some st \<and> fmlookup (groups (snd (pool_loop (default_pick now rnd g key) (default_excl now rnd g key) servable n e))) g = Some st'
        \<and> backupMembers st' = backupMembers st)"
proof -
  obtain st0 where st0: "fmlookup (groups e) g = Some st0" using assms(1) by (auto simp: group_inv_def)
  define I where "I = (\<lambda>e :: Engine_g. draws_ok rnd \<and> 0 < defaultCooldown_g e \<and> (\<exists>st. fmlookup (groups e) g = Some st \<and> gs_ok st
    \<and> members st = members st0 \<and> \<not> isCoolingLocked_g st m now))"
  have frame: "members (snd (st_ExcludeAndReselect_g d now u key p 0 st)) = members st"
    "isCoolingLocked_g (snd (st_ExcludeAndReselect_g d now u key p 0 st)) m now \<longrightarrow> m = p \<or> isCoolingLocked_g st m now"
    for d u p st
    by (auto simp: st_ExcludeAndReselect_g_def reselect_g_def default_bind_def cool_down_def isCoolingLocked_g_def
        Let_def split: prod.splits option.splits if_splits)
  have "I (snd (pool_loop (default_pick now rnd g key) (default_excl now rnd g key) servable n e))"
  proof (rule pool_loop_inv)
    fix k e assume "I e"
    then obtain st where st: "fmlookup (groups e) g = Some st" "gs_ok st" "members st = members st0"
      "\<not> isCoolingLocked_g st m now" "draws_ok rnd" "0 < defaultCooldown_g e" by (auto simp: I_def)
    have u: "0 \<le> rnd i" "rnd i < 1" for i using st(5) by (auto simp: draws_ok_def)
    let ?st' = "snd (st_getOrSelect (ttl_g e) now (rnd (2 * k)) key st)"
    have "snd (default_pick now rnd g key k e) = e\<lparr>groups := fmupd g ?st' (groups e)\<rparr>"
      using st(1) by (simp add: default_pick_def GetOrSelectWithRepair_def getOrSelect_def case_prod_beta)
    moreover have "isCoolingLocked_g ?st' = isCoolingLocked_g st"
      by (rule cooling_frame_g) (simp add: gos_config_g)
    ultimately show "I (snd (default_pick now rnd g key k e))"
      using st gs_ok_st_getOrSelect [OF st(2) u] by (simp add: I_def gos_config_g)
  next
    fix k p e assume "I e" and p: "\<not> servable p"
    then obtain st where st: "fmlookup (groups e) g = Some st" "gs_ok st" "members st = members st0"
      "\<not> isCoolingLocked_g st m now" "draws_ok rnd" "0 < defaultCooldown_g e" by (auto simp: I_def)
    have u: "0 \<le> rnd i" "rnd i < 1" for i using st(5) by (auto simp: draws_ok_def)
    have "default_excl now rnd g key k p e = e\<lparr>groups := fmupd g
        (snd (st_ExcludeAndReselect_g (defaultCooldown_g e) now (rnd (2 * k + 1)) key p 0 st)) (groups e)\<rparr>"
      using st(1) by (simp add: default_excl_def ExcludeAndReselect_g_def case_prod_beta)
    moreover have "\<not> isCoolingLocked_g
        (snd (st_ExcludeAndReselect_g (defaultCooldown_g e) now (rnd (2 * k + 1)) key p 0 st)) m now"
      using frame(2) [of "defaultCooldown_g e" "rnd (2 * k + 1)" p st] assms(3) p st(4) by blast
    ultimately show "I (default_excl now rnd g key k p e)"
      using st frame(1) gs_ok_st_ExcludeAndReselect_g [OF st(2) u] by (simp add: I_def)
  next
    show "I e" using assms st0 by (auto simp: I_def group_inv_def good_of_def good_in_def)
  qed
  then show ?thesis
    using assms(2) st0 assms(1) by (auto simp: I_def group_inv_def good_of_def good_in_def gs_ok_def gs_inv_def)
qed

declare pool_loop.simps [simp del]

lemma default_pool_serves:
  assumes "group_inv rnd (ID grp) e" "fmlookup (groups e) (ID grp) = Some st" "members st = GroupMemberRefs (Members grp)"
    and "m \<in> good_in defaultMembers now st" "isServableGroupMember (native m)"
  shows "\<exists>p newly stale e'. pickServableGroupMember native now rnd grp key e = (Some (p, newly, PoolDefault, stale), e')
    \<and> isServableGroupMember (native p) \<and> p \<in> cand_in defaultMembers bindings_g now key st"
proof -
  let ?g = "ID grp" and ?sv = "\<lambda>m. isServableGroupMember (native m)" and ?refs = "GroupMemberRefs (Members grp)"
  let ?dl = "pool_loop (default_pick now rnd ?g key) (default_excl now rnd ?g key) ?sv (length (defaultRefs ?refs) + 1)"
  have ok: "gs_ok st" using assms(1,2) by (simp add: group_inv_def)
  then have pool: "defaultMembers st = defaultRefs ?refs" using assms(3) by (simp add: gs_ok_def gs_inv_def defaultRefs_def)
  have healthy: "DefaultPoolHealthy e now ?g"
    using assms(2,4) gs_ok_pools(1,5) [OF ok]
    by (auto simp: DefaultPoolHealthy_def sel_live_iff list_ex_iff good_in_def)
  have card: "card {p \<in> cand_of defaultMembers bindings_g now ?g key e. \<not> ?sv p} < length (defaultRefs ?refs) + 1"
    using card_unservable [OF ok assms(4), of ?sv bindings_g key] assms(2,5) pool by (simp add: cand_of_def)
  have "m \<in> good_of defaultMembers now ?g e" using assms(2,4) by (simp add: good_of_def)
  from default_retry.loop_finds [where servable = ?sv, OF assms(1) this _ card] assms(5)
  obtain p newly repaired where p: "fst (?dl e) = Some (p, newly, repaired)" "?sv p"
      "p \<in> cand_of defaultMembers bindings_g now ?g key e"
    by blast
  have "pickServableGroupMember native now rnd grp key e = (Some (p, newly, PoolDefault, repaired), snd (?dl e))"
    using p(1) healthy assms(2) by (cases "?dl e") (simp add: pickServableGroupMember_def HasGroup_def Let_def)
  then show ?thesis using p(2,3) assms(2) by (auto simp: cand_of_def)
qed

lemma pickServable_seeded:
  "pickServableGroupMember native now rnd grp key
      (if HasGroup e (ID grp) then e else OnGroupChanged e (ID grp) (GroupMemberRefs (Members grp)))
    = pickServableGroupMember native now rnd grp key e"
  if "GroupMemberRefs (Members grp) \<noteq> []"
proof -
  have "HasGroup (if HasGroup e (ID grp) then e else OnGroupChanged e (ID grp) (GroupMemberRefs (Members grp))) (ID grp)"
    using that by (simp add: HasGroup_def OnGroupChanged_def Let_def)
  then show ?thesis unfolding pickServableGroupMember_def Let_def by (simp only: if_True)
qed

text \<open>C5.
  A group of a valid configuration whose engine state is up to date serves every request as long
  as one of its members is servable and not cooling: the pick is a servable member, from the
  default pool whenever that member is a default one, whatever the draws are and however many other
  members have been deleted, disabled or retyped since.\<close>

theorem rewrite_finds_servable_member:
  assumes "config_ok w mc" "grp \<in> set (Models mc)" "IsGroup grp"
    and "in_sync e grp" "0 < defaultCooldown_g e" "draws_ok rnd"
    and "mm \<in> set (Members grp)" "isServableGroupMember (native (ModelID_m mm))"
    and "\<not> resting e (ID grp) now (ModelID_m mm)"
  shows "\<exists>p newly pool stale e'. pickServableGroupMember native now rnd grp key e = (Some (p, newly, pool, stale), e')
    \<and> isServableGroupMember (native p) \<and> (\<not> BackupOnly_m mm \<longrightarrow> pool = PoolDefault)"
proof -
  let ?refs = "GroupMemberRefs (Members grp)" and ?g = "ID grp" and ?sv = "\<lambda>m. isServableGroupMember (native m)"
  let ?dl = "pool_loop (default_pick now rnd ?g key) (default_excl now rnd ?g key) ?sv (length (defaultRefs ?refs) + 1)"
  let ?bl = "pool_loop (backup_pick now rnd ?g key) (backup_excl now rnd ?g key) ?sv (length (backupRefs ?refs) + 1)"
  define m where "m = ModelID_m mm"
  define e1 where "e1 = (if HasGroup e ?g then e else OnGroupChanged e ?g ?refs)"
  obtain st where st: "fmlookup (groups e1) ?g = Some st" "gs_ok st" "members st = ?refs"
    "\<And>x. isCoolingLocked_g st x now \<Longrightarrow> resting e ?g now x" "defaultCooldown_g e1 = defaultCooldown_g e"
    using seeded [OF assms(4) valid_group_refs(1,2) [OF assms(1-3)], of now] unfolding e1_def by blast
  have inv: "group_inv rnd ?g e1" using st assms(5,6) by (simp add: group_inv_def)
  have pools: "defaultMembers st = defaultRefs ?refs" "backupMembers st = backupRefs ?refs"
    using st(2,3) by (simp_all add: gs_ok_def gs_inv_def defaultRefs_def backupRefs_def)
  have cool: "\<not> isCoolingLocked_g st m now" using st(4) assms(9) by (auto simp: m_def)
  obtain r where r: "r \<in> set ?refs" "ModelID r = m" "BackupOnly r = BackupOnly_m mm"
    using GroupMemberRefs_mem [OF assms(7)] by (auto simp: m_def)
  define ex where "ex = (HasBackupPool e1 ?g \<and> \<not> DefaultPoolHealthy e1 now ?g)"
  have unfold: "pickServableGroupMember native now rnd grp key e =
      (let (d, e2) = (if ex then (None, e1) else ?dl e1)
       in case d of Some (m, newly, repaired) \<Rightarrow> (Some (m, newly, PoolDefault, repaired), e2)
         | None \<Rightarrow> (case ?bl e2 of
             (Some (m, newly, repaired), e3) \<Rightarrow> (Some (m, newly, PoolBackup, repaired), e3)
           | (None, e3) \<Rightarrow> (None, e3)))"
    by (simp add: pickServableGroupMember_def Let_def e1_def ex_def)
  show ?thesis
  proof (cases "BackupOnly_m mm")
    case False
    then have good: "m \<in> good_in defaultMembers now st"
      using r cool by (auto simp: good_in_def pools defaultRefs_def intro!: rev_image_eqI [of r])
    from default_pool_serves [OF inv st(1,3) this] assms(8)
    obtain p newly stale e' where "pickServableGroupMember native now rnd grp key e1 = (Some (p, newly, PoolDefault, stale), e')"
        "?sv p"
      unfolding m_def by blast
    then show ?thesis
      using pickServable_seeded [OF valid_group_refs(2) [OF assms(1-3)]] unfolding e1_def by auto
  next
    case True
    have good: "m \<in> good_in backupMembers now st"
      using r cool True by (auto simp: good_in_def pools backupRefs_def intro!: rev_image_eqI [of r])
    show ?thesis
    proof (cases "\<not> ex \<and> fst (?dl e1) \<noteq> None")
      case True
      then obtain p newly repaired where "fst (?dl e1) = Some (p, newly, repaired)" by auto
      moreover from this have "?sv p" by (rule pool_loop_servable)
      ultimately show ?thesis using True \<open>BackupOnly_m mm\<close> by (cases "?dl e1") (auto simp: unfold)
    next
      case False
      define e2 where "e2 = (if ex then e1 else snd (?dl e1))"
      have e2: "group_inv rnd ?g e2 \<and> m \<in> good_of backupMembers now ?g e2
          \<and> (\<exists>st2. fmlookup (groups e2) ?g = Some st2 \<and> backupMembers st2 = backupMembers st)"
        using default_loop_keeps_backup [OF inv, of m now ?sv key] good assms(8) st(1) inv
        by (auto simp: e2_def good_of_def m_def)
      then obtain st2 where st2: "fmlookup (groups e2) ?g = Some st2" "backupMembers st2 = backupMembers st" by blast
      have card: "card {p \<in> cand_of backupMembers backupBindings now ?g key e2. \<not> ?sv p} < length (backupRefs ?refs) + 1"
        using card_unservable [of st2 m backupMembers now ?sv backupBindings key] e2 assms(8) st2 pools(2)
        by (auto simp: cand_of_def m_def good_of_def group_inv_def)
      have "group_inv rnd ?g e2" "m \<in> good_of backupMembers now ?g e2" using e2 by auto
      from backup_retry.loop_finds [where servable = ?sv, OF this _ card] assms(8)
      obtain p newly repaired where "fst (?bl e2) = Some (p, newly, repaired)" "?sv p"
        unfolding m_def by blast
      moreover have "pickServableGroupMember native now rnd grp key e =
          (case ?bl e2 of (Some (m, newly, repaired), e3) \<Rightarrow> (Some (m, newly, PoolBackup, repaired), e3)
           | (None, e3) \<Rightarrow> (None, e3))"
      proof -
        have "(if ex then (None, e1) else ?dl e1) = (None, e2)"
          using False by (cases ex) (simp_all add: e2_def prod_eq_iff del: not_None_eq)
        then show ?thesis unfolding unfold by simp
      qed
      ultimately show ?thesis using \<open>BackupOnly_m mm\<close> by (cases "?bl e2") auto
    qed
  qed
qed

lemma new_engine_in_sync: "in_sync (NewEngine_g a b c) grp" "\<not> resting (NewEngine_g a b c) g now m"
  "0 < defaultCooldown_g (NewEngine_g a b c)"
  by (auto simp: in_sync_def resting_def NewEngine_g_def DefaultCooldown_g_def)

abbreviation ex_conf :: ModelsConfig where
  "ex_conf \<equiv> ex_config [ex_model ''coding'' [''c1''], ex_group_row ''grp'' ''coding'' ''coding''] [ex_cred ''c1'' ''openai'']"

lemma ex_conf_group: "ex_group_row ''grp'' ''coding'' ''coding'' \<in> set (Models ex_conf)" "IsGroup (ex_group_row i j k)"
  "ID (ex_group_row i j k) = i" "Members (ex_group_row i j k) = [\<lparr>ModelID_m = j, Weight_m = 1, BackupOnly_m = False\<rparr>]"
  by (simp_all add: ex_config_def ex_group_row_def ex_model_def IsGroup_def rebuildClaimsLocked_def)

theorem rewrite_finds_servable_member_witness:
  "\<exists>p newly pool stale e'. pickServableGroupMember (find_model ex_conf) 0 (\<lambda>_. 0) (ex_group_row ''grp'' ''coding'' ''coding'')
     ''k'' (NewEngine_g 0 0 0) = (Some (p, newly, pool, stale), e') \<and> isServableGroupMember (find_model ex_conf p)"
proof -
  have "isServableGroupMember (find_model ex_conf ''coding'')"
    by (simp add: ex_row isServableGroupMember_def) (simp add: ex_model_def)
  then show ?thesis
    using rewrite_finds_servable_member [OF ex_config_ok ex_conf_group(1,2) new_engine_in_sync(1,3), of "\<lambda>_. 0"
        "\<lparr>ModelID_m = ''coding'', Weight_m = 1, BackupOnly_m = False\<rparr>" "find_model ex_conf" 0 0 0 0 "''k''"]
      new_engine_in_sync(2)
    by (simp add: draws_ok_def ex_conf_group) blast
qed

section \<open>The execution list\<close>

lemma picked_servable:
  assumes "pickServableGroupMember native now rnd grp key e = (Some (p, newly, pool, stale), e')"
  shows "isServableGroupMember (native p)"
  using assms
  by (auto simp: pickServableGroupMember_def Let_def split: option.splits prod.splits if_splits
      dest!: arg_cong [of _ _ fst] pool_loop_servable)

definition is_group_entry :: "(string \<Rightarrow> ModelConfig option) \<Rightarrow> string \<Rightarrow> bool" where
  "is_group_entry native i \<longleftrightarrow> (\<exists>row. native i = Some row \<and> IsGroup row)"

text \<open>Where an entry of the rewritten list may come from.\<close>

definition justified :: "(string \<Rightarrow> ModelConfig option) \<Rightarrow> string list \<Rightarrow> string \<Rightarrow> bool" where
  "justified native modelList x \<longleftrightarrow>
     (x \<in> set modelList \<and> \<not> is_group_entry native x)
     \<or> (\<exists>m row. native m = Some row \<and> isServableGroupMember (Some row) \<and> (x = ID row \<or> x \<in> set (FallbackChain row)))"

lemma rewrite_entry_cases:
  obtains (plain) "\<not> is_group_entry native entry"
      "rewrite_entry native now rnd key entry (res, e) = (res\<lparr>ModelList := ModelList res @ [entry]\<rparr>, e)"
  | (failed) row e' where "native entry = Some row" "IsGroup row"
      "rewrite_entry native now rnd key entry (res, e) = (res\<lparr>AnyGroup := True, FailedGroupID := ID row\<rparr>, e')"
  | (served) row m mrow res' e' where "native entry = Some row" "IsGroup row" "native m = Some mrow" "isServableGroupMember (Some mrow)"
      "rewrite_entry native now rnd key entry (res, e) = (res', e')" "AnyGroup res'" "FailedGroupID res' = FailedGroupID res"
      "ModelList res' = ModelList res @ [ID mrow] @ FallbackChain mrow"
      "GroupID res = [] \<longrightarrow> GroupID res' = ID row \<and> MemberID res' = ID mrow"
proof (cases "is_group_entry native entry")
  case False
  then have "rewrite_entry native now rnd key entry (res, e) = (res\<lparr>ModelList := ModelList res @ [entry]\<rparr>, e)"
    by (auto simp: is_group_entry_def rewrite_entry_def split: option.split)
  then show thesis using plain False by blast
next
  case True
  then obtain row where row: "native entry = Some row" "IsGroup row" by (auto simp: is_group_entry_def)
  obtain sel e' where pk: "pickServableGroupMember native now rnd row key e = (sel, e')"
    by (cases "pickServableGroupMember native now rnd row key e")
  show thesis
  proof (cases sel)
    case None
    then show thesis using failed [OF row, of e'] row pk by (simp add: rewrite_entry_def)
  next
    case (Some a)
    then obtain m newly pool stale where a: "sel = Some (m, newly, pool, stale)" by (cases a) auto
    then have sv: "isServableGroupMember (native m)" using picked_servable pk by blast
    then obtain mrow where m: "native m = Some mrow" by (cases "native m") (auto simp: isServableGroupMember_def)
    define res' where "res' = fst (rewrite_entry native now rnd key entry (res, e))"
    show thesis
      by (rule served [OF row m, of res' e']) (use sv m row pk a in \<open>auto simp: res'_def rewrite_entry_def Let_def\<close>)
  qed
qed

lemma rewrite_loop_sound:
  assumes "rewrite_loop native now rnd key es (res, e) = (res', e')"
    and "\<forall>x \<in> set (ModelList res). justified native ml x" "set es \<subseteq> set ml"
  shows "(\<forall>x \<in> set (ModelList res'). justified native ml x)
    \<and> (AnyGroup res' \<longleftrightarrow> AnyGroup res \<or> (\<exists>x \<in> set es. is_group_entry native x))
    \<and> (FailedGroupID res' = FailedGroupID res \<or>
         (\<exists>x \<in> set es. \<exists>row. native x = Some row \<and> IsGroup row \<and> FailedGroupID res' = ID row))"
  using assms
proof (induction es arbitrary: res e)
  case (Cons entry es)
  obtain res1 e1 where r: "rewrite_entry native now (rnd (length es)) key entry (res, e) = (res1, e1)"
    by (cases "rewrite_entry native now (rnd (length es)) key entry (res, e)")
  have loop: "rewrite_loop native now rnd key es (res1, e1) = (res', e')" using Cons.prems(1) r by simp
  show ?case
  proof (cases rule: rewrite_entry_cases [of native entry now "rnd (length es)" key res e])
    case plain
    then have "\<forall>x \<in> set (ModelList res1). justified native ml x"
      using r Cons.prems(2,3) by (auto simp: justified_def)
    from Cons.IH [OF loop this] Cons.prems(3) show ?thesis using plain r by auto
  next
    case (failed row e')
    then have "\<forall>x \<in> set (ModelList res1). justified native ml x" using r Cons.prems(2) by auto
    from Cons.IH [OF loop this] Cons.prems(3) failed r show ?thesis by (auto simp: is_group_entry_def)
  next
    case (served row m mrow res' e')
    then have "justified native ml x" if "x = ID mrow \<or> x \<in> set (FallbackChain mrow)" for x
      using that by (auto simp: justified_def)
    then have "\<forall>x \<in> set (ModelList res1). justified native ml x" using r served Cons.prems(2) by auto
    from Cons.IH [OF loop this] Cons.prems(3) served r show ?thesis by (auto simp: is_group_entry_def)
  qed
qed simp

text \<open>C18.
  Every entry of the rewritten list is an entry of the request that names no group, a member that
  is servable at that moment, or an entry of such a member's own chain; the list is replaced
  exactly when it has a group; and the only reported failure is a group of the request that could
  not be served.\<close>

theorem rewritten_list_sound:
  assumes "applyGroupRewrite native now rnd modelList key e = ((newList, info, failed), e')"
  shows "(info \<noteq> None \<longrightarrow> (\<forall>x \<in> set newList. justified native modelList x))
    \<and> (info = None \<and> failed = [] \<longleftrightarrow> \<not> (\<exists>x \<in> set modelList. is_group_entry native x))
    \<and> (info = None \<and> failed = [] \<longrightarrow> newList = modelList)
    \<and> (failed \<noteq> [] \<longrightarrow> newList = [] \<and> info = None
         \<and> (\<exists>x \<in> set modelList. \<exists>row. native x = Some row \<and> IsGroup row \<and> failed = ID row))"
proof -
  obtain res where r: "RewriteGroupEntries native now rnd modelList key e = (res, e')"
    using assms by (auto simp: applyGroupRewrite_def split: prod.splits if_splits)
  note snd = rewrite_loop_sound [OF r [unfolded RewriteGroupEntries_def], of modelList]
  then have "\<forall>x \<in> set (ModelList res). justified native modelList x"
    "AnyGroup res \<longleftrightarrow> (\<exists>x \<in> set modelList. is_group_entry native x)"
    "FailedGroupID res \<noteq> [] \<longrightarrow> (\<exists>x \<in> set modelList. \<exists>row. native x = Some row \<and> IsGroup row \<and> FailedGroupID res = ID row)"
    by (auto simp: empty_result_def)
  then show ?thesis using assms r
    by (auto simp: applyGroupRewrite_def is_group_entry_def split: if_splits)
qed

text \<open>A group with one member, evaluated: the engine answers from its single-member path.\<close>

lemma single_member_pick:
  assumes "Members grp = [\<lparr>ModelID_m = m, Weight_m = 1, BackupOnly_m = False\<rparr>]" "isServableGroupMember (native m)"
  shows "fst (pickServableGroupMember native now rnd grp key (NewEngine_g 0 0 0)) = Some (m, False, PoolDefault, False)"
proof -
  have r: "GroupMemberRefs (Members grp) = [\<lparr>ModelID = m, Weight_g = 1, Position_g = 0, BackupOnly = False\<rparr>]"
    by (simp add: assms(1) GroupMemberRefs_def)
  show ?thesis
    using assms(2)
    by (simp add: pickServableGroupMember_def r HasGroup_def NewEngine_g_def OnGroupChanged_def Let_def
        HasBackupPool_def applyRefsLocked_g_def newGroupState_def keep_bindings_def newWeightedSelector_g_def
        sel_live_def defaultRefs_def pool_loop.simps default_pick_def GetOrSelectWithRepair_def getOrSelect_def
        st_getOrSelect_def getOrSelect_sections_def memberCount_def)
qed

lemma single_member_rewrite:
  assumes "native g = Some grp" "IsGroup grp" "Members grp = [\<lparr>ModelID_m = m, Weight_m = 1, BackupOnly_m = False\<rparr>]"
    "native m = Some row" "isServableGroupMember (Some row)"
  shows "fst (RewriteGroupEntries native now rnd [g] key (NewEngine_g 0 0 0)) =
     \<lparr>ModelList = ID row # FallbackChain row, AnyGroup = True, GroupID = ID grp, MemberID = ID row,
      MemberNewlyBound = False, MemberPool = PoolDefault, BindingStale = False, FailedGroupID = []\<rparr>"
proof -
  obtain e' where "pickServableGroupMember native now (rnd 0) grp key (NewEngine_g 0 0 0) = (Some (m, False, PoolDefault, False), e')"
    using single_member_pick [OF assms(3), of native now "rnd 0" key] assms(4,5)
    by (cases "pickServableGroupMember native now (rnd 0) grp key (NewEngine_g 0 0 0)") auto
  then show ?thesis
    using assms by (simp add: RewriteGroupEntries_def rewrite_entry_def empty_result_def Let_def)
qed

lemma ex_conf_native: "find_model ex_conf ''grp'' = Some (ex_group_row ''grp'' ''coding'' ''coding'')"
  by (simp add: ex_config_def ex_group_row_def ex_model_def rebuildClaimsLocked_def find_model_def)

lemma ex_model_servable: "isServableGroupMember (Some (ex_model i cs))" "ID (ex_model i cs) = i"
  "FallbackChain (ex_model i cs) = []"
  by (simp_all add: isServableGroupMember_def ex_model_def)

theorem rewritten_list_sound_witness:
  "\<exists>info e'. applyGroupRewrite (find_model ex_conf) 0 (\<lambda>_ _. 0) [''grp''] ''k'' (NewEngine_g 0 0 0) = (([''coding''], Some info, []), e')
    \<and> justified (find_model ex_conf) [''grp''] ''coding''"
proof -
  obtain e' where "RewriteGroupEntries (find_model ex_conf) 0 (\<lambda>_ _. 0) [''grp''] ''k'' (NewEngine_g 0 0 0) =
     (\<lparr>ModelList = [''coding''], AnyGroup = True, GroupID = ''grp'', MemberID = ''coding'',
      MemberNewlyBound = False, MemberPool = PoolDefault, BindingStale = False, FailedGroupID = []\<rparr>, e')"
    using single_member_rewrite [OF ex_conf_native ex_conf_group(2,4) ex_row(1) ex_model_servable(1), of 0 "\<lambda>_ _. 0" "''k''"]
    by (cases "RewriteGroupEntries (find_model ex_conf) 0 (\<lambda>_ _. 0) [''grp''] ''k'' (NewEngine_g 0 0 0)")
      (simp add: ex_model_servable ex_conf_group(3))
  then have a: "applyGroupRewrite (find_model ex_conf) 0 (\<lambda>_ _. 0) [''grp''] ''k'' (NewEngine_g 0 0 0) =
     (([''coding''], Some \<lparr>pick_GroupID = ''grp'', pick_MemberID = ''coding'', pick_NewlyBound = False,
        pick_Pool = PoolDefault, pick_BindingStale = False\<rparr>, []), e')"
    by (simp add: applyGroupRewrite_def)
  from rewritten_list_sound [OF a] have "justified (find_model ex_conf) [''grp''] ''coding''" by simp
  with a show ?thesis by blast
qed

definition nested_conf :: ModelsConfig where
  "nested_conf = ex_config [(ex_model ''a'' [''c1''])\<lparr>FallbackChain := [''g2'']\<rparr>, ex_model ''b'' [''c1''],
     ex_group_row ''g1'' ''a'' [], ex_group_row ''g2'' ''b'' []] [ex_cred ''c1'' ''openai'']"

lemma nested_rows:
  "find_model nested_conf ''g1'' = Some (ex_group_row ''g1'' ''a'' [])"
  "find_model nested_conf ''g2'' = Some (ex_group_row ''g2'' ''b'' [])"
  "find_model nested_conf ''a'' = Some ((ex_model ''a'' [''c1''])\<lparr>FallbackChain := [''g2'']\<rparr>)"
  by (simp_all add: nested_conf_def ex_config_def ex_group_row_def ex_model_def rebuildClaimsLocked_def find_model_def)

text \<open>The rewrite does not reach the chain of the member it picks: when that chain names a group, the
  group stays in the execution list, although the configuration is valid, and resolving it as an
  upstream fails because a group has no credential.\<close>

theorem member_chain_keeps_group:
  "config_ok ex_world nested_conf
   \<and> ModelList (fst (RewriteGroupEntries (find_model nested_conf) 0 (\<lambda>_ _. 0) [''g1''] ''k'' (NewEngine_g 0 0 0))) = [''a'', ''g2'']
   \<and> is_group_entry (find_model nested_conf) ''g2''
   \<and> ResolveInternalConfig ex_world 0 nested_conf ''g2'' = None"
proof (intro conjI)
  show "config_ok ex_world nested_conf"
    by (simp add: nested_conf_def ex_defs config_eval)
  have "isServableGroupMember (Some ((ex_model ''a'' [''c1''])\<lparr>FallbackChain := [''g2'']\<rparr>))"
    by (simp add: isServableGroupMember_def ex_model_def)
  from single_member_rewrite [OF nested_rows(1) ex_conf_group(2,4) nested_rows(3) this, of 0 "\<lambda>_ _. 0" "''k''"]
  show "ModelList (fst (RewriteGroupEntries (find_model nested_conf) 0 (\<lambda>_ _. 0) [''g1''] ''k'' (NewEngine_g 0 0 0))) = [''a'', ''g2'']"
    by (simp add: ex_model_def)
  show "is_group_entry (find_model nested_conf) ''g2''"
    using nested_rows(2) ex_conf_group(2) by (auto simp: is_group_entry_def)
  show "ResolveInternalConfig ex_world 0 nested_conf ''g2'' = None"
    by (simp add: ResolveInternalConfig_def nested_rows PrimaryCredentialID_def)
      (simp add: ex_group_row_def ex_model_def)
qed

section \<open>The single re-entry\<close>

lemma exclude_members:
  "members (snd (st_ExcludeAndReselect_g d now u key p ra st)) = members st"
  by (auto simp: st_ExcludeAndReselect_g_def reselect_g_def default_bind_def cool_down_def Let_def
      split: prod.splits option.splits if_splits)

lemma exclude_finds_other:
  assumes "gs_ok st" "0 \<le> u" "u < 1" "0 < d" "m \<in> good_in defaultMembers now st" "m \<noteq> p" "p \<in> ModelID ` set (members st)"
  shows "\<exists>q. fst (st_ExcludeAndReselect_g d now u key p 0 st) = (q, ReselectHealthy_g) \<and> q \<noteq> []"
proof -
  have two: "2 \<le> memberCount st"
    using two_members [OF assms(1) _ assms(7,6)] assms(5) gs_ok_pools(3) [OF assms(1)] by (auto simp: good_in_def)
  obtain out st' where o: "st_ExcludeAndReselect_g d now u key p 0 st = (out, st')"
    by (cases "st_ExcludeAndReselect_g d now u key p 0 st")
  have r: "reselected_g defaultMembers bindings_g now key p out st'"
    using group_failover_modes [OF assms(1-3) two assms(4) o] by simp
  have "excl_step defaultMembers bindings_g now key p st st'"
    using st_ExcludeAndReselect_step [OF assms(1-4) two, of now key p] o by simp
  then have "m \<in> good_in defaultMembers now st'" using excl_step_sets(1) assms(5,6) by blast
  then have "healthy_members st' now (defaultMembers st') \<noteq> []" "defaultMembers st' \<noteq> []"
    using good_not_empty [of m defaultMembers now st'] by (auto simp: healthy_members_def)
  moreover have "refs_ok (members st')"
    using assms(1) exclude_members [of d now u key p 0 st] o by (simp add: gs_ok_def)
  moreover obtain q mode where "out = (q, mode)" by (cases out)
  ultimately show ?thesis
    using r o by (cases mode) (auto simp: reselected_g_def memberInRefs_iff refs_ok_def)
qed

text \<open>C19.
  After the member of a group failed, the one re-entry goes to another member: when a further
  default member is servable and not cooling, the rebuilt list starts with a servable default
  member different from the one that failed.\<close>

theorem reentry_avoids_failed_member:
  assumes "native (ID grp) = Some grp" "IsGroup grp" "ID grp \<noteq> []" "\<And>i row. native i = Some row \<Longrightarrow> ID row = i"
    and st: "fmlookup (groups e) (ID grp) = Some st" "gs_ok st" "members st = GroupMemberRefs (Members grp)"
    and d: "0 < defaultCooldown_g e" and draws: "draws_ok rnd" "draws_ok (rnd' 0)"
    and mm: "mm \<in> set (Members grp)" "\<not> BackupOnly_m mm" "isServableGroupMember (native (ModelID_m mm))"
      "\<not> isCoolingLocked_g st (ModelID_m mm) now"
    and failed: "pick_GroupID info = ID grp" "pick_MemberID info \<noteq> ModelID_m mm"
      "pick_MemberID info \<in> ModelID_m ` set (Members grp)"
  shows "\<exists>row info' e'. tryGroupReentry native now rnd rnd' [ID grp] key info e = (Some (ID row # FallbackChain row, info'), e')
    \<and> isServableGroupMember (Some row) \<and> ID row \<noteq> pick_MemberID info
    \<and> pick_MemberID info' = ID row \<and> pick_Pool info' = PoolDefault"
proof -
  let ?g = "ID grp" and ?p = "pick_MemberID info" and ?m = "ModelID_m mm"
  have u: "0 \<le> rnd 0" "rnd 0 < 1" using draws(1) by (auto simp: draws_ok_def)
  obtain r where r: "r \<in> set (members st)" "ModelID r = ?m" "\<not> BackupOnly r"
    using GroupMemberRefs_mem [OF mm(1)] mm(2) st(3) by auto
  then have "r \<in> set (defaultMembers st)" using st(2) by (simp add: gs_ok_def gs_inv_def)
  then have good: "?m \<in> good_in defaultMembers now st" using r(2) mm(4) by (auto simp: good_in_def intro!: rev_image_eqI [of r])
  have p: "?p \<in> ModelID ` set (members st)"
  proof -
    obtain fm where "fm \<in> set (Members grp)" "?p = ModelID_m fm" using failed(3) by auto
    then show ?thesis using GroupMemberRefs_mem [of fm "Members grp"] st(3) by force
  qed
  have two: "2 \<le> memberCount st" using two_members [OF st(2) _ p] r failed(2) by force
  define st1 where "st1 = snd (st_ExcludeAndReselect_g (defaultCooldown_g e) now (rnd 0) key ?p 0 st)"
  define e1 where "e1 = e\<lparr>groups := fmupd ?g st1 (groups e)\<rparr>"
  obtain q where q: "fst (st_ExcludeAndReselect_g (defaultCooldown_g e) now (rnd 0) key ?p 0 st) = (q, ReselectHealthy_g)" "q \<noteq> []"
    using exclude_finds_other [OF st(2) u d good _ p] failed(2) by metis
  have ex: "ExcludeGroupMember native now rnd ?g key ?p e = (Some (q, PoolDefault), e1)"
    using st(1) q by (simp add: ExcludeGroupMember_def ExcludeAndReselect_g_def e1_def st1_def case_prod_beta)
  have step: "excl_step defaultMembers bindings_g now key ?p st st1"
    unfolding st1_def by (rule st_ExcludeAndReselect_step [OF st(2) u d two])
  have ok1: "gs_ok st1" unfolding st1_def by (rule gs_ok_st_ExcludeAndReselect_g [OF st(2) u])
  have "group_inv (rnd' 0) ?g e1" using d draws(2) ok1 by (simp add: group_inv_def e1_def)
  moreover have "fmlookup (groups e1) ?g = Some st1" "members st1 = GroupMemberRefs (Members grp)"
    using st(3) by (simp_all add: e1_def st1_def exclude_members)
  moreover have "?m \<in> good_in defaultMembers now st1" using excl_step_sets(1) [OF step] good failed(2) by auto
  ultimately obtain x newly stale e2 where x: "pickServableGroupMember native now (rnd' 0) grp key e1 = (Some (x, newly, PoolDefault, stale), e2)"
      "isServableGroupMember (native x)" "x \<in> cand_in defaultMembers bindings_g now key st1"
    using default_pool_serves mm(3) by metis
  have ne: "x \<noteq> ?p" using excl_step_sets(2) [OF step] x(3) by auto
  obtain row where row: "native x = Some row" "ID row = x"
    using x(2) assms(4) by (cases "native x") (auto simp: isServableGroupMember_def)
  have "tryGroupReentry native now rnd rnd' [?g] key info e = (Some (ID row # FallbackChain row,
      \<lparr>pick_GroupID = ?g, pick_MemberID = x, pick_NewlyBound = newly, pick_Pool = PoolDefault, pick_BindingStale = stale\<rparr>), e2)"
    using assms(1-3) ex q(2) x(1) row failed(1)
    by (simp add: tryGroupReentry_def applyGroupRewrite_def RewriteGroupEntries_def rewrite_entry_def empty_result_def Let_def)
  then show ?thesis using row x(2) ne by auto
qed

text \<open>A group of two default members whose first one has failed.\<close>

definition pair_group :: ModelConfig where
  "pair_group = (ex_model ''g'' [])\<lparr>Kind := KindGroup, Members := [\<lparr>ModelID_m = ''a'', Weight_m = 1, BackupOnly_m = False\<rparr>,
     \<lparr>ModelID_m = ''b'', Weight_m = 1, BackupOnly_m = False\<rparr>]\<rparr>"

definition pair_native :: "string \<Rightarrow> ModelConfig option" where
  "pair_native i = (if i = ''g'' then Some pair_group
     else if i = ''a'' \<or> i = ''b'' then Some (ex_model i [''c1'']) else None)"

definition pair_info :: groupPickInfo where
  "pair_info = \<lparr>pick_GroupID = ''g'', pick_MemberID = ''a'', pick_NewlyBound = True, pick_Pool = PoolDefault, pick_BindingStale = False\<rparr>"

theorem reentry_avoids_failed_member_witness:
  "\<exists>(row :: ModelConfig) info' e'. tryGroupReentry pair_native 0 (\<lambda>_. 0) (\<lambda>_ _. 0) [''g''] ''k'' pair_info
      (OnGroupChanged (NewEngine_g 0 0 0) ''g'' (GroupMemberRefs (Members pair_group))) = (Some (ID row # FallbackChain row, info'), e')
    \<and> ID row \<noteq> ''a''"
proof -
  let ?refs = "GroupMemberRefs (Members pair_group)"
  define st where "st = keep_bindings (\<lambda>b. memberID b \<in> set (map ModelID ?refs)) (applyRefsLocked_g newGroupState ?refs)"
  have refs: "?refs = [\<lparr>ModelID = ''a'', Weight_g = 1, Position_g = 0, BackupOnly = False\<rparr>,
      \<lparr>ModelID = ''b'', Weight_g = 1, Position_g = 1, BackupOnly = False\<rparr>]"
    by (simp add: pair_group_def GroupMemberRefs_def)
  have ok: "gs_ok st" unfolding st_def by (rule gs_ok_changed) (simp_all add: refs refs_ok_def)
  have m: "members st = ?refs" "\<not> isCoolingLocked_g st x now" for x now
    by (simp_all add: st_def keep_bindings_def applyRefsLocked_g_def newGroupState_def isCoolingLocked_g_def Let_def)
  have g: "ID pair_group = ''g''" "IsGroup pair_group" "Members pair_group = [\<lparr>ModelID_m = ''a'', Weight_m = 1, BackupOnly_m = False\<rparr>,
     \<lparr>ModelID_m = ''b'', Weight_m = 1, BackupOnly_m = False\<rparr>]"
    by (simp_all add: pair_group_def ex_model_def IsGroup_def)
  have l: "fmlookup (groups (OnGroupChanged (NewEngine_g 0 0 0) ''g'' ?refs)) (ID pair_group) = Some st"
    by (simp add: OnGroupChanged_def NewEngine_g_def st_def refs g(1) Let_def)
  have n: "pair_native (ID pair_group) = Some pair_group" by (simp add: pair_native_def g(1))
  have ids: "pair_native i = Some row \<Longrightarrow> ID row = i" for i row
    by (auto simp: pair_native_def g(1) ex_model_servable(2) split: if_splits)
  have sv: "isServableGroupMember (pair_native ''b'')" by (simp add: pair_native_def ex_model_servable)
  have d: "0 < defaultCooldown_g (OnGroupChanged (NewEngine_g 0 0 0) ''g'' ?refs)"
    by (simp add: OnGroupChanged_def NewEngine_g_def DefaultCooldown_g_def Let_def)
  have "\<exists>row info' e'. tryGroupReentry pair_native 0 (\<lambda>_. 0) (\<lambda>_ _. 0) [ID pair_group] ''k'' pair_info
      (OnGroupChanged (NewEngine_g 0 0 0) ''g'' ?refs) = (Some (ID row # FallbackChain row, info'), e')
      \<and> isServableGroupMember (Some row) \<and> ID row \<noteq> pick_MemberID pair_info
      \<and> pick_MemberID info' = ID row \<and> pick_Pool info' = PoolDefault"
    by (rule reentry_avoids_failed_member [where native = pair_native and grp = pair_group and st = st
          and e = "OnGroupChanged (NewEngine_g 0 0 0) ''g'' ?refs"
          and mm = "\<lparr>ModelID_m = ''b'', Weight_m = 1, BackupOnly_m = False\<rparr>", OF n g(2) _ ids l ok m(1) d])
      (simp_all add: g sv m(2) pair_info_def draws_ok_def)
  then show ?thesis by (auto simp: g(1) pair_info_def)
qed

end
