(* ===== verification/GoJson.thy ===== *)
theory GoJson
  imports GoStrings Complex_Main "HOL-Library.Monad_Syntax"
begin

text \<open>
  What the program uses of Go's \<open>encoding/json\<close>: the grammar as the scanner accepts it (white space,
  literals, numbers, strings with their escapes, the nesting limit of 10000), the decoding of string
  literals with the replacement of broken surrogates and of bytes that are no UTF-8, and the encoding
  of strings and values by \<open>Marshal\<close>. Numbers keep their literal text, objects the order of their
  members. The parser takes fuel; \<open>json_prefix_stable\<close> shows that the fuel it is started with
  decides. The main result is that decoding the encoding gives the value back.
\<close>

abbreviation dquote :: char where "dquote \<equiv> CHR 0x22"
abbreviation backslash :: char where "backslash \<equiv> CHR 0x5C"

section \<open>UTF-8\<close>

definition cont :: "nat \<Rightarrow> nat \<Rightarrow> char \<Rightarrow> bool" where
  "cont lo hi c \<longleftrightarrow> lo \<le> (of_char c :: nat) \<and> of_char c \<le> hi"

definition seq2 :: "nat \<Rightarrow> bool" where "seq2 b \<longleftrightarrow> 0xC2 \<le> b \<and> b \<le> 0xDF"
definition seq3 :: "nat \<Rightarrow> bool" where "seq3 b \<longleftrightarrow> 0xE0 \<le> b \<and> b \<le> 0xEF"
definition seq4 :: "nat \<Rightarrow> bool" where "seq4 b \<longleftrightarrow> 0xF0 \<le> b \<and> b \<le> 0xF4"

definition second_ok :: "nat \<Rightarrow> char \<Rightarrow> bool" where
  "second_ok b c = cont (if b = 0xE0 then 0xA0 else if b = 0xF0 then 0x90 else 0x80)
                        (if b = 0xED then 0x9F else if b = 0xF4 then 0x8F else 0xBF) c"

text \<open>The length of the encoded character at the head of a string, 0 when there is none.\<close>

fun utf8_len :: "string \<Rightarrow> nat" where
  "utf8_len [] = 0"
| "utf8_len (c # cs) = (let b = of_char c :: nat in
     if b < 0x80 then 1
     else case cs of [] \<Rightarrow> 0
     | c1 # cs1 \<Rightarrow>
        if \<not> second_ok b c1 then 0
        else if seq2 b then 2
        else (case cs1 of [] \<Rightarrow> 0
          | c2 # cs2 \<Rightarrow>
             if \<not> cont 0x80 0xBF c2 then 0
             else if seq3 b then 3
             else (case cs2 of [] \<Rightarrow> 0
               | c3 # _ \<Rightarrow> if seq4 b \<and> cont 0x80 0xBF c3 then 4 else 0)))"

lemma utf8_len_le: "utf8_len s \<le> length s"
  by (cases s) (auto simp: Let_def split: list.split)

function valid_utf8 :: "string \<Rightarrow> bool" where
  "valid_utf8 s = (if s = [] then True else if utf8_len s = 0 then False
     else valid_utf8 (drop (utf8_len s) s))"
  by pat_completeness auto
termination
  by (relation "measure length") auto

declare valid_utf8.simps [simp del]

definition utf8_encode :: "nat \<Rightarrow> string" where
  "utf8_encode r =
     (if r < 0x80 then [char_of r]
      else if r < 0x800 then [char_of (0xC0 + r div 64), char_of (0x80 + r mod 64)]
      else if r < 0x10000 then
        [char_of (0xE0 + r div 4096), char_of (0x80 + r div 64 mod 64), char_of (0x80 + r mod 64)]
      else [char_of (0xF0 + r div 262144), char_of (0x80 + r div 4096 mod 64),
            char_of (0x80 + r div 64 mod 64), char_of (0x80 + r mod 64)])"

definition rune_error :: string where
  "rune_error = [CHR 0xEF, CHR 0xBF, CHR 0xBD]"

section \<open>String literals\<close>

definition isHexDigit :: "char \<Rightarrow> bool" where
  "isHexDigit c \<longleftrightarrow> (let n = of_char c :: nat in 48 \<le> n \<and> n \<le> 57 \<or> 97 \<le> n \<and> n \<le> 102 \<or> 65 \<le> n \<and> n \<le> 70)"

definition hex_val :: "char \<Rightarrow> nat" where
  "hex_val c = (let n = of_char c in if n \<le> 57 then n - 48 else if n \<le> 70 then n - 55 else n - 87)"

definition hex_char :: "nat \<Rightarrow> char" where
  "hex_char n = (if n < 10 then char_of (48 + n) else char_of (87 + n))"

text \<open>The raw text of a string literal behind its opening quote, and what follows the closing one.\<close>

fun scan_string :: "string \<Rightarrow> (string \<times> string) option" where
  "scan_string [] = None"
| "scan_string (c # cs) =
     (if c = dquote then Some ([], cs)
      else if c = backslash then
        (case cs of [] \<Rightarrow> None
         | e # es \<Rightarrow>
            if e = CHR ''u'' then
              (case es of h1 # h2 # h3 # h4 # r \<Rightarrow>
                 if list_all isHexDigit [h1, h2, h3, h4]
                 then map_option (\<lambda>(a, b). (c # e # h1 # h2 # h3 # h4 # a, b)) (scan_string r) else None
               | _ \<Rightarrow> None)
            else if e \<in> set ''bfnrt/'' \<union> {dquote, backslash}
              then map_option (\<lambda>(a, b). (c # e # a, b)) (scan_string es) else None)
      else if (of_char c :: nat) < 32 then None
      else map_option (\<lambda>(a, b). (c # a, b)) (scan_string cs))"

definition getu4 :: "string \<Rightarrow> nat option" where
  "getu4 s = (case s of b # u # h1 # h2 # h3 # h4 # _ \<Rightarrow>
       if b = backslash \<and> u = CHR ''u'' \<and> list_all isHexDigit [h1, h2, h3, h4]
       then Some (((hex_val h1 * 16 + hex_val h2) * 16 + hex_val h3) * 16 + hex_val h4) else None
     | _ \<Rightarrow> None)"

definition escaped :: "char \<Rightarrow> char" where
  "escaped e = (if e = CHR ''b'' then CHR 0x08 else if e = CHR ''f'' then CHR 0x0C
     else if e = CHR ''n'' then CHR 0x0A else if e = CHR ''r'' then CHR 0x0D
     else if e = CHR ''t'' then CHR 0x09 else e)"

text \<open>One step of \<open>unquoteBytes\<close>: the bytes written and the number of bytes read.\<close>

definition unquote_step :: "string \<Rightarrow> string \<times> nat" where
  "unquote_step s =
     (if hd s = backslash then
        (case getu4 s of
           Some r \<Rightarrow>
             if 0xD800 \<le> r \<and> r < 0xE000 then
               (case getu4 (drop 6 s) of
                  Some r1 \<Rightarrow> if r < 0xDC00 \<and> 0xDC00 \<le> r1 \<and> r1 < 0xE000
                    then (utf8_encode (0x10000 + (r - 0xD800) * 1024 + (r1 - 0xDC00)), 12)
                    else (rune_error, 6)
                | None \<Rightarrow> (rune_error, 6))
             else (utf8_encode r, 6)
         | None \<Rightarrow> ([escaped (hd (tl s))], 2))
      else if utf8_len s = 0 then (rune_error, 1)
      else (take (utf8_len s) s, utf8_len s))"

function unquote :: "string \<Rightarrow> string" where
  "unquote s = (if s = [] then []
     else fst (unquote_step s) @ unquote (drop (snd (unquote_step s)) s))"
  by pat_completeness auto
termination
  by (relation "measure length")
    (auto simp: unquote_step_def split: option.splits prod.splits)

declare unquote.simps [simp del]

definition u_escape :: "nat \<Rightarrow> string" where
  "u_escape r = [backslash, CHR ''u'', hex_char (r div 4096 mod 16), hex_char (r div 256 mod 16),
                 hex_char (r div 16 mod 16), hex_char (r mod 16)]"

text \<open>One step of \<open>appendString\<close> with HTML escaping, as \<open>Marshal\<close> does it.\<close>

definition quote_step :: "string \<Rightarrow> string \<times> nat" where
  "quote_step s = (let c = hd s; b = of_char c :: nat in
     if b < 0x80 then
       ((if c \<in> {dquote, backslash} then [backslash, c]
         else if c = CHR 0x08 then [backslash, CHR ''b''] else if c = CHR 0x0C then [backslash, CHR ''f'']
         else if c = CHR 0x0A then [backslash, CHR ''n''] else if c = CHR 0x0D then [backslash, CHR ''r'']
         else if c = CHR 0x09 then [backslash, CHR ''t'']
         else if b < 32 \<or> c \<in> set ''<>&'' then u_escape b
         else [c]), 1)
     else if utf8_len s = 0 then (u_escape 0xFFFD, 1)
     else if take 3 s = [CHR 0xE2, CHR 0x80, CHR 0xA8] then (u_escape 0x2028, 3)
     else if take 3 s = [CHR 0xE2, CHR 0x80, CHR 0xA9] then (u_escape 0x2029, 3)
     else (take (utf8_len s) s, utf8_len s))"

function quote_body :: "string \<Rightarrow> string" where
  "quote_body s = (if s = [] then []
     else fst (quote_step s) @ quote_body (drop (snd (quote_step s)) s))"
  by pat_completeness auto
termination
  by (relation "measure length") (auto simp: quote_step_def Let_def)

declare quote_body.simps [simp del]

definition quote :: "string \<Rightarrow> string" where
  "quote s = dquote # quote_body s @ [dquote]"

section \<open>Values\<close>

datatype json = JNull | JBool bool | JNum string | JStr string | JArr "json list" | JObj "(string \<times> json) list"

definition maxNestingDepth :: nat where
  "maxNestingDepth = 10000"

definition isWs :: "char \<Rightarrow> bool" where
  "isWs c \<longleftrightarrow> c = CHR '' '' \<or> c = CHR 0x09 \<or> c = CHR 0x0A \<or> c = CHR 0x0D"

definition skip_ws :: "string \<Rightarrow> string" where
  "skip_ws s = dropWhile isWs s"

definition next_byte :: "string \<Rightarrow> (char \<times> string) option" where
  "next_byte s = (case skip_ws s of [] \<Rightarrow> None | c # cs \<Rightarrow> Some (c, cs))"

definition expect :: "char \<Rightarrow> string \<Rightarrow> string option" where
  "expect x s = do { (c, cs) \<leftarrow> next_byte s; if c = x then Some cs else None }"

definition scan_int :: "string \<Rightarrow> (string \<times> string) option" where
  "scan_int s = (case s of [] \<Rightarrow> None
     | c # cs \<Rightarrow> if c = CHR ''0'' then Some ([c], cs)
         else if isDigit c then Some (takeWhile isDigit s, dropWhile isDigit s) else None)"

definition scan_frac :: "string \<Rightarrow> (string \<times> string) option" where
  "scan_frac s = (case s of [] \<Rightarrow> Some ([], [])
     | c # cs \<Rightarrow> if c \<noteq> CHR ''.'' then Some ([], s)
         else if takeWhile isDigit cs = [] then None
         else Some (c # takeWhile isDigit cs, dropWhile isDigit cs))"

definition exp_sign :: "string \<Rightarrow> string \<times> string" where
  "exp_sign s = (case s of [] \<Rightarrow> ([], [])
     | c # cs \<Rightarrow> if c \<in> {CHR ''+'', CHR ''-''} then ([c], cs) else ([], s))"

definition scan_exp :: "string \<Rightarrow> (string \<times> string) option" where
  "scan_exp s = (case s of [] \<Rightarrow> Some ([], [])
     | c # cs \<Rightarrow> if c \<notin> {CHR ''e'', CHR ''E''} then Some ([], s)
         else (case exp_sign cs of (sg, ds) \<Rightarrow>
           if takeWhile isDigit ds = [] then None
           else Some (c # sg @ takeWhile isDigit ds, dropWhile isDigit ds)))"

definition scan_number :: "string \<Rightarrow> (string \<times> string) option" where
  "scan_number s =
     (let (sg, s0) = (case s of [] \<Rightarrow> ([], []) | c # cs \<Rightarrow> if c = CHR ''-'' then ([c], cs) else ([], s))
      in do { (i, s1) \<leftarrow> scan_int s0; (fr, s2) \<leftarrow> scan_frac s1; (ex, s3) \<leftarrow> scan_exp s2;
              Some (sg @ i @ fr @ ex, s3) })"

definition scan_literal :: "string \<Rightarrow> (json \<times> string) option" where
  "scan_literal s =
     (if HasPrefix s ''null'' then Some (JNull, drop 4 s)
      else if HasPrefix s ''true'' then Some (JBool True, drop 4 s)
      else if HasPrefix s ''false'' then Some (JBool False, drop 5 s)
      else map_option (\<lambda>(n, r). (JNum n, r)) (scan_number s))"

text \<open>The first value of a text and what follows it; the nesting depth is that of the value's place.\<close>

fun parse_value :: "nat \<Rightarrow> nat \<Rightarrow> string \<Rightarrow> (json \<times> string) option"
  and parse_members :: "nat \<Rightarrow> nat \<Rightarrow> string \<Rightarrow> ((string \<times> json) list \<times> string) option"
  and parse_elems :: "nat \<Rightarrow> nat \<Rightarrow> string \<Rightarrow> (json list \<times> string) option"
where
  "parse_value 0 d s = None"
| "parse_value (Suc f) d s = do {
     (c, cs) \<leftarrow> next_byte s;
     if c = dquote then do { (raw, r) \<leftarrow> scan_string cs; Some (JStr (unquote raw), r) }
     else if c = CHR ''{'' then
       (if d \<ge> maxNestingDepth then None
        else case expect (CHR ''}'') cs of
            Some r \<Rightarrow> Some (JObj [], r)
          | None \<Rightarrow> do { (kvs, r) \<leftarrow> parse_members f (d + 1) cs; Some (JObj kvs, r) })
     else if c = CHR ''['' then
       (if d \<ge> maxNestingDepth then None
        else case expect (CHR '']'') cs of
            Some r \<Rightarrow> Some (JArr [], r)
          | None \<Rightarrow> do { (vs, r) \<leftarrow> parse_elems f (d + 1) cs; Some (JArr vs, r) })
     else scan_literal (c # cs) }"
| "parse_members 0 d s = None"
| "parse_members (Suc f) d s = do {
     s1 \<leftarrow> expect dquote s;
     (raw, s2) \<leftarrow> scan_string s1;
     s3 \<leftarrow> expect (CHR '':'') s2;
     (v, s4) \<leftarrow> parse_value f d s3;
     (c, s5) \<leftarrow> next_byte s4;
     if c = CHR ''}'' then Some ([(unquote raw, v)], s5)
     else if c = CHR '','' then do { (kvs, s6) \<leftarrow> parse_members f d s5; Some ((unquote raw, v) # kvs, s6) }
     else None }"
| "parse_elems 0 d s = None"
| "parse_elems (Suc f) d s = do {
     (v, s1) \<leftarrow> parse_value f d s;
     (c, s2) \<leftarrow> next_byte s1;
     if c = CHR '']'' then Some ([v], s2)
     else if c = CHR '','' then do { (vs, s3) \<leftarrow> parse_elems f d s2; Some (v # vs, s3) }
     else None }"

declare parse_value.simps(2) [simp del] parse_members.simps(2) [simp del] parse_elems.simps(2) [simp del]

definition json_prefix :: "nat \<Rightarrow> string \<Rightarrow> (json \<times> string) option" where
  "json_prefix d s = parse_value (2 * length s + 1) d s"

definition json_parse :: "string \<Rightarrow> json option" where
  "json_parse s = (case json_prefix 0 s of None \<Rightarrow> None
     | Some (v, r) \<Rightarrow> if skip_ws r = [] then Some v else None)"

definition json_Valid :: "string \<Rightarrow> bool" where
  "json_Valid s \<longleftrightarrow> json_parse s \<noteq> None"

text \<open>Decoding into an interface value turns a number into a \<open>float64\<close> and fails when it is out of
  range, that is, when it rounds beyond the largest one.\<close>

definition exponent_val :: "string \<Rightarrow> int" where
  "exponent_val s = (case s of [] \<Rightarrow> 0
     | _ # cs \<Rightarrow> (case exp_sign cs of (sg, ds) \<Rightarrow> if sg = ''-'' then - digits_val ds else digits_val ds))"

definition num_val :: "string \<Rightarrow> rat" where
  "num_val n =
     (let s0 = (if HasPrefix n ''-'' then tl n else n);
          i = takeWhile isDigit s0; s1 = dropWhile isDigit s0;
          fr = (if HasPrefix s1 ''.'' then takeWhile isDigit (tl s1) else []);
          s2 = (if HasPrefix s1 ''.'' then dropWhile isDigit (tl s1) else s1);
          v = of_int (digits_val (i @ fr)) * 10 powi (exponent_val s2 - int (length fr))
      in if HasPrefix n ''-'' then - v else v)"

definition float_fits :: "rat \<Rightarrow> bool" where
  "float_fits x \<longleftrightarrow> \<bar>x\<bar> < 2 ^ 1024 - 2 ^ 970"

fun json_fits :: "json \<Rightarrow> bool" where
  "json_fits (JNum n) = float_fits (num_val n)"
| "json_fits (JArr vs) = list_all json_fits vs"
| "json_fits (JObj kvs) = list_all (\<lambda>(k, v). json_fits v) kvs"
| "json_fits _ = True"

definition Unmarshal_any :: "string \<Rightarrow> json option" where
  "Unmarshal_any s = (case json_parse s of None \<Rightarrow> None | Some v \<Rightarrow> if json_fits v then Some v else None)"

text \<open>A decoded object is a Go map: the last member of a name counts. Type assertions on its values.\<close>

definition obj_get :: "(string \<times> json) list \<Rightarrow> string \<Rightarrow> json option" where
  "obj_get kvs k = map_of (rev kvs) k"

definition as_obj :: "json option \<Rightarrow> (string \<times> json) list option" where
  "as_obj v = (case v of Some (JObj kvs) \<Rightarrow> Some kvs | _ \<Rightarrow> None)"

definition as_arr :: "json option \<Rightarrow> json list option" where
  "as_arr v = (case v of Some (JArr vs) \<Rightarrow> Some vs | _ \<Rightarrow> None)"

definition as_str :: "json option \<Rightarrow> string option" where
  "as_str v = (case v of Some (JStr s) \<Rightarrow> Some s | _ \<Rightarrow> None)"

definition as_num :: "json option \<Rightarrow> rat option" where
  "as_num v = (case v of Some (JNum n) \<Rightarrow> Some (num_val n) | _ \<Rightarrow> None)"

text \<open>Conversion of a number to \<open>int\<close> drops the fraction.\<close>

definition go_int :: "rat \<Rightarrow> int" where
  "go_int x = (if x < 0 then - \<lfloor>- x\<rfloor> else \<lfloor>x\<rfloor>)"

text \<open>The index of a streamed tool call, 0 when it is missing or no number; a string member, empty when it is
  missing or no string.\<close>

definition tc_index :: "(string \<times> json) list \<Rightarrow> int" where
  "tc_index tcMap = go_int (case as_num (obj_get tcMap ''index'') of None \<Rightarrow> 0 | Some x \<Rightarrow> x)"

definition str_field :: "(string \<times> json) list \<Rightarrow> string \<Rightarrow> string" where
  "str_field kvs k = (case as_str (obj_get kvs k) of None \<Rightarrow> [] | Some s \<Rightarrow> s)"

fun join_comma :: "string list \<Rightarrow> string" where
  "join_comma [] = []"
| "join_comma [x] = x"
| "join_comma (x # y # xs) = x @ CHR '','' # join_comma (y # xs)"

fun marshal :: "json \<Rightarrow> string" where
  "marshal JNull = ''null''"
| "marshal (JBool b) = (if b then ''true'' else ''false'')"
| "marshal (JNum n) = n"
| "marshal (JStr s) = quote s"
| "marshal (JArr vs) = CHR ''['' # join_comma (map marshal vs) @ '']''"
| "marshal (JObj kvs) = CHR ''{'' # join_comma (map (\<lambda>(k, v). quote k @ CHR '':'' # marshal v) kvs) @ ''}''"

section \<open>The parser consumes, and its fuel suffices\<close>

lemma skip_ws_length: "length (skip_ws s) \<le> length s"
  by (simp add: skip_ws_def length_dropWhile_le)

lemma next_byte_length: "next_byte s = Some (c, r) \<Longrightarrow> length r < length s"
  using skip_ws_length [of s] by (auto simp: next_byte_def split: list.splits)

lemma expect_length: "expect x s = Some r \<Longrightarrow> length r < length s"
  by (auto simp: expect_def bind_eq_Some_conv split: if_splits dest: next_byte_length)

lemma scan_string_length: "scan_string s = Some (raw, r) \<Longrightarrow> length r < length s"
  by (induction s arbitrary: raw r rule: scan_string.induct)
    (fastforce split: if_splits list.splits)+

lemma scan_int_length: "scan_int s = Some (n, r) \<Longrightarrow> length r < length s"
  by (auto simp: scan_int_def le_imp_less_Suc length_dropWhile_le split: list.splits if_splits)

lemma scan_frac_length: "scan_frac s = Some (n, r) \<Longrightarrow> length r \<le> length s"
  by (auto simp: scan_frac_def le_SucI length_dropWhile_le split: list.splits if_splits)

lemma exp_sign_length: "length (snd (exp_sign s)) \<le> length s"
  by (auto simp: exp_sign_def split: list.splits)

lemma scan_exp_length: "scan_exp s = Some (n, r) \<Longrightarrow> length r \<le> length s"
proof -
  have "length (dropWhile isDigit ds) \<le> Suc (length cs)" if "exp_sign cs = (sg, ds)" for cs sg ds
    using exp_sign_length [of cs] length_dropWhile_le [of isDigit ds] that by simp
  then show "scan_exp s = Some (n, r) \<Longrightarrow> ?thesis"
    by (auto simp: scan_exp_def split: list.splits if_splits prod.splits)
qed

lemma scan_number_length: "scan_number s = Some (n, r) \<Longrightarrow> length r < length s"
proof -
  assume a: "scan_number s = Some (n, r)"
  define s0 where "s0 = snd (case s of [] \<Rightarrow> ([], []) | c # cs \<Rightarrow> if c = CHR ''-'' then ([c], cs) else ([], s))"
  have l: "length s0 \<le> length s" by (auto simp: s0_def split: list.splits)
  obtain i s1 fr s2 e where "scan_int s0 = Some (i, s1)" "scan_frac s1 = Some (fr, s2)" "scan_exp s2 = Some (e, r)"
    using a by (auto simp: scan_number_def s0_def bind_eq_Some_conv split: prod.splits)
  from scan_int_length [OF this(1)] scan_frac_length [OF this(2)] scan_exp_length [OF this(3)] l
  show ?thesis by simp
qed

lemma scan_literal_length: "scan_literal s = Some (v, r) \<Longrightarrow> length r < length s"
proof -
  have p: "HasPrefix s p \<Longrightarrow> p \<noteq> [] \<Longrightarrow> length (drop (length p) s) < length s" for p
    by (auto simp: HasPrefix_iff)
  show "scan_literal s = Some (v, r) \<Longrightarrow> ?thesis"
    using p [of "''null''"] p [of "''true''"] p [of "''false''"]
    by (auto simp: scan_literal_def split: if_splits dest: scan_number_length)
qed

lemma parse_length:
  "parse_value f d s = Some (v, r) \<Longrightarrow> length r < length s"
  "parse_members f d s = Some (kvs, r) \<Longrightarrow> length r < length s"
  "parse_elems f d s = Some (vs, r) \<Longrightarrow> length r < length s"
proof (induction f d s and f d s and f d s arbitrary: v r and kvs r and vs r
    rule: parse_value_parse_members_parse_elems.induct)
  case (2 f d s)
  obtain c cs where n: "next_byte s = Some (c, cs)"
    using "2.prems" by (cases "next_byte s") (auto simp: parse_value.simps(2))
  have l: "length cs < length s" by (rule next_byte_length [OF n])
  show ?case
  proof (cases "c = dquote \<or> c = CHR ''{'' \<or> c = CHR ''[''")
    case True
    then show ?thesis
      using "2.prems" n l "2.IH"(1) [OF n refl] "2.IH"(2) [OF n refl]
      by (fastforce simp: parse_value.simps(2) bind_eq_Some_conv split: if_splits option.splits
          dest: scan_string_length expect_length)
  next
    case False
    then have "scan_literal (c # cs) = Some (v, r)" using "2.prems" n by (simp add: parse_value.simps(2))
    then show ?thesis using l scan_literal_length by fastforce
  qed
next
  case (4 f d s)
  then show ?case
    by (fastforce simp: parse_members.simps(2) bind_eq_Some_conv split: if_splits
        dest: expect_length scan_string_length next_byte_length)
next
  case (6 f d s)
  then show ?case
    by (fastforce simp: parse_elems.simps(2) bind_eq_Some_conv split: if_splits dest: next_byte_length)
qed simp_all

text \<open>More fuel and less depth keep every answer; enough fuel decides.\<close>

definition below :: "'a option \<Rightarrow> 'a option \<Rightarrow> bool" where
  "below a b \<longleftrightarrow> (\<forall>x. a = Some x \<longrightarrow> b = Some x)"

lemma below_refl [simp, intro]: "below a a"
  by (simp add: below_def)

lemma below_None [simp]: "below None a"
  by (simp add: below_def)

lemma below_bind:
  "below a b \<Longrightarrow> (\<And>x. a = Some x \<Longrightarrow> below (f x) (g x)) \<Longrightarrow> below (Option.bind a f) (Option.bind b g)"
  by (cases a) (auto simp: below_def)

lemma below_if: "(c \<Longrightarrow> below a b) \<Longrightarrow> (\<not> c \<Longrightarrow> below a' b') \<Longrightarrow> below (if c then a else a') (if c then b else b')"
  by simp

lemma below_pair: "(\<And>x y. p = (x, y) \<Longrightarrow> below (f x y) (g x y)) \<Longrightarrow> below (case p of (x, y) \<Rightarrow> f x y) (case p of (x, y) \<Rightarrow> g x y)"
  by (cases p) simp

lemma below_option: "(e = None \<Longrightarrow> below a b) \<Longrightarrow> (\<And>x. e = Some x \<Longrightarrow> below (f x) (g x))
    \<Longrightarrow> below (case e of None \<Rightarrow> a | Some x \<Rightarrow> f x) (case e of None \<Rightarrow> b | Some x \<Rightarrow> g x)"
  by (cases e) simp_all

lemma below_depth: "d' \<le> d \<Longrightarrow> below a b \<Longrightarrow> below (if maxNestingDepth \<le> d then None else a) (if maxNestingDepth \<le> d' then None else b)"
  by simp

lemmas below_intros = below_bind below_if below_pair below_option below_depth below_refl

lemma parse_below:
  "f \<le> f' \<Longrightarrow> d' \<le> d \<Longrightarrow> below (parse_value f d s) (parse_value f' d' s)
     \<and> below (parse_members f d s) (parse_members f' d' s) \<and> below (parse_elems f d s) (parse_elems f' d' s)"
proof (induction f arbitrary: f' d d' s)
  case (Suc f)
  then obtain f1 where f: "f' = Suc f1" "f \<le> f1" by (cases f') auto
  note IH = Suc.IH [OF f(2)]
  have "below (parse_value (Suc f) d s) (parse_value f' d' s)"
    unfolding f(1) parse_value.simps(2)
    by (intro below_intros) (use IH Suc.prems(2) in simp_all)
  moreover have "below (parse_members (Suc f) d s) (parse_members f' d' s)"
    unfolding f(1) parse_members.simps(2)
    by (intro below_intros) (use IH Suc.prems(2) in simp_all)
  moreover have "below (parse_elems (Suc f) d s) (parse_elems f' d' s)"
    unfolding f(1) parse_elems.simps(2)
    by (intro below_intros) (use IH Suc.prems(2) in simp_all)
  ultimately show ?case by simp
qed simp

lemma parse_mono:
  "parse_value f d s = Some x \<Longrightarrow> f \<le> f' \<Longrightarrow> d' \<le> d \<Longrightarrow> parse_value f' d' s = Some x"
  "parse_members f d s = Some y \<Longrightarrow> f \<le> f' \<Longrightarrow> d' \<le> d \<Longrightarrow> parse_members f' d' s = Some y"
  "parse_elems f d s = Some z \<Longrightarrow> f \<le> f' \<Longrightarrow> d' \<le> d \<Longrightarrow> parse_elems f' d' s = Some z"
  using parse_below [of f f' d' d s] by (auto simp: below_def)

lemma parse_stable:
  "(2 * length s + 1 \<le> f \<longrightarrow> below (parse_value f' d s) (parse_value f d s))
   \<and> (2 * length s + 2 \<le> f \<longrightarrow> below (parse_members f' d s) (parse_members f d s))
   \<and> (2 * length s + 2 \<le> f \<longrightarrow> below (parse_elems f' d s) (parse_elems f d s))"
proof (induction f' arbitrary: f d s)
  case (Suc f')
  show ?case
  proof (cases f)
    case (Suc f1)
    have v: "below (parse_value (Suc f') d s) (parse_value f d s)" if "2 * length s + 1 \<le> f"
      unfolding Suc parse_value.simps(2)
      by (intro below_intros) (use Suc.IH [of _ f1] Suc that in \<open>auto dest!: next_byte_length\<close>)
    have m: "below (parse_members (Suc f') d s) (parse_members f d s)" if "2 * length s + 2 \<le> f"
      unfolding Suc parse_members.simps(2)
      by (intro below_intros)
        (use Suc.IH [of _ f1] Suc that in
          \<open>auto dest!: next_byte_length expect_length scan_string_length parse_length(1)\<close>)
    have e: "below (parse_elems (Suc f') d s) (parse_elems f d s)" if "2 * length s + 2 \<le> f"
      unfolding Suc parse_elems.simps(2)
      by (intro below_intros)
        (use Suc.IH [of _ f1] Suc that in \<open>auto dest!: next_byte_length parse_length(1)\<close>)
    show ?thesis using v m e by blast
  qed simp
qed simp

theorem json_prefix_stable:
  "parse_value f d s = Some x \<Longrightarrow> json_prefix d s = Some x"
  "2 * length s + 1 \<le> f \<Longrightarrow> parse_value f d s = json_prefix d s"
proof -
  show a: "json_prefix d s = Some x" if "parse_value f d s = Some x" for x
    using parse_stable [of s "2 * length s + 1" f d] that by (auto simp: json_prefix_def below_def)
  assume "2 * length s + 1 \<le> f"
  then have "below (json_prefix d s) (parse_value f d s)"
    using parse_below [of "2 * length s + 1" f d d s] by (simp add: json_prefix_def)
  with a show "parse_value f d s = json_prefix d s"
    by (cases "json_prefix d s"; cases "parse_value f d s") (auto simp: below_def)
qed

section \<open>String literals round trip\<close>

lemma hex_char_ok: "n < 16 \<Longrightarrow> isHexDigit (hex_char n) \<and> hex_val (hex_char n) = n"
  by (auto simp: hex_char_def isHexDigit_def hex_val_def Let_def)

lemma hex_digits: "r < 65536 \<Longrightarrow>
  ((r div 4096 mod 16 * 16 + r div 256 mod 16) * 16 + r div 16 mod 16) * 16 + r mod 16 = (r :: nat)"
proof -
  assume "r < 65536"
  then have "r div 256 div 16 = r div 4096" "r div 16 div 16 = r div 256" "r div 4096 mod 16 = r div 4096"
    by (simp_all add: div_mult2_eq [symmetric])
  then show ?thesis by (metis div_mult_mod_eq)
qed

lemma getu4_u_escape: "r < 65536 \<Longrightarrow> getu4 (u_escape r @ t) = Some r"
  using hex_digits [of r] by (simp add: getu4_def u_escape_def hex_char_ok del: mod_mod_trivial)

lemma utf8_len_take: "0 < utf8_len s \<Longrightarrow> utf8_len (take (utf8_len s) s @ t) = utf8_len s"
  by (cases s) (auto simp: Let_def split: list.splits if_splits)

lemma utf8_len_ascii: "s \<noteq> [] \<Longrightarrow> (of_char (hd s) :: nat) < 0x80 \<Longrightarrow> utf8_len s = 1"
  by (cases s) (auto simp: Let_def)

lemma second_ok_high: "second_ok b c \<Longrightarrow> 0x80 \<le> (of_char c :: nat)"
  by (auto simp: second_ok_def cont_def split: if_splits)

lemma utf8_high_bytes: "0x80 \<le> (of_char (hd s) :: nat) \<Longrightarrow> \<forall>c \<in> set (take (utf8_len s) s). 0x80 \<le> (of_char c :: nat)"
  by (cases s) (auto simp: Let_def cont_def dest: second_ok_high split: list.splits if_splits)

lemma char_of_bytes:
  "char_of (226 :: nat) = CHR 0xE2" "char_of (128 :: nat) = CHR 0x80"
  "char_of (168 :: nat) = CHR 0xA8" "char_of (169 :: nat) = CHR 0xA9"
  using char_of_char [of "CHR 0xE2"] char_of_char [of "CHR 0x80"]
    char_of_char [of "CHR 0xA8"] char_of_char [of "CHR 0xA9"] by simp_all

lemma line_separators [simp]: "utf8_encode 0x2028 = [CHR 0xE2, CHR 0x80, CHR 0xA8]"
  "utf8_encode 0x2029 = [CHR 0xE2, CHR 0x80, CHR 0xA9]"
  by (simp_all add: utf8_encode_def char_of_bytes)

lemma unquote_quote_step:
  assumes "s \<noteq> []" "0 < utf8_len s"
  shows "unquote_step (fst (quote_step s) @ t) = (take (utf8_len s) s, length (fst (quote_step s)))
    \<and> snd (quote_step s) = utf8_len s"
proof (cases "(of_char (hd s) :: nat) < 0x80")
  case True
  then have l: "utf8_len s = 1" using assms utf8_len_ascii by blast
  obtain c cs where s: "s = c # cs" using assms(1) by (cases s) auto
  have "utf8_encode (of_char c) = [c]" "\<not> (0xD800 \<le> (of_char c :: nat) \<and> of_char c < (0xE000 :: nat))"
    using True s by (simp_all add: utf8_encode_def)
  then have u: "unquote_step (u_escape (of_char c) @ t) = ([c], 6)"
    using getu4_u_escape [of "of_char c" t] True s
    by (simp add: unquote_step_def u_escape_def)
  have esc: "unquote_step ([backslash, e] @ t) = ([escaped e], 2)" if "e \<noteq> CHR ''u''" for e
    using that by (auto simp: unquote_step_def getu4_def split: list.split)
  have pl: "unquote_step ([c] @ t) = ([c], 1)" if "c \<noteq> backslash"
    using that True s by (simp add: unquote_step_def)
  have q: "fst (quote_step s) = [backslash, e] \<and> escaped e = c \<and> e \<noteq> CHR ''u''
      \<or> fst (quote_step s) = u_escape (of_char c) \<or> fst (quote_step s) = [c] \<and> c \<noteq> backslash"
    if "e = (if c = CHR 0x08 then CHR ''b'' else if c = CHR 0x0C then CHR ''f'' else if c = CHR 0x0A then CHR ''n''
      else if c = CHR 0x0D then CHR ''r'' else if c = CHR 0x09 then CHR ''t'' else c)" for e
    using True s that by (simp add: quote_step_def Let_def escaped_def)
  from q [OF refl] show ?thesis
  proof (elim disjE conjE)
    assume "fst (quote_step s) = u_escape (of_char c)"
    then show ?thesis using u True l s by (simp add: quote_step_def Let_def u_escape_def)
  qed (use esc pl True l s in \<open>simp_all add: quote_step_def Let_def\<close>)
next
  case False
  have h: "hd s \<noteq> backslash" using False by auto
  have n: "0 < utf8_len s" by (rule assms(2))
  have e: "unquote_step (u_escape 0x2028 @ t) = ([CHR 0xE2, CHR 0x80, CHR 0xA8], 6)"
    "unquote_step (u_escape 0x2029 @ t) = ([CHR 0xE2, CHR 0x80, CHR 0xA9], 6)"
    using getu4_u_escape [of "0x2028" t] getu4_u_escape [of "0x2029" t]
    by (simp_all add: unquote_step_def u_escape_def)
  have l3: "utf8_len s = 3" if "take 3 s = [CHR 0xE2, CHR 0x80, x]" "x = CHR 0xA8 \<or> x = CHR 0xA9" for x
  proof -
    have "s = take 3 s @ drop 3 s" by simp
    then have "s = CHR 0xE2 # CHR 0x80 # x # drop 3 s" using that(1) by simp
    then show ?thesis using that(2) by (elim ssubst) (auto simp: Let_def second_ok_def cont_def seq2_def seq3_def)
  qed
  have c: "unquote_step (take (utf8_len s) s @ t) = (take (utf8_len s) s, utf8_len s)"
  proof -
    have "take (utf8_len s) s \<noteq> []" "hd (take (utf8_len s) s @ t) \<noteq> backslash"
      using assms h by (cases s; cases "utf8_len s"; simp)+
    then show ?thesis using utf8_len_take [OF n, of t] n utf8_len_le [of s]
      by (simp add: unquote_step_def)
  qed
  show ?thesis
    using False n e c l3 utf8_len_le [of s] by (auto simp: quote_step_def Let_def u_escape_def)
qed

lemma unquote_quote_append: "valid_utf8 s \<Longrightarrow> unquote (quote_body s @ t) = s @ unquote t"
proof (induction s rule: valid_utf8.induct)
  case (1 s)
  show ?case
  proof (cases "s = []")
    case True
    then show ?thesis by (simp add: quote_body.simps)
  next
    case False
    have n: "0 < utf8_len s" using "1.prems" False by (subst (asm) valid_utf8.simps) (auto split: if_splits)
    have v: "valid_utf8 (drop (utf8_len s) s)"
      using "1.prems" False by (subst (asm) valid_utf8.simps) (auto split: if_splits)
    let ?b = "fst (quote_step s)" and ?s' = "drop (utf8_len s) s"
    note step = unquote_quote_step [OF False n]
    have b: "?b \<noteq> []" using False by (auto simp: quote_step_def Let_def u_escape_def)
    have "quote_body s @ t = ?b @ (quote_body ?s' @ t)"
      using False step [of t] by (subst quote_body.simps) simp
    also have "unquote \<dots> = take (utf8_len s) s @ unquote (quote_body ?s' @ t)"
      using step [of "quote_body ?s' @ t"] b by (subst unquote.simps) simp
    also have "unquote (quote_body ?s' @ t) = ?s' @ unquote t"
      using "1.IH" [OF False _ v] n by simp
    finally show ?thesis by simp
  qed
qed

lemma unquote_quote_body [simp]: "valid_utf8 s \<Longrightarrow> unquote (quote_body s) = s"
  using unquote_quote_append [of s "[]"] by (simp add: unquote.simps)

definition plain_byte :: "char \<Rightarrow> bool" where
  "plain_byte c \<longleftrightarrow> c \<noteq> dquote \<and> c \<noteq> backslash \<and> 32 \<le> (of_char c :: nat)"

lemma scan_plain: "\<forall>c \<in> set b. plain_byte c \<Longrightarrow> scan_string (b @ t) = map_option (\<lambda>(a, r). (b @ a, r)) (scan_string t)"
proof (induction b)
  case (Cons c b)
  then have "scan_string ((c # b) @ t) = map_option (\<lambda>(a, r). (c # a, r)) (scan_string (b @ t))"
    by (simp add: plain_byte_def)
  then show ?case using Cons by (simp add: option.map_comp comp_def case_prod_unfold)
qed (simp add: case_prod_unfold option.map_ident)

lemma scan_quote_step:
  assumes "s \<noteq> []"
  shows "scan_string (fst (quote_step s) @ t) = map_option (\<lambda>(a, r). (fst (quote_step s) @ a, r)) (scan_string t)"
proof -
  have u: "scan_string (u_escape r @ t) = map_option (\<lambda>(a, q). (u_escape r @ a, q)) (scan_string t)" if "r < 65536" for r
    by (simp add: u_escape_def hex_char_ok)
  have p: "plain_byte c" if "0x80 \<le> (of_char c :: nat)" for c using that by (auto simp: plain_byte_def)
  have h: "\<forall>c \<in> set (take (utf8_len s) s). plain_byte c" if "\<not> (of_char (hd s) :: nat) < 0x80"
    using utf8_high_bytes [of s] that p by auto
  have a: "\<forall>c \<in> set [hd s]. plain_byte c"
    if "hd s \<noteq> dquote" "hd s \<noteq> backslash" "\<not> (of_char (hd s) :: nat) < 32"
    using that by (auto simp: plain_byte_def)
  show ?thesis
    using u scan_plain [OF h] scan_plain [OF a]
    by (auto simp: quote_step_def Let_def)
qed

lemma scan_quote_body: "scan_string (quote_body s @ dquote # r) = Some (quote_body s, r)"
proof (induction s rule: quote_body.induct)
  case (1 s)
  show ?case
  proof (cases "s = []")
    case False
    have "quote_body s = fst (quote_step s) @ quote_body (drop (snd (quote_step s)) s)"
      using False by (subst quote_body.simps) simp
    then show ?thesis using scan_quote_step [OF False] "1.IH" [OF False] by simp
  qed (simp add: quote_body.simps)
qed

section \<open>Values round trip\<close>

definition wf_num :: "string \<Rightarrow> bool" where
  "wf_num n \<longleftrightarrow> scan_number n = Some (n, [])"

fun wf_json :: "nat \<Rightarrow> json \<Rightarrow> bool" where
  "wf_json d JNull = True"
| "wf_json d (JBool b) = True"
| "wf_json d (JNum n) = wf_num n"
| "wf_json d (JStr s) = valid_utf8 s"
| "wf_json d (JArr vs) = (d < maxNestingDepth \<and> list_all (wf_json (d + 1)) vs)"
| "wf_json d (JObj kvs) = (d < maxNestingDepth \<and> list_all (\<lambda>(k, v). valid_utf8 k \<and> wf_json (d + 1) v) kvs)"

definition num_stop :: "string \<Rightarrow> bool" where
  "num_stop t \<longleftrightarrow> t = [] \<or> \<not> isDigit (hd t) \<and> hd t \<notin> set ''.eE''"

lemma takeWhile_stop: "t = [] \<or> \<not> P (hd t) \<Longrightarrow> takeWhile P (s @ t) = takeWhile P s \<and> dropWhile P (s @ t) = dropWhile P s @ t"
  by (induction s) (auto simp: takeWhile_eq_Nil_iff dropWhile_eq_self_iff)

lemma digits_stop:
  assumes "num_stop t"
  shows "takeWhile isDigit (s @ t) = takeWhile isDigit s" "dropWhile isDigit (s @ t) = dropWhile isDigit s @ t"
  using takeWhile_stop [of t isDigit s] assms by (auto simp: num_stop_def)

lemma scan_int_append: "scan_int s = Some (n, r) \<Longrightarrow> num_stop t \<Longrightarrow> scan_int (s @ t) = Some (n, r @ t)"
  using digits_stop [of t s] by (cases s) (auto simp: scan_int_def split: if_splits)

lemma scan_frac_append: "scan_frac s = Some (n, r) \<Longrightarrow> num_stop t \<Longrightarrow> scan_frac (s @ t) = Some (n, r @ t)"
proof (cases s)
  case Nil
  then show "scan_frac s = Some (n, r) \<Longrightarrow> num_stop t \<Longrightarrow> ?thesis"
    by (cases t) (auto simp: scan_frac_def num_stop_def)
next
  case (Cons c cs)
  then show "scan_frac s = Some (n, r) \<Longrightarrow> num_stop t \<Longrightarrow> ?thesis"
    using digits_stop [of t cs] by (auto simp: scan_frac_def split: if_splits)
qed

lemma scan_exp_append: "scan_exp s = Some (n, r) \<Longrightarrow> num_stop t \<Longrightarrow> scan_exp (s @ t) = Some (n, r @ t)"
proof (cases s)
  case Nil
  then show "scan_exp s = Some (n, r) \<Longrightarrow> num_stop t \<Longrightarrow> ?thesis"
    by (cases t) (auto simp: scan_exp_def num_stop_def)
next
  case (Cons c cs)
  have "exp_sign (cs @ t) = (case exp_sign cs of (sg, ds) \<Rightarrow> (sg, ds @ t))" if "cs \<noteq> []"
    using that by (cases cs) (auto simp: exp_sign_def)
  moreover have "exp_sign [] = ([], [])" by (simp add: exp_sign_def)
  moreover obtain sg ds where "exp_sign cs = (sg, ds)" by fastforce
  ultimately show "scan_exp s = Some (n, r) \<Longrightarrow> num_stop t \<Longrightarrow> ?thesis"
    using Cons digits_stop [of t ds] by (cases "cs = []") (auto simp: scan_exp_def split: if_splits)
qed

lemma scan_number_append:
  assumes "scan_number s = Some (n, r)" "num_stop t"
  shows "scan_number (s @ t) = Some (n, r @ t)"
proof -
  obtain c cs where s: "s = c # cs"
    using assms(1) by (cases s) (auto simp: scan_number_def scan_int_def)
  define s0 where "s0 = (if c = CHR ''-'' then cs else s)"
  define sg where "sg = (if c = CHR ''-'' then [c] else [])"
  obtain i s1 fr s2 e where p: "scan_int s0 = Some (i, s1)" "scan_frac s1 = Some (fr, s2)"
      "scan_exp s2 = Some (e, r)" "n = sg @ i @ fr @ e"
    using assms(1) by (auto simp: scan_number_def s s0_def sg_def bind_eq_Some_conv split: if_splits)
  show ?thesis
    using scan_int_append [OF p(1) assms(2)] scan_frac_append [OF p(2) assms(2)] scan_exp_append [OF p(3) assms(2)] p(4)
    by (auto simp: scan_number_def s s0_def sg_def split: if_splits)
qed

lemma scan_number_head: "scan_number s = Some (n, r) \<Longrightarrow> \<exists>c cs. s = c # cs \<and> (c = CHR ''-'' \<or> isDigit c)"
  by (cases s) (auto simp: scan_number_def scan_int_def isDigit_def bind_eq_Some_conv split: if_splits list.splits)

lemma isWs_not: "isWs c \<Longrightarrow> c \<noteq> dquote \<and> c \<noteq> CHR ''-'' \<and> \<not> isDigit c \<and> c \<notin> set ''{}[],:tfn''"
  by (auto simp: isWs_def isDigit_def Let_def)

lemma next_byte_Cons [simp]: "\<not> isWs c \<Longrightarrow> next_byte (c # cs) = Some (c, cs)"
  by (simp add: next_byte_def skip_ws_def)

lemma expect_Cons: "\<not> isWs c \<Longrightarrow> expect x (c # cs) = (if c = x then Some cs else None)"
  by (simp add: expect_def)

lemma punct_not_ws [simp]: "\<not> isWs CHR ''{''" "\<not> isWs CHR ''}''" "\<not> isWs CHR ''[''" "\<not> isWs CHR '']''"
  "\<not> isWs CHR '',''" "\<not> isWs CHR '':''" "\<not> isWs dquote"
  by (simp_all add: isWs_def)

lemma marshal_head:
  "wf_json d j \<Longrightarrow> \<exists>c cs. marshal j = c # cs \<and> \<not> isWs c \<and> c \<noteq> CHR '']'' \<and> c \<noteq> CHR ''}''"
proof (cases j)
  case (JNum n)
  assume "wf_json d j"
  then obtain c cs where "n = c # cs" "c = CHR ''-'' \<or> isDigit c"
    using JNum scan_number_head [of n n "[]"] by (auto simp: wf_num_def)
  then show ?thesis using JNum by (auto simp: isWs_def isDigit_def Let_def)
qed (auto simp: quote_def isWs_def)

lemma parse_literal:
  assumes "c \<notin> {dquote, CHR ''{'', CHR ''[''}" "\<not> isWs c" "scan_literal (c # cs) = Some (v, r)"
  shows "parse_value 1 d (c # cs) = Some (v, r)"
  using assms by (simp add: parse_value.simps(2))

lemma parse_marshal_num:
  assumes "wf_num n" "num_stop t"
  shows "parse_value 1 d (n @ t) = Some (JNum n, t)"
proof -
  obtain c cs where n: "n = c # cs" "c = CHR ''-'' \<or> isDigit c"
    using assms(1) scan_number_head [of n n "[]"] by (auto simp: wf_num_def)
  have c: "c \<notin> {dquote, CHR ''{'', CHR ''[''}" "c \<notin> set ''ntf''" "\<not> isWs c"
    using n(2) isWs_not [of c] by (auto simp: isDigit_def Let_def)
  have "scan_number (n @ t) = Some (n, t)"
    using scan_number_append [of n n "[]" t] assms by (simp add: wf_num_def)
  then have "scan_literal (n @ t) = Some (JNum n, t)" using c(2) n(1) by (auto simp: scan_literal_def)
  then show ?thesis using parse_literal [OF c(1,3), of "cs @ t"] n(1) by simp
qed

lemma parse_quote:
  "valid_utf8 s \<Longrightarrow> parse_value 1 d (quote s @ t) = Some (JStr s, t)"
  using scan_quote_body [of s t] by (simp add: parse_value.simps(2) quote_def)

definition parses :: "nat \<Rightarrow> string \<Rightarrow> json \<Rightarrow> string \<Rightarrow> bool" where
  "parses d s v r \<longleftrightarrow> (\<exists>f. parse_value f d s = Some (v, r))"

lemma join_comma_Cons: "xs \<noteq> [] \<Longrightarrow> join_comma (x # xs) = x @ CHR '','' # join_comma xs"
  by (cases xs) auto

lemma num_stop_punct [simp]: "num_stop (CHR '','' # t)" "num_stop (CHR '']'' # t)" "num_stop (CHR ''}'' # t)" "num_stop []"
  by (simp_all add: num_stop_def isDigit_def)

lemma parse_elems_marshal:
  assumes "vs \<noteq> []" "\<And>v t. v \<in> set vs \<Longrightarrow> num_stop t \<Longrightarrow> parses d (marshal v @ t) v t"
  shows "\<exists>f. parse_elems f d (join_comma (map marshal vs) @ CHR '']'' # rest) = Some (vs, rest)"
  using assms
proof (induction vs rule: list_nonempty_induct)
  case (single v)
  then obtain f where "parse_value f d (marshal v @ CHR '']'' # rest) = Some (v, CHR '']'' # rest)"
    by (fastforce simp: parses_def)
  then have "parse_elems (Suc f) d (join_comma (map marshal [v]) @ CHR '']'' # rest) = Some ([v], rest)"
    by (simp add: parse_elems.simps(2))
  then show ?case by blast
next
  case (cons v vs)
  let ?t = "join_comma (map marshal vs) @ CHR '']'' # rest"
  obtain f where f: "parse_value f d (marshal v @ CHR '','' # ?t) = Some (v, CHR '','' # ?t)"
    using cons.prems by (fastforce simp: parses_def)
  obtain g where g: "parse_elems g d ?t = Some (vs, rest)"
    using cons.IH cons.prems by auto
  have "parse_elems (Suc (max f g)) d (marshal v @ CHR '','' # ?t) = Some (v # vs, rest)"
    using parse_mono(1) [OF f, of "max f g" d] parse_mono(3) [OF g, of "max f g" d]
    by (simp add: parse_elems.simps(2))
  then show ?case using cons.hyps by (metis append.assoc append_Cons join_comma_Cons list.map(2) map_is_Nil_conv)
qed

lemma parse_members_marshal:
  assumes "kvs \<noteq> []" "\<And>k v t. (k, v) \<in> set kvs \<Longrightarrow> num_stop t \<Longrightarrow> valid_utf8 k \<and> parses d (marshal v @ t) v t"
  shows "\<exists>f. parse_members f d (join_comma (map (\<lambda>(k, v). quote k @ CHR '':'' # marshal v) kvs) @ CHR ''}'' # rest) = Some (kvs, rest)"
  using assms
proof (induction kvs rule: list_nonempty_induct)
  case (single kv)
  obtain k v where kv: "kv = (k, v)" by (cases kv)
  then obtain f where f: "valid_utf8 k" "parse_value f d (marshal v @ CHR ''}'' # rest) = Some (v, CHR ''}'' # rest)"
    using single [of k v "CHR ''}'' # rest"] by (auto simp: parses_def)
  have "parse_members (Suc f) d (quote k @ CHR '':'' # marshal v @ CHR ''}'' # rest) = Some ([(k, v)], rest)"
    using f scan_quote_body [of k] by (simp add: parse_members.simps(2) quote_def expect_Cons)
  then show ?case by (auto simp: kv)
next
  case (cons kv kvs)
  obtain k v where kv: "kv = (k, v)" by (cases kv)
  let ?t = "join_comma (map (\<lambda>(k, v). quote k @ CHR '':'' # marshal v) kvs) @ CHR ''}'' # rest"
  obtain f where f: "valid_utf8 k" "parse_value f d (marshal v @ CHR '','' # ?t) = Some (v, CHR '','' # ?t)"
    using cons.prems [of k v "CHR '','' # ?t"] kv by (auto simp: parses_def)
  obtain g where g: "parse_members g d ?t = Some (kvs, rest)"
    using cons.IH cons.prems by auto
  have "parse_members (Suc (max f g)) d (quote k @ CHR '':'' # marshal v @ CHR '','' # ?t) = Some ((k, v) # kvs, rest)"
    using parse_mono(1) [OF f(2), of "max f g" d] parse_mono(2) [OF g, of "max f g" d] f(1) scan_quote_body [of k]
    by (simp add: parse_members.simps(2) quote_def expect_Cons)
  moreover have "join_comma (map (\<lambda>(k, v). quote k @ CHR '':'' # marshal v) (kv # kvs)) @ CHR ''}'' # rest
      = quote k @ CHR '':'' # marshal v @ CHR '','' # ?t"
    using cons.hyps by (simp add: kv join_comma_Cons)
  ultimately have "parse_members (Suc (max f g)) d (join_comma (map (\<lambda>(k, v). quote k @ CHR '':'' # marshal v) (kv # kvs))
      @ CHR ''}'' # rest) = Some (kv # kvs, rest)"
    by (simp only: kv)
  then show ?case by (rule exI)
qed

lemma join_comma_head: "xs \<noteq> [] \<Longrightarrow> \<exists>t. join_comma xs = hd xs @ t"
  by (cases xs; cases "tl xs") auto

theorem parse_marshal: "wf_json d j \<Longrightarrow> num_stop t \<Longrightarrow> parses d (marshal j @ t) j t"
proof (induction j arbitrary: d t)
  case (JNum n)
  then show ?case using parse_marshal_num [of n t d] unfolding parses_def by auto
next
  case (JStr s)
  then show ?case using parse_quote [of s d t] unfolding parses_def by auto
next
  case (JArr vs)
  then have d: "d < maxNestingDepth" by simp
  show ?case
  proof (cases "vs = []")
    case True
    then have "parse_value 1 d (marshal (JArr vs) @ t) = Some (JArr vs, t)"
      using d by (simp add: parse_value.simps(2) expect_Cons)
    then show ?thesis unfolding parses_def by blast
  next
    case False
    have w: "wf_json (d + 1) v" if "v \<in> set vs" for v using JArr.prems that by (simp add: list_all_iff)
    then obtain f where f: "parse_elems f (d + 1) (join_comma (map marshal vs) @ CHR '']'' # t) = Some (vs, t)"
      using parse_elems_marshal [OF False, of "d + 1" t] JArr.IH by blast
    obtain u where "join_comma (map marshal vs) = marshal (hd vs) @ u"
      using join_comma_head [of "map marshal vs"] False by (auto simp: hd_map)
    then have "expect (CHR '']'') (join_comma (map marshal vs) @ CHR '']'' # t) = None"
      using marshal_head [OF w [of "hd vs"]] False by (auto simp: expect_Cons)
    then have "parse_value (Suc f) d (marshal (JArr vs) @ t) = Some (JArr vs, t)"
      using d f by (simp add: parse_value.simps(2))
    then show ?thesis unfolding parses_def by blast
  qed
next
  case (JObj kvs)
  then have d: "d < maxNestingDepth" by simp
  let ?m = "map (\<lambda>(k, v). quote k @ CHR '':'' # marshal v) kvs"
  show ?case
  proof (cases "kvs = []")
    case True
    then have "parse_value 1 d (marshal (JObj kvs) @ t) = Some (JObj kvs, t)"
      using d by (simp add: parse_value.simps(2) expect_Cons)
    then show ?thesis unfolding parses_def by blast
  next
    case False
    have w: "valid_utf8 k \<and> wf_json (d + 1) v" if "(k, v) \<in> set kvs" for k v
      using JObj.prems that by (auto simp: list_all_iff)
    have "valid_utf8 k \<and> parses (d + 1) (marshal v @ t') v t'" if "(k, v) \<in> set kvs" "num_stop t'" for k v t'
      using w [OF that(1)] JObj.IH [of "(k, v)" v "d + 1" t'] that by simp
    then obtain f where f: "parse_members f (d + 1) (join_comma ?m @ CHR ''}'' # t) = Some (kvs, t)"
      using parse_members_marshal [OF False, of "d + 1" t] by blast
    obtain u where "join_comma ?m = hd ?m @ u" using join_comma_head [of ?m] False by auto
    then have "expect (CHR ''}'') (join_comma ?m @ CHR ''}'' # t) = None"
      using False by (cases kvs) (auto simp: quote_def expect_Cons)
    then have "parse_value (Suc f) d (marshal (JObj kvs) @ t) = Some (JObj kvs, t)"
      using d f by (simp add: parse_value.simps(2))
    then show ?thesis unfolding parses_def by blast
  qed
qed (auto simp: parses_def scan_literal_def isWs_def intro!: exI [of _ 1] parse_literal)

theorem json_round_trip: "wf_json 0 j \<Longrightarrow> json_parse (marshal j) = Some j"
  using parse_marshal [of 0 j "[]"] json_prefix_stable(1)
  by (fastforce simp: parses_def json_parse_def skip_ws_def)

section \<open>An answer depends only on the text read\<close>

lemma next_byte_split: "next_byte s = Some (c, r) \<longleftrightarrow> (\<exists>w. s = w @ c # r \<and> list_all isWs w \<and> \<not> isWs c)"
proof
  assume "next_byte s = Some (c, r)"
  then have d: "dropWhile isWs s = c # r" by (simp add: next_byte_def skip_ws_def split: list.splits)
  then have "s = takeWhile isWs s @ c # r" by (metis takeWhile_dropWhile_id)
  moreover have "list_all isWs (takeWhile isWs s)" by (simp add: list_all_iff) (meson set_takeWhileD)
  moreover have "\<not> isWs c" using d by (metis hd_dropWhile list.distinct(1) list.sel(1))
  ultimately show "\<exists>w. s = w @ c # r \<and> list_all isWs w \<and> \<not> isWs c" by blast
next
  assume "\<exists>w. s = w @ c # r \<and> list_all isWs w \<and> \<not> isWs c"
  then obtain w where "s = w @ c # r" "list_all isWs w" "\<not> isWs c" by blast
  then show "next_byte s = Some (c, r)"
    by (simp add: next_byte_def skip_ws_def dropWhile_append2 list_all_iff)
qed

lemma next_byte_ws [simp]: "list_all isWs w \<Longrightarrow> \<not> isWs c \<Longrightarrow> next_byte (w @ c # r) = Some (c, r)"
  by (auto simp: next_byte_split)

lemma expect_iff: "expect x s = Some r \<longleftrightarrow> next_byte s = Some (x, r)"
  by (auto simp: expect_def bind_eq_Some_conv split: if_splits)

lemma scan_string_split: "scan_string s = Some (raw, r) \<Longrightarrow> s = raw @ dquote # r \<and> scan_string (raw @ dquote # r') = Some (raw, r')"
proof (induction s arbitrary: raw rule: scan_string.induct)
  case (2 c cs)
  show ?case
  proof (cases "c = dquote")
    case True
    with "2.prems" show ?thesis by simp
  next
    case q: False
    show ?thesis
    proof (cases "c = backslash")
      case False
      then obtain a where "scan_string cs = Some (a, r)" "raw = c # a" "\<not> (of_char c :: nat) < 32"
        using "2.prems" q by (auto split: if_splits)
      then show ?thesis using "2.IH"(3) [OF q False] q False by simp
    next
      case b: True
      then obtain e es where cs: "cs = e # es" using "2.prems" q by (cases cs) auto
      show ?thesis
      proof (cases "e = CHR ''u''")
        case True
        then obtain h1 h2 h3 h4 t a where t: "es = h1 # h2 # h3 # h4 # t" "list_all isHexDigit [h1, h2, h3, h4]"
          "scan_string t = Some (a, r)" "raw = c # e # h1 # h2 # h3 # h4 # a"
          using "2.prems" q b cs by (auto split: list.splits if_splits)
        then show ?thesis using "2.IH"(1) [OF q b cs True t(1) refl refl refl t(2,3)] b True cs by simp
      next
        case False
        then obtain a where t: "e \<in> set ''bfnrt/'' \<union> {dquote, backslash}" "scan_string es = Some (a, r)" "raw = c # e # a"
          using "2.prems" q b cs by (auto split: if_splits)
        then show ?thesis using "2.IH"(2) [OF q b cs False t(1,2)] b False cs by simp
      qed
    qed
  qed
qed simp

lemma scan_int_split: "scan_int s = Some (n, r) \<Longrightarrow> s = n @ r \<and> scan_int n = Some (n, [])"
  by (auto simp: scan_int_def takeWhile_takeWhile dropWhile_eq_Nil_conv dest: set_takeWhileD split: list.splits if_splits)

lemma scan_frac_split: "scan_frac s = Some (n, r) \<Longrightarrow> s = n @ r \<and> scan_frac n = Some (n, [])"
  by (auto simp: scan_frac_def dropWhile_eq_Nil_conv dest: set_takeWhileD split: list.splits if_splits)

lemma scan_exp_split: "scan_exp s = Some (n, r) \<Longrightarrow> s = n @ r \<and> scan_exp n = Some (n, [])"
  by (auto simp: scan_exp_def exp_sign_def dropWhile_eq_Nil_conv isDigit_def dest: set_takeWhileD split: list.splits if_splits prod.splits)
    (metis append_Nil takeWhile_dropWhile_id)+

lemma scan_number_split: "scan_number s = Some (n, r) \<Longrightarrow> s = n @ r \<and> scan_number n = Some (n, [])"
proof -
  assume a: "scan_number s = Some (n, r)"
  obtain c cs where s: "s = c # cs" using scan_number_head [OF a] by blast
  define s0 where "s0 = (if c = CHR ''-'' then cs else s)"
  define sg where "sg = (if c = CHR ''-'' then [c] else [])"
  obtain i s1 fr s2 e where p: "scan_int s0 = Some (i, s1)" "scan_frac s1 = Some (fr, s2)"
      "scan_exp s2 = Some (e, r)" "n = sg @ i @ fr @ e"
    using a by (auto simp: scan_number_def s s0_def sg_def bind_eq_Some_conv split: if_splits)
  note q = scan_int_split [OF p(1)] scan_frac_split [OF p(2)] scan_exp_split [OF p(3)]
  have e: "s = n @ r" using p(4) q s by (auto simp: s0_def sg_def split: if_splits)
  have fe: "e = [] \<or> (\<exists>x y. e = x # y \<and> (x = CHR ''e'' \<or> x = CHR ''E''))"
    using q by (cases e) (auto simp: scan_exp_def split: if_splits)
  have ff: "fr = [] \<or> (\<exists>y. fr = CHR ''.'' # y)"
    using q by (cases fr) (auto simp: scan_frac_def split: if_splits)
  have d: "\<not> isDigit CHR ''.''" "\<not> isDigit CHR ''e''" "\<not> isDigit CHR ''E''" by (simp_all add: isDigit_def)
  have 1: "scan_int (i @ fr @ e) = Some (i, fr @ e)"
    using q ff fe d takeWhile_stop [of "fr @ e" isDigit i]
    by (cases i) (auto simp: scan_int_def split: if_splits)
  have 2: "scan_frac (fr @ e) = Some (fr, e)"
  proof (cases fr)
    case Nil
    then show ?thesis using fe by (auto simp: scan_frac_def)
  next
    case (Cons x y)
    then show ?thesis using q fe d takeWhile_stop [of e isDigit y]
      by (auto simp: scan_frac_def split: if_splits)
  qed
  have i0: "i \<noteq> []" using q p(1) by (auto simp: scan_int_def)
  then have "hd i \<noteq> CHR ''-''" using q by (cases i) (auto simp: scan_int_def isDigit_def split: if_splits)
  then have "scan_number n = Some (n, [])"
    using 1 2 q p(4) i0 by (cases i) (auto simp: scan_number_def sg_def split: if_splits)
  with e show ?thesis by blast
qed

lemma scan_literal_local:
  assumes "scan_literal s = Some (v, r)"
  shows "\<exists>a. s = a @ r \<and> a \<noteq> [] \<and> (\<forall>r'. num_stop r' \<longrightarrow> scan_literal (a @ r') = Some (v, r'))"
proof -
  have p: "\<exists>a. s = a @ r \<and> a \<noteq> [] \<and> (\<forall>r'. num_stop r' \<longrightarrow> scan_literal (a @ r') = Some (v, r'))"
    if "HasPrefix s p" "p = ''null'' \<and> v = JNull \<or> p = ''true'' \<and> v = JBool True \<or> p = ''false'' \<and> v = JBool False"
       "r = drop (length p) s" for p
  proof -
    have "s = p @ r" using that(1,3) by (auto simp: HasPrefix_iff)
    moreover have "scan_literal (p @ r') = Some (v, r')" for r' using that(2) by (auto simp: scan_literal_def)
    ultimately show ?thesis using that(2) by auto
  qed
  show ?thesis
  proof (cases "HasPrefix s ''null'' \<or> HasPrefix s ''true'' \<or> HasPrefix s ''false''")
    case True
    then have "HasPrefix s ''null'' \<and> v = JNull \<and> r = drop (length ''null'') s
        \<or> HasPrefix s ''true'' \<and> v = JBool True \<and> r = drop (length ''true'') s
        \<or> HasPrefix s ''false'' \<and> v = JBool False \<and> r = drop (length ''false'') s"
      using assms by (simp add: scan_literal_def eval_nat_numeral split: if_splits)
    then show ?thesis
    proof (elim disjE conjE)
      assume "HasPrefix s ''null''" "v = JNull" "r = drop (length ''null'') s"
      then show ?thesis by (intro p [of "''null''"]) simp_all
    next
      assume "HasPrefix s ''true''" "v = JBool True" "r = drop (length ''true'') s"
      then show ?thesis by (intro p [of "''true''"]) simp_all
    next
      assume "HasPrefix s ''false''" "v = JBool False" "r = drop (length ''false'') s"
      then show ?thesis by (intro p [of "''false''"]) simp_all
    qed
  next
    case False
    then obtain n where n: "scan_number s = Some (n, r)" "v = JNum n"
      using assms by (auto simp: scan_literal_def split: if_splits)
    note sp = scan_number_split [OF n(1)]
    obtain c cs where c: "n = c # cs" "c = CHR ''-'' \<or> isDigit c" using sp scan_number_head [of n] by blast
    have "scan_literal (n @ r') = Some (v, r')" if "num_stop r'" for r'
      using scan_number_append [OF conjunct2 [OF sp] that] c n(2)
      by (auto simp: scan_literal_def isDigit_def)
    then show ?thesis using sp c(1) by blast
  qed
qed

lemma num_stop_ws [simp]: "list_all isWs w \<Longrightarrow> c \<in> set '',]}'' \<Longrightarrow> num_stop (w @ c # t)"
  by (cases w) (auto simp: num_stop_def isDigit_def isWs_def)

lemma scan_string_ext [simp]: "scan_string s = Some (raw, r) \<Longrightarrow> scan_string (raw @ dquote # r') = Some (raw, r')"
  using scan_string_split by blast

definition local :: "(string \<Rightarrow> bool) \<Rightarrow> (string \<Rightarrow> ('a \<times> string) option) \<Rightarrow> string \<Rightarrow> 'a \<Rightarrow> string \<Rightarrow> bool" where
  "local ok p s v r \<longleftrightarrow> (\<exists>a. s = a @ r \<and> (\<forall>r'. ok r' \<longrightarrow> p (a @ r') = Some (v, r')))"

lemma localI: "s = a @ r \<Longrightarrow> (\<And>r'. ok r' \<Longrightarrow> p (a @ r') = Some (v, r')) \<Longrightarrow> local ok p s v r"
  by (auto simp: local_def)

lemma scan_literal_bracket: "scan_literal (CHR '']'' # r) = None"
  by (simp add: scan_literal_def scan_number_def scan_int_def isDigit_def)

lemma parse_value_no_bracket: "parse_value f d s = Some x \<Longrightarrow> expect (CHR '']'') s = None"
proof (rule ccontr)
  assume a: "parse_value f d s = Some x" "expect (CHR '']'') s \<noteq> None"
  then obtain r where "next_byte s = Some (CHR '']'', r)" by (auto simp: expect_iff)
  with a(1) show False
    by (cases f) (simp_all add: parse_value.simps(2) scan_literal_bracket)
qed

lemma parse_members_no_brace: "parse_members f d s = Some x \<Longrightarrow> expect (CHR ''}'') s = None"
  by (cases f) (auto simp: parse_members.simps(2) bind_eq_Some_conv expect_iff expect_def)

lemma parse_elems_no_bracket: "parse_elems f d s = Some x \<Longrightarrow> expect (CHR '']'') s = None"
  by (cases f) (auto simp: parse_elems.simps(2) bind_eq_Some_conv dest: parse_value_no_bracket)

lemma parse_local:
  "(\<forall>v r. parse_value f d s = Some (v, r) \<longrightarrow> local num_stop (parse_value f d) s v r)
   \<and> (\<forall>kvs r. parse_members f d s = Some (kvs, r) \<longrightarrow> local (\<lambda>_. True) (parse_members f d) s kvs r)
   \<and> (\<forall>vs r. parse_elems f d s = Some (vs, r) \<longrightarrow> local (\<lambda>_. True) (parse_elems f d) s vs r)"
proof (induction f arbitrary: d s)
  case (Suc f)
  have v: "local num_stop (parse_value (Suc f) d) s v r" if p: "parse_value (Suc f) d s = Some (v, r)" for v r
  proof -
    obtain c cs where n: "next_byte s = Some (c, cs)" using p by (cases "next_byte s") (auto simp: parse_value.simps(2))
    then obtain w where w: "s = w @ c # cs" "list_all isWs w" "\<not> isWs c" by (auto simp: next_byte_split)
    consider (str) "c = dquote" | (obj) "c = CHR ''{''" | (arr) "c = CHR ''[''"
      | (lit) "c \<notin> {dquote, CHR ''{'', CHR ''[''}" by blast
    then show ?thesis
    proof cases
      case str
      then obtain raw where q: "scan_string cs = Some (raw, r)" "v = JStr (unquote raw)"
        using p n by (auto simp: parse_value.simps(2) bind_eq_Some_conv)
      then have "cs = raw @ dquote # r" using scan_string_split by blast
      then show ?thesis using w q str
        by (intro localI [of _ "w @ dquote # raw @ [dquote]"]) (auto simp: parse_value.simps(2))
    next
      case obj
      show ?thesis
      proof (cases "expect (CHR ''}'') cs")
        case None
        then obtain kvs where q: "parse_members f (d + 1) cs = Some (kvs, r)" "v = JObj kvs" "d < maxNestingDepth"
          using p n obj by (auto simp: parse_value.simps(2) bind_eq_Some_conv split: if_splits)
        then obtain a where a: "cs = a @ r" "\<And>r'. parse_members f (d + 1) (a @ r') = Some (kvs, r')"
          using Suc.IH [of "d + 1" cs] by (auto simp: local_def)
        show ?thesis using w q a(1) obj a(2) parse_members_no_brace [OF a(2)]
          by (intro localI [of _ "w @ CHR ''{'' # a"]) (auto simp: parse_value.simps(2))
      next
        case (Some t)
        then obtain w2 where w2: "cs = w2 @ CHR ''}'' # t" "list_all isWs w2" by (auto simp: expect_iff next_byte_split)
        have "v = JObj []" "r = t" "d < maxNestingDepth"
          using p n obj Some by (auto simp: parse_value.simps(2) split: if_splits)
        then show ?thesis using w w2 obj
          by (intro localI [of _ "w @ CHR ''{'' # w2 @ ''}''"]) (auto simp: parse_value.simps(2) expect_def)
      qed
    next
      case arr
      show ?thesis
      proof (cases "expect (CHR '']'') cs")
        case None
        then obtain vs where q: "parse_elems f (d + 1) cs = Some (vs, r)" "v = JArr vs" "d < maxNestingDepth"
          using p n arr by (auto simp: parse_value.simps(2) bind_eq_Some_conv split: if_splits)
        then obtain a where a: "cs = a @ r" "\<And>r'. parse_elems f (d + 1) (a @ r') = Some (vs, r')"
          using Suc.IH [of "d + 1" cs] by (auto simp: local_def)
        show ?thesis using w q a(1) arr a(2) parse_elems_no_bracket [OF a(2)]
          by (intro localI [of _ "w @ CHR ''['' # a"]) (auto simp: parse_value.simps(2))
      next
        case (Some t)
        then obtain w2 where w2: "cs = w2 @ CHR '']'' # t" "list_all isWs w2" by (auto simp: expect_iff next_byte_split)
        have "v = JArr []" "r = t" "d < maxNestingDepth"
          using p n arr Some by (auto simp: parse_value.simps(2) split: if_splits)
        then show ?thesis using w w2 arr
          by (intro localI [of _ "w @ CHR ''['' # w2 @ '']''"]) (auto simp: parse_value.simps(2) expect_def)
      qed
    next
      case lit
      then have "scan_literal (c # cs) = Some (v, r)" using p n by (simp add: parse_value.simps(2))
      then obtain a where a: "c # cs = a @ r" "a \<noteq> []" "\<And>r'. num_stop r' \<Longrightarrow> scan_literal (a @ r') = Some (v, r')"
        using scan_literal_local by blast
      then obtain a' where a': "a = c # a'" by (cases a) auto
      have "parse_value (Suc f) d ((w @ a) @ r') = Some (v, r')" if "num_stop r'" for r'
        using a(3) [OF that] w(2,3) lit a' by (simp add: parse_value.simps(2))
      then show ?thesis using w(1) a(1) by (intro localI [of _ "w @ a"]) auto
    qed
  qed
  have m: "local (\<lambda>_. True) (parse_members (Suc f) d) s kvs r" if p: "parse_members (Suc f) d s = Some (kvs, r)" for kvs r
  proof -
    obtain s1 raw s2 s3 x s4 c s5 where q: "expect dquote s = Some s1" "scan_string s1 = Some (raw, s2)"
      "expect (CHR '':'') s2 = Some s3" "parse_value f d s3 = Some (x, s4)" "next_byte s4 = Some (c, s5)"
      "c = CHR ''}'' \<and> kvs = [(unquote raw, x)] \<and> r = s5
       \<or> c = CHR '','' \<and> (\<exists>k. parse_members f d s5 = Some (k, r) \<and> kvs = (unquote raw, x) # k)"
      using p by (auto simp: parse_members.simps(2) bind_eq_Some_conv split: if_splits)
    obtain w1 where w1: "s = w1 @ dquote # s1" "list_all isWs w1" using q(1) by (auto simp: expect_iff next_byte_split)
    have s1: "s1 = raw @ dquote # s2" using q(2) scan_string_split by blast
    obtain w2 where w2: "s2 = w2 @ CHR '':'' # s3" "list_all isWs w2" using q(3) by (auto simp: expect_iff next_byte_split)
    obtain w4 where w4: "s4 = w4 @ c # s5" "list_all isWs w4" "\<not> isWs c" using q(5) by (auto simp: next_byte_split)
    obtain a where a: "s3 = a @ s4" "\<And>r'. num_stop r' \<Longrightarrow> parse_value f d (a @ r') = Some (x, r')"
      using Suc.IH [of d s3] q(4) by (auto simp: local_def)
    show ?thesis
      using q(6)
    proof (elim disjE conjE exE)
      assume "c = CHR ''}''" "kvs = [(unquote raw, x)]" "r = s5"
      then show ?thesis using w1 w2 w4 s1 a(1) q(2)
        by (intro localI [of _ "w1 @ dquote # raw @ dquote # w2 @ CHR '':'' # a @ w4 @ ''}''"])
          (auto simp: parse_members.simps(2) expect_def a(2))
    next
      fix k
      assume k: "c = CHR '',''" "parse_members f d s5 = Some (k, r)" "kvs = (unquote raw, x) # k"
      then obtain b where b: "s5 = b @ r" "\<And>r'. parse_members f d (b @ r') = Some (k, r')"
        using Suc.IH [of d s5] by (auto simp: local_def)
      then show ?thesis using w1 w2 w4 s1 a(1) q(2) k
        by (intro localI [of _ "w1 @ dquote # raw @ dquote # w2 @ CHR '':'' # a @ w4 @ CHR '','' # b"])
          (auto simp: parse_members.simps(2) expect_def a(2))
    qed
  qed
  have e: "local (\<lambda>_. True) (parse_elems (Suc f) d) s vs r" if p: "parse_elems (Suc f) d s = Some (vs, r)" for vs r
  proof -
    obtain x s1 c s2 where q: "parse_value f d s = Some (x, s1)" "next_byte s1 = Some (c, s2)"
      "c = CHR '']'' \<and> vs = [x] \<and> r = s2 \<or> c = CHR '','' \<and> (\<exists>k. parse_elems f d s2 = Some (k, r) \<and> vs = x # k)"
      using p by (auto simp: parse_elems.simps(2) bind_eq_Some_conv split: if_splits)
    obtain w where w: "s1 = w @ c # s2" "list_all isWs w" "\<not> isWs c" using q(2) by (auto simp: next_byte_split)
    obtain a where a: "s = a @ s1" "\<And>r'. num_stop r' \<Longrightarrow> parse_value f d (a @ r') = Some (x, r')"
      using Suc.IH [of d s] q(1) by (auto simp: local_def)
    show ?thesis
      using q(3)
    proof (elim disjE conjE exE)
      assume "c = CHR '']''" "vs = [x]" "r = s2"
      then show ?thesis using w a(1)
        by (intro localI [of _ "a @ w @ '']''"]) (auto simp: parse_elems.simps(2) a(2))
    next
      fix k
      assume k: "c = CHR '',''" "parse_elems f d s2 = Some (k, r)" "vs = x # k"
      then obtain b where b: "s2 = b @ r" "\<And>r'. parse_elems f d (b @ r') = Some (k, r')"
        using Suc.IH [of d s2] by (auto simp: local_def)
      then show ?thesis using w a(1) k
        by (intro localI [of _ "a @ w @ CHR '','' # b"]) (auto simp: parse_elems.simps(2) a(2))
    qed
  qed
  show ?case using v m e by blast
qed simp

theorem json_prefix_local:
  assumes "json_prefix d s = Some (v, r)"
  shows "\<exists>a. s = a @ r \<and> (\<forall>r'. num_stop r' \<longrightarrow> json_prefix d (a @ r') = Some (v, r'))"
proof -
  have "parse_value (2 * length s + 1) d s = Some (v, r)" using assms by (simp add: json_prefix_def)
  then have "local num_stop (parse_value (2 * length s + 1) d) s v r" using parse_local by blast
  then show ?thesis using json_prefix_stable(1) by (fastforce simp: local_def)
qed

lemma json_prefix_length: "json_prefix d s = Some (v, r) \<Longrightarrow> length r < length s"
  by (auto simp: json_prefix_def dest: parse_length(1))

text \<open>Behind an object any text may follow.\<close>

lemma parse_object_local:
  assumes "parse_value f d s = Some (JObj kvs, r)"
  shows "local (\<lambda>_. True) (parse_value f d) s (JObj kvs) r"
proof -
  obtain g where f: "f = Suc g" using assms by (cases f) auto
  obtain c cs where n: "next_byte s = Some (c, cs)"
    using assms by (cases "next_byte s") (auto simp: f parse_value.simps(2))
  have "v \<noteq> JObj kvs" if "scan_literal (c # cs) = Some (v, r)" for v
    using that by (auto simp: scan_literal_def split: if_splits)
  then have c: "c = CHR ''{''" and d: "d < maxNestingDepth"
    using assms n by (auto simp: f parse_value.simps(2) bind_eq_Some_conv split: if_splits option.splits)
  obtain w where w: "s = w @ CHR ''{'' # cs" "list_all isWs w" using n c by (auto simp: next_byte_split)
  show ?thesis
  proof (cases "expect (CHR ''}'') cs")
    case None
    then have m: "parse_members g (d + 1) cs = Some (kvs, r)"
      using assms n c by (auto simp: f parse_value.simps(2) bind_eq_Some_conv split: if_splits)
    then obtain a where a: "cs = a @ r" "\<And>r'. parse_members g (d + 1) (a @ r') = Some (kvs, r')"
      using parse_local [of g "d + 1" cs] by (auto simp: local_def)
    show ?thesis using w d a(1) a(2) parse_members_no_brace [OF a(2)]
      by (intro localI [of _ "w @ CHR ''{'' # a"]) (auto simp: f parse_value.simps(2))
  next
    case (Some t)
    then obtain w2 where w2: "cs = w2 @ CHR ''}'' # t" "list_all isWs w2" by (auto simp: expect_iff next_byte_split)
    have "kvs = []" "r = t" using assms n c Some by (auto simp: f parse_value.simps(2) split: if_splits)
    then show ?thesis using w w2 d
      by (intro localI [of _ "w @ CHR ''{'' # w2 @ ''}''"]) (auto simp: f parse_value.simps(2) expect_def)
  qed
qed

lemma object_head: "json_prefix d s = Some (v, r) \<Longrightarrow> next_byte s = Some (CHR ''{'', cs) \<Longrightarrow> \<exists>kvs. v = JObj kvs"
  by (auto simp: json_prefix_def parse_value.simps(2) bind_eq_Some_conv split: if_splits option.splits)

text \<open>No proper prefix of an object's text is a JSON text.\<close>

lemma proper_prefix_invalid:
  assumes "json_parse (p @ q) = Some (JObj kvs)" "HasPrefix (p @ q) ''{''" "p \<noteq> []" "q \<noteq> []" "\<not> isWs (last q)"
  shows "json_parse p = None"
proof (rule ccontr)
  assume "json_parse p \<noteq> None"
  then obtain v r where p: "json_prefix 0 p = Some (v, r)" "skip_ws r = []"
    by (auto simp: json_parse_def split: option.splits if_splits)
  obtain cs where "p = CHR ''{'' # cs" using assms(2,3) by (cases p) (auto simp: HasPrefix_iff)
  then obtain k where v: "v = JObj k" using object_head [OF p(1)] by auto
  have "parse_value (2 * length p + 1) 0 p = Some (JObj k, r)" using p(1) v by (simp add: json_prefix_def)
  from parse_object_local [OF this] obtain a where a: "p = a @ r"
    "\<And>r'. parse_value (2 * length p + 1) 0 (a @ r') = Some (JObj k, r')"
    by (auto simp: local_def)
  have "json_prefix 0 (p @ q) = Some (JObj k, r @ q)"
    using json_prefix_stable(1) [OF a(2), of "r @ q"] a(1) by simp
  then have "skip_ws (r @ q) = []" using assms(1) by (auto simp: json_parse_def split: if_splits)
  then have "\<forall>c \<in> set (r @ q). isWs c" by (simp only: skip_ws_def dropWhile_eq_Nil_conv)
  then show False using assms(4,5) by simp
qed

section \<open>Integers and ASCII text\<close>

lemma scan_show_nat: "scan_int (show_nat n) = Some (show_nat n, [])"
proof (cases "show_nat n")
  case Nil
  then show ?thesis using show_nat_digits [of n] by simp
next
  case (Cons c cs)
  have d: "list_all isDigit (show_nat n)" using show_nat_digits by blast
  show ?thesis
  proof (cases "n = 0")
    case True
    then show ?thesis by (simp add: show_nat_small scan_int_def) code_simp
  next
    case False
    then have "c \<noteq> CHR ''0''" using show_nat_zero [of n] Cons by simp
    moreover have "takeWhile isDigit (show_nat n) = show_nat n" "dropWhile isDigit (show_nat n) = []"
      using d by (simp_all add: list_all_iff)
    ultimately show ?thesis using d Cons by (simp add: scan_int_def)
  qed
qed

lemma wf_show_int: "wf_num (show_int i)"
proof -
  have "hd (show_nat n) \<noteq> CHR ''-''" for n
    using show_nat_digits [of n] by (cases "show_nat n") (auto simp: isDigit_def)
  then have n: "scan_number (show_nat n) = Some (show_nat n, [])" for n
  proof -
    obtain c cs where c: "show_nat n = c # cs" using show_nat_digits [of n] by (cases "show_nat n") auto
    then have "c \<noteq> CHR ''-''" using \<open>\<And>n. hd (show_nat n) \<noteq> CHR ''-''\<close> [of n] by simp
    then show ?thesis using c scan_show_nat [of n] by (simp add: scan_number_def scan_frac_def scan_exp_def)
  qed
  from n [of "nat i"] show ?thesis
    using scan_show_nat [of "nat (- i)"] 
    by (cases "i < 0") (simp_all add: wf_num_def show_int_def, simp add: scan_number_def scan_frac_def scan_exp_def)
qed

lemma num_val_nat: "num_val (show_nat n) = of_nat n"
proof -
  have d: "list_all isDigit (show_nat n)" "digits_val (show_nat n) = int n" using show_nat_digits by blast+
  then have m: "\<not> HasPrefix (show_nat n) ''-''" by (cases "show_nat n") (auto simp: isDigit_def)
  have all: "takeWhile isDigit (show_nat n) = show_nat n" "dropWhile isDigit (show_nat n) = []"
    using d(1) by (simp_all add: list_all_iff)
  show ?thesis by (simp add: num_val_def exponent_val_def Let_def m all d(2) del: takeWhile_eq_all_conv dropWhile_eq_Nil_conv)
qed

lemma float_fits_nat: "n < 2 ^ 64 \<Longrightarrow> float_fits (of_nat n)"
proof -
  assume "n < 2 ^ 64"
  then have "(of_nat n :: rat) < 2 ^ 64" by (metis of_nat_less_iff of_nat_numeral of_nat_power)
  also have "(2 :: rat) ^ 64 < 2 ^ 1024 - 2 ^ 970" by simp
  finally show ?thesis by (simp add: float_fits_def)
qed

lemma valid_utf8_ascii: "(of_char c :: nat) < 0x80 \<Longrightarrow> valid_utf8 (c # s) = valid_utf8 s"
  by (subst valid_utf8.simps) (simp add: Let_def)

lemma valid_utf8_Nil [simp]: "valid_utf8 []"
  by (subst valid_utf8.simps) simp

lemma valid_utf8_ascii_append: "list_all (\<lambda>c. (of_char c :: nat) < 0x80) p \<Longrightarrow> valid_utf8 (p @ s) = valid_utf8 s"
  by (induction p) (simp_all add: valid_utf8_ascii)

lemma show_nat_utf8: "valid_utf8 (show_nat n)"
proof -
  have "list_all (\<lambda>c. (of_char c :: nat) < 0x80) (show_nat n)"
    using show_nat_digits [of n] by (auto simp: list_all_iff isDigit_def Let_def)
  from valid_utf8_ascii_append [OF this, of "[]"] show ?thesis by simp
qed

end
