(* ===== verification/ModelMask.thy ===== *)
theory ModelMask
  imports GoJson ModelsConfig
begin

text \<open>
  Masking of model names in streamed answers (\<open>proxy/handler_groups.go\<close>): the byte-preserving
  replacement of the top-level \<open>model\<close> of a JSON object, and the masker that collects raw chunks into
  complete server-sent events and patches each. Byte offsets are natural numbers as in the code; the
  token decoder of \<open>encoding/json\<close> is its position in the text. The theorems: the patch changes that
  one member of the parsed object and nothing else, and the output of the masker does not depend on
  how the stream was cut into chunks.
\<close>

section \<open>The patch\<close>

definition blank :: "char \<Rightarrow> bool" where
  "blank c \<longleftrightarrow> c = CHR '' '' \<or> c = CHR 0x09 \<or> c = CHR 0x0A \<or> c = CHR 0x0D"

function skip_blank :: "string \<Rightarrow> nat \<Rightarrow> nat" where
  "skip_blank body i = (if i < length body \<and> blank (body ! i) then skip_blank body (i + 1) else i)"
  by pat_completeness auto
termination
  by (relation "measure (\<lambda>(body, i). length body - i)") auto

function string_end :: "string \<Rightarrow> nat \<Rightarrow> nat option" where
  "string_end body i =
     (if i < length body then
        (if body ! i = backslash then string_end body (i + 2)
         else if body ! i = dquote then Some (i + 1)
         else string_end body (i + 1))
      else None)"
  by pat_completeness auto
termination
  by (relation "measure (\<lambda>(body, i). length body - i)") auto

declare skip_blank.simps [simp del] string_end.simps [simp del]

definition stringValueRange :: "string \<Rightarrow> nat \<Rightarrow> (nat \<times> nat) option" where
  "stringValueRange body from =
     (let i = skip_blank body from in
      if i \<ge> length body \<or> body ! i \<noteq> CHR '':'' then None
      else let start = skip_blank body (i + 1) in
        if start \<ge> length body \<or> body ! start \<noteq> dquote then None
        else map_option (\<lambda>e. (start, e)) (string_end body (start + 1)))"

text \<open>The decoder: the key token behind an opening brace or a comma, and the value that is skipped.\<close>

definition key_token :: "bool \<Rightarrow> string \<Rightarrow> (string \<times> string) option" where
  "key_token first s = do {
     s0 \<leftarrow> (if first then Some s else expect (CHR '','') s);
     s1 \<leftarrow> expect dquote s0;
     (raw, s2) \<leftarrow> scan_string s1;
     Some (unquote raw, s2) }"

definition skip_value :: "string \<Rightarrow> string option" where
  "skip_value s = do { s1 \<leftarrow> expect (CHR '':'') s; (v, s2) \<leftarrow> json_prefix 0 s1; Some s2 }"

lemma key_token_length: "key_token first s = Some (k, r) \<Longrightarrow> length r < length s"
  by (fastforce simp: key_token_def bind_eq_Some_conv split: if_splits dest: expect_length scan_string_length)

lemma skip_value_length: "skip_value s = Some r \<Longrightarrow> length r < length s"
  by (fastforce simp: skip_value_def bind_eq_Some_conv dest: expect_length json_prefix_length)

function locate_loop :: "string \<Rightarrow> bool \<Rightarrow> string \<Rightarrow> (nat \<times> nat) option" where
  "locate_loop body first s =
     (case next_byte s of
        None \<Rightarrow> None
      | Some (c, _) \<Rightarrow>
          if c = CHR '']'' \<or> c = CHR ''}'' then None
          else (case key_token first s of
              None \<Rightarrow> None
            | Some (key, s1) \<Rightarrow>
                if key = ''model'' then stringValueRange body (length body - length s1)
                else (case skip_value s1 of None \<Rightarrow> None | Some s2 \<Rightarrow> locate_loop body False s2)))"
  by pat_completeness auto
termination
  by (relation "measure (\<lambda>(body, first, s). length s)")
    (auto dest!: key_token_length skip_value_length)

declare locate_loop.simps [simp del]

definition locateTopLevelModelValue :: "string \<Rightarrow> (nat \<times> nat) option" where
  "locateTopLevelModelValue body =
     (case expect (CHR ''{'') body of None \<Rightarrow> None | Some s \<Rightarrow> locate_loop body True s)"

definition patchTopLevelModelField :: "string \<Rightarrow> string \<Rightarrow> string" where
  "patchTopLevelModelField body t =
     (case locateTopLevelModelValue body of
        None \<Rightarrow> body
      | Some (valueStart, valueEnd) \<Rightarrow>
          if valueStart \<ge> length body \<or> body ! valueStart \<noteq> dquote then body
          else take valueStart body @ quote t @ drop valueEnd body)"

section \<open>The masker\<close>

record sseModelMasker =
  target :: string
  pend :: string

definition newSSEModelMasker :: "string \<Rightarrow> sseModelMasker option" where
  "newSSEModelMasker t = (if t = [] then None else Some \<lparr>target = t, pend = []\<rparr>)"

fun find_boundary :: "nat \<Rightarrow> string \<Rightarrow> (nat \<times> nat) option" where
  "find_boundary i [] = None"
| "find_boundary i (c # cs) =
     (if c \<noteq> CHR 0x0A then find_boundary (i + 1) cs
      else if HasPrefix cs [CHR 0x0A] then Some (i, 2)
      else if HasPrefix cs [CHR 0x0D, CHR 0x0A] then Some (i, 3)
      else if cs = [] then None
      else find_boundary (i + 1) cs)"

definition findEventBoundary :: "string \<Rightarrow> (nat \<times> nat) option" where
  "findEventBoundary b = find_boundary 0 b"

fun find_data :: "bool \<Rightarrow> nat \<Rightarrow> string \<Rightarrow> nat option" where
  "find_data line_start i [] = None"
| "find_data line_start i (c # cs) =
     (if line_start \<and> HasPrefix (c # cs) ''data:'' then Some (i + 5)
      else find_data (c = CHR 0x0A) (i + 1) cs)"

definition isNewline :: "char \<Rightarrow> bool" where
  "isNewline c \<longleftrightarrow> c = CHR 0x0D \<or> c = CHR 0x0A"

definition TrimNewlines :: "string \<Rightarrow> string" where
  "TrimNewlines s = rev (dropWhile isNewline (rev s))"

definition maskEvent :: "string \<Rightarrow> string \<Rightarrow> string" where
  "maskEvent t event =
     (case find_data True 0 event of
        None \<Rightarrow> event
      | Some dataStart \<Rightarrow>
          let payload = drop dataStart event;
              trimmed = dropWhile (\<lambda>c. c = CHR '' '') payload
          in if \<not> HasPrefix trimmed ''{'' then event
             else let body = TrimNewlines trimmed;
                      patched = patchTopLevelModelField body t
                  in if length patched = length body \<and> patched = body then event
                     else let lead = length payload - length trimmed;
                              termLen = length payload - length (TrimNewlines payload)
                          in take dataStart event @ replicate lead (CHR '' '') @ patched
                             @ drop (length payload - termLen) payload)"

lemma boundary_shift: "find_boundary i s = map_option (\<lambda>(j, n). (i + j, n)) (find_boundary 0 s)"
proof (induction s arbitrary: i)
  case (Cons c cs)
  show ?case using Cons.IH [of "i + 1"] Cons.IH [of 1]
    by (simp add: option.map_comp comp_def case_prod_unfold)
qed simp

lemma boundary_bounds: "find_boundary 0 s = Some (j, n) \<Longrightarrow> j + n \<le> length s \<and> (n = 2 \<or> n = 3)"
proof (induction s arbitrary: j)
  case (Cons c cs)
  then show ?case
    using boundary_shift [of 1 cs] by (fastforce simp: HasPrefix_iff split: if_splits)
qed simp

function process_loop :: "string \<Rightarrow> string \<Rightarrow> string \<times> string" where
  "process_loop t p =
     (case findEventBoundary p of
        None \<Rightarrow> ([], p)
      | Some (idx, sepLen) \<Rightarrow>
          (case process_loop t (drop (idx + sepLen) p) of
             (out, rest) \<Rightarrow> (maskEvent t (take (idx + sepLen) p) @ out, rest)))"
  by pat_completeness auto
termination
  by (relation "measure (\<lambda>(t, p). length p)")
    (auto simp: findEventBoundary_def dest!: boundary_bounds)

declare process_loop.simps [simp del]

text \<open>A nil masker passes the chunk through.\<close>

definition process :: "string \<Rightarrow> sseModelMasker option \<Rightarrow> string \<times> sseModelMasker option" where
  "process chunk m =
     (case m of None \<Rightarrow> (chunk, None)
      | Some k \<Rightarrow> (case process_loop (target k) (pend k @ chunk) of
           (out, rest) \<Rightarrow> (out, Some (k\<lparr>pend := rest\<rparr>))))"

definition flush :: "sseModelMasker option \<Rightarrow> string \<times> sseModelMasker option" where
  "flush m =
     (case m of None \<Rightarrow> ([], None)
      | Some k \<Rightarrow> if pend k = [] then ([], m) else (pend k, Some (k\<lparr>pend := []\<rparr>)))"

fun process_all :: "string list \<Rightarrow> sseModelMasker option \<Rightarrow> string \<times> sseModelMasker option" where
  "process_all [] m = ([], m)"
| "process_all (c # cs) m =
     (case process c m of (out, m1) \<Rightarrow> (case process_all cs m1 of (out', m2) \<Rightarrow> (out @ out', m2)))"

definition stream_through :: "string list \<Rightarrow> sseModelMasker option \<Rightarrow> string" where
  "stream_through chunks m = (case process_all chunks m of (out, m1) \<Rightarrow> out @ fst (flush m1))"

definition groupMaskTarget :: "(ModelConfig option \<times> string) option \<Rightarrow> string" where
  "groupMaskTarget rc =
     (case rc of None \<Rightarrow> []
      | Some (resolvedModel, requested) \<Rightarrow>
          (case resolvedModel of None \<Rightarrow> [] | Some m \<Rightarrow> if \<not> IsGroup m then [] else requested))"

definition groupFailMessage :: "string \<Rightarrow> string" where
  "groupFailMessage groupID = ''group '' @ [CHR 0x27] @ groupID @ [CHR 0x27] @ '' has no servable members''"

section \<open>Independence of the chunks\<close>

text \<open>The reference: cut the whole stream into complete events and an unterminated rest.\<close>

function events :: "string \<Rightarrow> string list \<times> string" where
  "events s =
     (case findEventBoundary s of
        None \<Rightarrow> ([], s)
      | Some (i, n) \<Rightarrow> (case events (drop (i + n) s) of (es, r) \<Rightarrow> (take (i + n) s # es, r)))"
  by pat_completeness auto
termination
  by (relation "measure length") (auto simp: findEventBoundary_def dest!: boundary_bounds)

declare events.simps [simp del]

definition mask_stream :: "string \<Rightarrow> string \<Rightarrow> string" where
  "mask_stream t s = (case events s of (es, r) \<Rightarrow> concat (map (maskEvent t) es) @ r)"

lemma process_loop_events:
  "process_loop t p = (case events p of (es, r) \<Rightarrow> (concat (map (maskEvent t) es), r))"
proof (induction p rule: events.induct)
  case (1 p)
  then show ?case
    by (subst process_loop.simps, subst events.simps) (auto split: option.splits prod.splits)
qed

lemma find_boundary_append: "find_boundary i s = Some x \<Longrightarrow> find_boundary i (s @ u) = Some x"
proof (induction i s rule: find_boundary.induct)
  case (2 i c cs)
  show ?case
  proof (cases "c = CHR 0x0A \<and> \<not> HasPrefix cs [CHR 0x0A] \<and> \<not> HasPrefix cs [CHR 0x0D, CHR 0x0A]")
    case True
    then have f: "find_boundary (i + 1) cs = Some x" and n: "cs \<noteq> []" using "2.prems" by (auto split: if_splits)
    obtain d ds where cs: "cs = d # ds" using n by (cases cs) auto
    have "ds \<noteq> [] \<or> d \<noteq> CHR 0x0D" using f cs by auto
    then have "\<not> HasPrefix (cs @ u) [CHR 0x0A]" "\<not> HasPrefix (cs @ u) [CHR 0x0D, CHR 0x0A]"
      using True cs by (cases ds; auto)+
    then show ?thesis using "2.IH"(2) True f n by simp
  next
    case False
    show ?thesis
    proof (cases "c = CHR 0x0A")
      case True
      then have "HasPrefix cs [CHR 0x0A] \<or> HasPrefix cs [CHR 0x0D, CHR 0x0A]" using False by blast
      moreover have "HasPrefix (cs @ u) p" if "HasPrefix cs p" for p using that by (auto simp: HasPrefix_iff)
      moreover have "\<not> HasPrefix (cs @ u) [CHR 0x0A]" if "HasPrefix cs [CHR 0x0D, CHR 0x0A]"
        using that by (cases cs) auto
      moreover have "\<not> HasPrefix cs [CHR 0x0A]" if "HasPrefix cs [CHR 0x0D, CHR 0x0A]"
        using that by (cases cs) auto
      ultimately show ?thesis using "2.prems" True by auto
    next
      case False
      then show ?thesis using "2.IH"(1) "2.prems" by simp
    qed
  qed
qed simp

lemma events_append:
  "events (p @ x) = (case events p of (es, r) \<Rightarrow> (case events (r @ x) of (es', r') \<Rightarrow> (es @ es', r')))"
proof (induction p rule: events.induct)
  case (1 p)
  show ?case
  proof (cases "findEventBoundary p")
    case None
    then have "events p = ([], p)" by (subst events.simps) simp
    then show ?thesis by simp
  next
    case (Some y)
    obtain i n where y: "y = (i, n)" by (cases y)
    have b: "findEventBoundary p = Some (i, n)" using Some y by simp
    have b': "findEventBoundary (p @ x) = Some (i, n)"
      using find_boundary_append [of 0 p "(i, n)" x] b by (simp add: findEventBoundary_def)
    have l: "i + n \<le> length p" using boundary_bounds [of p i n] b by (simp add: findEventBoundary_def)
    have e: "events p = (case events (drop (i + n) p) of (es, r) \<Rightarrow> (take (i + n) p # es, r))"
      using b by (subst events.simps) simp
    have "events (p @ x) = (case events (drop (i + n) p @ x) of (es, r) \<Rightarrow> (take (i + n) p # es, r))"
      using b' l by (subst events.simps) simp
    also have "\<dots> = (case (case events (drop (i + n) p) of (es, r) \<Rightarrow>
        (case events (r @ x) of (es', r') \<Rightarrow> (es @ es', r'))) of (es, r) \<Rightarrow> (take (i + n) p # es, r))"
      using "1.IH" [OF b refl] by simp
    also have "\<dots> = (case events p of (es, r) \<Rightarrow> (case events (r @ x) of (es', r') \<Rightarrow> (es @ es', r')))"
      by (simp add: e split: prod.splits)
    finally show ?thesis .
  qed
qed

lemma events_rest: "events p = (es, r) \<Longrightarrow> events r = ([], r)"
proof (induction p arbitrary: es rule: events.induct)
  case (1 p)
  show ?case
  proof (cases "findEventBoundary p")
    case None
    then have "events p = ([], p)" by (subst events.simps) simp
    then show ?thesis using "1.prems" by simp
  next
    case (Some y)
    obtain i n where y: "y = (i, n)" by (cases y)
    then show ?thesis using "1.IH" [OF _ refl, of i n] Some "1.prems"
      by (subst (asm) (2) events.simps) (auto split: prod.splits)
  qed
qed

lemma process_all_events:
  "process_all chunks (Some \<lparr>target = t, pend = p\<rparr>) =
     (case events (p @ concat chunks) of (es, r) \<Rightarrow>
        (concat (map (maskEvent t) es), Some \<lparr>target = t, pend = r\<rparr>))"
  if "events p = ([], p)"
  using that
proof (induction chunks arbitrary: p)
  case (Cons c cs)
  obtain es r where e: "events (p @ c) = (es, r)" by fastforce
  note r = events_rest [OF e]
  have "process_all (c # cs) (Some \<lparr>target = t, pend = p\<rparr>) =
     (case process_all cs (Some \<lparr>target = t, pend = r\<rparr>) of (out, m) \<Rightarrow> (concat (map (maskEvent t) es) @ out, m))"
    by (simp add: process_def process_loop_events e split: prod.splits)
  then show ?case
    using Cons.IH [OF r] events_append [of "p @ c" "concat cs"] e by (simp split: prod.splits)
qed (simp add: that)

text \<open>C17: the output of the masker does not depend on how the stream was cut into chunks. Whatever the chunks,
  the bytes written, with the final flush, are those of masking the whole stream event by event, and
  without a mask target the stream passes unchanged.\<close>

theorem masked_stream_chunking:
  "stream_through chunks (newSSEModelMasker t) =
     (if t = [] then concat chunks else mask_stream t (concat chunks))"
proof (cases "t = []")
  case True
  have "process_all cs None = (concat cs, None)" for cs
    by (induction cs) (simp_all add: process_def)
  then show ?thesis using True by (simp add: stream_through_def newSSEModelMasker_def flush_def)
next
  case False
  have "events [] = ([], [])" by (subst events.simps) (simp add: findEventBoundary_def)
  from process_all_events [OF this, of chunks t] False show ?thesis
    by (auto simp: stream_through_def newSSEModelMasker_def flush_def mask_stream_def split: prod.splits)
qed

section \<open>What the patch changes\<close>

lemma blank_isWs: "blank = isWs"
  by (auto simp: blank_def isWs_def fun_eq_iff)

lemma skip_blank_ws: "list_all isWs w \<Longrightarrow> \<not> isWs c \<Longrightarrow> skip_blank (p @ w @ c # r) (length p) = length p + length w"
proof (induction w arbitrary: p)
  case Nil
  then show ?case by (subst skip_blank.simps) (simp add: blank_isWs)
next
  case (Cons x w)
  then show ?case using Cons.IH [of "p @ [x]"]
    by (subst skip_blank.simps) (simp add: blank_isWs nth_append)
qed

lemma string_end_scan:
  "scan_string s = Some (raw, r) \<Longrightarrow> string_end (p @ s) (length p) = Some (length p + length raw + 1)"
proof (induction s arbitrary: raw p rule: scan_string.induct)
  case (2 c cs)
  have step: "string_end (q @ x # y) (length q) = string_end ((q @ [x]) @ y) (length (q @ [x]))"
    if "x \<noteq> dquote" "x \<noteq> backslash" for q x y
    using that by (subst string_end.simps) simp
  have esc: "string_end (q @ backslash # x # y) (length q) = string_end ((q @ [backslash, x]) @ y) (length (q @ [backslash, x]))" for q x y
    by (subst string_end.simps) simp
  have hex: "h \<noteq> dquote \<and> h \<noteq> backslash" if "isHexDigit h" for h
    using that by (auto simp: isHexDigit_def)
  show ?case
  proof (cases "c = dquote")
    case True
    with "2.prems" show ?thesis by (subst string_end.simps) simp
  next
    case q: False
    show ?thesis
    proof (cases "c = backslash")
      case False
      then obtain a where "scan_string cs = Some (a, r)" "raw = c # a" "\<not> (of_char c :: nat) < 32"
        using "2.prems" q by (auto split: if_splits)
      then show ?thesis using "2.IH"(3) [OF q False, of a "p @ [c]"] step [OF q False, of p cs] by simp
    next
      case b: True
      then obtain e es where cs: "cs = e # es" using "2.prems" q by (cases cs) auto
      show ?thesis
      proof (cases "e = CHR ''u''")
        case True
        then obtain h1 h2 h3 h4 t a where t: "es = h1 # h2 # h3 # h4 # t" "list_all isHexDigit [h1, h2, h3, h4]"
          "scan_string t = Some (a, r)" "raw = c # e # h1 # h2 # h3 # h4 # a"
          using "2.prems" q b cs by (auto split: list.splits if_splits)
        have h: "h \<noteq> dquote \<and> h \<noteq> backslash" if "h \<in> {h1, h2, h3, h4}" for h using t(2) that hex by auto
        have "string_end (p @ c # cs) (length p) = string_end ((p @ [c, e, h1, h2, h3, h4]) @ t) (length (p @ [c, e, h1, h2, h3, h4]))"
          using esc [of p e es] step [of h1 "p @ [c, e]"] step [of h2 "p @ [c, e, h1]"]
            step [of h3 "p @ [c, e, h1, h2]"] step [of h4 "p @ [c, e, h1, h2, h3]"] h b cs t(1) by simp
        then show ?thesis using "2.IH"(1) [OF q b cs True t(1) refl refl refl t(2,3), of "p @ [c, e, h1, h2, h3, h4]"] t(4) by simp
      next
        case False
        then obtain a where t: "e \<in> set ''bfnrt/'' \<union> {dquote, backslash}" "scan_string es = Some (a, r)" "raw = c # e # a"
          using "2.prems" q b cs by (auto split: if_splits)
        then show ?thesis using "2.IH"(2) [OF q b cs False t(1,2), of "p @ [c, e]"] esc [of p e es] b cs by simp
      qed
    qed
  qed
qed simp

text \<open>The first member named \<open>model\<close> gets the target when it is a string.\<close>

fun set_model :: "string \<Rightarrow> (string \<times> json) list \<Rightarrow> (string \<times> json) list" where
  "set_model t [] = []"
| "set_model t ((k, v) # kvs) =
     (if k = ''model'' then (case v of JStr _ \<Rightarrow> (k, JStr t) | _ \<Rightarrow> (k, v)) # kvs
      else (k, v) # set_model t kvs)"

definition string_model :: "(string \<times> json) list \<Rightarrow> bool" where
  "string_model kvs \<longleftrightarrow> (\<exists>x. map_of kvs ''model'' = Some (JStr x))"

lemma set_model_id: "\<not> string_model kvs \<Longrightarrow> set_model t kvs = kvs"
  by (induction kvs) (auto simp: string_model_def split: json.splits if_splits)

lemma JStr_literal:
  assumes "parse_value f d s = Some (v, r)" "next_byte s = Some (c, cs)"
  shows "c = dquote \<longleftrightarrow> (\<exists>x. v = JStr x)"
    and "c = dquote \<Longrightarrow> \<exists>raw. scan_string cs = Some (raw, r) \<and> v = JStr (unquote raw)"
proof -
  obtain g where f: "f = Suc g" using assms(1) by (cases f) auto
  have "v \<noteq> JStr x" if "scan_literal (c # cs) = Some (v, r)" for x
    using that by (auto simp: scan_literal_def split: if_splits)
  then show "c = dquote \<longleftrightarrow> (\<exists>x. v = JStr x)"
    using assms by (auto simp: f parse_value.simps(2) bind_eq_Some_conv split: if_splits option.splits)
  show "\<exists>raw. scan_string cs = Some (raw, r) \<and> v = JStr (unquote raw)" if "c = dquote"
    using assms that by (auto simp: f parse_value.simps(2) bind_eq_Some_conv)
qed

lemma value_range:
  assumes b: "body = p @ w2 @ CHR '':'' # s3" "list_all isWs w2" and v: "parse_value f d s3 = Some (v, s4)"
  shows "(\<exists>x. v = JStr x) \<Longrightarrow> \<exists>w3 lit. s3 = w3 @ lit @ s4 \<and> list_all isWs w3 \<and> lit \<noteq> [] \<and> hd lit = dquote \<and>
      stringValueRange body (length p) = Some (length p + length w2 + 1 + length w3, length p + length w2 + 1 + length w3 + length lit)"
    and "\<not> (\<exists>x. v = JStr x) \<Longrightarrow> stringValueRange body (length p) = None"
proof -
  obtain c cs where n: "next_byte s3 = Some (c, cs)"
    using v by (cases f; cases "next_byte s3") (auto simp: parse_value.simps(2))
  then obtain w3 where w3: "s3 = w3 @ c # cs" "list_all isWs w3" "\<not> isWs c" by (auto simp: next_byte_split)
  let ?i = "length p + length w2" and ?st = "length p + length w2 + 1 + length w3"
  have i: "skip_blank body (length p) = ?i" using skip_blank_ws [OF b(2), of "CHR '':''" p s3] b(1) by simp
  have bi: "?i < length body" "body ! ?i = CHR '':''" using b(1) by (simp_all add: nth_append)
  have e: "body = (p @ w2 @ '':'') @ w3 @ c # cs" using b(1) w3(1) by simp
  have st: "skip_blank body (?i + 1) = ?st" using skip_blank_ws [OF w3(2,3), of "p @ w2 @ '':''" cs] e by simp
  have bst: "?st < length body" "body ! ?st = c" using e by (simp_all add: nth_append)
  note lit = JStr_literal [OF v n]
  show "stringValueRange body (length p) = None" if "\<not> (\<exists>x. v = JStr x)"
    using that lit(1) i bi st bst by (simp add: stringValueRange_def Let_def)
  assume "\<exists>x. v = JStr x"
  then have q: "c = dquote" using lit(1) by simp
  then obtain raw where raw: "scan_string cs = Some (raw, s4)" using lit(2) by blast
  then have cs: "cs = raw @ dquote # s4" using scan_string_split by blast
  have "string_end body (?st + 1) = Some (?st + 1 + length raw + 1)"
    using string_end_scan [OF raw, of "p @ w2 @ CHR '':'' # w3 @ [c]"] e by (simp add: add.assoc)
  then have "stringValueRange body (length p) = Some (?st, ?st + length (dquote # raw @ [dquote]))"
    using i bi st bst q by (simp add: stringValueRange_def Let_def)
  then show "\<exists>w3 lit. s3 = w3 @ lit @ s4 \<and> list_all isWs w3 \<and> lit \<noteq> [] \<and> hd lit = dquote \<and>
      stringValueRange body (length p) = Some (length p + length w2 + 1 + length w3, length p + length w2 + 1 + length w3 + length lit)"
    using w3 q cs by (intro exI [of _ w3] exI [of _ "dquote # raw @ [dquote]"]) simp
qed

lemma locate_members:
  assumes "parse_members f d s = Some (kvs, r)" "body = pre @ s" "valid_utf8 t"
    and "if first then s0 = s else expect (CHR '','') s0 = Some s"
  shows "if string_model kvs
    then \<exists>p lit q. s = p @ lit @ q \<and> lit \<noteq> [] \<and> hd lit = dquote
       \<and> locate_loop body first s0 = Some (length pre + length p, length pre + length p + length lit)
       \<and> parse_members f d (p @ quote t @ q) = Some (set_model t kvs, r)
    else locate_loop body first s0 = None"
  using assms
proof (induction f arbitrary: s kvs pre first s0)
  case (Suc f)
  obtain s1 raw s2 s3 v s4 c s5 where q: "expect dquote s = Some s1" "scan_string s1 = Some (raw, s2)"
    "expect (CHR '':'') s2 = Some s3" "parse_value f d s3 = Some (v, s4)" "next_byte s4 = Some (c, s5)"
    "c = CHR ''}'' \<and> kvs = [(unquote raw, v)] \<and> r = s5
     \<or> c = CHR '','' \<and> (\<exists>k. parse_members f d s5 = Some (k, r) \<and> kvs = (unquote raw, v) # k)"
    using Suc.prems(1) by (auto simp: parse_members.simps(2) bind_eq_Some_conv split: if_splits)
  obtain w1 where w1: "s = w1 @ dquote # s1" "list_all isWs w1" using q(1) by (auto simp: expect_iff next_byte_split)
  have s1: "s1 = raw @ dquote # s2" using q(2) scan_string_split by blast
  obtain w2 where w2: "s2 = w2 @ CHR '':'' # s3" "list_all isWs w2" using q(3) by (auto simp: expect_iff next_byte_split)
  obtain w4 where w4: "s4 = w4 @ c # s5" "list_all isWs w4" "\<not> isWs c" using q(5) by (auto simp: next_byte_split)
  let ?k = "w1 @ dquote # raw @ [dquote]"
  have s: "s = ?k @ s2" using w1 s1 by simp
  have body: "body = (pre @ ?k) @ w2 @ CHR '':'' # s3" using Suc.prems(2) s w2 by simp
  have key: "key_token first s0 = Some (unquote raw, s2)"
    using Suc.prems(4) q(1,2) by (auto simp: key_token_def split: if_splits)
  have nb: "\<exists>c' x. next_byte s0 = Some (c', x) \<and> c' \<noteq> CHR '']'' \<and> c' \<noteq> CHR ''}''"
    using Suc.prems(4) q(1) by (cases first) (auto simp: expect_iff)
  have off: "length body - length s2 = length (pre @ ?k)" using body w2 by simp
  have loop: "locate_loop body first s0 = (if unquote raw = ''model'' then stringValueRange body (length (pre @ ?k))
      else (case skip_value s2 of None \<Rightarrow> None | Some s2 \<Rightarrow> locate_loop body False s2))"
    using nb key off by (subst locate_loop.simps) auto
  have sv: "skip_value s2 = Some s4"
    using q(3) json_prefix_stable(1) [OF parse_mono(1) [OF q(4), of f 0]] by (simp add: skip_value_def)
  note vr = value_range [OF body w2(2) q(4)]
  show ?case
  proof (cases "unquote raw = ''model''")
    case m: True
    have km: "map_of kvs ''model'' = Some v" using q(6) m by auto
    show ?thesis
    proof (cases "\<exists>x. v = JStr x")
      case True
      then have sm: "string_model kvs" using km by (auto simp: string_model_def)
      obtain w3 lit where l: "s3 = w3 @ lit @ s4" "list_all isWs w3" "lit \<noteq> []" "hd lit = dquote"
        "stringValueRange body (length (pre @ ?k)) = Some (length (pre @ ?k) + length w2 + 1 + length w3,
           length (pre @ ?k) + length w2 + 1 + length w3 + length lit)"
        using vr(1) [OF True] by blast
      let ?p = "?k @ w2 @ CHR '':'' # w3"
      obtain g where g: "f = Suc g" using q(4) by (cases f) auto
      have "next_byte (w3 @ quote t @ s4) = Some (dquote, quote_body t @ dquote # s4)"
        using l(2) by (simp add: quote_def)
      then have nv: "parse_value f d (w3 @ quote t @ s4) = Some (JStr t, s4)"
        using scan_quote_body [of t s4] Suc.prems(3) by (simp add: g parse_value.simps(2))
      have "parse_members (Suc f) d (?p @ quote t @ s4) = Some (set_model t kvs, r)"
        using w1(2) q(2,5,6) w2(2) nv m True by (auto simp: parse_members.simps(2) expect_def)
      moreover have "s = ?p @ lit @ s4" using s w2(1) l(1) by simp
      moreover have "locate_loop body first s0 = Some (length pre + length ?p, length pre + length ?p + length lit)"
        using loop m l(5) by (simp add: add.assoc)
      ultimately show ?thesis using sm l(3,4) by (simp only: if_True) blast
    next
      case False
      then show ?thesis using vr(2) loop m km by (auto simp: string_model_def)
    qed
  next
    case k: False
    have loop': "locate_loop body first s0 = locate_loop body False s4" using loop k sv by simp
    from q(6) show ?thesis
    proof (elim disjE conjE exE)
      assume e: "c = CHR ''}''" "kvs = [(unquote raw, v)]"
      have "locate_loop body False s4 = None" using q(5) e(1) by (subst locate_loop.simps) simp
      then show ?thesis using loop' e k by (simp add: string_model_def)
    next
      fix k'
      assume e: "c = CHR '',''" "parse_members f d s5 = Some (k', r)" "kvs = (unquote raw, v) # k'"
      obtain a where a: "s3 = a @ s4" "\<And>r'. num_stop r' \<Longrightarrow> parse_value f d (a @ r') = Some (v, r')"
        using parse_local [of f d s3] q(4) by (auto simp: local_def)
      let ?u = "?k @ w2 @ CHR '':'' # a @ w4 @ '',''"
      have b: "body = (pre @ ?u) @ s5" using body a(1) w4(1) e(1) by simp
      have ex: "if False then s4 = s5 else expect (CHR '','') s4 = Some s5" using q(5) e(1) by (simp add: expect_iff)
      note IH = Suc.IH [OF e(2) b Suc.prems(3) ex]
      have sm: "string_model kvs = string_model k'" using e(3) k by (simp add: string_model_def)
      show ?thesis
      proof (cases "string_model k'")
        case True
        then obtain p lit z where l: "s5 = p @ lit @ z" "lit \<noteq> []" "hd lit = dquote"
          "locate_loop body False s4 = Some (length (pre @ ?u) + length p, length (pre @ ?u) + length p + length lit)"
          "parse_members f d (p @ quote t @ z) = Some (set_model t k', r)"
          using IH by auto
        have "parse_members (Suc f) d ((?u @ p) @ quote t @ z) = Some (set_model t kvs, r)"
          using w1(2) w2(2) w4(2) q(2) l(5) e(3) k by (auto simp: parse_members.simps(2) expect_def a(2))
        moreover have "s = (?u @ p) @ lit @ z" using s w2(1) a(1) w4(1) e(1) l(1) by simp
        moreover have "locate_loop body first s0 = Some (length pre + length (?u @ p), length pre + length (?u @ p) + length lit)"
          using loop' l(4) by (simp add: add.assoc)
        ultimately show ?thesis using sm True l(2,3) by (simp only: if_True) blast
      next
        case False
        then show ?thesis using IH loop' sm by simp
      qed
    qed
  qed
qed simp

lemma patch_parsed:
  assumes "json_parse body = Some (JObj kvs)" "valid_utf8 t"
  shows "json_parse (patchTopLevelModelField body t) = Some (JObj (set_model t kvs))"
proof -
  obtain r where r: "json_prefix 0 body = Some (JObj kvs, r)" "skip_ws r = []"
    using assms(1) by (auto simp: json_parse_def split: option.splits if_splits)
  let ?f = "2 * length body"
  have p: "parse_value (Suc ?f) 0 body = Some (JObj kvs, r)" using r(1) by (simp add: json_prefix_def)
  obtain c cs where n: "next_byte body = Some (c, cs)"
    using p by (cases "next_byte body") (auto simp: parse_value.simps(2))
  have "v \<noteq> JObj kvs" if "scan_literal (c # cs) = Some (v, r)" for v
    using that by (auto simp: scan_literal_def split: if_splits)
  then have c: "c = CHR ''{''"
    using p n by (auto simp: parse_value.simps(2) bind_eq_Some_conv split: if_splits option.splits)
  obtain w where w: "body = w @ CHR ''{'' # cs" "list_all isWs w" using n c by (auto simp: next_byte_split)
  have loc: "locateTopLevelModelValue body = locate_loop body True cs"
    using n c by (simp add: locateTopLevelModelValue_def expect_def)
  show ?thesis
  proof (cases "expect (CHR ''}'') cs")
    case (Some u)
    then have e: "kvs = []" using p n c by (auto simp: parse_value.simps(2) split: if_splits)
    have "locate_loop body True cs = None"
      using Some by (subst locate_loop.simps) (auto simp: expect_iff)
    then show ?thesis using assms(1) e by (simp add: patchTopLevelModelField_def loc)
  next
    case None
    then have m: "parse_members ?f 1 cs = Some (kvs, r)"
      using p n c by (auto simp: parse_value.simps(2) bind_eq_Some_conv split: if_splits)
    have b: "body = (w @ ''{'') @ cs" using w by simp
    note L = locate_members [OF m b assms(2), of True cs]
    show ?thesis
    proof (cases "string_model kvs")
      case False
      then show ?thesis using L assms(1) by (simp add: patchTopLevelModelField_def loc set_model_id)
    next
      case True
      then obtain q lit z where l: "cs = q @ lit @ z" "lit \<noteq> []" "hd lit = dquote"
        "locate_loop body True cs = Some (length (w @ ''{'') + length q, length (w @ ''{'') + length q + length lit)"
        "parse_members ?f 1 (q @ quote t @ z) = Some (set_model t kvs, r)"
        using L by auto
      have b': "body = (w @ CHR ''{'' # q) @ lit @ z" using w(1) l(1) by simp
      let ?n = "length (w @ CHR ''{'' # q)"
      have "?n < length body" "body ! ?n = dquote"
        using b' l(2,3) by (simp_all add: nth_append hd_conv_nth)
      moreover have "take ?n body = w @ CHR ''{'' # q" "drop (?n + length lit) body = z" using b' by simp_all
      ultimately have pt: "patchTopLevelModelField body t = w @ CHR ''{'' # q @ quote t @ z"
        using l(4) by (simp add: patchTopLevelModelField_def loc)
      have "expect (CHR ''}'') (q @ quote t @ z) = None" by (rule parse_members_no_brace [OF l(5)])
      then have "parse_value (Suc ?f) 0 (w @ CHR ''{'' # q @ quote t @ z) = Some (JObj (set_model t kvs), r)"
        using w(2) l(5) by (simp add: parse_value.simps(2) maxNestingDepth_def)
      then show ?thesis
        using json_prefix_stable(1) r(2) by (simp add: pt json_parse_def)
    qed
  qed
qed

lemma dropWhile_all: "list_all P u \<Longrightarrow> dropWhile P (u @ s) = dropWhile P s"
  by (induction u) auto

lemma TrimNewlines_append: "list_all isNewline u \<Longrightarrow> s = [] \<or> \<not> isNewline (last s) \<Longrightarrow> TrimNewlines (s @ u) = s"
  using dropWhile_all [of isNewline "rev u" "rev s"]
  by (cases s rule: rev_cases) (auto simp: TrimNewlines_def list_all_iff)

definition ex_chunk :: json where
  "ex_chunk = JObj [(''id'', JStr ''x1''), (''model'', JStr ''glm''), (''usage'', JObj [(''model'', JStr ''glm'')])]"

lemma ex_chunk:
  "json_parse (marshal ex_chunk)
     = Some (JObj [(''id'', JStr ''x1''), (''model'', JStr ''glm''), (''usage'', JObj [(''model'', JStr ''glm'')])])"
  "valid_utf8 ''coding''"
proof -
  have v: "valid_utf8 ''coding''" "valid_utf8 ''id''" "valid_utf8 ''x1''" "valid_utf8 ''model''" "valid_utf8 ''glm''" "valid_utf8 ''usage''"
    by (simp_all add: valid_utf8.simps Let_def)
  then have "wf_json 0 ex_chunk" by (simp add: ex_chunk_def maxNestingDepth_def)
  from json_round_trip [OF this] show "json_parse (marshal ex_chunk)
     = Some (JObj [(''id'', JStr ''x1''), (''model'', JStr ''glm''), (''usage'', JObj [(''model'', JStr ''glm'')])])"
    by (simp add: ex_chunk_def)
  show "valid_utf8 ''coding''" by (rule v)
qed

text \<open>C29: masking a complete event sets the model the client sees, and only that. When the data of an event is
  a JSON object, behind any number of blanks and before the line ends, the event written is the same
  up to the data, and the data parses to the same members in the same order, the first one named
  \<open>model\<close> being the target when it was a string.\<close>

theorem mask_event_sets_model:
  assumes "find_data True 0 event = Some k" "drop k event = replicate n (CHR '' '') @ body @ term"
    and "HasPrefix body ''{''" "\<not> isNewline (last body)" "list_all isNewline term"
    and "json_parse body = Some (JObj kvs)" "valid_utf8 t"
  shows "\<exists>body'. maskEvent t event = take k event @ replicate n (CHR '' '') @ body' @ term
    \<and> json_parse body' = Some (JObj (set_model t kvs))"
proof -
  obtain b where b: "body = CHR ''{'' # b" using assms(3) by (auto simp: HasPrefix_iff)
  have trimmed: "dropWhile (\<lambda>c. c = CHR '' '') (drop k event) = body @ term"
    using dropWhile_all [of "\<lambda>c. c = CHR '' ''" "replicate n (CHR '' '')" "body @ term"]
    by (simp add: assms(2) b list_all_iff)
  have tb: "TrimNewlines (body @ term) = body"
    by (rule TrimNewlines_append [OF assms(5)]) (use assms(4) in blast)
  have tp: "TrimNewlines (drop k event) = replicate n (CHR '' '') @ body"
    using TrimNewlines_append [OF assms(5), of "replicate n (CHR '' '') @ body"] assms(2,4) b by simp
  let ?b' = "patchTopLevelModelField body t"
  have "event = take k event @ drop k event" by simp
  then have ev: "event = take k event @ replicate n (CHR '' '') @ body @ term" using assms(2) by simp
  have len: "length (drop k event) = n + length body + length term" by (simp add: assms(2))
  have "maskEvent t event = (if length ?b' = length body \<and> ?b' = body then event
     else take k event @ replicate n (CHR '' '') @ ?b' @ term)"
    using len assms(1,2,3) trimmed tb tp
    by (simp add: maskEvent_def Let_def HasPrefix_iff b del: length_drop)
  then have "maskEvent t event = take k event @ replicate n (CHR '' '') @ ?b' @ term" using ev by auto
  moreover have "json_parse ?b' = Some (JObj (set_model t kvs))" by (rule patch_parsed [OF assms(6,7)])
  ultimately show ?thesis by blast
qed

theorem mask_event_sets_model_witness:
  "\<exists>body'. maskEvent ''coding'' (''data: '' @ marshal ex_chunk @ [CHR 0x0A, CHR 0x0A]) = ''data: '' @ body' @ [CHR 0x0A, CHR 0x0A]
    \<and> json_parse body' = Some (JObj [(''id'', JStr ''x1''), (''model'', JStr ''coding''), (''usage'', JObj [(''model'', JStr ''glm'')])])"
  using mask_event_sets_model [OF _ _ _ _ _ ex_chunk(1) ex_chunk(2), of "''data: '' @ marshal ex_chunk @ [CHR 0x0A, CHR 0x0A]" 5 1 "[CHR 0x0A, CHR 0x0A]"]
  by (simp add: ex_chunk_def isNewline_def)

text \<open>Reading back what the patch wrote. The patched body parses to the object with the target as its
  model, so that patching it again finds exactly the target there; an object without a string under
  its first \<open>model\<close> key is returned unchanged, byte for byte.\<close>

theorem patch_reads_back:
  assumes "json_parse body = Some (JObj kvs)" "valid_utf8 t"
  shows "json_parse (patchTopLevelModelField body t) = Some (JObj (set_model t kvs))
    \<and> (string_model kvs \<longrightarrow> map_of (set_model t kvs) ''model'' = Some (JStr t))
    \<and> map fst (set_model t kvs) = map fst kvs
    \<and> (\<forall>k. k \<noteq> ''model'' \<longrightarrow> map_of (set_model t kvs) k = map_of kvs k)"
proof -
  have "string_model kvs \<longrightarrow> map_of (set_model t kvs) ''model'' = Some (JStr t)"
    by (induction kvs) (auto simp: string_model_def split: json.splits)
  moreover have "map fst (set_model t kvs) = map fst kvs"
    by (induction kvs) (auto split: json.splits)
  moreover have "map_of (set_model t kvs) k = map_of kvs k" if "k \<noteq> ''model''" for k
    using that by (induction kvs) (auto split: json.splits)
  ultimately show ?thesis using patch_parsed [OF assms] by blast
qed

theorem patch_reads_back_witness:
  "json_parse (patchTopLevelModelField (marshal ex_chunk) ''coding'')
     = Some (JObj [(''id'', JStr ''x1''), (''model'', JStr ''coding''), (''usage'', JObj [(''model'', JStr ''glm'')])])"
  using patch_reads_back [OF ex_chunk] by simp

end
