(* ===== verification/ToolRepair.thy ===== *)
theory ToolRepair
  imports GoJson
begin

text \<open>
  Repair of broken tool-call arguments (\<open>toolrepair/strategies.go\<close>, \<open>repair.go\<close>, \<open>fixer.go\<close>,
  \<open>repair_config.go\<close>). A strategy returns \<open>None\<close> for an error. Parameters: \<open>jr\<close>, the function of the
  third-party package \<open>jsonrepair\<close>, and the function of the fixer that asks a model. Times and log
  lines are left out. The theorems: whatever those two return, a repair that reports success hands
  out valid JSON and valid arguments are never touched; the counters add up; trailing garbage behind
  a complete object is cut off exactly.
\<close>

section \<open>Validity\<close>

definition isValidJSON :: "string \<Rightarrow> bool" where
  "isValidJSON s \<longleftrightarrow> Unmarshal_any s \<noteq> None"

definition LastIndex :: "string \<Rightarrow> string \<Rightarrow> nat option" where
  "LastIndex s p = map_option (\<lambda>i. length s - length p - i) (Index (rev s) (rev p))"

section \<open>The strategies\<close>

definition cut_between :: "string \<Rightarrow> string \<Rightarrow> string \<Rightarrow> string option" where
  "cut_between input opening closing =
     (case Index input opening of
        None \<Rightarrow> None
      | Some a \<Rightarrow>
          (case LastIndex input closing of
             None \<Rightarrow> None
           | Some b \<Rightarrow> if b > a \<and> isValidJSON (drop a (take (b + 1) input))
               then Some (drop a (take (b + 1) input)) else None))"

definition extractJSONBlock :: "string \<Rightarrow> string option" where
  "extractJSONBlock input0 =
     (let input = TrimSpace input0 in
      if isValidJSON input then Some input
      else case cut_between input ''{'' ''}'' of
          Some e \<Rightarrow> Some e
        | None \<Rightarrow> (case cut_between input ''['' '']'' of Some e \<Rightarrow> Some e | None \<Rightarrow> Some input))"

definition libraryRepair :: "(string \<Rightarrow> string option) \<Rightarrow> string \<Rightarrow> string option" where
  "libraryRepair jr input = jr input"

text \<open>Case-insensitive match of a pattern's letters at the head of a text; the long s folds to s.\<close>

fun match_ci :: "string \<Rightarrow> string \<Rightarrow> bool" where
  "match_ci [] s = True"
| "match_ci (l # ls) [] = False"
| "match_ci (l # ls) (c # cs) =
     (if lower_char c = lower_char l then match_ci ls cs
      else if lower_char l = CHR ''s'' \<and> c = CHR 0xC5 \<and> HasPrefix cs [CHR 0xBF] then match_ci ls (tl cs)
      else False)"

text \<open>\<open>ReplaceAllString\<close> of a literal followed by \<open>.*\<close>: from the literal to the end of its line.\<close>

function remove_lines :: "string \<Rightarrow> string \<Rightarrow> string" where
  "remove_lines lit s =
     (case s of [] \<Rightarrow> []
      | c # cs \<Rightarrow> if match_ci lit s then remove_lines lit (dropWhile (\<lambda>x. x \<noteq> CHR 0x0A) cs)
          else c # remove_lines lit cs)"
  by pat_completeness auto
termination
  by (relation "measure (\<lambda>(lit, s). length s)") (auto simp: le_imp_less_Suc length_dropWhile_le)

declare remove_lines.simps [simp del]

definition reasoningPatterns :: "string list" where
  "reasoningPatterns = [''Summary:'', ''Approach:'', ''Recommended:'', ''Let me'',
     CHR ''I'' # CHR 0x27 # ''ll'', ''First,'', ''Next,'', ''Finally,'']"

definition removeReasoningLeakage :: "string \<Rightarrow> string option" where
  "removeReasoningLeakage input =
     (let result = TrimSpace (fold remove_lines reasoningPatterns input)
      in if \<not> isValidJSON result then Some input else Some result)"

fun trim_scan :: "nat \<Rightarrow> int \<Rightarrow> int \<Rightarrow> bool \<Rightarrow> bool \<Rightarrow> string \<Rightarrow> int" where
  "trim_scan i dep lastEnd inString escape [] = lastEnd"
| "trim_scan i dep lastEnd inString escape (ch # s) =
     (if escape then trim_scan (i + 1) dep lastEnd inString False s
      else if ch = backslash \<and> inString then trim_scan (i + 1) dep lastEnd inString True s
      else if ch = dquote then trim_scan (i + 1) dep lastEnd (\<not> inString) escape s
      else if \<not> inString then
        (if ch = CHR ''{'' then trim_scan (i + 1) (dep + 1) lastEnd inString escape s
         else if ch = CHR ''}'' then
           trim_scan (i + 1) (dep - 1) (if dep - 1 = 0 then int (i + 1) else lastEnd) inString escape s
         else trim_scan (i + 1) dep lastEnd inString escape s)
      else trim_scan (i + 1) dep lastEnd inString escape s)"

definition trimTrailingGarbage :: "string \<Rightarrow> string option" where
  "trimTrailingGarbage input0 =
     (let input = TrimSpace input0 in
      if isValidJSON input then Some input
      else let lastValidEnd = trim_scan 0 0 (-1) False False input in
        if lastValidEnd > 0 \<and> lastValidEnd < int (length input)
           \<and> isValidJSON (take (nat lastValidEnd) input)
        then Some (take (nat lastValidEnd) input)
        else Some input)"

definition getStrategy :: "(string \<Rightarrow> string option) \<Rightarrow> string \<Rightarrow> (string \<Rightarrow> string option) option" where
  "getStrategy jr name =
     (if name = ''extract_json'' then Some extractJSONBlock
      else if name = ''library_repair'' then Some (libraryRepair jr)
      else if name = ''remove_reasoning'' then Some removeReasoningLeakage
      else if name = ''trim_trailing_garbage'' then Some trimTrailingGarbage
      else None)"

section \<open>Configuration and fixer\<close>

record Config =
  Enabled :: bool
  Strategies :: "string list"
  MaxArgumentsSize :: int
  MaxToolCallsPerResponse :: int
  FixerModel :: string

definition DefaultConfig :: Config where
  "DefaultConfig = \<lparr>Enabled = True,
     Strategies = [''trim_trailing_garbage'', ''extract_json'', ''library_repair'', ''remove_reasoning''],
     MaxArgumentsSize = 100 * 1024, MaxToolCallsPerResponse = 8, FixerModel = []\<rparr>"

definition DisabledConfig :: Config where
  "DisabledConfig = \<lparr>Enabled = False, Strategies = [], MaxArgumentsSize = 0,
     MaxToolCallsPerResponse = 0, FixerModel = []\<rparr>"

text \<open>The fixer's call of a model, with the model's name and the prompt.\<close>

record Fixer =
  fixerFunc :: "string \<Rightarrow> string \<Rightarrow> string option"
  fixer_config :: Config

definition too_large :: "Config \<Rightarrow> string \<Rightarrow> bool" where
  "too_large cfg s \<longleftrightarrow> MaxArgumentsSize cfg > 0 \<and> int (length s) > MaxArgumentsSize cfg"

definition buildFixerUserPrompt :: "string \<Rightarrow> string" where
  "buildFixerUserPrompt malformed =
     ''Fix this JSON. Return ONLY valid JSON:'' @ [CHR 0x0A, CHR 0x0A] @ malformed"

definition Fix :: "Fixer \<Rightarrow> string \<Rightarrow> string option" where
  "Fix f malformed =
     (if too_large (fixer_config f) malformed then None
      else case fixerFunc f (FixerModel (fixer_config f)) (buildFixerUserPrompt malformed) of
          None \<Rightarrow> None
        | Some fixed0 \<Rightarrow> let fixed = TrimSpace fixed0 in if \<not> isValidJSON fixed then None else Some fixed)"

section \<open>The repairer\<close>

record RepairResult =
  Original :: string
  Repaired :: string
  Success :: bool
  Used :: "string list"
  Err :: string
  ToolName :: string

record Repairer =
  config :: Config
  fixer :: "Fixer option"

definition NewRepairer :: "Config option \<Rightarrow> Repairer" where
  "NewRepairer c = \<lparr>config = (case c of None \<Rightarrow> DefaultConfig | Some cfg \<Rightarrow> cfg), fixer = None\<rparr>"

definition SetFixer :: "Fixer \<Rightarrow> Repairer \<Rightarrow> Repairer" where
  "SetFixer f r = r\<lparr>fixer := Some f\<rparr>"

text \<open>The loop over the strategies: the repaired text, or what is left for the fixer.\<close>

fun strategy_loop :: "(string \<Rightarrow> string option) \<Rightarrow> string list \<Rightarrow> string list \<Rightarrow> string
    \<Rightarrow> string list \<times> (string + string)" where
  "strategy_loop jr [] used arguments = (used, Inl arguments)"
| "strategy_loop jr (name # names) used arguments =
     (case getStrategy jr name of
        None \<Rightarrow> strategy_loop jr names used arguments
      | Some strategy \<Rightarrow>
          (case strategy arguments of
             None \<Rightarrow> strategy_loop jr names (used @ [name]) arguments
           | Some repaired \<Rightarrow>
               if isValidJSON repaired then (used @ [name], Inr repaired)
               else strategy_loop jr names (used @ [name]) repaired))"

definition fixer_answer :: "Repairer \<Rightarrow> string \<Rightarrow> string option" where
  "fixer_answer r arguments =
     (if FixerModel (config r) = [] then None
      else case fixer r of None \<Rightarrow> None
        | Some f \<Rightarrow> (case Fix f arguments of None \<Rightarrow> None
            | Some fixed \<Rightarrow> if isValidJSON fixed then Some fixed else None))"

definition RepairArguments :: "(string \<Rightarrow> string option) \<Rightarrow> Repairer \<Rightarrow> string \<Rightarrow> string \<Rightarrow> RepairResult" where
  "RepairArguments jr r arguments toolName =
     (let result = \<lparr>Original = arguments, Repaired = [], Success = False, Used = [], Err = [], ToolName = toolName\<rparr> in
      if too_large (config r) arguments then result\<lparr>Err := ''arguments exceed size limit''\<rparr>
      else case strategy_loop jr (Strategies (config r)) [] arguments of
          (used, Inr repaired) \<Rightarrow> result\<lparr>Repaired := repaired, Success := True, Used := used\<rparr>
        | (used, Inl arguments') \<Rightarrow>
            (case fixer_answer r arguments' of
               Some fixed \<Rightarrow> result\<lparr>Repaired := fixed, Success := True, Used := used @ [''fixer_model'']\<rparr>
             | None \<Rightarrow> result\<lparr>Used := used, Err := ''all repair strategies failed''\<rparr>))"

record ToolCallData =
  ID :: string
  Type :: string
  Name :: string
  Arguments :: string

record RepairStats =
  TotalToolCalls :: nat
  ValidJSON :: nat
  InvalidJSON :: nat
  RepairedCount :: nat
  Failed :: nat
  TooLarge :: nat
  ExceededLimit :: bool
  StrategiesUsed :: "string \<Rightarrow> nat"

definition NewRepairStats :: RepairStats where
  "NewRepairStats = \<lparr>TotalToolCalls = 0, ValidJSON = 0, InvalidJSON = 0, RepairedCount = 0, Failed = 0,
     TooLarge = 0, ExceededLimit = False, StrategiesUsed = (\<lambda>_. 0)\<rparr>"

definition count_strategies :: "string list \<Rightarrow> RepairStats \<Rightarrow> RepairStats" where
  "count_strategies used st = fold (\<lambda>n st. st\<lparr>StrategiesUsed := (StrategiesUsed st)(n := StrategiesUsed st n + 1)\<rparr>) used st"

definition repair_call :: "(string \<Rightarrow> string option) \<Rightarrow> Repairer \<Rightarrow> ToolCallData
    \<Rightarrow> RepairStats \<times> RepairResult list \<Rightarrow> ToolCallData \<times> RepairStats \<times> RepairResult list" where
  "repair_call jr r tc = (\<lambda>(st0, results).
     let st = st0\<lparr>TotalToolCalls := TotalToolCalls st0 + 1\<rparr> in
     if too_large (config r) (Arguments tc) then (tc, st\<lparr>TooLarge := TooLarge st + 1\<rparr>, results)
     else if isValidJSON (Arguments tc) then (tc, st\<lparr>ValidJSON := ValidJSON st + 1\<rparr>, results)
     else let result = RepairArguments jr r (Arguments tc) (Name tc);
              st1 = st\<lparr>InvalidJSON := InvalidJSON st + 1\<rparr>
          in if Success result
             then (tc\<lparr>Arguments := Repaired result\<rparr>,
                   count_strategies (Used result) (st1\<lparr>RepairedCount := RepairedCount st1 + 1\<rparr>), results @ [result])
             else (tc, count_strategies (Used result) (st1\<lparr>Failed := Failed st1 + 1\<rparr>), results @ [result]))"

fun repair_loop :: "(string \<Rightarrow> string option) \<Rightarrow> Repairer \<Rightarrow> ToolCallData list
    \<Rightarrow> RepairStats \<times> RepairResult list \<Rightarrow> ToolCallData list \<times> RepairStats \<times> RepairResult list" where
  "repair_loop jr r [] s = ([], s)"
| "repair_loop jr r (tc # tcs) s =
     (case repair_call jr r tc s of (tc', s1) \<Rightarrow> (case repair_loop jr r tcs s1 of (tcs', s2) \<Rightarrow> (tc' # tcs', s2)))"

text \<open>The calls, the statistics, and what the event callback is given when it is called.\<close>

definition RepairToolCallsData :: "(string \<Rightarrow> string option) \<Rightarrow> Repairer \<Rightarrow> ToolCallData list \<Rightarrow> bool
    \<Rightarrow> ToolCallData list \<times> RepairStats \<times> (RepairStats \<times> RepairResult list) option" where
  "RepairToolCallsData jr r toolCalls has_callback =
     (if \<not> Enabled (config r) then (toolCalls, NewRepairStats, None)
      else if MaxToolCallsPerResponse (config r) > 0 \<and> int (length toolCalls) > MaxToolCallsPerResponse (config r)
        then (toolCalls, NewRepairStats\<lparr>ExceededLimit := True\<rparr>, None)
      else case repair_loop jr r toolCalls (NewRepairStats, []) of
          (calls, st, results) \<Rightarrow>
            (calls, st, if has_callback \<and> (RepairedCount st > 0 \<or> Failed st > 0) then Some (st, results) else None))"

section \<open>Success means valid JSON\<close>

lemma strategy_loop_sound:
  "case strategy_loop jr names used arguments of
     (u, Inr x) \<Rightarrow> isValidJSON x \<and> (\<exists>us. u = used @ us \<and> us \<noteq> [] \<and> set us \<subseteq> set names)
   | (u, Inl x) \<Rightarrow> \<exists>us. u = used @ us \<and> set us \<subseteq> set names"
proof (induction names arbitrary: used arguments)
  case (Cons name names)
  show ?case
  proof (cases "getStrategy jr name")
    case None
    then show ?thesis using Cons [of used arguments] by (auto split: prod.splits sum.splits)
  next
    case (Some strategy)
    show ?thesis
    proof (cases "strategy arguments")
      case None
      then show ?thesis using Cons [of "used @ [name]" arguments] Some by (auto split: prod.splits sum.splits)
    next
      case (Some repaired)
      then show ?thesis using Cons [of "used @ [name]" repaired] \<open>getStrategy jr name = Some strategy\<close>
        by (auto split: prod.splits sum.splits)
    qed
  qed
qed simp

lemma RepairArguments_sound:
  "let res = RepairArguments jr r arguments toolName in
     Original res = arguments \<and> ToolName res = toolName
     \<and> set (Used res) \<subseteq> insert ''fixer_model'' (set (Strategies (config r)))
     \<and> (if Success res then isValidJSON (Repaired res) \<and> Err res = [] else Repaired res = [] \<and> Err res \<noteq> [])"
  using strategy_loop_sound [where jr = jr and names = "Strategies (config r)" and used = "[]" and arguments = arguments]
  by (auto simp: RepairArguments_def Let_def fixer_answer_def split: option.splits prod.splits sum.splits if_splits)

definition call_ok :: "ToolCallData \<Rightarrow> ToolCallData \<Rightarrow> bool" where
  "call_ok tc tc' \<longleftrightarrow> ID tc' = ID tc \<and> Type tc' = Type tc \<and> Name tc' = Name tc
     \<and> (Arguments tc' = Arguments tc \<or> \<not> isValidJSON (Arguments tc) \<and> isValidJSON (Arguments tc'))"

definition stats_ok :: "RepairStats \<Rightarrow> bool" where
  "stats_ok st \<longleftrightarrow> TotalToolCalls st = TooLarge st + ValidJSON st + InvalidJSON st
     \<and> InvalidJSON st = RepairedCount st + Failed st"

lemma count_strategies_fields [simp]:
  "TotalToolCalls (count_strategies u st) = TotalToolCalls st" "TooLarge (count_strategies u st) = TooLarge st"
  "ValidJSON (count_strategies u st) = ValidJSON st" "InvalidJSON (count_strategies u st) = InvalidJSON st"
  "RepairedCount (count_strategies u st) = RepairedCount st" "Failed (count_strategies u st) = Failed st"
  "ExceededLimit (count_strategies u st) = ExceededLimit st"
  unfolding count_strategies_def by (induction u arbitrary: st) simp_all

lemma repair_call_sound:
  assumes "repair_call jr r tc (st, results) = (tc', st', results')" "stats_ok st"
  shows "call_ok tc tc' \<and> stats_ok st' \<and> TotalToolCalls st' = TotalToolCalls st + 1
    \<and> ExceededLimit st' = ExceededLimit st
    \<and> length results' + InvalidJSON st = length results + InvalidJSON st'"
  using assms RepairArguments_sound [of jr r "Arguments tc" "Name tc"]
  by (auto simp: repair_call_def Let_def call_ok_def stats_ok_def split: if_splits)

lemma repair_loop_sound:
  "repair_loop jr r tcs (st, results) = (tcs', st', results') \<Longrightarrow> stats_ok st \<Longrightarrow>
     list_all2 call_ok tcs tcs' \<and> stats_ok st' \<and> TotalToolCalls st' = TotalToolCalls st + length tcs
     \<and> ExceededLimit st' = ExceededLimit st
     \<and> length results' + InvalidJSON st = length results + InvalidJSON st'"
proof (induction tcs arbitrary: st results tcs')
  case (Cons tc tcs)
  obtain t1 s1 r1 where c: "repair_call jr r tc (st, results) = (t1, s1, r1)" by (metis prod_cases3)
  obtain t2 where t2: "repair_loop jr r tcs (s1, r1) = (t2, st', results')" "tcs' = t1 # t2"
    using Cons.prems(1) c by (auto split: prod.splits)
  note k = repair_call_sound [OF c Cons.prems(2)]
  from Cons.IH [OF t2(1)] k t2(2) show ?case by simp
qed simp

text \<open>Repair never damages a call. Whatever the repair library and the fixer return, every call keeps its
  identity and name, its arguments are either unchanged or they were no valid JSON and now are, and
  the statistics add up: every call is counted as too large, valid or invalid, every invalid one as
  repaired or failed, and the callback is given one result per invalid call.\<close>

theorem repair_calls_sound:
  "case RepairToolCallsData jr r calls cb of (calls', st, given) \<Rightarrow>
     list_all2 call_ok calls calls' \<and> stats_ok st
     \<and> TotalToolCalls st = (if Enabled (config r) \<and> \<not> ExceededLimit st then length calls else 0)
     \<and> (case given of None \<Rightarrow> True | Some (st', results) \<Rightarrow> st' = st \<and> length results = InvalidJSON st)"
proof -
  have same: "list_all2 call_ok calls calls" by (rule list_all2_refl) (simp add: call_ok_def)
  have n: "stats_ok NewRepairStats" "stats_ok (NewRepairStats\<lparr>ExceededLimit := True\<rparr>)"
    by (simp_all add: stats_ok_def NewRepairStats_def)
  obtain calls' st results where l: "repair_loop jr r calls (NewRepairStats, []) = (calls', st, results)"
    by (metis prod_cases3)
  note k = repair_loop_sound [OF l n(1)]
  consider (off) "\<not> Enabled (config r)"
    | (many) "Enabled (config r)" "MaxToolCallsPerResponse (config r) > 0 \<and> int (length calls) > MaxToolCallsPerResponse (config r)"
    | (run) "Enabled (config r)" "\<not> (MaxToolCallsPerResponse (config r) > 0 \<and> int (length calls) > MaxToolCallsPerResponse (config r))"
    by blast
  then show ?thesis
  proof cases
    case off
    then show ?thesis using same n(1) by (simp add: RepairToolCallsData_def NewRepairStats_def)
  next
    case many
    then show ?thesis using same n(2) by (simp add: RepairToolCallsData_def NewRepairStats_def)
  next
    case run
    then have "RepairToolCallsData jr r calls cb
        = (calls', st, if cb \<and> (RepairedCount st > 0 \<or> Failed st > 0) then Some (st, results) else None)"
      unfolding RepairToolCallsData_def if_not_P [OF run(2)] l by simp
    then show ?thesis using run k by (simp add: NewRepairStats_def)
  qed
qed

section \<open>Trailing garbage\<close>

text \<open>The scan passes over a piece of text, changing the depth only.\<close>

definition skips :: "int \<Rightarrow> int \<Rightarrow> string \<Rightarrow> string \<Rightarrow> bool" where
  "skips d1 d2 s r \<longleftrightarrow> (\<exists>a. s = a @ r \<and>
     (\<forall>i le. trim_scan i d1 le False False s = trim_scan (i + length a) d2 le False False r))"

lemma skips_refl: "skips d d s s"
  by (simp add: skips_def)

lemma skips_trans: "skips d1 d2 s t \<Longrightarrow> skips d2 d3 t r \<Longrightarrow> skips d1 d3 s r"
  unfolding skips_def by (elim exE conjE, rule_tac x = "a @ aa" in exI) (simp add: add.assoc)

lemma skips_char: "c \<noteq> dquote \<Longrightarrow> c \<noteq> CHR ''{'' \<Longrightarrow> c \<noteq> CHR ''}'' \<Longrightarrow> skips d d (c # s) s"
  unfolding skips_def by (rule exI [of _ "[c]"]) simp

lemma skips_chars: "\<forall>c \<in> set a. c \<noteq> dquote \<and> c \<noteq> CHR ''{'' \<and> c \<noteq> CHR ''}'' \<Longrightarrow> skips d d (a @ s) s"
proof (induction a)
  case (Cons c a)
  then have "skips d d (c # a @ s) (a @ s)" by (intro skips_char) auto
  then show ?case using Cons skips_trans by fastforce
qed (simp add: skips_refl)

lemma skips_open: "skips d (d + 1) (CHR ''{'' # s) s"
  unfolding skips_def by (rule exI [of _ "''{''"]) simp

lemma skips_close: "d \<noteq> 1 \<Longrightarrow> skips d (d - 1) (CHR ''}'' # s) s"
  unfolding skips_def by (rule exI [of _ "''}''"]) simp

lemma skips_next: "next_byte s = Some (c, r) \<Longrightarrow> skips d d s (c # r)"
  using skips_chars isWs_not by (fastforce simp: next_byte_split list_all_iff)

lemma scan_in_string:
  "scan_string s = Some (raw, r) \<Longrightarrow> trim_scan i d le True False s = trim_scan (i + length raw + 1) d le False False r"
proof (induction s arbitrary: raw i rule: scan_string.induct)
  case (2 c cs)
  have hex: "h \<noteq> dquote \<and> h \<noteq> backslash" if "isHexDigit h" for h
    using that by (auto simp: isHexDigit_def)
  show ?case
  proof (cases "c = dquote")
    case True
    with "2.prems" show ?thesis by simp
  next
    case q: False
    show ?thesis
    proof (cases "c = backslash")
      case False
      then obtain a where "scan_string cs = Some (a, r)" "raw = c # a" "\<not> (of_char c :: nat) < 32"
        using "2.prems" q by (auto split: if_splits)
      then show ?thesis using "2.IH"(3) [OF q False, of a] q False by simp
    next
      case b: True
      then obtain e es where cs: "cs = e # es" using "2.prems" q by (cases cs) auto
      show ?thesis
      proof (cases "e = CHR ''u''")
        case True
        then obtain h1 h2 h3 h4 t a where t: "es = h1 # h2 # h3 # h4 # t" "list_all isHexDigit [h1, h2, h3, h4]"
          "scan_string t = Some (a, r)" "raw = c # e # h1 # h2 # h3 # h4 # a"
          using "2.prems" q b cs by (auto split: list.splits if_splits)
        have "h \<noteq> dquote \<and> h \<noteq> backslash" if "h \<in> {h1, h2, h3, h4}" for h using t(2) that hex by auto
        then show ?thesis using "2.IH"(1) [OF q b cs True t(1) refl refl refl t(2,3)] t(1,4) b cs True
          by (simp add: eval_nat_numeral)
      next
        case False
        then obtain a where t: "e \<in> set ''bfnrt/'' \<union> {dquote, backslash}" "scan_string es = Some (a, r)" "raw = c # e # a"
          using "2.prems" q b cs by (auto split: if_splits)
        then show ?thesis using "2.IH"(2) [OF q b cs False t(1,2)] b cs by simp
      qed
    qed
  qed
qed simp

lemma skips_string: "scan_string s = Some (raw, r) \<Longrightarrow> skips d d (dquote # s) r"
  using scan_string_split [of s raw r] scan_in_string [of s raw r]
  unfolding skips_def by (intro exI [of _ "dquote # raw @ [dquote]"]) auto

lemma digits_plain: "isDigit c \<Longrightarrow> c \<noteq> dquote \<and> c \<noteq> CHR ''{'' \<and> c \<noteq> CHR ''}''"
  by (auto simp: isDigit_def)

lemma takeWhile_digits: "c \<in> set (takeWhile isDigit s) \<Longrightarrow> isDigit c"
  by (meson set_takeWhileD)

lemma number_plain:
  assumes "scan_number s = Some (n, r)" "c \<in> set n"
  shows "c \<noteq> dquote \<and> c \<noteq> CHR ''{'' \<and> c \<noteq> CHR ''}''"
proof -
  have i: "x \<in> set i \<Longrightarrow> isDigit x" if "scan_int a = Some (i, b)" for a i b x
    using that by (auto simp: scan_int_def isDigit_def[of "CHR ''0''"] split: list.splits if_splits dest: takeWhile_digits)
  have f: "x \<in> set i \<Longrightarrow> x = CHR ''.'' \<or> isDigit x" if "scan_frac a = Some (i, b)" for a i b x
    using that by (auto simp: scan_frac_def split: list.splits if_splits dest: takeWhile_digits)
  have e: "x \<in> set i \<Longrightarrow> x \<in> set ''eE+-'' \<or> isDigit x" if "scan_exp a = Some (i, b)" for a i b x
    using that by (auto simp: scan_exp_def exp_sign_def split: list.splits if_splits prod.splits dest: takeWhile_digits)
  have "c = CHR ''-'' \<or> isDigit c \<or> c = CHR ''.'' \<or> c \<in> set ''eE+-''"
    using assms i f e by (fastforce simp: scan_number_def Let_def bind_eq_Some_conv split: list.splits prod.splits if_splits)
  then show ?thesis using digits_plain by auto
qed

lemma skips_literal:
  assumes "scan_literal s = Some (v, r)"
  shows "skips d d s r"
proof -
  have p: "skips d d s r" if "HasPrefix s p" "r = drop (length p) s" "p \<in> {''null'', ''true'', ''false''}" for p
    using that skips_chars [of p d r] by (auto simp: HasPrefix_iff)
  consider (lit) p where "HasPrefix s p" "r = drop (length p) s" "p \<in> {''null'', ''true'', ''false''}"
    | (num) n where "scan_number s = Some (n, r)"
  proof (cases "HasPrefix s ''null'' \<or> HasPrefix s ''true'' \<or> HasPrefix s ''false''")
    case True
    then have "HasPrefix s ''null'' \<and> r = drop (length ''null'') s
        \<or> HasPrefix s ''true'' \<and> r = drop (length ''true'') s
        \<or> HasPrefix s ''false'' \<and> r = drop (length ''false'') s"
      using assms by (simp add: scan_literal_def eval_nat_numeral split: if_splits)
    then show ?thesis using that(1) by blast
  next
    case False
    then show ?thesis using assms that(2) by (auto simp: scan_literal_def split: if_splits)
  qed
  then show ?thesis
  proof cases
    case lit
    then show ?thesis by (rule p)
  next
    case num
    then have "s = n @ r" using scan_number_split by blast
    then show ?thesis using skips_chars [of n d r] number_plain [OF num] by simp
  qed
qed

lemma scan_parse:
  "(\<forall>v r. parse_value f d s = Some (v, r) \<longrightarrow> 1 \<le> k \<longrightarrow> skips k k s r)
   \<and> (\<forall>kvs r. parse_members f d s = Some (kvs, r) \<longrightarrow> 1 \<le> k \<longrightarrow> skips k k s (CHR ''}'' # r))
   \<and> (\<forall>vs r. parse_elems f d s = Some (vs, r) \<longrightarrow> 1 \<le> k \<longrightarrow> skips k k s r)"
proof (induction f arbitrary: d s k)
  case (Suc f)
  have colon: "skips k k (CHR '':'' # t) t" "skips k k (CHR '','' # t) t" "skips k k (CHR '']'' # t) t"
    "skips k k (CHR ''['' # t) t" for k t
    by (simp_all add: skips_char)
  have v: "skips k k s r" if p: "parse_value (Suc f) d s = Some (v, r)" and k: "1 \<le> k" for v r
  proof -
    obtain c cs where n: "next_byte s = Some (c, cs)" using p by (cases "next_byte s") (auto simp: parse_value.simps(2))
    note s1 = skips_next [OF n, of k]
    consider (str) "c = dquote" | (obj) "c = CHR ''{''" | (arr) "c = CHR ''[''"
      | (lit) "c \<notin> {dquote, CHR ''{'', CHR ''[''}" by blast
    then show ?thesis
    proof cases
      case str
      then obtain raw where "scan_string cs = Some (raw, r)"
        using p n by (auto simp: parse_value.simps(2) bind_eq_Some_conv)
      then show ?thesis using s1 str skips_trans skips_string by metis
    next
      case obj
      have close: "skips (k + 1) k (CHR ''}'' # t) t" for t using skips_close [of "k + 1" t] k by simp
      show ?thesis
      proof (cases "expect (CHR ''}'') cs")
        case None
        then obtain kvs where "parse_members f (d + 1) cs = Some (kvs, r)"
          using p n obj by (auto simp: parse_value.simps(2) bind_eq_Some_conv split: if_splits)
        then have "skips (k + 1) (k + 1) cs (CHR ''}'' # r)" using Suc.IH [of "d + 1" cs "k + 1"] k by auto
        then show ?thesis using s1 skips_open close unfolding obj by (meson skips_trans)
      next
        case (Some t)
        then have "skips (k + 1) (k + 1) cs (CHR ''}'' # t)" by (simp add: expect_iff skips_next)
        moreover have "r = t" using p n obj Some by (auto simp: parse_value.simps(2) split: if_splits)
        ultimately show ?thesis using s1 skips_open close unfolding obj by (meson skips_trans)
      qed
    next
      case arr
      show ?thesis
      proof (cases "expect (CHR '']'') cs")
        case None
        then obtain vs where "parse_elems f (d + 1) cs = Some (vs, r)"
          using p n arr by (auto simp: parse_value.simps(2) bind_eq_Some_conv split: if_splits)
        then have "skips k k cs r" using Suc.IH [of "d + 1" cs k] k by auto
        then show ?thesis using s1 colon(4) unfolding arr by (meson skips_trans)
      next
        case (Some t)
        then have "skips k k cs (CHR '']'' # t)" by (simp add: expect_iff skips_next)
        moreover have "r = t" using p n arr Some by (auto simp: parse_value.simps(2) split: if_splits)
        ultimately show ?thesis using s1 colon(3,4) unfolding arr by (meson skips_trans)
      qed
    next
      case lit
      then have "scan_literal (c # cs) = Some (v, r)" using p n by (simp add: parse_value.simps(2))
      then show ?thesis using s1 skips_literal skips_trans by blast
    qed
  qed
  have m: "skips k k s (CHR ''}'' # r)" if p: "parse_members (Suc f) d s = Some (kvs, r)" and k: "1 \<le> k" for kvs r
  proof -
    obtain s1 raw s2 s3 x s4 c s5 where q: "expect dquote s = Some s1" "scan_string s1 = Some (raw, s2)"
      "expect (CHR '':'') s2 = Some s3" "parse_value f d s3 = Some (x, s4)" "next_byte s4 = Some (c, s5)"
      "c = CHR ''}'' \<and> r = s5 \<or> c = CHR '','' \<and> (\<exists>kv. parse_members f d s5 = Some (kv, r))"
      using p by (auto simp: parse_members.simps(2) bind_eq_Some_conv split: if_splits)
    have "skips k k s (dquote # s1)" "skips k k (dquote # s1) s2" "skips k k s2 (CHR '':'' # s3)"
      using q(1-3) by (simp_all add: expect_iff skips_next skips_string)
    moreover have "skips k k s3 s4" using Suc.IH [of d s3 k] q(4) k by auto
    moreover have "skips k k s4 (c # s5)" by (rule skips_next [OF q(5)])
    ultimately have "skips k k s (c # s5)" using colon(1) by (meson skips_trans)
    moreover have "skips k k (c # s5) (CHR ''}'' # r)"
      using q(6)
    proof (elim disjE conjE exE)
      assume "c = CHR ''}''" "r = s5"
      then show ?thesis by (simp add: skips_refl)
    next
      fix kv
      assume "c = CHR '',''" "parse_members f d s5 = Some (kv, r)"
      moreover from this(2) have "skips k k s5 (CHR ''}'' # r)" using Suc.IH [of d s5 k] k by auto
      ultimately show ?thesis using colon(2) by (meson skips_trans)
    qed
    ultimately show ?thesis by (rule skips_trans)
  qed
  have e: "skips k k s r" if p: "parse_elems (Suc f) d s = Some (vs, r)" and k: "1 \<le> k" for vs r
  proof -
    obtain x s1 c s2 where q: "parse_value f d s = Some (x, s1)" "next_byte s1 = Some (c, s2)"
      "c = CHR '']'' \<and> r = s2 \<or> c = CHR '','' \<and> (\<exists>xs. parse_elems f d s2 = Some (xs, r))"
      using p by (auto simp: parse_elems.simps(2) bind_eq_Some_conv split: if_splits)
    have "skips k k s s1" using Suc.IH [of d s k] q(1) k by auto
    then have "skips k k s (c # s2)" using skips_next [OF q(2)] by (rule skips_trans)
    moreover have "skips k k (c # s2) r"
      using q(3)
    proof (elim disjE conjE exE)
      assume "c = CHR '']''" "r = s2"
      then show ?thesis using colon(3) by simp
    next
      fix xs
      assume "c = CHR '',''" "parse_elems f d s2 = Some (xs, r)"
      moreover from this(2) have "skips k k s2 r" using Suc.IH [of d s2 k] k by auto
      ultimately show ?thesis using colon(2) by (meson skips_trans)
    qed
    ultimately show ?thesis by (rule skips_trans)
  qed
  show ?case using v m e by blast
qed simp

lemma trim_scan_outside: "dep \<le> 0 \<Longrightarrow> CHR ''{'' \<notin> set g \<Longrightarrow> trim_scan i dep le q e g = le"
  by (induction g arbitrary: i dep q e) auto

lemma TrimSpace_garbage:
  assumes "u \<noteq> []" "\<not> isSpace (hd u)" "\<not> isSpace (last u)"
  shows "\<exists>g'. TrimSpace (u @ g) = u @ g' \<and> set g' \<subseteq> set g \<and> (g' = [] \<or> \<not> isSpace (last g'))"
proof -
  have l: "dropWhile isSpace (u @ g) = u @ g" using assms(1,2) by (cases u) auto
  have r: "dropWhile isSpace (rev u) = rev u" using assms(1,3) by (cases u rule: rev_cases) auto
  show ?thesis
  proof (cases "\<forall>c \<in> set g. isSpace c")
    case True
    then have "dropWhile isSpace (rev g @ rev u) = rev u" using r by (simp add: dropWhile_append)
    then show ?thesis by (intro exI [of _ "[]"]) (simp add: TrimSpace_def l)
  next
    case False
    let ?g = "rev (dropWhile isSpace (rev g))"
    have "dropWhile isSpace (rev g @ rev u) = dropWhile isSpace (rev g) @ rev u"
      using False by (auto simp: dropWhile_append)
    then have "TrimSpace (u @ g) = u @ ?g" by (simp add: TrimSpace_def l)
    moreover have "set ?g \<subseteq> set g" by (auto dest: set_dropWhileD)
    moreover have "?g = [] \<or> \<not> isSpace (last ?g)"
      using hd_dropWhile [of isSpace "rev g"] False by (auto simp: last_rev)
    ultimately show ?thesis by blast
  qed
qed

lemma valid_object_end:
  assumes "isValidJSON obj" "HasPrefix obj ''{''" "last obj = CHR ''}''"
  shows "\<exists>cs kvs. obj = CHR ''{'' # cs \<and> (\<forall>g. skips 1 1 (cs @ g) (CHR ''}'' # g) \<and> json_prefix 0 (obj @ g) = Some (JObj kvs, g))"
proof -
  obtain cs where o: "obj = CHR ''{'' # cs" using assms(2) by (auto simp: HasPrefix_iff)
  obtain v r where p: "parse_value (Suc (2 * length obj)) 0 obj = Some (v, r)" and r: "skip_ws r = []"
    using assms(1) by (auto simp: isValidJSON_def Unmarshal_any_def json_parse_def json_prefix_def split: option.splits if_splits)
  have "local num_stop (parse_value (Suc (2 * length obj)) 0) obj v r"
    using parse_local [of "Suc (2 * length obj)" 0 obj] p by blast
  then obtain a where a: "obj = a @ r" by (auto simp: local_def)
  have r0: "r = []"
  proof (rule ccontr)
    assume "r \<noteq> []"
    then have "last r = CHR ''}''" using assms(3) a by simp
    moreover have "isWs (last r)" using r \<open>r \<noteq> []\<close> by (simp add: skip_ws_def dropWhile_eq_Nil_conv)
    ultimately show False by simp
  qed
  have n: "next_byte obj = Some (CHR ''{'', cs)" by (simp add: o)
  have "\<exists>kvs. \<forall>g. skips 1 1 (cs @ g) (CHR ''}'' # g) \<and> json_prefix 0 (obj @ g) = Some (JObj kvs, g)"
  proof (cases "expect (CHR ''}'') cs")
    case None
    then obtain kvs where m: "parse_members (2 * length obj) 1 cs = Some (kvs, [])"
      using p n r0 by (auto simp: parse_value.simps(2) bind_eq_Some_conv maxNestingDepth_def)
    then have "local (\<lambda>_. True) (parse_members (2 * length obj) 1) cs kvs []" using parse_local by blast
    then have m': "parse_members (2 * length obj) 1 (cs @ g) = Some (kvs, g)" for g by (auto simp: local_def)
    have "parse_value (Suc (2 * length obj)) 0 (obj @ g) = Some (JObj kvs, g)" for g
      using m' [of g] parse_members_no_brace [OF m', of g] by (simp add: o parse_value.simps(2) maxNestingDepth_def)
    then have "json_prefix 0 (obj @ g) = Some (JObj kvs, g)" for g by (rule json_prefix_stable(1))
    moreover have "skips 1 1 (cs @ g) (CHR ''}'' # g)" for g
      using scan_parse [of "2 * length obj" 1 "cs @ g" 1] m' [of g] by auto
    ultimately show ?thesis by blast
  next
    case (Some t)
    then have "t = []" using p n r0 by (auto simp: parse_value.simps(2) split: if_splits)
    then have e: "next_byte (cs @ g) = Some (CHR ''}'', g)" for g
      using Some by (auto simp: expect_iff next_byte_split)
    then have "parse_value (Suc (2 * length obj)) 0 (obj @ g) = Some (JObj [], g)" for g
      using e [of g] by (simp add: o parse_value.simps(2) maxNestingDepth_def expect_def)
    then show ?thesis using skips_next [OF e] json_prefix_stable(1) by blast
  qed
  with o show ?thesis by blast
qed

lemma trim_recovers:
  assumes "isValidJSON obj" "HasPrefix obj ''{''" "last obj = CHR ''}''" "CHR ''{'' \<notin> set g"
  shows "trimTrailingGarbage (obj @ g) = Some obj"
proof -
  obtain cs kvs where cs: "obj = CHR ''{'' # cs" "\<And>g. skips 1 1 (cs @ g) (CHR ''}'' # g)"
      "\<And>g. json_prefix 0 (obj @ g) = Some (JObj kvs, g)"
    using valid_object_end [OF assms(1-3)] by blast
  obtain g' where g': "TrimSpace (obj @ g) = obj @ g'" "set g' \<subseteq> set g" "g' = [] \<or> \<not> isSpace (last g')"
    using TrimSpace_garbage [of obj g] cs(1) assms(3) by (auto simp: isSpace_def)
  obtain a where a: "cs @ g' = a @ CHR ''}'' # g'"
    "\<And>i le. trim_scan i 1 le False False (cs @ g') = trim_scan (i + length a) 1 le False False (CHR ''}'' # g')"
    using cs(2) [of g'] by (auto simp: skips_def)
  have len: "length obj = length a + 2" using a(1) cs(1) by (metis add_2_eq_Suc' append.assoc append_Cons append_Nil append_same_eq length_Cons length_append_singleton)
  have "CHR ''{'' \<notin> set g'" using assms(4) g'(2) by blast
  then have scan: "trim_scan 0 0 (-1) False False (obj @ g') = int (length obj)"
    using a(2) [of 1 "-1"] by (simp add: cs(1) trim_scan_outside) (use len cs(1) in simp)
  show ?thesis
  proof (cases "isValidJSON (obj @ g')")
    case False
    then have "g' \<noteq> []" using assms(1) by auto
    then show ?thesis using False scan assms(1) len
      by (simp add: trimTrailingGarbage_def g'(1) Let_def)
  next
    case True
    have "g' = []"
    proof (rule ccontr)
      assume ne: "g' \<noteq> []"
      have "skip_ws g' = []" using True cs(3) [of g']
        by (auto simp: isValidJSON_def Unmarshal_any_def json_parse_def split: if_splits)
      then have "isWs (last g')" using ne by (simp add: skip_ws_def dropWhile_eq_Nil_conv)
      then show False using g'(3) ne by (auto simp: isWs_def isSpace_def)
    qed
    then show ?thesis using assms(1) by (simp add: trimTrailingGarbage_def g'(1))
  qed
qed

text \<open>C30: a complete object followed by garbage is repaired to exactly that object. With the default
  configuration, whatever the arguments carry behind their closing brace, as long as it opens no other
  object and the size limit is kept, the first strategy succeeds and returns the object byte for byte.\<close>

theorem trailing_garbage_repaired:
  assumes "isValidJSON obj" "HasPrefix obj ''{''" "last obj = CHR ''}''" "CHR ''{'' \<notin> set g"
    and "length (obj @ g) \<le> 100 * 1024"
  shows "RepairArguments jr (NewRepairer None) (obj @ g) name =
    \<lparr>Original = obj @ g, Repaired = obj, Success = True, Used = [''trim_trailing_garbage''], Err = [], ToolName = name\<rparr>"
proof -
  have "getStrategy jr ''trim_trailing_garbage'' = Some trimTrailingGarbage" by (simp add: getStrategy_def)
  moreover have "\<not> too_large DefaultConfig (obj @ g)" using assms(5) by (simp add: too_large_def DefaultConfig_def)
  moreover have "Strategies DefaultConfig = ''trim_trailing_garbage'' # [''extract_json'', ''library_repair'', ''remove_reasoning'']"
    by (simp add: DefaultConfig_def)
  ultimately show ?thesis
    using trim_recovers [OF assms(1-4)] assms(1) by (simp add: RepairArguments_def NewRepairer_def)
qed

definition ex_args :: string where
  "ex_args = marshal (JObj [(''include'', JStr ''*.go''), (''pattern'', JStr ''log'')])"

lemma ex_args_valid: "isValidJSON ex_args"
proof -
  have "valid_utf8 ''include''" "valid_utf8 ''*.go''" "valid_utf8 ''pattern''" "valid_utf8 ''log''"
    by (simp_all add: valid_utf8.simps Let_def)
  then have "wf_json 0 (JObj [(''include'', JStr ''*.go''), (''pattern'', JStr ''log'')])"
    by (simp add: maxNestingDepth_def)
  from json_round_trip [OF this] show ?thesis
    by (simp add: isValidJSON_def Unmarshal_any_def ex_args_def)
qed

theorem trailing_garbage_repaired_witness:
  "RepairArguments (\<lambda>_. None) (NewRepairer None) (ex_args @ [dquote, CHR ''}'']) ''grep'' =
    \<lparr>Original = ex_args @ [dquote, CHR ''}''], Repaired = ex_args, Success = True,
     Used = [''trim_trailing_garbage''], Err = [], ToolName = ''grep''\<rparr>"
proof (rule trailing_garbage_repaired [OF ex_args_valid])
  show "length (ex_args @ [dquote, CHR ''}'']) \<le> 100 * 1024"
    by (simp add: ex_args_def quote_def quote_body.simps quote_step_def Let_def)
qed (simp_all add: ex_args_def)

end
