(* ===== verification/ToolCallBuffer.thy ===== *)
theory ToolCallBuffer
  imports ToolRepair
begin

text \<open>
  Buffering of streamed tool-call fragments (\<open>toolcall/buffer.go\<close>). Builders are shared through
  pointers, so they live in a heap, a list indexed by address; the map \<open>builders\<close> holds addresses. One
  goroutine uses a buffer; the clock is an argument that gives the nanoseconds of each emission, and
  JSON numbers are rationals. The theorems: a valid object arrives downstream exactly once, whole,
  however it was cut into fragments; what happens after an overflow and with two entries for one
  index in a chunk.
\<close>

section \<open>State\<close>

definition MaxToolCallsPerStream :: nat where
  "MaxToolCallsPerStream = 100"

definition MaxToolCallIndex :: int where
  "MaxToolCallIndex = 99"

record ToolCallBuilder =
  b_ID :: string
  b_Type :: string
  b_Name :: string
  b_Arguments :: string
  hasEmitted :: bool

definition new_builder :: ToolCallBuilder where
  "new_builder = \<lparr>b_ID = [], b_Type = [], b_Name = [], b_Arguments = [], hasEmitted = False\<rparr>"

record BufferStats =
  Attempted :: nat
  Successful :: nat
  FailedRepairs :: nat

record ToolCallBuffer =
  builders :: "(int, nat) fmap"
  heap :: "ToolCallBuilder list"
  totalSize :: int
  maxSize :: int
  modelID :: string
  repairer :: "Repairer option"
  repairStats :: BufferStats

definition NewToolCallBuffer :: "int \<Rightarrow> string \<Rightarrow> ToolCallBuffer" where
  "NewToolCallBuffer maxsz model =
     \<lparr>builders = fmempty, heap = [], totalSize = 0, maxSize = (if maxsz \<le> 0 then 1024 * 1024 else maxsz),
      modelID = model, repairer = None,
      repairStats = \<lparr>Attempted = 0, Successful = 0, FailedRepairs = 0\<rparr>\<rparr>"

definition NewToolCallBufferWithRepair :: "int \<Rightarrow> string \<Rightarrow> Config option \<Rightarrow> ToolCallBuffer" where
  "NewToolCallBufferWithRepair maxsz model cfg =
     (let b = NewToolCallBuffer maxsz model in
      case cfg of None \<Rightarrow> b
      | Some c \<Rightarrow> if Enabled c then b\<lparr>repairer := Some (NewRepairer (Some c))\<rparr> else b)"

section \<open>Accumulating fragments\<close>

record emitRequest =
  req_idx :: int
  req_args :: string
  req_builder :: nat

definition override :: "string \<Rightarrow> string \<Rightarrow> string" where
  "override new old = (if new \<noteq> [] then new else old)"

definition upd_builder :: "nat \<Rightarrow> (ToolCallBuilder \<Rightarrow> ToolCallBuilder) \<Rightarrow> ToolCallBuffer \<Rightarrow> ToolCallBuffer" where
  "upd_builder p f b = b\<lparr>heap := (heap b)[p := f (heap b ! p)]\<rparr>"

definition install_builder :: "int \<Rightarrow> ToolCallBuffer \<Rightarrow> ToolCallBuffer \<times> nat" where
  "install_builder idx b =
     (b\<lparr>heap := heap b @ [new_builder], builders := fmupd idx (length (heap b)) (builders b)\<rparr>, length (heap b))"

definition get_or_create :: "int \<Rightarrow> ToolCallBuffer \<Rightarrow> ToolCallBuffer \<times> nat" where
  "get_or_create idx b =
     (case fmlookup (builders b) idx of Some p \<Rightarrow> (b, p) | None \<Rightarrow> install_builder idx b)"

definition add_metadata :: "(string \<times> json) list \<Rightarrow> ToolCallBuilder \<Rightarrow> ToolCallBuilder" where
  "add_metadata tcMap bl =
     bl\<lparr>b_ID := override (str_field tcMap ''id'') (b_ID bl), b_Type := override (str_field tcMap ''type'') (b_Type bl)\<rparr>"

text \<open>The fragment of the arguments: on overflow what is there is emitted and a new builder takes over.\<close>

definition add_arguments :: "int \<Rightarrow> string \<Rightarrow> nat \<Rightarrow> ToolCallBuffer \<times> emitRequest list
    \<Rightarrow> ToolCallBuffer \<times> emitRequest list \<times> nat" where
  "add_arguments idx args p = (\<lambda>(b, toEmit).
     let (b1, toEmit1, p1) =
       (if totalSize b + int (length args) > maxSize b then
          let bl = heap b ! p;
              (b0, toEmit0) =
                (if \<not> hasEmitted bl \<and> length (b_Arguments bl) > 0
                 then (upd_builder p (\<lambda>bl. bl\<lparr>hasEmitted := True\<rparr>) b,
                       toEmit @ [\<lparr>req_idx = idx, req_args = b_Arguments bl, req_builder = p\<rparr>])
                 else (b, toEmit));
              (b1, p1) = install_builder idx b0
          in (b1, toEmit0, p1)
        else (b, toEmit, p))
     in (upd_builder p1 (\<lambda>bl. bl\<lparr>b_Arguments := b_Arguments bl @ args\<rparr>) b1
           \<lparr>totalSize := totalSize b1 + int (length args)\<rparr>, toEmit1, p1))"

definition add_function :: "int \<Rightarrow> (string \<times> json) list \<Rightarrow> nat \<Rightarrow> ToolCallBuffer \<times> emitRequest list
    \<Rightarrow> ToolCallBuffer \<times> emitRequest list \<times> nat" where
  "add_function idx tcMap p = (\<lambda>(b, toEmit).
     case as_obj (obj_get tcMap ''function'') of
       None \<Rightarrow> (b, toEmit, p)
     | Some fn \<Rightarrow>
         let b1 = upd_builder p (\<lambda>bl. bl\<lparr>b_Name := override (str_field fn ''name'') (b_Name bl)\<rparr>) b
         in (case as_str (obj_get fn ''arguments'') of
               None \<Rightarrow> (b1, toEmit, p)
             | Some args \<Rightarrow> add_arguments idx args p (b1, toEmit)))"

definition isCompleteLocked :: "int \<Rightarrow> ToolCallBuffer \<Rightarrow> bool" where
  "isCompleteLocked idx b =
     (case fmlookup (builders b) idx of None \<Rightarrow> False
      | Some p \<Rightarrow> let args = b_Arguments (heap b ! p) in if args = [] then False else isValidJSON args)"

definition process_call :: "json \<Rightarrow> ToolCallBuffer \<times> emitRequest list \<Rightarrow> ToolCallBuffer \<times> emitRequest list" where
  "process_call tc = (\<lambda>(b, toEmit).
     case as_obj (Some tc) of
       None \<Rightarrow> (b, toEmit)
     | Some tcMap \<Rightarrow>
         let idx = tc_index tcMap in
         if idx < 0 \<or> idx > MaxToolCallIndex then (b, toEmit)
         else if map_len (builders b) \<ge> MaxToolCallsPerStream then (b, toEmit)
         else
           let (b1, p) = get_or_create idx b;
               (b2, toEmit2, p2) = add_function idx tcMap p (upd_builder p (add_metadata tcMap) b1, toEmit)
           in if isCompleteLocked idx b2 \<and> \<not> hasEmitted (heap b2 ! p2)
              then (b2, toEmit2 @ [\<lparr>req_idx = idx, req_args = b_Arguments (heap b2 ! p2), req_builder = p2\<rparr>])
              else (b2, toEmit2))"

section \<open>Emission\<close>

definition call_json :: "int \<Rightarrow> ToolCallBuilder \<Rightarrow> string \<Rightarrow> json" where
  "call_json idx bl args =
     JObj [(''function'', JObj [(''arguments'', JStr args), (''name'', JStr (b_Name bl))]), (''id'', JStr (b_ID bl)),
           (''index'', JNum (show_nat (nat idx))), (''type'', JStr (b_Type bl))]"

definition chunk_json :: "string \<Rightarrow> nat \<Rightarrow> json \<Rightarrow> json" where
  "chunk_json model nano call =
     JObj [(''choices'', JArr [JObj [(''delta'', JObj [(''tool_calls'', JArr [call])]), (''index'', JNum ''0'')]]),
           (''created'', JNum (show_nat (nano div 10 ^ 9))), (''id'', JStr (''chatcmpl-'' @ show_nat nano)),
           (''model'', JStr model), (''object'', JStr ''chat.completion.chunk'')]"

definition sse_chunk :: "json \<Rightarrow> string" where
  "sse_chunk j = ''data: '' @ marshal j @ [CHR 0x0A, CHR 0x0A]"

definition repaired_args :: "(string \<Rightarrow> string option) \<Rightarrow> string \<Rightarrow> string \<Rightarrow> ToolCallBuffer \<Rightarrow> string \<times> ToolCallBuffer" where
  "repaired_args jr args name b =
     (case repairer b of
        None \<Rightarrow> (args, b)
      | Some r \<Rightarrow>
          if args = [] \<or> isValidJSON args then (args, b)
          else let result = RepairArguments jr r args name;
                   st = (repairStats b)\<lparr>Attempted := Attempted (repairStats b) + 1\<rparr>
               in if Success result
                  then (Repaired result, b\<lparr>repairStats := st\<lparr>Successful := Successful st + 1\<rparr>\<rparr>)
                  else (args, b\<lparr>repairStats := st\<lparr>FailedRepairs := FailedRepairs st + 1\<rparr>\<rparr>))"

definition emitToolCall :: "(string \<Rightarrow> string option) \<Rightarrow> nat \<Rightarrow> emitRequest \<Rightarrow> ToolCallBuffer \<Rightarrow> string \<times> ToolCallBuffer" where
  "emitToolCall jr nano req b =
     (let bl = heap b ! req_builder req;
          (args, b1) = repaired_args jr (req_args req) (b_Name bl) b
      in (sse_chunk (chunk_json (modelID b) nano (call_json (req_idx req) bl args)), b1))"

fun emit_all :: "(string \<Rightarrow> string option) \<Rightarrow> (nat \<Rightarrow> nat) \<Rightarrow> nat \<Rightarrow> emitRequest list \<Rightarrow> ToolCallBuffer
    \<Rightarrow> string list \<times> ToolCallBuffer" where
  "emit_all jr clock k [] b = ([], b)"
| "emit_all jr clock k (req # reqs) b =
     (case emitToolCall jr (clock k) req b of
        (chunk, b1) \<Rightarrow>
          (case emit_all jr clock (k + 1) reqs (upd_builder (req_builder req) (\<lambda>bl. bl\<lparr>hasEmitted := True\<rparr>) b1) of
             (chunks, b2) \<Rightarrow> (chunk # chunks, b2)))"

definition processToolCallChunk :: "(string \<Rightarrow> string option) \<Rightarrow> (nat \<Rightarrow> nat) \<Rightarrow> json list \<Rightarrow> ToolCallBuffer
    \<Rightarrow> string list \<times> ToolCallBuffer" where
  "processToolCallChunk jr clock toolCalls b =
     (case fold process_call toolCalls (b, []) of (b1, toEmit) \<Rightarrow> emit_all jr clock 0 toEmit b1)"

text \<open>The tool calls of a line, \<open>None\<close> when it passes through.\<close>

definition chunk_tool_calls :: "string \<Rightarrow> json list option" where
  "chunk_tool_calls line =
     (let lineStr = TrimSpace line in
      if lineStr = [] \<or> lineStr = ''data: [DONE]'' \<or> lineStr = ''[DONE]'' then None
      else do {
        chunk \<leftarrow> as_obj (Unmarshal_any (if HasPrefix lineStr ''data: '' then TrimPrefix lineStr ''data: '' else line));
        choices \<leftarrow> as_arr (obj_get chunk ''choices'');
        if choices = [] then None else do {
          choice \<leftarrow> as_obj (Some (hd choices));
          delta \<leftarrow> as_obj (obj_get choice ''delta'');
          toolCalls \<leftarrow> as_arr (obj_get delta ''tool_calls'');
          if toolCalls = [] then None else Some toolCalls } })"

definition ProcessChunk :: "(string \<Rightarrow> string option) \<Rightarrow> (nat \<Rightarrow> nat) \<Rightarrow> string \<Rightarrow> ToolCallBuffer
    \<Rightarrow> string list \<times> ToolCallBuffer" where
  "ProcessChunk jr clock line b =
     (case chunk_tool_calls line of None \<Rightarrow> ([line], b) | Some toolCalls \<Rightarrow> processToolCallChunk jr clock toolCalls b)"

definition flush_requests :: "ToolCallBuffer \<Rightarrow> emitRequest list" where
  "flush_requests b =
     concat (map (\<lambda>idx. case fmlookup (builders b) idx of None \<Rightarrow> []
         | Some p \<Rightarrow> if hasEmitted (heap b ! p) then []
             else [\<lparr>req_idx = idx, req_args = b_Arguments (heap b ! p), req_builder = p\<rparr>])
       (sorted_list_of_set (fset (fmdom (builders b)))))"

definition Flush :: "(string \<Rightarrow> string option) \<Rightarrow> (nat \<Rightarrow> nat) \<Rightarrow> ToolCallBuffer \<Rightarrow> string list \<times> ToolCallBuffer" where
  "Flush jr clock b = emit_all jr clock 0 (flush_requests b) b"

definition GetRepairStats :: "ToolCallBuffer \<Rightarrow> BufferStats" where
  "GetRepairStats b = repairStats b"

definition HasRepairer :: "ToolCallBuffer \<Rightarrow> bool" where
  "HasRepairer b \<longleftrightarrow> repairer b \<noteq> None"

section \<open>A call cut into fragments\<close>

definition call_map :: "json \<Rightarrow> (string \<times> json) list" where
  "call_map tc = (case tc of JObj m \<Rightarrow> m | _ \<Rightarrow> [])"

definition call_function :: "json \<Rightarrow> (string \<times> json) list" where
  "call_function tc = (case as_obj (obj_get (call_map tc) ''function'') of Some fn \<Rightarrow> fn | None \<Rightarrow> [])"

definition frag_text :: "json \<Rightarrow> string" where
  "frag_text tc = str_field (call_function tc) ''arguments''"

definition is_fragment :: "int \<Rightarrow> json \<Rightarrow> bool" where
  "is_fragment idx tc \<longleftrightarrow> as_obj (Some tc) \<noteq> None \<and> tc_index (call_map tc) = idx
     \<and> as_obj (obj_get (call_map tc) ''function'') \<noteq> None
     \<and> as_str (obj_get (call_function tc) ''arguments'') \<noteq> None"

definition merge_call :: "json \<Rightarrow> ToolCallBuilder \<Rightarrow> ToolCallBuilder" where
  "merge_call tc bl =
     bl\<lparr>b_ID := override (str_field (call_map tc) ''id'') (b_ID bl),
        b_Type := override (str_field (call_map tc) ''type'') (b_Type bl),
        b_Name := override (str_field (call_function tc) ''name'') (b_Name bl),
        b_Arguments := b_Arguments bl @ frag_text tc\<rparr>"

definition grown :: "json \<Rightarrow> nat \<Rightarrow> ToolCallBuffer \<Rightarrow> ToolCallBuffer" where
  "grown tc p b = (upd_builder p (merge_call tc) b)\<lparr>totalSize := totalSize b + int (length (frag_text tc))\<rparr>"

lemma is_fragmentE:
  assumes "is_fragment idx tc"
  obtains m fn a where "tc = JObj m" "tc_index m = idx" "as_obj (obj_get m ''function'') = Some fn"
    "as_str (obj_get fn ''arguments'') = Some a" "call_map tc = m" "call_function tc = fn" "frag_text tc = a"
  using assms by (auto simp: is_fragment_def call_map_def call_function_def frag_text_def str_field_def as_obj_def
      split: option.splits json.splits)

lemma upd_builder_fields [simp]:
  "builders (upd_builder p f b) = builders b" "totalSize (upd_builder p f b) = totalSize b"
  "maxSize (upd_builder p f b) = maxSize b" "modelID (upd_builder p f b) = modelID b"
  "repairer (upd_builder p f b) = repairer b" "length (heap (upd_builder p f b)) = length (heap b)"
  "p < length (heap b) \<Longrightarrow> heap (upd_builder p f b) ! p = f (heap b ! p)"
  by (simp_all add: upd_builder_def)

lemma upd_builder_twice: "p < length (heap b) \<Longrightarrow> upd_builder p f (upd_builder p g b) = upd_builder p (\<lambda>x. f (g x)) b"
  by (simp add: upd_builder_def)

lemma process_fragment:
  assumes "is_fragment idx tc" "0 \<le> idx" "idx \<le> 99" "map_len (builders b) < 100"
    and "totalSize b + int (length (frag_text tc)) \<le> maxSize b"
    and "fmlookup (builders b) idx = Some p" "p < length (heap b)" "\<not> hasEmitted (heap b ! p)"
  shows "process_call tc (b, es) =
    (let args = b_Arguments (heap b ! p) @ frag_text tc in
     (grown tc p b, if args \<noteq> [] \<and> isValidJSON args
        then es @ [\<lparr>req_idx = idx, req_args = args, req_builder = p\<rparr>] else es))"
proof -
  from assms(1) obtain m fn a where t: "tc = JObj m" "tc_index m = idx" "as_obj (obj_get m ''function'') = Some fn"
    "as_str (obj_get fn ''arguments'') = Some a" "call_map tc = m" "call_function tc = fn" "frag_text tc = a"
    by (rule is_fragmentE)
  let ?f = "\<lambda>bl. bl\<lparr>b_Name := override (str_field fn ''name'') (b_Name bl)\<rparr>"
  let ?b1 = "upd_builder p ?f (upd_builder p (add_metadata m) b)"
  have g: "(upd_builder p (\<lambda>bl. bl\<lparr>b_Arguments := b_Arguments bl @ a\<rparr>) ?b1)\<lparr>totalSize := totalSize b + int (length a)\<rparr> = grown tc p b"
    using assms(7) t(5-7)
    by (simp add: grown_def upd_builder_twice merge_call_def [abs_def] add_metadata_def)
  have af: "add_function idx m p (upd_builder p (add_metadata m) b, es) = (grown tc p b, es, p)"
    using assms(5) t(3,4,7) g by (simp add: add_function_def add_arguments_def Let_def)
  have h: "heap (grown tc p b) ! p = merge_call tc (heap b ! p)" "builders (grown tc p b) = builders b"
    using assms(7) by (simp_all add: grown_def)
  have m: "\<not> hasEmitted (merge_call tc (heap b ! p))" "b_Arguments (merge_call tc (heap b ! p)) = b_Arguments (heap b ! p) @ frag_text tc"
    using assms(8) by (simp_all add: merge_call_def)
  have "as_obj (Some tc) = Some m" by (simp add: t(1) as_obj_def)
  moreover have "get_or_create idx b = (b, p)" by (simp add: get_or_create_def assms(6))
  moreover have "isCompleteLocked idx (grown tc p b) \<longleftrightarrow>
      b_Arguments (heap b ! p) @ frag_text tc \<noteq> [] \<and> isValidJSON (b_Arguments (heap b ! p) @ frag_text tc)"
    using h m assms(6) by (simp add: isCompleteLocked_def Let_def)
  ultimately show ?thesis
    using t(2) assms(2-4) af h(1) m
    by (simp add: process_call_def Let_def MaxToolCallIndex_def MaxToolCallsPerStream_def)
qed

text \<open>Chunks of tool calls one after the other.\<close>

fun run_chunks :: "(string \<Rightarrow> string option) \<Rightarrow> (nat \<Rightarrow> nat) \<Rightarrow> json list list \<Rightarrow> ToolCallBuffer \<Rightarrow> string list list \<times> ToolCallBuffer" where
  "run_chunks jr clock [] b = ([], b)"
| "run_chunks jr clock (c # cs) b =
     (case processToolCallChunk jr clock c b of (out, b1) \<Rightarrow> (case run_chunks jr clock cs b1 of (outs, b2) \<Rightarrow> (out # outs, b2)))"

lemma prefix_incomplete:
  assumes "isValidJSON (p @ q)" "HasPrefix (p @ q) ''{''" "last (p @ q) = CHR ''}''" "q \<noteq> []"
  shows "\<not> (p \<noteq> [] \<and> isValidJSON p)"
proof
  assume p: "p \<noteq> [] \<and> isValidJSON p"
  obtain v where v: "json_parse (p @ q) = Some v"
    using assms(1) by (auto simp: isValidJSON_def Unmarshal_any_def split: option.splits)
  obtain cs where "p @ q = CHR ''{'' # cs" using assms(2) by (auto simp: HasPrefix_iff)
  then have n: "next_byte (p @ q) = Some (CHR ''{'', cs)" by simp
  obtain r where "json_prefix 0 (p @ q) = Some (v, r)"
    using v by (auto simp: json_parse_def split: option.splits if_splits)
  from object_head [OF this n] obtain k where "v = JObj k" by blast
  moreover have "\<not> isWs (last q)" using assms(3,4) by simp
  ultimately have "json_parse p = None" using proper_prefix_invalid [of p q] v assms p by simp
  then show False using p by (simp add: isValidJSON_def Unmarshal_any_def)
qed

lemma emit_complete:
  assumes "req_args req = args" "isValidJSON args"
  shows "emitToolCall jr nano req b =
    (sse_chunk (chunk_json (modelID b) nano (call_json (req_idx req) (heap b ! req_builder req) args)), b)"
  using assms by (simp add: emitToolCall_def repaired_args_def Let_def split: option.split)

text \<open>One fragment: with arguments that are no JSON text yet nothing is emitted, then the whole call.\<close>

lemma fragment_waits:
  assumes "is_fragment idx tc" "0 \<le> idx" "idx \<le> 99" "map_len (builders b) < 100"
    and "totalSize b + int (length (frag_text tc)) \<le> maxSize b"
    and "fmlookup (builders b) idx = Some p" "p < length (heap b)" "\<not> hasEmitted (heap b ! p)"
    and "isValidJSON obj" "HasPrefix obj ''{''" "last obj = CHR ''}''" "b_Arguments (heap b ! p) @ frag_text tc @ q = obj" "q \<noteq> []"
  shows "processToolCallChunk jr clock [tc] b = ([], grown tc p b)"
proof -
  let ?args = "b_Arguments (heap b ! p) @ frag_text tc"
  have "\<not> (?args \<noteq> [] \<and> isValidJSON ?args)"
    using prefix_incomplete [of ?args q] assms(9-13) by simp
  then have "process_call tc (b, []) = (grown tc p b, [])"
    using process_fragment [OF assms(1-8), of "[]"] by (auto simp: Let_def)
  then show ?thesis by (simp add: processToolCallChunk_def)
qed

definition emitted_builder :: "nat \<Rightarrow> ToolCallBuffer \<Rightarrow> ToolCallBuffer" where
  "emitted_builder p b = upd_builder p (\<lambda>bl. bl\<lparr>hasEmitted := True\<rparr>) b"

lemma fragment_completes:
  assumes "is_fragment idx tc" "0 \<le> idx" "idx \<le> 99" "map_len (builders b) < 100"
    and "totalSize b + int (length (frag_text tc)) \<le> maxSize b"
    and "fmlookup (builders b) idx = Some p" "p < length (heap b)" "\<not> hasEmitted (heap b ! p)"
    and "isValidJSON obj" "HasPrefix obj ''{''" "b_Arguments (heap b ! p) @ frag_text tc = obj"
  shows "processToolCallChunk jr clock [tc] b
    = ([sse_chunk (chunk_json (modelID b) (clock 0) (call_json idx (merge_call tc (heap b ! p)) obj))], emitted_builder p (grown tc p b))"
proof -
  have "obj \<noteq> []" using assms(10) by auto
  then have "process_call tc (b, []) = (grown tc p b, [\<lparr>req_idx = idx, req_args = obj, req_builder = p\<rparr>])"
    using process_fragment [OF assms(1-8), of "[]"] assms(9,11) by (simp add: Let_def)
  moreover have "heap (grown tc p b) ! p = merge_call tc (heap b ! p)" "modelID (grown tc p b) = modelID b"
    using assms(7) by (simp_all add: grown_def)
  ultimately show ?thesis
    using emit_complete [of "\<lparr>req_idx = idx, req_args = obj, req_builder = p\<rparr>" obj] assms(9)
    by (simp add: processToolCallChunk_def emitted_builder_def)
qed

lemma grown_fields:
  "builders (grown tc p b) = builders b" "length (heap (grown tc p b)) = length (heap b)" "maxSize (grown tc p b) = maxSize b"
  "modelID (grown tc p b) = modelID b" "totalSize (grown tc p b) = totalSize b + int (length (frag_text tc))"
  "p < length (heap b) \<Longrightarrow> heap (grown tc p b) ! p = merge_call tc (heap b ! p)"
  by (simp_all add: grown_def)

lemma merge_call_fields [simp]:
  "b_Arguments (merge_call tc bl) = b_Arguments bl @ frag_text tc" "hasEmitted (merge_call tc bl) = hasEmitted bl"
  by (simp_all add: merge_call_def)

lemma rest_not_empty: "tcs \<noteq> [] \<Longrightarrow> f (last tcs) \<noteq> [] \<Longrightarrow> concat (map f tcs) \<noteq> []"
  by (induction tcs rule: rev_induct) auto

lemma run_fragments:
  assumes "isValidJSON obj" "HasPrefix obj ''{''" "last obj = CHR ''}''" "0 \<le> idx" "idx \<le> 99"
    and "tcs \<noteq> []" "frag_text (last tcs) \<noteq> []" "\<forall>tc \<in> set tcs. is_fragment idx tc"
    and "b_Arguments (heap b ! p) @ concat (map frag_text tcs) = obj"
    and "map_len (builders b) < 100" "totalSize b + int (length (concat (map frag_text tcs))) \<le> maxSize b"
    and "fmlookup (builders b) idx = Some p" "p < length (heap b)" "\<not> hasEmitted (heap b ! p)"
  shows "\<exists>b'. run_chunks jr clock (map (\<lambda>tc. [tc]) tcs) b =
      (replicate (length tcs - 1) [] @
        [[sse_chunk (chunk_json (modelID b) (clock 0) (call_json idx (fold merge_call tcs (heap b ! p)) obj))]], b')
    \<and> fmlookup (builders b') idx = Some p \<and> hasEmitted (heap b' ! p)"
  using assms(6-)
proof (induction tcs arbitrary: b rule: list_nonempty_induct)
  case (single tc)
  then show ?case
    using fragment_completes [of idx tc b p obj jr clock] assms(1,2,4,5) by (simp add: emitted_builder_def grown_fields)
next
  case (cons tc tcs)
  let ?b = "grown tc p b"
  have pc: "processToolCallChunk jr clock [tc] b = ([], ?b)"
    using fragment_waits [of idx tc b p obj "concat (map frag_text tcs)" jr clock] rest_not_empty [of tcs frag_text] cons.prems cons.hyps assms(1-5)
    by simp
  obtain b' where b': "run_chunks jr clock (map (\<lambda>tc. [tc]) tcs) ?b =
      (replicate (length tcs - 1) [] @
        [[sse_chunk (chunk_json (modelID ?b) (clock 0) (call_json idx (fold merge_call tcs (heap ?b ! p)) obj))]], b')"
      "fmlookup (builders b') idx = Some p" "hasEmitted (heap b' ! p)"
    using cons.IH [of ?b] cons.prems cons.hyps by (auto simp: grown_fields)
  obtain n where n: "length tcs = Suc n" using cons.hyps by (cases tcs) auto
  show ?case using b' pc cons.prems by (simp add: n grown_fields)
qed

lemma process_call_install:
  assumes "is_fragment idx tc" "0 \<le> idx" "idx \<le> 99" "fmlookup (builders b) idx = None" "map_len (builders b) < 99"
  shows "process_call tc (b, es) = process_call tc (fst (install_builder idx b), es)"
proof -
  obtain m where "tc = JObj m" "tc_index m = idx" using is_fragmentE [OF assms(1)] by blast
  moreover have "get_or_create idx b = get_or_create idx (fst (install_builder idx b))"
    using assms(4) by (simp add: get_or_create_def install_builder_def)
  moreover have "map_len (builders (fst (install_builder idx b))) < 100"
    using assms(4,5) by (simp add: install_builder_def map_len_fmupd)
  ultimately show ?thesis using assms(2,3,5)
    by (simp add: process_call_def as_obj_def Let_def MaxToolCallsPerStream_def MaxToolCallIndex_def)
qed

text \<open>C16: a call arrives whole and once, however it was cut. When the argument fragments of a call, one per
  chunk, add up to a JSON object, nothing is emitted before the last fragment, then one chunk with
  exactly the concatenated arguments and the last non-empty identity, type and name, and the final
  flush does not emit the call again. The buffer must have room: no builder for the index yet, fewer
  than 99 others, and the size limit not reached.\<close>

theorem fragments_emit_once:
  assumes "isValidJSON obj" "HasPrefix obj ''{''" "last obj = CHR ''}''" "0 \<le> idx" "idx \<le> 99"
    and "tcs \<noteq> []" "frag_text (last tcs) \<noteq> []" "\<forall>tc \<in> set tcs. is_fragment idx tc" "concat (map frag_text tcs) = obj"
    and "fmlookup (builders b) idx = None" "map_len (builders b) < 99" "totalSize b + int (length obj) \<le> maxSize b"
  shows "\<exists>b'. run_chunks jr clock (map (\<lambda>tc. [tc]) tcs) b =
      (replicate (length tcs - 1) [] @
        [[sse_chunk (chunk_json (modelID b) (clock 0) (call_json idx (fold merge_call tcs new_builder) obj))]], b')
    \<and> idx \<notin> req_idx ` set (flush_requests b')"
proof -
  let ?b = "fst (install_builder idx b)" and ?p = "length (heap b)"
  have i: "install_builder idx b = (?b, ?p)" "fmlookup (builders ?b) idx = Some ?p" "?p < length (heap ?b)"
    "heap ?b ! ?p = new_builder" "totalSize ?b = totalSize b" "maxSize ?b = maxSize b" "modelID ?b = modelID b"
    "map_len (builders ?b) < 100"
    using assms(10,11) by (simp_all add: install_builder_def map_len_fmupd)
  have "process_call tc (b, es) = process_call tc (?b, es)" if "is_fragment idx tc" for tc es
    using process_call_install [OF that assms(4,5,10)] assms(11) by simp
  then have "run_chunks jr clock (map (\<lambda>tc. [tc]) tcs) b = run_chunks jr clock (map (\<lambda>tc. [tc]) tcs) ?b"
    using assms(6,8) by (cases tcs) (simp_all add: processToolCallChunk_def)
  moreover obtain b' where "run_chunks jr clock (map (\<lambda>tc. [tc]) tcs) ?b =
      (replicate (length tcs - 1) [] @
        [[sse_chunk (chunk_json (modelID ?b) (clock 0) (call_json idx (fold merge_call tcs (heap ?b ! ?p)) obj))]], b')"
    "fmlookup (builders b') idx = Some ?p" "hasEmitted (heap b' ! ?p)"
    using run_fragments [OF assms(1-8), of ?b ?p jr clock] assms(9,12) i by (auto simp: new_builder_def)
  moreover have "idx \<notin> req_idx ` set (flush_requests b')"
    using calculation(3,4) by (auto simp: flush_requests_def split: option.splits if_splits)
  ultimately show ?thesis using i(4,7) by simp
qed

definition ex_fragments :: "json list" where
  "ex_fragments =
     [JObj [(''index'', JNum ''0''), (''id'', JStr ''c1''), (''type'', JStr ''function''),
            (''function'', JObj [(''name'', JStr ''grep''), (''arguments'', JStr (take 4 ex_args))])],
      JObj [(''index'', JNum ''0''), (''function'', JObj [(''arguments'', JStr (drop 4 ex_args))])]]"

lemma ex_args_length: "4 < length ex_args \<and> length ex_args < 1000"
  by (simp add: ex_args_def quote_def quote_body.simps quote_step_def Let_def)

lemma ex_args_ends: "HasPrefix ex_args ''{''" "last ex_args = CHR ''}''"
  by (simp_all add: ex_args_def)

lemma num_val_0: "num_val ''0'' = 0"
  by (simp add: num_val_def Let_def isDigit_def digits_val_def digit_val_def exponent_val_def)

lemma ex_fragments_ok:
  "\<forall>tc \<in> set ex_fragments. is_fragment 0 tc" "concat (map frag_text ex_fragments) = ex_args"
  "frag_text (last ex_fragments) \<noteq> []"
  using ex_args_length
  by (simp_all add: ex_fragments_def is_fragment_def frag_text_def call_map_def call_function_def tc_index_def
      as_obj_def as_str_def as_num_def obj_get_def str_field_def num_val_0 go_int_def)

theorem fragments_emit_once_witness:
  "\<exists>b'. run_chunks (\<lambda>_. None) (\<lambda>_. 7) [[ex_fragments ! 0], [ex_fragments ! 1]] (NewToolCallBuffer 0 ''glm'') =
      ([[], [sse_chunk (chunk_json ''glm'' 7 (call_json 0
          \<lparr>b_ID = ''c1'', b_Type = ''function'', b_Name = ''grep'', b_Arguments = ex_args, hasEmitted = False\<rparr> ex_args))]], b')
    \<and> 0 \<notin> req_idx ` set (flush_requests b')"
proof -
  have "map (\<lambda>tc. [tc]) ex_fragments = [[ex_fragments ! 0], [ex_fragments ! 1]]" "length ex_fragments - 1 = 1" "ex_fragments \<noteq> []"
    by (simp_all add: ex_fragments_def)
  moreover have "fold merge_call ex_fragments new_builder
      = \<lparr>b_ID = ''c1'', b_Type = ''function'', b_Name = ''grep'', b_Arguments = ex_args, hasEmitted = False\<rparr>"
    by (simp add: ex_fragments_def merge_call_def new_builder_def frag_text_def call_map_def call_function_def override_def
        as_obj_def as_str_def obj_get_def str_field_def)
  moreover have "modelID (NewToolCallBuffer 0 ''glm'') = ''glm''" by (simp add: NewToolCallBuffer_def)
  ultimately show ?thesis
    using fragments_emit_once [OF ex_args_valid _ _ _ _ _ ex_fragments_ok(3,1,2), of "NewToolCallBuffer 0 ''glm''" "\<lambda>_. None" "\<lambda>_. 7"]
      ex_args_length
    by (simp add: ex_args_ends NewToolCallBuffer_def)
qed

section \<open>Addresses, indices and sizes\<close>

definition buffered :: "ToolCallBuffer \<Rightarrow> nat" where
  "buffered b = sum_list (map (\<lambda>bl. length (b_Arguments bl)) (heap b))"

definition buffer_ok :: "ToolCallBuffer \<Rightarrow> bool" where
  "buffer_ok b \<longleftrightarrow>
     (\<forall>i p. fmlookup (builders b) i = Some p \<longrightarrow> 0 \<le> i \<and> i \<le> 99 \<and> p < length (heap b))
     \<and> (\<forall>i j p. fmlookup (builders b) i = Some p \<longrightarrow> fmlookup (builders b) j = Some p \<longrightarrow> i = j)
     \<and> totalSize b = int (buffered b)"

definition req_ok :: "ToolCallBuffer \<Rightarrow> emitRequest \<Rightarrow> bool" where
  "req_ok b req \<longleftrightarrow> 0 \<le> req_idx req \<and> req_idx req \<le> 99 \<and> req_builder req < length (heap b)"

lemma buffered_upd:
  "p < length (heap b) \<Longrightarrow>
     buffered (upd_builder p f b) + length (b_Arguments (heap b ! p)) = buffered b + length (b_Arguments (f (heap b ! p)))"
proof -
  assume p: "p < length (heap b)"
  let ?l = "map (\<lambda>bl. length (b_Arguments bl)) (heap b)"
  have "length (b_Arguments (heap b ! p)) \<le> sum_list ?l" using p elem_le_sum_list [of p ?l] by simp
  then show ?thesis using p sum_list_update [of p ?l] by (simp add: buffered_def upd_builder_def map_update)
qed

lemma buffer_ok_upd:
  "buffer_ok b \<Longrightarrow> p < length (heap b) \<Longrightarrow> b_Arguments (f (heap b ! p)) = b_Arguments (heap b ! p) \<Longrightarrow> buffer_ok (upd_builder p f b)"
  using buffered_upd [of p b f] by (simp add: buffer_ok_def)

lemma buffer_ok_install:
  assumes "buffer_ok b" "0 \<le> idx" "idx \<le> 99" "install_builder idx b = (b', p)"
  shows "buffer_ok b' \<and> p < length (heap b') \<and> fmlookup (builders b') idx = Some p \<and> length (heap b) \<le> length (heap b')"
proof -
  have b': "b' = b\<lparr>heap := heap b @ [new_builder], builders := fmupd idx (length (heap b)) (builders b)\<rparr>" "p = length (heap b)"
    using assms(4) by (auto simp: install_builder_def)
  have "buffered b' = buffered b" by (simp add: b' buffered_def new_builder_def)
  then have "buffer_ok b'" using assms(1-3) by (fastforce simp: buffer_ok_def b' less_SucI split: if_splits)
  then show ?thesis by (simp add: b')
qed

lemma buffer_ok_get:
  assumes "buffer_ok b" "0 \<le> idx" "idx \<le> 99" "get_or_create idx b = (b', p)"
  shows "buffer_ok b' \<and> p < length (heap b') \<and> fmlookup (builders b') idx = Some p \<and> length (heap b) \<le> length (heap b')"
  using assms buffer_ok_install [OF assms(1-3)]
  by (auto simp: get_or_create_def buffer_ok_def split: option.splits)

lemma buffer_ok_arguments:
  assumes "buffer_ok b" "0 \<le> idx" "idx \<le> 99" "p < length (heap b)"
    and "add_arguments idx args p (b, es) = (b', es', p')" "list_all (req_ok b) es"
  shows "buffer_ok b' \<and> p' < length (heap b') \<and> length (heap b) \<le> length (heap b') \<and> list_all (req_ok b') es'"
proof -
  have grow: "buffer_ok (upd_builder q (\<lambda>bl. bl\<lparr>b_Arguments := b_Arguments bl @ args\<rparr>) c\<lparr>totalSize := totalSize c + int (length args)\<rparr>)"
    if "buffer_ok c" "q < length (heap c)" for c q
  proof -
    have "buffered (upd_builder q (\<lambda>bl. bl\<lparr>b_Arguments := b_Arguments bl @ args\<rparr>) c) = buffered c + length args"
      using buffered_upd [OF that(2), of "\<lambda>bl. bl\<lparr>b_Arguments := b_Arguments bl @ args\<rparr>"] by simp
    moreover have "buffered (c\<lparr>totalSize := n\<rparr>) = buffered c" for c n by (simp add: buffered_def)
    ultimately show ?thesis using that(1) by (simp add: buffer_ok_def)
  qed
  have mono: "list_all (req_ok c) es" if "length (heap b) \<le> length (heap c)" for c
    using assms(6) that by (auto simp: list_all_iff req_ok_def)
  show ?thesis
  proof (cases "totalSize b + int (length args) > maxSize b")
    case False
    then have "b' = upd_builder p (\<lambda>bl. bl\<lparr>b_Arguments := b_Arguments bl @ args\<rparr>) b\<lparr>totalSize := totalSize b + int (length args)\<rparr>"
      "es' = es" "p' = p"
      using assms(5) by (auto simp: add_arguments_def Let_def)
    then show ?thesis using grow [OF assms(1,4)] assms(4) mono by simp
  next
    case True
    define pending where "pending \<longleftrightarrow> \<not> hasEmitted (heap b ! p) \<and> length (b_Arguments (heap b ! p)) > 0"
    define b0 where "b0 = (if pending then upd_builder p (\<lambda>bl. bl\<lparr>hasEmitted := True\<rparr>) b else b)"
    have b0: "buffer_ok b0" "length (heap b0) = length (heap b)"
      using buffer_ok_upd [OF assms(1,4)] assms(1) by (simp_all add: b0_def)
    obtain b1 p1 where i: "install_builder idx b0 = (b1, p1)" by fastforce
    note inst = buffer_ok_install [OF b0(1) assms(2,3) i]
    have "b' = upd_builder p1 (\<lambda>bl. bl\<lparr>b_Arguments := b_Arguments bl @ args\<rparr>) b1\<lparr>totalSize := totalSize b1 + int (length args)\<rparr>"
      "p' = p1"
      "es' = (if pending then es @ [\<lparr>req_idx = idx, req_args = b_Arguments (heap b ! p), req_builder = p\<rparr>] else es)"
      using assms(5) True i by (auto simp: add_arguments_def Let_def b0_def pending_def split: if_splits)
    then show ?thesis using grow [of b1 p1] inst b0(2) mono [of b'] assms(2-4)
      by (simp add: req_ok_def)
  qed
qed

lemma buffer_ok_function:
  assumes "buffer_ok b" "0 \<le> idx" "idx \<le> 99" "p < length (heap b)"
    and "add_function idx m p (b, es) = (b', es', p')" "list_all (req_ok b) es"
  shows "buffer_ok b' \<and> p' < length (heap b') \<and> length (heap b) \<le> length (heap b') \<and> list_all (req_ok b') es'"
proof (cases "as_obj (obj_get m ''function'')")
  case None
  then show ?thesis using assms by (simp add: add_function_def)
next
  case (Some fn)
  let ?b1 = "upd_builder p (\<lambda>bl. bl\<lparr>b_Name := override (str_field fn ''name'') (b_Name bl)\<rparr>) b"
  have b1: "buffer_ok ?b1" "p < length (heap ?b1)" "list_all (req_ok ?b1) es"
    using buffer_ok_upd [OF assms(1,4)] assms(4,6) by (simp_all add: req_ok_def [abs_def])
  show ?thesis
  proof (cases "as_str (obj_get fn ''arguments'')")
    case None
    then have "b' = ?b1" "es' = es" "p' = p" using assms(5) Some by (auto simp: add_function_def)
    then show ?thesis using b1 by simp
  next
    case (Some args)
    then have "add_arguments idx args p (?b1, es) = (b', es', p')"
      using assms(5) \<open>as_obj (obj_get m ''function'') = Some fn\<close> by (simp add: add_function_def)
    from buffer_ok_arguments [OF b1(1) assms(2,3) b1(2) this b1(3)] show ?thesis by simp
  qed
qed

lemma buffer_ok_call:
  assumes "buffer_ok b" "list_all (req_ok b) es" "process_call tc (b, es) = (b', es')"
  shows "buffer_ok b' \<and> list_all (req_ok b') es'"
proof (cases "as_obj (Some tc)")
  case None
  then show ?thesis using assms by (simp add: process_call_def)
next
  case (Some m)
  let ?idx = "tc_index m"
  show ?thesis
  proof (cases "?idx < 0 \<or> ?idx > MaxToolCallIndex \<or> map_len (builders b) \<ge> MaxToolCallsPerStream")
    case True
    then show ?thesis using assms Some by (auto simp: process_call_def Let_def split: if_splits)
  next
    case False
    then have ix: "0 \<le> ?idx" "?idx \<le> 99" by (simp_all add: MaxToolCallIndex_def)
    obtain b1 p where g: "get_or_create ?idx b = (b1, p)" by fastforce
    note g1 = buffer_ok_get [OF assms(1) ix g]
    let ?b1 = "upd_builder p (add_metadata m) b1"
    have b1: "buffer_ok ?b1" "p < length (heap ?b1)" "list_all (req_ok ?b1) es"
      using g1 buffer_ok_upd [of b1 p "add_metadata m"] assms(2)
      by (auto simp: add_metadata_def req_ok_def list_all_iff)
    obtain b2 es2 p2 where f: "add_function ?idx m p (?b1, es) = (b2, es2, p2)" by (metis prod_cases3)
    note f1 = buffer_ok_function [OF b1(1) ix b1(2) f b1(3)]
    have "b' = b2 \<and> (es' = es2 \<or> es' = es2 @ [\<lparr>req_idx = ?idx, req_args = b_Arguments (heap b2 ! p2), req_builder = p2\<rparr>])"
      using assms(3) Some False g f by (auto simp: process_call_def Let_def split: if_splits)
    then show ?thesis using f1 ix by (auto simp: req_ok_def)
  qed
qed

lemma buffer_ok_calls:
  "buffer_ok b \<Longrightarrow> list_all (req_ok b) es \<Longrightarrow> fold process_call tcs (b, es) = (b', es') \<Longrightarrow> buffer_ok b' \<and> list_all (req_ok b') es'"
proof (induction tcs arbitrary: b es)
  case (Cons tc tcs)
  obtain b1 es1 where "process_call tc (b, es) = (b1, es1)" by fastforce
  with buffer_ok_call [OF Cons.prems(1,2) this] Cons.IH [of b1 es1] Cons.prems(3) show ?case by simp
qed simp

lemma buffer_ok_emit:
  "buffer_ok b \<Longrightarrow> list_all (req_ok b) reqs \<Longrightarrow> emit_all jr clock k reqs b = (out, b') \<Longrightarrow> buffer_ok b' \<and> length out = length reqs"
proof (induction reqs arbitrary: b k out)
  case (Cons req reqs)
  obtain chunk b1 where e: "emitToolCall jr (clock k) req b = (chunk, b1)" by fastforce
  let ?b1 = "upd_builder (req_builder req) (\<lambda>bl. bl\<lparr>hasEmitted := True\<rparr>) b1"
  have r: "builders b1 = builders b" "heap b1 = heap b" "totalSize b1 = totalSize b"
    using e by (auto simp: emitToolCall_def repaired_args_def Let_def split: option.splits if_splits prod.splits)
  then have "buffer_ok b1" using Cons.prems(1) by (simp add: buffer_ok_def buffered_def)
  then have b1: "buffer_ok ?b1" "list_all (req_ok ?b1) reqs"
    using buffer_ok_upd [of b1 "req_builder req"] Cons.prems(2) r by (auto simp: req_ok_def list_all_iff)
  obtain out' where o: "emit_all jr clock (k + 1) reqs ?b1 = (out', b')" "out = chunk # out'"
    using Cons.prems(3) e by (auto split: prod.splits)
  from Cons.IH [OF b1 o(1)] o(2) show ?case by simp
qed simp

lemma flush_requests_ok: "buffer_ok b \<Longrightarrow> list_all (req_ok b) (flush_requests b)"
  by (auto simp: flush_requests_def list_all_iff req_ok_def buffer_ok_def split: option.splits)

fun run_lines :: "(string \<Rightarrow> string option) \<Rightarrow> (nat \<Rightarrow> nat) \<Rightarrow> string list \<Rightarrow> ToolCallBuffer \<Rightarrow> string list list \<times> ToolCallBuffer" where
  "run_lines jr clock [] b = (case Flush jr clock b of (out, b') \<Rightarrow> ([out], b'))"
| "run_lines jr clock (l # ls) b =
     (case ProcessChunk jr clock l b of (out, b1) \<Rightarrow> (case run_lines jr clock ls b1 of (outs, b2) \<Rightarrow> (out # outs, b2)))"

lemma buffer_ok_lines: "buffer_ok b \<Longrightarrow> buffer_ok (snd (run_lines jr clock ls b))"
proof (induction ls arbitrary: b)
  case Nil
  then show ?case using buffer_ok_emit [OF Nil flush_requests_ok [OF Nil]] by (auto simp: Flush_def split: prod.splits)
next
  case (Cons l ls)
  obtain out b1 where p: "ProcessChunk jr clock l b = (out, b1)" by fastforce
  have "buffer_ok b1"
  proof (cases "chunk_tool_calls l")
    case None
    then show ?thesis using p Cons.prems by (simp add: ProcessChunk_def)
  next
    case (Some tcs)
    obtain b2 es where c: "fold process_call tcs (b, []) = (b2, es)" by fastforce
    have "buffer_ok b2 \<and> list_all (req_ok b2) es" using buffer_ok_calls [OF Cons.prems _ c] by simp
    moreover have "emit_all jr clock 0 es b2 = (out, b1)" using p Some c by (simp add: ProcessChunk_def processToolCallChunk_def)
    ultimately show ?thesis using buffer_ok_emit by blast
  qed
  then show ?case using Cons.IH [of b1] p by (auto split: prod.splits)
qed

lemma indices_bounded: "buffer_ok b \<Longrightarrow> map_len (builders b) \<le> 100"
proof -
  assume b: "buffer_ok b"
  have "fset (fmdom (builders b)) \<subseteq> {0..99}"
    using b by (auto simp: buffer_ok_def fmlookup_dom_iff)
  then have "card (fset (fmdom (builders b))) \<le> card {0..99 :: int}" by (rule card_mono [rotated]) simp
  then show ?thesis by (simp add: map_len_def fcard.rep_eq)
qed

text \<open>C36: the buffer stays well formed for every input. Whatever lines an upstream sends, every builder's index
  lies between 0 and 99, so that there are at most 100, its address points into the heap, no two
  indices share a builder, and the recorded total is the number of argument bytes accepted so far.\<close>

theorem tool_buffer_well_formed:
  "buffer_ok (snd (run_lines jr clock ls (NewToolCallBufferWithRepair maxsz model cfg)))
   \<and> map_len (builders (snd (run_lines jr clock ls (NewToolCallBufferWithRepair maxsz model cfg)))) \<le> 100"
proof -
  have "buffer_ok (NewToolCallBufferWithRepair maxsz model cfg)"
    by (simp add: NewToolCallBufferWithRepair_def NewToolCallBuffer_def buffer_ok_def buffered_def Let_def split: option.splits)
  from buffer_ok_lines [OF this] indices_bounded show ?thesis by blast
qed

section \<open>After an overflow\<close>

lemma overflow_arguments:
  assumes "maxSize b < totalSize b + int (length a)"
  obtains c where "add_arguments idx a p (b, es) = (c, es @ (if \<not> hasEmitted (heap b ! p) \<and> b_Arguments (heap b ! p) \<noteq> []
        then [\<lparr>req_idx = idx, req_args = b_Arguments (heap b ! p), req_builder = p\<rparr>] else []), length (heap b))"
    "heap c ! length (heap b) = new_builder\<lparr>b_Arguments := a\<rparr>" "fmlookup (builders c) idx = Some (length (heap b))"
    "totalSize c = totalSize b + int (length a)" "maxSize c = maxSize b"
proof (rule that [of "fst (add_arguments idx a p (b, es))"])
qed (use assms in \<open>simp_all add: add_arguments_def Let_def install_builder_def upd_builder_def new_builder_def nth_append\<close>)

text \<open>An overflow is never over. Once the bytes accepted exceed the limit, nothing resets the count, so every
  later fragment of a call overflows again: what the call's builder holds is emitted as it is, however
  incomplete, and the fragment goes into a new builder without identity, type and name.\<close>

theorem overflow_splits_calls:
  assumes "maxSize b < totalSize b" "is_fragment idx tc" "0 \<le> idx" "idx \<le> 99" "map_len (builders b) < 100"
    and "fmlookup (builders b) idx = Some p" "p < length (heap b)" "process_call tc (b, es) = (b', es')"
  shows "maxSize b' < totalSize b'
    \<and> (\<exists>p'. fmlookup (builders b') idx = Some p' \<and> heap b' ! p' = new_builder\<lparr>b_Arguments := frag_text tc\<rparr>)
    \<and> (\<exists>more. es' = es @ (if \<not> hasEmitted (heap b ! p) \<and> b_Arguments (heap b ! p) \<noteq> []
         then [\<lparr>req_idx = idx, req_args = b_Arguments (heap b ! p), req_builder = p\<rparr>] else []) @ more)"
proof -
  from assms(2) obtain m fn a where t: "tc = JObj m" "tc_index m = idx" "as_obj (obj_get m ''function'') = Some fn"
    "as_str (obj_get fn ''arguments'') = Some a" "frag_text tc = a"
    by (rule is_fragmentE)
  let ?b1 = "upd_builder p (\<lambda>bl. bl\<lparr>b_Name := override (str_field fn ''name'') (b_Name bl)\<rparr>) (upd_builder p (add_metadata m) b)"
  have old: "hasEmitted (heap ?b1 ! p) = hasEmitted (heap b ! p)" "b_Arguments (heap ?b1 ! p) = b_Arguments (heap b ! p)"
    using assms(7) by (simp_all add: add_metadata_def)
  let ?e = "if \<not> hasEmitted (heap b ! p) \<and> b_Arguments (heap b ! p) \<noteq> []
     then [\<lparr>req_idx = idx, req_args = b_Arguments (heap b ! p), req_builder = p\<rparr>] else []"
  have "maxSize ?b1 < totalSize ?b1 + int (length a)" using assms(1) by simp
  then obtain c where c: "add_arguments idx a p (?b1, es) = (c, es @ ?e, length (heap b))"
    "heap c ! length (heap b) = new_builder\<lparr>b_Arguments := a\<rparr>" "fmlookup (builders c) idx = Some (length (heap b))"
    "totalSize c = totalSize b + int (length a)" "maxSize c = maxSize b"
    by (rule overflow_arguments [where idx = idx and es = es and p = p]) (simp_all add: old)
  have "add_function idx m p (upd_builder p (add_metadata m) b, es) = (c, es @ ?e, length (heap b))"
    using t(3,4) c(1) by (simp add: add_function_def)
  moreover have "get_or_create idx b = (b, p)" by (simp add: get_or_create_def assms(6))
  ultimately have "process_call tc (b, es) =
      (if isCompleteLocked idx c \<and> \<not> hasEmitted (heap c ! length (heap b))
       then (c, (es @ ?e) @ [\<lparr>req_idx = idx, req_args = b_Arguments (heap c ! length (heap b)), req_builder = length (heap b)\<rparr>])
       else (c, es @ ?e))"
    using assms(3-5) t(1,2)
    by (simp only: process_call_def as_obj_def Let_def MaxToolCallIndex_def MaxToolCallsPerStream_def prod.case option.case json.case) simp
  then have "b' = c \<and> (es' = es @ ?e \<or> (\<exists>x. es' = (es @ ?e) @ [x]))"
    using assms(8) by (simp only: prod.inject split: if_split_asm) blast+
  then have b': "b' = c" and es': "\<exists>more. es' = es @ ?e @ more" by (auto intro: exI [of _ "[]"])
  show ?thesis using c(2-5) t(5) assms(1) es' unfolding b' by auto
qed

definition ex_full :: ToolCallBuffer where
  "ex_full = \<lparr>builders = fmupd 0 0 fmempty,
     heap = [\<lparr>b_ID = ''c1'', b_Type = ''function'', b_Name = ''grep'', b_Arguments = take 4 ex_args, hasEmitted = False\<rparr>],
     totalSize = 9, maxSize = 8, modelID = ''glm'', repairer = None,
     repairStats = \<lparr>Attempted = 0, Successful = 0, FailedRepairs = 0\<rparr>\<rparr>"

theorem overflow_splits_calls_witness:
  "case process_call (ex_fragments ! 1) (ex_full, []) of (b', es') \<Rightarrow>
     (\<exists>p'. fmlookup (builders b') 0 = Some p' \<and> heap b' ! p' = new_builder\<lparr>b_Arguments := drop 4 ex_args\<rparr>)
     \<and> (\<exists>more. es' = [\<lparr>req_idx = 0, req_args = take 4 ex_args, req_builder = 0\<rparr>] @ more)"
proof -
  obtain b' es' where p: "process_call (ex_fragments ! 1) (ex_full, []) = (b', es')" by fastforce
  have f: "is_fragment 0 (ex_fragments ! 1)" using ex_fragments_ok(1) by (simp add: ex_fragments_def)
  have t: "frag_text (ex_fragments ! 1) = drop 4 ex_args"
    by (simp add: ex_fragments_def frag_text_def call_map_def call_function_def as_obj_def as_str_def obj_get_def str_field_def)
  have "take 4 ex_args \<noteq> []" using ex_args_length by auto
  with overflow_splits_calls [OF _ f _ _ _ _ _ p, of 0] t p show ?thesis
    by (simp add: ex_full_def map_len_fmupd)
qed

end
