(* ===== verification/ProviderErrors.thy ===== *)
theory ProviderErrors
  imports GoStrings CredentialLB
begin

text \<open>
  Errors of upstream attempts and their classification: \<open>ProviderError\<close>, \<open>IsRateLimitError\<close> and
  \<open>IsQuotaError\<close> (\<open>pkg/providers/interface.go\<close>), \<open>IsContextOverflowError\<close>
  (\<open>pkg/models/errors.go\<close>) and the credential-failover classes
  (\<open>pkg/proxy/cred_failover_class.go\<close>). A Go error is its text and the \<open>ProviderError\<close> that
  \<open>errors.As\<close> finds in its chain, if any.
\<close>

section \<open>Errors\<close>

record ProviderError =
  Provider :: string
  StatusCode :: int
  pe_Message :: string
  Retryable :: bool
  RetryAfter :: duration
  ErrorType :: string
  ErrorCode :: string

record go_error =
  err_text :: string
  err_provider :: "ProviderError option"

definition Error_pe :: "ProviderError \<Rightarrow> string" where
  "Error_pe e = Provider e @ '': '' @ pe_Message e"

definition IsRateLimitError :: "go_error option \<Rightarrow> bool" where
  "IsRateLimitError err =
     (case Option.bind err err_provider of
        None \<Rightarrow> False
      | Some pe \<Rightarrow>
          if StatusCode pe = 429 then True
          else if Contains (ToLower (ErrorType pe)) ''rate_limit'' then True
          else ErrorCode pe \<in> {''rate_limit'', ''rate_limit_error'', ''rate_limit_exceeded''})"

definition quotaTypeVocabulary :: "string list" where
  "quotaTypeVocabulary = [''quota'', ''insufficient_credit'', ''insufficient_quota'',
     ''insufficient_balance'', ''payment_required'', ''credit_exhausted'', ''billing'']"

definition quotaCodeVocabulary :: "string list" where
  "quotaCodeVocabulary = quotaTypeVocabulary"

definition quotaMessageVocabulary :: "string list" where
  "quotaMessageVocabulary = [''insufficient credit'', ''insufficient credits'', ''insufficient balance'',
     ''insufficient quota'', ''quota exceeded'', ''quota exhausted'', ''exceeded your quota'',
     ''credit exhausted'', ''credits exhausted'', ''out of credit'', ''token plan usage limit'',
     ''token plan'', ''payment required'']"

definition IsQuotaError :: "go_error option \<Rightarrow> bool" where
  "IsQuotaError err =
     (case Option.bind err err_provider of
        None \<Rightarrow> False
      | Some pe \<Rightarrow>
          if StatusCode pe = 402 then True
          else if containsAny (ToLower (ErrorType pe)) quotaTypeVocabulary then True
          else if containsAny (ToLower (ErrorCode pe)) quotaCodeVocabulary then True
          else containsAny (ToLower (pe_Message pe)) quotaMessageVocabulary)"

definition overflow_patterns :: "string list" where
  "overflow_patterns = [''context_length_exceeded'', ''prompt is too long'',
     ''exceeds the context window'', ''maximum context length'', ''input is too long'',
     ''reduce the length of the messages'']"

definition IsContextOverflowError :: "go_error option \<Rightarrow> bool" where
  "IsContextOverflowError err =
     (case err of None \<Rightarrow> False | Some e \<Rightarrow> containsAny (ToLower (err_text e)) overflow_patterns)"

section \<open>Credential-failover classes\<close>

datatype credFailoverClass = credFailoverNone | credFailoverRateLimit | credFailoverQuota

definition class_String :: "credFailoverClass \<Rightarrow> string" where
  "class_String c = (case c of credFailoverRateLimit \<Rightarrow> ''rate_limit''
     | credFailoverQuota \<Rightarrow> ''quota_exceeded'' | credFailoverNone \<Rightarrow> '''')"

definition toEngineClass :: "credFailoverClass \<Rightarrow> FailureClass" where
  "toEngineClass c = (if c = credFailoverQuota then FailureClassQuota else FailureClassRateLimit)"

definition readable :: "credFailoverClass \<Rightarrow> string" where
  "readable c = (case c of credFailoverRateLimit \<Rightarrow> ''rate-limited''
     | credFailoverQuota \<Rightarrow> ''quota-exceeded'' | credFailoverNone \<Rightarrow> ''failed'')"

definition classifyCredFailure :: "go_error option \<Rightarrow> credFailoverClass" where
  "classifyCredFailure err =
     (if err = None then credFailoverNone
      else if IsQuotaError err then credFailoverQuota
      else if IsRateLimitError err then credFailoverRateLimit
      else credFailoverNone)"

definition effectiveCooldown :: "Engine option \<Rightarrow> credFailoverClass \<Rightarrow> duration \<Rightarrow> duration" where
  "effectiveCooldown e c retryAfter = CooldownFor e (toEngineClass c) retryAfter"

definition ex_quota_error :: go_error where
  "ex_quota_error = \<lparr>err_text = ''minimax: Token Plan usage limit'',
     err_provider = Some \<lparr>Provider = ''minimax'', StatusCode = 429, pe_Message = ''Token Plan usage limit'',
       Retryable = False, RetryAfter = 0, ErrorType = '''', ErrorCode = ''''\<rparr>\<rparr>"

definition ex_429 :: go_error where
  "ex_429 = \<lparr>err_text = ''openai: slow down'',
     err_provider = Some \<lparr>Provider = ''openai'', StatusCode = 429, pe_Message = ''slow down'',
       Retryable = True, RetryAfter = 0, ErrorType = '''', ErrorCode = ''''\<rparr>\<rparr>"

section \<open>Properties\<close>

text \<open>
  The failover classes are exclusive and quota wins. An error is eligible for credential
  failover only if it carries a provider error; a 429 that carries quota vocabulary is a quota
  failure, which cools the credential for at least the quota cooldown, and a plain 429 is a rate
  limit; an authentication failure (status 401 or 403) without rate-limit or quota vocabulary is
  never eligible.
\<close>

theorem failure_classification:
  "(err_provider e = None \<longrightarrow> classifyCredFailure (Some e) = credFailoverNone) \<and>
   (err_provider e = Some pe \<longrightarrow> StatusCode pe = 429 \<longrightarrow>
      classifyCredFailure (Some e) = (if IsQuotaError (Some e) then credFailoverQuota else credFailoverRateLimit)) \<and>
   (err_provider e = Some pe \<longrightarrow> StatusCode pe = 402 \<longrightarrow> classifyCredFailure (Some e) = credFailoverQuota) \<and>
   (classifyCredFailure (Some e) = credFailoverQuota \<longrightarrow>
      QuotaCooldown eng \<le> effectiveCooldown eng (classifyCredFailure (Some e)) ra) \<and>
   (err_provider e = Some pe \<longrightarrow> StatusCode pe \<in> {401, 403} \<longrightarrow>
      ErrorType pe = '''' \<longrightarrow> ErrorCode pe = '''' \<longrightarrow>
      \<not> containsAny (ToLower (pe_Message pe)) quotaMessageVocabulary \<longrightarrow>
      classifyCredFailure (Some e) = credFailoverNone)"
  by (auto simp: classifyCredFailure_def IsRateLimitError_def IsQuotaError_def effectiveCooldown_def
      toEngineClass_def CooldownFor_def Let_def containsAny_def quotaTypeVocabulary_def
      quotaCodeVocabulary_def ToLower_def)

theorem failure_classification_witness:
  "classifyCredFailure (Some ex_quota_error) = credFailoverQuota \<and>
   classifyCredFailure (Some ex_429) = credFailoverRateLimit"
proof -
  have "IsQuotaError (Some ex_quota_error)" "\<not> IsQuotaError (Some ex_429)" by code_simp+
  then show ?thesis
    using failure_classification [of ex_quota_error "the (err_provider ex_quota_error)"]
      failure_classification [of ex_429 "the (err_provider ex_429)"]
    by (simp add: ex_quota_error_def ex_429_def)
qed

end
