(* ===== verification/StreamBuffer.thy ===== *)
theory StreamBuffer
  imports Prelude
begin

text \<open>
  The response buffer of an upstream request (\<open>pkg/proxy/stream_buffer.go\<close>) and the loop of
  \<open>streamResult\<close> (\<open>pkg/proxy/handler.go\<close>) that relays it to the client. A chunk is a byte list;
  a pruned chunk is \<open>None\<close>, as the code sets the slot to nil. The capacity-one notification
  channel is the flag \<open>notify\<close>, the closed \<open>done\<close> channel the flag \<open>done\<close>. The byte counter is a
  64-bit integer with its wrap-around. The pooling of backing arrays is not modelled: \<open>Add\<close>
  copies the line, so that the value of a chunk is the line and a newline.

  None of the actions is atomic here that is not atomic in the code. \<open>Add\<close> checks the completion
  flag, reserves its bytes, appends under the lock, then signals; \<open>Close\<close> wins the flag, records the
  error under the lock, signals and only then closes the \<open>done\<close> channel; the relay fetches the unread
  chunks, writes them one by one, then looks whether to prune, prunes, and waits again. Its last turn,
  after \<open>done\<close>, happens once. The relation \<open>sb_step\<close> interleaves these actions of any number of
  writers, of \<open>Close\<close> by the writer or by a cancellation, and of the relay, which also wakes on its
  ticker and may stop at any wait (\<open>client_gone\<close>: the client or the deadline, or idle termination) or write.
  The bytes that the relay writes are the arguments of \<open>sseMasker.process\<close>, which is the identity but
  for groups (\<open>ModelMask\<close>).
\<close>

section \<open>Data\<close>

type_synonym bytes = "8 word list"

record streamBuffer =
  chunks :: "bytes option list"
  done_ch :: bool
  notify :: bool
  sb_err :: "string option"
  totalLen :: int
  maxBytes :: int
  overflow :: bool
  completed :: bool
  cachedRawBytes :: "bytes option"
  cacheValid :: bool

definition defaultMaxBufferBytes :: int where
  "defaultMaxBufferBytes = 5242880"

definition newStreamBuffer :: "int \<Rightarrow> streamBuffer" where
  "newStreamBuffer m =
     \<lparr>chunks = [], done_ch = False, notify = False, sb_err = None, totalLen = 0,
      maxBytes = (if m \<le> 0 then defaultMaxBufferBytes else m), overflow = False,
      completed = False, cachedRawBytes = None, cacheValid = False\<rparr>"

section \<open>Operations\<close>

definition newline :: "8 word" where
  "newline = 10"

definition chunkSize :: "bytes \<Rightarrow> int" where
  "chunkSize line = int (length line + 1)"

definition InvalidateCache :: "streamBuffer \<Rightarrow> streamBuffer" where
  "InvalidateCache sb = sb\<lparr>cachedRawBytes := None, cacheValid := False\<rparr>"

text \<open>The four actions of \<open>Add\<close>: the check, the atomic reservation, the append under the lock, the signal.\<close>

definition add_check :: "streamBuffer \<Rightarrow> bool" where
  "add_check sb \<longleftrightarrow> \<not> completed sb"

definition add_reserve :: "bytes \<Rightarrow> streamBuffer \<Rightarrow> bool \<times> streamBuffer" where
  "add_reserve line sb =
     (let newLen = wrap64 (totalLen sb + chunkSize line);
          sb1 = sb\<lparr>totalLen := newLen\<rparr>
      in if newLen > maxBytes sb then (False, sb1\<lparr>overflow := True\<rparr>) else (True, sb1))"

definition add_append :: "bytes \<Rightarrow> streamBuffer \<Rightarrow> streamBuffer" where
  "add_append line sb = InvalidateCache (sb\<lparr>chunks := chunks sb @ [Some (line @ [newline])]\<rparr>)"

definition signal :: "streamBuffer \<Rightarrow> streamBuffer" where
  "signal sb = sb\<lparr>notify := True\<rparr>"

definition Add :: "bytes \<Rightarrow> streamBuffer \<Rightarrow> bool \<times> streamBuffer" where
  "Add line sb =
     (if \<not> add_check sb then (False, sb)
      else let (ok, sb1) = add_reserve line sb
           in if ok then (True, signal (add_append line sb1)) else (False, sb1))"

text \<open>The actions of \<open>Close\<close>: the compare-and-swap, the error under the lock, the signal, the channel.\<close>

definition close_mark :: "streamBuffer \<Rightarrow> bool \<times> streamBuffer" where
  "close_mark sb = (if completed sb then (False, sb) else (True, sb\<lparr>completed := True\<rparr>))"

definition close_err :: "string option \<Rightarrow> streamBuffer \<Rightarrow> streamBuffer" where
  "close_err e sb = InvalidateCache (sb\<lparr>sb_err := e\<rparr>)"

definition close_done :: "streamBuffer \<Rightarrow> streamBuffer" where
  "close_done sb = sb\<lparr>done_ch := True\<rparr>"

definition Close :: "string option \<Rightarrow> streamBuffer \<Rightarrow> streamBuffer" where
  "Close e sb =
     (case close_mark sb of (won, sb1) \<Rightarrow>
        if won then close_done (signal (close_err e sb1)) else sb1)"

definition live :: "bytes option list \<Rightarrow> bytes list" where
  "live cs = map the (filter (\<lambda>c. c \<noteq> None) cs)"

definition GetAllRawBytes :: "streamBuffer \<Rightarrow> bytes" where
  "GetAllRawBytes sb = concat (live (chunks sb))"

definition GetAllRawBytesOnce :: "streamBuffer \<Rightarrow> bytes \<times> streamBuffer" where
  "GetAllRawBytesOnce sb =
     (case cachedRawBytes sb of
        Some r \<Rightarrow> if cacheValid sb then (r, sb)
          else (concat (live (chunks sb)),
                sb\<lparr>cachedRawBytes := Some (concat (live (chunks sb))), cacheValid := True\<rparr>)
      | None \<Rightarrow> (concat (live (chunks sb)),
                sb\<lparr>cachedRawBytes := Some (concat (live (chunks sb))), cacheValid := True\<rparr>))"

definition GetChunksFrom :: "nat \<Rightarrow> streamBuffer \<Rightarrow> bytes list \<times> nat" where
  "GetChunksFrom fromIndex sb =
     (if length (chunks sb) \<le> fromIndex then ([], fromIndex)
      else if fromIndex = 0 \<and> None \<notin> set (chunks sb)
      then (map the (chunks sb), length (chunks sb))
      else (live (drop fromIndex (chunks sb)), length (chunks sb)))"

definition Prune :: "nat \<Rightarrow> streamBuffer \<Rightarrow> streamBuffer" where
  "Prune readIndex sb =
     InvalidateCache (sb\<lparr>chunks := map (\<lambda>(i, c). if i < readIndex then None else c)
                                     (zip [0..<length (chunks sb)] (chunks sb))\<rparr>)"

definition ShouldPrune :: "nat \<Rightarrow> streamBuffer \<Rightarrow> bool" where
  "ShouldPrune readIndex sb \<longleftrightarrow>
     0 < readIndex \<and> readIndex < length (chunks sb) \<and> length (chunks sb) div 2 < readIndex"

definition TotalLen :: "streamBuffer \<Rightarrow> int" where "TotalLen sb = totalLen sb"
definition IsComplete :: "streamBuffer \<Rightarrow> bool" where "IsComplete sb = completed sb"
definition Err :: "streamBuffer \<Rightarrow> string option" where "Err sb = sb_err sb"

section \<open>The relay and its interleavings\<close>

text \<open>
  Where the relay stands: it is about to fetch (\<open>Fetching\<close>, with \<open>True\<close> in the \<open>Done\<close> arm of its
  select), has fetched chunks still to write, looks whether to prune, prunes, waits in the select, has
  drained the buffer (\<open>Draining\<close>), has returned after the drain (\<open>Finished\<close>) or has returned before
  (\<open>Stopped\<close>: a failed write, a context that ended, idle termination). \<open>Close\<close> has its own progress.
\<close>

datatype relay_phase = Fetching bool | Writing bool "bytes list" | Checking | Pruning bool | Waiting
  | Draining | Finished | Stopped

datatype close_phase = NotClosing | Marked "string option" | Recorded | Signalled | ClosedCh

text \<open>
  Lines of writers past the check are in \<open>checked_lines\<close>, those past the reservation in
  \<open>reserved\<close>; a writer that has appended and not yet signalled counts in \<open>unsignalled\<close>.
  \<open>accepted\<close> records the appended lines, \<open>drained_at\<close> how many there were when the relay fetched for
  the last time, \<open>reported_err\<close> the error it reported to the client at the end, and \<open>own_close\<close> that
  the buffer was closed by its writer (\<open>MarkCompleted\<close>, \<open>MarkFailed\<close>), not by a cancellation.
\<close>

record sys =
  buf :: streamBuffer
  checked_lines :: "bytes list"
  reserved :: "bytes list"
  unsignalled :: nat
  closing_at :: close_phase
  own_close :: bool
  rphase :: relay_phase
  readIndex :: nat
  written :: bytes
  accepted :: "bytes list"
  drained_at :: nat
  reported_err :: "string option"

definition remove_nth :: "nat \<Rightarrow> 'a list \<Rightarrow> 'a list" where
  "remove_nth i xs = take i xs @ drop (Suc i) xs"

text \<open>The actions of the relay. (\<open>streamResult\<close> ignores the index returned by \<open>GetChunksFrom\<close>.)\<close>

definition relay_fetch :: "bool \<Rightarrow> sys \<Rightarrow> sys" where
  "relay_fetch d s = s\<lparr>rphase := Writing d (fst (GetChunksFrom (readIndex s) (buf s))),
     drained_at := (if d then length (accepted s) else drained_at s)\<rparr>"

definition relay_write :: "bool \<Rightarrow> bytes \<Rightarrow> bytes list \<Rightarrow> sys \<Rightarrow> sys" where
  "relay_write d c cs s = s\<lparr>written := written s @ c, readIndex := readIndex s + 1, rphase := Writing d cs\<rparr>"

definition relay_check :: "bool \<Rightarrow> sys \<Rightarrow> sys" where
  "relay_check bufferMode s =
     s\<lparr>rphase := (if bufferMode \<and> ShouldPrune (readIndex s) (buf s) then Pruning False else Waiting)\<rparr>"

definition relay_prune :: "bool \<Rightarrow> sys \<Rightarrow> sys" where
  "relay_prune d s = s\<lparr>buf := Prune (readIndex s) (buf s), rphase := (if d then Finished else Waiting)\<rparr>"

definition relay_end :: "bool \<Rightarrow> sys \<Rightarrow> sys" where
  "relay_end bufferMode s =
     s\<lparr>reported_err := Err (buf s), rphase := (if bufferMode then Pruning True else Finished)\<rparr>"

inductive sb_step :: "bool \<Rightarrow> sys \<Rightarrow> sys \<Rightarrow> bool" where
  check_ok: "add_check (buf s) \<Longrightarrow> sb_step m s (s\<lparr>checked_lines := checked_lines s @ [line]\<rparr>)"
| reserve_line: "i < length (checked_lines s) \<Longrightarrow>
     fits64 (totalLen (buf s) + chunkSize (checked_lines s ! i)) \<Longrightarrow>
     add_reserve (checked_lines s ! i) (buf s) = (ok, b) \<Longrightarrow>
     sb_step m s (s\<lparr>buf := b, checked_lines := remove_nth i (checked_lines s),
       reserved := (if ok then reserved s @ [checked_lines s ! i] else reserved s)\<rparr>)"
| append_line: "i < length (reserved s) \<Longrightarrow>
     sb_step m s (s\<lparr>buf := add_append (reserved s ! i) (buf s), reserved := remove_nth i (reserved s),
                  unsignalled := Suc (unsignalled s), accepted := accepted s @ [reserved s ! i]\<rparr>)"
| send_signal: "0 < unsignalled s \<Longrightarrow>
     sb_step m s (s\<lparr>buf := signal (buf s), unsignalled := unsignalled s - 1\<rparr>)"
| writer_closes: "checked_lines s = [] \<Longrightarrow> reserved s = [] \<Longrightarrow> unsignalled s = 0 \<Longrightarrow>
     close_mark (buf s) = (True, b) \<Longrightarrow>
     sb_step m s (s\<lparr>buf := b, closing_at := Marked e, own_close := True\<rparr>)"
| cancel_closes: "close_mark (buf s) = (True, b) \<Longrightarrow> sb_step m s (s\<lparr>buf := b, closing_at := Marked e\<rparr>)"
| close_records: "closing_at s = Marked e \<Longrightarrow>
     sb_step m s (s\<lparr>buf := close_err e (buf s), closing_at := Recorded\<rparr>)"
| close_signals: "closing_at s = Recorded \<Longrightarrow>
     sb_step m s (s\<lparr>buf := signal (buf s), closing_at := Signalled\<rparr>)"
| close_ends: "closing_at s = Signalled \<Longrightarrow>
     sb_step m s (s\<lparr>buf := close_done (buf s), closing_at := ClosedCh\<rparr>)"
| wake: "rphase s = Waiting \<Longrightarrow> notify (buf s) \<Longrightarrow>
     sb_step m s (s\<lparr>buf := (buf s)\<lparr>notify := False\<rparr>, rphase := Fetching False\<rparr>)"
| tick: "rphase s = Waiting \<Longrightarrow> fst (GetChunksFrom (readIndex s) (buf s)) \<noteq> [] \<Longrightarrow>
     sb_step m s (relay_fetch False s)"
| see_done: "rphase s = Waiting \<Longrightarrow> done_ch (buf s) \<Longrightarrow> sb_step m s (s\<lparr>rphase := Fetching True\<rparr>)"
| client_gone: "rphase s = Waiting \<Longrightarrow> sb_step m s (s\<lparr>rphase := Stopped\<rparr>)"
| fetch: "rphase s = Fetching d \<Longrightarrow> sb_step m s (relay_fetch d s)"
| write_chunk: "rphase s = Writing d (c # cs) \<Longrightarrow> sb_step m s (relay_write d c cs s)"
| write_fails: "rphase s = Writing d (c # cs) \<Longrightarrow>
     sb_step m s (s\<lparr>written := written s @ take n c, rphase := Stopped\<rparr>)"
| written_all: "rphase s = Writing d [] \<Longrightarrow> sb_step m s (s\<lparr>rphase := (if d then Draining else Checking)\<rparr>)"
| check_prune: "rphase s = Checking \<Longrightarrow> sb_step m s (relay_check m s)"
| prune: "rphase s = Pruning d \<Longrightarrow> sb_step m s (relay_prune d s)"
| drain_ends: "rphase s = Draining \<Longrightarrow> sb_step m s (relay_end m s)"
| raw_capture: "sb_step m s (s\<lparr>buf := snd (GetAllRawBytesOnce (buf s))\<rparr>)"

definition sys_init :: "int \<Rightarrow> sys" where
  "sys_init limit = \<lparr>buf = newStreamBuffer limit, checked_lines = [], reserved = [], unsignalled = 0,
     closing_at = NotClosing, own_close = False, rphase = Fetching False,
     readIndex = 0, written = [], accepted = [], drained_at = 0, reported_err = None\<rparr>"

inductive sb_reach :: "bool \<Rightarrow> int \<Rightarrow> sys \<Rightarrow> bool" where
  sb_start: "sb_reach m limit (sys_init limit)"
| sb_next: "sb_reach m limit s \<Longrightarrow> sb_step m s s' \<Longrightarrow> sb_reach m limit s'"

definition framed :: "bytes list \<Rightarrow> bytes list" where
  "framed ls = map (\<lambda>l. l @ [newline]) ls"

definition size_of :: "bytes list \<Rightarrow> int" where
  "size_of ls = sum_list (map chunkSize ls)"

definition cache_ok :: "streamBuffer \<Rightarrow> bool" where
  "cache_ok sb \<longleftrightarrow> (cacheValid sb \<longrightarrow> cachedRawBytes sb = Some (GetAllRawBytes sb))"

definition buf_inv :: "sys \<Rightarrow> bool" where
  "buf_inv s \<longleftrightarrow>
     (let sb = buf s in
      0 < maxBytes sb \<and> fits64 (totalLen sb) \<and>
      size_of (accepted s) + size_of (reserved s) \<le> totalLen sb \<and>
      size_of (accepted s) + size_of (reserved s) \<le> maxBytes sb \<and>
      readIndex s \<le> length (accepted s) \<and>
      (\<exists>k \<le> readIndex s. chunks sb = replicate k None @ map Some (drop k (framed (accepted s)))) \<and>
      cache_ok sb)"

definition close_inv :: "sys \<Rightarrow> bool" where
  "close_inv s \<longleftrightarrow>
     (completed (buf s) \<longleftrightarrow> closing_at s \<noteq> NotClosing) \<and> (done_ch (buf s) \<longleftrightarrow> closing_at s = ClosedCh) \<and>
     (own_close s \<longrightarrow> completed (buf s) \<and> checked_lines s = [] \<and> reserved s = [])"

definition written_inv :: "sys \<Rightarrow> bool" where
  "written_inv s \<longleftrightarrow>
     (if rphase s = Stopped
      then (\<exists>n. written s = take n (concat (framed (accepted s))))
      else written s = concat (take (readIndex s) (framed (accepted s))))"

definition will_wake :: "sys \<Rightarrow> bool" where
  "will_wake s \<longleftrightarrow> notify (buf s) \<or> 0 < unsignalled s \<or> done_ch (buf s)"

definition seen_or_woken :: "nat \<Rightarrow> sys \<Rightarrow> bool" where
  "seen_or_woken n s \<longleftrightarrow> (n < length (accepted s) \<longrightarrow> will_wake s)"

definition drained_ok :: "sys \<Rightarrow> bool" where
  "drained_ok s \<longleftrightarrow> done_ch (buf s) \<and> (own_close s \<longrightarrow> drained_at s = length (accepted s))"

definition phase_inv :: "sys \<Rightarrow> bool" where
  "phase_inv s \<longleftrightarrow>
     (case rphase s of
        Fetching d \<Rightarrow> (d \<longrightarrow> done_ch (buf s))
      | Writing d cs \<Rightarrow>
          cs = take (length cs) (drop (readIndex s) (framed (accepted s))) \<and>
          readIndex s + length cs \<le> length (accepted s) \<and>
          (if d then drained_ok s \<and> drained_at s = readIndex s + length cs
           else seen_or_woken (readIndex s + length cs) s)
      | Pruning d \<Rightarrow>
          (if d then drained_ok s \<and> drained_at s = readIndex s \<and> reported_err s = sb_err (buf s)
           else seen_or_woken (readIndex s) s)
      | Draining \<Rightarrow> drained_ok s \<and> drained_at s = readIndex s
      | Finished \<Rightarrow> drained_ok s \<and> drained_at s = readIndex s \<and> reported_err s = sb_err (buf s)
      | Stopped \<Rightarrow> True
      | _ \<Rightarrow> seen_or_woken (readIndex s) s)"

definition add_all :: "bytes list \<Rightarrow> streamBuffer \<Rightarrow> bool list \<times> streamBuffer" where
  "add_all ls sb = fold (\<lambda>l (oks, b). case Add l b of (ok, b') \<Rightarrow> (oks @ [ok], b')) ls ([], sb)"

section \<open>Live chunks\<close>

lemma live_simps [simp]:
  "live [] = []" "live (None # cs) = live cs" "live (Some c # cs) = c # live cs"
  "live (as @ bs) = live as @ live bs"
  by (simp_all add: live_def)

lemma live_pruned [simp]: "live (replicate k None) = []" "live (map Some xs) = xs"
  by (simp_all add: live_def filter_empty_conv o_def)

lemma GetChunksFrom_shape:
  assumes "chunks sb = replicate k None @ map Some (drop k fs)" and "k \<le> i" and "i \<le> length fs"
  shows "fst (GetChunksFrom i sb) = drop i fs"
proof (cases "length fs \<le> i")
  case True
  then show ?thesis using assms by (simp add: GetChunksFrom_def)
next
  case False
  have "drop i (chunks sb) = map Some (drop i fs)"
    using assms by (simp add: drop_map)
  then have "live (drop i (chunks sb)) = drop i fs" by simp
  moreover have "i = 0 \<Longrightarrow> map the (chunks sb) = fs"
    using assms(1,2) by (simp add: o_def)
  ultimately show ?thesis using False assms by (auto simp: GetChunksFrom_def)
qed

lemma Prune_chunks: "chunks (Prune r sb) = map (\<lambda>i. if i < r then None else chunks sb ! i) [0..<length (chunks sb)]"
  by (rule nth_equalityI) (simp_all add: Prune_def InvalidateCache_def)

lemma Prune_shape:
  assumes "chunks sb = replicate k None @ map Some (drop k fs)" and "k \<le> r" and "r \<le> length fs"
  shows "chunks (Prune r sb) = replicate r None @ map Some (drop r fs)"
  using assms by (intro nth_equalityI) (auto simp: Prune_chunks nth_append)

section \<open>Every interleaving keeps the invariant\<close>

lemma size_of_simps [simp]: "size_of [] = 0" "size_of (l # ls) = chunkSize l + size_of ls"
  "size_of (as @ bs) = size_of as + size_of bs"
  by (simp_all add: size_of_def)

lemma size_of_remove_nth: "i < length ls \<Longrightarrow> size_of (remove_nth i ls) = size_of ls - chunkSize (ls ! i)"
  by (subst (2) id_take_nth_drop [of i ls]) (simp_all add: remove_nth_def)

lemma size_of_nonneg [simp]: "0 \<le> size_of ls"
  by (induction ls) (simp_all add: chunkSize_def)

lemma framed_snoc: "framed (ls @ [l]) = framed ls @ [l @ [newline]]" "length (framed ls) = length ls"
  by (simp_all add: framed_def)

lemma size_of_remove_nth_le: "i < length ls \<Longrightarrow> 0 < chunkSize (ls ! i)"
  by (simp add: chunkSize_def)

lemma buf_inv_D:
  assumes "buf_inv s"
  shows "readIndex s \<le> length (accepted s)"
    "fst (GetChunksFrom (readIndex s) (buf s)) = drop (readIndex s) (framed (accepted s))"
  using assms by (auto simp: buf_inv_def Let_def framed_snoc intro!: GetChunksFrom_shape)

lemma cache_ok_capture: "cache_ok sb \<Longrightarrow> cache_ok (snd (GetAllRawBytesOnce sb))"
  by (auto simp: cache_ok_def GetAllRawBytesOnce_def GetAllRawBytes_def split: option.splits)

lemma cache_ok_off [simp]: "cache_ok (InvalidateCache sb)"
  by (simp add: cache_ok_def InvalidateCache_def)

lemma capture_frame [simp]:
  "chunks (snd (GetAllRawBytesOnce sb)) = chunks sb" "totalLen (snd (GetAllRawBytesOnce sb)) = totalLen sb"
  "maxBytes (snd (GetAllRawBytesOnce sb)) = maxBytes sb" "notify (snd (GetAllRawBytesOnce sb)) = notify sb"
  "done_ch (snd (GetAllRawBytesOnce sb)) = done_ch sb" "completed (snd (GetAllRawBytesOnce sb)) = completed sb"
  "sb_err (snd (GetAllRawBytesOnce sb)) = sb_err sb"
  by (auto simp: GetAllRawBytesOnce_def split: option.splits)

lemmas buffer_ops = add_reserve_def add_append_def signal_def close_mark_def close_err_def close_done_def
  Prune_def InvalidateCache_def add_check_def Err_def

lemmas relay_ops = relay_fetch_def relay_write_def relay_check_def relay_prune_def relay_end_def

lemma cache_ok_frame [simp]:
  "cache_ok (sb\<lparr>totalLen := n\<rparr>) = cache_ok sb" "cache_ok (sb\<lparr>overflow := o1\<rparr>) = cache_ok sb"
  "cache_ok (sb\<lparr>notify := b\<rparr>) = cache_ok sb" "cache_ok (sb\<lparr>completed := b\<rparr>) = cache_ok sb"
  "cache_ok (sb\<lparr>done_ch := b\<rparr>) = cache_ok sb"
  by (simp_all add: cache_ok_def GetAllRawBytes_def)

lemma buf_inv_reserve:
  assumes "buf_inv s" and "i < length (checked_lines s)"
    and "fits64 (totalLen (buf s) + chunkSize (checked_lines s ! i))"
    and "add_reserve (checked_lines s ! i) (buf s) = (ok, b)"
  shows "buf_inv (s\<lparr>buf := b, checked_lines := remove_nth i (checked_lines s),
           reserved := (if ok then reserved s @ [checked_lines s ! i] else reserved s)\<rparr>)"
proof -
  have "0 < chunkSize (checked_lines s ! i)" by (simp add: chunkSize_def)
  then show ?thesis
    using assms by (auto simp: buf_inv_def add_reserve_def Let_def split: if_splits)
qed

lemma buf_inv_append:
  assumes "buf_inv s" and "i < length (reserved s)"
  shows "buf_inv (s\<lparr>buf := add_append (reserved s ! i) (buf s), reserved := remove_nth i (reserved s),
           unsignalled := Suc (unsignalled s), accepted := accepted s @ [reserved s ! i]\<rparr>)"
proof -
  let ?l = "reserved s ! i"
  obtain k where k: "k \<le> readIndex s" "chunks (buf s) = replicate k None @ map Some (drop k (framed (accepted s)))"
    using assms(1) by (auto simp: buf_inv_def Let_def)
  have r: "readIndex s \<le> length (accepted s)" using assms(1) by (simp add: buf_inv_def Let_def)
  have "chunks (add_append ?l (buf s)) = replicate k None @ map Some (drop k (framed (accepted s @ [?l])))"
    using k r by (simp add: add_append_def InvalidateCache_def framed_snoc)
  then show ?thesis
    using assms k(1) r
    by (auto simp: buf_inv_def Let_def size_of_remove_nth add_append_def)
      (auto simp: InvalidateCache_def)
qed

lemma buf_inv_prune:
  assumes "buf_inv s"
  shows "buf_inv (relay_prune d s)"
proof -
  obtain k where k: "k \<le> readIndex s" "chunks (buf s) = replicate k None @ map Some (drop k (framed (accepted s)))"
    using assms by (auto simp: buf_inv_def Let_def)
  have r: "readIndex s \<le> length (accepted s)" using assms by (simp add: buf_inv_def Let_def)
  have "chunks (Prune (readIndex s) (buf s)) =
      replicate (readIndex s) None @ map Some (drop (readIndex s) (framed (accepted s)))"
    using Prune_shape [OF k(2,1)] r by (simp add: framed_snoc)
  moreover have "cache_ok (Prune (readIndex s) (buf s))" by (simp add: Prune_def)
  moreover have "totalLen (Prune (readIndex s) (buf s)) = totalLen (buf s)"
    "maxBytes (Prune (readIndex s) (buf s)) = maxBytes (buf s)"
    by (simp_all add: Prune_def InvalidateCache_def)
  ultimately show ?thesis
    using assms by (auto simp: buf_inv_def Let_def relay_prune_def)
qed

lemma writing_D:
  assumes "phase_inv s" and "rphase s = Writing d (c # cs)"
  shows "readIndex s < length (accepted s)" "framed (accepted s) ! readIndex s = c"
    "cs = take (length cs) (drop (Suc (readIndex s)) (framed (accepted s)))"
proof -
  have l: "Suc (readIndex s + length cs) \<le> length (accepted s)"
    and cs: "c # cs = take (Suc (length cs)) (drop (readIndex s) (framed (accepted s)))"
    using assms by (simp_all add: phase_inv_def)
  show r: "readIndex s < length (accepted s)" using l by simp
  have "drop (readIndex s) (framed (accepted s)) =
      framed (accepted s) ! readIndex s # drop (Suc (readIndex s)) (framed (accepted s))"
    using r by (simp add: Cons_nth_drop_Suc framed_snoc)
  then show "framed (accepted s) ! readIndex s = c"
    "cs = take (length cs) (drop (Suc (readIndex s)) (framed (accepted s)))"
    using cs by simp_all
qed

lemma buf_inv_step: "sb_step m s s' \<Longrightarrow> buf_inv s \<Longrightarrow> phase_inv s \<Longrightarrow> buf_inv s'"
proof (induction rule: sb_step.induct)
  case (reserve_line i s ok b m)
  then show ?case by (intro buf_inv_reserve)
next
  case (append_line i s m)
  then show ?case by (intro buf_inv_append)
next
  case (write_chunk s d c cs m)
  obtain k where "k \<le> readIndex s" "chunks (buf s) = replicate k None @ map Some (drop k (framed (accepted s)))"
    using write_chunk(2) by (auto simp: buf_inv_def Let_def)
  then have "\<exists>k \<le> Suc (readIndex s). chunks (buf s) = replicate k None @ map Some (drop k (framed (accepted s)))"
    by (intro exI [of _ k]) simp
  then show ?case using write_chunk writing_D(1) [of s d c cs] by (simp add: buf_inv_def relay_write_def Let_def)
next
  case (prune s d m)
  then show ?case by (intro buf_inv_prune)
next
  case (close_records s e m)
  then show ?case by (auto simp: buf_inv_def close_err_def Let_def) (auto simp: InvalidateCache_def)
next
  case (raw_capture m s)
  then show ?case by (simp add: buf_inv_def Let_def cache_ok_capture)
qed (auto simp: buf_inv_def Let_def signal_def close_mark_def close_done_def relay_fetch_def relay_check_def
      relay_end_def split: if_splits)

lemma close_inv_step: "sb_step m s s' \<Longrightarrow> close_inv s \<Longrightarrow> close_inv s'"
  by (induction rule: sb_step.induct)
    (auto simp: close_inv_def buffer_ops relay_ops Let_def split: if_splits)

lemma written_inv_step:
  "sb_step m s s' \<Longrightarrow> buf_inv s \<Longrightarrow> phase_inv s \<Longrightarrow> written_inv s \<Longrightarrow> written_inv s'"
proof (induction rule: sb_step.induct)
  case (append_line i s m)
  have "readIndex s \<le> length (framed (accepted s))" using append_line by (simp add: buf_inv_def Let_def framed_snoc)
  moreover have "\<exists>k. take n xs = take k (xs @ ys)" for n and xs ys :: bytes
    by (intro exI [of _ "min n (length xs)"]) (simp add: min_def)
  ultimately show ?case
    using append_line by (cases "rphase s = Stopped") (auto simp: written_inv_def framed_snoc simp del: take_append,
        simp add: framed_snoc)
next
  case (client_gone s m)
  have "concat (take (readIndex s) (framed (accepted s))) =
      take (length (concat (take (readIndex s) (framed (accepted s))))) (concat (framed (accepted s)))"
    by (metis append_eq_conv_conj append_take_drop_id concat_append)
  then show ?case using client_gone by (auto simp: written_inv_def)
next
  case (write_chunk s d c cs m)
  then show ?case
    using writing_D(1,2) [of s d c cs]
    by (simp add: written_inv_def relay_write_def take_Suc_conv_app_nth framed_snoc)
next
  case (write_fails s d c cs m n)
  have w: "readIndex s < length (framed (accepted s))" "framed (accepted s) ! readIndex s = c"
    using writing_D(1,2) [of s d c cs] write_fails by (simp_all add: framed_snoc)
  have "concat (framed (accepted s)) = concat (take (readIndex s) (framed (accepted s))) @ c @
      concat (drop (Suc (readIndex s)) (framed (accepted s)))"
    using id_take_nth_drop [OF w(1)] w(2) by (metis concat.simps(2) concat_append)
  then have "concat (take (readIndex s) (framed (accepted s))) @ take n c =
      take (length (concat (take (readIndex s) (framed (accepted s)))) + min n (length c)) (concat (framed (accepted s)))"
    by (simp add: min_def)
  then show ?case using write_fails by (auto simp: written_inv_def)
qed (auto simp: written_inv_def relay_fetch_def relay_check_def relay_prune_def relay_end_def split: if_splits)

lemma phase_inv_append:
  assumes "buf_inv s" and "close_inv s" and "phase_inv s" and "i < length (reserved s)"
  shows "phase_inv (s\<lparr>buf := add_append (reserved s ! i) (buf s), reserved := remove_nth i (reserved s),
           unsignalled := Suc (unsignalled s), accepted := accepted s @ [reserved s ! i]\<rparr>)"
proof -
  have "\<not> own_close s" using assms(2,4) by (auto simp: close_inv_def)
  then show ?thesis
    using assms(3) buf_inv_D(1) [OF assms(1)]
    by (cases "rphase s")
      (auto simp: phase_inv_def seen_or_woken_def will_wake_def drained_ok_def framed_snoc add_append_def
        InvalidateCache_def)
qed

lemma phase_inv_fetch:
  assumes "buf_inv s" and "phase_inv s" and "rphase s = Fetching d \<or> \<not> d"
  shows "phase_inv (relay_fetch d s)"
  using assms(2,3) buf_inv_D [OF assms(1)]
  by (auto simp: phase_inv_def relay_fetch_def drained_ok_def seen_or_woken_def framed_snoc)

lemma phase_inv_frame:
  assumes "phase_inv s" and "rphase s' = rphase s" and "accepted s' = accepted s" and "readIndex s' = readIndex s"
    and "drained_at s' = drained_at s" and "reported_err s' = reported_err s"
    and "will_wake s \<Longrightarrow> will_wake s'" and "done_ch (buf s) \<Longrightarrow> done_ch (buf s')"
    and "done_ch (buf s) \<Longrightarrow> sb_err (buf s') = sb_err (buf s) \<and> (own_close s' \<longrightarrow> own_close s)"
  shows "phase_inv s'"
  using assms by (cases "rphase s") (auto simp: phase_inv_def seen_or_woken_def drained_ok_def split: if_splits)

lemma phase_inv_step:
  "sb_step m s s' \<Longrightarrow> buf_inv s \<Longrightarrow> close_inv s \<Longrightarrow> phase_inv s \<Longrightarrow> phase_inv s'"
proof (induction rule: sb_step.induct)
  case (append_line i s m)
  then show ?case by (intro phase_inv_append)
next
  case (fetch s d m)
  then show ?case by (intro phase_inv_fetch) simp_all
next
  case (tick s m)
  then show ?case by (intro phase_inv_fetch) simp_all
next
  case (write_chunk s d c cs m)
  have inv: "c # cs = take (length (c # cs)) (drop (readIndex s) (framed (accepted s))) \<and>
      readIndex s + length (c # cs) \<le> length (accepted s) \<and>
      (if d then drained_ok s \<and> drained_at s = readIndex s + length (c # cs)
       else seen_or_woken (readIndex s + length (c # cs)) s)"
    using write_chunk(4) unfolding phase_inv_def write_chunk(1) relay_phase.case .
  have "Suc (readIndex s + length cs) \<le> length (accepted s)"
    using inv [THEN conjunct2, THEN conjunct1] by simp
  moreover have "if d then drained_ok s \<and> drained_at s = Suc (readIndex s + length cs)
     else seen_or_woken (Suc (readIndex s + length cs)) s"
    using inv [THEN conjunct2, THEN conjunct2] by (cases d) simp_all
  moreover have "cs = take (length cs) (drop (Suc (readIndex s)) (framed (accepted s)))"
    using writing_D(3) [OF write_chunk(4,1)] .
  ultimately show ?case
    by (cases d) (auto simp: phase_inv_def relay_write_def seen_or_woken_def drained_ok_def will_wake_def)
next
  case (written_all s d m)
  then show ?case by (auto simp: phase_inv_def seen_or_woken_def drained_ok_def will_wake_def split: if_splits)
next
  case (check_prune s m)
  then show ?case by (auto simp: phase_inv_def relay_check_def seen_or_woken_def will_wake_def)
next
  case (prune s d m)
  then show ?case
    by (auto simp: phase_inv_def relay_prune_def seen_or_woken_def will_wake_def drained_ok_def Prune_def
        InvalidateCache_def split: if_splits)
next
  case (drain_ends s m)
  then show ?case by (auto simp: phase_inv_def relay_end_def drained_ok_def Err_def)
next
  case (wake s m)
  then show ?case by (simp add: phase_inv_def)
next
  case (see_done s m)
  then show ?case by (simp add: phase_inv_def)
next
  case (client_gone s m)
  then show ?case by (simp add: phase_inv_def)
next
  case (write_fails s d c cs m n)
  then show ?case by (simp add: phase_inv_def)
next
  case (send_signal s m)
  show ?case using send_signal(4) by (rule phase_inv_frame) (auto simp: will_wake_def signal_def)
next
  case (reserve_line i s ok b m)
  show ?case using reserve_line(6)
    by (rule phase_inv_frame) (use reserve_line(3) in \<open>auto simp: will_wake_def add_reserve_def Let_def split: if_splits\<close>)
next
  case (raw_capture m s)
  show ?case using raw_capture(3) by (rule phase_inv_frame) (auto simp: will_wake_def)
next
  case (check_ok s m line)
  show ?case using check_ok(4) by (rule phase_inv_frame) (auto simp: will_wake_def)
next
  case (writer_closes s b m e)
  show ?case using writer_closes(7)
    by (rule phase_inv_frame)
      (use writer_closes(4,6) in \<open>auto simp: will_wake_def close_mark_def close_inv_def split: if_splits\<close>)
next
  case (cancel_closes s b m e)
  show ?case using cancel_closes(4)
    by (rule phase_inv_frame) (use cancel_closes(1) in \<open>auto simp: will_wake_def close_mark_def split: if_splits\<close>)
next
  case (close_records s e m)
  show ?case using close_records(4)
    by (rule phase_inv_frame)
      (use close_records(1,3) in \<open>auto simp: will_wake_def close_err_def InvalidateCache_def close_inv_def\<close>)
next
  case (close_signals s m)
  show ?case using close_signals(4) by (rule phase_inv_frame) (auto simp: will_wake_def signal_def)
next
  case (close_ends s m)
  show ?case using close_ends(4) by (rule phase_inv_frame) (auto simp: will_wake_def close_done_def)
qed

definition sys_inv :: "sys \<Rightarrow> bool" where
  "sys_inv s \<longleftrightarrow> buf_inv s \<and> close_inv s \<and> phase_inv s \<and> written_inv s"

lemma sb_reach_inv: "sb_reach m limit s \<Longrightarrow> sys_inv s"
proof (induction rule: sb_reach.induct)
  case (sb_start m limit)
  then show ?case
    by (simp add: sys_inv_def buf_inv_def close_inv_def phase_inv_def written_inv_def sys_init_def newStreamBuffer_def
        defaultMaxBufferBytes_def cache_ok_def framed_def fits64_def Let_def)
next
  case (sb_next m limit s s')
  then show ?case
    using buf_inv_step close_inv_step phase_inv_step written_inv_step by (simp add: sys_inv_def)
qed

section \<open>Whole operations as interleavings\<close>

text \<open>
  One call of \<open>Add\<close> without interruption, one of \<open>Close\<close> by the writer, and one turn of the relay that
  nobody disturbs are among the interleavings.
\<close>

definition sys_add :: "bytes \<Rightarrow> sys \<Rightarrow> sys" where
  "sys_add line s = s\<lparr>buf := snd (Add line (buf s)), accepted := accepted s @ [line]\<rparr>"

definition sys_close :: "string option \<Rightarrow> sys \<Rightarrow> sys" where
  "sys_close e s = s\<lparr>buf := Close e (buf s), closing_at := ClosedCh, own_close := True\<rparr>"

definition sys_turn :: "bool \<Rightarrow> sys \<Rightarrow> sys" where
  "sys_turn d s =
     (let cs = fst (GetChunksFrom (readIndex s) (buf s)); s1 = relay_fetch d s
      in s1\<lparr>written := written s @ concat cs, readIndex := readIndex s + length cs, rphase := Writing d []\<rparr>)"

lemma write_run:
  "sb_reach m limit s \<Longrightarrow> rphase s = Writing d cs \<Longrightarrow>
   sb_reach m limit (s\<lparr>written := written s @ concat cs, readIndex := readIndex s + length cs, rphase := Writing d []\<rparr>)"
proof (induction cs arbitrary: s)
  case Nil
  then show ?case by (cases s) simp
next
  case (Cons c cs)
  have "sb_reach m limit (relay_write d c cs s)" using Cons.prems write_chunk sb_next by blast
  from Cons.IH [OF this] show ?case by (simp add: relay_write_def)
qed

lemma turn_run: "sb_reach m limit s \<Longrightarrow> rphase s = Fetching d \<Longrightarrow> sb_reach m limit (sys_turn d s)"
  using write_run [of m limit "relay_fetch d s" d "fst (GetChunksFrom (readIndex s) (buf s))"]
    sb_next [OF _ fetch [of s d m]]
  by (simp add: sys_turn_def relay_fetch_def Let_def)

lemma add_run:
  assumes "sb_reach m limit s" and "checked_lines s = []" and "reserved s = []" and "unsignalled s = 0"
    and "fits64 (totalLen (buf s) + chunkSize line)" and "fst (Add line (buf s))"
  shows "sb_reach m limit (sys_add line s)"
proof -
  have c: "add_check (buf s)" using assms(6) by (simp add: Add_def split: if_splits)
  obtain b where b: "add_reserve line (buf s) = (True, b)" "snd (Add line (buf s)) = signal (add_append line b)"
    using assms(6) c by (auto simp: Add_def split: prod.splits if_splits)
  have "sb_reach m limit (s\<lparr>checked_lines := [line]\<rparr>)"
    using sb_next [OF assms(1) check_ok [OF c, of m line]] assms(2) by simp
  from sb_next [OF this reserve_line [of 0 _ True b]]
  have "sb_reach m limit (s\<lparr>buf := b, checked_lines := [], reserved := [line]\<rparr>)"
    using b(1) assms(3,5) by (cases s) (simp add: remove_nth_def)
  from sb_next [OF this append_line [of 0]]
  have "sb_reach m limit (s\<lparr>buf := add_append line b, checked_lines := [], reserved := [], unsignalled := 1,
      accepted := accepted s @ [line]\<rparr>)"
    using assms(4) by (cases s) (simp add: remove_nth_def)
  from sb_next [OF this send_signal] have "sb_reach m limit (s\<lparr>buf := signal (add_append line b),
      checked_lines := [], reserved := [], unsignalled := 0, accepted := accepted s @ [line]\<rparr>)"
    by (cases s) simp
  moreover have "s\<lparr>buf := signal (add_append line b),
      checked_lines := [], reserved := [], unsignalled := 0, accepted := accepted s @ [line]\<rparr> = sys_add line s"
    using assms(2-4) b(2) by (cases s) (simp add: sys_add_def)
  ultimately show ?thesis by simp
qed

lemma close_run:
  assumes "sb_reach m limit s" and "checked_lines s = []" and "reserved s = []" and "unsignalled s = 0"
    and "\<not> completed (buf s)"
  shows "sb_reach m limit (sys_close e s)"
proof -
  let ?b = "(buf s)\<lparr>completed := True\<rparr>"
  have "close_mark (buf s) = (True, ?b)" using assms(5) by (simp add: close_mark_def)
  from sb_next [OF assms(1) writer_closes [OF assms(2-4) this, of m e]]
  have "sb_reach m limit (s\<lparr>buf := ?b, closing_at := Marked e, own_close := True\<rparr>)" .
  from sb_next [OF this close_records]
  have "sb_reach m limit (s\<lparr>buf := close_err e ?b, closing_at := Recorded, own_close := True\<rparr>)" by (cases s) simp
  from sb_next [OF this close_signals]
  have "sb_reach m limit (s\<lparr>buf := signal (close_err e ?b), closing_at := Signalled, own_close := True\<rparr>)" by (cases s) simp
  from sb_next [OF this close_ends]
  show ?thesis using assms(5) by (cases s) (simp add: sys_close_def Close_def close_mark_def)
qed

section \<open>Properties\<close>

lemma framed_take: "take k (framed ls) = framed (take k ls)"
  by (simp add: framed_def take_map)

lemma concat_take_prefix: "\<exists>n. concat (take i xss) = take n (concat xss)"
  by (intro exI [of _ "length (concat (take i xss))"]) (metis append_eq_conv_conj append_take_drop_id concat_append)

lemma sum_length_framed: "int (length (concat (framed ls))) = size_of ls"
  by (induction ls) (simp_all add: framed_def chunkSize_def)

lemma length_raw_le:
  "chunks sb = replicate k None @ map Some (drop k fs) \<Longrightarrow> length (GetAllRawBytes sb) \<le> length (concat fs)"
  by (metis GetAllRawBytes_def append_take_drop_id concat_append length_append le_add2
      live_pruned(1,2) live_simps(4) append_Nil)

text \<open>
  C33: the memory bound. Under every interleaving of any number of writers, the reader, \<open>Close\<close>
  and captures, the bytes held in the buffer together with the bytes of the writers that have
  been admitted but have not appended yet never exceed \<open>maxBytes\<close>, although a rejected line is
  also added to the byte counter.
\<close>

theorem stream_buffer_bounded:
  assumes "sb_reach m limit s"
  shows "int (length (GetAllRawBytes (buf s))) + size_of (reserved s) \<le> maxBytes (buf s) \<and>
         size_of (accepted s) + size_of (reserved s) \<le> TotalLen (buf s)"
proof -
  have inv: "buf_inv s" using sb_reach_inv [OF assms] by (simp add: sys_inv_def)
  then obtain k where "chunks (buf s) = replicate k None @ map Some (drop k (framed (accepted s)))"
    by (auto simp: buf_inv_def Let_def)
  from length_raw_le [OF this] have "int (length (GetAllRawBytes (buf s))) \<le> size_of (accepted s)"
    using sum_length_framed [of "accepted s"] by linarith
  then show ?thesis using inv by (simp add: buf_inv_def Let_def TotalLen_def)
qed

definition ex_sys1 :: sys where
  "ex_sys1 = (sys_init 4)\<lparr>buf := snd (add_reserve [1, 2] (newStreamBuffer 4)), reserved := [[1, 2]]\<rparr>"

lemma ex_sys1_reach: "sb_reach True 4 ex_sys1"
proof -
  have r: "add_reserve [1, 2] (newStreamBuffer 4) = (True, snd (add_reserve [1, 2] (newStreamBuffer 4)))"
    "fits64 (totalLen (newStreamBuffer 4) + chunkSize [1, 2])" "add_check (newStreamBuffer 4)"
    by code_simp+
  have "sb_reach True 4 ((sys_init 4)\<lparr>checked_lines := [[1, 2]]\<rparr>)"
    using sb_next [OF sb_start check_ok [of "sys_init 4" True "[1, 2]"]] r(3) by (simp add: sys_init_def)
  from sb_next [OF this reserve_line [of 0 _ True]] show ?thesis
    using r(1,2) by (simp add: sys_init_def ex_sys1_def remove_nth_def)
qed

theorem stream_buffer_bounded_witness:
  "int (length (GetAllRawBytes (buf ex_sys1))) + size_of (reserved ex_sys1) \<le> maxBytes (buf ex_sys1)"
  using stream_buffer_bounded [OF ex_sys1_reach] by simp

text \<open>
  C12: the relay delivers every accepted byte at most once, in order, and none is forgotten. In every
  reachable state the bytes written are a prefix of the accepted lines, and, unless the client went away
  in the middle of a write, exactly the first \<open>readIndex\<close> of them, although the relay prunes behind
  itself while writers append. No wake-up is lost: a relay that waits with accepted lines unread has a
  notification pending, a writer that will signal, or the closed \<open>done\<close> channel. A relay that returned
  after its drain has written every line accepted when it fetched for the last time and reported the
  error of the close; when the writer itself closed the buffer, no line is missing. (A cancellation may
  close the buffer between the reservation and the append of a line; that line may then be appended
  after the drain and never written. The hypothesis on \<open>own_close\<close> excludes only that.)
\<close>

theorem relay_exactly_once:
  assumes "sb_reach m limit s"
  shows "(\<exists>n. written s = take n (concat (framed (accepted s)))) \<and>
         (rphase s \<noteq> Stopped \<longrightarrow> written s = concat (take (readIndex s) (framed (accepted s)))) \<and>
         (rphase s = Waiting \<and> readIndex s < length (accepted s) \<longrightarrow>
            notify (buf s) \<or> unsignalled s \<noteq> 0 \<or> done_ch (buf s)) \<and>
         (rphase s = Finished \<longrightarrow>
            written s = concat (framed (take (drained_at s) (accepted s))) \<and> reported_err s = Err (buf s)) \<and>
         (rphase s = Finished \<and> own_close s \<longrightarrow>
            written s = concat (framed (accepted s)) \<and> checked_lines s = [] \<and> reserved s = [])"
proof -
  have inv: "buf_inv s" "close_inv s" "phase_inv s" "written_inv s"
    using sb_reach_inv [OF assms] by (simp_all add: sys_inv_def)
  have w: "rphase s \<noteq> Stopped \<longrightarrow> written s = concat (take (readIndex s) (framed (accepted s)))"
    using inv(4) by (simp add: written_inv_def)
  have p: "\<exists>n. written s = take n (concat (framed (accepted s)))"
    using inv(4) by (cases "rphase s = Stopped") (auto simp: written_inv_def concat_take_prefix)
  have n: "rphase s = Waiting \<and> readIndex s < length (accepted s) \<longrightarrow>
      notify (buf s) \<or> unsignalled s \<noteq> 0 \<or> done_ch (buf s)"
    using inv(3) by (auto simp: phase_inv_def seen_or_woken_def will_wake_def)
  have f: "rphase s = Finished \<longrightarrow> drained_ok s \<and> drained_at s = readIndex s \<and> reported_err s = Err (buf s)"
    using inv(3) by (auto simp: phase_inv_def Err_def)
  have d: "rphase s = Finished \<longrightarrow> written s = concat (framed (take (drained_at s) (accepted s)))"
    using w f by (simp add: framed_take)
  have c: "rphase s = Finished \<and> own_close s \<longrightarrow> written s = concat (framed (accepted s)) \<and>
      checked_lines s = [] \<and> reserved s = []"
    using d f inv(2) by (auto simp: drained_ok_def close_inv_def)
  show ?thesis using p w n f d c by blast
qed

text \<open>One line through the buffer: the writer adds it and closes, the relay reads, drains, prunes, returns.\<close>

definition ex_sys2 :: sys where
  "ex_sys2 = (sys_turn False (sys_close (Some ''EOF'') (sys_add [7] (sys_init 64))))\<lparr>rphase := Checking\<rparr>"

definition ex_sys3 :: sys where
  "ex_sys3 = relay_prune True (relay_end True
     ((sys_turn True ((relay_check True ex_sys2)\<lparr>rphase := Fetching True\<rparr>))\<lparr>rphase := Draining\<rparr>))"

lemma ex_sys2_reach: "sb_reach True 64 ex_sys2"
proof -
  let ?a = "sys_add [7] (sys_init 64)" and ?c = "sys_close (Some ''EOF'') (sys_add [7] (sys_init 64))"
  have "fst (Add [7] (newStreamBuffer 64))" "fits64 (totalLen (newStreamBuffer 64) + chunkSize [7])"
    "\<not> completed (snd (Add [7] (newStreamBuffer 64)))"
    by code_simp+
  then have "sb_reach True 64 ?c"
    using add_run [OF sb_start [of True 64], of "[7]"] close_run [of True 64 ?a]
    by (simp add: sys_add_def sys_init_def)
  moreover have "rphase ?c = Fetching False" by (simp add: sys_close_def sys_add_def sys_init_def)
  ultimately have "sb_reach True 64 (sys_turn False ?c)" by (rule turn_run)
  from sb_next [OF this written_all [of _ False]] show ?thesis
    by (simp add: ex_sys2_def sys_turn_def Let_def)
qed

lemma ex_sys3_reach: "sb_reach True 64 ex_sys3"
proof -
  have q: "rphase ex_sys2 = Checking" "rphase (relay_check True ex_sys2) = Waiting"
    "done_ch (buf (relay_check True ex_sys2))"
    by code_simp+
  let ?w = "(relay_check True ex_sys2)\<lparr>rphase := Fetching True\<rparr>"
  have "sb_reach True 64 (relay_check True ex_sys2)" using ex_sys2_reach check_prune [OF q(1)] by (rule sb_next)
  then have "sb_reach True 64 ?w" using see_done [OF q(2,3)] by (rule sb_next)
  then have "sb_reach True 64 (sys_turn True ?w)" by (rule turn_run) simp
  from sb_next [OF this written_all [of _ True]]
  have "sb_reach True 64 ((sys_turn True ?w)\<lparr>rphase := Draining\<rparr>)" by (simp add: sys_turn_def Let_def)
  from sb_next [OF this drain_ends]
  have "sb_reach True 64 (relay_end True ((sys_turn True ?w)\<lparr>rphase := Draining\<rparr>))" by simp
  from sb_next [OF this prune [of _ True]] show ?thesis by (simp add: ex_sys3_def relay_end_def)
qed

theorem relay_exactly_once_witness:
  "rphase ex_sys3 = Finished \<and> written ex_sys3 = concat (framed (accepted ex_sys3)) \<and>
   written ex_sys3 = [7, 10] \<and> reported_err ex_sys3 = Some ''EOF''"
proof -
  have "rphase ex_sys3 = Finished \<and> own_close ex_sys3" "reported_err ex_sys3 = Some ''EOF''" "accepted ex_sys3 = [[7]]"
    by code_simp+
  moreover from this(1) have "written ex_sys3 = concat (framed (accepted ex_sys3))"
    using relay_exactly_once [OF ex_sys3_reach] by blast
  ultimately show ?thesis by (simp add: framed_def newline_def)
qed

text \<open>
  The capture cache is never stale: in every reachable state \<open>GetAllRawBytesOnce\<close> returns
  what \<open>GetAllRawBytes\<close> would compute, and a second call returns the same bytes.
\<close>

theorem raw_cache_coherent:
  assumes "sb_reach m limit s"
  shows "fst (GetAllRawBytesOnce (buf s)) = GetAllRawBytes (buf s) \<and>
         fst (GetAllRawBytesOnce (snd (GetAllRawBytesOnce (buf s)))) = GetAllRawBytes (buf s)"
proof -
  have "cache_ok (buf s)" using sb_reach_inv [OF assms] by (simp add: sys_inv_def buf_inv_def Let_def)
  then show ?thesis
    by (auto simp: cache_ok_def GetAllRawBytesOnce_def GetAllRawBytes_def split: option.splits)
qed

theorem raw_cache_coherent_witness:
  "fst (GetAllRawBytesOnce (buf ex_sys1)) = GetAllRawBytes (buf ex_sys1)"
  using raw_cache_coherent [OF ex_sys1_reach] by simp

lemma add_all_snoc:
  "add_all (ls @ [l]) sb = (case Add l (snd (add_all ls sb)) of (ok, b) \<Rightarrow> (fst (add_all ls sb) @ [ok], b))"
  by (simp add: add_all_def case_prod_beta)

lemma size_of_take_le: "size_of (take k ls) \<le> size_of ls"
  by (metis append_take_drop_id size_of_nonneg size_of_simps(3) le_add_same_cancel1)

lemma add_all_prefix:
  assumes "fits64 (size_of ls)"
  shows "\<exists>k \<le> length ls.
     fst (add_all ls (newStreamBuffer m)) = replicate k True @ replicate (length ls - k) False \<and>
     chunks (snd (add_all ls (newStreamBuffer m))) = map Some (take k (framed ls)) \<and>
     (k < length ls \<longrightarrow> maxBytes (newStreamBuffer m) < size_of ls) \<and>
     overflow (snd (add_all ls (newStreamBuffer m))) = (k < length ls) \<and>
     size_of (take k ls) \<le> maxBytes (newStreamBuffer m) \<and>
     totalLen (snd (add_all ls (newStreamBuffer m))) = size_of ls \<and>
     maxBytes (snd (add_all ls (newStreamBuffer m))) = maxBytes (newStreamBuffer m) \<and>
     \<not> completed (snd (add_all ls (newStreamBuffer m)))"
  using assms
proof (induction ls rule: rev_induct)
  case Nil
  then show ?case by (simp add: add_all_def newStreamBuffer_def defaultMaxBufferBytes_def)
next
  case (snoc l ls)
  let ?sb = "snd (add_all ls (newStreamBuffer m))"
  let ?max = "maxBytes (newStreamBuffer m)"
  have c: "0 < chunkSize l" by (simp add: chunkSize_def)
  have "fits64 (size_of ls)"
    using snoc.prems c by (intro fits64_mono [OF _ _ snoc.prems]) auto
  from snoc.IH [OF this] obtain k where k: "k \<le> length ls"
      "fst (add_all ls (newStreamBuffer m)) = replicate k True @ replicate (length ls - k) False"
      "chunks ?sb = map Some (take k (framed ls))" "k < length ls \<longrightarrow> ?max < size_of ls"
      "overflow ?sb = (k < length ls)" "size_of (take k ls) \<le> ?max" "totalLen ?sb = size_of ls"
      "maxBytes ?sb = ?max" "\<not> completed ?sb"
    by blast
  have w: "wrap64 (size_of ls + chunkSize l) = size_of ls + chunkSize l" using snoc.prems by simp
  show ?case
  proof (cases "size_of ls + chunkSize l \<le> ?max")
    case True
    then have kk: "k = length ls" using k(1,4) c by linarith
    have a: "Add l ?sb = (True, signal (add_append l (?sb\<lparr>totalLen := size_of ls + chunkSize l\<rparr>)))"
      using k True w by (simp add: Add_def add_check_def add_reserve_def Let_def)
    show ?thesis
      by (rule exI [of _ "Suc (length ls)"])
        (use k kk True in \<open>simp add: add_all_snoc a signal_def add_append_def InvalidateCache_def framed_snoc
          replicate_append_same\<close>)
  next
    case False
    have a: "Add l ?sb = (False, ?sb\<lparr>totalLen := size_of ls + chunkSize l, overflow := True\<rparr>)"
      using k False w by (simp add: Add_def add_check_def add_reserve_def Let_def)
    show ?thesis
      by (rule exI [of _ k])
        (use k False in \<open>simp add: add_all_snoc a framed_snoc Suc_diff_le replicate_append_same [symmetric]\<close>)
  qed
qed

text \<open>
  Overflow never leaves a hole. Of any sequence of lines offered to a fresh buffer, exactly a
  prefix is accepted: once one line is rejected every later one is, even if it would fit, and the
  buffer holds the concatenation of the accepted prefix with newlines.
\<close>

theorem overflow_keeps_prefix:
  assumes "fits64 (size_of ls)"
  shows "\<exists>k \<le> length ls.
     fst (add_all ls (newStreamBuffer m)) = replicate k True @ replicate (length ls - k) False \<and>
     GetAllRawBytes (snd (add_all ls (newStreamBuffer m))) = concat (framed (take k ls)) \<and>
     overflow (snd (add_all ls (newStreamBuffer m))) = (k < length ls)"
proof -
  obtain k where "k \<le> length ls"
      "fst (add_all ls (newStreamBuffer m)) = replicate k True @ replicate (length ls - k) False"
      "chunks (snd (add_all ls (newStreamBuffer m))) = map Some (take k (framed ls))"
      "overflow (snd (add_all ls (newStreamBuffer m))) = (k < length ls)"
    using add_all_prefix [OF assms, of m] by blast
  then show ?thesis by (intro exI [of _ k]) (simp add: GetAllRawBytes_def framed_take)
qed

theorem overflow_keeps_prefix_witness:
  "\<exists>k \<le> 3. fst (add_all [[1], [1, 2, 3], []] (newStreamBuffer 4)) = replicate k True @ replicate (3 - k) False"
proof -
  have "fits64 (size_of [[1], [1, 2, 3], []])" by code_simp
  from overflow_keeps_prefix [OF this, of 4] obtain k where
    "k \<le> length [[1::8 word], [1, 2, 3], []]"
    "fst (add_all [[1], [1, 2, 3], []] (newStreamBuffer 4)) =
       replicate k True @ replicate (length [[1::8 word], [1, 2, 3], []] - k) False"
    by blast
  then show ?thesis by (intro exI [of _ k]) (simp add: numeral_3_eq_3)
qed

end
