(* ===== verification/RaceRequest.thy ===== *)
theory RaceRequest
  imports ProviderErrors StreamBuffer
begin

text \<open>
  One attempt against an upstream (\<open>pkg/proxy/race_request.go\<close>). The record has the fields that
  the coordinator reads and writes; each method that changes the attempt is one definition. The
  clock is an argument. Contexts, response bodies and the once-guard of \<open>Cancel\<close> appear as the
  flag \<open>cancelled\<close>: the guarded body runs when the flag is not set yet.
\<close>

section \<open>Data\<close>

datatype upstreamModelType = modelTypeMain | modelTypeSecond | modelTypeFallback | modelTypeCredFailover

datatype upstreamStatus = statusPending | statusRunning | statusStreaming | statusCompleted | statusFailed

record TokenUsage =
  PromptTokens :: int
  CompletionTokens :: int
  TotalTokens :: int

record upstreamRequest =
  rid :: nat
  modelType :: upstreamModelType
  modelID :: string
  buffer :: "streamBuffer option"
  status :: upstreamStatus
  req_err :: "go_error option"
  resolvedCredentialID :: string
  reselectedCredentialID :: string
  cancelled :: bool
  startTime :: time
  firstByteTime :: time
  completionTime :: time
  lastActivityTime :: time
  usage :: "TokenUsage option"
  httpStatusCode :: int
  useSecondaryUpstream :: bool

definition newUpstreamRequest :: "nat \<Rightarrow> upstreamModelType \<Rightarrow> string \<Rightarrow> int \<Rightarrow> upstreamRequest" where
  "newUpstreamRequest i mType mID maxBuffer =
     \<lparr>rid = i, modelType = mType, modelID = mID, buffer = Some (newStreamBuffer maxBuffer),
      status = statusPending, req_err = None, resolvedCredentialID = '''', reselectedCredentialID = '''',
      cancelled = False, startTime = 0, firstByteTime = 0, completionTime = 0, lastActivityTime = 0,
      usage = None, httpStatusCode = 0, useSecondaryUpstream = False\<rparr>"

section \<open>Transitions\<close>

definition MarkStarted :: "time \<Rightarrow> upstreamRequest \<Rightarrow> upstreamRequest" where
  "MarkStarted now r = r\<lparr>status := statusRunning, startTime := now\<rparr>"

definition MarkStreaming :: "time \<Rightarrow> upstreamRequest \<Rightarrow> upstreamRequest" where
  "MarkStreaming now r = r\<lparr>status := statusStreaming, firstByteTime := now, lastActivityTime := now\<rparr>"

definition MarkCompleted :: "time \<Rightarrow> upstreamRequest \<Rightarrow> upstreamRequest" where
  "MarkCompleted now r =
     r\<lparr>status := statusCompleted, completionTime := now, buffer := map_option (Close None) (buffer r)\<rparr>"

definition MarkFailed :: "time \<Rightarrow> go_error \<Rightarrow> upstreamRequest \<Rightarrow> upstreamRequest" where
  "MarkFailed now e r =
     r\<lparr>status := statusFailed, req_err := Some e, completionTime := now,
       buffer := map_option (Close (Some (err_text e))) (buffer r)\<rparr>"

definition cleanup :: "upstreamRequest \<Rightarrow> upstreamRequest" where
  "cleanup r = r\<lparr>buffer := None\<rparr>"

definition Cancel :: "upstreamRequest \<Rightarrow> upstreamRequest" where
  "Cancel r = (if cancelled r then r else cleanup (r\<lparr>cancelled := True\<rparr>))"

definition TrackActivity :: "time \<Rightarrow> upstreamRequest \<Rightarrow> upstreamRequest" where
  "TrackActivity now r = r\<lparr>lastActivityTime := now\<rparr>"

definition SetUsage :: "TokenUsage option \<Rightarrow> upstreamRequest \<Rightarrow> upstreamRequest" where
  "SetUsage u r = r\<lparr>usage := u\<rparr>"

definition SetHTTPStatus :: "int \<Rightarrow> upstreamRequest \<Rightarrow> upstreamRequest" where
  "SetHTTPStatus c r = r\<lparr>httpStatusCode := c\<rparr>"

definition SetUseSecondaryUpstream :: "bool \<Rightarrow> upstreamRequest \<Rightarrow> upstreamRequest" where
  "SetUseSecondaryUpstream v r = r\<lparr>useSecondaryUpstream := v\<rparr>"

section \<open>Queries\<close>

definition IsDone :: "upstreamRequest \<Rightarrow> bool" where
  "IsDone r \<longleftrightarrow> status r = statusCompleted \<or> status r = statusFailed"

definition IsCompleted :: "upstreamRequest \<Rightarrow> bool" where
  "IsCompleted r \<longleftrightarrow> status r = statusCompleted"

definition IsStreaming :: "upstreamRequest \<Rightarrow> bool" where
  "IsStreaming r \<longleftrightarrow> status r = statusStreaming"

definition IsIdle :: "time \<Rightarrow> duration \<Rightarrow> upstreamRequest \<Rightarrow> bool" where
  "IsIdle now idleTimeout r \<longleftrightarrow> status r = statusStreaming \<and> now - lastActivityTime r > idleTimeout"

text \<open>\<open>GetBuffer().TotalLen()\<close>: a released buffer is nil and has length 0.\<close>

definition buffer_len :: "upstreamRequest \<Rightarrow> int" where
  "buffer_len r = (case buffer r of None \<Rightarrow> 0 | Some b \<Rightarrow> TotalLen b)"

section \<open>What the executor does to an attempt\<close>

text \<open>
  The executor goroutine of an attempt starts it, resolves its credential, streams lines into the
  buffer and ends it once. Its steps are the environment of the coordinator.
\<close>

inductive exec_step :: "upstreamRequest \<Rightarrow> upstreamRequest \<Rightarrow> bool" where
  ex_start: "status r = statusPending \<Longrightarrow> exec_step r (MarkStarted now r)"
| ex_resolve: "\<not> IsDone r \<Longrightarrow> exec_step r (r\<lparr>resolvedCredentialID := c\<rparr>)"
| ex_http: "\<not> IsDone r \<Longrightarrow> exec_step r (SetHTTPStatus code r)"
| ex_stream: "status r = statusRunning \<Longrightarrow> exec_step r (MarkStreaming now r)"
| ex_add: "\<not> IsDone r \<Longrightarrow> exec_step r (r\<lparr>buffer := map_option (\<lambda>b. snd (Add line b)) (buffer r)\<rparr>)"
| ex_track: "\<not> IsDone r \<Longrightarrow> exec_step r (TrackActivity now r)"
| ex_usage: "\<not> IsDone r \<Longrightarrow> exec_step r (SetUsage u r)"
| ex_complete: "\<not> IsDone r \<Longrightarrow> exec_step r (MarkCompleted now r)"
| ex_fail: "\<not> IsDone r \<Longrightarrow> exec_step r (MarkFailed now e r)"

definition req_inv :: "upstreamRequest \<Rightarrow> bool" where
  "req_inv r \<longleftrightarrow>
     (req_err r \<noteq> None \<longleftrightarrow> status r = statusFailed) \<and>
     (cancelled r \<longrightarrow> buffer r = None) \<and>
     (\<forall>b. buffer r = Some b \<longrightarrow> (completed b \<longleftrightarrow> IsDone r))"

lemmas req_defs = MarkStarted_def MarkStreaming_def MarkCompleted_def MarkFailed_def TrackActivity_def
  SetUsage_def SetHTTPStatus_def SetUseSecondaryUpstream_def Cancel_def cleanup_def

lemma exec_step_static:
  "exec_step r r' \<Longrightarrow> rid r' = rid r \<and> modelType r' = modelType r \<and> modelID r' = modelID r \<and>
     reselectedCredentialID r' = reselectedCredentialID r \<and> cancelled r' = cancelled r"
  by (induction rule: exec_step.induct) (simp_all add: req_defs)

lemma Cancel_static:
  "rid (Cancel r) = rid r" "modelType (Cancel r) = modelType r" "modelID (Cancel r) = modelID r"
  "reselectedCredentialID (Cancel r) = reselectedCredentialID r" "status (Cancel r) = status r"
  "req_err (Cancel r) = req_err r"
  by (simp_all add: Cancel_def cleanup_def)

lemma completed_Add: "completed (snd (Add line b)) = completed b"
  by (auto simp: Add_def add_check_def add_reserve_def add_append_def InvalidateCache_def signal_def Let_def)

lemma completed_Close: "completed (Close e b)"
  by (simp add: Close_def close_mark_def close_err_def close_done_def signal_def InvalidateCache_def)

lemma req_inv_new: "req_inv (newUpstreamRequest i t m n)"
  by (simp add: req_inv_def newUpstreamRequest_def newStreamBuffer_def IsDone_def)

lemma exec_step_req_inv: "exec_step r r' \<Longrightarrow> req_inv r \<Longrightarrow> req_inv r'"
  by (induction rule: exec_step.induct)
    (auto simp: req_inv_def req_defs IsDone_def completed_Add completed_Close)

lemma Cancel_req_inv: "req_inv r \<Longrightarrow> req_inv (Cancel r)"
  by (auto simp: req_inv_def Cancel_def cleanup_def IsDone_def)

section \<open>Histories of an attempt\<close>

inductive attempt_reach :: "upstreamRequest \<Rightarrow> bool" where
  at_new: "attempt_reach (newUpstreamRequest i t m n)"
| at_exec: "attempt_reach r \<Longrightarrow> exec_step r r' \<Longrightarrow> attempt_reach r'"
| at_cancel: "attempt_reach r \<Longrightarrow> attempt_reach (Cancel r)"

lemma attempt_reach_inv: "attempt_reach r \<Longrightarrow> req_inv r"
  by (induction rule: attempt_reach.induct) (auto simp: req_inv_new Cancel_req_inv exec_step_req_inv)

text \<open>
  An attempt ends once and for good, and its buffer ends with it. In every history of
  executor steps and cancellations an attempt carries an error exactly when it has failed, its
  unreleased buffer is closed exactly when it is done, a cancelled attempt has released its buffer,
  and \<open>Cancel\<close> is idempotent and does not change how the attempt ended.
\<close>

theorem attempt_lifecycle:
  assumes "attempt_reach r"
  shows "(req_err r \<noteq> None \<longleftrightarrow> status r = statusFailed) \<and>
         (case buffer r of None \<Rightarrow> True | Some b \<Rightarrow> completed b = IsDone r) \<and>
         buffer (Cancel r) = None \<and> Cancel (Cancel r) = Cancel r \<and>
         status (Cancel r) = status r \<and> req_err (Cancel r) = req_err r"
  using attempt_reach_inv [OF assms]
  by (auto simp: req_inv_def Cancel_def cleanup_def split: option.splits)

theorem attempt_lifecycle_witness:
  "buffer (Cancel (MarkFailed 5 ex_429 (newUpstreamRequest 0 modelTypeMain ''m'' 0))) = None"
proof -
  have "\<not> IsDone (newUpstreamRequest 0 modelTypeMain ''m'' 0)" by code_simp
  then have "attempt_reach (MarkFailed 5 ex_429 (newUpstreamRequest 0 modelTypeMain ''m'' 0))"
    by (intro at_exec [OF at_new ex_fail])
  from attempt_lifecycle [OF this] show ?thesis by blast
qed

end
