(* ===== verification/RaceCoordinator.thy ===== *)
theory RaceCoordinator
  imports RaceRequest
begin

text \<open>
  The race of upstream attempts for one client request (\<open>pkg/proxy/race_coordinator.go\<close>). The
  coordinator's fields are a record, one turn of the \<open>manage\<close> loop is \<open>manage_tick\<close>, and the other
  arms of its \<open>select\<close> are \<open>handleStreamingDeadline\<close>, \<open>handleHardDeadline\<close> and \<open>ctx_done\<close>. The winner
  pointer is an index into \<open>requests\<close>. The credential engine is the engine of \<open>CredentialLB\<close>. The
  model table (\<open>directGetModel\<close>) is read only for the number of credentials of a model and appears
  as the argument \<open>creds\<close>; \<open>now\<close> and \<open>w\<close> are the clock and the engine's random number. Events and
  log lines are not modelled. The step relation \<open>race_step\<close> interleaves the turns of the loop with the
  steps of the executor goroutines.
\<close>

section \<open>Data\<close>

datatype spawnTrigger = triggerNone | triggerIdleTimeout | triggerMainError | triggerRateLimit | triggerQuota

record spawnTriggerInfo =
  trigger :: spawnTrigger
  failedRequest :: int
  ti_credentialID :: string
  ti_modelID :: string

record FinalErrorInfo =
  HTTPStatus :: int
  fe_ErrorType :: string
  fe_ErrorCode :: string
  fe_Message :: string

record raceConfig =
  RaceMaxParallel :: int
  RaceParallelOnIdle :: bool
  IdleTimeout :: duration
  RaceMaxBufferBytes :: int

record raceCoordinator =
  cfg :: raceConfig
  engine :: "Engine option"
  conversationKey :: string
  requests :: "upstreamRequest list"
  chain :: "string list"
  winner :: "nat option"
  winnerIdx :: int
  race_done :: bool
  streamCh :: bool
  spawnTriggers :: "spawnTriggerInfo list"
  triedCredIDs :: "string set"
  failoverAttempts :: nat
  failoverAttemptsByModel :: "(string, nat) fmap"
  soonestExpiryAttemptedByModel :: "string set"
  streamDeadlineError :: "FinalErrorInfo option"
  liveFirstByteGate :: bool
  idleCheckStart :: time
  loop_exited :: bool

record credFailoverPlan =
  plan_credentialID :: string
  fromCredentialID :: string
  plan_class :: credFailoverClass
  plan_retryAfter :: duration
  plan_cooldown :: duration
  soonestExpiry :: bool

definition triggerForClass :: "credFailoverClass \<Rightarrow> spawnTrigger" where
  "triggerForClass c = (if c = credFailoverQuota then triggerQuota else triggerRateLimit)"

definition newRaceCoordinatorWithEvents ::
  "raceConfig \<Rightarrow> string \<Rightarrow> string list \<Rightarrow> Engine option \<Rightarrow> string \<Rightarrow> bool \<Rightarrow> time \<Rightarrow> raceCoordinator" where
  "newRaceCoordinatorWithEvents conf cfgModel ms e key liveGate now =
     \<lparr>cfg = conf, engine = e, conversationKey = key, requests = [],
      chain = (if ms = [] then [cfgModel] else ms), winner = None, winnerIdx = -1,
      race_done = False, streamCh = False, spawnTriggers = [], triedCredIDs = {},
      failoverAttempts = 0, failoverAttemptsByModel = fmempty, soonestExpiryAttemptedByModel = {},
      streamDeadlineError = None, liveFirstByteGate = liveGate, idleCheckStart = now, loop_exited = False\<rparr>"

section \<open>Spawning\<close>

definition spawn_model :: "upstreamModelType \<Rightarrow> spawnTriggerInfo \<Rightarrow> raceCoordinator \<Rightarrow> string option" where
  "spawn_model mType ti c =
     (let idx = length (requests c); ms = chain c
      in case mType of
           modelTypeMain \<Rightarrow> if length ms \<le> idx then None else Some (ms ! 0)
         | modelTypeSecond \<Rightarrow> if length ms \<le> idx then None else Some (ms ! 0)
         | modelTypeFallback \<Rightarrow>
             if length ms < 2 then None
             else Some (if ti_modelID ti \<noteq> '''' then ti_modelID ti else ms ! 1)
         | modelTypeCredFailover \<Rightarrow>
             if ms = [] then None
             else Some (if ti_modelID ti \<noteq> '''' then ti_modelID ti else ms ! 0))"

definition spawn :: "upstreamModelType \<Rightarrow> spawnTriggerInfo \<Rightarrow> raceCoordinator \<Rightarrow> raceCoordinator" where
  "spawn mType ti c =
     (case spawn_model mType ti c of
        None \<Rightarrow> c
      | Some m \<Rightarrow>
          (let req = newUpstreamRequest (length (requests c)) mType m (RaceMaxBufferBytes (cfg c));
               req = (if mType = modelTypeSecond then SetUseSecondaryUpstream True req else req);
               req = (if mType = modelTypeCredFailover \<and> ti_credentialID ti \<noteq> ''''
                      then req\<lparr>reselectedCredentialID := ti_credentialID ti\<rparr> else req)
           in c\<lparr>requests := requests c @ [req], spawnTriggers := spawnTriggers c @ [ti]\<rparr>))"

definition no_trigger :: spawnTriggerInfo where
  "no_trigger = \<lparr>trigger = triggerNone, failedRequest = -1, ti_credentialID = '''', ti_modelID = ''''\<rparr>"

definition Start :: "raceCoordinator \<Rightarrow> raceCoordinator" where
  "Start c = spawn modelTypeMain no_trigger c"

section \<open>Credential failover\<close>

definition is_model_attempt :: "upstreamRequest \<Rightarrow> bool" where
  "is_model_attempt r \<longleftrightarrow> modelType r \<in> {modelTypeMain, modelTypeSecond, modelTypeFallback}"

definition modelAttemptCountLocked :: "raceCoordinator \<Rightarrow> nat" where
  "modelAttemptCountLocked c = length (filter is_model_attempt (requests c))"

definition attempts_of :: "raceCoordinator \<Rightarrow> string \<Rightarrow> nat" where
  "attempts_of c m = (case fmlookup (failoverAttemptsByModel c) m of None \<Rightarrow> 0 | Some n \<Rightarrow> n)"

definition credFailoverEligibleLocked :: "(string \<Rightarrow> nat option) \<Rightarrow> raceCoordinator \<Rightarrow> bool" where
  "credFailoverEligibleLocked creds c =
     (if engine c = None \<or> requests c = [] then False
      else let latest = last (requests c)
           in if \<not> IsDone latest \<or> req_err latest = None then False
              else if classifyCredFailure (req_err latest) = credFailoverNone then False
              else if winner c \<noteq> None then False
              else case creds (modelID latest) of
                     None \<Rightarrow> False
                   | Some n \<Rightarrow>
                       if n \<le> 1 then False
                       else if modelID latest \<in> soonestExpiryAttemptedByModel c then False
                       else attempts_of c (modelID latest) < n - 1)"

fun advance_loop :: "string list \<Rightarrow> string \<Rightarrow> string option" where
  "advance_loop [] failed = None"
| "advance_loop [m] failed = None"
| "advance_loop (m # m' # ms) failed = (if m = failed then Some m' else advance_loop (m' # ms) failed)"

definition fallbackAdvanceTargetLocked :: "raceCoordinator \<Rightarrow> string \<Rightarrow> string option" where
  "fallbackAdvanceTargetLocked c failed =
     (if length (chain c) < 2 then None else advance_loop (chain c) failed)"

definition req_retryAfter :: "upstreamRequest \<Rightarrow> duration" where
  "req_retryAfter r = (case Option.bind (req_err r) err_provider of None \<Rightarrow> 0 | Some pe \<Rightarrow> RetryAfter pe)"

definition mk_plan :: "raceCoordinator \<Rightarrow> upstreamRequest \<Rightarrow> string \<Rightarrow> bool \<Rightarrow> credFailoverPlan option" where
  "mk_plan c r reselected soonest =
     (let cls = classifyCredFailure (req_err r); fromCred = resolvedCredentialID r
      in if reselected = '''' \<or> reselected = fromCred \<or> reselected \<in> triedCredIDs c then None
         else Some \<lparr>plan_credentialID = reselected, fromCredentialID = fromCred, plan_class = cls,
                    plan_retryAfter = req_retryAfter r,
                    plan_cooldown = effectiveCooldown (engine c) cls (req_retryAfter r),
                    soonestExpiry = soonest\<rparr>)"

text \<open>The plan, with the engine after the call. A panic of the engine has no plan.\<close>

definition credFailoverPlanLocked ::
  "(string \<Rightarrow> nat option) \<Rightarrow> time \<Rightarrow> nat \<Rightarrow> raceCoordinator \<Rightarrow> credFailoverPlan option \<times> Engine option" where
  "credFailoverPlanLocked creds now w c =
     (if \<not> credFailoverEligibleLocked creds c then (None, engine c)
      else let r = last (requests c); cls = classifyCredFailure (req_err r); fromCred = resolvedCredentialID r
           in if fromCred = '''' then (None, engine c)
              else case engine c of
                     None \<Rightarrow> (None, None)
                   | Some e \<Rightarrow>
                       (let (out, e') = ExcludeAndReselectForClass e now w (modelID r) (conversationKey c)
                              fromCred (toEngineClass cls) (req_retryAfter r)
                        in case out of
                             Reselected i ReselectHealthy \<Rightarrow> (mk_plan c r i False, Some e')
                           | Reselected i ReselectSoonestExpiry \<Rightarrow> (mk_plan c r i True, Some e')
                           | Reselected i ReselectNone \<Rightarrow> (None, Some e')
                           | ReselectPanic \<Rightarrow> (None, Some e')))"

section \<open>One turn of the manage loop\<close>

definition cancelAllExcept :: "nat option \<Rightarrow> raceCoordinator \<Rightarrow> raceCoordinator" where
  "cancelAllExcept keep c =
     c\<lparr>requests := map (\<lambda>(i, r). if Some i = keep then r else Cancel r)
                     (zip [0..<length (requests c)] (requests c))\<rparr>"

definition cancelAll :: "raceCoordinator \<Rightarrow> raceCoordinator" where
  "cancelAll c = cancelAllExcept None c"

definition eligible :: "bool \<Rightarrow> upstreamRequest \<Rightarrow> bool" where
  "eligible liveGate r = (if liveGate then req_err r = None \<and> buffer_len r > 0 else IsCompleted r \<and> req_err r = None)"

fun winner_scan :: "bool \<Rightarrow> nat \<Rightarrow> upstreamRequest list \<Rightarrow> raceCoordinator \<Rightarrow> raceCoordinator" where
  "winner_scan liveGate i [] c = c"
| "winner_scan liveGate i (r # rs) c =
     winner_scan liveGate (Suc i) rs
       (if eligible liveGate r \<and> (winner c = None \<or> int i < winnerIdx c)
        then c\<lparr>winner := Some i, winnerIdx := int i, streamCh := True\<rparr> else c)"

definition latest_failed :: "raceCoordinator \<Rightarrow> bool" where
  "latest_failed c \<longleftrightarrow> (let r = last (requests c) in IsDone r \<and> req_err r \<noteq> None)"

definition running :: "raceCoordinator \<Rightarrow> nat" where
  "running c = length (filter (\<lambda>r. \<not> IsDone r) (requests c))"

text \<open>Case 1 of the turn, when there is a plan: spawn on the reselected credential and keep books.\<close>

definition cred_failover_spawn :: "credFailoverPlan \<Rightarrow> raceCoordinator \<Rightarrow> raceCoordinator" where
  "cred_failover_spawn p c =
     (let r = last (requests c); m = modelID r;
          c1 = spawn modelTypeCredFailover
                 \<lparr>trigger = triggerForClass (plan_class p), failedRequest = int (rid r),
                  ti_credentialID = plan_credentialID p, ti_modelID = m\<rparr> c
      in c1\<lparr>failoverAttempts := failoverAttempts c1 + 1,
            triedCredIDs := insert (plan_credentialID p) (triedCredIDs c1),
            failoverAttemptsByModel := fmupd m (attempts_of c1 m + 1) (failoverAttemptsByModel c1),
            soonestExpiryAttemptedByModel :=
              (if soonestExpiry p then insert m (soonestExpiryAttemptedByModel c1)
               else soonestExpiryAttemptedByModel c1)\<rparr>)"

definition main_idle :: "time \<Rightarrow> raceCoordinator \<Rightarrow> bool" where
  "main_idle now c =
     (RaceParallelOnIdle (cfg c) \<and> length (requests c) = 1 \<and>
      (let m = requests c ! 0
       in if status m = statusRunning then now - idleCheckStart c > IdleTimeout (cfg c)
          else IsIdle now (IdleTimeout (cfg c)) m))"

definition idle_spawn :: "raceCoordinator \<Rightarrow> raceCoordinator" where
  "idle_spawn c =
     (let ti = no_trigger\<lparr>trigger := triggerIdleTimeout\<rparr>;
          c1 = spawn modelTypeSecond ti c
      in if length (chain c1) > 1 then spawn modelTypeFallback ti c1 else c1)"

definition error_spawn :: "string \<Rightarrow> raceCoordinator \<Rightarrow> raceCoordinator" where
  "error_spawn target c =
     (if length (chain c) > 1
      then spawn modelTypeFallback
             \<lparr>trigger = triggerMainError, failedRequest = int (rid (last (requests c))),
              ti_credentialID = '''', ti_modelID = target\<rparr> c
      else c)"

text \<open>The spawning part of the turn; the flag says that a credential-failover row was spawned.\<close>

definition spawn_phase ::
  "(string \<Rightarrow> nat option) \<Rightarrow> time \<Rightarrow> nat \<Rightarrow> raceCoordinator \<Rightarrow> bool \<times> raceCoordinator" where
  "spawn_phase creds now w c =
     (let gate = modelAttemptCountLocked c < length (chain c) \<or> credFailoverEligibleLocked creds c
      in if \<not> gate \<or> \<not> int (running c) < RaceMaxParallel (cfg c) then (False, c)
         else if latest_failed c then
           (let (plan, e') = credFailoverPlanLocked creds now w c; c1 = c\<lparr>engine := e'\<rparr>
            in case plan of
                 Some p \<Rightarrow> (True, cred_failover_spawn p c1)
               | None \<Rightarrow>
                   (case fallbackAdvanceTargetLocked c1 (modelID (last (requests c1))) of
                      Some target \<Rightarrow> (False, error_spawn target c1)
                    | None \<Rightarrow> (False, if main_idle now c1 then idle_spawn c1 else c1)))
         else (False, if main_idle now c then idle_spawn c else c))"

definition all_failed :: "raceCoordinator \<Rightarrow> bool" where
  "all_failed c \<longleftrightarrow> list_all (\<lambda>r. IsDone r \<and> req_err r \<noteq> None) (requests c)"

definition manage_tick :: "(string \<Rightarrow> nat option) \<Rightarrow> time \<Rightarrow> nat \<Rightarrow> raceCoordinator \<Rightarrow> raceCoordinator" where
  "manage_tick creds now w c =
     (let c1 = (if winner c = None then winner_scan (liveFirstByteGate c) 0 (requests c) c else c)
      in if winner c1 \<noteq> None then (cancelAllExcept (winner c1) c1)\<lparr>loop_exited := True\<rparr>
         else let n = modelAttemptCountLocked c1; (spawned, c2) = spawn_phase creds now w c1
              in if \<not> spawned \<and> length (chain c2) \<le> n \<and> all_failed c2
                 then c2\<lparr>race_done := True, streamCh := True, loop_exited := True\<rparr>
                 else c2)"

section \<open>The error reported to the client\<close>

text \<open>
  \<open>fmt.Sscanf(text, "upstream returned error: %d", &status)\<close>: the literal must start the text; then
  spaces, an optional sign and decimal digits; no digits or a value outside 64 bits leave 0.
\<close>

definition scan_status :: "string \<Rightarrow> int" where
  "scan_status text =
     (if \<not> HasPrefix text ''upstream returned error: '' then 0
      else let rest = dropWhile (\<lambda>ch. ch = CHR '' '') (TrimPrefix text ''upstream returned error: '');
               neg = HasPrefix rest ''-'';
               body = (if neg \<or> HasPrefix rest ''+'' then tl rest else rest);
               ds = takeWhile isDigit body;
               v = (if neg then - digits_val ds else digits_val ds)
           in if ds = [] \<or> \<not> fits64 v then 0 else v)"

definition text_status :: "string \<Rightarrow> int" where
  "text_status text =
     (let s = (if Contains text ''upstream returned error: '' then scan_status text
               else if Contains text ''idle timeout'' \<or> Contains text ''context'' \<or> Contains text ''timeout'' then 504
               else if Contains text ''buffer limit'' then 413
               else 502)
      in if s = 0 then 502 else s)"

fun common_loop :: "int \<Rightarrow> upstreamRequest list \<Rightarrow> int" where
  "common_loop common [] = common"
| "common_loop common (r # rs) =
     (case req_err r of
        None \<Rightarrow> 0
      | Some e \<Rightarrow>
          (let s = (if httpStatusCode r \<ge> 400 then httpStatusCode r else text_status (err_text e))
           in if common = 0 then common_loop s rs
              else if common \<noteq> s then 0 else common_loop common rs))"

definition getCommonFailureStatusLocked :: "raceCoordinator \<Rightarrow> int" where
  "getCommonFailureStatusLocked c = (if requests c = [] then 0 else common_loop 0 (requests c))"

definition GetCommonFailureStatus :: "raceCoordinator \<Rightarrow> int" where
  "GetCommonFailureStatus c = getCommonFailureStatusLocked c"

definition lastError :: "raceCoordinator \<Rightarrow> go_error option" where
  "lastError c = (let es = List.map_filter req_err (requests c) in if es = [] then None else Some (last es))"

definition status_error :: "bool \<Rightarrow> int \<Rightarrow> string \<Rightarrow> FinalErrorInfo" where
  "status_error rateLimited st msg =
     (if st = 429 then
        (if rateLimited
         then \<lparr>HTTPStatus = st, fe_ErrorType = ''rate_limit'', fe_ErrorCode = ''rate_limit'',
               fe_Message = ''All models rate limited''\<rparr>
         else \<lparr>HTTPStatus = st, fe_ErrorType = ''rate_limit'', fe_ErrorCode = '''', fe_Message = msg\<rparr>)
      else if st = 502 then
        \<lparr>HTTPStatus = st, fe_ErrorType = ''upstream_error'', fe_ErrorCode = ''unavailable'', fe_Message = msg\<rparr>
      else if st = 404 then
        \<lparr>HTTPStatus = st, fe_ErrorType = ''server_error'', fe_ErrorCode = ''model_not_found'', fe_Message = msg\<rparr>
      else if st = 500 then
        \<lparr>HTTPStatus = st, fe_ErrorType = ''server_error'', fe_ErrorCode = '''', fe_Message = msg\<rparr>
      else if st = 503 then
        \<lparr>HTTPStatus = st, fe_ErrorType = ''too_many_requests'', fe_ErrorCode = ''unavailable'', fe_Message = msg\<rparr>
      else if st = 504 then
        \<lparr>HTTPStatus = st, fe_ErrorType = ''upstream_error'', fe_ErrorCode = '''', fe_Message = msg\<rparr>
      else \<lparr>HTTPStatus = 502, fe_ErrorType = ''server_error'', fe_ErrorCode = '''', fe_Message = msg\<rparr>)"

definition getFinalErrorInfoLocked :: "raceCoordinator \<Rightarrow> FinalErrorInfo" where
  "getFinalErrorInfoLocked c =
     (if requests c = [] then
        \<lparr>HTTPStatus = 502, fe_ErrorType = ''server_error'', fe_ErrorCode = '''',
         fe_Message = ''No upstream requests were made''\<rparr>
      else
        (let anyModel429 = list_ex (\<lambda>r. req_err r \<noteq> None \<and> httpStatusCode r = 429) (requests c);
             allModelsExhausted = list_all (\<lambda>r. req_err r \<noteq> None) (requests c);
             hasContextOverflow = list_ex (\<lambda>r. IsContextOverflowError (req_err r)) (requests c)
         in case lastError c of
              None \<Rightarrow> \<lparr>HTTPStatus = 502, fe_ErrorType = ''server_error'', fe_ErrorCode = '''',
                       fe_Message = ''Unknown error''\<rparr>
            | Some e \<Rightarrow>
                if hasContextOverflow
                then \<lparr>HTTPStatus = 400, fe_ErrorType = ''context_length_exceeded'', fe_ErrorCode = '''',
                      fe_Message = err_text e\<rparr>
                else status_error (allModelsExhausted \<and> anyModel429) (getCommonFailureStatusLocked c) (err_text e)))"

definition GetFinalErrorInfo :: "raceCoordinator \<Rightarrow> FinalErrorInfo" where
  "GetFinalErrorInfo c = getFinalErrorInfoLocked c"

section \<open>Deadlines and cancellation\<close>

fun best_loop :: "nat option \<Rightarrow> int \<Rightarrow> nat \<Rightarrow> upstreamRequest list \<Rightarrow> nat option \<times> int" where
  "best_loop best bestLen i [] = (best, bestLen)"
| "best_loop best bestLen i (r # rs) =
     (if \<not> IsDone r \<and> buffer_len r > bestLen then best_loop (Some i) (buffer_len r) (Suc i) rs
      else best_loop best bestLen (Suc i) rs)"

definition deadline_error :: "raceCoordinator \<Rightarrow> raceCoordinator" where
  "deadline_error c =
     cancelAll (c\<lparr>streamDeadlineError :=
         Some ((getFinalErrorInfoLocked c)\<lparr>fe_Message := ''Request timeout - no response received''\<rparr>),
       race_done := True, streamCh := True\<rparr>)"

definition handleStreamingDeadline :: "raceCoordinator \<Rightarrow> raceCoordinator" where
  "handleStreamingDeadline c =
     (if winner c \<noteq> None then c
      else let (best, bestLen) = best_loop None (-1) 0 (requests c)
           in case best of
                None \<Rightarrow> deadline_error c
              | Some i \<Rightarrow>
                  if liveFirstByteGate c \<and> bestLen = 0 then deadline_error c
                  else cancelAllExcept (Some i)
                         (c\<lparr>winner := Some i, winnerIdx := int (rid (requests c ! i)), streamCh := True\<rparr>))"

definition handleHardDeadline :: "raceCoordinator \<Rightarrow> raceCoordinator" where
  "handleHardDeadline c = (cancelAll c)\<lparr>race_done := True, streamCh := True\<rparr>"

definition ctx_done :: "raceCoordinator \<Rightarrow> raceCoordinator" where
  "ctx_done c = (cancelAll c)\<lparr>race_done := True, streamCh := True, loop_exited := True\<rparr>"

definition GetWinner :: "raceCoordinator \<Rightarrow> upstreamRequest option" where
  "GetWinner c = map_option (\<lambda>i. requests c ! i) (winner c)"

section \<open>Reported statuses\<close>

definition status_word :: "upstreamRequest \<Rightarrow> string" where
  "status_word r = (case status r of statusCompleted \<Rightarrow> ''success'' | statusFailed \<Rightarrow> ''failed'' | _ \<Rightarrow> ''not_started'')"

fun status_loop :: "nat \<Rightarrow> upstreamRequest list \<Rightarrow> (string, string) fmap \<Rightarrow> (string, string) fmap" where
  "status_loop credIdx [] m = m"
| "status_loop credIdx (r # rs) m =
     (case modelType r of
        modelTypeMain \<Rightarrow> status_loop credIdx rs (fmupd ''main'' (status_word r) m)
      | modelTypeSecond \<Rightarrow> status_loop credIdx rs (fmupd ''second'' (status_word r) m)
      | modelTypeFallback \<Rightarrow> status_loop credIdx rs (fmupd ''fallback'' (status_word r) m)
      | modelTypeCredFailover \<Rightarrow>
          (let key = ''cred_failover_'' @ show_nat credIdx;
               m1 = fmupd key (status_word r) m;
               m2 = (if reselectedCredentialID r \<noteq> ''''
                     then fmupd (key @ ''_credential'') (reselectedCredentialID r) m1 else m1)
           in status_loop (Suc credIdx) rs m2))"

definition GetRequestStatuses :: "raceCoordinator \<Rightarrow> (string, string) fmap" where
  "GetRequestStatuses c =
     status_loop 0 (requests c)
       (fmupd ''fallback'' ''not_started'' (fmupd ''second'' ''not_started'' (fmupd ''main'' ''not_started'' fmempty)))"

section \<open>Runs\<close>

inductive race_step :: "(string \<Rightarrow> nat option) \<Rightarrow> raceCoordinator \<Rightarrow> raceCoordinator \<Rightarrow> bool" where
  rs_tick: "\<not> loop_exited c \<Longrightarrow> race_step creds c (manage_tick creds now w c)"
| rs_exec: "i < length (requests c) \<Longrightarrow> exec_step (requests c ! i) r \<Longrightarrow>
     race_step creds c (c\<lparr>requests := (requests c)[i := r]\<rparr>)"
| rs_engine: "race_step creds c (c\<lparr>engine := map_option f (engine c)\<rparr>)"
| rs_ctx: "\<not> loop_exited c \<Longrightarrow> race_step creds c (ctx_done c)"
| rs_stream_deadline: "\<not> loop_exited c \<Longrightarrow>
     race_step creds c ((handleStreamingDeadline c)\<lparr>loop_exited := True\<rparr>)"
| rs_hard_deadline: "\<not> loop_exited c \<Longrightarrow>
     race_step creds c ((handleHardDeadline c)\<lparr>loop_exited := True\<rparr>)"

inductive race_reach :: "(string \<Rightarrow> nat option) \<Rightarrow> raceCoordinator \<Rightarrow> bool" where
  rr_start: "m \<noteq> '''' \<Longrightarrow> '''' \<notin> set ms \<Longrightarrow>
     race_reach creds (Start (newRaceCoordinatorWithEvents conf m ms e key liveGate now))"
| rr_step: "race_reach creds c \<Longrightarrow> race_step creds c c' \<Longrightarrow> race_reach creds c'"

section \<open>The invariant of a race\<close>

text \<open>
  The invariant speaks of what never changes about the rows (type, model, reselected credential),
  so that executor steps and cancellations keep it trivially.
\<close>

type_synonym row = "upstreamModelType \<times> string \<times> string"

definition rows :: "raceCoordinator \<Rightarrow> row list" where
  "rows c = map (\<lambda>r. (modelType r, modelID r, reselectedCredentialID r)) (requests c)"

definition row_model :: "row \<Rightarrow> string" where
  "row_model x = fst (snd x)"

definition model_rows :: "row list \<Rightarrow> nat" where
  "model_rows xs = length (filter (\<lambda>x. fst x \<noteq> modelTypeCredFailover) xs)"

definition cred_rows :: "row list \<Rightarrow> row list" where
  "cred_rows xs = filter (\<lambda>x. fst x = modelTypeCredFailover) xs"

definition cred_count :: "row list \<Rightarrow> string \<Rightarrow> nat" where
  "cred_count xs m = length (filter (\<lambda>x. row_model x = m) (cred_rows xs))"

definition cred_ids :: "row list \<Rightarrow> string list" where
  "cred_ids xs = map (\<lambda>x. snd (snd x)) (cred_rows xs)"

definition pos :: "string list \<Rightarrow> string \<Rightarrow> nat" where
  "pos ms m = length (takeWhile (\<lambda>x. x \<noteq> m) ms)"

definition budget :: "(string \<Rightarrow> nat option) \<Rightarrow> string \<Rightarrow> nat" where
  "budget creds m = (case creds m of None \<Rightarrow> 0 | Some n \<Rightarrow> n - 1)"

definition rows_inv ::
  "(string \<Rightarrow> nat option) \<Rightarrow> string list \<Rightarrow> row list \<Rightarrow> (string \<Rightarrow> nat) \<Rightarrow> string set \<Rightarrow> bool" where
  "rows_inv creds ms xs att tried \<longleftrightarrow>
     xs \<noteq> [] \<and> ms \<noteq> [] \<and> '''' \<notin> set ms \<and> row_model ` set xs \<subseteq> set ms \<and>
     pos ms (row_model (last xs)) + 1 \<le> model_rows xs \<and>
     (distinct ms \<longrightarrow> model_rows xs \<le> pos ms (row_model (last xs)) + 2) \<and>
     (length xs = 1 \<longrightarrow> row_model (last xs) = ms ! 0 \<and> model_rows xs = 1) \<and>
     (\<forall>m. cred_count xs m = att m \<and> att m \<le> budget creds m) \<and>
     distinct (cred_ids xs) \<and> set (cred_ids xs) = tried \<and> '''' \<notin> tried"

definition race_inv :: "(string \<Rightarrow> nat option) \<Rightarrow> raceCoordinator \<Rightarrow> bool" where
  "race_inv creds c \<longleftrightarrow>
     rows_inv creds (chain c) (rows c) (attempts_of c) (triedCredIDs c) \<and>
     map rid (requests c) = [0..<length (requests c)] \<and>
     (case winner c of
        None \<Rightarrow> winnerIdx c = -1
      | Some i \<Rightarrow> i < length (requests c) \<and> winnerIdx c = int i \<and> streamCh c)"

definition scanned :: "raceCoordinator \<Rightarrow> raceCoordinator" where
  "scanned c = (if winner c = None then winner_scan (liveFirstByteGate c) 0 (requests c) c else c)"

text \<open>Concrete races for the instances: three credentials, one of them cooling for a long time.\<close>

definition ex_conf :: raceConfig where
  "ex_conf = \<lparr>RaceMaxParallel = 3, RaceParallelOnIdle = True, IdleTimeout = minute, RaceMaxBufferBytes = 0\<rparr>"

definition ex_creds :: "string \<Rightarrow> nat option" where
  "ex_creds m = (if m = ''m1'' then Some 3 else if m = ''m2'' then Some 1 else None)"

definition ex_race_engine :: Engine where
  "ex_race_engine = snd (ExcludeAndReselect (OnModelChanged (NewEngine 0 0 0) ''m1'' ex_refs) 0 0 ''m1'' '''' ''c'' hour)"

definition ex_race :: raceCoordinator where
  "ex_race = Start (newRaceCoordinatorWithEvents ex_conf ''m1'' [''m1'', ''m2''] (Some ex_race_engine) '''' False 0)"

definition ex_race_won :: raceCoordinator where
  "ex_race_won = ex_race\<lparr>requests := (requests ex_race)[0 := MarkCompleted second (requests ex_race ! 0)]\<rparr>"

definition fail_row :: "nat \<Rightarrow> string \<Rightarrow> duration \<Rightarrow> raceCoordinator \<Rightarrow> raceCoordinator" where
  "fail_row i cred ra c =
     (let e = ex_429\<lparr>err_provider := map_option (\<lambda>pe. pe\<lparr>RetryAfter := ra\<rparr>) (err_provider ex_429)\<rparr>;
          c1 = c\<lparr>requests := (requests c)[i := (requests c ! i)\<lparr>resolvedCredentialID := cred\<rparr>]\<rparr>
      in c1\<lparr>requests := (requests c1)[i := MarkFailed 0 e (requests c1 ! i)]\<rparr>)"

definition ex_race1 :: raceCoordinator where
  "ex_race1 = fail_row 0 ''a'' (10 * second) ex_race"

text \<open>A three-model race whose main attempt went idle; all three attempts then failed.\<close>

definition ex_idle_race :: raceCoordinator where
  "ex_idle_race =
     (let c0 = Start (newRaceCoordinatorWithEvents ex_conf ''m1'' [''m1'', ''m2'', ''m3''] (Some ex_race_engine) '''' False 0);
          c1 = c0\<lparr>requests := map (MarkStarted 0) (requests c0)\<rparr>;
          c2 = manage_tick ex_creds (2 * minute) 0 c1
      in fail_row 2 ''x'' 0 (fail_row 1 ''a'' 0 (fail_row 0 ''a'' 0 c2)))"

definition ex_race2 :: raceCoordinator where
  "ex_race2 = fail_row 1 ''b'' minute (manage_tick ex_creds second 0 ex_race1)"

section \<open>Positions in the chain\<close>

lemma advance_loop_Some:
  assumes "advance_loop ms m = Some t"
  shows "t \<in> set ms \<and> pos ms t \<le> pos ms m + 1 \<and> (distinct ms \<longrightarrow> pos ms t = pos ms m + 1) \<and> m \<in> set ms"
  using assms by (induction ms m rule: advance_loop.induct) (auto simp: pos_def split: if_splits)

lemma advance_loop_None:
  assumes "advance_loop ms m = None" and "m \<in> set ms"
  shows "pos ms m + 1 = length ms"
  using assms by (induction ms m rule: advance_loop.induct) (auto simp: pos_def split: if_splits)

lemma pos_less: "m \<in> set ms \<Longrightarrow> pos ms m < length ms"
  by (induction ms) (auto simp: pos_def)

section \<open>Adding a row\<close>

lemma rows_snoc_simps:
  "model_rows (xs @ [(t, m, k)]) = (if t = modelTypeCredFailover then model_rows xs else Suc (model_rows xs))"
  "cred_rows (xs @ [(t, m, k)]) = (if t = modelTypeCredFailover then cred_rows xs @ [(t, m, k)] else cred_rows xs)"
  "cred_count (xs @ [(t, m, k)]) m' = (if t = modelTypeCredFailover \<and> m = m' then Suc (cred_count xs m') else cred_count xs m')"
  "cred_ids (xs @ [(t, m, k)]) = (if t = modelTypeCredFailover then cred_ids xs @ [k] else cred_ids xs)"
  "row_model (t, m, k) = m"
  by (simp_all add: model_rows_def cred_rows_def cred_count_def cred_ids_def row_model_def)

lemma rows_inv_cred:
  assumes "rows_inv creds ms xs att tried" and "k \<noteq> ''''" and "k \<notin> tried"
    and "att m < budget creds m" and "m = row_model (last xs)"
  shows "rows_inv creds ms (xs @ [(modelTypeCredFailover, m, k)]) (att(m := att m + 1)) (insert k tried)"
proof -
  have "row_model (last xs) \<in> row_model ` set xs" using assms(1) by (simp add: rows_inv_def)
  then show ?thesis using assms by (auto simp: rows_inv_def rows_snoc_simps)
qed

lemma rows_inv_model:
  assumes "rows_inv creds ms xs att tried" and "t \<noteq> modelTypeCredFailover" and "m \<in> set ms"
    and "pos ms m \<le> pos ms (row_model (last xs)) + 1"
    and "distinct ms \<Longrightarrow> model_rows xs \<le> pos ms m + 1"
  shows "rows_inv creds ms (xs @ [(t, m, k)]) att tried"
  using assms by (auto simp: rows_inv_def rows_snoc_simps)

lemma rows_inv_advance:
  assumes "rows_inv creds ms xs att tried" and "advance_loop ms (row_model (last xs)) = Some m"
  shows "rows_inv creds ms (xs @ [(modelTypeFallback, m, k)]) att tried"
  using assms advance_loop_Some [OF assms(2)] by (intro rows_inv_model) (auto simp: rows_inv_def)

lemma rows_inv_idle:
  assumes "rows_inv creds ms xs att tried" and "length xs = 1" and "1 < length ms"
  shows "rows_inv creds ms ((xs @ [(modelTypeSecond, ms ! 0, k)]) @ [(modelTypeFallback, ms ! 1, k')]) att tried"
proof -
  obtain a b rest where ms: "ms = a # b # rest" using assms(3) by (cases ms; cases "tl ms") auto
  have m0: "ms ! 0 \<in> set ms" "ms ! 1 \<in> set ms" "pos ms (ms ! 0) = 0" by (simp_all add: ms pos_def)
  have l: "row_model (last xs) = ms ! 0" "model_rows xs = 1"
    using assms(1,2) by (auto simp: rows_inv_def)
  have p1: "pos ms (ms ! 1) \<le> 1" "distinct ms \<Longrightarrow> pos ms (ms ! 1) = 1" by (auto simp: ms pos_def)
  have r1: "rows_inv creds ms (xs @ [(modelTypeSecond, ms ! 0, k)]) att tried"
    using assms(1) m0 l by (intro rows_inv_model) auto
  show ?thesis
    by (rule rows_inv_model [OF r1]) (use m0 l p1 in \<open>auto simp: rows_snoc_simps\<close>)
qed

section \<open>Turns of the loop keep the invariant\<close>

lemma spawn_frame [simp]:
  "engine (spawn t ti c) = engine c" "chain (spawn t ti c) = chain c" "winner (spawn t ti c) = winner c"
  "winnerIdx (spawn t ti c) = winnerIdx c" "streamCh (spawn t ti c) = streamCh c"
  "triedCredIDs (spawn t ti c) = triedCredIDs c" "attempts_of (spawn t ti c) = attempts_of c"
  "failoverAttemptsByModel (spawn t ti c) = failoverAttemptsByModel c" "loop_exited (spawn t ti c) = loop_exited c"
  "cfg (spawn t ti c) = cfg c" "race_done (spawn t ti c) = race_done c"
  by (auto simp: spawn_def Let_def attempts_of_def fun_eq_iff split: option.splits)

lemma rows_spawn:
  assumes "spawn_model t ti c = Some m"
  shows "rows (spawn t ti c) = rows c @ [(t, m, if t = modelTypeCredFailover then ti_credentialID ti else '''')]"
  using assms by (auto simp: spawn_def rows_def Let_def newUpstreamRequest_def SetUseSecondaryUpstream_def)

lemma length_rows [simp]: "length (rows c) = length (requests c)"
  by (simp add: rows_def)

lemma rids_spawn:
  assumes "map rid (requests c) = [0..<length (requests c)]"
  shows "map rid (requests (spawn t ti c)) = [0..<length (requests (spawn t ti c))]"
  using assms by (auto simp: spawn_def Let_def newUpstreamRequest_def SetUseSecondaryUpstream_def split: option.splits)

lemma length_spawn_le: "length (requests c) \<le> length (requests (spawn t ti c))"
  by (auto simp: spawn_def Let_def split: option.splits)

lemma latest_row: "requests c \<noteq> [] \<Longrightarrow> row_model (last (rows c)) = modelID (last (requests c))"
  by (simp add: rows_def last_map row_model_def)

lemma model_rows_count: "modelAttemptCountLocked c = model_rows (rows c)"
proof -
  have "is_model_attempt = (\<lambda>r. modelType r \<noteq> modelTypeCredFailover)"
    by (rule ext, rename_tac r, case_tac "modelType r") (simp_all add: is_model_attempt_def)
  then show ?thesis
    by (simp add: modelAttemptCountLocked_def model_rows_def rows_def filter_map o_def)
qed

lemma race_inv_engine: "race_inv creds (c\<lparr>engine := e\<rparr>) = race_inv creds c"
proof -
  have "attempts_of (c\<lparr>engine := e\<rparr>) = attempts_of c" by (simp add: fun_eq_iff attempts_of_def)
  then show ?thesis by (simp add: race_inv_def rows_def split: option.split)
qed

lemma race_inv_rows_cong:
  assumes "race_inv creds c" and "rows c' = rows c" and "map rid (requests c') = map rid (requests c)"
    and "chain c' = chain c" and "attempts_of c' = attempts_of c" and "triedCredIDs c' = triedCredIDs c"
    and "winner c' = winner c" and "winnerIdx c' = winnerIdx c" and "streamCh c \<longrightarrow> streamCh c'"
  shows "race_inv creds c'"
proof -
  have "length (requests c') = length (requests c)" using assms(2) length_rows by metis
  then show ?thesis using assms by (auto simp: race_inv_def split: option.splits)
qed

lemma race_inv_requests: "race_inv creds c \<Longrightarrow> requests c \<noteq> [] \<and> chain c \<noteq> []"
  using length_rows [of c] by (auto simp: race_inv_def rows_inv_def simp del: length_rows)

lemma spawn_race_inv:
  assumes inv: "race_inv creds c"
    and r: "rows_inv creds (chain c) (rows (spawn t ti c)) (attempts_of c) (triedCredIDs c)"
  shows "race_inv creds (spawn t ti c)"
  using inv r rids_spawn [of c t ti] length_spawn_le [of c t ti]
  by (auto simp: race_inv_def split: option.splits)

lemma plan_facts:
  assumes "credFailoverPlanLocked creds now w c = (Some p, e')"
  shows "credFailoverEligibleLocked creds c" and "plan_credentialID p \<noteq> ''''"
    and "plan_credentialID p \<notin> triedCredIDs c"
    and "plan_credentialID p \<noteq> resolvedCredentialID (last (requests c))"
    and "plan_class p = classifyCredFailure (req_err (last (requests c)))"
  using assms
  by (auto simp: credFailoverPlanLocked_def mk_plan_def Let_def
      split: if_splits option.splits prod.splits reselect_out.splits ReselectMode.splits)

lemma eligible_facts:
  assumes "credFailoverEligibleLocked creds c"
  shows "attempts_of c (modelID (last (requests c))) < budget creds (modelID (last (requests c)))"
    and "classifyCredFailure (req_err (last (requests c))) \<noteq> credFailoverNone"
    and "winner c = None" and "latest_failed c" and "engine c \<noteq> None"
    and "modelID (last (requests c)) \<notin> soonestExpiryAttemptedByModel c"
  using assms
  by (auto simp: credFailoverEligibleLocked_def budget_def latest_failed_def Let_def split: if_splits option.splits)

lemma race_inv_cred_failover:
  assumes inv: "race_inv creds c" and att: "attempts_of c (modelID (last (requests c))) < budget creds (modelID (last (requests c)))"
    and p: "plan_credentialID p \<noteq> ''''" "plan_credentialID p \<notin> triedCredIDs c"
  shows "race_inv creds (cred_failover_spawn p c)"
    and "rows (cred_failover_spawn p c) =
       rows c @ [(modelTypeCredFailover, modelID (last (requests c)), plan_credentialID p)]"
proof -
  let ?m = "modelID (last (requests c))"
  let ?ti = "\<lparr>trigger = triggerForClass (plan_class p), failedRequest = int (rid (last (requests c))),
      ti_credentialID = plan_credentialID p, ti_modelID = ?m\<rparr>"
  let ?c1 = "spawn modelTypeCredFailover ?ti c"
  have ne: "requests c \<noteq> []" "chain c \<noteq> []" using race_inv_requests [OF inv] by auto
  have lm: "row_model (last (rows c)) = ?m" using ne(1) by (rule latest_row)
  have ri: "rows_inv creds (chain c) (rows c) (attempts_of c) (triedCredIDs c)"
    using inv by (simp add: race_inv_def)
  have "last (rows c) \<in> set (rows c)" using ri by (simp add: rows_inv_def)
  moreover have "row_model ` set (rows c) \<subseteq> set (chain c)" using ri by (simp add: rows_inv_def)
  ultimately have "row_model (last (rows c)) \<in> set (chain c)" by blast
  then have "?m \<in> set (chain c)" by (simp only: lm)
  then have mne: "?m \<noteq> ''''" using ri by (auto simp: rows_inv_def)
  then have sm: "spawn_model modelTypeCredFailover ?ti c = Some ?m"
    using ne by (simp add: spawn_model_def Let_def)
  have rws: "rows ?c1 = rows c @ [(modelTypeCredFailover, ?m, plan_credentialID p)]"
    using rows_spawn [OF sm] by simp
  have at: "attempts_of (cred_failover_spawn p c) = (attempts_of c)(?m := attempts_of c ?m + 1)"
    by (auto simp: cred_failover_spawn_def Let_def attempts_of_def fun_eq_iff)
  have rw: "rows (cred_failover_spawn p c) = rows ?c1"
    by (simp add: cred_failover_spawn_def Let_def rows_def)
  show "rows (cred_failover_spawn p c) = rows c @ [(modelTypeCredFailover, ?m, plan_credentialID p)]"
    using rw rws by simp
  have "rows_inv creds (chain c) (rows ?c1) ((attempts_of c)(?m := attempts_of c ?m + 1))
      (insert (plan_credentialID p) (triedCredIDs c))"
    using rows_inv_cred [OF ri p(1,2) att lm [symmetric]] rws by simp
  moreover have "map rid (requests ?c1) = [0..<length (requests ?c1)]"
    using inv rids_spawn by (simp add: race_inv_def)
  moreover have "case winner c of None \<Rightarrow> winnerIdx c = -1
      | Some i \<Rightarrow> i < length (requests ?c1) \<and> winnerIdx c = int i \<and> streamCh c"
    using inv length_spawn_le [of c modelTypeCredFailover ?ti]
    by (auto simp: race_inv_def split: option.splits)
  moreover have fr: "requests (cred_failover_spawn p c) = requests ?c1" "chain (cred_failover_spawn p c) = chain c"
      "winner (cred_failover_spawn p c) = winner c" "winnerIdx (cred_failover_spawn p c) = winnerIdx c"
      "streamCh (cred_failover_spawn p c) = streamCh c"
      "triedCredIDs (cred_failover_spawn p c) = insert (plan_credentialID p) (triedCredIDs c)"
    by (simp_all add: cred_failover_spawn_def Let_def)
  ultimately show "race_inv creds (cred_failover_spawn p c)"
    unfolding race_inv_def rw at fr by simp
qed

lemma race_inv_error_spawn:
  assumes inv: "race_inv creds c"
    and adv: "fallbackAdvanceTargetLocked c (modelID (last (requests c))) = Some target"
  shows "race_inv creds (error_spawn target c)"
    and "rows (error_spawn target c) = rows c @ [(modelTypeFallback, target, '''')]"
proof -
  have l2: "\<not> length (chain c) < 2" and adv': "advance_loop (chain c) (modelID (last (requests c))) = Some target"
    using adv by (auto simp: fallbackAdvanceTargetLocked_def split: if_splits)
  have ri: "rows_inv creds (chain c) (rows c) (attempts_of c) (triedCredIDs c)"
    using inv by (simp add: race_inv_def)
  have "target \<noteq> ''''" using advance_loop_Some [OF adv'] ri by (auto simp: rows_inv_def)
  then have "spawn_model modelTypeFallback \<lparr>trigger = triggerMainError, failedRequest = int (rid (last (requests c))),
      ti_credentialID = '''', ti_modelID = target\<rparr> c = Some target"
    using l2 by (simp add: spawn_model_def Let_def)
  from rows_spawn [OF this] show rws: "rows (error_spawn target c) = rows c @ [(modelTypeFallback, target, '''')]"
    using l2 by (simp add: error_spawn_def)
  have "row_model (last (rows c)) = modelID (last (requests c))"
    using race_inv_requests [OF inv] latest_row by blast
  then have "rows_inv creds (chain c) (rows (error_spawn target c)) (attempts_of c) (triedCredIDs c)"
    using rows_inv_advance [OF ri] adv' rws by simp
  then show "race_inv creds (error_spawn target c)"
    using l2 spawn_race_inv [OF inv] by (simp add: error_spawn_def)
qed

lemma race_inv_idle_spawn:
  assumes inv: "race_inv creds c" and l: "length (requests c) = 1"
  shows "race_inv creds (idle_spawn c)"
proof (cases "1 < length (chain c)")
  case True
  let ?ti = "no_trigger\<lparr>trigger := triggerIdleTimeout\<rparr>"
  let ?c1 = "spawn modelTypeSecond ?ti c"
  have ri: "rows_inv creds (chain c) (rows c) (attempts_of c) (triedCredIDs c)"
    using inv by (simp add: race_inv_def)
  have "spawn_model modelTypeSecond ?ti c = Some (chain c ! 0)"
    using True l by (simp add: spawn_model_def Let_def)
  from rows_spawn [OF this] have r1: "rows ?c1 = rows c @ [(modelTypeSecond, chain c ! 0, '''')]" by simp
  have "spawn_model modelTypeFallback ?ti ?c1 = Some (chain c ! 1)"
    using True by (simp add: spawn_model_def Let_def no_trigger_def)
  from rows_spawn [OF this] have r2: "rows (spawn modelTypeFallback ?ti ?c1) =
      (rows c @ [(modelTypeSecond, chain c ! 0, '''')]) @ [(modelTypeFallback, chain c ! 1, '''')]"
    using r1 by simp
  have eq: "idle_spawn c = spawn modelTypeFallback ?ti ?c1" using True by (simp add: idle_spawn_def Let_def)
  have "rows_inv creds (chain c) (rows (idle_spawn c)) (attempts_of c) (triedCredIDs c)"
    using rows_inv_idle [OF ri _ True] l r2 eq by simp
  moreover have "map rid (requests (idle_spawn c)) = [0..<length (requests (idle_spawn c))]"
    using inv rids_spawn eq by (simp add: race_inv_def)
  moreover have "length (requests c) \<le> length (requests (idle_spawn c))"
    unfolding eq using length_spawn_le le_trans by blast
  ultimately show ?thesis using inv by (auto simp: race_inv_def eq split: option.splits)
next
  case False
  then have "idle_spawn c = c" using l by (simp add: idle_spawn_def Let_def spawn_def spawn_model_def)
  then show ?thesis using inv by simp
qed

lemma winner_scan_after:
  "winner c = Some k \<Longrightarrow> winnerIdx c = int k \<Longrightarrow> k < i \<Longrightarrow> winner_scan g i rs c = c"
  by (induction rs arbitrary: i) auto

lemma winner_scan_first:
  assumes "winner c = None"
  shows "winner_scan g i rs c =
     (if list_ex (eligible g) rs
      then let k = i + length (takeWhile (\<lambda>r. \<not> eligible g r) rs)
           in c\<lparr>winner := Some k, winnerIdx := int k, streamCh := True\<rparr>
      else c)"
  using assms
proof (induction rs arbitrary: i)
  case (Cons r rs)
  show ?case
  proof (cases "eligible g r")
    case True
    let ?c = "c\<lparr>winner := Some i, winnerIdx := int i, streamCh := True\<rparr>"
    have "winner_scan g (Suc i) rs ?c = ?c" by (rule winner_scan_after [of _ i]) simp_all
    then show ?thesis using True Cons.prems by simp
  next
    case False
    then show ?thesis using Cons by (simp add: Let_def)
  qed
qed simp

lemma takeWhile_length_ex: "list_ex P rs \<Longrightarrow> length (takeWhile (\<lambda>r. \<not> P r) rs) < length rs \<and>
    P (rs ! length (takeWhile (\<lambda>r. \<not> P r) rs))"
  by (induction rs) auto

lemma race_inv_scan:
  assumes "race_inv creds c" and "winner c = None"
  shows "race_inv creds (winner_scan g 0 (requests c) c)"
proof (cases "list_ex (eligible g) (requests c)")
  case True
  let ?k = "length (takeWhile (\<lambda>r. \<not> eligible g r) (requests c))"
  have k: "?k < length (requests c)" using takeWhile_length_ex [OF True] by simp
  have at: "attempts_of (c\<lparr>winner := Some ?k, winnerIdx := int ?k, streamCh := True\<rparr>) = attempts_of c"
    by (simp add: fun_eq_iff attempts_of_def)
  show ?thesis
    using assms(1) True k at by (simp add: winner_scan_first [OF assms(2)] race_inv_def rows_def Let_def)
next
  case False
  then show ?thesis using assms by (simp add: winner_scan_first)
qed

lemma spawn_phase_inv:
  assumes "race_inv creds c"
  shows "race_inv creds (snd (spawn_phase creds now w c))"
proof -
  have idle: "race_inv creds (if main_idle now c' then idle_spawn c' else c')" if "race_inv creds c'" for c'
    using that race_inv_idle_spawn by (auto simp: main_idle_def)
  obtain plan e' where pl: "credFailoverPlanLocked creds now w c = (plan, e')" by fastforce
  let ?c1 = "c\<lparr>engine := e'\<rparr>"
  have inv1: "race_inv creds ?c1" using assms by (simp add: race_inv_engine)
  have plan_inv: "race_inv creds (cred_failover_spawn p ?c1)" if "plan = Some p" for p
  proof -
    have "attempts_of ?c1 = attempts_of c" by (simp add: fun_eq_iff attempts_of_def)
    then show ?thesis
      using inv1 plan_facts [of creds now w c p e'] eligible_facts(1) [of creds c] pl that
      by (intro race_inv_cred_failover) auto
  qed
  have adv_inv: "race_inv creds (error_spawn target ?c1)"
    if "fallbackAdvanceTargetLocked ?c1 (modelID (last (requests ?c1))) = Some target" for target
    using race_inv_error_spawn(1) [OF inv1 that] .
  show ?thesis
    using assms inv1 idle [OF assms] idle [OF inv1] plan_inv adv_inv
    by (auto simp: spawn_phase_def pl Let_def split: option.split)
qed

lemma rows_cancel [simp]: "rows (cancelAllExcept k c) = rows c"
  by (rule nth_equalityI) (auto simp: rows_def cancelAllExcept_def Cancel_static)

lemma rids_cancel: "map rid (requests (cancelAllExcept k c)) = map rid (requests c)"
  by (rule nth_equalityI) (auto simp: cancelAllExcept_def Cancel_static)

lemma cancel_frame [simp]:
  "chain (cancelAllExcept k c) = chain c" "winner (cancelAllExcept k c) = winner c"
  "winnerIdx (cancelAllExcept k c) = winnerIdx c" "streamCh (cancelAllExcept k c) = streamCh c"
  "triedCredIDs (cancelAllExcept k c) = triedCredIDs c" "attempts_of (cancelAllExcept k c) = attempts_of c"
  "length (requests (cancelAllExcept k c)) = length (requests c)" "race_done (cancelAllExcept k c) = race_done c"
  "loop_exited (cancelAllExcept k c) = loop_exited c"
  by (simp_all add: cancelAllExcept_def fun_eq_iff attempts_of_def)

lemma race_inv_cancel: "race_inv creds c \<Longrightarrow> race_inv creds (cancelAllExcept k c)"
  by (rule race_inv_rows_cong [of creds c]) (simp_all add: rids_cancel)

lemma race_inv_flags:
  assumes "race_inv creds c"
  shows "race_inv creds (c\<lparr>race_done := d, streamCh := True, loop_exited := l\<rparr>)"
    and "race_inv creds (c\<lparr>loop_exited := l\<rparr>)"
    and "race_inv creds (c\<lparr>race_done := d, streamCh := True\<rparr>)"
    and "race_inv creds (c\<lparr>streamDeadlineError := x, race_done := d, streamCh := True\<rparr>)"
  by (rule race_inv_rows_cong [OF assms]; simp add: rows_def fun_eq_iff attempts_of_def)+

lemma manage_tick_inv:
  assumes "race_inv creds c"
  shows "race_inv creds (manage_tick creds now w c)"
proof -
  define c1 where "c1 = (if winner c = None then winner_scan (liveFirstByteGate c) 0 (requests c) c else c)"
  have i1: "race_inv creds c1" using assms race_inv_scan by (simp add: c1_def)
  obtain sp c2 where sp: "spawn_phase creds now w c1 = (sp, c2)" by fastforce
  have i2: "race_inv creds c2" using spawn_phase_inv [OF i1, of now w] sp by simp
  have "manage_tick creds now w c =
      (if winner c1 \<noteq> None then (cancelAllExcept (winner c1) c1)\<lparr>loop_exited := True\<rparr>
       else if \<not> sp \<and> length (chain c2) \<le> modelAttemptCountLocked c1 \<and> all_failed c2
       then c2\<lparr>race_done := True, streamCh := True, loop_exited := True\<rparr> else c2)"
    unfolding manage_tick_def c1_def [symmetric] by (simp add: sp Let_def)
  then show ?thesis using i2 race_inv_flags(1) [OF i2] race_inv_flags(2) [OF race_inv_cancel [OF i1]] by simp
qed

lemma best_loop_range:
  "best_loop b l i rs = (Some k, l') \<Longrightarrow> b = Some k \<or> i \<le> k \<and> k < i + length rs"
  by (induction rs arbitrary: b l i) (force split: if_splits)+

lemma race_inv_deadline_error: "race_inv creds c \<Longrightarrow> race_inv creds (deadline_error c)"
  unfolding deadline_error_def cancelAll_def by (intro race_inv_cancel race_inv_flags(4))

lemma streaming_deadline_inv:
  assumes "race_inv creds c"
  shows "race_inv creds (handleStreamingDeadline c)"
proof (cases "winner c = None")
  case True
  obtain best bestLen where bl: "best_loop None (-1) 0 (requests c) = (best, bestLen)" by fastforce
  have pick: "race_inv creds (cancelAllExcept (Some i)
      (c\<lparr>winner := Some i, winnerIdx := int (rid (requests c ! i)), streamCh := True\<rparr>))" if "best = Some i" for i
  proof -
    have i: "i < length (requests c)" using best_loop_range [of None "-1" 0 "requests c" i bestLen] bl that by auto
    have "map rid (requests c) = [0..<length (requests c)]" using assms by (simp add: race_inv_def)
    then have "rid (requests c ! i) = i" using i by (metis add_0 nth_map nth_upt)
    moreover have "attempts_of (c\<lparr>winner := Some i, winnerIdx := x, streamCh := True\<rparr>) = attempts_of c" for x
      by (simp add: fun_eq_iff attempts_of_def)
    ultimately show ?thesis
      using assms i by (intro race_inv_cancel) (simp add: race_inv_def rows_def)
  qed
  show ?thesis
    using True assms pick race_inv_deadline_error [OF assms]
    by (auto simp: handleStreamingDeadline_def bl Let_def split: option.split)
qed (use assms in \<open>simp add: handleStreamingDeadline_def\<close>)

lemma race_step_inv: "race_step creds c c' \<Longrightarrow> race_inv creds c \<Longrightarrow> race_inv creds c'"
proof (induction rule: race_step.induct)
  case (rs_tick c creds now w)
  then show ?case by (simp add: manage_tick_inv)
next
  case (rs_exec i c r creds)
  have "rows (c\<lparr>requests := (requests c)[i := r]\<rparr>) = rows c" "map rid ((requests c)[i := r]) = map rid (requests c)"
    using exec_step_static [OF rs_exec(2)] rs_exec(1)
    by (auto simp: rows_def nth_list_update intro!: nth_equalityI)
  then show ?case
    using rs_exec by (intro race_inv_rows_cong [OF rs_exec(3)]) (simp_all add: fun_eq_iff attempts_of_def)
next
  case (rs_engine creds c f)
  then show ?case by (simp add: race_inv_engine)
next
  case (rs_ctx c creds)
  then show ?case unfolding ctx_done_def cancelAll_def by (intro race_inv_flags(1) race_inv_cancel)
next
  case (rs_stream_deadline c creds)
  then show ?case by (intro race_inv_flags(2) streaming_deadline_inv)
next
  case (rs_hard_deadline c creds)
  then show ?case
    unfolding handleHardDeadline_def cancelAll_def by (intro race_inv_flags(2,3) race_inv_cancel)
qed

lemma race_reach_inv: "race_reach creds c \<Longrightarrow> race_inv creds c"
proof (induction rule: race_reach.induct)
  case (rr_start m ms creds conf e key liveGate now)
  then show ?case
    by (auto simp: Start_def newRaceCoordinatorWithEvents_def spawn_def spawn_model_def Let_def race_inv_def
        rows_inv_def rows_def row_model_def model_rows_def cred_rows_def cred_count_def cred_ids_def
        attempts_of_def newUpstreamRequest_def no_trigger_def pos_def takeWhile_eq_Nil_iff hd_conv_nth)
next
  case (rr_step creds c c')
  then show ?case using race_step_inv by blast
qed

section \<open>Properties of a race\<close>

lemma manage_tick_eq:
  assumes "spawn_phase creds now w (scanned c) = (sp, c2)"
  shows "manage_tick creds now w c =
      (if winner (scanned c) \<noteq> None then (cancelAllExcept (winner (scanned c)) (scanned c))\<lparr>loop_exited := True\<rparr>
       else if \<not> sp \<and> length (chain c2) \<le> modelAttemptCountLocked (scanned c) \<and> all_failed c2
       then c2\<lparr>race_done := True, streamCh := True, loop_exited := True\<rparr> else c2)"
  unfolding manage_tick_def scanned_def [symmetric] by (simp add: assms Let_def)

lemma scanned_None: "winner (scanned c) = None \<Longrightarrow> scanned c = c"
  by (cases "winner c = None") (auto simp: scanned_def winner_scan_first Let_def split: if_splits)

lemma spawn_phase_winner: "winner (snd (spawn_phase creds now w c)) = winner c"
  by (auto simp: spawn_phase_def error_spawn_def idle_spawn_def cred_failover_spawn_def Let_def
      split: prod.split option.split)

lemma cancel_others:
  assumes "j < length (requests c)" and "Some j \<noteq> k"
  shows "cancelled (requests (cancelAllExcept k c) ! j)"
  using assms by (auto simp: cancelAllExcept_def Cancel_def cleanup_def)

lemma cancel_keeps:
  assumes "j < length (requests c)"
  shows "requests (cancelAllExcept (Some j) c) ! j = requests c ! j"
  using assms by (simp add: cancelAllExcept_def)

text \<open>
  C32: winner selection. While there is no winner, a turn of the loop elects the first eligible
  attempt, if there is one (completed without error, or with a first byte and no error in live
  mode), cancels every other attempt, leaves the winner untouched, opens the stream and ends the
  loop; without an eligible attempt it elects nobody.
\<close>

theorem winner_first_eligible:
  assumes "winner c = None"
  shows "case winner (manage_tick creds now w c) of
           None \<Rightarrow> \<not> list_ex (eligible (liveFirstByteGate c)) (requests c)
         | Some i \<Rightarrow>
             i < length (requests c) \<and> eligible (liveFirstByteGate c) (requests c ! i) \<and>
             (\<forall>j < i. \<not> eligible (liveFirstByteGate c) (requests c ! j)) \<and>
             (\<forall>j < length (requests c). j \<noteq> i \<longrightarrow> cancelled (requests (manage_tick creds now w c) ! j)) \<and>
             requests (manage_tick creds now w c) ! i = requests c ! i \<and>
             streamCh (manage_tick creds now w c) \<and> loop_exited (manage_tick creds now w c)"
proof (cases "list_ex (eligible (liveFirstByteGate c)) (requests c)")
  case True
  let ?g = "liveFirstByteGate c"
  let ?k = "length (takeWhile (\<lambda>r. \<not> eligible ?g r) (requests c))"
  let ?c1 = "c\<lparr>winner := Some ?k, winnerIdx := int ?k, streamCh := True\<rparr>"
  have k: "?k < length (requests c)" "eligible ?g (requests c ! ?k)" using takeWhile_length_ex [OF True] by auto
  have sc: "scanned c = ?c1" using True assms by (simp add: scanned_def winner_scan_first Let_def)
  obtain sp c2 where "spawn_phase creds now w (scanned c) = (sp, c2)" by fastforce
  from manage_tick_eq [OF this] have t: "manage_tick creds now w c = (cancelAllExcept (Some ?k) ?c1)\<lparr>loop_exited := True\<rparr>"
    by (simp add: sc)
  have before: "\<not> eligible ?g (requests c ! j)" if "j < ?k" for j
    using that by (metis nth_mem set_takeWhileD takeWhile_nth)
  have "requests (manage_tick creds now w c) ! ?k = requests c ! ?k"
    using cancel_keeps [of ?k ?c1] k(1) by (simp add: t)
  moreover have "cancelled (requests (manage_tick creds now w c) ! j)" if "j < length (requests c)" "j \<noteq> ?k" for j
    using cancel_others [of j ?c1 "Some ?k"] that by (simp add: t)
  ultimately show ?thesis using k before by (simp add: t)
next
  case False
  then have sc: "scanned c = c" using assms by (simp add: scanned_def winner_scan_first)
  obtain sp c2 where sp: "spawn_phase creds now w (scanned c) = (sp, c2)" by fastforce
  have "winner c2 = None" using spawn_phase_winner [of creds now w c] sp assms by (simp add: sc)
  then show ?thesis using manage_tick_eq [OF sp] False assms by (simp add: sc)
qed

theorem winner_first_eligible_witness:
  "streamCh (manage_tick ex_creds second 0 ex_race_won) \<and> loop_exited (manage_tick ex_creds second 0 ex_race_won)"
proof -
  have "winner ex_race_won = None" "winner (manage_tick ex_creds second 0 ex_race_won) = Some 0" by code_simp+
  from winner_first_eligible [OF this(1), of ex_creds second 0] this(2) show ?thesis by simp
qed

text \<open>
  The winner is never replaced. No step of the loop, of an executor, of a deadline or of
  another request's use of the engine changes an elected winner, and the winner is always one of
  the attempts with the stream open.
\<close>

theorem winner_stable:
  assumes "race_reach creds c" and "race_step creds c c'" and "winner c = Some i"
  shows "winner c' = Some i \<and> i < length (requests c') \<and> streamCh c'"
proof -
  have "winner c' = winner c"
    using assms(2,3)
  proof (induction rule: race_step.induct)
    case (rs_tick c creds now w)
    obtain sp c2 where sp: "spawn_phase creds now w (scanned c) = (sp, c2)" by fastforce
    show ?case using manage_tick_eq [OF sp] rs_tick(2) by (simp add: scanned_def)
  qed (simp_all add: ctx_done_def cancelAll_def handleHardDeadline_def handleStreamingDeadline_def)
  moreover have "race_inv creds c'" using assms race_reach_inv race_step_inv by blast
  ultimately show ?thesis using assms(3) by (simp add: race_inv_def)
qed

lemma ex_race_reach: "race_reach ex_creds ex_race"
  unfolding ex_race_def by (rule rr_start) simp_all

lemma ex_race_won_reach: "race_reach ex_creds ex_race_won"
proof -
  have "0 < length (requests ex_race)" "\<not> IsDone (requests ex_race ! 0)" by code_simp+
  then show ?thesis unfolding ex_race_won_def by (intro rr_step [OF ex_race_reach] rs_exec ex_complete)
qed

theorem winner_stable_witness:
  "winner ((manage_tick ex_creds second 0 ex_race_won)
     \<lparr>engine := map_option Stop (engine (manage_tick ex_creds second 0 ex_race_won))\<rparr>) = Some 0"
proof -
  let ?c = "manage_tick ex_creds second 0 ex_race_won"
  have "\<not> loop_exited ex_race_won" by code_simp
  then have r: "race_reach ex_creds ?c" by (intro rr_step [OF ex_race_won_reach] rs_tick)
  have w: "winner ?c = Some 0" by code_simp
  show ?thesis using winner_stable [OF r rs_engine w] by (rule conjunct1)
qed

lemma sum_list_indicator:
  "distinct ms \<Longrightarrow> x \<in> set ms \<Longrightarrow> sum_list (map (\<lambda>m. if x = m then 1 else 0) ms) = (1::nat)"
proof (induction ms)
  case (Cons a ms)
  have "x \<notin> set ms \<Longrightarrow> sum_list (map (\<lambda>m. if x = m then 1 else 0) ms) = (0::nat)"
    by (auto simp: sum_list_eq_0_iff)
  then show ?case using Cons by auto
qed simp

lemma row_count_sum:
  assumes "row_model ` set ys \<subseteq> set ms" and "distinct ms"
  shows "length ys = sum_list (map (\<lambda>m. length (filter (\<lambda>x. row_model x = m) ys)) ms)"
  using assms(1)
proof (induction ys)
  case (Cons y ys)
  have one: "sum_list (map (\<lambda>m. if row_model y = m then 1 else 0) ms) = (1::nat)"
    using assms(2) Cons.prems by (intro sum_list_indicator) auto
  have "sum_list (map (\<lambda>m. length (filter (\<lambda>x. row_model x = m) (y # ys))) ms) =
      sum_list (map (\<lambda>m. (if row_model y = m then 1 else 0) + length (filter (\<lambda>x. row_model x = m) ys)) ms)"
    by (rule arg_cong [where f = sum_list]) auto
  also have "\<dots> = 1 + sum_list (map (\<lambda>m. length (filter (\<lambda>x. row_model x = m) ys)) ms)"
    by (simp only: sum_list_addf one)
  finally show ?case using Cons by simp
qed simp

text \<open>
  C1: a race is bounded. In every reachable state each model has at most one fewer
  credential-failover rows than it has credentials, no two such rows use the same credential, and
  with a chain of distinct models the number of attempts is at most the length of the chain plus
  one plus the sum of these per-model budgets.
\<close>

theorem race_bounded:
  assumes "race_reach creds c"
  shows "(\<forall>m. length (filter (\<lambda>r. modelType r = modelTypeCredFailover \<and> modelID r = m) (requests c)) \<le> budget creds m) \<and>
         distinct (map reselectedCredentialID (filter (\<lambda>r. modelType r = modelTypeCredFailover) (requests c))) \<and>
         (distinct (chain c) \<longrightarrow>
            length (requests c) \<le> length (chain c) + 1 + sum_list (map (budget creds) (chain c)))"
proof -
  have inv: "rows_inv creds (chain c) (rows c) (attempts_of c) (triedCredIDs c)"
    using race_reach_inv [OF assms] by (simp add: race_inv_def)
  have cnt: "cred_count (rows c) m = length (filter (\<lambda>r. modelType r = modelTypeCredFailover \<and> modelID r = m) (requests c))" for m
    by (simp add: cred_count_def cred_rows_def rows_def row_model_def filter_map o_def conj_commute)
  have ids: "cred_ids (rows c) = map reselectedCredentialID (filter (\<lambda>r. modelType r = modelTypeCredFailover) (requests c))"
    by (simp add: cred_ids_def cred_rows_def rows_def filter_map o_def)
  have len: "length (requests c) \<le> length (chain c) + 1 + sum_list (map (budget creds) (chain c))" if d: "distinct (chain c)"
  proof -
    have ne: "rows c \<noteq> []" and sub: "row_model ` set (rows c) \<subseteq> set (chain c)"
      using inv by (auto simp: rows_inv_def)
    have "row_model (last (rows c)) \<in> set (chain c)" using ne sub last_in_set by blast
    then have "model_rows (rows c) \<le> length (chain c) + 1"
      using inv d pos_less by (fastforce simp: rows_inv_def)
    moreover have "length (cred_rows (rows c)) \<le> sum_list (map (budget creds) (chain c))"
    proof -
      have "length (cred_rows (rows c)) = sum_list (map (cred_count (rows c)) (chain c))"
        unfolding cred_count_def [abs_def]
        by (rule row_count_sum [OF _ d]) (use sub in \<open>auto simp: cred_rows_def\<close>)
      also have "\<dots> \<le> sum_list (map (budget creds) (chain c))"
        using inv by (intro sum_list_mono) (auto simp: rows_inv_def)
      finally show ?thesis .
    qed
    moreover have "length (requests c) = model_rows (rows c) + length (cred_rows (rows c))"
      using sum_length_filter_compl [of "\<lambda>x. fst x \<noteq> modelTypeCredFailover" "rows c"]
      by (simp add: model_rows_def cred_rows_def)
    ultimately show ?thesis by linarith
  qed
  show ?thesis using inv cnt ids len by (auto simp: rows_inv_def)
qed

lemma spawn_phase_other:
  assumes inv: "race_inv creds c" and sp: "spawn_phase creds now w c = (b, c2)"
  shows "(\<exists>p e'. credFailoverPlanLocked creds now w c = (Some p, e') \<and> c2 = cred_failover_spawn p (c\<lparr>engine := e'\<rparr>)) \<or>
         length (rows c2) = length (rows c) \<or> fst (last (rows c2)) = modelTypeFallback"
proof -
  have idle: "length (rows (idle_spawn c')) = length (rows c') \<or> fst (last (rows (idle_spawn c'))) = modelTypeFallback"
    if "race_inv creds c'" "length (requests c') = 1" for c'
  proof (cases "1 < length (chain c')")
    case True
    then have "spawn_model modelTypeFallback (no_trigger\<lparr>trigger := triggerIdleTimeout\<rparr>)
        (spawn modelTypeSecond (no_trigger\<lparr>trigger := triggerIdleTimeout\<rparr>) c') = Some (chain c' ! 1)"
      by (simp add: spawn_model_def no_trigger_def Let_def)
    from rows_spawn [OF this] show ?thesis using True by (simp add: idle_spawn_def Let_def)
  next
    case False
    then show ?thesis using that by (simp add: idle_spawn_def Let_def spawn_def spawn_model_def)
  qed
  obtain plan e' where pl: "credFailoverPlanLocked creds now w c = (plan, e')" by fastforce
  have inv1: "race_inv creds (c\<lparr>engine := e'\<rparr>)" using inv by (simp add: race_inv_engine)
  have idle_or: "length (rows (if main_idle now c' then idle_spawn c' else c')) = length (rows c') \<or>
      fst (last (rows (if main_idle now c' then idle_spawn c' else c'))) = modelTypeFallback"
    if "race_inv creds c'" for c'
    using idle [OF that] by (auto simp: main_idle_def)
  have adv: "fst (last (rows (error_spawn target (c\<lparr>engine := e'\<rparr>)))) = modelTypeFallback"
    if "fallbackAdvanceTargetLocked (c\<lparr>engine := e'\<rparr>) (modelID (last (requests (c\<lparr>engine := e'\<rparr>)))) = Some target" for target
    using race_inv_error_spawn(2) [OF inv1 that] by simp
  show ?thesis
    using sp pl idle_or [OF inv] idle_or [OF inv1] adv
    by (auto simp: spawn_phase_def Let_def split: if_splits option.splits)
qed

lemma fallbackAdvance_engine [simp]:
  "fallbackAdvanceTargetLocked (c\<lparr>engine := e\<rparr>) m = fallbackAdvanceTargetLocked c m"
  by (simp add: fallbackAdvanceTargetLocked_def)

lemma fail_row_reach:
  assumes "race_reach creds c" and "i < length (requests c)" and "\<not> IsDone (requests c ! i)"
  shows "race_reach creds (fail_row i cred ra c)"
proof -
  define c1 where "c1 = c\<lparr>requests := (requests c)[i := (requests c ! i)\<lparr>resolvedCredentialID := cred\<rparr>]\<rparr>"
  define e where "e = ex_429\<lparr>err_provider := map_option (\<lambda>pe. pe\<lparr>RetryAfter := ra\<rparr>) (err_provider ex_429)\<rparr>"
  have "race_step creds c c1"
    unfolding c1_def using assms(2) ex_resolve [OF assms(3)] by (rule rs_exec)
  then have r1: "race_reach creds c1" by (rule rr_step [OF assms(1)])
  have l: "i < length (requests c1)" and d: "\<not> IsDone (requests c1 ! i)"
    using assms(2,3) by (simp_all add: c1_def IsDone_def)
  have "race_step creds c1 (c1\<lparr>requests := (requests c1)[i := MarkFailed 0 e (requests c1 ! i)]\<rparr>)"
    using l ex_fail [OF d] by (rule rs_exec)
  then have "race_reach creds (c1\<lparr>requests := (requests c1)[i := MarkFailed 0 e (requests c1 ! i)]\<rparr>)"
    by (rule rr_step [OF r1])
  then show ?thesis by (simp add: fail_row_def c1_def e_def Let_def)
qed

lemma ex_race1_reach: "race_reach ex_creds ex_race1"
proof -
  have "0 < length (requests ex_race)" "\<not> IsDone (requests ex_race ! 0)" by code_simp+
  then show ?thesis unfolding ex_race1_def by (intro fail_row_reach ex_race_reach)
qed

lemma ex_race2_reach: "race_reach ex_creds ex_race2"
proof -
  have "\<not> loop_exited ex_race1" by code_simp
  then have r: "race_reach ex_creds (manage_tick ex_creds second 0 ex_race1)"
    by (intro rr_step [OF ex_race1_reach] rs_tick)
  have "1 < length (requests (manage_tick ex_creds second 0 ex_race1))"
    "\<not> IsDone (requests (manage_tick ex_creds second 0 ex_race1) ! 1)"
    by code_simp+
  then show ?thesis unfolding ex_race2_def by (intro fail_row_reach r)
qed

theorem race_bounded_witness:
  "length (requests ex_race2) \<le> length (chain ex_race2) + 1 + sum_list (map (budget ex_creds) (chain ex_race2))"
proof -
  have "distinct (chain ex_race2)" by code_simp
  then show ?thesis using race_bounded [OF ex_race2_reach] by blast
qed

lemma all_failed_facts:
  assumes "all_failed c" and "requests c \<noteq> []"
  shows "latest_failed c" and "running c = 0" and "\<not> main_idle now c"
    and "\<not> list_ex (eligible g) (requests c) \<or> g"
proof -
  have all: "\<forall>r \<in> set (requests c). IsDone r \<and> req_err r \<noteq> None"
    using assms(1) by (simp add: all_failed_def list_all_iff)
  show "latest_failed c" using all assms(2) by (simp add: latest_failed_def Let_def)
  show "running c = 0" using all by (simp add: running_def filter_empty_conv)
  show "\<not> main_idle now c"
    using all assms(2) by (auto simp: main_idle_def Let_def IsIdle_def IsDone_def length_Suc_conv)
  show "\<not> list_ex (eligible g) (requests c) \<or> g"
    using all by (auto simp: list_ex_iff eligible_def split: if_splits)
qed

text \<open>
  C2: a race never stalls. When every attempt has failed and there is no winner, one turn of the
  loop makes progress: it spawns a new attempt, or it declares the race over and opens the stream
  so that the handler can report the error.
\<close>

theorem failed_race_progresses:
  assumes reach: "race_reach creds c" and f: "all_failed c" and w: "winner c = None"
    and par: "0 < RaceMaxParallel (cfg c)"
  shows "length (requests (manage_tick creds now rnd c)) = length (requests c) + 1 \<or>
         race_done (manage_tick creds now rnd c) \<and> streamCh (manage_tick creds now rnd c) \<and>
         loop_exited (manage_tick creds now rnd c)"
proof -
  have inv: "race_inv creds c" using reach by (rule race_reach_inv)
  have ne: "requests c \<noteq> []" using race_inv_requests [OF inv] by simp
  note af = all_failed_facts [OF f ne]
  have "\<not> list_ex (eligible g) (requests c)" for g
    using f by (auto simp: all_failed_def list_all_iff list_ex_iff eligible_def)
  then have sc: "scanned c = c" using w by (simp add: scanned_def winner_scan_first)
  have att: "length (chain c) \<le> modelAttemptCountLocked c"
    if "fallbackAdvanceTargetLocked c (modelID (last (requests c))) = None"
  proof (cases "length (chain c) < 2")
    case True
    have "1 \<le> modelAttemptCountLocked c"
      using inv by (auto simp: race_inv_def rows_inv_def model_rows_count)
    then show ?thesis using True by simp
  next
    case False
    have "row_model (last (rows c)) \<in> row_model ` set (rows c)" "row_model ` set (rows c) \<subseteq> set (chain c)"
      using inv by (auto simp: race_inv_def rows_inv_def)
    then have "modelID (last (requests c)) \<in> set (chain c)" using latest_row [OF ne] by auto
    moreover have "advance_loop (chain c) (modelID (last (requests c))) = None"
      using that False by (simp add: fallbackAdvanceTargetLocked_def)
    ultimately have "pos (chain c) (modelID (last (requests c))) + 1 = length (chain c)"
      by (intro advance_loop_None)
    then show ?thesis using inv latest_row [OF ne] by (simp add: race_inv_def rows_inv_def model_rows_count)
  qed
  show ?thesis
  proof (cases "modelAttemptCountLocked c < length (chain c) \<or> credFailoverEligibleLocked creds c")
    case False
    then have "spawn_phase creds now rnd (scanned c) = (False, c)" by (simp add: sc spawn_phase_def)
    from manage_tick_eq [OF this] show ?thesis using False f w sc by simp
  next
    case gate: True
    obtain plan e' where pl: "credFailoverPlanLocked creds now rnd c = (plan, e')" by fastforce
    let ?c1 = "c\<lparr>engine := e'\<rparr>"
    have at1: "attempts_of ?c1 = attempts_of c" by (simp add: fun_eq_iff attempts_of_def)
    have inv1: "race_inv creds ?c1" using inv by (simp add: race_inv_engine)
    show ?thesis
    proof (cases plan)
      case (Some p)
      have sp: "spawn_phase creds now rnd (scanned c) = (True, cred_failover_spawn p ?c1)"
        using gate af par pl Some by (simp add: sc spawn_phase_def Let_def)
      have "rows (cred_failover_spawn p ?c1) =
          rows ?c1 @ [(modelTypeCredFailover, modelID (last (requests ?c1)), plan_credentialID p)]"
        using inv1 plan_facts [of creds now rnd c p e'] eligible_facts(1) [of creds c] pl Some at1
        by (intro race_inv_cred_failover(2)) auto
      then have "length (requests (cred_failover_spawn p ?c1)) = length (requests c) + 1"
        by (metis One_nat_def length_append_singleton length_rows Suc_eq_plus1 raceCoordinator.select_convs(4)
            raceCoordinator.surjective raceCoordinator.update_convs(2))
      then show ?thesis using manage_tick_eq [OF sp] w sc by simp
    next
      case None
      show ?thesis
      proof (cases "fallbackAdvanceTargetLocked c (modelID (last (requests c)))")
        case (Some target)
        have adv1: "fallbackAdvanceTargetLocked ?c1 (modelID (last (requests ?c1))) = Some target"
          using Some by simp
        have sp: "spawn_phase creds now rnd (scanned c) = (False, error_spawn target ?c1)"
          using gate af par pl None adv1 by (simp add: sc spawn_phase_def Let_def)
        have len: "length (requests (error_spawn target ?c1)) = length (requests c) + 1"
          using arg_cong [where f = length, OF race_inv_error_spawn(2) [OF inv1 adv1]] by simp
        show ?thesis using manage_tick_eq [OF sp] w sc len by auto
      next
        case adv: None
        have adv1: "fallbackAdvanceTargetLocked ?c1 (modelID (last (requests ?c1))) = None"
          using adv by simp
        have "\<not> main_idle now ?c1" using af(3) [of now] by (auto simp: main_idle_def Let_def split: if_splits)
        then have sp: "spawn_phase creds now rnd (scanned c) = (False, ?c1)"
          using gate af par pl None adv1 by (simp add: sc spawn_phase_def Let_def)
        have "all_failed ?c1" using f by (simp add: all_failed_def)
        then show ?thesis using manage_tick_eq [OF sp] w sc att [OF adv] by simp
      qed
    qed
  qed
qed

theorem failed_race_progresses_witness:
  "length (requests (manage_tick ex_creds second 0 ex_race1)) = length (requests ex_race1) + 1"
proof -
  have "all_failed ex_race1" "winner ex_race1 = None" "0 < RaceMaxParallel (cfg ex_race1)"
    "\<not> race_done (manage_tick ex_creds second 0 ex_race1)"
    by code_simp+
  from failed_race_progresses [OF ex_race1_reach this(1-3), of second 0] this(4) show ?thesis by blast
qed

text \<open>
  When credential failover happens. A turn that adds a credential-failover row does so only
  before any winner, for the model of the latest attempt, which failed with a rate-limit or quota
  error; it uses a credential other than the failed one and not yet tried by a failover of this
  request, and the model still had budget.
\<close>

theorem cred_failover_conditions:
  assumes "race_reach creds c"
    and "rows (manage_tick creds now rnd c) = rows c @ [(modelTypeCredFailover, m, k)]"
  shows "winner c = None \<and> latest_failed c \<and> m = modelID (last (requests c)) \<and>
         classifyCredFailure (req_err (last (requests c))) \<noteq> credFailoverNone \<and>
         k \<noteq> resolvedCredentialID (last (requests c)) \<and> k \<notin> triedCredIDs c \<and> k \<noteq> '''' \<and>
         attempts_of c m < budget creds m"
proof -
  have inv: "race_inv creds c" using assms(1) by (rule race_reach_inv)
  have ne: "length (rows (manage_tick creds now rnd c)) = length (rows c) + 1" using assms(2) by simp
  obtain sp c2 where sp: "spawn_phase creds now rnd (scanned c) = (sp, c2)" by fastforce
  note tick = manage_tick_eq [OF sp]
  have rs: "rows (scanned c) = rows c"
    by (auto simp: scanned_def winner_scan_first rows_def Let_def)
  have w: "winner (scanned c) = None"
  proof (rule ccontr)
    assume "winner (scanned c) \<noteq> None"
    then have "rows (manage_tick creds now rnd c) = rows c"
      using tick rs by (simp add: rows_def cancelAllExcept_def [symmetric] del: rows_cancel)
        (metis (no_types, lifting) rows_cancel rows_def)
    then show False using assms(2) by simp
  qed
  then have sc: "scanned c = c" by (rule scanned_None)
  then have w0: "winner c = None" using w by simp
  have r2: "rows c2 = rows c @ [(modelTypeCredFailover, m, k)]"
    using assms(2) tick w by (simp add: rows_def split: if_splits)
  have rt: "fst (last (rows c2)) \<noteq> modelTypeFallback" "length (rows c2) \<noteq> length (rows c)"
    using r2 by simp_all
  have "\<exists>p e'. credFailoverPlanLocked creds now rnd c = (Some p, e') \<and> c2 = cred_failover_spawn p (c\<lparr>engine := e'\<rparr>)"
    using spawn_phase_other [OF inv sp [unfolded sc]] rt by blast
  then obtain p e' where p: "credFailoverPlanLocked creds now rnd c = (Some p, e')"
      "c2 = cred_failover_spawn p (c\<lparr>engine := e'\<rparr>)" by blast
  note pf = plan_facts [OF p(1)] and ef = eligible_facts [OF plan_facts(1) [OF p(1)]]
  have "attempts_of (c\<lparr>engine := e'\<rparr>) = attempts_of c" by (simp add: fun_eq_iff attempts_of_def)
  then have "rows c2 = rows (c\<lparr>engine := e'\<rparr>) @ [(modelTypeCredFailover, modelID (last (requests c)), plan_credentialID p)]"
    using race_inv_cred_failover(2) [of creds "c\<lparr>engine := e'\<rparr>" p] inv pf ef p(2) by (simp add: race_inv_engine)
  then have "m = modelID (last (requests c))" "k = plan_credentialID p"
    using r2 by (simp_all add: rows_def)
  then show ?thesis using w0 pf ef by simp
qed

theorem cred_failover_conditions_witness:
  "classifyCredFailure (req_err (last (requests ex_race1))) \<noteq> credFailoverNone"
proof -
  have "rows (manage_tick ex_creds second 0 ex_race1) = rows ex_race1 @ [(modelTypeCredFailover, ''m1'', ''b'')]"
    by code_simp
  from cred_failover_conditions [OF ex_race1_reach this] show ?thesis by blast
qed

text \<open>
  The credential the request started with is not in the tried set. There is a reachable race
  whose main attempt failed on credential \<open>a\<close>, was rotated to \<open>b\<close>, failed again, and whose next
  failover plan selects \<open>a\<close> a second time, because every credential is cooling and \<open>a\<close> recovers
  first.
\<close>

theorem first_credential_retried:
  "\<exists>c p e. race_reach ex_creds c \<and> resolvedCredentialID (requests c ! 0) = ''a'' \<and>
     req_err (requests c ! 0) \<noteq> None \<and>
     credFailoverPlanLocked ex_creds (2 * second) 0 c = (Some p, e) \<and> plan_credentialID p = ''a''"
proof -
  let ?p = "the (fst (credFailoverPlanLocked ex_creds (2 * second) 0 ex_race2))"
  have "resolvedCredentialID (requests ex_race2 ! 0) = ''a''" "req_err (requests ex_race2 ! 0) \<noteq> None"
    "fst (credFailoverPlanLocked ex_creds (2 * second) 0 ex_race2) = Some ?p" "plan_credentialID ?p = ''a''"
    by code_simp+
  then show ?thesis using ex_race2_reach by (intro exI [of _ ex_race2] exI [of _ ?p]) (auto simp: prod_eq_iff)
qed

text \<open>
  In live mode an attempt that completes without an error and without a single byte stalls the
  race: it does not win, it does not count as failed, and no fallback is spawned, so that the turn
  changes nothing and the client waits for the streaming deadline.
\<close>

theorem empty_completion_stalls:
  assumes "liveFirstByteGate c" and "winner c = None" and "requests c = [r]" and "IsCompleted r"
    and "req_err r = None" and "buffer_len r = 0"
  shows "manage_tick creds now rnd c = c \<and> streamDeadlineError (handleStreamingDeadline c) \<noteq> None"
proof -
  have "scanned c = c" using assms by (simp add: scanned_def eligible_def)
  moreover have "spawn_phase creds now rnd c = (False, c)"
    using assms
    by (simp add: spawn_phase_def latest_failed_def main_idle_def IsIdle_def IsCompleted_def Let_def)
  ultimately have "manage_tick creds now rnd c = c"
    using manage_tick_eq [of creds now rnd c False c] assms by (simp add: all_failed_def)
  moreover have "best_loop None (-1) 0 (requests c) = (None, -1)"
    using assms by (simp add: IsDone_def IsCompleted_def)
  ultimately show ?thesis
    using assms(2) by (simp add: handleStreamingDeadline_def deadline_error_def cancelAll_def cancelAllExcept_def)
qed

theorem empty_completion_stalls_witness:
  "manage_tick ex_creds second 0 (ex_race_won\<lparr>liveFirstByteGate := True\<rparr>) = ex_race_won\<lparr>liveFirstByteGate := True\<rparr>"
proof -
  let ?c = "ex_race_won\<lparr>liveFirstByteGate := True\<rparr>"
  have "liveFirstByteGate ?c" "winner ?c = None" "requests ?c = [requests ?c ! 0]" "IsCompleted (requests ?c ! 0)"
    "req_err (requests ?c ! 0) = None" "buffer_len (requests ?c ! 0) = 0"
    by code_simp+
  from empty_completion_stalls [OF this, of ex_creds second 0] show ?thesis by (rule conjunct1)
qed

section \<open>The error reported to the client\<close>

lemma common_loop_nonzero:
  assumes "common_loop s rs \<noteq> 0" and "s \<noteq> 0"
  shows "common_loop s rs = s \<and> (\<forall>r \<in> set rs. req_err r \<noteq> None \<and> (400 \<le> httpStatusCode r \<longrightarrow> httpStatusCode r = s))"
  using assms by (induction rs) (auto simp: Let_def split: option.splits if_splits)

lemma common_status_spec:
  assumes "common_loop 0 rs = s" and "s \<noteq> 0" and "rs \<noteq> []"
  shows "\<forall>r \<in> set rs. req_err r \<noteq> None \<and> (400 \<le> httpStatusCode r \<longrightarrow> httpStatusCode r = s)"
proof -
  obtain r rest where rs: "rs = r # rest" using assms(3) by (cases rs) auto
  obtain e where e: "req_err r = Some e" using assms(1,2) rs by (cases "req_err r") auto
  let ?s0 = "if httpStatusCode r \<ge> 400 then httpStatusCode r else text_status (err_text e)"
  have s0: "?s0 \<noteq> 0" by (auto simp: text_status_def Let_def)
  have "common_loop ?s0 rest = s" using assms(1) rs e by (simp add: Let_def)
  then show ?thesis using common_loop_nonzero [of ?s0 rest] assms(2) s0 rs e by (auto split: if_splits)
qed

lemma status_error_code:
  "fe_ErrorCode (status_error rl st msg) = ''rate_limit'' \<longleftrightarrow> st = 429 \<and> rl"
  by (auto simp: status_error_def)

lemma final_status_range:
  "HTTPStatus (getFinalErrorInfoLocked c) \<in> {400, 404, 429, 500, 502, 503, 504}"
  by (auto simp: getFinalErrorInfoLocked_def status_error_def Let_def split: option.splits)

text \<open>
  The retry signal to the client is honest. The error code \<open>rate_limit\<close> is reported only if
  every attempt failed, no failure is a context overflow and every stored upstream status is 429;
  a context overflow is always reported as such, without a code; and the reported HTTP status is one
  of the seven documented error statuses.
\<close>

theorem rate_limit_code_honest:
  "HTTPStatus (GetFinalErrorInfo c) \<in> {400, 404, 429, 500, 502, 503, 504} \<and>
   (fe_ErrorCode (GetFinalErrorInfo c) = ''rate_limit'' \<longrightarrow>
      HTTPStatus (GetFinalErrorInfo c) = 429 \<and> GetCommonFailureStatus c = 429 \<and>
      (\<forall>r \<in> set (requests c). req_err r \<noteq> None \<and> \<not> IsContextOverflowError (req_err r) \<and>
         (400 \<le> httpStatusCode r \<longrightarrow> httpStatusCode r = 429))) \<and>
   (list_ex (\<lambda>r. IsContextOverflowError (req_err r)) (requests c) \<longrightarrow>
      HTTPStatus (GetFinalErrorInfo c) = 400 \<and> fe_ErrorCode (GetFinalErrorInfo c) = '''')"
proof (intro conjI impI)
  show "HTTPStatus (GetFinalErrorInfo c) \<in> {400, 404, 429, 500, 502, 503, 504}"
    unfolding GetFinalErrorInfo_def by (rule final_status_range)
next
  assume code: "fe_ErrorCode (GetFinalErrorInfo c) = ''rate_limit''"
  then obtain e where ne: "requests c \<noteq> []" and le: "lastError c = Some e"
      and no: "\<not> list_ex (\<lambda>r. IsContextOverflowError (req_err r)) (requests c)"
    by (auto simp: GetFinalErrorInfo_def getFinalErrorInfoLocked_def Let_def split: if_splits option.splits)
  let ?rl = "list_all (\<lambda>r. req_err r \<noteq> None) (requests c) \<and>
      list_ex (\<lambda>r. req_err r \<noteq> None \<and> httpStatusCode r = 429) (requests c)"
  have eq: "GetFinalErrorInfo c = status_error ?rl (getCommonFailureStatusLocked c) (err_text e)"
    using ne le no by (simp add: GetFinalErrorInfo_def getFinalErrorInfoLocked_def Let_def)
  then have st: "getCommonFailureStatusLocked c = 429" and rl: ?rl
    using code status_error_code [of ?rl "getCommonFailureStatusLocked c" "err_text e"] by auto
  have cl: "common_loop 0 (requests c) = 429"
    using st ne by (simp add: getCommonFailureStatusLocked_def)
  show "HTTPStatus (GetFinalErrorInfo c) = 429" using eq st rl by (simp add: status_error_def)
  show "GetCommonFailureStatus c = 429" using st by (simp add: GetCommonFailureStatus_def)
  show "\<forall>r \<in> set (requests c). req_err r \<noteq> None \<and> \<not> IsContextOverflowError (req_err r) \<and>
         (400 \<le> httpStatusCode r \<longrightarrow> httpStatusCode r = 429)"
    using common_status_spec [OF cl _ ne] no by (auto simp: list_ex_iff)
next
  assume ex: "list_ex (\<lambda>r. IsContextOverflowError (req_err r)) (requests c)"
  then obtain r where "r \<in> set (requests c)" "req_err r \<noteq> None"
    by (auto simp: list_ex_iff IsContextOverflowError_def split: option.splits)
  then have "lastError c \<noteq> None" by (force simp: lastError_def List.map_filter_def Let_def filter_empty_conv)
  then show "HTTPStatus (GetFinalErrorInfo c) = 400" "fe_ErrorCode (GetFinalErrorInfo c) = ''''"
    using ex by (auto simp: GetFinalErrorInfo_def getFinalErrorInfoLocked_def Let_def)
qed

theorem rate_limit_code_honest_witness:
  "GetCommonFailureStatus (ex_race1\<lparr>requests := map (SetHTTPStatus 429) (requests ex_race1)\<rparr>) = 429"
proof -
  have "fe_ErrorCode (GetFinalErrorInfo (ex_race1\<lparr>requests := map (SetHTTPStatus 429) (requests ex_race1)\<rparr>)) = ''rate_limit''"
    by code_simp
  with rate_limit_code_honest [of "ex_race1\<lparr>requests := map (SetHTTPStatus 429) (requests ex_race1)\<rparr>"]
  show ?thesis by blast
qed

section \<open>Deadlines\<close>

lemma best_loop_spec:
  assumes "best_loop b l i rs = (b', l')"
  shows "l \<le> l' \<and> (\<forall>r \<in> set rs. \<not> IsDone r \<longrightarrow> buffer_len r \<le> l') \<and>
         (b' = b \<and> l' = l \<or> (\<exists>j < length rs. b' = Some (i + j) \<and> \<not> IsDone (rs ! j) \<and> buffer_len (rs ! j) = l'))"
  using assms
proof (induction rs arbitrary: b l i)
  case (Cons r rs)
  show ?case
  proof (cases "\<not> IsDone r \<and> l < buffer_len r")
    case True
    then have "best_loop (Some i) (buffer_len r) (Suc i) rs = (b', l')" using Cons.prems by simp
    from Cons.IH [OF this] show ?thesis using True
      by (auto intro: exI [of _ 0])
  next
    case False
    then have "best_loop b l (Suc i) rs = (b', l')" using Cons.prems by auto
    from Cons.IH [OF this] show ?thesis using False
      by auto
  qed
qed simp

text \<open>
  At the streaming deadline without a winner, the attempt elected is an unfinished one with
  the most buffered bytes, every other attempt is cancelled and the stream is opened; if no
  attempt is unfinished, or in live mode none has a byte, the race ends with an error and every
  attempt cancelled. The hard deadline cancels every attempt and ends the race.
\<close>

theorem deadline_picks_best:
  assumes "winner c = None" and "\<forall>r \<in> set (requests c). 0 \<le> buffer_len r"
  shows "(case winner (handleStreamingDeadline c) of
            Some i \<Rightarrow> i < length (requests c) \<and> \<not> IsDone (requests c ! i) \<and>
              (\<forall>r \<in> set (requests c). IsDone r \<or> buffer_len r \<le> buffer_len (requests c ! i)) \<and>
              (\<forall>j < length (requests c). j \<noteq> i \<longrightarrow> cancelled (requests (handleStreamingDeadline c) ! j)) \<and>
              (liveFirstByteGate c \<longrightarrow> 0 < buffer_len (requests c ! i))
          | None \<Rightarrow> race_done (handleStreamingDeadline c) \<and> streamDeadlineError (handleStreamingDeadline c) \<noteq> None \<and>
              (\<forall>r \<in> set (requests c). IsDone r \<or> liveFirstByteGate c \<and> buffer_len r = 0)) \<and>
         streamCh (handleStreamingDeadline c) \<and>
         (\<forall>j < length (requests c). cancelled (requests (handleHardDeadline c) ! j)) \<and> race_done (handleHardDeadline c)"
proof -
  obtain best bl where b: "best_loop None (-1) 0 (requests c) = (best, bl)" by fastforce
  note spec = best_loop_spec [OF b]
  have hard: "(\<forall>j < length (requests c). cancelled (requests (handleHardDeadline c) ! j)) \<and> race_done (handleHardDeadline c)"
    using cancel_others [of _ c None] by (simp add: handleHardDeadline_def cancelAll_def)
  have err: "winner (deadline_error c) = None" "race_done (deadline_error c)" "streamCh (deadline_error c)"
      "streamDeadlineError (deadline_error c) \<noteq> None"
    using assms(1) by (simp_all add: deadline_error_def cancelAll_def cancelAllExcept_def)
  show ?thesis
  proof (cases best)
    case None
    have "bl = -1" using spec None by auto
    then have "\<forall>r \<in> set (requests c). IsDone r" using spec assms(2) by force
    moreover have "handleStreamingDeadline c = deadline_error c"
      using assms(1) b None by (simp add: handleStreamingDeadline_def)
    ultimately show ?thesis using err hard by simp
  next
    case (Some i)
    then have i: "i < length (requests c)" "\<not> IsDone (requests c ! i)" "buffer_len (requests c ! i) = bl"
      using spec by auto
    have max: "\<forall>r \<in> set (requests c). IsDone r \<or> buffer_len r \<le> bl" using spec by blast
    show ?thesis
    proof (cases "liveFirstByteGate c \<and> bl = 0")
      case True
      then have "handleStreamingDeadline c = deadline_error c"
        using assms(1) b Some by (simp add: handleStreamingDeadline_def)
      moreover have "\<forall>r \<in> set (requests c). IsDone r \<or> buffer_len r = 0"
        using max assms(2) True by force
      ultimately show ?thesis using err hard True by simp
    next
      case False
      let ?c = "c\<lparr>winner := Some i, winnerIdx := int (rid (requests c ! i)), streamCh := True\<rparr>"
      have h: "handleStreamingDeadline c = cancelAllExcept (Some i) ?c"
        using assms(1) b Some False by (auto simp: handleStreamingDeadline_def)
      have "0 \<le> bl" using i assms(2) nth_mem by force
      then show ?thesis
        using i max hard False cancel_others [of _ ?c "Some i"] by (auto simp: h)
    qed
  qed
qed

theorem deadline_picks_best_witness:
  "streamCh (handleStreamingDeadline ex_race) \<and> race_done (handleHardDeadline ex_race)"
proof -
  have "winner ex_race = None" "\<forall>r \<in> set (requests ex_race). 0 \<le> buffer_len r" by code_simp+
  from deadline_picks_best [OF this] show ?thesis by blast
qed

text \<open>
  After an idle timeout the third model of a chain is out of reach. The idle path spawns a
  second attempt on the first model and a fallback on the second one; these use up the spawn
  window of a three-model chain, so that when all three fail, with no credential rotation left,
  the race is over although the last model was never tried.
\<close>

theorem idle_race_skips_third_model:
  assumes "chain c = [m1, m2, m3]" and "m3 \<noteq> m1" and "m3 \<noteq> m2"
    and "rows c = [(modelTypeMain, m1, ''''), (modelTypeSecond, m1, ''''), (modelTypeFallback, m2, '''')]"
    and "winner c = None" and "all_failed c" and "\<not> credFailoverEligibleLocked creds c"
  shows "race_done (manage_tick creds now rnd c) \<and> loop_exited (manage_tick creds now rnd c) \<and>
         m3 \<notin> modelID ` set (requests (manage_tick creds now rnd c))"
proof -
  have n: "modelAttemptCountLocked c = 3" using assms(4) by (simp add: model_rows_count model_rows_def)
  have "\<not> list_ex (eligible g) (requests c)" for g
    using assms(6) by (auto simp: all_failed_def list_all_iff list_ex_iff eligible_def)
  then have sc: "scanned c = c" using assms(5) by (simp add: scanned_def winner_scan_first)
  have "spawn_phase creds now rnd (scanned c) = (False, c)"
    using n assms(1,7) by (simp add: sc spawn_phase_def)
  from manage_tick_eq [OF this]
  have t: "manage_tick creds now rnd c = c\<lparr>race_done := True, streamCh := True, loop_exited := True\<rparr>"
    using n assms(1,5,6) by (simp add: sc)
  have "row_model ` set (rows c) = modelID ` set (requests c)"
    by (simp add: rows_def row_model_def image_image)
  moreover have "m3 \<notin> row_model ` set (rows c)" using assms(2-4) by (simp add: row_model_def)
  ultimately show ?thesis by (simp add: t)
qed

theorem idle_race_skips_third_model_witness:
  "race_done (manage_tick ex_creds (2 * minute) 0 ex_idle_race) \<and>
   ''m3'' \<notin> modelID ` set (requests (manage_tick ex_creds (2 * minute) 0 ex_idle_race))"
proof -
  have "chain ex_idle_race = [''m1'', ''m2'', ''m3'']" "''m3'' \<noteq> ''m1''" "''m3'' \<noteq> ''m2''"
    "rows ex_idle_race = [(modelTypeMain, ''m1'', ''''), (modelTypeSecond, ''m1'', ''''), (modelTypeFallback, ''m2'', '''')]"
    "winner ex_idle_race = None" "all_failed ex_idle_race" "\<not> credFailoverEligibleLocked ex_creds ex_idle_race"
    by code_simp+
  from idle_race_skips_third_model [OF this, of "2 * minute" 0] show ?thesis by blast
qed

end
