(* ===== verification/UltimateModel.thy ===== *)
theory UltimateModel
  imports Prelude "HOL-Library.Multiset"
begin

text \<open>
  The trigger of the ultimate model: the circular buffer of message hashes with its attempt counters
  (\<open>pkg/ultimatemodel/hash_cache.go\<close>) and the escalation schedule over it (\<open>handler.go\<close>).

  A message is what \<open>HashMessages\<close> reads of it: the role when it is a string, and the content as a
  string, a list of parts (a part that is no object is \<open>None\<close>) or something else. SHA-256 with its hex
  encoding is the argument \<open>sha\<close> of the definitions. The specification is a bounded queue of
  hashes with their attempts, oldest first; without removals the circular buffer implements it.
\<close>

section \<open>The hash cache\<close>

record HashCache =
  hashes :: "string list"
  hc_size :: nat
  hc_head :: nat
  hc_count :: nat
  attemptCounter :: "(string, nat) fmap"

definition NewHashCache :: "int \<Rightarrow> HashCache" where
  "NewHashCache maxSize =
     (let n = (if maxSize \<le> 0 then 100 else nat maxSize)
      in \<lparr>hashes = replicate n '''', hc_size = n, hc_head = 0, hc_count = 0, attemptCounter = fmempty\<rparr>)"

definition containsLocked :: "string \<Rightarrow> HashCache \<Rightarrow> bool" where
  "containsLocked h c = list_ex (\<lambda>i. hashes c ! i = h) [0..<hc_count c]"

definition insertLocked :: "string \<Rightarrow> HashCache \<Rightarrow> HashCache" where
  "insertLocked h c =
     (let evicted = hashes c ! hc_head c;
          c1 = (if hc_size c \<le> hc_count c \<and> evicted \<noteq> ''''
                then c\<lparr>attemptCounter := fmdrop evicted (attemptCounter c)\<rparr> else c)
      in c1\<lparr>hashes := (hashes c1)[hc_head c1 := h], hc_head := (hc_head c1 + 1) mod hc_size c1,
            hc_count := (if hc_count c1 < hc_size c1 then hc_count c1 + 1 else hc_count c1)\<rparr>)"

definition attempts :: "HashCache \<Rightarrow> string \<Rightarrow> nat" where
  "attempts c h = (case fmlookup (attemptCounter c) h of None \<Rightarrow> 0 | Some n \<Rightarrow> n)"

definition set_attempts :: "string \<Rightarrow> nat \<Rightarrow> HashCache \<Rightarrow> HashCache" where
  "set_attempts h n c = c\<lparr>attemptCounter := fmupd h n (attemptCounter c)\<rparr>"

definition RecordAttempt :: "string \<Rightarrow> HashCache \<Rightarrow> nat \<times> HashCache" where
  "RecordAttempt h c =
     (if containsLocked h c then (attempts c h + 1, set_attempts h (attempts c h + 1) c)
      else (1, set_attempts h 1 (insertLocked h c)))"

definition StoreIfAbsent :: "string \<Rightarrow> HashCache \<Rightarrow> HashCache" where
  "StoreIfAbsent h c = (if containsLocked h c then c else set_attempts h 1 (insertLocked h c))"

text \<open>The loop of \<open>Remove\<close> from index \<open>i\<close> on; \<open>copy\<close> moves the entries behind \<open>i\<close> one place down.\<close>

definition remove_at :: "nat \<Rightarrow> HashCache \<Rightarrow> HashCache" where
  "remove_at i c =
     (let n = hc_count c;
          shifted = take i (hashes c) @ drop (i + 1) (take n (hashes c)) @ drop (n - 1) (hashes c)
      in c\<lparr>hashes := shifted[n - 1 := ''''], hc_count := n - 1,
           hc_head := (if i = 0 then (hc_head c + hc_size c - 1) mod hc_size c else hc_head c)\<rparr>)"

definition Remove :: "string \<Rightarrow> HashCache \<Rightarrow> HashCache" where
  "Remove h c =
     (let c1 = (case find (\<lambda>i. hashes c ! i = h) [0..<hc_count c] of None \<Rightarrow> c | Some i \<Rightarrow> remove_at i c)
      in c1\<lparr>attemptCounter := fmdrop h (attemptCounter c1)\<rparr>)"

definition hc_Contains :: "string \<Rightarrow> HashCache \<Rightarrow> bool" where
  "hc_Contains h c = list_ex (\<lambda>i. hashes c ! i = h) [0..<hc_count c]"

definition Reset :: "HashCache \<Rightarrow> HashCache" where
  "Reset c = c\<lparr>hashes := replicate (hc_size c) '''', hc_head := 0, hc_count := 0, attemptCounter := fmempty\<rparr>"

definition GetStats_hc :: "HashCache \<Rightarrow> nat \<times> nat" where
  "GetStats_hc c = (hc_count c, hc_size c)"

section \<open>Message hashes\<close>

record content_part =
  part_type :: "string option"
  part_text :: "string option"
  part_url :: "string option"

datatype content = ContentText string | ContentParts "content_part option list" | ContentOther

record message =
  msg_role :: "string option"
  msg_content :: content

definition opt_str :: "string option \<Rightarrow> string" where
  "opt_str s = (case s of None \<Rightarrow> '''' | Some x \<Rightarrow> x)"

definition part_bytes :: "content_part option \<Rightarrow> string" where
  "part_bytes p =
     (case p of
        None \<Rightarrow> ''''
      | Some q \<Rightarrow> (case part_type q of None \<Rightarrow> '''' | Some t \<Rightarrow> t @ '':'') @ opt_str (part_text q) @ opt_str (part_url q))"

definition content_bytes :: "content \<Rightarrow> string" where
  "content_bytes x =
     (case x of ContentText s \<Rightarrow> s | ContentParts ps \<Rightarrow> concat (map part_bytes ps) | ContentOther \<Rightarrow> '''')"

definition message_bytes :: "message \<Rightarrow> string" where
  "message_bytes m = opt_str (msg_role m) @ ''|'' @ content_bytes (msg_content m) @ [CHR 0x0A]"

definition HashMessages :: "(string \<Rightarrow> string) \<Rightarrow> message list \<Rightarrow> string" where
  "HashMessages sha ms = sha (concat (map message_bytes ms))"

section \<open>The schedule\<close>

definition triggerAttempts :: "nat list" where
  "triggerAttempts = [5, 10, 20, 30, 40]"

definition maxAttempts :: nat where
  "maxAttempts = 40"

definition isTriggerAttempt :: "nat \<Rightarrow> bool" where
  "isTriggerAttempt n = list_ex (\<lambda>milestone. n = milestone) triggerAttempts"

record ShouldTriggerResult =
  Triggered :: bool
  res_Hash :: string
  AttemptsExhausted :: bool
  CurrentAttempt :: nat
  MaxAttempts :: nat

definition shouldTriggerInternal ::
  "(string \<Rightarrow> string) \<Rightarrow> string \<Rightarrow> message list \<Rightarrow> bool \<Rightarrow> HashCache \<Rightarrow> ShouldTriggerResult \<times> HashCache" where
  "shouldTriggerInternal sha ultimateID ms force c =
     (if ultimateID = '''' \<or> ms = []
      then (\<lparr>Triggered = False, res_Hash = '''', AttemptsExhausted = False, CurrentAttempt = 0, MaxAttempts = 0\<rparr>, c)
      else
        (let h = HashMessages sha ms
         in if force
            then (\<lparr>Triggered = True, res_Hash = h, AttemptsExhausted = False, CurrentAttempt = 0,
                   MaxAttempts = maxAttempts\<rparr>, StoreIfAbsent h c)
            else
              (let (n, c1) = RecordAttempt h c
               in if n > maxAttempts
                  then (\<lparr>Triggered = True, res_Hash = h, AttemptsExhausted = True, CurrentAttempt = n,
                         MaxAttempts = maxAttempts\<rparr>, c1)
                  else if isTriggerAttempt n
                  then (\<lparr>Triggered = True, res_Hash = h, AttemptsExhausted = False, CurrentAttempt = n,
                         MaxAttempts = maxAttempts\<rparr>, c1)
                  else (\<lparr>Triggered = False, res_Hash = h, AttemptsExhausted = False, CurrentAttempt = n,
                         MaxAttempts = maxAttempts\<rparr>, c1))))"

definition ShouldTrigger ::
  "(string \<Rightarrow> string) \<Rightarrow> string \<Rightarrow> message list \<Rightarrow> HashCache \<Rightarrow> ShouldTriggerResult \<times> HashCache" where
  "ShouldTrigger sha ultimateID ms c = shouldTriggerInternal sha ultimateID ms False c"

definition ForceTrigger ::
  "(string \<Rightarrow> string) \<Rightarrow> string \<Rightarrow> message list \<Rightarrow> HashCache \<Rightarrow> ShouldTriggerResult \<times> HashCache" where
  "ForceTrigger sha ultimateID ms c = shouldTriggerInternal sha ultimateID ms True c"

text \<open>The hash cache after \<open>Execute\<close>: removed on a configuration error and on success, kept on failure.\<close>

definition execute_cache :: "bool \<Rightarrow> bool \<Rightarrow> string \<Rightarrow> HashCache \<Rightarrow> HashCache" where
  "execute_cache modelInternal success h c =
     (if \<not> modelInternal then Remove h c else if success then Remove h c else c)"

definition OnConfigChange :: "string option \<Rightarrow> HashCache \<Rightarrow> HashCache" where
  "OnConfigChange changed c = (if changed = Some ''ultimate_model.model_id'' then Reset c else c)"

section \<open>Specification: a bounded queue with attempts\<close>

definition spec_mem :: "string \<Rightarrow> (string \<times> nat) list \<Rightarrow> bool" where
  "spec_mem h q \<longleftrightarrow> h \<in> fst ` set q"

definition spec_push :: "nat \<Rightarrow> string \<Rightarrow> (string \<times> nat) list \<Rightarrow> (string \<times> nat) list" where
  "spec_push cap h q = (if length q < cap then q else tl q) @ [(h, 1)]"

definition spec_record :: "nat \<Rightarrow> string \<Rightarrow> (string \<times> nat) list \<Rightarrow> (string \<times> nat) list" where
  "spec_record cap h q =
     (if spec_mem h q then map (\<lambda>(k, n). (k, if k = h then n + 1 else n)) q else spec_push cap h q)"

definition spec_count :: "string \<Rightarrow> (string \<times> nat) list \<Rightarrow> nat" where
  "spec_count h q = (case map_of q h of None \<Rightarrow> 0 | Some n \<Rightarrow> n)"

text \<open>The hashes of the buffer, oldest first, and the queue it stands for.\<close>

definition ring :: "HashCache \<Rightarrow> string list" where
  "ring c = (if hc_count c < hc_size c then take (hc_count c) (hashes c)
             else drop (hc_head c) (hashes c) @ take (hc_head c) (hashes c))"

definition queue_of :: "HashCache \<Rightarrow> (string \<times> nat) list" where
  "queue_of c = map (\<lambda>h. (h, attempts c h)) (ring c)"

definition hc_inv :: "HashCache \<Rightarrow> bool" where
  "hc_inv c \<longleftrightarrow>
     0 < hc_size c \<and> length (hashes c) = hc_size c \<and> hc_count c \<le> hc_size c \<and> hc_head c < hc_size c \<and>
     (hc_count c < hc_size c \<longrightarrow> hc_head c = hc_count c) \<and>
     distinct (take (hc_count c) (hashes c)) \<and> '''' \<notin> set (take (hc_count c) (hashes c)) \<and>
     fset (fmdom (attemptCounter c)) = set (take (hc_count c) (hashes c))"

datatype hc_op = OpRecord string | OpStore string | OpReset

definition op_hash :: "hc_op \<Rightarrow> string option" where
  "op_hash x = (case x of OpRecord h \<Rightarrow> Some h | OpStore h \<Rightarrow> Some h | OpReset \<Rightarrow> None)"

fun apply_op :: "hc_op \<Rightarrow> HashCache \<Rightarrow> HashCache" where
  "apply_op (OpRecord h) c = snd (RecordAttempt h c)"
| "apply_op (OpStore h) c = StoreIfAbsent h c"
| "apply_op OpReset c = Reset c"

fun spec_op :: "nat \<Rightarrow> hc_op \<Rightarrow> (string \<times> nat) list \<Rightarrow> (string \<times> nat) list" where
  "spec_op cap (OpRecord h) q = spec_record cap h q"
| "spec_op cap (OpStore h) q = (if spec_mem h q then q else spec_push cap h q)"
| "spec_op cap OpReset q = []"

fun trigger_run :: "(string \<Rightarrow> string) \<Rightarrow> string \<Rightarrow> message list list \<Rightarrow> HashCache \<Rightarrow> HashCache" where
  "trigger_run sha m [] c = c"
| "trigger_run sha m (ms # rest) c = trigger_run sha m rest (snd (ShouldTrigger sha m ms c))"

definition counts_of :: "string list \<Rightarrow> (string \<times> nat) list \<Rightarrow> bool" where
  "counts_of hs q \<longleftrightarrow> distinct (map fst q) \<and> fst ` set q = set hs \<and> (\<forall>h. spec_count h q = count_list hs h)"

definition ex_cache :: HashCache where
  "ex_cache = snd (RecordAttempt ''b'' (snd (RecordAttempt ''a'' (NewHashCache 3))))"

definition ex_msg :: "string \<Rightarrow> message" where
  "ex_msg s = \<lparr>msg_role = Some ''user'', msg_content = ContentText s\<rparr>"

section \<open>The buffer implements the queue\<close>

lemma containsLocked_iff:
  "hc_count c \<le> length (hashes c) \<Longrightarrow> containsLocked h c \<longleftrightarrow> h \<in> set (take (hc_count c) (hashes c))"
  by (auto simp: containsLocked_def list_ex_iff in_set_conv_nth)

lemma hc_Contains_containsLocked: "hc_Contains h c = containsLocked h c"
  by (simp add: hc_Contains_def containsLocked_def)

lemma mset_ring:
  assumes "length (hashes c) = hc_size c" and "hc_count c \<le> hc_size c"
  shows "mset (ring c) = mset (take (hc_count c) (hashes c))"
proof (cases "hc_count c < hc_size c")
  case False
  then have "take (hc_count c) (hashes c) = hashes c" using assms by simp
  then show ?thesis using False by (simp add: ring_def) (metis append_take_drop_id mset_append union_commute)
qed (simp add: ring_def)

lemma ring_facts:
  assumes "hc_inv c"
  shows "set (ring c) = set (take (hc_count c) (hashes c))" and "distinct (ring c)"
    and "length (ring c) = hc_count c" and "containsLocked h c \<longleftrightarrow> h \<in> set (ring c)"
    and "fset (fmdom (attemptCounter c)) = set (ring c)"
proof -
  have m: "mset (ring c) = mset (take (hc_count c) (hashes c))"
    using assms by (intro mset_ring) (simp_all add: hc_inv_def)
  show s: "set (ring c) = set (take (hc_count c) (hashes c))" using m by (rule mset_eq_setD)
  show "distinct (ring c)" using m assms by (metis hc_inv_def mset_eq_imp_distinct_iff)
  show "length (ring c) = hc_count c" using mset_eq_length [OF m] assms by (simp add: hc_inv_def)
  show "containsLocked h c \<longleftrightarrow> h \<in> set (ring c)"
    using assms by (simp add: s containsLocked_iff hc_inv_def)
  show "fset (fmdom (attemptCounter c)) = set (ring c)" using assms by (simp add: s hc_inv_def)
qed

lemma map_of_graph: "map_of (map (\<lambda>x. (x, f x)) xs) y = (if y \<in> set xs then Some (f y) else None)"
  by (induction xs) auto

lemma count_list_replicate: "count_list (replicate n x) y = (if x = y then n else 0)"
  by (induction n) auto

lemma set_tl_subset: "set (tl xs) \<subseteq> set xs"
  by (cases xs) auto

lemma take_Suc_update: "n < length xs \<Longrightarrow> take (Suc n) (xs[n := x]) = take n xs @ [x]"
  by (simp add: take_Suc_conv_app_nth)

lemma insertLocked_simps [simp]:
  "hc_size (insertLocked h c) = hc_size c"
  "hashes (insertLocked h c) = (hashes c)[hc_head c := h]"
  "hc_head (insertLocked h c) = (hc_head c + 1) mod hc_size c"
  "hc_count (insertLocked h c) = (if hc_count c < hc_size c then hc_count c + 1 else hc_count c)"
  by (simp_all add: insertLocked_def Let_def)

lemma ring_insertLocked:
  assumes "hc_inv c"
  shows "ring (insertLocked h c) = (if hc_count c < hc_size c then ring c else tl (ring c)) @ [h]"
proof (cases "hc_count c < hc_size c")
  case True
  then have h: "hc_head c = hc_count c" and l: "hc_count c < length (hashes c)"
    using assms by (simp_all add: hc_inv_def)
  show ?thesis
  proof (cases "hc_count c + 1 < hc_size c")
    case True then show ?thesis using h l by (simp add: ring_def take_Suc_update)
  next
    case False
    then have e: "hc_size c = Suc (hc_count c)" and e': "length (hashes c) = Suc (hc_count c)"
      using \<open>hc_count c < hc_size c\<close> assms by (simp_all add: hc_inv_def)
    have "(hashes c)[hc_count c := h] = take (hc_count c) (hashes c) @ [h]"
      using take_Suc_update [OF l, of h] e' by simp
    then show ?thesis using h e by (simp add: ring_def)
  qed
next
  case False
  then have l: "hc_head c < length (hashes c)" and s: "length (hashes c) = hc_size c"
    using assms by (simp_all add: hc_inv_def)
  have t: "tl (ring c) = drop (Suc (hc_head c)) (hashes c) @ take (hc_head c) (hashes c)"
    using False l by (simp add: ring_def drop_Suc tl_append2 tl_drop)
  show ?thesis
  proof (cases "Suc (hc_head c) < hc_size c")
    case True then show ?thesis using False l t by (simp add: ring_def take_Suc_update)
  next
    case False': False
    then have "hc_size c = Suc (hc_head c)" using l s by simp
    moreover from this have "(hashes c)[hc_head c := h] = take (hc_head c) (hashes c) @ [h]"
      using take_Suc_update [OF l, of h] s by simp
    ultimately show ?thesis using False s t by (simp add: ring_def)
  qed
qed

lemma tl_ring:
  assumes "hc_inv c" and "\<not> hc_count c < hc_size c"
  shows "ring c = hashes c ! hc_head c # tl (ring c)"
  using assms by (simp add: ring_def hc_inv_def Cons_nth_drop_Suc [symmetric])

lemma attemptCounter_insertLocked:
  assumes "hc_inv c"
  shows "attemptCounter (insertLocked h c) =
    (if hc_count c < hc_size c then attemptCounter c else fmdrop (hd (ring c)) (attemptCounter c))"
proof (cases "hc_count c < hc_size c")
  case False
  have "hashes c ! hc_head c = hd (ring c)" using tl_ring [OF assms False] by (metis list.sel(1))
  moreover have "hd (ring c) \<noteq> ''''"
    using assms ring_facts(1) [OF assms] tl_ring [OF assms False]
    by (metis hc_inv_def list.sel(1) list.set_intros(1))
  ultimately show ?thesis using False by (simp add: insertLocked_def Let_def)
qed (simp add: insertLocked_def Let_def)

lemma set_attempts_simps [simp]:
  "hashes (set_attempts h n c) = hashes c" "hc_size (set_attempts h n c) = hc_size c"
  "hc_head (set_attempts h n c) = hc_head c" "hc_count (set_attempts h n c) = hc_count c"
  "attemptCounter (set_attempts h n c) = fmupd h n (attemptCounter c)"
  "ring (set_attempts h n c) = ring c"
  "attempts (set_attempts h n c) k = (if k = h then n else attempts c k)"
  by (simp_all add: set_attempts_def ring_def attempts_def)

text \<open>The invariant over the ring: the form in which the operations keep it.\<close>

lemma hc_invI:
  assumes "0 < hc_size c" "length (hashes c) = hc_size c" "hc_count c \<le> hc_size c" "hc_head c < hc_size c"
    and "hc_count c < hc_size c \<Longrightarrow> hc_head c = hc_count c"
    and "distinct (ring c)" "'''' \<notin> set (ring c)" "fset (fmdom (attemptCounter c)) = set (ring c)"
  shows "hc_inv c"
proof -
  have m: "mset (ring c) = mset (take (hc_count c) (hashes c))" using assms(2,3) by (rule mset_ring)
  show ?thesis
    using assms mset_eq_setD [OF m] mset_eq_imp_distinct_iff [OF m] unfolding hc_inv_def by simp
qed

lemma ring_nonempty_string: "hc_inv c \<Longrightarrow> '''' \<notin> set (ring c)"
  using ring_facts(1) [of c] by (simp add: hc_inv_def)

lemma hc_inv_store:
  assumes "hc_inv c" and "h \<notin> set (ring c)" and "h \<noteq> ''''"
  shows "hc_inv (set_attempts h 1 (insertLocked h c))"
proof (rule hc_invI)
  let ?c = "set_attempts h 1 (insertLocked h c)"
  let ?r = "if hc_count c < hc_size c then ring c else tl (ring c)"
  have r: "ring ?c = ?r @ [h]" by (simp add: ring_insertLocked [OF assms(1)])
  have sub: "set ?r \<subseteq> set (ring c)" by (simp add: set_tl_subset)
  have d: "distinct ?r" using ring_facts(2) [OF assms(1)] by (simp add: distinct_tl)
  show "distinct (ring ?c)" unfolding r using d sub assms(2) by auto
  show "'''' \<notin> set (ring ?c)" unfolding r using sub ring_nonempty_string [OF assms(1)] assms(3) by auto
  have "set (tl (ring c)) = set (ring c) - {hd (ring c)}" if "\<not> hc_count c < hc_size c"
    using ring_facts(2) [OF assms(1)] by (subst (1 2 3) tl_ring [OF assms(1) that]) (subst (asm) tl_ring [OF assms(1) that], simp)
  then show "fset (fmdom (attemptCounter ?c)) = set (ring ?c)"
    unfolding r using ring_facts(5) [OF assms(1)] by (simp add: attemptCounter_insertLocked [OF assms(1)])
qed (use assms(1) in \<open>simp_all add: hc_inv_def split: if_splits\<close>)

lemma queue_facts:
  assumes "hc_inv c"
  shows "spec_mem h (queue_of c) \<longleftrightarrow> containsLocked h c" and "length (queue_of c) = hc_count c"
    and "spec_count h (queue_of c) = attempts c h" and "distinct (map fst (queue_of c))"
proof -
  show "spec_mem h (queue_of c) \<longleftrightarrow> containsLocked h c"
    by (force simp: spec_mem_def queue_of_def ring_facts(4) [OF assms])
  show "length (queue_of c) = hc_count c" by (simp add: queue_of_def ring_facts(3) [OF assms])
  have "map_of (queue_of c) h = (if h \<in> set (ring c) then Some (attempts c h) else None)"
    unfolding queue_of_def by (rule map_of_graph)
  moreover have "attempts c h = 0" if "h \<notin> set (ring c)"
    using that ring_facts(5) [OF assms] by (simp add: attempts_def fmdom_notD)
  ultimately show "spec_count h (queue_of c) = attempts c h" by (simp add: spec_count_def)
  show "distinct (map fst (queue_of c))" using ring_facts(2) [OF assms] by (simp add: queue_of_def comp_def)
qed

lemma attempts_insertLocked:
  assumes "hc_inv c" and "k \<in> set (if hc_count c < hc_size c then ring c else tl (ring c))"
  shows "attempts (insertLocked h c) k = attempts c k"
proof (cases "hc_count c < hc_size c")
  case False
  then have "k \<noteq> hd (ring c)"
    using assms ring_facts(2) [OF assms(1)] tl_ring [OF assms(1) False] by (metis distinct.simps(2) list.sel(1))
  then show ?thesis using False by (simp add: attempts_def attemptCounter_insertLocked [OF assms(1)])
qed (simp add: attempts_def attemptCounter_insertLocked [OF assms(1)])

lemma queue_of_store:
  assumes "hc_inv c" and "h \<notin> set (ring c)"
  shows "queue_of (set_attempts h 1 (insertLocked h c)) = spec_push (hc_size c) h (queue_of c)"
proof -
  let ?r = "if hc_count c < hc_size c then ring c else tl (ring c)"
  have "set ?r \<subseteq> set (ring c)" by (simp add: set_tl_subset)
  then have "map (\<lambda>k. (k, if k = h then 1 else attempts (insertLocked h c) k)) ?r = map (\<lambda>k. (k, attempts c k)) ?r"
    using assms(2) attempts_insertLocked [OF assms(1), of _ h] by (intro map_cong) auto
  moreover have "queue_of (set_attempts h 1 (insertLocked h c)) =
      map (\<lambda>k. (k, if k = h then 1 else attempts (insertLocked h c) k)) ?r @ [(h, 1)]"
    by (simp add: queue_of_def ring_insertLocked [OF assms(1)])
  ultimately show ?thesis
    by (simp only: spec_push_def) (simp add: queue_of_def ring_facts(3) [OF assms(1)] map_tl)
qed

lemma queue_of_increment:
  "queue_of (set_attempts h n c) = map (\<lambda>(k, m). (k, if k = h then n else m)) (queue_of c)"
  by (simp add: queue_of_def)

lemma map_set_to_increment:
  assumes "distinct (map fst q)"
  shows "map (\<lambda>(k, m). (k, if k = h then spec_count h q + 1 else m)) q =
    map (\<lambda>(k, m). (k, if k = h then m + 1 else m)) q"
proof (rule map_cong [OF refl])
  fix x assume "x \<in> set q"
  then show "(case x of (k, m) \<Rightarrow> (k, if k = h then spec_count h q + 1 else m)) =
      (case x of (k, m) \<Rightarrow> (k, if k = h then m + 1 else m))"
    using map_of_is_SomeI [OF assms, of "fst x" "snd x"] by (simp add: spec_count_def split: prod.splits) auto
qed

lemma RecordAttempt_refines:
  assumes "hc_inv c" and "h \<noteq> ''''"
  shows "hc_inv (snd (RecordAttempt h c))" and "hc_size (snd (RecordAttempt h c)) = hc_size c"
    and "queue_of (snd (RecordAttempt h c)) = spec_record (hc_size c) h (queue_of c)"
    and "fst (RecordAttempt h c) = spec_count h (queue_of c) + 1"
proof -
  note q = queue_facts [OF assms(1)]
  have new: "h \<notin> set (ring c)" if "\<not> containsLocked h c" using that ring_facts(4) [OF assms(1)] by simp
  have inc: "hc_inv (set_attempts h n c)" if "containsLocked h c" for n
    using assms(1) that ring_facts(1,4) [OF assms(1)] by (auto simp: hc_inv_def)
  show "hc_inv (snd (RecordAttempt h c))"
    using inc hc_inv_store [OF assms(1) new assms(2)] by (simp add: RecordAttempt_def)
  show "hc_size (snd (RecordAttempt h c)) = hc_size c" by (simp add: RecordAttempt_def)
  show "queue_of (snd (RecordAttempt h c)) = spec_record (hc_size c) h (queue_of c)"
  proof (cases "containsLocked h c")
    case True
    then show ?thesis
      unfolding RecordAttempt_def spec_record_def q(3) [symmetric] q(1)
      using map_set_to_increment [OF q(4), of h] by (simp only: if_True snd_conv queue_of_increment)
  qed (simp add: RecordAttempt_def spec_record_def q(1) queue_of_store [OF assms(1) new, simplified])
  have "attempts c h = 0" if "\<not> containsLocked h c"
    using ring_facts(5) [OF assms(1)] new [OF that] by (simp add: attempts_def fmdom_notD)
  then show "fst (RecordAttempt h c) = spec_count h (queue_of c) + 1" by (simp add: RecordAttempt_def q(3))
qed

lemma StoreIfAbsent_refines:
  assumes "hc_inv c" and "h \<noteq> ''''"
  shows "hc_inv (StoreIfAbsent h c)" and "hc_size (StoreIfAbsent h c) = hc_size c"
    and "queue_of (StoreIfAbsent h c) = (if spec_mem h (queue_of c) then queue_of c else spec_push (hc_size c) h (queue_of c))"
  using assms hc_inv_store [of c h] queue_of_store [of c h] ring_facts(4) [OF assms(1)] queue_facts(1) [OF assms(1)]
  by (simp_all add: StoreIfAbsent_def)

lemma Reset_refines:
  assumes "hc_inv c"
  shows "hc_inv (Reset c)" and "hc_size (Reset c) = hc_size c" and "queue_of (Reset c) = []"
  using assms by (simp_all add: Reset_def hc_inv_def queue_of_def ring_def)

lemma NewHashCache_inv: "hc_inv (NewHashCache n)" "queue_of (NewHashCache n) = []"
  "hc_size (NewHashCache n) = (if n \<le> 0 then 100 else nat n)"
  by (auto simp: NewHashCache_def hc_inv_def queue_of_def ring_def Let_def)

lemma apply_op_refines:
  assumes "hc_inv c" and "op_hash x \<noteq> Some ''''"
  shows "hc_inv (apply_op x c) \<and> hc_size (apply_op x c) = hc_size c \<and>
    queue_of (apply_op x c) = spec_op (hc_size c) x (queue_of c)"
  using assms RecordAttempt_refines StoreIfAbsent_refines Reset_refines
  by (cases x) (simp_all add: op_hash_def)

lemma run_refines:
  assumes "hc_inv c" and "\<forall>x \<in> set xs. op_hash x \<noteq> Some ''''"
  shows "hc_inv (fold apply_op xs c) \<and> hc_size (fold apply_op xs c) = hc_size c \<and>
    queue_of (fold apply_op xs c) = fold (spec_op (hc_size c)) xs (queue_of c)"
  using assms
proof (induction xs arbitrary: c)
  case (Cons x xs)
  have "hc_inv (apply_op x c)" "hc_size (apply_op x c) = hc_size c"
    "queue_of (apply_op x c) = spec_op (hc_size c) x (queue_of c)"
    using apply_op_refines [OF Cons.prems(1), of x] Cons.prems(2) by auto
  then show ?case using Cons.IH [of "apply_op x c"] Cons.prems(2) by simp
qed simp

section \<open>The queue counts attempts\<close>

lemma map_of_increment:
  "map_of (map (\<lambda>(k, n). (k, if k = h then n + 1 else n)) q) x =
    map_option (\<lambda>n. if x = h then n + 1 else n) (map_of q x)"
  by (induction q) auto

lemma spec_count_record:
  assumes "distinct (map fst q)" and "spec_mem h q \<or> length q < cap"
  shows "spec_count x (spec_record cap h q) = spec_count x q + (if x = h then 1 else 0)"
proof (cases "spec_mem h q")
  case True
  have "map_of q h \<noteq> None" using True by (simp add: spec_mem_def map_of_eq_None_iff)
  then show ?thesis using True by (auto simp: spec_record_def spec_count_def map_of_increment split: option.splits)
next
  case False
  then have "map_of q h = None" by (simp add: spec_mem_def map_of_eq_None_iff)
  then show ?thesis using False assms(2)
    by (auto simp: spec_record_def spec_push_def spec_count_def map_add_def split: option.splits)
qed

lemma fst_spec_record:
  assumes "spec_mem h q \<or> length q < cap"
  shows "map fst (spec_record cap h q) = (if spec_mem h q then map fst q else map fst q @ [h])"
  using assms by (auto simp: spec_record_def spec_push_def)

lemma counts_of_record:
  assumes "counts_of hs q" and "card (set (hs @ [h])) \<le> cap"
  shows "counts_of (hs @ [h]) (spec_record cap h q)"
proof -
  have "length q = card (fst ` set q)"
    using assms(1) by (metis counts_of_def distinct_card length_map list.set_map)
  then have room: "spec_mem h q \<or> length q < cap"
    using assms by (auto simp: counts_of_def spec_mem_def insert_absorb)
  note f = fst_spec_record [OF room]
  have "distinct (map fst (spec_record cap h q))"
    using assms(1) f by (auto simp: counts_of_def spec_mem_def)
  moreover have "fst ` set (spec_record cap h q) = set (hs @ [h])"
    using assms(1) arg_cong [OF f, of set] by (auto simp: counts_of_def spec_mem_def split: if_splits)
  ultimately show ?thesis
    using assms(1) spec_count_record [OF _ room] by (simp add: counts_of_def)
qed

lemma counts_of_run:
  "card (set hs) \<le> cap \<Longrightarrow> counts_of hs (fold (spec_record cap) hs [])"
proof (induction hs rule: rev_induct)
  case Nil
  then show ?case by (simp add: counts_of_def spec_count_def)
next
  case (snoc h hs)
  have "card (set hs) \<le> card (set (hs @ [h]))" by (intro card_mono) auto
  then show ?case using counts_of_record [of hs _ h cap] snoc by simp
qed

section \<open>Runs of the trigger\<close>

lemma ShouldTrigger_cache:
  "m \<noteq> '''' \<Longrightarrow> ms \<noteq> [] \<Longrightarrow>
    snd (ShouldTrigger sha m ms c) = snd (RecordAttempt (HashMessages sha ms) c)"
  by (simp add: ShouldTrigger_def shouldTriggerInternal_def Let_def split: prod.splits)

lemma ShouldTrigger_result:
  assumes "m \<noteq> ''''" and "ms \<noteq> []"
  shows "fst (ShouldTrigger sha m ms c) =
    (let n = fst (RecordAttempt (HashMessages sha ms) c)
     in \<lparr>Triggered = (n \<in> {5, 10, 20, 30, 40} \<or> 40 < n), res_Hash = HashMessages sha ms,
         AttemptsExhausted = (40 < n), CurrentAttempt = n, MaxAttempts = 40\<rparr>)"
  using assms
  by (auto simp: ShouldTrigger_def shouldTriggerInternal_def Let_def maxAttempts_def isTriggerAttempt_def
      triggerAttempts_def split: prod.splits)

lemma trigger_run_refines:
  assumes "hc_inv c" and "m \<noteq> ''''" and "[] \<notin> set hist" and "\<forall>s. sha s \<noteq> ''''"
  shows "hc_inv (trigger_run sha m hist c) \<and>
    queue_of (trigger_run sha m hist c) = fold (spec_record (hc_size c)) (map (HashMessages sha) hist) (queue_of c)"
  using assms
proof (induction hist arbitrary: c)
  case (Cons ms hist)
  have s: "HashMessages sha ms \<noteq> ''''" using Cons.prems(4) by (simp add: HashMessages_def)
  note r = RecordAttempt_refines [OF Cons.prems(1) s]
  have "ms \<noteq> []" "[] \<notin> set hist" using Cons.prems(3) by auto
  then show ?case using Cons.IH [OF r(1)] Cons.prems(2,4) r(2,3) by (simp add: ShouldTrigger_cache)
qed simp

lemma trigger_run_attempts:
  assumes "m \<noteq> ''''" and "[] \<notin> set hist" and "\<forall>s. sha s \<noteq> ''''"
    and "card (set (map (HashMessages sha) hist)) \<le> hc_size (NewHashCache n)"
  shows "fst (RecordAttempt (HashMessages sha ms) (trigger_run sha m hist (NewHashCache n))) =
    count_list (map (HashMessages sha) hist) (HashMessages sha ms) + 1"
proof -
  let ?c = "trigger_run sha m hist (NewHashCache n)"
  have r: "hc_inv ?c" "queue_of ?c = fold (spec_record (hc_size (NewHashCache n))) (map (HashMessages sha) hist) []"
    using trigger_run_refines [OF NewHashCache_inv(1) assms(1-3)] NewHashCache_inv(2) by simp_all
  have "HashMessages sha ms \<noteq> ''''" using assms(3) by (simp add: HashMessages_def)
  then show ?thesis
    using RecordAttempt_refines(4) [OF r(1)] counts_of_run [OF assms(4)] by (simp add: r(2) counts_of_def)
qed

section \<open>Removal\<close>

lemma find_in_tail:
  assumes "hc_inv c" and "hc_count c < hc_size c" and "h \<in> set (tl (ring c))"
  shows "\<exists>i. 0 < i \<and> i < hc_count c \<and> find (\<lambda>i. hashes c ! i = h) [0..<hc_count c] = Some i"
proof -
  have r: "ring c = take (hc_count c) (hashes c)" and l: "hc_count c < length (hashes c)"
    using assms(1,2) by (simp_all add: ring_def hc_inv_def)
  obtain j where "j < length (tl (ring c))" "tl (ring c) ! j = h" using assms(3) by (meson in_set_conv_nth)
  then have j: "Suc j < hc_count c" "hashes c ! Suc j = h" using l by (simp_all add: r nth_tl less_diff_conv)
  have z: "hashes c ! 0 \<noteq> h"
    using ring_facts(2) [OF assms(1)] j l nth_eq_iff_index_eq [of "ring c" 0 "Suc j"] by (simp add: r)
  have "find (\<lambda>i. hashes c ! i = h) [0..<hc_count c] \<noteq> None" using j by (auto simp: find_None_iff)
  then obtain i where i: "find (\<lambda>i. hashes c ! i = h) [0..<hc_count c] = Some i" by blast
  then have "i < hc_count c" "hashes c ! i = h" by (auto simp: find_Some_iff)
  then show ?thesis using i z by (metis gr0I)
qed

lemma nth_remove_at:
  assumes "j < hc_count c" and "i < hc_count c" and "hc_count c \<le> length (hashes c)"
  shows "hashes (remove_at i c) ! j \<in> insert '''' (set (take (hc_count c) (hashes c)))"
proof -
  let ?n = "hc_count c" and ?hs = "hashes c"
  let ?a = "take i ?hs @ drop (i + 1) (take ?n ?hs)"
  have l: "length ?a = ?n - 1" using assms by simp
  have "(?a @ drop (?n - 1) ?hs) ! j \<in> set (take ?n ?hs)" if "j < ?n - 1"
  proof -
    have "?a ! j \<in> set ?a" using that l by (intro nth_mem) simp
    moreover have "set ?a \<subseteq> set (take ?n ?hs)" using set_take_subset_set_take [of i ?n ?hs] assms(2) set_drop_subset [of "i + 1" "take ?n ?hs"] by simp
    ultimately show ?thesis using that l by (auto simp: nth_append)
  qed
  then show ?thesis
    using assms by (cases "j = ?n - 1") (simp_all add: remove_at_def Let_def)
qed

section \<open>Properties\<close>

text \<open>
  C35. After any sequence of recordings, insertions and resets the circular buffer is the bounded queue
  of its specification: it holds the most recent distinct hashes with their attempts, evicts the oldest,
  keeps a counter exactly for the hashes it holds, and answers look-ups and counts as the queue does.
\<close>

theorem hash_cache_refines_queue:
  assumes "\<forall>x \<in> set xs. op_hash x \<noteq> Some ''''"
    and "c = fold apply_op xs (NewHashCache n)" and "cap = (if n \<le> 0 then 100 else nat n)"
  shows "queue_of c = fold (spec_op cap) xs [] \<and> length (queue_of c) \<le> cap \<and>
    fset (fmdom (attemptCounter c)) = fst ` set (queue_of c) \<and>
    hc_Contains h c = spec_mem h (queue_of c) \<and> GetStats_hc c = (length (queue_of c), cap) \<and>
    (h \<noteq> '''' \<longrightarrow> fst (RecordAttempt h c) = spec_count h (queue_of c) + 1)"
proof -
  have r: "hc_inv c" "hc_size c = cap" "queue_of c = fold (spec_op cap) xs []"
    using run_refines [OF NewHashCache_inv(1) assms(1), of n] assms(2,3) NewHashCache_inv(2,3) by simp_all
  have "fst ` set (queue_of c) = set (ring c)" by (auto simp: queue_of_def image_iff)
  moreover have "hc_count c \<le> hc_size c" using r(1) by (simp add: hc_inv_def)
  ultimately show ?thesis
    using r queue_facts [OF r(1)] ring_facts(5) [OF r(1)] RecordAttempt_refines(4) [OF r(1)]
    by (simp add: hc_Contains_containsLocked GetStats_hc_def)
qed

theorem hash_cache_refines_queue_witness:
  "queue_of (fold apply_op [OpRecord ''a'', OpStore ''b'', OpRecord ''a'', OpRecord ''c''] (NewHashCache 2)) =
     [(''b'', 1), (''c'', 1)] \<and>
   fst (RecordAttempt ''b'' (fold apply_op [OpRecord ''a'', OpStore ''b'', OpRecord ''a'', OpRecord ''c''] (NewHashCache 2))) = 2"
  using hash_cache_refines_queue [OF _ refl refl, of "[OpRecord ''a'', OpStore ''b'', OpRecord ''a'', OpRecord ''c'']" 2 "''b''"]
  by (simp add: op_hash_def spec_record_def spec_push_def spec_mem_def spec_count_def)

text \<open>
  Escalation: as long as the distinct message hashes fit the cache, a request is sent to the ultimate
  model exactly when it is the 5th, 10th, 20th, 30th or 40th with its hash or comes after the 40th, and
  after the 40th it is answered as exhausted. Assumes that the hex digest is never empty.
\<close>

theorem ultimate_schedule:
  assumes "m \<noteq> ''''" and "[] \<notin> set hist" and "ms \<noteq> []" and "\<forall>s. sha s \<noteq> ''''"
    and "card (set (map (HashMessages sha) hist)) \<le> (if n \<le> 0 then 100 else nat n)"
    and "k = count_list (map (HashMessages sha) hist) (HashMessages sha ms) + 1"
    and "r = fst (ShouldTrigger sha m ms (trigger_run sha m hist (NewHashCache n)))"
  shows "CurrentAttempt r = k \<and> Triggered r = (k \<in> {5, 10, 20, 30, 40} \<or> 40 < k) \<and>
    AttemptsExhausted r = (40 < k) \<and> res_Hash r = HashMessages sha ms \<and>
    fst (ForceTrigger sha m ms (trigger_run sha m hist (NewHashCache n))) =
      \<lparr>Triggered = True, res_Hash = HashMessages sha ms, AttemptsExhausted = False, CurrentAttempt = 0, MaxAttempts = 40\<rparr>"
proof -
  have "card (set (map (HashMessages sha) hist)) \<le> hc_size (NewHashCache n)"
    using assms(5) by (simp only: NewHashCache_inv(3))
  then show ?thesis
    using trigger_run_attempts [OF assms(1,2,4), of n ms] ShouldTrigger_result [OF assms(1,3)] assms(1,3,6,7)
    by (simp add: Let_def ForceTrigger_def shouldTriggerInternal_def maxAttempts_def)
qed

theorem ultimate_schedule_witness:
  "Triggered (fst (ShouldTrigger (\<lambda>s. ''h'' @ s) ''m'' [ex_msg ''q'']
     (trigger_run (\<lambda>s. ''h'' @ s) ''m'' (replicate 4 [ex_msg ''q'']) (NewHashCache 1)))) \<and>
   \<not> Triggered (fst (ShouldTrigger (\<lambda>s. ''h'' @ s) ''m'' [ex_msg ''q'']
     (trigger_run (\<lambda>s. ''h'' @ s) ''m'' (replicate 5 [ex_msg ''q'']) (NewHashCache 1))))"
  using ultimate_schedule [OF _ _ _ _ _ refl refl, of "''m''" "replicate 4 [ex_msg ''q'']" "[ex_msg ''q'']" "\<lambda>s. ''h'' @ s" 1]
    ultimate_schedule [OF _ _ _ _ _ refl refl, of "''m''" "replicate 5 [ex_msg ''q'']" "[ex_msg ''q'']" "\<lambda>s. ''h'' @ s" 1]
  by (simp add: count_list_replicate)

text \<open>
  A removal of any hash but the first from a cache that is not full leaves the write position one
  past the end: the next new hash is stored where look-ups do not reach, so it is not found and its
  second attempt is counted as the first again.
\<close>

theorem removal_hides_next_hash:
  assumes "hc_inv c" and "hc_count c < hc_size c" and "h \<in> set (tl (ring c))"
    and "g \<notin> set (ring c)" and "g \<noteq> ''''"
    and "c1 = snd (RecordAttempt g (Remove h c))"
  shows "\<not> hc_Contains g c1 \<and> fst (RecordAttempt g c1) = 1"
proof -
  obtain i where i: "0 < i" "i < hc_count c" "find (\<lambda>i. hashes c ! i = h) [0..<hc_count c] = Some i"
    using find_in_tail [OF assms(1-3)] by blast
  have c: "hc_head c = hc_count c" "length (hashes c) = hc_size c" "set (ring c) = set (take (hc_count c) (hashes c))"
    using assms(1,2) ring_facts(1) by (simp_all add: hc_inv_def)
  let ?r = "Remove h c"
  have r: "hc_count ?r = hc_count c - 1" "hc_head ?r = hc_count c" "hc_size ?r = hc_size c"
    "hashes ?r = hashes (remove_at i c)" "length (hashes ?r) = hc_size c"
    using i c assms(2) by (simp_all add: Remove_def remove_at_def Let_def)
  have out: "hashes ?r ! j \<noteq> g" if "j < hc_count c" for j
    using nth_remove_at [of j c i] that i(2) c assms(2,4,5) unfolding r(4) by auto
  have "\<not> containsLocked g ?r" using out r(1) by (auto simp: containsLocked_def list_ex_iff)
  then have c1: "c1 = set_attempts g 1 (insertLocked g ?r)" using assms(6) by (simp add: RecordAttempt_def)
  have "hc_count c1 = hc_count c" "hashes c1 = (hashes ?r)[hc_count c := g]"
    using i(2) assms(2) r by (simp_all add: c1)
  then have "\<not> containsLocked g c1" using out by (auto simp: containsLocked_def list_ex_iff)
  then show ?thesis by (simp add: hc_Contains_containsLocked RecordAttempt_def)
qed

theorem removal_hides_next_hash_witness:
  "\<not> hc_Contains ''c'' (snd (RecordAttempt ''c'' (Remove ''b'' ex_cache))) \<and>
   fst (RecordAttempt ''c'' (snd (RecordAttempt ''c'' (Remove ''b'' ex_cache)))) = 1"
proof -
  have "hc_inv ex_cache" by (simp add: ex_cache_def RecordAttempt_refines(1) NewHashCache_inv(1))
  moreover have "ring ex_cache = [''a'', ''b'']" "hc_count ex_cache < hc_size ex_cache" by code_simp+
  ultimately show ?thesis using removal_hides_next_hash [OF _ _ _ _ _ refl, of ex_cache "''b''" "''c''"] by simp
qed

end
