(* ===== verification/LruCache.thy ===== *)
theory LruCache
  imports Prelude
begin

text \<open>
  The bounded LRU of the resilience layer (\<open>pkg/modelscache/lru.go\<close>): a doubly linked list of
  elements, most recent first, and a map from keys to elements. An element of \<open>container/list\<close> is
  its identity together with the item it points to, so that the map and the list are two structures
  which the operations have to keep in step. The specification is one list of key-value pairs in
  order of recency; the locale \<open>lookup_cache\<close> is what a client of the cache relies on.
\<close>

section \<open>The cache\<close>

record 'v lru =
  lru_cap :: nat
  ll :: "(nat \<times> string \<times> 'v) list"
  items :: "(string, nat) fmap"
  next_element :: nat

definition newLRU :: "int \<Rightarrow> 'v lru" where
  "newLRU capacity =
     \<lparr>lru_cap = (if capacity < 1 then 1 else nat capacity), ll = [], items = fmempty, next_element = 0\<rparr>"

text \<open>\<open>List.MoveToFront\<close> and \<open>List.Remove\<close> of an element.\<close>

definition list_remove :: "nat \<Rightarrow> (nat \<times> 'a) list \<Rightarrow> (nat \<times> 'a) list" where
  "list_remove el xs = filter (\<lambda>x. fst x \<noteq> el) xs"

definition MoveToFront :: "nat \<Rightarrow> (nat \<times> 'a) list \<Rightarrow> (nat \<times> 'a) list" where
  "MoveToFront el xs = (case map_of xs el of None \<Rightarrow> xs | Some i \<Rightarrow> (el, i) # list_remove el xs)"

definition Peek :: "string \<Rightarrow> 'v lru \<Rightarrow> 'v option" where
  "Peek key l = (case fmlookup (items l) key of None \<Rightarrow> None | Some el \<Rightarrow> map_option snd (map_of (ll l) el))"

definition Get :: "string \<Rightarrow> 'v lru \<Rightarrow> 'v option \<times> 'v lru" where
  "Get key l =
     (case fmlookup (items l) key of
        None \<Rightarrow> (None, l)
      | Some el \<Rightarrow> (map_option snd (map_of (ll l) el), l\<lparr>ll := MoveToFront el (ll l)\<rparr>))"

definition drop_tail :: "'v lru \<Rightarrow> 'v lru" where
  "drop_tail l =
     (case last (ll l) of (el, k, v) \<Rightarrow> l\<lparr>ll := list_remove el (ll l), items := fmdrop k (items l)\<rparr>)"

function evict :: "'v lru \<Rightarrow> 'v lru" where
  "evict l = (if lru_cap l < length (ll l) \<and> ll l \<noteq> [] then evict (drop_tail l) else l)"
  by pat_completeness auto
termination
proof (relation "measure (\<lambda>l. length (ll l))")
  fix l :: "'v lru" assume "lru_cap l < length (ll l) \<and> ll l \<noteq> []"
  then have "length (filter (\<lambda>x. fst x \<noteq> fst (last (ll l))) (ll l)) < length (ll l)"
    using length_filter_less [of "last (ll l)" "ll l" "\<lambda>x. fst x \<noteq> fst (last (ll l))"] by simp
  then show "(drop_tail l, l) \<in> measure (\<lambda>l. length (ll l))"
    by (cases "last (ll l)") (simp add: drop_tail_def list_remove_def)
qed simp

declare evict.simps [simp del]

definition Put :: "string \<Rightarrow> 'v \<Rightarrow> 'v lru \<Rightarrow> 'v lru" where
  "Put key val l =
     (case fmlookup (items l) key of
        Some el \<Rightarrow>
          l\<lparr>ll := MoveToFront el (map (\<lambda>(e, k, v). (e, k, if e = el then val else v)) (ll l))\<rparr>
      | None \<Rightarrow>
          evict (l\<lparr>ll := (next_element l, key, val) # ll l, items := fmupd key (next_element l) (items l),
                   next_element := next_element l + 1\<rparr>))"

definition Delete :: "string \<Rightarrow> 'v lru \<Rightarrow> 'v lru" where
  "Delete key l =
     (case fmlookup (items l) key of
        None \<Rightarrow> l
      | Some el \<Rightarrow> l\<lparr>ll := list_remove el (ll l), items := fmdrop key (items l)\<rparr>)"

definition Len :: "'v lru \<Rightarrow> nat" where
  "Len l = length (ll l)"

section \<open>Specification: pairs in order of recency\<close>

definition pairs :: "'v lru \<Rightarrow> (string \<times> 'v) list" where
  "pairs l = map snd (ll l)"

definition spec_without :: "string \<Rightarrow> (string \<times> 'v) list \<Rightarrow> (string \<times> 'v) list" where
  "spec_without k ps = filter (\<lambda>p. fst p \<noteq> k) ps"

definition spec_touch :: "string \<Rightarrow> (string \<times> 'v) list \<Rightarrow> (string \<times> 'v) list" where
  "spec_touch k ps = (case map_of ps k of None \<Rightarrow> ps | Some v \<Rightarrow> (k, v) # spec_without k ps)"

definition spec_put :: "nat \<Rightarrow> string \<Rightarrow> 'v \<Rightarrow> (string \<times> 'v) list \<Rightarrow> (string \<times> 'v) list" where
  "spec_put cap k v ps = take cap ((k, v) # spec_without k ps)"

definition lru_linked :: "'v lru \<Rightarrow> bool" where
  "lru_linked l \<longleftrightarrow>
     distinct (map fst (ll l)) \<and> distinct (map (fst \<circ> snd) (ll l)) \<and> (\<forall>x \<in> set (ll l). fst x < next_element l) \<and>
     (\<forall>k el. fmlookup (items l) k = Some el \<longleftrightarrow> (\<exists>v. (el, k, v) \<in> set (ll l)))"

definition lru_inv :: "'v lru \<Rightarrow> bool" where
  "lru_inv l \<longleftrightarrow> lru_linked l \<and> 1 \<le> lru_cap l \<and> length (ll l) \<le> lru_cap l"

datatype 'v lru_op = LGet string | LPut string 'v | LDelete string

fun lru_apply :: "'v lru_op \<Rightarrow> 'v lru \<Rightarrow> 'v lru" where
  "lru_apply (LGet k) l = snd (Get k l)"
| "lru_apply (LPut k v) l = Put k v l"
| "lru_apply (LDelete k) l = Delete k l"

fun spec_apply :: "nat \<Rightarrow> 'v lru_op \<Rightarrow> (string \<times> 'v) list \<Rightarrow> (string \<times> 'v) list" where
  "spec_apply cap (LGet k) ps = spec_touch k ps"
| "spec_apply cap (LPut k v) ps = spec_put cap k v ps"
| "spec_apply cap (LDelete k) ps = spec_without k ps"

text \<open>The last write to a key in a sequence of writes and deletions.\<close>

fun last_write :: "'v lru_op list \<Rightarrow> string \<Rightarrow> 'v option \<Rightarrow> 'v option" where
  "last_write [] k old = old"
| "last_write (LGet j # ops) k old = last_write ops k old"
| "last_write (LPut j v # ops) k old = last_write ops k (if j = k then Some v else old)"
| "last_write (LDelete j # ops) k old = last_write ops k (if j = k then None else old)"

section \<open>Interface\<close>

locale lookup_cache =
  fixes ok :: "'c \<Rightarrow> bool"
    and look :: "string \<Rightarrow> 'c \<Rightarrow> 'v option"
    and touch :: "string \<Rightarrow> 'c \<Rightarrow> 'c"
    and put :: "string \<Rightarrow> 'v \<Rightarrow> 'c \<Rightarrow> 'c"
    and del :: "string \<Rightarrow> 'c \<Rightarrow> 'c"
  assumes ok_touch: "ok c \<Longrightarrow> ok (touch k c)"
    and ok_put: "ok c \<Longrightarrow> ok (put k v c)"
    and ok_del: "ok c \<Longrightarrow> ok (del k c)"
    and look_touch: "ok c \<Longrightarrow> look j (touch k c) = look j c"
    and look_put_same: "ok c \<Longrightarrow> look k (put k v c) = Some v"
    and look_put_other: "ok c \<Longrightarrow> j \<noteq> k \<Longrightarrow> look j (put k v c) = None \<or> look j (put k v c) = look j c"
    and look_del: "ok c \<Longrightarrow> look j (del k c) = (if j = k then None else look j c)"
begin

text \<open>A cache may forget, but what it returns is the last value written.\<close>

lemma look_put_some:
  "ok c \<Longrightarrow> look j (put k v c) = Some x \<Longrightarrow> (if j = k then Some v else look j c) = Some x"
  using look_put_same look_put_other by (metis option.distinct(1))

fun run_op :: "'v lru_op \<Rightarrow> 'c \<Rightarrow> 'c" where
  "run_op (LGet k) c = touch k c"
| "run_op (LPut k v) c = put k v c"
| "run_op (LDelete k) c = del k c"

lemma ok_run: "ok c \<Longrightarrow> ok (fold run_op ops c)"
proof (induction ops arbitrary: c)
  case (Cons a ops)
  then show ?case using ok_touch ok_put ok_del by (cases a) auto
qed simp

lemma last_write_mono:
  "(\<And>x. old = Some x \<Longrightarrow> old' = Some x) \<Longrightarrow> last_write ops k old = Some v \<Longrightarrow> last_write ops k old' = Some v"
  by (induction ops k old arbitrary: old' rule: last_write.induct) (auto split: if_splits)

lemma look_is_last_write:
  "ok c \<Longrightarrow> look k (fold run_op ops c) = Some v \<Longrightarrow> last_write ops k (look k c) = Some v"
proof (induction ops arbitrary: c)
  case (Cons a ops)
  have "ok (run_op a c)" using Cons.prems(1) ok_touch ok_put ok_del by (cases a) auto
  then have IH: "last_write ops k (look k (run_op a c)) = Some v" using Cons by simp
  show ?case
  proof (cases a)
    case (LPut j x)
    have "\<And>y. look k (put j x c) = Some y \<Longrightarrow> (if j = k then Some x else look k c) = Some y"
      using look_put_some [OF Cons.prems(1), of k j x] by (simp add: eq_commute [of j k])
    moreover have "last_write ops k (look k (put j x c)) = Some v" using IH by (simp add: LPut)
    ultimately have "last_write ops k (if j = k then Some x else look k c) = Some v" by (rule last_write_mono)
    then show ?thesis by (simp add: LPut)
  qed (use IH Cons.prems(1) in \<open>auto simp: look_touch look_del\<close>)
qed simp

end

section \<open>The list and the map stay in step\<close>

lemma map_of_key:
  assumes "distinct (map (fst \<circ> snd) xs)" and "(el, k, v) \<in> set xs"
  shows "map_of (map snd xs) k = Some v"
  using assms by (intro map_of_is_SomeI) (force simp: comp_def)+

lemma el_key:
  assumes "lru_linked l" and "fmlookup (items l) k = Some el" and "x \<in> set (ll l)"
  shows "fst x = el \<longleftrightarrow> fst (snd x) = k"
proof -
  obtain v where v: "(el, k, v) \<in> set (ll l)" using assms(1,2) by (auto simp: lru_linked_def)
  have "inj_on fst (set (ll l))" "inj_on (fst \<circ> snd) (set (ll l))"
    using assms(1) by (simp_all add: lru_linked_def distinct_map)
  then show ?thesis using v assms(3) by (auto simp: inj_on_def) (metis fst_conv snd_conv)+
qed

lemma Peek_pairs:
  assumes "lru_linked l"
  shows "Peek k l = map_of (pairs l) k"
proof (cases "fmlookup (items l) k")
  case None
  then have "k \<notin> fst ` set (pairs l)" using assms by (force simp: lru_linked_def pairs_def)
  then have "map_of (pairs l) k = None" by (simp only: map_of_eq_None_iff not_False_eq_True)
  then show ?thesis using None by (simp add: Peek_def)
next
  case (Some el)
  then obtain v where v: "(el, k, v) \<in> set (ll l)" using assms by (auto simp: lru_linked_def)
  have "map_of (ll l) el = Some (k, v)" using assms v by (intro map_of_is_SomeI) (simp_all add: lru_linked_def)
  moreover have "map_of (pairs l) k = Some v"
    unfolding pairs_def using assms v by (intro map_of_key) (simp_all add: lru_linked_def)
  ultimately show ?thesis using Some by (simp add: Peek_def)
qed

lemma pairs_list_remove:
  assumes "lru_linked l" and "fmlookup (items l) k = Some el"
  shows "map snd (list_remove el (ll l)) = spec_without k (pairs l)"
  using el_key [OF assms] by (simp add: list_remove_def spec_without_def pairs_def filter_map comp_def cong: filter_cong)

lemma spec_without_absent: "map_of ps k = None \<Longrightarrow> spec_without k ps = ps"
  by (auto simp: spec_without_def filter_id_conv map_of_eq_None_iff)

lemma linked_lookup: "lru_linked l \<Longrightarrow> fmlookup (items l) k = Some el \<longleftrightarrow> (\<exists>v. (el, k, v) \<in> set (ll l))"
  by (simp add: lru_linked_def)

lemma linked_filter:
  "lru_linked l \<Longrightarrow> distinct (map fst (filter P (ll l))) \<and> distinct (map (fst \<circ> snd) (filter P (ll l)))"
  by (auto simp: lru_linked_def distinct_map intro: inj_on_subset)

lemma linked_remove:
  assumes "lru_linked l" and "fmlookup (items l) k = Some el"
  shows "lru_linked (l\<lparr>ll := list_remove el (ll l), items := fmdrop k (items l)\<rparr>)"
proof -
  have "fmlookup (fmdrop k (items l)) j = Some e \<longleftrightarrow> (\<exists>v. (e, j, v) \<in> set (list_remove el (ll l)))" for j e
  proof -
    have "e = el \<longleftrightarrow> j = k" if "(e, j, v) \<in> set (ll l)" for v using el_key [OF assms that] by simp
    then show ?thesis using linked_lookup [OF assms(1), of j e] by (auto simp: list_remove_def)
  qed
  moreover have "\<forall>x \<in> set (list_remove el (ll l)). fst x < next_element l"
    using assms(1) by (simp add: lru_linked_def list_remove_def)
  ultimately show ?thesis using linked_filter [OF assms(1)] by (simp add: lru_linked_def list_remove_def)
qed

lemma linked_front:
  assumes "lru_linked l" and "fmlookup (items l) k = Some el"
  shows "lru_linked (l\<lparr>ll := (el, k, v) # list_remove el (ll l)\<rparr>)"
proof -
  let ?r = "list_remove el (ll l)"
  have "fmlookup (items l) j = Some e \<longleftrightarrow> (\<exists>w. (e, j, w) \<in> set ((el, k, v) # ?r))" for j e
  proof -
    have "e = el \<longleftrightarrow> j = k" if "(e, j, w) \<in> set (ll l)" for w using el_key [OF assms that] by simp
    then show ?thesis using linked_lookup [OF assms(1), of j e] assms(2) by (auto simp: list_remove_def)
  qed
  moreover have "\<forall>x \<in> set ((el, k, v) # ?r). fst x < next_element l"
    using assms by (auto simp: lru_linked_def list_remove_def)
  moreover have "el \<notin> fst ` set ?r" "k \<notin> (fst \<circ> snd) ` set ?r"
    using el_key [OF assms] by (auto simp: list_remove_def)
  ultimately show ?thesis using linked_filter [OF assms(1)] by (simp add: lru_linked_def list_remove_def)
qed

lemma linked_push:
  assumes "lru_linked l" and "fmlookup (items l) k = None"
  shows "lru_linked (l\<lparr>ll := (next_element l, k, v) # ll l, items := fmupd k (next_element l) (items l),
    next_element := next_element l + 1\<rparr>)"
  using assms by (force simp: lru_linked_def)

section \<open>Each operation implements its specification\<close>

lemma Get_refines:
  assumes "lru_inv l"
  shows "lru_inv (snd (Get k l)) \<and> pairs (snd (Get k l)) = spec_touch k (pairs l) \<and>
    lru_cap (snd (Get k l)) = lru_cap l \<and> fst (Get k l) = map_of (pairs l) k"
proof (cases "fmlookup (items l) k")
  case None
  then have "map_of (pairs l) k = None"
    using Peek_pairs [of l k] assms by (simp add: Peek_def lru_inv_def)
  then show ?thesis using None assms by (simp add: Get_def spec_touch_def)
next
  case (Some el)
  have l: "lru_linked l" using assms by (simp add: lru_inv_def)
  obtain v where v: "(el, k, v) \<in> set (ll l)" using linked_lookup [OF l] Some by blast
  have m: "map_of (ll l) el = Some (k, v)" using l v by (intro map_of_is_SomeI) (simp_all add: lru_linked_def)
  have p: "map_of (pairs l) k = Some v" using Peek_pairs [OF l, of k] Some m by (simp add: Peek_def)
  have "length (list_remove el (ll l)) < length (ll l)"
    using length_filter_less [OF v, of "\<lambda>x. fst x \<noteq> el"] by (simp add: list_remove_def)
  then show ?thesis
    using assms Some m p linked_front [OF l Some, of v] pairs_list_remove [OF l Some]
    by (simp add: Get_def MoveToFront_def spec_touch_def lru_inv_def pairs_def)
qed

lemma Delete_refines:
  assumes "lru_inv l"
  shows "lru_inv (Delete k l) \<and> pairs (Delete k l) = spec_without k (pairs l) \<and> lru_cap (Delete k l) = lru_cap l"
proof (cases "fmlookup (items l) k")
  case None
  then have "map_of (pairs l) k = None" using Peek_pairs [of l k] assms by (simp add: Peek_def lru_inv_def)
  then have "spec_without k (pairs l) = pairs l" by (rule spec_without_absent)
  then show ?thesis using None assms by (simp add: Delete_def)
next
  case (Some el)
  have l: "lru_linked l" using assms by (simp add: lru_inv_def)
  have "length (list_remove el (ll l)) \<le> length (ll l)" by (simp add: list_remove_def)
  then show ?thesis
    using assms Some linked_remove [OF l Some] pairs_list_remove [OF l Some]
    by (simp add: Delete_def lru_inv_def pairs_def)
qed

text \<open>Eviction removes from the tail until the capacity is met.\<close>

lemma drop_tail_butlast:
  assumes "lru_linked l" and "ll l \<noteq> []"
  shows "ll (drop_tail l) = butlast (ll l) \<and> lru_linked (drop_tail l) \<and> lru_cap (drop_tail l) = lru_cap l"
proof -
  obtain el k v where x: "last (ll l) = (el, k, v)" by (cases "last (ll l)")
  have "(el, k, v) \<in> set (ll l)" using assms(2) x by (metis last_in_set)
  then have k: "fmlookup (items l) k = Some el" using linked_lookup [OF assms(1)] by blast
  have split: "ll l = butlast (ll l) @ [(el, k, v)]" using assms(2) x by (metis append_butlast_last_id)
  have "el \<notin> fst ` set (butlast (ll l))"
    using assms(1) arg_cong [OF split, of "map fst"] by (simp add: lru_linked_def)
  then have "list_remove el (butlast (ll l)) = butlast (ll l)" by (auto simp: list_remove_def filter_id_conv)
  then have "list_remove el (ll l) = butlast (ll l)"
    using arg_cong [OF split, of "list_remove el"] by (simp add: list_remove_def)
  then show ?thesis using linked_remove [OF assms(1) k] x by (simp add: drop_tail_def)
qed

lemma evict_take:
  "lru_linked l \<Longrightarrow> ll (evict l) = take (lru_cap l) (ll l) \<and> lru_linked (evict l) \<and> lru_cap (evict l) = lru_cap l"
proof (induction l rule: evict.induct)
  case (1 l)
  show ?case
  proof (cases "lru_cap l < length (ll l) \<and> ll l \<noteq> []")
    case True
    note d = drop_tail_butlast [OF 1(2) conjunct2 [OF True]]
    have "lru_cap l \<le> length (ll l) - 1" using True by linarith
    then have "take (lru_cap l) (butlast (ll l)) = take (lru_cap l) (ll l)"
      by (simp add: butlast_conv_take min_def)
    then show ?thesis using 1(1) [OF True] d True by (simp add: evict.simps [of l])
  next
    case False
    then show ?thesis using 1(2) by (auto simp: evict.simps [of l])
  qed
qed

lemma Put_refines:
  assumes "lru_inv l"
  shows "lru_inv (Put k v l) \<and> pairs (Put k v l) = spec_put (lru_cap l) k v (pairs l) \<and> lru_cap (Put k v l) = lru_cap l"
proof (cases "fmlookup (items l) k")
  case None
  have l: "lru_linked l" using assms by (simp add: lru_inv_def)
  have "map_of (pairs l) k = None" using Peek_pairs [OF l, of k] None by (simp add: Peek_def)
  then have w: "spec_without k (pairs l) = pairs l" by (rule spec_without_absent)
  show ?thesis
    using assms evict_take [OF linked_push [OF l None, of v]] None
    by (simp add: Put_def lru_inv_def spec_put_def w [unfolded pairs_def] pairs_def take_map [symmetric])
next
  case (Some el)
  have l: "lru_linked l" using assms by (simp add: lru_inv_def)
  obtain u where u: "(el, k, u) \<in> set (ll l)" using linked_lookup [OF l] Some by blast
  let ?f = "\<lambda>(e, j, w). (e, j, if e = el then v else w)"
  have "map_of (map ?f (ll l)) el = Some (k, v)"
    using l u by (intro map_of_is_SomeI) (force simp: lru_linked_def comp_def case_prod_beta)+
  moreover have "list_remove el (map ?f (ll l)) = list_remove el (ll l)"
    unfolding list_remove_def filter_map by (rule map_idI [THEN trans]) (auto simp: comp_def case_prod_beta)
  moreover have "length (list_remove el (ll l)) < length (ll l)"
    using length_filter_less [OF u, of "\<lambda>x. fst x \<noteq> el"] by (simp add: list_remove_def)
  moreover have "length (spec_without k (pairs l)) < lru_cap l"
    using calculation(3) assms pairs_list_remove [OF l Some] by (metis length_map less_le_trans lru_inv_def)
  ultimately show ?thesis
    using assms Some linked_front [OF l Some, of v] pairs_list_remove [OF l Some]
    by (simp add: Put_def MoveToFront_def spec_put_def lru_inv_def pairs_def)
qed

lemma newLRU_inv: "lru_inv (newLRU n)" "pairs (newLRU n) = []" "lru_cap (newLRU n) = (if n < 1 then 1 else nat n)"
  by (auto simp: newLRU_def lru_inv_def lru_linked_def pairs_def)

lemma lru_apply_refines:
  "lru_inv l \<Longrightarrow> lru_inv (lru_apply x l) \<and> pairs (lru_apply x l) = spec_apply (lru_cap l) x (pairs l) \<and>
    lru_cap (lru_apply x l) = lru_cap l"
  by (cases x) (simp_all add: Get_refines Put_refines Delete_refines)

lemma lru_run_refines:
  "lru_inv l \<Longrightarrow> lru_inv (fold lru_apply ops l) \<and>
    pairs (fold lru_apply ops l) = fold (spec_apply (lru_cap l)) ops (pairs l) \<and> lru_cap (fold lru_apply ops l) = lru_cap l"
proof (induction ops arbitrary: l)
  case (Cons x ops)
  then show ?case using lru_apply_refines [OF Cons.prems, of x] Cons.IH [of "lru_apply x l"] by simp
qed simp

section \<open>The cache as a look-up cache\<close>

lemma map_of_filter_key: "map_of (spec_without k ps) j = (if j = k then None else map_of ps j)"
  by (induction ps) (auto simp: spec_without_def)

lemma map_of_take:
  "map_of (take n ps) j = None \<or> map_of (take n ps) j = map_of ps j"
  by (induction ps arbitrary: n) (auto simp: take_Cons split: nat.splits)

interpretation lru_cache: lookup_cache lru_inv Peek "\<lambda>k l. snd (Get k l)" Put Delete
proof
  fix l :: "'v lru" and k j :: string and v :: 'v
  assume i: "lru_inv l"
  have P: "Peek j x = map_of (pairs x) j" if "lru_inv x" for x :: "'v lru" and j
    using Peek_pairs [of x] that by (simp add: lru_inv_def)
  show "lru_inv (snd (Get k l))" "lru_inv (Put k v l)" "lru_inv (Delete k l)"
    using i Get_refines [of l] Put_refines [of l] Delete_refines [of l] by simp_all
  show "Peek j (snd (Get k l)) = Peek j l"
    using i Get_refines [of l k] by (auto simp: P spec_touch_def map_of_filter_key split: option.splits)
  show "Peek k (Put k v l) = Some v"
    using i Put_refines [of l k v] by (simp add: P spec_put_def lru_inv_def take_Cons split: nat.splits)
  show "Peek j (Delete k l) = (if j = k then None else Peek j l)"
    using i Delete_refines [of l k] by (simp add: P map_of_filter_key)
  assume "j \<noteq> k"
  then show "Peek j (Put k v l) = None \<or> Peek j (Put k v l) = Peek j l"
    using i Put_refines [of l k v] map_of_take [of "lru_cap l" "(k, v) # spec_without k (pairs l)" j]
    by (simp add: P spec_put_def map_of_filter_key)
qed

lemma run_op_lru: "lru_cache.run_op = lru_apply"
proof (intro ext)
  fix x :: "'v lru_op" and l show "lru_cache.run_op x l = lru_apply x l" by (cases x) auto
qed

section \<open>Properties\<close>

text \<open>
  C37. After any sequence of \<open>Get\<close>, \<open>Put\<close> and \<open>Delete\<close> the linked list and the key map of the cache are
  the specified list of pairs in order of recency: at most \<open>cap\<close> of them (at least one), the least
  recently used evicted first, and \<open>Peek\<close> and \<open>Get\<close> return the pair's value. A value that is returned is
  the one last written to its key.
\<close>

theorem lru_refines_recency_list:
  assumes "l = fold lru_apply ops (newLRU n)" and "cap = (if n < 1 then 1 else nat n)"
  shows "pairs l = fold (spec_apply cap) ops [] \<and> Len l \<le> cap \<and> Len l = length (pairs l) \<and>
    Peek k l = map_of (pairs l) k \<and> fst (Get k l) = Peek k l \<and>
    (Peek k l = Some v \<longrightarrow> last_write ops k None = Some v)"
proof -
  have r: "lru_inv l" "pairs l = fold (spec_apply cap) ops []" "lru_cap l = cap"
    using lru_run_refines [OF newLRU_inv(1), of ops n] assms by (simp_all add: newLRU_inv(2,3))
  have "Peek k (newLRU n :: 'a lru) = None" by (simp add: Peek_def newLRU_def)
  then have "Peek k l = Some v \<longrightarrow> last_write ops k None = Some v"
    using lru_cache.look_is_last_write [OF newLRU_inv(1), of k ops n v] assms(1) by (simp add: run_op_lru)
  moreover have "Peek k l = map_of (pairs l) k" "fst (Get k l) = map_of (pairs l) k"
    using Peek_pairs [of l] Get_refines [of l] r(1) by (simp_all add: lru_inv_def)
  moreover have "Len l \<le> cap" using r(1,3) by (simp add: lru_inv_def Len_def)
  moreover have "Len l = length (pairs l)" by (simp add: Len_def pairs_def)
  ultimately show ?thesis using r(2) by simp
qed

theorem lru_refines_recency_list_witness:
  "pairs (fold lru_apply [LPut ''a'' 1, LPut ''b'' 2, LGet ''a'', LPut ''c'' (3 :: nat)] (newLRU 2)) = [(''c'', 3), (''a'', 1)]"
  using lru_refines_recency_list [OF refl refl, of "[LPut ''a'' 1, LPut ''b'' 2, LGet ''a'', LPut ''c'' (3 :: nat)]" 2]
  by (simp add: spec_put_def spec_touch_def spec_without_def)

end
