(* ===== verification/TokenCache.thy ===== *)
theory TokenCache
  imports LruCache GoStrings
begin

text \<open>
  API tokens (\<open>pkg/auth/token.go\<close>) and the token cache of the resilience layer
  (\<open>pkg/modelscache/tokens.go\<close>, \<open>health.go\<close> and the options of \<open>models.go\<close>). The inner token store is
  the database: each operation takes its answer as an argument. SHA-256 (\<open>HashToken\<close>) and
  \<open>json.Unmarshal\<close> are arguments too. An error of the store is what the code inspects of it: its text,
  which sentinels \<open>errors.Is\<close> finds in it, and the operation of the \<open>net.OpError\<close> it wraps.

  \<open>ValidateToken\<close> holds the lock in two sections, the look-up and the update after the store has
  answered; \<open>vt_sections\<close> runs them on two states, so that other requests may intervene. The histories
  of a cache are lists of such updates (\<open>ts_event\<close>), in any order.
\<close>

section \<open>Tokens\<close>

record AuthToken =
  tok_ID :: string
  tok_Name :: string
  TokenHash :: string
  ExpiresAt :: "time option"
  CreatedAt :: time
  CreatedBy :: string
  UltimateModelEnabled :: bool
  UltimateModelID :: string
  AllowedModels :: "string list option"

datatype db_value = DbNull | DbString string | DbBytes string | DbOther

definition scan_text :: "(string \<Rightarrow> string list option option) \<Rightarrow> string \<Rightarrow> string list option" where
  "scan_text unmarshal s =
     (if s = '''' then None else case unmarshal s of None \<Rightarrow> Some [] | Some ms \<Rightarrow> ms)"

definition ScanAllowedModels :: "(string \<Rightarrow> string list option option) \<Rightarrow> db_value \<Rightarrow> string list option" where
  "ScanAllowedModels unmarshal raw =
     (case raw of DbNull \<Rightarrow> None | DbString s \<Rightarrow> scan_text unmarshal s | DbBytes s \<Rightarrow> scan_text unmarshal s | DbOther \<Rightarrow> Some [])"

definition IsModelAllowed :: "AuthToken \<Rightarrow> string \<Rightarrow> bool" where
  "IsModelAllowed t m =
     (case AllowedModels t of None \<Rightarrow> True | Some ms \<Rightarrow> if ms = [] then True else list_ex (\<lambda>a. a = m) ms)"

definition IsExpired :: "time \<Rightarrow> AuthToken \<Rightarrow> bool" where
  "IsExpired now t = (case ExpiresAt t of None \<Rightarrow> False | Some x \<Rightarrow> x < now)"

definition isHex :: "char \<Rightarrow> bool" where
  "isHex c = (let n = of_char c :: nat in 48 \<le> n \<and> n \<le> 57 \<or> 97 \<le> n \<and> n \<le> 102 \<or> 65 \<le> n \<and> n \<le> 70)"

definition ValidateTokenFormat :: "string \<Rightarrow> bool" where
  "ValidateTokenFormat token =
     (length token = 3 + 64 \<and> take 3 token = ''sk-'' \<and> list_all isHex (drop 3 token))"

section \<open>Errors of the inner store\<close>

record store_error =
  se_text :: string
  is_notFound :: bool
  is_badFormat :: bool
  is_expired :: bool
  net_op :: "string option"
  is_deadline :: bool
  is_badConn :: bool

definition plain_error :: "string \<Rightarrow> store_error" where
  "plain_error s = \<lparr>se_text = s, is_notFound = False, is_badFormat = False, is_expired = False,
     net_op = None, is_deadline = False, is_badConn = False\<rparr>"

definition ErrInvalidTokenFormat :: store_error where
  "ErrInvalidTokenFormat = (plain_error ''invalid token format'')\<lparr>is_badFormat := True\<rparr>"

definition ErrTokenExpired :: store_error where
  "ErrTokenExpired = (plain_error ''token has expired'')\<lparr>is_expired := True\<rparr>"

definition ErrTokenNotFound :: store_error where
  "ErrTokenNotFound = (plain_error ''token not found'')\<lparr>is_notFound := True\<rparr>"

definition isVerdictClass :: "store_error \<Rightarrow> bool" where
  "isVerdictClass e \<longleftrightarrow> is_notFound e \<or> is_badFormat e \<or> is_expired e"

definition infraErrorFragments :: "string list" where
  "infraErrorFragments =
     [''connection refused'', ''no such host'', ''i/o timeout'', ''connection reset'', ''database is closed'',
      ''unexpected eof'', ''server closed the connection unexpectedly'', ''unable to open database file'',
      ''file is not a database'', ''database disk image is malformed'']"

definition isInfraError :: "store_error option \<Rightarrow> bool" where
  "isInfraError x =
     (case x of
        None \<Rightarrow> False
      | Some e \<Rightarrow>
          (case net_op e of None \<Rightarrow> False | Some op \<Rightarrow> op \<noteq> '''') \<or> is_deadline e \<or> is_badConn e \<or>
          list_ex (\<lambda>frag. Contains (ToLower (se_text e)) frag) infraErrorFragments)"

section \<open>The cached store\<close>

datatype tokenTier = tierPositive | tierStalePositive | tierNegative

record tokenEntry =
  te_kind :: tokenTier
  te_token :: "AuthToken option"
  te_verdict :: "store_error option"
  cachedAt :: time
  freshUntil :: time

record Options =
  ModelsNegTTL :: duration
  TokensPositiveTTL :: duration
  NegativeTTL :: duration
  StaleCap :: duration
  LRUCap :: int

definition withDefaults :: "Options \<Rightarrow> Options" where
  "withDefaults o1 =
     \<lparr>ModelsNegTTL = (if ModelsNegTTL o1 \<le> 0 then 60 * second else ModelsNegTTL o1),
      TokensPositiveTTL = (if TokensPositiveTTL o1 \<le> 0 then 60 * second else TokensPositiveTTL o1),
      NegativeTTL = (if NegativeTTL o1 \<le> 0 then 60 * second else NegativeTTL o1),
      StaleCap = (if StaleCap o1 \<le> 0 then 24 * hour else StaleCap o1),
      LRUCap = (if LRUCap o1 \<le> 0 then 10000 else LRUCap o1)\<rparr>"

definition defaultIDIndexCap :: nat where
  "defaultIDIndexCap = 50000"

record CachedTokenStore =
  opts :: Options
  entries :: "tokenEntry lru"
  idToHash :: "(string, string) fmap"
  idOrder :: "string list"

definition NewCachedTokenStore :: "Options \<Rightarrow> CachedTokenStore" where
  "NewCachedTokenStore o1 =
     (let d = withDefaults o1 in \<lparr>opts = d, entries = newLRU (LRUCap d), idToHash = fmempty, idOrder = []\<rparr>)"

definition rememberID :: "string \<Rightarrow> string \<Rightarrow> CachedTokenStore \<Rightarrow> CachedTokenStore" where
  "rememberID i hash c =
     (if i = '''' then c
      else let c1 = (if fmlookup (idToHash c) i = None
                     then let order = idOrder c @ [i]
                          in if defaultIDIndexCap < length order
                             then c\<lparr>idOrder := tl order, idToHash := fmdrop (hd order) (idToHash c)\<rparr>
                             else c\<lparr>idOrder := order\<rparr>
                     else c)
           in c1\<lparr>idToHash := fmupd i hash (idToHash c1)\<rparr>)"

definition positive_entry :: "Options \<Rightarrow> AuthToken option \<Rightarrow> time option \<Rightarrow> time \<Rightarrow> tokenEntry" where
  "positive_entry o1 tok clampExpiry now =
     (let until = now + TokensPositiveTTL o1;
          until = (case clampExpiry of None \<Rightarrow> until | Some x \<Rightarrow> if x < until then x else until)
      in \<lparr>te_kind = tierPositive, te_token = tok, te_verdict = None, cachedAt = now, freshUntil = until\<rparr>)"

definition storePositive ::
  "string \<Rightarrow> AuthToken option \<Rightarrow> time option \<Rightarrow> time \<Rightarrow> CachedTokenStore \<Rightarrow> CachedTokenStore" where
  "storePositive hash tok clampExpiry now c =
     (let c1 = c\<lparr>entries := Put hash (positive_entry (opts c) tok clampExpiry now) (entries c)\<rparr>
      in case tok of None \<Rightarrow> c1 | Some t \<Rightarrow> rememberID (tok_ID t) hash c1)"

definition negative_entry :: "store_error \<Rightarrow> time \<Rightarrow> tokenEntry" where
  "negative_entry v now =
     \<lparr>te_kind = tierNegative, te_token = None, te_verdict = Some v, cachedAt = now, freshUntil = 0\<rparr>"

definition storeNegative :: "string \<Rightarrow> store_error \<Rightarrow> time \<Rightarrow> CachedTokenStore \<Rightarrow> CachedTokenStore" where
  "storeNegative hash v now c = c\<lparr>entries := Put hash (negative_entry v now) (entries c)\<rparr>"

type_synonym vt_result = "store_error + AuthToken option"

definition cachedVerdict :: "string \<Rightarrow> time \<Rightarrow> CachedTokenStore \<Rightarrow> vt_result option" where
  "cachedVerdict hash now c =
     (case Peek hash (entries c) of
        None \<Rightarrow> None
      | Some e \<Rightarrow>
          (case te_kind e of
             tierPositive \<Rightarrow> if now < freshUntil e then Some (Inr (te_token e)) else None
           | tierNegative \<Rightarrow>
               if now - cachedAt e \<le> NegativeTTL (opts c)
               then Some (case te_verdict e of Some v \<Rightarrow> Inl v | None \<Rightarrow> Inr None) else None
           | tierStalePositive \<Rightarrow> None))"

definition vt_finish :: "string \<Rightarrow> time \<Rightarrow> vt_result \<Rightarrow> CachedTokenStore \<Rightarrow> vt_result \<times> CachedTokenStore" where
  "vt_finish hash now inner c =
     (case inner of
        Inr tok \<Rightarrow> (Inr tok, storePositive hash tok (Option.bind tok ExpiresAt) now c)
      | Inl e \<Rightarrow>
          if isVerdictClass e then (Inl e, storeNegative hash e now c)
          else if isInfraError (Some e) then
            (case Peek hash (entries c) of
               None \<Rightarrow> (Inl e, c)
             | Some x \<Rightarrow>
                 if te_kind x = tierPositive \<and> te_token x \<noteq> None \<and> now - cachedAt x \<le> StaleCap (opts c)
                 then (Inr (te_token x), c) else (Inl e, c))
          else (Inl e, c))"

text \<open>The look-up on the state \<open>c1\<close> and the update on the later state \<open>c2\<close>.\<close>

definition vt_sections ::
  "(string \<Rightarrow> string) \<Rightarrow> time \<Rightarrow> string \<Rightarrow> vt_result \<Rightarrow> CachedTokenStore \<Rightarrow> CachedTokenStore \<Rightarrow>
   vt_result \<times> CachedTokenStore" where
  "vt_sections HashToken now plaintext inner c1 c2 =
     (if \<not> ValidateTokenFormat plaintext then (Inl ErrInvalidTokenFormat, c2)
      else let hash = HashToken plaintext
           in case cachedVerdict hash now c1 of
                Some r \<Rightarrow> (r, c2)
              | None \<Rightarrow> vt_finish hash now inner c2)"

definition ValidateToken ::
  "(string \<Rightarrow> string) \<Rightarrow> time \<Rightarrow> string \<Rightarrow> vt_result \<Rightarrow> CachedTokenStore \<Rightarrow> vt_result \<times> CachedTokenStore" where
  "ValidateToken HashToken now plaintext inner c = vt_sections HashToken now plaintext inner c c"

definition CreateToken ::
  "(string \<Rightarrow> string) \<Rightarrow> time \<Rightarrow> time option \<Rightarrow> store_error + (string \<times> AuthToken option) \<Rightarrow> CachedTokenStore \<Rightarrow>
   (store_error + (string \<times> AuthToken option)) \<times> CachedTokenStore" where
  "CreateToken HashToken now expiresAt inner c =
     (case inner of
        Inl e \<Rightarrow> (Inl e, c)
      | Inr (plaintext, tok) \<Rightarrow> (Inr (plaintext, tok), storePositive (HashToken plaintext) tok expiresAt now c))"

definition forget :: "bool \<Rightarrow> string \<Rightarrow> CachedTokenStore \<Rightarrow> CachedTokenStore" where
  "forget dropIndex i c =
     (case fmlookup (idToHash c) i of
        None \<Rightarrow> c
      | Some hash \<Rightarrow>
          c\<lparr>entries := Delete hash (entries c),
            idToHash := (if dropIndex then fmdrop i (idToHash c) else idToHash c)\<rparr>)"

definition DeleteToken :: "string \<Rightarrow> store_error option \<Rightarrow> CachedTokenStore \<Rightarrow> store_error option \<times> CachedTokenStore" where
  "DeleteToken i inner c = (case inner of Some e \<Rightarrow> (Some e, c) | None \<Rightarrow> (None, forget True i c))"

definition UpdateTokenPermission ::
  "string \<Rightarrow> store_error option \<Rightarrow> CachedTokenStore \<Rightarrow> store_error option \<times> CachedTokenStore" where
  "UpdateTokenPermission i inner c = (case inner of Some e \<Rightarrow> (Some e, c) | None \<Rightarrow> (None, forget False i c))"

section \<open>Histories\<close>

datatype ts_event =
    EvAnswer string time vt_result
  | EvCreate string "AuthToken option" "time option" time
  | EvDelete string
  | EvUpdate string

fun ts_apply :: "ts_event \<Rightarrow> CachedTokenStore \<Rightarrow> CachedTokenStore" where
  "ts_apply (EvAnswer h now inner) c = snd (vt_finish h now inner c)"
| "ts_apply (EvCreate h tok x now) c = storePositive h tok x now c"
| "ts_apply (EvDelete i) c = snd (DeleteToken i None c)"
| "ts_apply (EvUpdate i) c = snd (UpdateTokenPermission i None c)"

text \<open>What the inner store last said about a hash: accepted with a token and an expiry, or denied.\<close>

datatype verdict = Accepted "AuthToken option" "time option" time | Denied store_error time

definition event_verdict :: "ts_event \<Rightarrow> (string \<times> verdict) option" where
  "event_verdict ev =
     (case ev of
        EvAnswer h now (Inr tok) \<Rightarrow> Some (h, Accepted tok (Option.bind tok ExpiresAt) now)
      | EvAnswer h now (Inl e) \<Rightarrow> if isVerdictClass e then Some (h, Denied e now) else None
      | EvCreate h tok x now \<Rightarrow> Some (h, Accepted tok x now)
      | EvDelete i \<Rightarrow> None
      | EvUpdate i \<Rightarrow> None)"

fun last_verdict :: "ts_event list \<Rightarrow> string \<Rightarrow> verdict option \<Rightarrow> verdict option" where
  "last_verdict [] h old = old"
| "last_verdict (ev # evs) h old =
     last_verdict evs h (case event_verdict ev of Some (h', v) \<Rightarrow> if h' = h then Some v else old | None \<Rightarrow> old)"

definition entry_of :: "Options \<Rightarrow> verdict \<Rightarrow> tokenEntry" where
  "entry_of o1 v = (case v of Accepted tok x now \<Rightarrow> positive_entry o1 tok x now | Denied e now \<Rightarrow> negative_entry e now)"

text \<open>Token identifiers are not empty and belong to one hash throughout a history.\<close>

definition event_ids_ok :: "(string \<Rightarrow> string) \<Rightarrow> ts_event \<Rightarrow> bool" where
  "event_ids_ok hash_of ev =
     (case ev of
        EvAnswer h now (Inr (Some t)) \<Rightarrow> hash_of (tok_ID t) = h
      | EvCreate h (Some t) x now \<Rightarrow> hash_of (tok_ID t) = h
      | EvDelete i \<Rightarrow> i \<noteq> ''''
      | EvUpdate i \<Rightarrow> i \<noteq> ''''
      | _ \<Rightarrow> True)"

definition indexed :: "(string \<Rightarrow> string) \<Rightarrow> CachedTokenStore \<Rightarrow> bool" where
  "indexed hash_of c \<longleftrightarrow>
     (\<forall>h e t. Peek h (entries c) = Some e \<and> te_token e = Some t \<and> tok_ID t \<noteq> '''' \<longrightarrow>
        hash_of (tok_ID t) = h \<and> fmlookup (idToHash c) (tok_ID t) = Some h)"

definition traced :: "Options \<Rightarrow> ts_event list \<Rightarrow> CachedTokenStore \<Rightarrow> bool" where
  "traced o1 evs c \<longleftrightarrow> lru_inv (entries c) \<and> opts c = withDefaults o1 \<and>
     (\<forall>h e. Peek h (entries c) = Some e \<longrightarrow>
        map_option (entry_of (withDefaults o1)) (last_verdict evs h None) = Some e)"

definition ex_token :: AuthToken where
  "ex_token = \<lparr>tok_ID = ''t1'', tok_Name = ''ci'', TokenHash = ''h'', ExpiresAt = Some (10 * second), CreatedAt = 0,
     CreatedBy = ''admin'', UltimateModelEnabled = False, UltimateModelID = '''', AllowedModels = None\<rparr>"

definition ex_opts :: Options where
  "ex_opts = \<lparr>ModelsNegTTL = 0, TokensPositiveTTL = 0, NegativeTTL = 0, StaleCap = 0, LRUCap = 0\<rparr>"

definition ex_plain :: string where
  "ex_plain = ''sk-'' @ replicate 64 CHR ''a''"

section \<open>The cache remembers verdicts of the store\<close>

lemma rememberID_simps [simp]:
  "entries (rememberID i h c) = entries c" "opts (rememberID i h c) = opts c"
  by (simp_all add: rememberID_def Let_def)

lemma storePositive_simps [simp]:
  "entries (storePositive h tok x now c) = Put h (positive_entry (opts c) tok x now) (entries c)"
  "opts (storePositive h tok x now c) = opts c"
  by (simp_all add: storePositive_def Let_def split: option.splits)

lemma storeNegative_simps [simp]:
  "entries (storeNegative h v now c) = Put h (negative_entry v now) (entries c)"
  "opts (storeNegative h v now c) = opts c" "idToHash (storeNegative h v now c) = idToHash c"
  by (simp_all add: storeNegative_def)

lemma forget_simps [simp]:
  "opts (forget d i c) = opts c"
  "entries (forget d i c) = (case fmlookup (idToHash c) i of None \<Rightarrow> entries c | Some h \<Rightarrow> Delete h (entries c))"
  by (simp_all add: forget_def split: option.splits)

lemma ts_apply_write:
  assumes "event_verdict ev = Some (h, v)"
  shows "entries (ts_apply ev c) = Put h (entry_of (opts c) v) (entries c)"
  using assms by (cases ev)
    (auto simp: event_verdict_def vt_finish_def entry_of_def split: sum.splits if_splits)

lemma ts_apply_other:
  assumes "event_verdict ev = None" and "lru_inv (entries c)"
  shows "lru_inv (entries (ts_apply ev c)) \<and>
    (Peek h (entries (ts_apply ev c)) = Some e \<longrightarrow> Peek h (entries c) = Some e)"
proof (cases ev)
  case (EvAnswer g now inner)
  then show ?thesis
    using assms by (auto simp: event_verdict_def vt_finish_def split: sum.splits if_splits option.splits)
qed (use assms in \<open>auto simp: event_verdict_def DeleteToken_def UpdateTokenPermission_def lru_cache.ok_del
      lru_cache.look_del split: option.splits if_splits\<close>)

lemma ts_apply_opts [simp]: "opts (ts_apply ev c) = opts c"
  by (cases ev) (auto simp: vt_finish_def DeleteToken_def UpdateTokenPermission_def split: sum.splits option.splits)

lemma last_verdict_snoc:
  "last_verdict (evs @ [ev]) h old =
    (case event_verdict ev of Some (h', v) \<Rightarrow> if h' = h then Some v else last_verdict evs h old | None \<Rightarrow> last_verdict evs h old)"
  by (induction evs arbitrary: old) (simp_all split: option.splits prod.splits)

lemma traced_new: "traced o1 [] (NewCachedTokenStore o1)"
  by (simp add: traced_def NewCachedTokenStore_def Let_def newLRU_inv(1)) (simp add: newLRU_def Peek_def)

lemma traced_step:
  assumes "traced o1 evs c"
  shows "traced o1 (evs @ [ev]) (ts_apply ev c)"
proof (cases "event_verdict ev")
  case None
  then show ?thesis
    using assms ts_apply_other [OF None, of c] by (simp add: traced_def last_verdict_snoc)
next
  case (Some hv)
  obtain g v where g: "hv = (g, v)" by (cases hv)
  note w = ts_apply_write [OF Some [unfolded g], of c]
  have i: "lru_inv (entries c)" and o: "opts c = withDefaults o1" using assms by (simp_all add: traced_def)
  have "map_option (entry_of (withDefaults o1)) (last_verdict (evs @ [ev]) h None) = Some e"
    if "Peek h (entries (ts_apply ev c)) = Some e" for h e
  proof (cases "h = g")
    case True
    then show ?thesis using lru_cache.look_put_some [OF i that [unfolded w]] o by (simp add: last_verdict_snoc Some g)
  next
    case False
    then have "Peek h (entries c) = Some e" using lru_cache.look_put_some [OF i that [unfolded w]] by simp
    then show ?thesis using False assms by (simp add: traced_def last_verdict_snoc Some g)
  qed
  then show ?thesis using lru_cache.ok_put [OF i] by (simp add: traced_def w o)
qed

lemma traced_run: "traced o1 evs c \<Longrightarrow> traced o1 (evs @ evs') (fold ts_apply evs' c)"
proof (induction evs' arbitrary: evs c)
  case (Cons ev evs')
  then show ?case using Cons.IH [OF traced_step [OF Cons.prems, of ev]] by simp
qed simp

lemmas traced_history = traced_run [OF traced_new, simplified]

lemma fresh_positive:
  "now < freshUntil (positive_entry o1 tok x t0) \<longleftrightarrow> now < t0 + TokensPositiveTTL o1 \<and> (\<forall>y. x = Some y \<longrightarrow> now < y)"
  by (auto simp: positive_entry_def Let_def split: option.splits)

lemma positive_entry_simps [simp]:
  "te_kind (positive_entry o1 tok x t0) = tierPositive" "te_token (positive_entry o1 tok x t0) = tok"
  "cachedAt (positive_entry o1 tok x t0) = t0"
  by (simp_all add: positive_entry_def Let_def)

lemma negative_entry_simps [simp]:
  "te_kind (negative_entry v t0) = tierNegative" "te_token (negative_entry v t0) = None"
  "te_verdict (negative_entry v t0) = Some v" "cachedAt (negative_entry v t0) = t0"
  by (simp_all add: negative_entry_def)

lemma cachedVerdict_justified:
  assumes "traced o1 evs c" and "cachedVerdict h now c = Some (Inr x)"
  shows "\<exists>clamp t0. last_verdict evs h None = Some (Accepted x clamp t0) \<and>
    now < t0 + TokensPositiveTTL (withDefaults o1) \<and> (\<forall>y. clamp = Some y \<longrightarrow> now < y)"
proof -
  obtain e where e: "Peek h (entries c) = Some e" using assms(2) by (auto simp: cachedVerdict_def split: option.splits)
  then obtain v where v: "last_verdict evs h None = Some v" "e = entry_of (withDefaults o1) v"
    using assms(1) by (auto simp: traced_def)
  show ?thesis
  proof (cases v)
    case (Accepted tok clamp t0)
    then show ?thesis
      using assms(2) e v fresh_positive by (auto simp: cachedVerdict_def entry_of_def split: if_splits)
  qed (use assms(2) e v in \<open>auto simp: cachedVerdict_def entry_of_def split: if_splits\<close>)
qed

lemma vt_finish_justified:
  assumes "traced o1 evs c" and "fst (vt_finish h now inner c) = Inr x"
  shows "inner = Inr x \<or> (\<exists>e clamp t0. inner = Inl e \<and> isInfraError (Some e) \<and> \<not> isVerdictClass e \<and>
    last_verdict evs h None = Some (Accepted x clamp t0) \<and> now - t0 \<le> StaleCap (withDefaults o1))"
proof (cases inner)
  case (Inl e)
  then obtain y where y: "Peek h (entries c) = Some y" "te_kind y = tierPositive" "te_token y = x"
      "now - cachedAt y \<le> StaleCap (opts c)" and e: "isInfraError (Some e)" "\<not> isVerdictClass e"
    using assms(2) by (auto simp: vt_finish_def split: if_splits option.splits)
  then obtain v where v: "last_verdict evs h None = Some v" "y = entry_of (withDefaults o1) v"
    using assms(1) by (auto simp: traced_def)
  have "opts c = withDefaults o1" using assms(1) by (simp add: traced_def)
  then show ?thesis using Inl y e v by (cases v) (auto simp: entry_of_def)
qed (use assms(2) in \<open>simp add: vt_finish_def\<close>)

section \<open>The reverse index\<close>

lemma rememberID_index:
  assumes "length (idOrder c) < defaultIDIndexCap"
  shows "idToHash (rememberID i h c) = (if i = '''' then idToHash c else fmupd i h (idToHash c))"
    and "length (idOrder (rememberID i h c)) \<le> Suc (length (idOrder c))"
  using assms by (simp_all add: rememberID_def Let_def)

lemma storePositive_index:
  assumes "length (idOrder c) < defaultIDIndexCap"
  shows "idToHash (storePositive h tok x now c) =
      (case tok of Some t \<Rightarrow> if tok_ID t = '''' then idToHash c else fmupd (tok_ID t) h (idToHash c) | None \<Rightarrow> idToHash c)"
    and "length (idOrder (storePositive h tok x now c)) \<le> Suc (length (idOrder c))"
  using assms rememberID_index [of "c\<lparr>entries := Put h (positive_entry (opts c) tok x now) (entries c)\<rparr>"]
  by (auto simp: storePositive_def Let_def split: option.splits)

lemma idOrder_other [simp]:
  "idOrder (storeNegative h v now c) = idOrder c" "idOrder (forget d i c) = idOrder c"
  by (simp_all add: storeNegative_def forget_def split: option.splits)

lemma idOrder_step:
  "length (idOrder c) < defaultIDIndexCap \<Longrightarrow> length (idOrder (ts_apply ev c)) \<le> Suc (length (idOrder c))"
  by (cases ev) (auto simp: vt_finish_def DeleteToken_def UpdateTokenPermission_def storePositive_index(2)
      split: sum.splits option.splits)

lemma indexedD:
  "indexed hash_of c \<Longrightarrow> Peek h (entries c) = Some e \<Longrightarrow> te_token e = Some t \<Longrightarrow> tok_ID t \<noteq> '''' \<Longrightarrow>
    hash_of (tok_ID t) = h \<and> fmlookup (idToHash c) (tok_ID t) = Some h"
  by (simp add: indexed_def)

lemma indexed_positive:
  assumes "indexed hash_of c" and "lru_inv (entries c)" and "length (idOrder c) < defaultIDIndexCap"
    and "\<And>t. tok = Some t \<Longrightarrow> hash_of (tok_ID t) = h"
  shows "indexed hash_of (storePositive h tok x now c)"
  unfolding indexed_def
proof (intro allI impI)
  fix g e t
  assume a: "Peek g (entries (storePositive h tok x now c)) = Some e \<and> te_token e = Some t \<and> tok_ID t \<noteq> ''''"
  then have p: "(if g = h then Some (positive_entry (opts c) tok x now) else Peek g (entries c)) = Some e"
    using lru_cache.look_put_some [OF assms(2)] by simp
  show "hash_of (tok_ID t) = g \<and> fmlookup (idToHash (storePositive h tok x now c)) (tok_ID t) = Some g"
  proof (cases "g = h")
    case True
    then have "tok = Some t" using p a by auto
    then show ?thesis using True a assms(4) by (simp add: storePositive_index(1) [OF assms(3)])
  next
    case False
    then have "hash_of (tok_ID t) = g \<and> fmlookup (idToHash c) (tok_ID t) = Some g"
      using p a indexedD [OF assms(1)] by simp
    then show ?thesis using False assms(4) by (auto simp: storePositive_index(1) [OF assms(3)] split: option.splits)
  qed
qed

lemma indexed_negative:
  assumes "indexed hash_of c" and "lru_inv (entries c)"
  shows "indexed hash_of (storeNegative h v now c)"
  unfolding indexed_def
proof (intro allI impI)
  fix g e t
  assume a: "Peek g (entries (storeNegative h v now c)) = Some e \<and> te_token e = Some t \<and> tok_ID t \<noteq> ''''"
  then have p: "(if g = h then Some (negative_entry v now) else Peek g (entries c)) = Some e"
    using lru_cache.look_put_some [OF assms(2)] by simp
  then have "g \<noteq> h" using a by auto
  then show "hash_of (tok_ID t) = g \<and> fmlookup (idToHash (storeNegative h v now c)) (tok_ID t) = Some g"
    using p a indexedD [OF assms(1)] by simp
qed

lemma forgotten:
  assumes "indexed hash_of c" and "lru_inv (entries c)" and "i \<noteq> ''''"
    and "Peek h (entries (forget d i c)) = Some e" and "te_token e = Some t"
  shows "tok_ID t \<noteq> i \<and> Peek h (entries c) = Some e"
proof -
  have p: "Peek h (entries c) = Some e" and k: "fmlookup (idToHash c) i \<noteq> Some h"
    using assms(2,4) by (auto simp: lru_cache.look_del split: option.splits if_splits)
  then show ?thesis using indexedD [OF assms(1) p assms(5)] assms(3) by auto
qed

lemma indexed_forget:
  assumes "indexed hash_of c" and "lru_inv (entries c)" and "i \<noteq> ''''"
  shows "indexed hash_of (forget d i c)"
  unfolding indexed_def
proof (intro allI impI)
  fix g e t
  assume a: "Peek g (entries (forget d i c)) = Some e \<and> te_token e = Some t \<and> tok_ID t \<noteq> ''''"
  then have f: "tok_ID t \<noteq> i" "Peek g (entries c) = Some e" using forgotten [OF assms] by blast+
  have "fmlookup (idToHash (forget d i c)) (tok_ID t) = fmlookup (idToHash c) (tok_ID t)"
    using f(1) by (simp add: forget_def split: option.splits)
  then show "hash_of (tok_ID t) = g \<and> fmlookup (idToHash (forget d i c)) (tok_ID t) = Some g"
    using indexedD [OF assms(1) f(2)] a by simp
qed

lemma indexed_step:
  assumes "indexed hash_of c" and "lru_inv (entries c)" and "length (idOrder c) < defaultIDIndexCap"
    and "event_ids_ok hash_of ev"
  shows "indexed hash_of (ts_apply ev c)"
proof (cases ev)
  case (EvAnswer h now inner)
  have pos: "indexed hash_of (storePositive h tok x now c)" if "inner = Inr tok" for tok x
    using assms(4) that EvAnswer by (intro indexed_positive [OF assms(1-3)]) (simp add: event_ids_ok_def)
  show ?thesis
    using EvAnswer pos indexed_negative [OF assms(1,2)] assms(1)
    by (auto simp: vt_finish_def split: sum.splits option.splits)
next
  case (EvCreate h tok x now)
  then have "indexed hash_of (storePositive h tok x now c)"
    using assms(4) by (intro indexed_positive [OF assms(1-3)]) (simp add: event_ids_ok_def)
  then show ?thesis by (simp add: EvCreate)
qed (use assms indexed_forget in \<open>simp_all add: event_ids_ok_def DeleteToken_def UpdateTokenPermission_def\<close>)

lemma indexed_run:
  assumes "traced o1 evs0 c" "indexed hash_of c" "length (idOrder c) + length evs \<le> defaultIDIndexCap"
    and "list_all (event_ids_ok hash_of) evs"
  shows "indexed hash_of (fold ts_apply evs c) \<and> length (idOrder (fold ts_apply evs c)) \<le> length (idOrder c) + length evs"
  using assms
proof (induction evs arbitrary: evs0 c)
  case (Cons ev evs)
  have s: "length (idOrder c) < defaultIDIndexCap" using Cons.prems(3) by simp
  have "indexed hash_of (ts_apply ev c)"
    using indexed_step [OF Cons.prems(2) _ s] Cons.prems(1,4) by (simp add: traced_def)
  then show ?case
    using Cons.IH [OF traced_step [OF Cons.prems(1), of ev]] idOrder_step [OF s, of ev] Cons.prems(3,4) by fastforce
qed simp

lemma indexed_new: "indexed hash_of (NewCachedTokenStore o1)"
  by (simp add: indexed_def NewCachedTokenStore_def Let_def newLRU_def Peek_def)

section \<open>A sample cache\<close>

lemma ex_plain_ok: "ValidateTokenFormat ex_plain"
  by (simp add: ValidateTokenFormat_def ex_plain_def isHex_def list_all_iff)

lemma ex_lookup:
  "cachedVerdict ''h'' second (snd (vt_finish ''h'' 0 (Inr (Some ex_token)) (NewCachedTokenStore ex_opts))) =
    Some (Inr (Some ex_token))"
  by (simp add: vt_finish_def cachedVerdict_def NewCachedTokenStore_def Let_def lru_cache.look_put_same newLRU_inv(1)
      fresh_positive withDefaults_def ex_opts_def ex_token_def)

lemma ex_index:
  "idToHash (snd (vt_finish ''h'' 0 (Inr (Some ex_token)) (NewCachedTokenStore ex_opts))) = fmupd ''t1'' ''h'' fmempty"
  by (simp add: vt_finish_def storePositive_index(1) NewCachedTokenStore_def Let_def defaultIDIndexCap_def ex_token_def)

lemma ex_lookup_deleted:
  "cachedVerdict ''h'' now (snd (DeleteToken ''t1'' None
     (snd (vt_finish ''h'' 0 (Inr (Some ex_token)) (NewCachedTokenStore ex_opts))))) = None"
  using ex_index
  by (simp add: DeleteToken_def cachedVerdict_def vt_finish_def NewCachedTokenStore_def Let_def lru_cache.look_del
      lru_cache.ok_put newLRU_inv(1))

section \<open>Properties\<close>

text \<open>
  C13. Every token that \<open>ValidateToken\<close> lets through, whatever other requests do to the cache between its
  look-up and its update, was accepted by the token store: in this call; or in the last verdict on the
  token's hash before the look-up, no longer than the positive TTL ago and before its expiry; or, only
  when the store cannot be reached, in the last verdict on the hash, no longer than the stale cap ago.
  A denial is never overridden by the cache.
\<close>

theorem token_answers_justified:
  assumes "c1 = fold ts_apply evs1 (NewCachedTokenStore o1)" and "c2 = fold ts_apply evs2 c1"
    and "fst (vt_sections HashToken now plaintext inner c1 c2) = Inr x"
  shows "ValidateTokenFormat plaintext \<and>
    (inner = Inr x \<or>
     (\<exists>clamp t0. last_verdict evs1 (HashToken plaintext) None = Some (Accepted x clamp t0) \<and>
        now < t0 + TokensPositiveTTL (withDefaults o1) \<and> (\<forall>y. clamp = Some y \<longrightarrow> now < y)) \<or>
     (\<exists>e clamp t0. inner = Inl e \<and> isInfraError (Some e) \<and> \<not> isVerdictClass e \<and>
        last_verdict (evs1 @ evs2) (HashToken plaintext) None = Some (Accepted x clamp t0) \<and>
        now - t0 \<le> StaleCap (withDefaults o1)))"
proof -
  have t1: "traced o1 evs1 c1" using traced_history assms(1) by simp
  have t2: "traced o1 (evs1 @ evs2) c2" using traced_run [OF t1] assms(2) by simp
  have f: "ValidateTokenFormat plaintext" using assms(3) by (auto simp: vt_sections_def split: if_splits)
  show ?thesis
  proof (cases "cachedVerdict (HashToken plaintext) now c1")
    case None
    then show ?thesis
      using vt_finish_justified [OF t2, of "HashToken plaintext" now inner x] assms(3) f by (auto simp: vt_sections_def Let_def)
  next
    case (Some r)
    then show ?thesis
      using cachedVerdict_justified [OF t1, of "HashToken plaintext" now x] assms(3) f by (auto simp: vt_sections_def Let_def)
  qed
qed

theorem token_answers_justified_witness:
  "last_verdict [EvAnswer ''h'' 0 (Inr (Some ex_token))] ''h'' None = Some (Accepted (Some ex_token) (Some (10 * second)) 0) \<and>
   fst (vt_sections (\<lambda>s. ''h'') second ex_plain (Inl ErrTokenNotFound)
     (fold ts_apply [EvAnswer ''h'' 0 (Inr (Some ex_token))] (NewCachedTokenStore ex_opts))
     (fold ts_apply [] (fold ts_apply [EvAnswer ''h'' 0 (Inr (Some ex_token))] (NewCachedTokenStore ex_opts)))) = Inr (Some ex_token) \<and>
   ValidateTokenFormat ex_plain"
proof -
  let ?c = "fold ts_apply [EvAnswer ''h'' 0 (Inr (Some ex_token))] (NewCachedTokenStore ex_opts)"
  have r: "fst (vt_sections (\<lambda>s. ''h'') second ex_plain (Inl ErrTokenNotFound) ?c (fold ts_apply [] ?c)) = Inr (Some ex_token)"
    using ex_plain_ok ex_lookup by (simp add: vt_sections_def Let_def)
  from token_answers_justified [OF refl refl r] show ?thesis
    using r by (simp add: event_verdict_def ex_token_def)
qed

text \<open>An event that stores an acceptance of the token \<open>t\<close>, and the tokens with identifier \<open>i\<close> a cache holds.\<close>

definition accepts :: "AuthToken \<Rightarrow> ts_event \<Rightarrow> bool" where
  "accepts t ev = (case event_verdict ev of Some (h, Accepted (Some t') x now) \<Rightarrow> t' = t | _ \<Rightarrow> False)"

definition holds_only :: "string \<Rightarrow> AuthToken set \<Rightarrow> CachedTokenStore \<Rightarrow> bool" where
  "holds_only i T c \<longleftrightarrow>
     (\<forall>h e t. Peek h (entries c) = Some e \<and> te_token e = Some t \<and> tok_ID t = i \<longrightarrow> t \<in> T)"

lemma holds_onlyD:
  "holds_only i T c \<Longrightarrow> Peek h (entries c) = Some e \<Longrightarrow> te_token e = Some t \<Longrightarrow> tok_ID t = i \<Longrightarrow> t \<in> T"
  by (simp add: holds_only_def)

lemma holds_only_step:
  assumes "lru_inv (entries c)" and "holds_only i T c"
  shows "holds_only i (T \<union> {t. accepts t ev}) (ts_apply ev c)"
  unfolding holds_only_def
proof (intro allI impI)
  fix h e t
  assume a: "Peek h (entries (ts_apply ev c)) = Some e \<and> te_token e = Some t \<and> tok_ID t = i"
  show "t \<in> T \<union> {t. accepts t ev}"
  proof (cases "event_verdict ev")
    case None
    then show ?thesis using ts_apply_other [OF None assms(1), of h e] a holds_onlyD [OF assms(2), of h e t] by simp
  next
    case (Some hv)
    obtain g v where g: "hv = (g, v)" by (cases hv)
    have p: "Peek h (Put g (entry_of (opts c) v) (entries c)) = Some e"
      using a ts_apply_write [OF Some [unfolded g], of c] by simp
    show ?thesis
    proof (cases "h = g")
      case True
      then have "te_token (entry_of (opts c) v) = Some t" using lru_cache.look_put_some [OF assms(1) p] a by simp
      then have "accepts t ev" by (cases v) (simp_all add: accepts_def Some g entry_of_def)
      then show ?thesis by simp
    next
      case False
      then have "Peek h (entries c) = Some e" using lru_cache.look_put_some [OF assms(1) p] by simp
      then show ?thesis using a holds_onlyD [OF assms(2), of h e t] by simp
    qed
  qed
qed

lemma holds_only_run:
  "traced o1 evs0 c \<Longrightarrow> holds_only i T c \<Longrightarrow>
   holds_only i (T \<union> {t. \<exists>ev \<in> set evs. accepts t ev}) (fold ts_apply evs c)"
proof (induction evs arbitrary: evs0 c T)
  case (Cons ev evs)
  have "holds_only i (T \<union> {t. accepts t ev}) (ts_apply ev c)"
    using Cons.prems holds_only_step by (simp add: traced_def)
  from Cons.IH [OF traced_step [OF Cons.prems(1)] this]
  have "holds_only i (T \<union> {t. accepts t ev} \<union> {t. \<exists>ev \<in> set evs. accepts t ev}) (fold ts_apply (ev # evs) c)"
    by simp
  moreover have "T \<union> {t. accepts t ev} \<union> {t. \<exists>ev \<in> set evs. accepts t ev} = T \<union> {t. \<exists>ev \<in> set (ev # evs). accepts t ev}"
    by auto
  ultimately show ?case by simp
qed simp

lemma revoked_holds_none:
  assumes "list_all (event_ids_ok hash_of) evs" and "length evs < 50000" and "i \<noteq> ''''"
  shows "holds_only i {} (fold ts_apply (evs @ [if deleted then EvDelete i else EvUpdate i]) (NewCachedTokenStore o1))"
proof -
  let ?c0 = "fold ts_apply evs (NewCachedTokenStore o1)"
  have x0: "indexed hash_of ?c0"
    using indexed_run [OF traced_new indexed_new _ assms(1), of o1] assms(2)
    by (simp add: NewCachedTokenStore_def defaultIDIndexCap_def Let_def)
  have "lru_inv (entries ?c0)" using traced_history [of o1 evs] by (simp add: traced_def)
  from forgotten [OF x0 this assms(3)]
  have "holds_only i {} (forget deleted i ?c0)" by (fastforce simp: holds_only_def)
  then show ?thesis by (cases deleted) (simp_all add: DeleteToken_def UpdateTokenPermission_def)
qed

lemma cachedVerdict_holds:
  "holds_only i T c \<Longrightarrow> cachedVerdict h now c = Some (Inr (Some t)) \<Longrightarrow> tok_ID t = i \<Longrightarrow> t \<in> T"
  by (auto simp: cachedVerdict_def dest: holds_onlyD split: option.splits tokenTier.splits if_splits)

lemma vt_finish_holds:
  "holds_only i T c \<Longrightarrow> fst (vt_finish h now inner c) = Inr (Some t) \<Longrightarrow> tok_ID t = i \<Longrightarrow> inner = Inr (Some t) \<or> t \<in> T"
  by (auto simp: vt_finish_def dest: holds_onlyD split: sum.splits if_splits option.splits)

text \<open>
  C38. Revocation. After \<open>DeleteToken\<close> or \<open>UpdateTokenPermission\<close> of an identifier succeeded, the cache
  holds nothing of what it knew of that token. Let any requests follow, in any interleaving, and let a
  \<open>ValidateToken\<close> look up and update the cache at any two later moments: when it lets a token with that
  identifier through, exactly that token was accepted by the token store in this call, or by an answer
  of the store that was stored after the revocation; what the cache knew before is never used, also not
  when the store cannot be reached. Assumes that an identifier belongs to one hash before the
  revocation, that the identifier is not empty, and that fewer than 50000 updates came before, the
  capacity of the reverse index. An answer stored after the revocation may still be older than it:
  \<open>late_answer_revives_token\<close>.
\<close>

theorem revocation_reaches_cache:
  assumes "list_all (event_ids_ok hash_of) evs" and "length evs < 50000" and "i \<noteq> ''''"
    and "c0 = fold ts_apply (evs @ [if deleted then EvDelete i else EvUpdate i]) (NewCachedTokenStore o1)"
    and "c1 = fold ts_apply evs1 c0" and "c2 = fold ts_apply evs2 c1"
    and "fst (vt_sections HashToken now plaintext inner c1 c2) = Inr (Some t)" and "tok_ID t = i"
  shows "inner = Inr (Some t) \<or> (\<exists>ev \<in> set (evs1 @ evs2). accepts t ev)"
proof -
  let ?rev = "evs @ [if deleted then EvDelete i else EvUpdate i]"
  have t0: "traced o1 ?rev c0" unfolding assms(4) by (rule traced_history)
  have t1: "traced o1 (?rev @ evs1) c1" using traced_run [OF t0] assms(5) by simp
  have "holds_only i {} c0" unfolding assms(4) by (rule revoked_holds_none [OF assms(1-3)])
  from holds_only_run [OF t0 this, of evs1]
  have h1: "holds_only i {t. \<exists>ev \<in> set evs1. accepts t ev} c1" using assms(5) by simp
  from holds_only_run [OF t1 h1, of evs2]
  have h2: "holds_only i ({t. \<exists>ev \<in> set evs1. accepts t ev} \<union> {t. \<exists>ev \<in> set evs2. accepts t ev}) c2"
    using assms(6) by simp
  show ?thesis
  proof (cases "cachedVerdict (HashToken plaintext) now c1")
    case None
    then have "fst (vt_finish (HashToken plaintext) now inner c2) = Inr (Some t)"
      using assms(7) by (simp add: vt_sections_def Let_def split: if_splits)
    from vt_finish_holds [OF h2 this assms(8)] show ?thesis by auto
  next
    case (Some r)
    then have "cachedVerdict (HashToken plaintext) now c1 = Some (Inr (Some t))"
      using assms(7) by (simp add: vt_sections_def Let_def split: if_splits)
    from cachedVerdict_holds [OF h1 this assms(8)] show ?thesis by auto
  qed
qed

theorem revocation_reaches_cache_witness:
  "\<exists>ev \<in> set ([EvAnswer ''h'' 0 (Inr (Some ex_token))] @ []). accepts ex_token ev"
proof -
  let ?c0 = "fold ts_apply ([] @ [if True then EvDelete ''t1'' else EvUpdate ''t1'']) (NewCachedTokenStore ex_opts)"
  let ?c1 = "fold ts_apply [EvAnswer ''h'' 0 (Inr (Some ex_token))] ?c0"
  have "?c0 = NewCachedTokenStore ex_opts"
    by (simp add: DeleteToken_def forget_def NewCachedTokenStore_def Let_def)
  then have "fst (vt_sections (\<lambda>s. ''h'') second ex_plain (Inl ErrTokenNotFound) ?c1 (fold ts_apply [] ?c1)) =
      Inr (Some ex_token)"
    using ex_plain_ok ex_lookup by (simp add: vt_sections_def Let_def)
  from revocation_reaches_cache [where hash_of = "\<lambda>s. ''h''", OF _ _ _ refl refl refl this] show ?thesis
    by (simp add: ex_token_def)
qed

text \<open>
  A revocation that overtakes a validation in flight is undone in the cache: when the store had
  accepted the token before it was deleted and the answer arrives after the deletion, the token is
  cached again, and until the positive TTL and its expiry it is let through without asking the store.
\<close>

theorem late_answer_revives_token:
  assumes "lru_inv (entries c)" and "c1 = snd (DeleteToken (tok_ID t) None c)"
    and "c2 = snd (vt_finish (HashToken plaintext) t0 (Inr (Some t)) c1)" and "ValidateTokenFormat plaintext"
    and "now < t0 + TokensPositiveTTL (opts c)" and "\<forall>x. ExpiresAt t = Some x \<longrightarrow> now < x"
  shows "fst (ValidateToken HashToken now plaintext (Inl ErrTokenNotFound) c2) = Inr (Some t)"
proof -
  have "lru_inv (entries c1)" "opts c1 = opts c"
    using assms(1,2) by (auto simp: DeleteToken_def lru_cache.ok_del split: option.splits)
  then have "Peek (HashToken plaintext) (entries c2) = Some (positive_entry (opts c) (Some t) (ExpiresAt t) t0)"
    using assms(3) by (simp add: vt_finish_def lru_cache.look_put_same)
  then have "cachedVerdict (HashToken plaintext) now c2 = Some (Inr (Some t))"
    using assms(5,6) by (simp add: cachedVerdict_def fresh_positive)
  then show ?thesis using assms(4) by (simp add: ValidateToken_def vt_sections_def Let_def)
qed

theorem late_answer_revives_token_witness:
  "fst (ValidateToken (\<lambda>s. ''h'') second ex_plain (Inl ErrTokenNotFound)
     (snd (vt_finish ''h'' 0 (Inr (Some ex_token)) (snd (DeleteToken (tok_ID ex_token) None (NewCachedTokenStore ex_opts)))))) =
   Inr (Some ex_token)"
proof (rule late_answer_revives_token [OF _ refl refl ex_plain_ok])
  show "lru_inv (entries (NewCachedTokenStore ex_opts))"
    by (simp add: NewCachedTokenStore_def Let_def newLRU_inv(1))
qed (simp_all add: NewCachedTokenStore_def Let_def withDefaults_def ex_opts_def ex_token_def)

text \<open>
  While the token store is unreachable the cache also lets through tokens that have expired: the
  stale tier checks the age of the cached verdict only, not the expiry of the token.
\<close>

theorem expired_token_served_in_outage:
  assumes "lru_inv (entries c0)" and "c = snd (vt_finish (HashToken plaintext) t0 (Inr (Some t)) c0)"
    and "IsExpired now t" and "now - t0 \<le> StaleCap (opts c0)"
    and "isInfraError (Some e)" and "\<not> isVerdictClass e" and "ValidateTokenFormat plaintext"
  shows "ValidateToken HashToken now plaintext (Inl e) c = (Inr (Some t), c)"
proof -
  let ?e = "positive_entry (opts c0) (Some t) (ExpiresAt t) t0"
  have p: "Peek (HashToken plaintext) (entries c) = Some ?e" and o: "opts c = opts c0"
    using assms(1,2) by (simp_all add: vt_finish_def lru_cache.look_put_same)
  have "\<not> now < freshUntil ?e" using assms(3) by (auto simp: fresh_positive IsExpired_def split: option.splits)
  then show ?thesis
    using assms p o by (simp add: ValidateToken_def vt_sections_def cachedVerdict_def vt_finish_def Let_def)
qed

theorem expired_token_served_in_outage_witness:
  "fst (ValidateToken (\<lambda>s. ''h'') hour ex_plain (Inl (plain_error ''dial tcp: connection refused''))
     (snd (vt_finish ''h'' 0 (Inr (Some ex_token)) (NewCachedTokenStore ex_opts)))) = Inr (Some ex_token) \<and>
   IsExpired hour ex_token"
proof -
  have x: "IsExpired hour ex_token" by (simp add: IsExpired_def ex_token_def)
  have l: "lru_inv (entries (NewCachedTokenStore ex_opts))" by (simp add: NewCachedTokenStore_def Let_def newLRU_inv(1))
  have s: "hour - 0 \<le> StaleCap (opts (NewCachedTokenStore ex_opts))"
    by (simp add: NewCachedTokenStore_def ex_opts_def withDefaults_def Let_def)
  have i: "isInfraError (Some (plain_error ''dial tcp: connection refused''))" by code_simp
  have v: "\<not> isVerdictClass (plain_error ''dial tcp: connection refused'')" by code_simp
  show ?thesis
    using expired_token_served_in_outage [where HashToken = "\<lambda>s. ''h''", OF l refl x s i v ex_plain_ok] x by simp
qed

text \<open>
  A stored list of allowed models that does not parse, or has an unknown database type, does not
  deny anything: scanning makes it the empty list, which the check treats as no restriction.
\<close>

theorem malformed_allowed_models_allow_all:
  assumes "s \<noteq> ''''" and "unmarshal s = None"
    and "AllowedModels t = ScanAllowedModels unmarshal raw" and "raw \<in> {DbString s, DbBytes s, DbOther}"
  shows "AllowedModels t = Some [] \<and> IsModelAllowed t m"
  using assms by (auto simp: ScanAllowedModels_def scan_text_def IsModelAllowed_def)

theorem malformed_allowed_models_allow_all_witness:
  "IsModelAllowed (ex_token\<lparr>AllowedModels := ScanAllowedModels (\<lambda>s. if s = ''[]'' then Some (Some []) else None) (DbString ''[gpt'')\<rparr>) ''gpt-4''"
  by (rule malformed_allowed_models_allow_all [of "''[gpt''" "\<lambda>s. if s = ''[]'' then Some (Some []) else None" _
      "DbString ''[gpt''", THEN conjunct2]) simp_all

end
