(* ===== verification/ModelRows.thy ===== *)
theory ModelRows
  imports GoJson ModelsConfig
begin

text \<open>
  The rows of the \<open>models\<close> table (\<open>pkg/store/database/store.go\<close>, \<open>querybuilder.go\<close>): the columns a
  write binds, the JSON columns of the credential references, the group members and the two string
  lists, and the conversion of a scanned row into a \<open>ModelConfig\<close>. A list is nil and empty at once here:
  an empty list of strings is written as the \<open>null\<close> of a nil slice. The decoder of a struct field
  follows \<open>encoding/json\<close>: names fold case, \<open>null\<close> leaves a field alone, any mismatch fails the text.
  The text of a \<open>float64\<close> weight is the argument \<open>fmt\<close>. Time stamps are not modelled.
  The main result is that a row reads back as the model that was written.
\<close>

section \<open>Decoding typed values\<close>

text \<open>The folding of \<open>encoding/json\<close> for field names: ASCII letters, the long s and the Kelvin sign.\<close>

function fold_key :: "string \<Rightarrow> string" where
  "fold_key s =
     (case s of [] \<Rightarrow> []
      | c # cs \<Rightarrow>
          if HasPrefix s [CHR 0xC5, CHR 0xBF] then CHR ''s'' # fold_key (drop 1 cs)
          else if HasPrefix s [CHR 0xE2, CHR 0x84, CHR 0xAA] then CHR ''k'' # fold_key (drop 2 cs)
          else lower_char c # fold_key cs)"
  by pat_completeness auto
termination by (relation "measure length") auto

declare fold_key.simps [simp del]

definition field_values :: "(string \<times> json) list \<Rightarrow> string \<Rightarrow> json list" where
  "field_values kvs name = map snd (filter (\<lambda>kv. fold_key (fst kv) = name) kvs)"

fun decode_field :: "(json \<Rightarrow> 'a option) \<Rightarrow> json list \<Rightarrow> 'a \<Rightarrow> 'a option" where
  "decode_field f [] x = Some x"
| "decode_field f (v # vs) x =
     (if v = JNull then decode_field f vs x
      else case f v of None \<Rightarrow> None | Some y \<Rightarrow> decode_field f vs y)"

definition get_str :: "json \<Rightarrow> string option" where
  "get_str v = (case v of JStr s \<Rightarrow> Some s | _ \<Rightarrow> None)"

definition get_bool :: "json \<Rightarrow> bool option" where
  "get_bool v = (case v of JBool b \<Rightarrow> Some b | _ \<Rightarrow> None)"

definition parse_int64 :: "string \<Rightarrow> int option" where
  "parse_int64 n =
     (let ds = (if HasPrefix n ''-'' then tl n else n);
          v = (if HasPrefix n ''-'' then - digits_val ds else digits_val ds)
      in if ds \<noteq> [] \<and> list_all isDigit ds \<and> fits64 v then Some v else None)"

definition get_int :: "json \<Rightarrow> int option" where
  "get_int v = (case v of JNum n \<Rightarrow> parse_int64 n | _ \<Rightarrow> None)"

definition get_float :: "json \<Rightarrow> rat option" where
  "get_float v = (case v of JNum n \<Rightarrow> if float_fits (num_val n) then Some (num_val n) else None | _ \<Rightarrow> None)"

definition decode_ref :: "json \<Rightarrow> CredentialRef option" where
  "decode_ref v =
     (case v of
        JNull \<Rightarrow> Some \<lparr>CredentialID = [], Weight = 0, Position = 0\<rparr>
      | JObj kvs \<Rightarrow> do {
          i \<leftarrow> decode_field get_str (field_values kvs ''credential_id'') [];
          w \<leftarrow> decode_field get_int (field_values kvs ''weight'') 0;
          p \<leftarrow> decode_field get_int (field_values kvs ''position'') 0;
          Some \<lparr>CredentialID = i, Weight = w, Position = p\<rparr> }
      | _ \<Rightarrow> None)"

definition decode_member :: "json \<Rightarrow> GroupMember option" where
  "decode_member v =
     (case v of
        JNull \<Rightarrow> Some \<lparr>ModelID_m = [], Weight_m = 0, BackupOnly_m = False\<rparr>
      | JObj kvs \<Rightarrow> do {
          i \<leftarrow> decode_field get_str (field_values kvs ''model_id'') [];
          w \<leftarrow> decode_field get_float (field_values kvs ''weight'') 0;
          b \<leftarrow> decode_field get_bool (field_values kvs ''backup_only'') False;
          Some \<lparr>ModelID_m = i, Weight_m = w, BackupOnly_m = b\<rparr> }
      | _ \<Rightarrow> None)"

definition decode_slice :: "(json \<Rightarrow> 'a option) \<Rightarrow> string \<Rightarrow> 'a list" where
  "decode_slice f raw =
     (case json_parse raw of
        Some (JArr vs) \<Rightarrow> (case those (map f vs) of None \<Rightarrow> [] | Some xs \<Rightarrow> xs)
      | _ \<Rightarrow> [])"

section \<open>The JSON columns\<close>

definition parseCredentialsJSON :: "string \<Rightarrow> CredentialRef list" where
  "parseCredentialsJSON raw = (if raw = [] \<or> raw = ''[]'' then [] else decode_slice decode_ref raw)"

definition parseGroupMembersJSON :: "string \<Rightarrow> GroupMember list" where
  "parseGroupMembersJSON raw = (if raw = [] \<or> raw = ''[]'' then [] else decode_slice decode_member raw)"

definition ref_json :: "CredentialRef \<Rightarrow> json" where
  "ref_json r = JObj [(''credential_id'', JStr (CredentialID r)), (''weight'', JNum (show_int (Weight r))),
     (''position'', JNum (show_int (Position r)))]"

definition member_json :: "(rat \<Rightarrow> string) \<Rightarrow> GroupMember \<Rightarrow> json" where
  "member_json fmt m = JObj ([(''model_id'', JStr (ModelID_m m)), (''weight'', JNum (fmt (Weight_m m)))]
     @ (if BackupOnly_m m then [(''backup_only'', JBool True)] else []))"

definition marshalCredentialsJSON :: "CredentialRef list \<Rightarrow> string" where
  "marshalCredentialsJSON refs = (if refs = [] then ''[]'' else marshal (JArr (map ref_json refs)))"

definition marshalGroupMembersJSON :: "(rat \<Rightarrow> string) \<Rightarrow> GroupMember list \<Rightarrow> string" where
  "marshalGroupMembersJSON fmt members = (if members = [] then ''[]'' else marshal (JArr (map (member_json fmt) members)))"

definition marshal_strings :: "string list \<Rightarrow> string" where
  "marshal_strings xs = (if xs = [] then ''null'' else marshal (JArr (map JStr xs)))"

text \<open>The error of decoding a string list is ignored: an element that is no string stays empty.\<close>

definition parse_strings :: "string \<Rightarrow> string list" where
  "parse_strings raw =
     (if raw = [] then []
      else case json_parse raw of
          Some (JArr vs) \<Rightarrow> map (\<lambda>v. case v of JStr s \<Rightarrow> s | _ \<Rightarrow> []) vs
        | _ \<Rightarrow> [])"

section \<open>Rows\<close>

datatype Dialect = SQLite | PostgreSQL

datatype dbval = DbBool bool | DbInt int | DbOther

definition BooleanLiteral :: "Dialect \<Rightarrow> bool \<Rightarrow> dbval" where
  "BooleanLiteral d b = (if d = PostgreSQL then DbBool b else if b then DbInt 1 else DbInt 0)"

definition isDbBoolTrue :: "dbval \<Rightarrow> bool" where
  "isDbBoolTrue v = (case v of DbBool b \<Rightarrow> b | DbInt i \<Rightarrow> i \<noteq> 0 | DbOther \<Rightarrow> False)"

record dbModelRow =
  d_ID :: string
  d_Name :: string
  d_Enabled :: dbval
  d_FallbackChainJSON :: string
  d_TruncateParamsJSON :: string
  d_Internal :: dbval
  d_CredentialsJSON :: string
  d_CredentialID :: string
  d_InternalBaseURL :: string
  d_InternalModel :: string
  d_ReleaseStreamChunkDeadline :: int
  d_PeakHourEnabled :: dbval
  d_PeakHourStart :: string
  d_PeakHourEnd :: string
  d_PeakHourTimezone :: string
  d_PeakHourModel :: string
  d_SecondaryUpstreamModel :: string
  d_ExcludeFromUltimateSwitching :: dbval
  d_Kind :: string
  d_MembersJSON :: string
  d_ShadowModelID :: string

definition isEnabled :: "dbModelRow \<Rightarrow> bool" where
  "isEnabled r = (case d_Enabled r of DbBool v \<Rightarrow> v | DbInt v \<Rightarrow> v \<noteq> 0 | DbOther \<Rightarrow> False)"

definition isInternal :: "dbModelRow \<Rightarrow> bool" where
  "isInternal r = (case d_Internal r of DbBool v \<Rightarrow> v | DbInt v \<Rightarrow> v \<noteq> 0 | DbOther \<Rightarrow> False)"

definition isPeakHourEnabled :: "dbModelRow \<Rightarrow> bool" where
  "isPeakHourEnabled r = (case d_PeakHourEnabled r of DbBool v \<Rightarrow> v | DbInt v \<Rightarrow> v \<noteq> 0 | DbOther \<Rightarrow> False)"

definition isExcludeFromUltimateSwitching :: "dbModelRow \<Rightarrow> bool" where
  "isExcludeFromUltimateSwitching r =
     (case d_ExcludeFromUltimateSwitching r of DbBool v \<Rightarrow> v | DbInt v \<Rightarrow> v \<noteq> 0 | DbOther \<Rightarrow> False)"

text \<open>\<open>Duration.Milliseconds\<close> drops the fraction.\<close>

definition millis :: "duration \<Rightarrow> int" where
  "millis d = (if d < 0 then - ((- d) div 1000000) else d div 1000000)"

text \<open>What a write binds to the columns.\<close>

definition bound_row :: "Dialect \<Rightarrow> (rat \<Rightarrow> string) \<Rightarrow> ModelConfig \<Rightarrow> dbModelRow" where
  "bound_row d fmt m =
     \<lparr>d_ID = ID m, d_Name = Name m, d_Enabled = BooleanLiteral d (Enabled m),
      d_FallbackChainJSON = marshal_strings (FallbackChain m),
      d_TruncateParamsJSON = marshal_strings (TruncateParams m),
      d_Internal = BooleanLiteral d (Internal m),
      d_CredentialsJSON = marshalCredentialsJSON (Credentials m),
      d_CredentialID = PrimaryCredentialID m,
      d_InternalBaseURL = InternalBaseURL m, d_InternalModel = InternalModel m,
      d_ReleaseStreamChunkDeadline = millis (ReleaseStreamChunkDeadline m),
      d_PeakHourEnabled = BooleanLiteral d (PeakHourEnabled m),
      d_PeakHourStart = PeakHourStart m, d_PeakHourEnd = PeakHourEnd m,
      d_PeakHourTimezone = PeakHourTimezone m, d_PeakHourModel = PeakHourModel m,
      d_SecondaryUpstreamModel = SecondaryUpstreamModel m,
      d_ExcludeFromUltimateSwitching = BooleanLiteral d (ExcludeFromUltimateSwitching m),
      d_Kind = Kind m, d_MembersJSON = marshalGroupMembersJSON fmt (Members m),
      d_ShadowModelID = ShadowModelID m\<rparr>"

definition dbModelRowToConfig :: "dbModelRow \<Rightarrow> ModelConfig" where
  "dbModelRowToConfig r =
     \<lparr>ID = d_ID r, Name = d_Name r, Enabled = isEnabled r,
      FallbackChain = parse_strings (d_FallbackChainJSON r),
      TruncateParams = parse_strings (d_TruncateParamsJSON r),
      Internal = isInternal r,
      InternalBaseURL = d_InternalBaseURL r, InternalModel = d_InternalModel r,
      Credentials = parseCredentialsJSON (d_CredentialsJSON r),
      ReleaseStreamChunkDeadline = wrap64 (d_ReleaseStreamChunkDeadline r * 1000000),
      PeakHourEnabled = isPeakHourEnabled r,
      PeakHourStart = d_PeakHourStart r, PeakHourEnd = d_PeakHourEnd r,
      PeakHourTimezone = d_PeakHourTimezone r, PeakHourModel = d_PeakHourModel r,
      SecondaryUpstreamModel = d_SecondaryUpstreamModel r,
      ExcludeFromUltimateSwitching = isExcludeFromUltimateSwitching r,
      Kind = d_Kind r, Members = parseGroupMembersJSON (d_MembersJSON r),
      ShadowModelID = d_ShadowModelID r\<rparr>"

section \<open>Numbers round trip\<close>

lemma show_int_parses: "fits64 i \<Longrightarrow> parse_int64 (show_int i) = Some i"
proof (cases "i < 0")
  case True
  then show "fits64 i \<Longrightarrow> ?thesis" using show_nat_digits [of "nat (- i)"]
    by (simp add: parse_int64_def show_int_def)
next
  case False
  have "\<not> HasPrefix (show_nat (nat i)) ''-''"
    using show_nat_digits [of "nat i"] by (cases "show_nat (nat i)") (auto simp: isDigit_def)
  then show "fits64 i \<Longrightarrow> ?thesis" using False show_nat_digits [of "nat i"]
    by (simp add: parse_int64_def show_int_def)
qed

section \<open>Columns round trip\<close>

lemma those_map_Some: "\<forall>x \<in> set xs. f (g x) = Some x \<Longrightarrow> those (map f (map g xs)) = Some xs"
  by (induction xs) auto

lemma field_names [simp]:
  "fold_key ''credential_id'' = ''credential_id''" "fold_key ''weight'' = ''weight''"
  "fold_key ''position'' = ''position''" "fold_key ''model_id'' = ''model_id''"
  "fold_key ''backup_only'' = ''backup_only''"
  by code_simp+

definition ref_fits :: "CredentialRef \<Rightarrow> bool" where
  "ref_fits r \<longleftrightarrow> valid_utf8 (CredentialID r) \<and> fits64 (Weight r) \<and> fits64 (Position r)"

definition member_fits :: "(rat \<Rightarrow> string) \<Rightarrow> GroupMember \<Rightarrow> bool" where
  "member_fits fmt m \<longleftrightarrow> valid_utf8 (ModelID_m m) \<and> wf_num (fmt (Weight_m m))
     \<and> num_val (fmt (Weight_m m)) = Weight_m m \<and> float_fits (Weight_m m)"

lemma decode_ref_json: "ref_fits r \<Longrightarrow> decode_ref (ref_json r) = Some r"
  by (simp add: ref_fits_def decode_ref_def ref_json_def field_values_def get_str_def get_int_def show_int_parses)

lemma decode_member_json: "member_fits fmt m \<Longrightarrow> decode_member (member_json fmt m) = Some m"
  by (simp add: member_fits_def decode_member_def member_json_def field_values_def get_str_def get_float_def get_bool_def)

lemma marshal_arr_parses:
  assumes "\<forall>v \<in> set vs. wf_json 1 v"
  shows "json_parse (marshal (JArr vs)) = Some (JArr vs)" "marshal (JArr vs) \<noteq> []"
    "vs \<noteq> [] \<Longrightarrow> marshal (JArr vs) \<noteq> ''[]''"
proof -
  show p: "json_parse (marshal (JArr vs)) = Some (JArr vs)"
    using assms by (intro json_round_trip) (simp add: maxNestingDepth_def list_all_iff)
  show "marshal (JArr vs) \<noteq> []" by simp
  have "json_parse ''[]'' = Some (JArr [])" by code_simp
  with p show "vs \<noteq> [] \<Longrightarrow> marshal (JArr vs) \<noteq> ''[]''" by force
qed

lemma field_names_utf8 [simp]:
  "valid_utf8 ''credential_id''" "valid_utf8 ''weight''" "valid_utf8 ''position''" "valid_utf8 ''model_id''"
  "valid_utf8 ''backup_only''"
  by code_simp+

lemma wf_columns:
  "ref_fits r \<Longrightarrow> wf_json 1 (ref_json r)" "member_fits fmt m \<Longrightarrow> wf_json 1 (member_json fmt m)"
  by (simp_all add: ref_json_def ref_fits_def wf_show_int member_json_def member_fits_def maxNestingDepth_def)

lemma slice_reads_back:
  assumes "\<forall>x \<in> set xs. wf_json 1 (g x) \<and> f (g x) = Some x"
  shows "decode_slice f (marshal (JArr (map g xs))) = xs"
    "xs \<noteq> [] \<Longrightarrow> marshal (JArr (map g xs)) \<noteq> ''[]'' \<and> marshal (JArr (map g xs)) \<noteq> []"
  using marshal_arr_parses [of "map g xs"] those_map_Some [of xs f g] assms
  by (simp_all add: decode_slice_def del: marshal.simps)

lemma parse_credentials: "\<forall>r \<in> set rs. ref_fits r \<Longrightarrow> parseCredentialsJSON (marshalCredentialsJSON rs) = rs"
  using slice_reads_back [of rs ref_json decode_ref] decode_ref_json wf_columns(1)
  by (simp add: parseCredentialsJSON_def marshalCredentialsJSON_def del: marshal.simps)

lemma parse_members:
  "\<forall>m \<in> set ms. member_fits fmt m \<Longrightarrow> parseGroupMembersJSON (marshalGroupMembersJSON fmt ms) = ms"
  using slice_reads_back [of ms "member_json fmt" decode_member] decode_member_json wf_columns(2)
  by (simp add: parseGroupMembersJSON_def marshalGroupMembersJSON_def del: marshal.simps)

lemma parse_strings_marshal: "\<forall>x \<in> set xs. valid_utf8 x \<Longrightarrow> parse_strings (marshal_strings xs) = xs"
proof (cases "xs = []")
  case True
  have "json_parse ''null'' = Some JNull" by code_simp
  then show ?thesis using True by (simp add: parse_strings_def marshal_strings_def)
next
  case False
  then show "\<forall>x \<in> set xs. valid_utf8 x \<Longrightarrow> ?thesis"
    using marshal_arr_parses [of "map JStr xs"]
    by (simp add: parse_strings_def marshal_strings_def comp_def del: marshal.simps)
qed

definition row_fits :: "(rat \<Rightarrow> string) \<Rightarrow> ModelConfig \<Rightarrow> bool" where
  "row_fits fmt m \<longleftrightarrow> list_all valid_utf8 (FallbackChain m) \<and> list_all valid_utf8 (TruncateParams m)
     \<and> list_all ref_fits (Credentials m) \<and> list_all (member_fits fmt) (Members m)
     \<and> fits64 (ReleaseStreamChunkDeadline m)"

definition stored_model :: "ModelConfig \<Rightarrow> ModelConfig" where
  "stored_model m = m\<lparr>ReleaseStreamChunkDeadline := millis (ReleaseStreamChunkDeadline m) * 1000000\<rparr>"

lemma millis_fits: "fits64 d \<Longrightarrow> fits64 (millis d * 1000000)"
proof -
  have "(k div 1000000) * 1000000 \<le> k" "0 \<le> k \<Longrightarrow> 0 \<le> (k div 1000000) * 1000000" for k :: int
    by (simp_all add: pos_imp_zdiv_nonneg_iff)
  from this(1) [of d] this(2) [of d] this(1) [of "- d"] this(2) [of "- d"]
  show "fits64 d \<Longrightarrow> ?thesis" by (auto simp: fits64_def millis_def)
qed

lemma bound_row_bools [simp]:
  "isEnabled (bound_row d fmt m) = Enabled m" "isInternal (bound_row d fmt m) = Internal m"
  "isPeakHourEnabled (bound_row d fmt m) = PeakHourEnabled m"
  "isExcludeFromUltimateSwitching (bound_row d fmt m) = ExcludeFromUltimateSwitching m"
  by (simp_all add: isEnabled_def isInternal_def isPeakHourEnabled_def isExcludeFromUltimateSwitching_def
      bound_row_def BooleanLiteral_def)

lemma bound_row_ids [simp]: "d_ID (bound_row d fmt m) = ID m" "d_Name (bound_row d fmt m) = Name m"
  "d_Kind (bound_row d fmt m) = Kind m" "d_ShadowModelID (bound_row d fmt m) = ShadowModelID m"
  by (simp_all add: bound_row_def)

lemma bound_row_back:
  assumes "row_fits fmt m"
  shows "dbModelRowToConfig (bound_row d fmt m) = stored_model m"
proof -
  have "parse_strings (d_FallbackChainJSON (bound_row d fmt m)) = FallbackChain m"
    "parse_strings (d_TruncateParamsJSON (bound_row d fmt m)) = TruncateParams m"
    "parseCredentialsJSON (d_CredentialsJSON (bound_row d fmt m)) = Credentials m"
    "parseGroupMembersJSON (d_MembersJSON (bound_row d fmt m)) = Members m"
    using assms by (simp_all add: bound_row_def row_fits_def list_all_iff parse_strings_marshal parse_credentials parse_members)
  moreover have "wrap64 (d_ReleaseStreamChunkDeadline (bound_row d fmt m) * 1000000)
      = millis (ReleaseStreamChunkDeadline m) * 1000000"
    using assms by (simp add: bound_row_def row_fits_def millis_fits)
  ultimately show ?thesis
    by (simp add: dbModelRowToConfig_def stored_model_def) (simp add: bound_row_def)
qed

text \<open>C10: a model reads back as it was written. Whatever the dialect, the row that \<open>AddModel\<close> and \<open>UpdateModel\<close>
  bind converts back to the same model, credentials, members and lists included, with its deadline
  cut to whole milliseconds.\<close>

theorem row_reads_back:
  assumes "row_fits fmt m"
  shows "dbModelRowToConfig (bound_row d fmt m) = stored_model m"
  using assms by (rule bound_row_back)

theorem row_reads_back_witness:
  "dbModelRowToConfig (bound_row SQLite (\<lambda>_. ''1'') (ex_model ''m'' [''c1'', ''c2'']
       \<lparr>FallbackChain := [''x''], ReleaseStreamChunkDeadline := 1500000,
        Members := [\<lparr>ModelID_m = ''y'', Weight_m = 1, BackupOnly_m = True\<rparr>]\<rparr>))
     = ex_model ''m'' [''c1'', ''c2'']
       \<lparr>FallbackChain := [''x''], ReleaseStreamChunkDeadline := 1000000,
        Members := [\<lparr>ModelID_m = ''y'', Weight_m = 1, BackupOnly_m = True\<rparr>]\<rparr>"
proof -
  have utf: "valid_utf8 ''c1''" "valid_utf8 ''c2''" "valid_utf8 ''x''" "valid_utf8 ''y''" by code_simp+
  have val: "digits_val ''1'' = 1" "exponent_val [] = 0" "isDigit CHR ''1''" "\<not> HasPrefix ''1'' ''-''" by code_simp+
  have num: "wf_num ''1''" "num_val ''1'' = 1" "float_fits 1"
    by code_simp (simp_all add: num_val_def val float_fits_def)
  have "row_fits (\<lambda>_. ''1'') (ex_model ''m'' [''c1'', ''c2'']
       \<lparr>FallbackChain := [''x''], ReleaseStreamChunkDeadline := 1500000,
        Members := [\<lparr>ModelID_m = ''y'', Weight_m = 1, BackupOnly_m = True\<rparr>]\<rparr>)"
    by (simp add: row_fits_def ex_model_def ref_fits_def member_fits_def utf num fits64_def)
  from row_reads_back [OF this] show ?thesis by (simp add: stored_model_def ex_model_def millis_def)
qed

end
