(* ===== verification/EventBus.thy ===== *)
theory EventBus
  imports Prelude "HOL-Library.Sublist"
begin

text \<open>
  The event bus of the user interface (\<open>pkg/events/bus.go\<close>). A channel is its identity, the events
  waiting in its buffer of 100 and whether it was closed; \<open>seen\<close> is what its reader has taken out, in
  order, and exists for the statements only. Event payloads are a type parameter.
\<close>

section \<open>The bus\<close>

definition MaxSubscribers :: nat where
  "MaxSubscribers = 1000"

definition channel_cap :: nat where
  "channel_cap = 100"

definition history_cap :: nat where
  "history_cap = 100"

record 'e chan =
  chan_id :: nat
  waiting :: "'e list"
  seen :: "'e list"

record 'e Bus =
  subscribers :: "'e chan list"
  history :: "'e list"
  closed :: "nat list"
  next_chan :: nat

definition NewBus :: "'e Bus" where
  "NewBus = \<lparr>subscribers = [], history = [], closed = [], next_chan = 0\<rparr>"

text \<open>A send that does not block: the flag says whether there was room.\<close>

definition try_send :: "'e \<Rightarrow> 'e chan \<Rightarrow> bool \<times> 'e chan" where
  "try_send ev ch =
     (if length (waiting ch) < channel_cap then (True, ch\<lparr>waiting := waiting ch @ [ev]\<rparr>) else (False, ch))"

fun replay :: "'e list \<Rightarrow> 'e chan \<Rightarrow> 'e chan" where
  "replay [] ch = ch"
| "replay (ev # evs) ch = (let (sent, ch') = try_send ev ch in if sent then replay evs ch' else ch')"

text \<open>\<open>None\<close> is \<open>ErrMaxSubscribers\<close>.\<close>

definition Subscribe :: "'e Bus \<Rightarrow> nat option \<times> 'e Bus" where
  "Subscribe b =
     (if MaxSubscribers \<le> length (subscribers b) then (None, b)
      else let ch = replay (history b) \<lparr>chan_id = next_chan b, waiting = [], seen = []\<rparr>
           in (Some (next_chan b), b\<lparr>subscribers := subscribers b @ [ch], next_chan := next_chan b + 1\<rparr>))"

fun remove_first :: "('a \<Rightarrow> bool) \<Rightarrow> 'a list \<Rightarrow> 'a list" where
  "remove_first P [] = []"
| "remove_first P (x # xs) = (if P x then xs else x # remove_first P xs)"

definition Unsubscribe :: "nat \<Rightarrow> 'e Bus \<Rightarrow> 'e Bus" where
  "Unsubscribe i b =
     (if list_ex (\<lambda>ch. chan_id ch = i) (subscribers b)
      then b\<lparr>subscribers := remove_first (\<lambda>ch. chan_id ch = i) (subscribers b), closed := closed b @ [i]\<rparr>
      else b)"

definition Publish :: "'e \<Rightarrow> 'e Bus \<Rightarrow> 'e Bus" where
  "Publish ev b =
     (let h = (if history_cap \<le> length (history b) then tl (history b) else history b)
      in b\<lparr>history := h @ [ev], subscribers := map (\<lambda>ch. snd (try_send ev ch)) (subscribers b)\<rparr>)"

text \<open>The reader of a channel takes the first waiting event.\<close>

definition take_event :: "'e chan \<Rightarrow> 'e chan" where
  "take_event ch =
     (case waiting ch of [] \<Rightarrow> ch | ev # evs \<Rightarrow> ch\<lparr>waiting := evs, seen := seen ch @ [ev]\<rparr>)"

definition Receive :: "nat \<Rightarrow> 'e Bus \<Rightarrow> 'e Bus" where
  "Receive i b =
     b\<lparr>subscribers := map (\<lambda>ch. if chan_id ch = i then take_event ch else ch) (subscribers b)\<rparr>"

section \<open>Runs\<close>

datatype 'e bus_op = OpSubscribe | OpUnsubscribe nat | OpPublish 'e | OpReceive nat

fun bus_apply :: "'e bus_op \<Rightarrow> 'e Bus \<Rightarrow> 'e Bus" where
  "bus_apply OpSubscribe b = snd (Subscribe b)"
| "bus_apply (OpUnsubscribe i) b = Unsubscribe i b"
| "bus_apply (OpPublish ev) b = Publish ev b"
| "bus_apply (OpReceive i) b = Receive i b"

fun published :: "'e bus_op list \<Rightarrow> 'e list" where
  "published [] = []"
| "published (OpPublish ev # ops) = ev # published ops"
| "published (_ # ops) = published ops"

definition last_events :: "nat \<Rightarrow> 'e list \<Rightarrow> 'e list" where
  "last_events n xs = drop (length xs - n) xs"

definition delivered :: "'e chan \<Rightarrow> 'e list" where
  "delivered ch = seen ch @ waiting ch"

definition find_chan :: "nat \<Rightarrow> 'e Bus \<Rightarrow> 'e chan option" where
  "find_chan i b = find (\<lambda>ch. chan_id ch = i) (subscribers b)"

definition bus_inv :: "'e list \<Rightarrow> 'e Bus \<Rightarrow> bool" where
  "bus_inv evs b \<longleftrightarrow>
     history b = last_events history_cap evs \<and> length (subscribers b) \<le> MaxSubscribers \<and>
     distinct (map chan_id (subscribers b) @ closed b) \<and>
     (\<forall>i \<in> set (map chan_id (subscribers b) @ closed b). i < next_chan b) \<and>
     (\<forall>ch \<in> set (subscribers b). length (waiting ch) \<le> channel_cap \<and> subseq (delivered ch) evs)"

section \<open>Lemmas\<close>

lemma last_events_snoc:
  "last_events n (xs @ [x]) = (if length xs < n then last_events n xs @ [x] else if n = 0 then [] else tl (last_events n xs) @ [x])"
  by (auto simp: last_events_def Suc_diff_le tl_drop drop_Suc)

lemma length_last_events [simp]: "length (last_events n xs) = min n (length xs)"
  by (simp add: last_events_def)

lemma try_send_chan_id [simp]: "chan_id (snd (try_send ev ch)) = chan_id ch"
  by (simp add: try_send_def)

lemma replay_fits:
  "length (waiting ch) + length evs \<le> channel_cap \<Longrightarrow> replay evs ch = ch\<lparr>waiting := waiting ch @ evs\<rparr>"
  by (induction evs ch rule: replay.induct) (auto simp: try_send_def)

lemma set_remove_first: "set (remove_first P xs) \<subseteq> set xs"
  by (induction xs) auto

lemma remove_first_distinct:
  "distinct (map f xs) \<Longrightarrow> remove_first (\<lambda>x. f x = i) xs = filter (\<lambda>x. f x \<noteq> i) xs"
proof (induction xs)
  case (Cons x xs)
  then have "f y \<noteq> f x" if "y \<in> set xs" for y using that by (metis distinct.simps(2) image_eqI list.set_map list.simps(9))
  then have "filter (\<lambda>y. f y \<noteq> f x) xs = xs" by (intro filter_True) simp
  then show ?case using Cons by auto
qed simp

lemma published_append [simp]: "published (xs @ ys) = published xs @ published ys"
  by (induction xs rule: published.induct) auto

lemma subseq_suffix: "subseq (last_events n xs) xs"
  unfolding last_events_def by (rule suffix_imp_subseq [OF suffix_drop])

lemma bus_inv_new: "bus_inv [] NewBus"
  by (simp add: bus_inv_def NewBus_def last_events_def)

lemma bus_inv_Subscribe:
  assumes "bus_inv evs b"
  shows "bus_inv evs (snd (Subscribe b))"
proof (cases "MaxSubscribers \<le> length (subscribers b)")
  case False
  have "length (history b) \<le> channel_cap"
    using assms by (simp add: bus_inv_def history_cap_def channel_cap_def)
  then have r: "replay (history b) \<lparr>chan_id = next_chan b, waiting = [], seen = []\<rparr> =
      \<lparr>chan_id = next_chan b, waiting = history b, seen = []\<rparr>" using replay_fits [of "\<lparr>chan_id = next_chan b, waiting = [], seen = []\<rparr>" "history b"] by simp
  have "snd (Subscribe b) = b\<lparr>subscribers := subscribers b @ [\<lparr>chan_id = next_chan b, waiting = history b, seen = []\<rparr>],
      next_chan := next_chan b + 1\<rparr>"
    using False r by (simp add: Subscribe_def Let_def)
  then show ?thesis
    using assms False subseq_suffix [of history_cap evs]
    by (auto simp: bus_inv_def delivered_def history_cap_def channel_cap_def intro: less_SucI)
qed (use assms in \<open>simp add: Subscribe_def\<close>)

lemma bus_inv_Unsubscribe:
  assumes "bus_inv evs b"
  shows "bus_inv evs (Unsubscribe i b)"
proof (cases "list_ex (\<lambda>ch. chan_id ch = i) (subscribers b)")
  case True
  have d: "distinct (map chan_id (subscribers b))" using assms by (simp add: bus_inv_def)
  have "i \<in> set (map chan_id (subscribers b))" using True by (auto simp: list_ex_iff)
  then show ?thesis
    using assms True d order_trans [OF length_filter_le [of "\<lambda>ch. chan_id ch \<noteq> i" "subscribers b"]]
    by (auto simp: bus_inv_def Unsubscribe_def remove_first_distinct distinct_map intro: inj_on_subset)
qed (use assms in \<open>simp add: Unsubscribe_def\<close>)

lemma bus_inv_Publish:
  assumes "bus_inv evs b"
  shows "bus_inv (evs @ [ev]) (Publish ev b)"
proof -
  have h: "history (Publish ev b) = last_events history_cap (evs @ [ev])"
    using assms by (auto simp: bus_inv_def Publish_def last_events_snoc history_cap_def min_def)
  have c: "length (waiting ch') \<le> channel_cap \<and> subseq (delivered ch') (evs @ [ev])"
    if "ch \<in> set (subscribers b)" and "ch' = snd (try_send ev ch)" for ch ch'
  proof -
    have "length (waiting ch) \<le> channel_cap" "subseq (delivered ch) evs" using assms that(1) by (simp_all add: bus_inv_def)
    then show ?thesis using that(2)
      list_emb_append_mono [of "(=)" "delivered ch" evs "[ev]" "[ev]"] list_emb_prefix [of "(=)" "delivered ch" evs "[ev]"]
      by (auto simp: try_send_def delivered_def)
  qed
  have m: "map (chan_id \<circ> (\<lambda>ch. snd (try_send ev ch))) (subscribers b) = map chan_id (subscribers b)" by simp
  show ?thesis
    using assms h c by (auto simp: bus_inv_def Publish_def Let_def comp_def)
qed

lemma take_event_simps [simp]:
  "chan_id (take_event ch) = chan_id ch" "delivered (take_event ch) = delivered ch"
  "length (waiting (take_event ch)) \<le> length (waiting ch)"
  by (simp_all add: take_event_def delivered_def split: list.split)

lemma bus_inv_Receive: "bus_inv evs b \<Longrightarrow> bus_inv evs (Receive i b)"
  by (auto simp: bus_inv_def Receive_def comp_def if_distrib [of chan_id] cong: if_cong
      intro: order_trans [OF take_event_simps(3)])

lemma bus_inv_run: "bus_inv evs b \<Longrightarrow> bus_inv (evs @ published ops) (fold bus_apply ops b)"
proof (induction ops arbitrary: evs b)
  case (Cons x ops)
  show ?case
  proof (cases x)
    case (OpPublish ev)
    then show ?thesis using Cons.IH [OF bus_inv_Publish [OF Cons.prems, of ev]] by simp
  qed (use Cons.IH [OF bus_inv_Subscribe [OF Cons.prems]] Cons.IH [OF bus_inv_Unsubscribe [OF Cons.prems]]
      Cons.IH [OF bus_inv_Receive [OF Cons.prems]] in simp_all)
qed simp

section \<open>Properties\<close>

text \<open>
  C27. After any run of the bus the history is the last 100 published events, there are at most 1000
  subscribers with distinct channels, no channel is closed twice or used after closing, no buffer
  exceeds its capacity, and each subscriber has received, in order, a subsequence of what was published.
\<close>

theorem event_bus_invariant:
  assumes "b = fold bus_apply ops NewBus"
  shows "history b = last_events 100 (published ops) \<and> length (subscribers b) \<le> 1000 \<and>
    distinct (map chan_id (subscribers b) @ closed b) \<and>
    (ch \<in> set (subscribers b) \<longrightarrow> length (waiting ch) \<le> 100 \<and> subseq (seen ch @ waiting ch) (published ops))"
  using bus_inv_run [OF bus_inv_new, of ops] assms
  by (simp add: bus_inv_def history_cap_def channel_cap_def MaxSubscribers_def delivered_def)

theorem event_bus_invariant_witness:
  "history (fold bus_apply [OpPublish (1 :: nat), OpSubscribe, OpPublish 2, OpReceive 0] NewBus) = [1, 2]"
  using event_bus_invariant [OF refl, of "[OpPublish (1 :: nat), OpSubscribe, OpPublish 2, OpReceive 0]"]
  by (simp add: last_events_def)

end
