(* ===== verification/ModelStore.thy ===== *)
theory ModelStore
  imports ModelRows GroupRewrite EventBus "HOL-Library.Multiset"
begin

text \<open>
  The database-backed models manager (\<open>pkg/store/database/store.go\<close>, type \<open>ModelsManager\<close>): the two
  tables, the claim index, the two load-balancing engines it owns and the bus it publishes on. A
  statement is a function of the tables; the record \<open>driver\<close> says how the database behaves during one
  call: which statements it answers, after how many rows a result breaks off, in which order it
  returns rows, and how it writes a \<open>float64\<close>. A call is one step: its write, the
  engine's notice and the claim index are under the manager's mutex, and the validation before it and the
  reads of a resolution run in the same step. The drain loop holds no lock between its re-read and the
  engine's notice, so these are two steps. Environment and cipher are the
  \<open>world\<close> of the credentials. The engines are optional as in the code, where a nil engine ignores calls.
\<close>

section \<open>The database\<close>

datatype stmt =
    SelectModel string | SelectModelByName | SelectAllModels | SelectEnabledModels | SelectClaims
  | InsertModelStmt | UpdateModelStmt | DeleteModelStmt
  | SelectCredential nat string | SelectCredentials
  | InsertCredentialStmt | UpdateCredentialStmt | DeleteCredentialStmt

record dbCredentialRow =
  k_ID :: string
  k_Provider :: string
  k_APIKey :: string
  k_BaseURL :: string

record driver =
  dialect :: Dialect
  answers :: "stmt \<Rightarrow> bool"
  breaks :: "stmt \<Rightarrow> nat option"
  arrange :: "stmt \<Rightarrow> dbModelRow list \<Rightarrow> dbModelRow list"
  arrange_creds :: "dbCredentialRow list \<Rightarrow> dbCredentialRow list"
  float_text :: "rat \<Rightarrow> string"

datatype busEvent = BusEvent (evType: string) (evModelID: "string option option")

abbreviation EventCredentialsChanged :: string where
  "EventCredentialsChanged \<equiv> ''model.credentials.changed''"

record ModelsManager =
  tmodels :: "dbModelRow list"
  tcreds :: "dbCredentialRow list"
  lbEngine :: "Engine option"
  groupEngine :: "Engine_g option"
  eventBus :: "busEvent Bus option"
  subCh :: "nat option"
  mclaims :: "(string, string) fmap"
  once_done :: bool

datatype store_verdict = Accepted | Refused config_error | Hanging | Failed stmt

section \<open>Reading models\<close>

definition find_row :: "string \<Rightarrow> dbModelRow list \<Rightarrow> dbModelRow option" where
  "find_row i rows = List.find (\<lambda>r. d_ID r = i) rows"

definition scanModels :: "driver \<Rightarrow> stmt \<Rightarrow> dbModelRow list \<Rightarrow> ModelConfig list option" where
  "scanModels d q rows =
     (if \<not> answers d q then None
      else if breaks d q \<noteq> None then None
      else Some (map dbModelRowToConfig (arrange d q rows)))"

definition where_enabled :: "Dialect \<Rightarrow> dbModelRow \<Rightarrow> bool" where
  "where_enabled dl r \<longleftrightarrow> d_Enabled r = (if dl = PostgreSQL then DbBool True else DbInt 1)"

definition getModelRowByID :: "driver \<Rightarrow> ModelsManager \<Rightarrow> string \<Rightarrow> ModelConfig option" where
  "getModelRowByID d mm modelID =
     (if \<not> answers d (SelectModel modelID) then None
      else map_option dbModelRowToConfig (find_row modelID (tmodels mm)))"

definition GetModel_db :: "driver \<Rightarrow> ModelsManager \<Rightarrow> string \<Rightarrow> ModelConfig option" where
  "GetModel_db d mm modelID =
     (case fmlookup (mclaims mm) modelID of
        None \<Rightarrow> getModelRowByID d mm modelID
      | Some groupID \<Rightarrow>
          if groupID = [] then getModelRowByID d mm modelID
          else (case getModelRowByID d mm groupID of
                  Some g \<Rightarrow> if Enabled g then Some g else getModelRowByID d mm modelID
                | None \<Rightarrow> getModelRowByID d mm modelID))"

definition GetModelNative_db :: "driver \<Rightarrow> ModelsManager \<Rightarrow> string \<Rightarrow> ModelConfig option" where
  "GetModelNative_db d mm modelID = getModelRowByID d mm modelID"

definition GetModelByName_db :: "driver \<Rightarrow> ModelsManager \<Rightarrow> string \<Rightarrow> ModelConfig option" where
  "GetModelByName_db d mm modelName =
     (if \<not> answers d SelectModelByName then None
      else map_option dbModelRowToConfig
             (List.find (\<lambda>r. d_Name r = modelName) (arrange d SelectModelByName (tmodels mm))))"

definition GetModels_db :: "driver \<Rightarrow> ModelsManager \<Rightarrow> ModelConfig list" where
  "GetModels_db d mm = (case scanModels d SelectAllModels (tmodels mm) of None \<Rightarrow> [] | Some ms \<Rightarrow> ms)"

definition GetEnabledModels_db :: "driver \<Rightarrow> ModelsManager \<Rightarrow> ModelConfig list" where
  "GetEnabledModels_db d mm =
     (case scanModels d SelectEnabledModels (filter (where_enabled (dialect d)) (tmodels mm)) of
        None \<Rightarrow> [] | Some ms \<Rightarrow> ms)"

definition GetTruncateParams_db :: "driver \<Rightarrow> ModelsManager \<Rightarrow> string \<Rightarrow> string list" where
  "GetTruncateParams_db d mm modelID =
     (if \<not> answers d (SelectModel modelID) then []
      else case find_row modelID (tmodels mm) of None \<Rightarrow> []
        | Some r \<Rightarrow> parse_strings (d_TruncateParamsJSON r))"

definition GetFallbackChain_db :: "driver \<Rightarrow> ModelsManager \<Rightarrow> string \<Rightarrow> string list option" where
  "GetFallbackChain_db d mm modelID =
     (if \<not> answers d (SelectModel modelID) then None
      else case find_row modelID (tmodels mm) of None \<Rightarrow> None
        | Some r \<Rightarrow> Some (d_ID r # parse_strings (d_FallbackChainJSON r)))"

text \<open>The strict reads keep a missing row and a failed statement apart.\<close>

datatype strict_error = ModelNotFound | CredentialNotFound | DecryptionFailed | DecryptionFailureInScan | Infra stmt

definition getModelStrict :: "driver \<Rightarrow> stmt \<Rightarrow> dbModelRow option \<Rightarrow> strict_error + ModelConfig" where
  "getModelStrict d q row =
     (if \<not> answers d q then Inl (Infra q)
      else case row of None \<Rightarrow> Inl ModelNotFound | Some r \<Rightarrow> Inr (dbModelRowToConfig r))"

definition GetModelStrict :: "driver \<Rightarrow> ModelsManager \<Rightarrow> string \<Rightarrow> strict_error + ModelConfig" where
  "GetModelStrict d mm modelID = getModelStrict d (SelectModel modelID) (find_row modelID (tmodels mm))"

definition GetModelByNameStrict :: "driver \<Rightarrow> ModelsManager \<Rightarrow> string \<Rightarrow> strict_error + ModelConfig" where
  "GetModelByNameStrict d mm modelName =
     getModelStrict d SelectModelByName (List.find (\<lambda>r. d_Name r = modelName) (arrange d SelectModelByName (tmodels mm)))"

definition GetModelsStrict :: "driver \<Rightarrow> ModelsManager \<Rightarrow> strict_error + ModelConfig list" where
  "GetModelsStrict d mm =
     (case scanModels d SelectAllModels (tmodels mm) of None \<Rightarrow> Inl (Infra SelectAllModels) | Some ms \<Rightarrow> Inr ms)"

definition GetEnabledModelsStrict :: "driver \<Rightarrow> ModelsManager \<Rightarrow> strict_error + ModelConfig list" where
  "GetEnabledModelsStrict d mm =
     (case scanModels d SelectEnabledModels (filter (where_enabled (dialect d)) (tmodels mm)) of
        None \<Rightarrow> Inl (Infra SelectEnabledModels) | Some ms \<Rightarrow> Inr ms)"

section \<open>Reading credentials\<close>

definition row_credential :: "dbCredentialRow \<Rightarrow> CredentialConfig" where
  "row_credential r = \<lparr>ID_c = k_ID r, Provider = k_Provider r, APIKey = k_APIKey r, BaseURL = k_BaseURL r\<rparr>"

definition find_cred :: "string \<Rightarrow> dbCredentialRow list \<Rightarrow> dbCredentialRow option" where
  "find_cred i rows = List.find (\<lambda>r. k_ID r = i) rows"

text \<open>The number tells apart the reads of one credential within a call.\<close>

definition GetCredential_db :: "world \<Rightarrow> driver \<Rightarrow> nat \<Rightarrow> ModelsManager \<Rightarrow> string \<Rightarrow> CredentialConfig option" where
  "GetCredential_db w d n mm i =
     (if \<not> answers d (SelectCredential n i) then None
      else map_option (\<lambda>r. decrypted w (row_credential r)) (find_cred i (tcreds mm)))"

definition GetCredentials_db :: "world \<Rightarrow> driver \<Rightarrow> ModelsManager \<Rightarrow> CredentialConfig list" where
  "GetCredentials_db w d mm =
     (if \<not> answers d SelectCredentials then []
      else let rows = arrange_creds d (tcreds mm);
               delivered = (case breaks d SelectCredentials of None \<Rightarrow> rows | Some n \<Rightarrow> take n rows)
           in map (\<lambda>r. decrypted w (row_credential r)) delivered)"

definition strict_credential :: "world \<Rightarrow> dbCredentialRow \<Rightarrow> CredentialConfig option" where
  "strict_credential w r =
     (let c = row_credential r in
      if k_APIKey r = [] then Some c
      else map_option (\<lambda>k. c\<lparr>APIKey := k\<rparr>) (Decrypt w (k_APIKey r)))"

definition GetCredentialStrict :: "world \<Rightarrow> driver \<Rightarrow> ModelsManager \<Rightarrow> string \<Rightarrow> strict_error + CredentialConfig" where
  "GetCredentialStrict w d mm i =
     (if \<not> answers d (SelectCredential 0 i) then Inl (Infra (SelectCredential 0 i))
      else case find_cred i (tcreds mm) of
          None \<Rightarrow> Inl CredentialNotFound
        | Some r \<Rightarrow> (case strict_credential w r of None \<Rightarrow> Inl DecryptionFailed | Some c \<Rightarrow> Inr c))"

text \<open>The list read returns what it collected next to its error.\<close>

fun strict_rows :: "world \<Rightarrow> CredentialConfig list \<Rightarrow> dbCredentialRow list \<Rightarrow> CredentialConfig list \<times> strict_error option" where
  "strict_rows w acc [] = (acc, None)"
| "strict_rows w acc (r # rs) =
     (case strict_credential w r of
        None \<Rightarrow> (acc, Some DecryptionFailureInScan)
      | Some c \<Rightarrow> strict_rows w (acc @ [c]) rs)"

definition GetCredentialsStrict :: "world \<Rightarrow> driver \<Rightarrow> ModelsManager \<Rightarrow> CredentialConfig list \<times> strict_error option" where
  "GetCredentialsStrict w d mm =
     (if \<not> answers d SelectCredentials then ([], Some (Infra SelectCredentials))
      else let rows = arrange_creds d (tcreds mm) in
        case breaks d SelectCredentials of
          None \<Rightarrow> strict_rows w [] rows
        | Some n \<Rightarrow>
            (case strict_rows w [] (take n rows) of
               (acc, Some e) \<Rightarrow> (acc, Some e)
             | (acc, None) \<Rightarrow> (acc, Some (Infra SelectCredentials))))"

section \<open>Claims, engines and the bus\<close>

text \<open>A later row overwrites the claim of an earlier one.\<close>

fun claim_rows :: "(string, string) fmap \<Rightarrow> dbModelRow list \<Rightarrow> (string, string) fmap" where
  "claim_rows cl [] = cl"
| "claim_rows cl (r # rs) =
     claim_rows (if d_ShadowModelID r \<noteq> [] then fmupd (d_ShadowModelID r) (d_ID r) cl else cl) rs"

definition where_group :: "Dialect \<Rightarrow> dbModelRow \<Rightarrow> bool" where
  "where_group dl r \<longleftrightarrow> d_Kind r = KindGroup \<and> where_enabled dl r"

definition rebuildClaimsLocked_db :: "driver \<Rightarrow> ModelsManager \<Rightarrow> ModelsManager" where
  "rebuildClaimsLocked_db d mm =
     (if \<not> answers d SelectClaims then mm\<lparr>mclaims := fmempty\<rparr>
      else let rows = arrange d SelectClaims (filter (where_group (dialect d)) (tmodels mm));
               delivered = (case breaks d SelectClaims of None \<Rightarrow> rows | Some n \<Rightarrow> take n rows)
           in mm\<lparr>mclaims := claim_rows fmempty delivered\<rparr>)"

definition publishCredentialsChanged :: "string \<Rightarrow> ModelsManager \<Rightarrow> ModelsManager" where
  "publishCredentialsChanged modelID mm =
     (case eventBus mm of None \<Rightarrow> mm
      | Some b \<Rightarrow> mm\<lparr>eventBus := Some (Publish (BusEvent EventCredentialsChanged (Some (Some modelID))) b)\<rparr>)"

definition on_model_changed :: "string \<Rightarrow> CredentialRef list \<Rightarrow> ModelsManager \<Rightarrow> ModelsManager" where
  "on_model_changed modelID refs mm =
     mm\<lparr>lbEngine := map_option (\<lambda>e. OnModelChanged e modelID refs) (lbEngine mm)\<rparr>"

definition on_group_changed :: "string \<Rightarrow> MemberRef list \<Rightarrow> ModelsManager \<Rightarrow> ModelsManager" where
  "on_group_changed modelID refs mm =
     mm\<lparr>groupEngine := map_option (\<lambda>e. OnGroupChanged e modelID refs) (groupEngine mm)\<rparr>"

definition notifyGroupEngineLocked :: "string \<Rightarrow> string \<Rightarrow> GroupMember list \<Rightarrow> ModelsManager \<Rightarrow> ModelsManager" where
  "notifyGroupEngineLocked kind modelID ms mm =
     (if kind \<noteq> KindGroup then mm else on_group_changed modelID (GroupMemberRefs ms) mm)"

section \<open>Validation\<close>

definition validateModelAgainstCredentials ::
  "string list \<Rightarrow> (string \<Rightarrow> CredentialConfig option) \<Rightarrow> (string \<Rightarrow> CredentialConfig option) \<Rightarrow> ModelConfig \<Rightarrow> model_error option" where
  "validateModelAgainstCredentials credIDs creds creds' m =
     (case validate_internal credIDs creds m of Some e \<Rightarrow> Some e
      | None \<Rightarrow>
        if SecondaryUpstreamModel m \<noteq> [] \<and> \<not> Internal m then Some SecondaryRequiresInternal
        else case validate_peak m of Some e \<Rightarrow> Some e
          | None \<Rightarrow> ValidateKindRules m (primary_provider creds' m))"

definition validateGroupWrite :: "driver \<Rightarrow> ModelsManager \<Rightarrow> ModelConfig \<Rightarrow> model_error option" where
  "validateGroupWrite d mm m =
     (case ValidateKindRules m [] of Some e \<Rightarrow> Some e
      | None \<Rightarrow> ValidateGroupMembers m (GetModels_db d mm))"

definition validateBeforeWrite :: "world \<Rightarrow> driver \<Rightarrow> ModelsManager \<Rightarrow> ModelConfig \<Rightarrow> model_error option" where
  "validateBeforeWrite w d mm m =
     (if Kind m = KindGroup then validateGroupWrite d mm m
      else validateModelAgainstCredentials (map ID_c (GetCredentials_db w d mm))
             (GetCredential_db w d 0 mm) (GetCredential_db w d 1 mm) m)"

definition validate_stored :: "world \<Rightarrow> driver \<Rightarrow> ModelsManager \<Rightarrow> ModelConfig \<Rightarrow> config_error option" where
  "validate_stored w d mm m =
     (if ID m = [] then Some ErrInvalidModelID
      else if Kind m = KindGroup then map_option (ModelError (ID m)) (validateGroupWrite d mm m)
      else if length (FallbackChain m) > 1 then Some FallbackChainTooLong
      else map_option (ModelError (ID m))
             (validateModelAgainstCredentials (map ID_c (GetCredentials_db w d mm))
                (GetCredential_db w d 0 mm) (GetCredential_db w d 1 mm) m))"

definition Validate_db :: "world \<Rightarrow> driver \<Rightarrow> ModelsManager \<Rightarrow> verdict" where
  "Validate_db w d mm =
     (case row_loop (validate_stored w d mm) (GetModels_db d mm) of
        Some e \<Rightarrow> Invalid e
      | None \<Rightarrow> cred_loop w (GetCredentials_db w d mm))"

section \<open>Writing models\<close>

text \<open>\<open>INSERT OR REPLACE\<close> and \<open>ON CONFLICT DO UPDATE\<close>: a row with the same identifier is replaced.\<close>

definition insert_row :: "dbModelRow \<Rightarrow> dbModelRow list \<Rightarrow> dbModelRow list" where
  "insert_row r rows = filter (\<lambda>r'. d_ID r' \<noteq> d_ID r) rows @ [r]"

definition update_row :: "string \<Rightarrow> dbModelRow \<Rightarrow> dbModelRow list \<Rightarrow> dbModelRow list" where
  "update_row modelID r rows = map (\<lambda>r'. if d_ID r' = modelID then r\<lparr>d_ID := modelID\<rparr> else r') rows"

definition delete_row :: "string \<Rightarrow> dbModelRow list \<Rightarrow> dbModelRow list" where
  "delete_row modelID rows = filter (\<lambda>r. d_ID r \<noteq> modelID) rows"

text \<open>What follows a successful write: the engine, the event, the claims and the group engine.\<close>

definition after_write :: "driver \<Rightarrow> ModelConfig \<Rightarrow> ModelsManager \<Rightarrow> ModelsManager" where
  "after_write d m mm =
     notifyGroupEngineLocked (Kind m) (ID m) (Members m)
       (rebuildClaimsLocked_db d
         (publishCredentialsChanged (ID m) (on_model_changed (ID m) (Credentials m) mm)))"

definition row_found :: "driver \<Rightarrow> ModelsManager \<Rightarrow> string \<Rightarrow> bool" where
  "row_found d mm modelID \<longleftrightarrow> answers d (SelectModel modelID) \<and> find_row modelID (tmodels mm) \<noteq> None"

definition AddModel_db :: "world \<Rightarrow> driver \<Rightarrow> ModelConfig \<Rightarrow> ModelsManager \<Rightarrow> store_verdict \<times> ModelsManager" where
  "AddModel_db w d model0 mm =
     (if ID model0 = [] then (Refused ErrInvalidModelID, mm)
      else if Name model0 = [] then (Refused ErrInvalidModelName, mm)
      else let model = model0\<lparr>Internal := True\<rparr> in
        case validateBeforeWrite w d mm model of
          Some e \<Rightarrow> (Refused (ModelError (ID model) e), mm)
        | None \<Rightarrow>
            if row_found d mm (ID model) then (Refused ErrDuplicateModelID, mm)
            else if \<not> answers d InsertModelStmt then (Failed InsertModelStmt, mm)
            else (Accepted, after_write d model
                    (mm\<lparr>tmodels := insert_row (bound_row (dialect d) (float_text d) model) (tmodels mm)\<rparr>)))"

definition UpdateModel_db ::
  "world \<Rightarrow> driver \<Rightarrow> string \<Rightarrow> ModelConfig \<Rightarrow> ModelsManager \<Rightarrow> store_verdict \<times> ModelsManager" where
  "UpdateModel_db w d modelID model0 mm =
     (if ID model0 = [] then (Refused ErrInvalidModelID, mm)
      else if Name model0 = [] then (Refused ErrInvalidModelName, mm)
      else if ID model0 \<noteq> modelID then (Refused ErrCannotChangeModelID, mm)
      else let model = model0\<lparr>Internal := True\<rparr> in
        case validateBeforeWrite w d mm model of
          Some e \<Rightarrow> (Refused (ModelError (ID model) e), mm)
        | None \<Rightarrow>
            if \<not> row_found d mm modelID then (Refused ErrModelNotFound, mm)
            else if \<not> answers d UpdateModelStmt then (Failed UpdateModelStmt, mm)
            else (Accepted, after_write d model
                    (mm\<lparr>tmodels := update_row modelID (bound_row (dialect d) (float_text d) model) (tmodels mm)\<rparr>)))"

definition RemoveModel_db :: "driver \<Rightarrow> string \<Rightarrow> ModelsManager \<Rightarrow> store_verdict \<times> ModelsManager" where
  "RemoveModel_db d modelID mm =
     (if \<not> row_found d mm modelID then (Refused ErrModelNotFound, mm)
      else case scanModels d SelectAllModels (tmodels mm) of
          None \<Rightarrow> (Failed SelectAllModels, mm)
        | Some allModels \<Rightarrow>
            (case List.find (has_member modelID) allModels of
               Some g \<Rightarrow> (Refused (MemberOfGroup modelID (ID g)), mm)
             | None \<Rightarrow>
                 if \<not> answers d DeleteModelStmt then (Failed DeleteModelStmt, mm)
                 else let removed_group = list_ex (\<lambda>g. Kind g = KindGroup \<and> ID g = modelID) allModels;
                          mm1 = rebuildClaimsLocked_db d
                            (on_model_changed modelID [] (mm\<lparr>tmodels := delete_row modelID (tmodels mm)\<rparr>))
                      in (Accepted, if removed_group then on_group_changed modelID [] mm1 else mm1)))"

section \<open>Writing credentials\<close>

definition stored_cred :: "world \<Rightarrow> CredentialConfig \<Rightarrow> dbCredentialRow option" where
  "stored_cred w c =
     map_option (\<lambda>c'. \<lparr>k_ID = ID_c c', k_Provider = Provider c', k_APIKey = APIKey c', k_BaseURL = BaseURL c'\<rparr>) (encrypted w c)"

text \<open>The identifier is the primary key: inserting an existing one fails.\<close>

definition AddCredential_db :: "world \<Rightarrow> driver \<Rightarrow> CredentialConfig \<Rightarrow> ModelsManager \<Rightarrow> store_verdict \<times> ModelsManager" where
  "AddCredential_db w d cred mm =
     (case Validate_c w cred of
        Invalid e \<Rightarrow> (Refused e, mm)
      | Hangs \<Rightarrow> (Hanging, mm)
      | Valid \<Rightarrow>
          (case stored_cred w cred of
             None \<Rightarrow> (Refused EncryptFailed, mm)
           | Some r \<Rightarrow>
               if \<not> answers d InsertCredentialStmt \<or> find_cred (k_ID r) (tcreds mm) \<noteq> None
               then (Failed InsertCredentialStmt, mm)
               else (Accepted, mm\<lparr>tcreds := tcreds mm @ [r]\<rparr>)))"

definition UpdateCredential_db ::
  "world \<Rightarrow> driver \<Rightarrow> string \<Rightarrow> CredentialConfig \<Rightarrow> ModelsManager \<Rightarrow> store_verdict \<times> ModelsManager" where
  "UpdateCredential_db w d i cred mm =
     (case Validate_c w cred of
        Invalid e \<Rightarrow> (Refused e, mm)
      | Hangs \<Rightarrow> (Hanging, mm)
      | Valid \<Rightarrow>
          if ID_c cred \<noteq> i then (Refused ErrCannotChangeCredentialID, mm)
          else (case stored_cred w cred of
             None \<Rightarrow> (Refused EncryptFailed, mm)
           | Some r \<Rightarrow>
               if \<not> answers d UpdateCredentialStmt then (Failed UpdateCredentialStmt, mm)
               else if find_cred i (tcreds mm) = None then (Refused ErrCredentialNotFound, mm)
               else (Accepted, mm\<lparr>tcreds := map (\<lambda>r'. if k_ID r' = i then r else r') (tcreds mm)\<rparr>)))"

text \<open>The error of the in-use scan is dropped by the code: a failed scan finds no model.\<close>

definition RemoveCredential_db :: "driver \<Rightarrow> string \<Rightarrow> ModelsManager \<Rightarrow> store_verdict \<times> ModelsManager" where
  "RemoveCredential_db d i mm =
     (let modelList = (case scanModels d SelectAllModels (tmodels mm) of None \<Rightarrow> [] | Some ms \<Rightarrow> ms) in
      case List.find (uses_credential i) modelList of
        Some m \<Rightarrow> (Refused (ErrCredentialInUse (ID m)), mm)
      | None \<Rightarrow>
          if \<not> answers d DeleteCredentialStmt then (Failed DeleteCredentialStmt, mm)
          else if find_cred i (tcreds mm) = None then (Refused ErrCredentialNotFound, mm)
          else (Accepted, mm\<lparr>tcreds := filter (\<lambda>r. k_ID r \<noteq> i) (tcreds mm),
                             lbEngine := map_option (\<lambda>e. OnCredentialDeleted e i) (lbEngine mm)\<rparr>))"

section \<open>Resolution\<close>

definition resolveWithCredential :: "ModelConfig \<Rightarrow> CredentialConfig \<Rightarrow> time \<Rightarrow> string \<times> string \<times> string \<times> string" where
  "resolveWithCredential m cred now =
     (let baseURL = (if InternalBaseURL m = [] then BaseURL cred else InternalBaseURL m);
          peakModel = ResolvePeakHourModel m now;
          actualModel = (if peakModel \<noteq> [] then peakModel else InternalModel m)
      in (Provider cred, APIKey cred, baseURL, actualModel))"

definition resolved_with :: "ModelConfig \<Rightarrow> CredentialConfig \<Rightarrow> time \<Rightarrow> string \<Rightarrow> bool \<Rightarrow> ResolvedCredential" where
  "resolved_with m cred now credID bound =
     (case resolveWithCredential m cred now of (provider, apiKey, baseURL, actualModel) \<Rightarrow>
        \<lparr>Provider_r = provider, APIKey_r = apiKey, BaseURL_r = baseURL, InternalModel_r = actualModel,
         CredentialID_r = credID, NewlyBound = bound\<rparr>)"

definition ResolveInternalConfig_db ::
  "world \<Rightarrow> driver \<Rightarrow> time \<Rightarrow> ModelsManager \<Rightarrow> string \<Rightarrow> (string \<times> string \<times> string \<times> string) option" where
  "ResolveInternalConfig_db w d now mm modelID =
     (case GetModelNative_db d mm modelID of
        None \<Rightarrow> None
      | Some m \<Rightarrow>
          if \<not> Internal m then None
          else if PrimaryCredentialID m = [] then None
          else case GetCredential_db w d 0 mm (PrimaryCredentialID m) of
              None \<Rightarrow> None
            | Some cred \<Rightarrow> Some (resolveWithCredential m cred now))"

text \<open>The engine after a selected credential was not found: its state is dropped, then it cools down.\<close>

definition heal_engine :: "time \<Rightarrow> nat \<Rightarrow> string \<Rightarrow> string \<Rightarrow> string \<Rightarrow> Engine \<Rightarrow> Engine" where
  "heal_engine now u modelID key credID e =
     snd (ExcludeAndReselect (OnCredentialDeleted e credID) now u modelID key credID 0)"

definition ResolveInternalConfigWithAffinity_db ::
  "world \<Rightarrow> driver \<Rightarrow> time \<Rightarrow> nat \<Rightarrow> nat \<Rightarrow> string \<Rightarrow> string \<Rightarrow> ModelsManager \<Rightarrow> ResolvedCredential option \<times> ModelsManager" where
  "ResolveInternalConfigWithAffinity_db w d now u u' modelID key mm =
     (case GetModelNative_db d mm modelID of
        None \<Rightarrow> (None, mm)
      | Some m \<Rightarrow>
          if \<not> Internal m then (None, mm)
          else if lbEngine mm = None \<or> length (Credentials m) = 0 then
            (if PrimaryCredentialID m = [] then (None, mm)
             else case GetCredential_db w d 0 mm (PrimaryCredentialID m) of
                 None \<Rightarrow> (None, mm)
               | Some cred \<Rightarrow> (Some (resolved_with m cred now (PrimaryCredentialID m) False), mm))
          else if length (Credentials m) = 1 then
            (let fastID = CredentialID (Credentials m ! 0) in
             case GetCredential_db w d 0 mm fastID of
               None \<Rightarrow> (None, mm)
             | Some cred \<Rightarrow> (Some (resolved_with m cred now fastID False), mm))
          else
            (let (out, e) = GetOrSelect (the (lbEngine mm)) now u modelID key;
                 mm1 = mm\<lparr>lbEngine := Some e\<rparr>
             in if gos_err out \<noteq> None \<or> out_id out = [] then (None, mm1)
                else case GetCredential_db w d 0 mm (out_id out) of
                    None \<Rightarrow> (None, mm\<lparr>lbEngine := Some (heal_engine now u' modelID key (out_id out) e)\<rparr>)
                  | Some cred \<Rightarrow> (Some (resolved_with m cred now (out_id out) (newlyBound out)), mm1)))"

text \<open>The variant of the models cache: the row and the credentials come from the caller.\<close>

definition resolveSingle ::
  "(string \<Rightarrow> CredentialConfig option) \<Rightarrow> ModelConfig \<Rightarrow> time \<Rightarrow> string \<Rightarrow> ResolvedCredential option" where
  "resolveSingle credLookup m now credID =
     (case credLookup credID of None \<Rightarrow> None | Some cred \<Rightarrow> Some (resolved_with m cred now credID False))"

definition ResolveInternalConfigWithAffinityCached ::
  "ModelConfig option \<Rightarrow> time \<Rightarrow> nat \<Rightarrow> nat \<Rightarrow> string \<Rightarrow> (string \<Rightarrow> CredentialConfig option) \<Rightarrow> ModelsManager
     \<Rightarrow> ResolvedCredential option \<times> ModelsManager" where
  "ResolveInternalConfigWithAffinityCached cached now u u' key credLookup mm =
     (case cached of
        None \<Rightarrow> (None, mm)
      | Some m \<Rightarrow>
          if \<not> Internal m then (None, mm)
          else if lbEngine mm = None \<or> length (Credentials m) = 0 then
            (if PrimaryCredentialID m = [] then (None, mm)
             else (resolveSingle credLookup m now (PrimaryCredentialID m), mm))
          else if length (Credentials m) = 1 then
            (resolveSingle credLookup m now (CredentialID (Credentials m ! 0)), mm)
          else
            (let (out, e) = GetOrSelect (the (lbEngine mm)) now u (ID m) key;
                 mm1 = mm\<lparr>lbEngine := Some e\<rparr>
             in if gos_err out \<noteq> None \<or> out_id out = [] then (None, mm1)
                else case credLookup (out_id out) of
                    None \<Rightarrow> (None, mm\<lparr>lbEngine := Some (heal_engine now u' (ID m) key (out_id out) e)\<rparr>)
                  | Some cred \<Rightarrow> (Some (resolved_with m cred now (out_id out) (newlyBound out)), mm1)))"

section \<open>Construction and the drain loop\<close>

definition seed_engine :: "ModelConfig list \<Rightarrow> Engine \<Rightarrow> Engine" where
  "seed_engine ms e = fold (\<lambda>m e. RebindFromStore e (ID m) (Credentials m)) ms e"

definition NewModelsManager ::
  "driver \<Rightarrow> dbModelRow list \<Rightarrow> dbCredentialRow list \<Rightarrow> busEvent Bus option \<Rightarrow> ModelsManager" where
  "NewModelsManager d tm tc b =
     (let mm0 = \<lparr>tmodels = tm, tcreds = tc,
            lbEngine = Some (NewEngine DefaultBindingTTL DefaultSweepInterval DefaultCooldown),
            groupEngine = Some (NewEngine_g DefaultBindingTTL_g DefaultSweepInterval_g DefaultCooldown_g),
            eventBus = b, subCh = None, mclaims = fmempty, once_done = False\<rparr>;
          mm1 = mm0\<lparr>lbEngine := map_option (seed_engine (GetModels_db d mm0)) (lbEngine mm0)\<rparr>;
          mm2 = rebuildClaimsLocked_db d mm1
      in case b of None \<Rightarrow> mm2
         | Some bus \<Rightarrow> (case Subscribe bus of (ch, bus') \<Rightarrow> mm2\<lparr>eventBus := Some bus', subCh := ch\<rparr>))"

text \<open>One turn of the loop: receive an event, read the row it names again, tell the engine. The lock of the read
  is released before the engine is told. A failed read is taken for a removed row.\<close>

definition receive_event :: "ModelsManager \<Rightarrow> (busEvent \<times> ModelsManager) option" where
  "receive_event mm =
     (case (eventBus mm, subCh mm) of
        (Some b, Some i) \<Rightarrow>
          (case find_chan i b of
             None \<Rightarrow> None
           | Some ch \<Rightarrow>
               (case waiting ch of
                  [] \<Rightarrow> None
                | evt # _ \<Rightarrow> Some (evt, mm\<lparr>eventBus := Some (Receive i b)\<rparr>)))
      | _ \<Rightarrow> None)"

definition drain_target :: "busEvent \<Rightarrow> string option" where
  "drain_target evt =
     (if evType evt \<noteq> EventCredentialsChanged then None
      else case evModelID evt of
          None \<Rightarrow> None
        | Some i \<Rightarrow>
            let modelID = (case i of None \<Rightarrow> [] | Some s \<Rightarrow> s)
            in if modelID = [] then None else Some modelID)"

definition drain_refs :: "driver \<Rightarrow> ModelsManager \<Rightarrow> string \<Rightarrow> CredentialRef list" where
  "drain_refs d mm modelID = (case GetModelNative_db d mm modelID of None \<Rightarrow> [] | Some mc \<Rightarrow> Credentials mc)"

definition handle_event :: "driver \<Rightarrow> busEvent \<Rightarrow> ModelsManager \<Rightarrow> ModelsManager" where
  "handle_event d evt mm =
     (case drain_target evt of None \<Rightarrow> mm | Some modelID \<Rightarrow> on_model_changed modelID (drain_refs d mm modelID) mm)"

definition drainCredentialsChanged :: "driver \<Rightarrow> ModelsManager \<Rightarrow> ModelsManager" where
  "drainCredentialsChanged d mm =
     (case receive_event mm of None \<Rightarrow> mm | Some (evt, mm') \<Rightarrow> handle_event d evt mm')"

definition Close_db :: "ModelsManager \<Rightarrow> ModelsManager" where
  "Close_db mm =
     (if once_done mm then mm
      else mm\<lparr>once_done := True,
              eventBus := (case (eventBus mm, subCh mm) of (Some b, Some i) \<Rightarrow> Some (Unsubscribe i b) | (b, _) \<Rightarrow> b),
              lbEngine := map_option Stop (lbEngine mm),
              groupEngine := map_option Stop_g (groupEngine mm)\<rparr>)"

section \<open>Rows by identifier\<close>

definition ids_distinct :: "ModelsManager \<Rightarrow> bool" where
  "ids_distinct mm \<longleftrightarrow> distinct (map d_ID (tmodels mm))"

lemma find_row_Some: "find_row i rows = Some r \<Longrightarrow> r \<in> set rows \<and> d_ID r = i"
  by (auto simp: find_row_def find_Some_iff)

lemma find_row_None: "find_row i rows = None \<longleftrightarrow> i \<notin> d_ID ` set rows"
  by (auto simp: find_row_def find_None_iff)

lemma find_row_Cons: "find_row i (r # rs) = (if d_ID r = i then Some r else find_row i rs)"
  by (simp add: find_row_def)

lemma find_row_Nil [simp]: "find_row i [] = None"
  by (simp add: find_row_def)

lemma find_row_distinct: "distinct (map d_ID rows) \<Longrightarrow> r \<in> set rows \<Longrightarrow> find_row (d_ID r) rows = Some r"
  by (induction rows) (auto simp: find_row_def rev_image_eqI)

lemma find_row_append: "find_row i (rs @ rs') = (case find_row i rs of Some r \<Rightarrow> Some r | None \<Rightarrow> find_row i rs')"
  by (induction rs) (auto simp: find_row_def)

lemma find_row_filter: "i \<noteq> j \<Longrightarrow> find_row i (filter (\<lambda>r. d_ID r \<noteq> j) rs) = find_row i rs"
  by (induction rs) (auto simp: find_row_def)

lemma find_row_insert: "find_row i (insert_row r rows) = (if i = d_ID r then Some r else find_row i rows)"
proof -
  have "find_row (d_ID r) (filter (\<lambda>r'. d_ID r' \<noteq> d_ID r) rows) = None" by (auto simp: find_row_None)
  then show ?thesis
    by (cases "i = d_ID r") (simp_all add: insert_row_def find_row_append find_row_Cons find_row_filter split: option.split)
qed

lemma find_row_update:
  "find_row i (update_row j r rows) =
     (if i = j then (if find_row j rows = None then None else Some (r\<lparr>d_ID := j\<rparr>)) else find_row i rows)"
  by (induction rows) (auto simp: update_row_def find_row_def)

lemma find_row_delete: "find_row i (delete_row j rows) = (if i = j then None else find_row i rows)"
proof (cases "i = j")
  case True
  then show ?thesis by (auto simp: delete_row_def find_row_None)
qed (simp add: delete_row_def find_row_filter)

lemma distinct_insert: "distinct (map d_ID rows) \<Longrightarrow> distinct (map d_ID (insert_row r rows))"
  by (auto simp: insert_row_def distinct_map_filter)

lemma distinct_update: "distinct (map d_ID rows) \<Longrightarrow> distinct (map d_ID (update_row i r rows))"
proof -
  have "map d_ID (update_row i r rows) = map d_ID rows" by (auto simp: update_row_def)
  then show "distinct (map d_ID rows) \<Longrightarrow> ?thesis" by simp
qed

lemma distinct_delete: "distinct (map d_ID rows) \<Longrightarrow> distinct (map d_ID (delete_row i rows))"
  by (simp add: delete_row_def distinct_map_filter)

section \<open>The engine knows the credentials of every row\<close>

definition refs_of :: "dbModelRow list \<Rightarrow> string \<Rightarrow> CredentialRef list" where
  "refs_of rows i = (case find_row i rows of None \<Rightarrow> [] | Some r \<Rightarrow> parseCredentialsJSON (d_CredentialsJSON r))"

definition engine_refs :: "Engine \<Rightarrow> string \<Rightarrow> CredentialRef list" where
  "engine_refs e i = (case fmlookup (models e) i of None \<Rightarrow> [] | Some st \<Rightarrow> credentials st)"

text \<open>The engine and the rows agree on every identifier outside \<open>B\<close>.\<close>

definition coherent :: "string set \<Rightarrow> ModelsManager \<Rightarrow> bool" where
  "coherent B mm \<longleftrightarrow>
     (case lbEngine mm of None \<Rightarrow> True
      | Some e \<Rightarrow> engine_inv e \<and> (\<forall>i. i \<notin> B \<longrightarrow> engine_refs e i = refs_of (tmodels mm) i))"

lemma engine_refs_changed [simp]:
  "engine_refs (OnModelChanged e j refs) i = (if i = j then refs else engine_refs e i)"
  by (auto simp: engine_refs_def OnModelChanged_def filter_orphans_def applyRefsLocked_def Let_def split: option.split)

lemma engine_refs_rebind [simp]:
  "engine_refs (RebindFromStore e j refs) i = (if i = j then refs else engine_refs e i)"
  by (auto simp: engine_refs_def RebindFromStore_def applyRefsLocked_def Let_def split: option.split)

lemma engine_refs_deleted [simp]: "engine_refs (OnCredentialDeleted e c) i = engine_refs e i"
  by (auto simp: engine_refs_def OnCredentialDeleted_def delete_credential_def split: option.split)

lemma engine_refs_Stop [simp]: "engine_refs (Stop e) i = engine_refs e i"
  by (simp add: engine_refs_def Stop_def)

lemma engine_inv_more:
  "engine_inv e \<Longrightarrow> engine_inv (OnCredentialDeleted e c)" "engine_inv e \<Longrightarrow> engine_inv (Stop e)"
  using engine_step_inv [OF step_deleted] engine_step_inv [OF step_stop] by blast+

lemma st_GetOrSelect_frame: "credentials (snd (st_GetOrSelect t now w key st)) = credentials st"
  using gos_full_frame [OF refl, of t now w key st]
  by (auto simp: st_GetOrSelect_def gos_sections_def map_prod_def split: option.splits prod.splits if_splits
      dest!: gos_hit_frame)

lemma st_exclude_frame: "credentials (snd (st_excludeAndReselect dc now w key excl cool st)) = credentials st"
  by (auto simp: st_excludeAndReselect_def reselect_pick_def Let_def split: option.splits sum.splits prod.splits if_splits)

lemma engine_refs_select [simp]: "engine_refs (snd (GetOrSelect e now w m key)) i = engine_refs e i"
  by (auto simp: snd_GetOrSelect engine_refs_def st_GetOrSelect_frame split: option.split)

lemma engine_refs_exclude [simp]: "engine_refs (snd (ExcludeAndReselect e now w m key excl ra)) i = engine_refs e i"
  by (auto simp: ExcludeAndReselect_def snd_Exclude engine_refs_def st_exclude_frame split: option.split)

lemma engine_inv_exclude: "engine_inv e \<Longrightarrow> engine_inv (snd (ExcludeAndReselect e now w m key excl ra))"
  by (simp add: ExcludeAndReselect_def engine_inv_Exclude)

lemma heal_frame [simp]: "engine_refs (heal_engine now u m key c e) i = engine_refs e i"
  by (simp add: heal_engine_def)

lemma heal_inv: "engine_inv e \<Longrightarrow> engine_inv (heal_engine now u m key c e)"
  by (simp add: heal_engine_def engine_inv_exclude engine_inv_more)

text \<open>What a selection returns on a well-formed engine.\<close>

lemma selection_serves:
  assumes "engine_inv e" "2 \<le> length (engine_refs e m)" "refs_valid (engine_refs e m)"
  shows "gos_err (fst (GetOrSelect e now w m key)) = None"
    "out_id (fst (GetOrSelect e now w m key)) \<in> CredentialID ` set (engine_refs e m)"
    "out_id (fst (GetOrSelect e now w m key)) \<noteq> []"
proof -
  obtain st where st: "fmlookup (models e) m = Some st" "credentials st = engine_refs e m"
    using assms(2) by (auto simp: engine_refs_def split: option.splits)
  let ?out = "fst (st_GetOrSelect (ttl e) now w key st)"
  have inv: "ms_inv st" "refs_valid (credentials st)" using engine_inv_lookup [OF assms(1) st(1)] st(2) assms(3) by simp_all
  have ok: "gos_err ?out = None \<and> out_id ?out \<in> CredentialID ` set (credentials st)"
  proof (cases "gos_read (ttl e) now key st")
    case None
    then have "st_GetOrSelect (ttl e) now w key st = gos_full (ttl e) now w key st"
      using assms(2) st(2) by (auto simp: st_GetOrSelect_def gos_sections_def credCount_def map_prod_def split: prod.split)
    then show ?thesis using gos_full_serves [OF inv, of now key "ttl e" w] by (auto simp: served_def)
  next
    case (Some c)
    then have "c \<in> CredentialID ` set (credentials st)"
      by (auto simp: gos_read_def binding_valid_def credentialInRefs_iff split: if_splits option.splits)
    moreover have "?out = (case gos_hit (ttl e) now key c st of Some s \<Rightarrow> gos_ok c False
        | None \<Rightarrow> fst (gos_full (ttl e) now w key st))"
      using assms(2) st(2) Some
      by (auto simp: st_GetOrSelect_def gos_sections_def credCount_def map_prod_def split: prod.split option.split)
    ultimately show ?thesis using gos_full_serves [OF inv, of now key "ttl e" w] by (auto simp: served_def split: option.split)
  qed
  have eq: "fst (GetOrSelect e now w m key) = ?out" using st(1) by (simp add: GetOrSelect_def case_prod_beta)
  show "gos_err (fst (GetOrSelect e now w m key)) = None" "out_id (fst (GetOrSelect e now w m key)) \<in> CredentialID ` set (engine_refs e m)"
    using ok st(2) by (simp_all add: eq)
  then show "out_id (fst (GetOrSelect e now w m key)) \<noteq> []" using assms(3) by (auto simp: refs_valid_def)
qed

section \<open>Runs of the manager\<close>

text \<open>A driver may fail and break off at will, but it returns rows of the table.\<close>

definition returns_rows :: "driver \<Rightarrow> bool" where
  "returns_rows d \<longleftrightarrow> (\<forall>q rows. mset (arrange d q rows) = mset rows) \<and> (\<forall>crows. mset (arrange_creds d crows) = mset crows)"

definition boots :: "driver \<Rightarrow> bool" where
  "boots d \<longleftrightarrow> answers d SelectAllModels \<and> breaks d SelectAllModels = None"

text \<open>One operation of the manager, with the identifiers whose row it has written and told the engine about.\<close>

inductive store_step :: "world \<Rightarrow> string set \<Rightarrow> ModelsManager \<Rightarrow> ModelsManager \<Rightarrow> bool" for w where
  st_add: "returns_rows d \<Longrightarrow> row_fits (float_text d) m \<Longrightarrow> AddModel_db w d m mm = (v, mm') \<Longrightarrow>
     store_step w (if v = Accepted then {ID m} else {}) mm mm'"
| st_update: "returns_rows d \<Longrightarrow> row_fits (float_text d) m \<Longrightarrow> UpdateModel_db w d i m mm = (v, mm') \<Longrightarrow>
     store_step w (if v = Accepted then {i} else {}) mm mm'"
| st_remove: "returns_rows d \<Longrightarrow> RemoveModel_db d i mm = (v, mm') \<Longrightarrow>
     store_step w (if v = Accepted then {i} else {}) mm mm'"
| st_add_cred: "store_step w {} mm (snd (AddCredential_db w d c mm))"
| st_update_cred: "store_step w {} mm (snd (UpdateCredential_db w d i c mm))"
| st_remove_cred: "store_step w {} mm (snd (RemoveCredential_db d i mm))"
| st_resolve: "store_step w {} mm (snd (ResolveInternalConfigWithAffinity_db w d now u u' i key mm))"
| st_resolve_cached: "store_step w {} mm (snd (ResolveInternalConfigWithAffinityCached cached now u u' key lookup mm))"
| st_publish: "store_step w {} mm (mm\<lparr>eventBus := map_option (Publish evt) (eventBus mm)\<rparr>)"
| st_exclude: "store_step w {} mm (mm\<lparr>lbEngine := map_option (\<lambda>e. snd (ExcludeAndReselect e now u i key excl ra)) (lbEngine mm)\<rparr>)"
| st_sweep: "store_step w {} mm (mm\<lparr>lbEngine := map_option (\<lambda>e. if stopped e then e else sweepOnce e now) (lbEngine mm)\<rparr>)"
| st_close: "store_step w {} mm (Close_db mm)"

text \<open>
  The manager with its drain loop: the loop waits, is about to read a row, or is about to tell the engine
  what it has read, with whether the read was answered and whether a write of that row has come between.
  \<open>behind\<close> collects the identifiers about which the engine may be wrong: all rows when the scan at boot
  failed; a row whose re-read failed or was overtaken. A write of the row or a later re-read that is
  answered and not overtaken takes the identifier out.
\<close>

datatype drain_phase = DWait | DRead string | DTell string "CredentialRef list" bool bool

record store_sys =
  mgr :: ModelsManager
  drain_at :: drain_phase
  behind :: "string set"

fun overtake :: "string set \<Rightarrow> drain_phase \<Rightarrow> drain_phase" where
  "overtake W (DTell i refs ok late) = DTell i refs ok (late \<or> i \<in> W)"
| "overtake W p = p"

definition drain_on :: "busEvent \<Rightarrow> drain_phase" where
  "drain_on evt = (case drain_target evt of None \<Rightarrow> DWait | Some i \<Rightarrow> DRead i)"

inductive sys_step :: "world \<Rightarrow> store_sys \<Rightarrow> store_sys \<Rightarrow> bool" for w where
  sys_op: "store_step w W (mgr s) mm' \<Longrightarrow>
     sys_step w s (s\<lparr>mgr := mm', drain_at := overtake W (drain_at s), behind := behind s - W\<rparr>)"
| sys_receive: "drain_at s = DWait \<Longrightarrow> receive_event (mgr s) = Some (evt, mm') \<Longrightarrow>
     sys_step w s (s\<lparr>mgr := mm', drain_at := drain_on evt\<rparr>)"
| sys_leftover: "drain_at s = DWait \<Longrightarrow> once_done (mgr s) \<Longrightarrow> sys_step w s (s\<lparr>drain_at := drain_on evt\<rparr>)"
| sys_read: "drain_at s = DRead i \<Longrightarrow>
     sys_step w s (s\<lparr>drain_at := DTell i (drain_refs d (mgr s) i) (answers d (SelectModel i)) False\<rparr>)"
| sys_tell: "drain_at s = DTell i refs ok late \<Longrightarrow>
     sys_step w s (s\<lparr>mgr := on_model_changed i refs (mgr s), drain_at := DWait,
       behind := (if ok \<and> \<not> late then behind s - {i} else insert i (behind s))\<rparr>)"

inductive store_reachable :: "world \<Rightarrow> store_sys \<Rightarrow> bool" for w where
  st_new: "returns_rows d \<Longrightarrow> distinct (map d_ID tm) \<Longrightarrow>
     store_reachable w \<lparr>mgr = NewModelsManager d tm tc b, drain_at = DWait,
       behind = (if boots d then {} else d_ID ` set tm)\<rparr>"
| st_more: "store_reachable w s \<Longrightarrow> sys_step w s s' \<Longrightarrow> store_reachable w s'"

definition claim_justified :: "ModelsManager \<Rightarrow> bool" where
  "claim_justified mm \<longleftrightarrow>
     (\<forall>i g. fmlookup (mclaims mm) i = Some g \<longrightarrow>
        i \<noteq> [] \<and> (\<exists>r \<in> set (tmodels mm). d_ID r = g \<and> d_Kind r = KindGroup \<and> isEnabled r \<and> d_ShadowModelID r = i))"

definition store_inv :: "string set \<Rightarrow> ModelsManager \<Rightarrow> bool" where
  "store_inv B mm \<longleftrightarrow> ids_distinct mm \<and> coherent B mm \<and> claim_justified mm"

section \<open>Every operation keeps the invariant\<close>

lemma claim_rows_Some:
  "fmlookup (claim_rows cl rs) i = Some g \<Longrightarrow>
     (\<exists>r \<in> set rs. d_ShadowModelID r = i \<and> i \<noteq> [] \<and> d_ID r = g) \<or> fmlookup cl i = Some g"
  by (induction rs arbitrary: cl) (fastforce split: if_splits)+

lemma rebuild_frame [simp]:
  "tmodels (rebuildClaimsLocked_db d mm) = tmodels mm" "tcreds (rebuildClaimsLocked_db d mm) = tcreds mm"
  "lbEngine (rebuildClaimsLocked_db d mm) = lbEngine mm" "groupEngine (rebuildClaimsLocked_db d mm) = groupEngine mm"
  "eventBus (rebuildClaimsLocked_db d mm) = eventBus mm" "subCh (rebuildClaimsLocked_db d mm) = subCh mm"
  by (simp_all add: rebuildClaimsLocked_db_def Let_def)

lemma where_group_isEnabled: "where_group dl r \<Longrightarrow> d_Kind r = KindGroup \<and> isEnabled r"
  by (auto simp: where_group_def where_enabled_def isEnabled_def split: if_splits)

lemma arrange_set: "returns_rows d \<Longrightarrow> set (arrange d q rows) = set rows"
  unfolding returns_rows_def by (metis set_mset_mset)

lemma rebuild_justified: "returns_rows d \<Longrightarrow> claim_justified (rebuildClaimsLocked_db d mm)"
proof -
  assume d: "returns_rows d"
  let ?rows = "arrange d SelectClaims (filter (where_group (dialect d)) (tmodels mm))"
  have sub: "set (take n ?rows) \<subseteq> set ?rows" for n by (rule set_take_subset)
  have s: "set ?rows = {r \<in> set (tmodels mm). where_group (dialect d) r}" using arrange_set [OF d] by simp
  show ?thesis
    using sub s by (fastforce simp: claim_justified_def rebuildClaimsLocked_db_def Let_def
        dest!: claim_rows_Some dest: where_group_isEnabled split: option.splits)
qed

lemma publish_frame [simp]:
  "tmodels (publishCredentialsChanged i mm) = tmodels mm" "tcreds (publishCredentialsChanged i mm) = tcreds mm"
  "lbEngine (publishCredentialsChanged i mm) = lbEngine mm" "mclaims (publishCredentialsChanged i mm) = mclaims mm"
  by (simp_all add: publishCredentialsChanged_def split: option.split)

lemma after_write_frame [simp]:
  "tmodels (after_write d m mm) = tmodels mm" "tcreds (after_write d m mm) = tcreds mm"
  "lbEngine (after_write d m mm) = map_option (\<lambda>e. OnModelChanged e (ID m) (Credentials m)) (lbEngine mm)"
  by (simp_all add: after_write_def notifyGroupEngineLocked_def on_group_changed_def on_model_changed_def)

lemma claim_justified_cong:
  "mclaims mm' = mclaims mm \<Longrightarrow> tmodels mm' = tmodels mm \<Longrightarrow> claim_justified mm' = claim_justified mm"
  by (simp add: claim_justified_def)

lemma after_write_justified: "returns_rows d \<Longrightarrow> claim_justified (after_write d m mm)"
  using rebuild_justified [of d "publishCredentialsChanged (ID m) (on_model_changed (ID m) (Credentials m) mm)"]
  by (auto simp: after_write_def notifyGroupEngineLocked_def on_group_changed_def elim: claim_justified_cong [THEN iffD2, rotated 2])

lemma refs_of_insert:
  "row_fits fmt m \<Longrightarrow> refs_of (insert_row (bound_row dl fmt m) rows) i = (if i = ID m then Credentials m else refs_of rows i)"
  by (auto simp: refs_of_def find_row_insert bound_row_def row_fits_def list_all_iff parse_credentials)

lemma refs_of_update:
  "row_fits fmt m \<Longrightarrow> find_row j rows \<noteq> None \<Longrightarrow>
     refs_of (update_row j (bound_row dl fmt m) rows) i = (if i = j then Credentials m else refs_of rows i)"
  by (auto simp: refs_of_def find_row_update bound_row_def row_fits_def list_all_iff parse_credentials)

lemma refs_of_delete: "refs_of (delete_row j rows) i = (if i = j then [] else refs_of rows i)"
  by (simp add: refs_of_def find_row_delete)

lemma coherent_changed:
  assumes "coherent B mm" "lbEngine mm' = map_option (\<lambda>e. OnModelChanged e j refs) (lbEngine mm)"
    and "\<And>i. refs_of (tmodels mm') i = (if i = j then refs else refs_of (tmodels mm) i)"
  shows "coherent (B - {j}) mm'"
  using assms by (auto simp: coherent_def engine_inv_changed split: option.splits)

lemma coherent_engine:
  assumes "coherent B mm" "tmodels mm' = tmodels mm" "lbEngine mm' = map_option f (lbEngine mm)"
    and "\<And>e. engine_inv e \<Longrightarrow> engine_inv (f e)" "\<And>e i. engine_refs (f e) i = engine_refs e i"
  shows "coherent B mm'"
  using assms by (auto simp: coherent_def split: option.splits)

lemma coherent_upd [simp]:
  "coherent B (mm\<lparr>tcreds := cs\<rparr>) = coherent B mm" "coherent B (mm\<lparr>eventBus := bs\<rparr>) = coherent B mm"
  "coherent B (mm\<lparr>subCh := ch\<rparr>) = coherent B mm" "coherent B (mm\<lparr>groupEngine := ge\<rparr>) = coherent B mm"
  by (simp_all add: coherent_def cong: option.case_cong)

lemma store_inv_upd [simp]:
  "store_inv B (mm\<lparr>tcreds := cs\<rparr>) = store_inv B mm" "store_inv B (mm\<lparr>eventBus := bs\<rparr>) = store_inv B mm"
  "store_inv B (mm\<lparr>subCh := ch\<rparr>) = store_inv B mm" "store_inv B (mm\<lparr>groupEngine := ge\<rparr>) = store_inv B mm"
  by (simp_all add: store_inv_def ids_distinct_def claim_justified_def)

lemma add_inv:
  assumes "returns_rows d" "row_fits (float_text d) m" "store_inv B mm" "AddModel_db w d m mm = (v, mm')"
  shows "store_inv (B - (if v = Accepted then {ID m} else {})) mm'"
proof -
  let ?m = "m\<lparr>Internal := True\<rparr>"
  let ?mm = "mm\<lparr>tmodels := insert_row (bound_row (dialect d) (float_text d) ?m) (tmodels mm)\<rparr>"
  have fits: "row_fits (float_text d) ?m" using assms(2) by (simp add: row_fits_def)
  have "coherent (B - {ID m}) (after_write d ?m ?mm)"
    by (rule coherent_changed [of B mm _ "ID m" "Credentials m"])
      (use assms(3) refs_of_insert [OF fits] in \<open>auto simp: store_inv_def\<close>)
  then have "store_inv (B - {ID m}) (after_write d ?m ?mm)"
    using assms(1,3) by (auto simp: store_inv_def ids_distinct_def distinct_insert after_write_justified)
  then show ?thesis using assms(3,4) by (auto simp: AddModel_db_def Let_def split: option.splits if_splits)
qed

lemma update_inv:
  assumes "returns_rows d" "row_fits (float_text d) m" "store_inv B mm" "UpdateModel_db w d i m mm = (v, mm')"
  shows "store_inv (B - (if v = Accepted then {i} else {})) mm'"
proof -
  let ?m = "m\<lparr>Internal := True\<rparr>"
  let ?mm = "mm\<lparr>tmodels := update_row i (bound_row (dialect d) (float_text d) ?m) (tmodels mm)\<rparr>"
  have fits: "row_fits (float_text d) ?m" using assms(2) by (simp add: row_fits_def)
  have "store_inv (B - {i}) (after_write d ?m ?mm)" if i: "ID m = i" "row_found d mm i"
  proof -
    have "coherent (B - {i}) (after_write d ?m ?mm)"
      by (rule coherent_changed [of B mm _ i "Credentials m"])
        (use assms(3) refs_of_update [OF fits, of i "tmodels mm"] i in \<open>auto simp: store_inv_def row_found_def\<close>)
    then show ?thesis
      using assms(1,3) i by (auto simp: store_inv_def ids_distinct_def distinct_update after_write_justified)
  qed
  then show ?thesis using assms(3,4) by (auto simp: UpdateModel_db_def Let_def split: option.splits if_splits)
qed

lemma remove_inv:
  assumes "returns_rows d" "store_inv B mm" "RemoveModel_db d i mm = (v, mm')"
  shows "store_inv (B - (if v = Accepted then {i} else {})) mm'"
proof -
  let ?mm = "rebuildClaimsLocked_db d (on_model_changed i [] (mm\<lparr>tmodels := delete_row i (tmodels mm)\<rparr>))"
  have "coherent (B - {i}) ?mm"
    by (rule coherent_changed [of B mm _ i "[]"]) (use assms(2) refs_of_delete in \<open>auto simp: store_inv_def on_model_changed_def\<close>)
  then have "store_inv (B - {i}) ?mm"
    using assms(1,2) by (auto simp: store_inv_def ids_distinct_def distinct_delete rebuild_justified on_model_changed_def)
  moreover have "store_inv (B - {i}) (on_group_changed i [] ?mm)" using calculation by (simp add: on_group_changed_def)
  ultimately show ?thesis using assms(2,3) by (auto simp: RemoveModel_db_def Let_def split: option.splits if_splits)
qed

lemma store_inv_cong:
  assumes "tmodels mm' = tmodels mm" "mclaims mm' = mclaims mm" "coherent B mm \<Longrightarrow> coherent B' mm'" "store_inv B mm"
  shows "store_inv B' mm'"
  using assms by (simp add: store_inv_def ids_distinct_def claim_justified_def)

lemma resolve_coherent: "coherent B mm \<Longrightarrow> coherent B (snd (ResolveInternalConfigWithAffinity_db w d now u u' i key mm))"
proof -
  assume c: "coherent B mm"
  show ?thesis
  proof (cases "lbEngine mm")
    case (Some e)
    have "coherent B (mm\<lparr>lbEngine := Some (snd (GetOrSelect e now u i key))\<rparr>)"
      "coherent B (mm\<lparr>lbEngine := Some (heal_engine now u' i key c' (snd (GetOrSelect e now u i key)))\<rparr>)" for c'
      using c Some by (simp_all add: coherent_def engine_inv_GetOrSelect heal_inv)
    then show ?thesis using c Some
      by (auto simp: ResolveInternalConfigWithAffinity_db_def case_prod_beta Let_def split: option.split)
  qed (use c in \<open>simp add: ResolveInternalConfigWithAffinity_db_def split: option.split\<close>)
qed

lemma cached_coherent: "coherent B mm \<Longrightarrow> coherent B (snd (ResolveInternalConfigWithAffinityCached cached now u u' key lookup mm))"
proof -
  assume c: "coherent B mm"
  show ?thesis
  proof (cases "lbEngine mm")
    case (Some e)
    have "coherent B (mm\<lparr>lbEngine := Some (snd (GetOrSelect e now u i key))\<rparr>)"
      "coherent B (mm\<lparr>lbEngine := Some (heal_engine now u' i key c' (snd (GetOrSelect e now u i key)))\<rparr>)" for i c'
      using c Some by (simp_all add: coherent_def engine_inv_GetOrSelect heal_inv)
    then show ?thesis using c Some
      by (auto simp: ResolveInternalConfigWithAffinityCached_def case_prod_beta Let_def split: option.split)
  qed (use c in \<open>simp add: ResolveInternalConfigWithAffinityCached_def split: option.split\<close>)
qed

lemma resolve_tables [simp]:
  "tmodels (snd (ResolveInternalConfigWithAffinity_db w d now u u' i key mm)) = tmodels mm"
  "mclaims (snd (ResolveInternalConfigWithAffinity_db w d now u u' i key mm)) = mclaims mm"
  "tmodels (snd (ResolveInternalConfigWithAffinityCached cached now u u' key lookup mm)) = tmodels mm"
  "mclaims (snd (ResolveInternalConfigWithAffinityCached cached now u u' key lookup mm)) = mclaims mm"
  by (auto simp: ResolveInternalConfigWithAffinity_db_def ResolveInternalConfigWithAffinityCached_def case_prod_beta Let_def
      split: option.split)

lemma store_step_inv:
  assumes "store_step w W mm mm'" "store_inv B mm"
  shows "store_inv (B - W) mm'"
  using assms
proof (induction rule: store_step.induct)
  case (st_add d m mm v mm')
  then show ?case by (intro add_inv)
next
  case (st_update d m i mm v mm')
  then show ?case by (intro update_inv)
next
  case (st_remove d i mm v mm')
  then show ?case by (intro remove_inv)
next
  case (st_add_cred mm d c)
  then show ?case
    by (auto simp: AddCredential_db_def split: verdict.split option.split)
next
  case (st_update_cred mm d i c)
  then show ?case
    by (auto simp: UpdateCredential_db_def split: verdict.split option.split)
next
  case (st_remove_cred mm d i)
  have "coherent B (mm\<lparr>tcreds := cs, lbEngine := map_option (\<lambda>e. OnCredentialDeleted e i) (lbEngine mm)\<rparr>)"
    if "coherent B mm" for cs
    by (rule coherent_engine [OF that _ _ engine_inv_more(1) engine_refs_deleted]) simp_all
  with st_remove_cred show ?case
    by (auto simp: RemoveCredential_db_def Let_def store_inv_def ids_distinct_def claim_justified_def split: option.split)
next
  case (st_resolve mm d now u u' i key)
  show ?case using store_inv_cong [OF resolve_tables(1,2) resolve_coherent st_resolve] by simp
next
  case (st_resolve_cached mm cached now u u' key lookup)
  show ?case using store_inv_cong [OF resolve_tables(3,4) cached_coherent st_resolve_cached] by simp
next
  case (st_publish mm evt)
  then show ?case by simp
next
  case (st_exclude mm now u i key excl ra)
  have "coherent B mm \<Longrightarrow> coherent B (mm\<lparr>lbEngine := map_option (\<lambda>e. snd (ExcludeAndReselect e now u i key excl ra)) (lbEngine mm)\<rparr>)"
    by (erule coherent_engine [OF _ _ _ engine_inv_exclude engine_refs_exclude]) simp_all
  from store_inv_cong [OF _ _ this st_exclude] show ?case by simp
next
  case (st_sweep mm now)
  let ?f = "\<lambda>e. if stopped e then e else sweepOnce e now"
  have refs: "engine_refs (?f e) i = engine_refs e i" for e i
    by (auto simp: engine_refs_def sweepOnce_def sweep_state_def split: option.split)
  have inv: "engine_inv e \<Longrightarrow> engine_inv (?f e)" for e
    using engine_step_inv [OF step_sweep] by auto
  have "coherent B mm \<Longrightarrow> coherent B (mm\<lparr>lbEngine := map_option ?f (lbEngine mm)\<rparr>)"
    by (erule coherent_engine [OF _ _ _ inv refs]) simp_all
  from store_inv_cong [OF _ _ this st_sweep] show ?case by simp
next
  case (st_close mm)
  have "coherent B mm \<Longrightarrow> coherent B (Close_db mm)"
    by (cases "once_done mm")
      (simp add: Close_db_def, erule coherent_engine [OF _ _ _ engine_inv_more(2) engine_refs_Stop], simp_all add: Close_db_def)
  from store_inv_cong [OF _ _ this st_close] show ?case by (simp add: Close_db_def)
qed

text \<open>What an operation does not declare as written keeps its credential list.\<close>

lemma store_step_refs:
  assumes "store_step w W mm mm'" "i \<notin> W"
  shows "refs_of (tmodels mm') i = refs_of (tmodels mm) i"
  using assms
proof (induction rule: store_step.induct)
  case (st_add d m mm v mm')
  then show ?case
    by (auto simp: AddModel_db_def Let_def refs_of_def find_row_insert bound_row_def split: option.splits if_splits)
next
  case (st_update d m j mm v mm')
  then show ?case
    by (auto simp: UpdateModel_db_def Let_def refs_of_def find_row_update row_found_def split: option.splits if_splits)
next
  case (st_remove d j mm v mm')
  then show ?case
    by (auto simp: RemoveModel_db_def Let_def refs_of_delete on_group_changed_def on_model_changed_def split: option.splits if_splits)
next
  case (st_add_cred mm d c)
  then show ?case by (simp add: AddCredential_db_def split: verdict.split option.split)
next
  case (st_update_cred mm d j c)
  then show ?case by (simp add: UpdateCredential_db_def split: verdict.split option.split)
next
  case (st_remove_cred mm d j)
  then show ?case by (simp add: RemoveCredential_db_def Let_def split: option.split)
qed (simp_all add: Close_db_def)

lemma receive_frame:
  assumes "receive_event mm = Some (evt, mm')"
  shows "store_inv B mm' = store_inv B mm" "tmodels mm' = tmodels mm"
  using assms by (auto simp: receive_event_def split: option.splits list.splits)

text \<open>A re-read that is answered gives the credential list of the row.\<close>

lemma drain_refs_answered: "answers d (SelectModel i) \<Longrightarrow> drain_refs d mm i = refs_of (tmodels mm) i"
  by (simp add: drain_refs_def GetModelNative_db_def getModelRowByID_def refs_of_def dbModelRowToConfig_def split: option.split)

definition drain_inv :: "store_sys \<Rightarrow> bool" where
  "drain_inv s \<longleftrightarrow>
     (\<forall>i refs ok late. drain_at s = DTell i refs ok late \<and> ok \<and> \<not> late \<longrightarrow> refs = refs_of (tmodels (mgr s)) i)"

lemma tell_inv:
  assumes "store_inv B mm"
  shows "store_inv (insert i B) (on_model_changed i refs mm)"
    "refs = refs_of (tmodels mm) i \<Longrightarrow> store_inv (B - {i}) (on_model_changed i refs mm)"
proof -
  have f: "tmodels (on_model_changed i refs mm) = tmodels mm" "mclaims (on_model_changed i refs mm) = mclaims mm"
    by (simp_all add: on_model_changed_def)
  show "store_inv (insert i B) (on_model_changed i refs mm)"
    by (rule store_inv_cong [OF f _ assms])
      (auto simp: coherent_def on_model_changed_def engine_inv_changed split: option.splits)
  show "store_inv (B - {i}) (on_model_changed i refs mm)" if "refs = refs_of (tmodels mm) i"
    by (rule store_inv_cong [OF f _ assms], rule coherent_changed)
      (use that in \<open>auto simp: on_model_changed_def\<close>)
qed

lemma sys_step_inv:
  assumes "sys_step w s s'" "store_inv (behind s) (mgr s)" "drain_inv s"
  shows "store_inv (behind s') (mgr s') \<and> drain_inv s'"
  using assms
proof (induction rule: sys_step.induct)
  case (sys_op W s mm')
  have "drain_inv (s\<lparr>mgr := mm', drain_at := overtake W (drain_at s), behind := behind s - W\<rparr>)"
    using sys_op(3) store_step_refs [OF sys_op(1)] by (cases "drain_at s") (auto simp: drain_inv_def)
  then show ?case using store_step_inv [OF sys_op(1,2)] by simp
next
  case (sys_receive s evt mm')
  then show ?case using receive_frame [OF sys_receive(2)] by (auto simp: drain_inv_def drain_on_def split: option.splits)
next
  case (sys_leftover s evt)
  then show ?case by (auto simp: drain_inv_def drain_on_def split: option.splits)
next
  case (sys_read s i d)
  then show ?case using drain_refs_answered by (auto simp: drain_inv_def)
next
  case (sys_tell s i refs ok late)
  then show ?case using tell_inv [OF sys_tell(2), where i = i and refs = refs] by (auto simp: drain_inv_def)
qed

lemma seed_refs:
  "distinct (map ID ms) \<Longrightarrow> engine_refs (seed_engine ms e) i =
     (case List.find (\<lambda>m. ID m = i) ms of Some m \<Rightarrow> Credentials m | None \<Rightarrow> engine_refs e i)"
proof (induction ms arbitrary: e)
  case (Cons m ms)
  have "ID m \<notin> ID ` set ms" using Cons.prems by simp
  then have "List.find (\<lambda>m'. ID m' = ID m) ms = None" by (auto simp: find_None_iff image_iff)
  then show ?case using Cons by (auto simp: seed_engine_def split: option.split)
qed (simp add: seed_engine_def)

lemma seed_inv: "engine_inv e \<Longrightarrow> engine_inv (seed_engine ms e)"
  by (induction ms arbitrary: e) (simp_all add: seed_engine_def engine_inv_rebind)

lemma find_permuted:
  assumes "mset xs = mset ys" "distinct (map f ys)"
  shows "List.find (\<lambda>x. f x = i) xs = List.find (\<lambda>x. f x = i) ys"
proof -
  have d: "distinct (map f xs)" using assms by (metis distinct_count_atmost_1 mset_map set_mset_mset)
  have s: "set xs = set ys" using assms(1) by (metis set_mset_mset)
  have *: "distinct (map f zs) \<Longrightarrow> List.find (\<lambda>x. f x = i) zs = Some x \<longleftrightarrow> x \<in> set zs \<and> f x = i" for zs x
    by (induction zs) (auto simp: image_iff)
  then show ?thesis using d s assms(2) by (metis (no_types, lifting) option.exhaust option.inject)
qed

lemma new_manager_inv:
  assumes "returns_rows d" "distinct (map d_ID tm)"
  shows "store_inv (if boots d then {} else d_ID ` set tm) (NewModelsManager d tm tc b)"
proof -
  let ?B = "if boots d then {} else d_ID ` set tm"
  let ?ms = "map dbModelRowToConfig (arrange d SelectAllModels tm)"
  let ?e0 = "NewEngine DefaultBindingTTL DefaultSweepInterval DefaultCooldown"
  have perm: "mset (arrange d SelectAllModels tm) = mset tm"
    using assms(1) by (auto simp: returns_rows_def)
  have ids: "map ID ?ms = map d_ID (arrange d SelectAllModels tm)" by (simp add: dbModelRowToConfig_def)
  have dist: "distinct (map ID ?ms)" unfolding ids
    using perm assms(2) by (metis distinct_count_atmost_1 mset_map set_mset_mset)
  have find: "List.find (\<lambda>m. ID m = i) ?ms = map_option dbModelRowToConfig (find_row i tm)" for i
  proof -
    have "List.find (\<lambda>m. ID m = i) (map dbModelRowToConfig rows) = map_option dbModelRowToConfig (find_row i rows)" for rows
      by (induction rows) (simp_all add: find_row_def dbModelRowToConfig_def)
    then show ?thesis using find_permuted [OF perm assms(2), of i] by (simp add: find_row_def)
  qed
  have e0: "engine_inv ?e0" "engine_refs ?e0 i = []" for i
    by (simp_all add: engine_inv_def engine_refs_def NewEngine_def)
  have refs: "engine_refs (seed_engine ?ms ?e0) i = refs_of tm i" for i
    by (simp add: seed_refs [OF dist] find e0(2) refs_of_def dbModelRowToConfig_def split: option.split)
  have none: "refs_of tm i = []" if "i \<notin> d_ID ` set tm" for i
    using that by (auto simp: refs_of_def dest: find_row_Some split: option.split)
  have ms: "GetModels_db d mm = (if boots d then ?ms else [])" if "tmodels mm = tm" for mm
    using that by (auto simp: GetModels_db_def scanModels_def boots_def)
  have "store_inv ?B (rebuildClaimsLocked_db d mm1)"
    if "tmodels mm1 = tm" "lbEngine mm1 = Some (seed_engine (if boots d then ?ms else []) ?e0)" for mm1
  proof -
    have "engine_inv (seed_engine (if boots d then ?ms else []) ?e0)" by (rule seed_inv [OF e0(1)])
    moreover have "engine_refs (seed_engine (if boots d then ?ms else []) ?e0) i = refs_of tm i" if "i \<notin> ?B" for i
      using that refs none e0(2) by (auto simp: seed_engine_def split: if_splits)
    ultimately show ?thesis
      using that assms(2) rebuild_justified [OF assms(1)] by (simp add: store_inv_def ids_distinct_def coherent_def)
  qed
  then show ?thesis
    by (cases "boots d") (simp_all add: NewModelsManager_def Let_def ms split: option.split prod.split)
qed

lemma store_reachable_inv: "store_reachable w s \<Longrightarrow> store_inv (behind s) (mgr s) \<and> drain_inv s"
proof (induction rule: store_reachable.induct)
  case (st_new d tm tc b)
  then show ?case using new_manager_inv [OF st_new] by (simp add: drain_inv_def)
next
  case (st_more s s')
  then show ?case using sys_step_inv by blast
qed

text \<open>A turn of the loop that nothing interrupts is \<open>drainCredentialsChanged\<close>, whatever its read returns.\<close>

lemma drain_turn:
  assumes "store_reachable w s" "drain_at s = DWait"
  shows "\<exists>s'. store_reachable w s' \<and> drain_at s' = DWait \<and> mgr s' = drainCredentialsChanged d (mgr s)"
proof (cases "receive_event (mgr s)")
  case None
  then show ?thesis using assms by (auto simp: drainCredentialsChanged_def)
next
  case (Some r)
  obtain evt mm' where r: "receive_event (mgr s) = Some (evt, mm')" using Some by (cases r) auto
  let ?s1 = "s\<lparr>mgr := mm', drain_at := drain_on evt\<rparr>"
  have s1: "store_reachable w ?s1" using st_more [OF assms(1)] sys_receive [OF assms(2) r] by blast
  have mm: "drainCredentialsChanged d (mgr s) = handle_event d evt mm'" by (simp add: drainCredentialsChanged_def r)
  show ?thesis
  proof (cases "drain_target evt")
    case None
    then show ?thesis using s1 mm by (intro exI [of _ ?s1]) (simp add: handle_event_def drain_on_def)
  next
    case (Some i)
    let ?s2 = "?s1\<lparr>drain_at := DTell i (drain_refs d (mgr ?s1) i) (answers d (SelectModel i)) False\<rparr>"
    let ?s3 = "?s2\<lparr>mgr := on_model_changed i (drain_refs d mm' i) (mgr ?s2), drain_at := DWait,
        behind := (if answers d (SelectModel i) \<and> \<not> False then behind ?s2 - {i} else insert i (behind ?s2))\<rparr>"
    have "store_reachable w ?s2" using st_more [OF s1] sys_read [of ?s1 i w d] Some by (simp add: drain_on_def)
    then have "store_reachable w ?s3" by (rule st_more) (rule sys_tell, simp)
    moreover have "mgr ?s3 = drainCredentialsChanged d (mgr s)" by (simp add: mm handle_event_def Some)
    ultimately show ?thesis by (intro exI [of _ ?s3]) simp
  qed
qed

section \<open>Examples\<close>

definition ex_driver :: driver where
  "ex_driver = \<lparr>dialect = SQLite, answers = \<lambda>_. True, breaks = \<lambda>_. None, arrange = \<lambda>_ rows. rows,
     arrange_creds = \<lambda>crows. crows, float_text = \<lambda>_. ''1''\<rparr>"

definition ex_cred_row :: "string \<Rightarrow> dbCredentialRow" where
  "ex_cred_row i = \<lparr>k_ID = i, k_Provider = ''openai'', k_APIKey = ''ek'', k_BaseURL = ''http://u''\<rparr>"

definition ex_rows :: "dbModelRow list" where
  "ex_rows = [bound_row SQLite (\<lambda>_. ''1'') (ex_model ''m'' [''c1'', ''c2''])]"

definition ex_store :: ModelsManager where
  "ex_store = NewModelsManager ex_driver ex_rows [ex_cred_row ''c1'', ex_cred_row ''c2''] None"

definition ex_sys :: store_sys where
  "ex_sys = \<lparr>mgr = ex_store, drain_at = DWait, behind = {}\<rparr>"

lemma ex_sys_reachable: "store_reachable w ex_sys"
  using st_new [of ex_driver ex_rows w "[ex_cred_row ''c1'', ex_cred_row ''c2'']" None]
  by (simp add: boots_def returns_rows_def ex_driver_def ex_rows_def ex_sys_def ex_store_def)

lemma ex_store_tables: "tmodels ex_store = ex_rows" "tcreds ex_store = [ex_cred_row ''c1'', ex_cred_row ''c2'']"
  by (simp_all add: ex_store_def NewModelsManager_def Let_def)

lemma ex_fits: "valid_utf8 ''c1''" "valid_utf8 ''c2''" "valid_utf8 ''m''"
  by code_simp+

lemma ex_refs_of:
  assumes "set cs \<subseteq> {''c1'', ''c2''}"
  shows "refs_of [bound_row SQLite (\<lambda>_. ''1'') (ex_model ''m'' cs)] ''m'' = Credentials (ex_model ''m'' cs)"
proof -
  have "row_fits (\<lambda>_. ''1'') (ex_model ''m'' cs)"
    using assms by (auto simp: row_fits_def ex_model_def ref_fits_def ex_fits fits64_def list_all_iff)
  from refs_of_insert [OF this, of SQLite "[]" "''m''"] show ?thesis
    by (simp add: insert_row_def) (simp add: ex_model_def)
qed

lemma ex_refs: "refs_of ex_rows ''m'' = Credentials (ex_model ''m'' [''c1'', ''c2''])"
  unfolding ex_rows_def by (rule ex_refs_of) simp

lemma ex_refs_valid: "refs_valid (Credentials (ex_model ''m'' [''c1'', ''c2'']))"
  by (simp add: refs_valid_def ex_model_def fits64_def)

lemma ex_store_row: "\<exists>r. find_row ''m'' ex_rows = Some r \<and> isInternal r"
  by (simp add: ex_rows_def find_row_def) (simp add: ex_model_def)

section \<open>What holds in every state\<close>

text \<open>C6: rows, engine and claims stay together. Whatever statements fail, at boot, in operations and in the
  drain loop, and wherever writes come between the read of the drain loop and its call of the engine: the
  identifiers of the rows are distinct, every claim belongs to an enabled group that names the claimed
  model, and the balancing engine holds for every model exactly the credential list of its row, except
  those in \<open>behind\<close>. These are the rows that a failed scan at boot left out, and the identifiers whose
  last re-read by the drain loop failed or was overtaken by a write, until a write or a clean re-read
  (\<open>failed_drain_read_stops_model\<close> shows that the exception is real). Written models fit
  their columns (\<open>row_fits\<close>) and the driver returns the rows of the tables.\<close>

theorem store_state_coherent:
  assumes "store_reachable w s"
  shows "distinct (map d_ID (tmodels (mgr s)))
    \<and> (case lbEngine (mgr s) of None \<Rightarrow> True
       | Some e \<Rightarrow> \<forall>i. i \<notin> behind s \<longrightarrow> engine_refs e i = refs_of (tmodels (mgr s)) i)
    \<and> claim_justified (mgr s)"
  using store_reachable_inv [OF assms] by (auto simp: store_inv_def ids_distinct_def coherent_def split: option.split)

theorem store_state_coherent_witness:
  "case lbEngine (mgr ex_sys) of None \<Rightarrow> False
   | Some e \<Rightarrow> map CredentialID (engine_refs e ''m'') = [''c1'', ''c2'']"
proof -
  have "lbEngine ex_store \<noteq> None" by (simp add: ex_store_def NewModelsManager_def Let_def)
  moreover have "mgr ex_sys = ex_store" "behind ex_sys = {}" by (simp_all add: ex_sys_def)
  ultimately show ?thesis
    using store_state_coherent [OF ex_sys_reachable] ex_refs by (auto simp: ex_store_tables) (simp add: ex_model_def)
qed

lemma native_row: "answers d (SelectModel i) \<Longrightarrow> find_row i (tmodels mm) = Some r \<Longrightarrow>
    GetModelNative_db d mm i = Some (dbModelRowToConfig r) \<and> Credentials (dbModelRowToConfig r) = refs_of (tmodels mm) i
    \<and> Internal (dbModelRowToConfig r) = isInternal r"
  by (simp add: GetModelNative_db_def getModelRowByID_def refs_of_def dbModelRowToConfig_def)

lemma resolved_with_simps [simp]:
  "CredentialID_r (resolved_with m c now i b) = i" "Provider_r (resolved_with m c now i b) = Provider c"
  "NewlyBound (resolved_with m c now i b) = b"
  by (simp_all add: resolved_with_def resolveWithCredential_def Let_def)

lemma GetCredential_db_Some:
  "answers d (SelectCredential n i) \<Longrightarrow> find_cred i (tcreds mm) = Some k \<Longrightarrow>
     GetCredential_db w d n mm i = Some (decrypted w (row_credential k))"
  by (simp add: GetCredential_db_def)

text \<open>C7: a stored model is served. In every reachable state, an internal row that has credentials, all of
  positive weight and all stored, resolves for every conversation and draw to one of its own credentials,
  with the provider of that credential, provided that the row and its credentials can be read now and that
  the engine is not behind on it: it was not left out by a failed scan at boot and the last re-read of the
  drain loop, if any since its last write, neither failed nor was overtaken.\<close>

theorem stored_model_resolves:
  assumes "store_reachable w s" "mm = mgr s" "i \<notin> behind s" "find_row i (tmodels mm) = Some r" "isInternal r"
    and "refs_of (tmodels mm) i \<noteq> []" "refs_valid (refs_of (tmodels mm) i)"
    and "\<forall>c \<in> CredentialID ` set (refs_of (tmodels mm) i). find_cred c (tcreds mm) \<noteq> None \<and> answers d (SelectCredential 0 c)"
    and "answers d (SelectModel i)"
  shows "\<exists>rc k. fst (ResolveInternalConfigWithAffinity_db w d now u u' i key mm) = Some rc
    \<and> CredentialID_r rc \<in> CredentialID ` set (refs_of (tmodels mm) i)
    \<and> find_cred (CredentialID_r rc) (tcreds mm) = Some k \<and> Provider_r rc = k_Provider k"
proof -
  let ?m = "dbModelRowToConfig r" and ?refs = "refs_of (tmodels mm) i"
  have m: "GetModelNative_db d mm i = Some ?m" "Credentials ?m = ?refs" "Internal ?m"
    using native_row [OF assms(9,4)] assms(5) by simp_all
  have found: "\<exists>k. find_cred c (tcreds mm) = Some k \<and> GetCredential_db w d 0 mm c = Some (decrypted w (row_credential k))"
    if "c \<in> CredentialID ` set ?refs" for c
    using assms(8) that GetCredential_db_Some by fastforce
  have prov: "Provider (decrypted w (row_credential k)) = k_Provider k" for k
    by (simp add: decrypted_def row_credential_def split: option.split)
  have one: ?thesis if c: "c \<in> CredentialID ` set ?refs"
    and eq: "fst (ResolveInternalConfigWithAffinity_db w d now u u' i key mm)
      = (case GetCredential_db w d 0 mm c of None \<Rightarrow> None | Some cred \<Rightarrow> Some (resolved_with ?m cred now c b))" for c b
    using found [OF c] c eq prov by auto
  have hd: "PrimaryCredentialID ?m = CredentialID (hd ?refs)" "CredentialID (hd ?refs) \<in> CredentialID ` set ?refs"
    "CredentialID (hd ?refs) \<noteq> []"
    using assms(6,7) m(2) by (auto simp: PrimaryCredentialID_def refs_valid_def split: list.split)
  show ?thesis
  proof (cases "lbEngine mm")
    case None
    show ?thesis
      by (rule one [OF hd(2), of False], use None m hd in \<open>simp add: ResolveInternalConfigWithAffinity_db_def split: option.split\<close>)
  next
    case (Some e)
    have e: "engine_inv e" "engine_refs e i = ?refs"
      using store_reachable_inv [OF assms(1)] Some assms(2,3) by (simp_all add: store_inv_def coherent_def)
    show ?thesis
    proof (cases "length ?refs = 1")
      case True
      then have "?refs ! 0 = hd ?refs" using assms(6) by (simp add: hd_conv_nth)
      then show ?thesis
        by (intro one [OF hd(2), of False])
          (use Some m True in \<open>simp add: ResolveInternalConfigWithAffinity_db_def Let_def split: option.split\<close>)
    next
      case False
      then have "2 \<le> length ?refs" using assms(6) by (cases ?refs; cases "tl ?refs") auto
      note s = selection_serves [OF e(1), of i now u key, unfolded e(2), OF this assms(7)]
      show ?thesis
        by (rule one [OF s(2), of "newlyBound (fst (GetOrSelect e now u i key))"])
          (use Some m False assms(6) s in \<open>simp add: ResolveInternalConfigWithAffinity_db_def Let_def case_prod_beta split: option.split\<close>)
    qed
  qed
qed

theorem stored_model_resolves_witness:
  "case fst (ResolveInternalConfigWithAffinity_db ex_world ex_driver 0 7 0 ''m'' ''conv'' ex_store) of
     None \<Rightarrow> False | Some rc \<Rightarrow> CredentialID_r rc \<in> {''c1'', ''c2''} \<and> Provider_r rc = ''openai''"
proof -
  obtain r where r: "find_row ''m'' ex_rows = Some r" "isInternal r" using ex_store_row by blast
  have k: "find_cred c (tcreds ex_store) = Some (ex_cred_row c)" if "c \<in> {''c1'', ''c2''}" for c
    using that by (auto simp: ex_store_tables find_cred_def ex_cred_row_def)
  have c: "CredentialID ` set (refs_of (tmodels ex_store) ''m'') = {''c1'', ''c2''}" "refs_of (tmodels ex_store) ''m'' \<noteq> []"
    by (simp_all add: ex_store_tables ex_refs) (simp_all add: ex_model_def)
  have v: "refs_valid (refs_of (tmodels ex_store) ''m'')" by (simp add: ex_store_tables ex_refs ex_refs_valid)
  have d: "answers ex_driver q" for q by (simp add: ex_driver_def)
  have "\<forall>c \<in> CredentialID ` set (refs_of (tmodels ex_store) ''m''). find_cred c (tcreds ex_store) \<noteq> None \<and> answers ex_driver (SelectCredential 0 c)"
    unfolding c(1) using k d by blast
  moreover have "ex_store = mgr ex_sys" "''m'' \<notin> behind ex_sys" by (simp_all add: ex_sys_def)
  ultimately
  obtain rc k' where "fst (ResolveInternalConfigWithAffinity_db ex_world ex_driver 0 7 0 ''m'' ''conv'' ex_store) = Some rc"
    "CredentialID_r rc \<in> {''c1'', ''c2''}" "find_cred (CredentialID_r rc) (tcreds ex_store) = Some k'" "Provider_r rc = k_Provider k'"
    using stored_model_resolves [where w = ex_world and i = "''m''" and now = 0 and u = 7 and u' = 0 and key = "''conv''",
        OF ex_sys_reachable refl _ _ r(2) _ _ _ d]
      r(1) c v by (auto simp only: ex_store_tables(1))
  then show ?thesis using k [of "CredentialID_r rc"] by (auto simp: ex_cred_row_def)
qed

lemma resolver_variants:
  "ResolveInternalConfigWithAffinityCached (GetModelNative_db d mm i) now u u' key (GetCredential_db w d 0 mm) mm
     = ResolveInternalConfigWithAffinity_db w d now u u' i key mm"
proof (cases "GetModelNative_db d mm i")
  case (Some m)
  then have "ID m = i"
    by (auto simp: GetModelNative_db_def getModelRowByID_def dbModelRowToConfig_def dest!: find_row_Some split: if_splits)
  then show ?thesis using Some
    by (simp add: ResolveInternalConfigWithAffinityCached_def ResolveInternalConfigWithAffinity_db_def resolveSingle_def
        case_prod_beta Let_def split: option.split)
qed (simp add: ResolveInternalConfigWithAffinityCached_def ResolveInternalConfigWithAffinity_db_def)

text \<open>C11: the two resolvers are one. Given the row and the credentials that the database would return, the
  variant of the models cache gives the same answer and leaves the same engine.\<close>

theorem cached_resolver_agrees:
  "ResolveInternalConfigWithAffinityCached (GetModelNative_db d mm i) now u u' key (GetCredential_db w d 0 mm) mm
     = ResolveInternalConfigWithAffinity_db w d now u u' i key mm"
  by (rule resolver_variants)

section \<open>Failed reads\<close>

lemma unknown_model_fails:
  assumes "lbEngine mm = Some e" "fmlookup (models e) i = None" "2 \<le> length (refs_of (tmodels mm) i)"
  shows "fst (ResolveInternalConfigWithAffinity_db w d now u u' i key mm) = None"
proof -
  have "Credentials m = refs_of (tmodels mm) i" if "GetModelNative_db d mm i = Some m" for m
    using that by (auto simp: GetModelNative_db_def getModelRowByID_def refs_of_def dbModelRowToConfig_def split: if_splits)
  moreover have "GetOrSelect e now u i key = (gos_fail ErrNoCredentials, e)" using assms(2) by (simp add: GetOrSelect_def)
  ultimately show ?thesis using assms(1,3)
    by (auto simp: ResolveInternalConfigWithAffinity_db_def split: option.split)
qed

text \<open>One failed read of the drain loop stops a model. When the re-read of a row with several
  credentials fails, the loop drops the model from the engine although the row is there, and from
  then on the model resolves for no conversation, however well the database answers; only another
  write or event for the model restores it.\<close>

theorem failed_drain_read_stops_model:
  assumes "lbEngine mm = Some e" "2 \<le> length (refs_of (tmodels mm) i)" "i \<noteq> []"
    and "\<not> answers d (SelectModel i)" "evt = BusEvent EventCredentialsChanged (Some (Some i))"
  shows "tmodels (handle_event d evt mm) = tmodels mm \<and> tcreds (handle_event d evt mm) = tcreds mm
    \<and> fst (ResolveInternalConfigWithAffinity_db w d' now u u' i key (handle_event d evt mm)) = None"
proof -
  have eq: "handle_event d evt mm = mm\<lparr>lbEngine := Some (OnModelChanged e i [])\<rparr>"
    using assms by (simp add: handle_event_def drain_target_def drain_refs_def GetModelNative_db_def getModelRowByID_def
        on_model_changed_def)
  have "fst (ResolveInternalConfigWithAffinity_db w d' now u u' i key (handle_event d evt mm)) = None"
    unfolding eq
    by (rule unknown_model_fails [where e = "OnModelChanged e i []"]) (use assms(2) in \<open>simp_all add: OnModelChanged_def\<close>)
  then show ?thesis by (simp add: eq)
qed

theorem failed_drain_read_stops_model_witness:
  "fst (ResolveInternalConfigWithAffinity_db ex_world ex_driver 0 7 0 ''m'' ''conv''
      (handle_event (ex_driver\<lparr>answers := \<lambda>_. False\<rparr>) (BusEvent EventCredentialsChanged (Some (Some ''m''))) ex_store)) = None"
proof -
  obtain e where "lbEngine ex_store = Some e" by (simp add: ex_store_def NewModelsManager_def Let_def)
  moreover have "2 \<le> length (refs_of (tmodels ex_store) ''m'')" by (simp add: ex_store_tables ex_refs) (simp add: ex_model_def)
  ultimately show ?thesis
    using failed_drain_read_stops_model [of ex_store e "''m''" "ex_driver\<lparr>answers := \<lambda>_. False\<rparr>" _ ex_world ex_driver 0 7 0 "''conv''"]
    by simp
qed

text \<open>The drain loop and a removal: when a model is removed between the re-read of its row and the call of the
  engine, the engine keeps the credentials of a model that is gone. \<open>RemoveModel\<close> publishes no event, so
  no later turn of the loop takes them out.\<close>

theorem overtaken_reread_keeps_removed_model:
  assumes "store_reachable w s" "drain_at s = DTell i refs True False" "lbEngine (mgr s) = Some e"
    and "returns_rows d" "RemoveModel_db d i (mgr s) = (Accepted, mm')"
  shows "\<exists>s' e'. store_reachable w s' \<and> drain_at s' = DWait \<and> find_row i (tmodels (mgr s')) = None
    \<and> lbEngine (mgr s') = Some e' \<and> engine_refs e' i = refs"
proof -
  let ?s1 = "s\<lparr>mgr := mm', drain_at := DTell i refs True True, behind := behind s - {i}\<rparr>"
  let ?s2 = "?s1\<lparr>mgr := on_model_changed i refs mm', drain_at := DWait, behind := insert i (behind ?s1)\<rparr>"
  have row: "find_row i (tmodels mm') = None" and eng: "lbEngine mm' = Some (OnModelChanged e i [])"
    using assms(3,5)
    by (auto simp: RemoveModel_db_def Let_def on_model_changed_def on_group_changed_def find_row_delete split: option.splits if_splits)
  have "store_reachable w ?s1"
    using store_reachable.st_more [OF assms(1) sys_op [OF st_remove [OF assms(4,5)]]] assms(2) by simp
  from store_reachable.st_more [OF this sys_tell [of ?s1 i refs True True]]
  have "store_reachable w ?s2" by simp
  then show ?thesis
    using row eng by (intro exI [of _ ?s2]) (simp add: on_model_changed_def)
qed

text \<open>The in-use guard fails open. When the scan of the models fails, a credential is deleted although
  models use it, and a model whose only credential it was no longer resolves.\<close>

theorem failed_scan_deletes_used_credential:
  assumes "\<not> answers d SelectAllModels" "answers d DeleteCredentialStmt" "find_cred c (tcreds mm) \<noteq> None"
    and "refs_of (tmodels mm) i = [r]" "CredentialID r = c"
  shows "fst (RemoveCredential_db d c mm) = Accepted
    \<and> fst (ResolveInternalConfigWithAffinity_db w d' now u u' i key (snd (RemoveCredential_db d c mm))) = None"
proof -
  let ?mm = "mm\<lparr>tcreds := filter (\<lambda>r. k_ID r \<noteq> c) (tcreds mm), lbEngine := map_option (\<lambda>e. OnCredentialDeleted e c) (lbEngine mm)\<rparr>"
  have rm: "RemoveCredential_db d c mm = (Accepted, ?mm)"
    using assms(1-3) by (simp add: RemoveCredential_db_def scanModels_def)
  have gone: "GetCredential_db w d' n ?mm c = None" for n
  proof -
    have "find_cred c (filter (\<lambda>r. k_ID r \<noteq> c) (tcreds mm)) = None" by (auto simp: find_cred_def find_None_iff)
    then show ?thesis by (simp add: GetCredential_db_def)
  qed
  have "Credentials m = [r]" if "GetModelNative_db d' ?mm i = Some m" for m
    using that assms(4) by (auto simp: GetModelNative_db_def getModelRowByID_def refs_of_def dbModelRowToConfig_def split: if_splits)
  then have "fst (ResolveInternalConfigWithAffinity_db w d' now u u' i key ?mm) = None"
    using gone assms(5)
    by (auto simp: ResolveInternalConfigWithAffinity_db_def PrimaryCredentialID_def Let_def split: option.split)
  then show ?thesis by (simp add: rm)
qed

theorem failed_scan_deletes_used_credential_witness:
  "fst (RemoveCredential_db (ex_driver\<lparr>answers := \<lambda>q. q \<noteq> SelectAllModels\<rparr>) ''c1''
      (ex_store\<lparr>tmodels := [bound_row SQLite (\<lambda>_. ''1'') (ex_model ''m'' [''c1''])]\<rparr>)) = Accepted"
proof -
  let ?mm = "ex_store\<lparr>tmodels := [bound_row SQLite (\<lambda>_. ''1'') (ex_model ''m'' [''c1''])]\<rparr>"
  have "find_cred ''c1'' (tcreds ?mm) \<noteq> None" by (simp add: ex_store_tables find_cred_def ex_cred_row_def)
  moreover have "refs_of (tmodels ?mm) ''m'' = [\<lparr>CredentialID = ''c1'', Weight = 1, Position = 0\<rparr>]"
    using ex_refs_of [of "[''c1'']"] by (simp add: ex_model_def)
  ultimately show ?thesis
    using failed_scan_deletes_used_credential [of "ex_driver\<lparr>answers := \<lambda>q. q \<noteq> SelectAllModels\<rparr>" "''c1''" ?mm "''m''"]
    by simp
qed

end
