(* ===== verification/ModelsCache.thy ===== *)
theory ModelsCache
  imports TokenCache ModelStore "HOL-Library.List_Lexorder" "HOL-Library.Char_ord"
begin

text \<open>
  The cache in front of the models manager (\<open>pkg/modelscache/models.go\<close>, \<open>copy.go\<close>, \<open>strict.go\<close>): rows and
  decrypted credentials by identifier, the name index, negative verdicts, the ordered snapshots, the
  claim index and the health flag. The inner source is the manager of \<open>ModelStore\<close>. A call sees the
  record \<open>call\<close>: the clock, the driver of the database, cipher and environment, and the order in which
  Go iterates over the map of rows. Reads that fill the cache are two critical sections with the read
  of the store between them; the functions with the suffix \<open>_sections\<close> take one cache per section, and the
  steps \<open>cache_step\<close> interleave fills, sweeps and writes that have seen or changed the store and not yet the cache.
  Values of HOL are immutable, so the deep copies of \<open>copy.go\<close> are the identity and not written. A stopped
  scan, the ticker and log lines are not modelled.
\<close>

section \<open>State\<close>

record call =
  clock :: time
  conn :: driver
  cipher :: world
  iter :: "(string, ModelConfig) fmap \<Rightarrow> string list"

record credEntry =
  ce_cred :: "CredentialConfig option"
  decryptOK :: bool
  refreshedAt :: time

record CachedModelsConfig =
  mopts :: Options
  modelsByID :: "(string, ModelConfig) fmap"
  modelsByName :: "(string, string) fmap"
  credsByID :: "(string, credEntry) fmap"
  negByID :: "(string, time) fmap"
  negByName :: "(string, time) fmap"
  modelsSnap :: "ModelConfig list"
  enabledSnap :: "ModelConfig list"
  lastRefresh :: time
  healthy_mc :: bool
  staleWarnOnce :: bool
  claimsByID :: "(string, string) fmap"
  stopped_mc :: bool

type_synonym snapshot = "ModelConfig list \<times> ModelConfig list \<times> CredentialConfig list"

section \<open>Snapshots\<close>

definition strictSnapshot :: "call \<Rightarrow> ModelsManager \<Rightarrow> strict_error + snapshot" where
  "strictSnapshot e mm =
     (case GetModelsStrict (conn e) mm of
        Inl x \<Rightarrow> Inl x
      | Inr modelsList \<Rightarrow>
          (case GetEnabledModelsStrict (conn e) mm of
             Inl x \<Rightarrow> Inl x
           | Inr enabledList \<Rightarrow>
               (case GetCredentialsStrict (cipher e) (conn e) mm of
                  (_, Some x) \<Rightarrow> Inl x
                | (creds, None) \<Rightarrow> Inr (modelsList, enabledList, creds))))"

definition claim_of :: "string \<Rightarrow> ModelConfig \<Rightarrow> (string, string) fmap \<Rightarrow> (string, string) fmap" where
  "claim_of i m cl =
     (if IsGroup m \<and> Enabled m \<and> ShadowModelID m \<noteq> [] \<and> ShadowModelID m \<noteq> i then fmupd (ShadowModelID m) i cl else cl)"

fun claim_loop :: "(string, ModelConfig) fmap \<Rightarrow> string list \<Rightarrow> (string, string) fmap \<Rightarrow> (string, string) fmap" where
  "claim_loop rows [] cl = cl"
| "claim_loop rows (i # is) cl =
     claim_loop rows is (case fmlookup rows i of None \<Rightarrow> cl | Some m \<Rightarrow> claim_of i m cl)"

definition rebuildClaims_mc :: "call \<Rightarrow> CachedModelsConfig \<Rightarrow> CachedModelsConfig" where
  "rebuildClaims_mc e c = c\<lparr>claimsByID := claim_loop (modelsByID c) (iter e (modelsByID c)) fmempty\<rparr>"

definition rebuildSnapshotsLocked ::
  "call \<Rightarrow> (string, ModelConfig) fmap \<Rightarrow> ModelConfig list \<times> ModelConfig list" where
  "rebuildSnapshotsLocked e rows =
     (let all = sort_key Name (List.map_filter (fmlookup rows) (iter e rows))
      in (all, filter Enabled all))"

definition rebuild_lists :: "call \<Rightarrow> CachedModelsConfig \<Rightarrow> CachedModelsConfig" where
  "rebuild_lists e c =
     (case rebuildSnapshotsLocked e (modelsByID c) of (all, enabled) \<Rightarrow> c\<lparr>modelsSnap := all, enabledSnap := enabled\<rparr>)"

definition good_entry :: "call \<Rightarrow> CredentialConfig \<Rightarrow> credEntry" where
  "good_entry e cred = \<lparr>ce_cred = Some cred, decryptOK = True, refreshedAt = clock e\<rparr>"

definition applySnapshot :: "call \<Rightarrow> snapshot \<Rightarrow> CachedModelsConfig \<Rightarrow> CachedModelsConfig" where
  "applySnapshot e s c =
     (case s of (modelsList, enabledList, creds) \<Rightarrow>
        let c1 = c\<lparr>modelsByID := fold (\<lambda>m. fmupd (ID m) m) modelsList fmempty,
                   modelsByName := fold (\<lambda>m. fmupd (Name m) (ID m)) modelsList fmempty,
                   credsByID := fold (\<lambda>k. fmupd (ID_c k) (good_entry e k)) creds fmempty,
                   negByID := fmempty, negByName := fmempty,
                   modelsSnap := modelsList, enabledSnap := enabledList\<rparr>
        in (rebuildClaims_mc e c1)\<lparr>lastRefresh := clock e, healthy_mc := True, staleWarnOnce := False\<rparr>)"

definition empty_cache :: "Options \<Rightarrow> CachedModelsConfig" where
  "empty_cache o1 =
     \<lparr>mopts = withDefaults o1, modelsByID = fmempty, modelsByName = fmempty, credsByID = fmempty,
      negByID = fmempty, negByName = fmempty, modelsSnap = [], enabledSnap = [], lastRefresh = 0,
      healthy_mc = False, staleWarnOnce = False, claimsByID = fmempty, stopped_mc = False\<rparr>"

definition NewCachedModelsConfig :: "Options \<Rightarrow> call \<Rightarrow> ModelsManager \<Rightarrow> strict_error + CachedModelsConfig" where
  "NewCachedModelsConfig o1 e mm =
     (case strictSnapshot e mm of Inl x \<Rightarrow> Inl x | Inr s \<Rightarrow> Inr (applySnapshot e s (empty_cache o1)))"

definition Healthy :: "CachedModelsConfig \<Rightarrow> bool" where
  "Healthy c = healthy_mc c"

definition Stop_mc :: "CachedModelsConfig \<Rightarrow> CachedModelsConfig" where
  "Stop_mc c = c\<lparr>stopped_mc := True\<rparr>"

text \<open>One sweep: the sizes are read in a section of their own (\<open>cg\<close>) before the swap.\<close>

definition keep_snapshot :: "call \<Rightarrow> CachedModelsConfig \<Rightarrow> CachedModelsConfig" where
  "keep_snapshot e c =
     c\<lparr>healthy_mc := False,
       staleWarnOnce := (staleWarnOnce c \<or> clock e - lastRefresh c > StaleCap (mopts c))\<rparr>"

definition reconcile_sections ::
  "call \<Rightarrow> strict_error + snapshot \<Rightarrow> CachedModelsConfig \<Rightarrow> CachedModelsConfig \<Rightarrow> CachedModelsConfig" where
  "reconcile_sections e ans cg c =
     (case ans of
        Inl _ \<Rightarrow> keep_snapshot e c
      | Inr (modelsList, enabledList, creds) \<Rightarrow>
          if length modelsList = 0 \<and> length (modelsSnap cg) > 0 \<or> length creds = 0 \<and> map_len (credsByID cg) > 0
          then keep_snapshot e c
          else if stopped_mc c then c
          else applySnapshot e (modelsList, enabledList, creds) c)"

definition reconcileOnce :: "call \<Rightarrow> ModelsManager \<Rightarrow> CachedModelsConfig \<Rightarrow> CachedModelsConfig" where
  "reconcileOnce e mm c = reconcile_sections e (strictSnapshot e mm) c c"

section \<open>Changes of the maps\<close>

definition storeNegativeByID :: "call \<Rightarrow> string \<Rightarrow> CachedModelsConfig \<Rightarrow> CachedModelsConfig" where
  "storeNegativeByID e i c = c\<lparr>negByID := fmupd i (clock e) (negByID c)\<rparr>"

definition storeNegativeByName :: "call \<Rightarrow> string \<Rightarrow> CachedModelsConfig \<Rightarrow> CachedModelsConfig" where
  "storeNegativeByName e n c = c\<lparr>negByName := fmupd n (clock e) (negByName c)\<rparr>"

definition markUnhealthy :: "CachedModelsConfig \<Rightarrow> CachedModelsConfig" where
  "markUnhealthy c = c\<lparr>healthy_mc := False\<rparr>"

definition install_row :: "ModelConfig \<Rightarrow> CachedModelsConfig \<Rightarrow> CachedModelsConfig" where
  "install_row m c =
     c\<lparr>modelsByID := fmupd (ID m) m (modelsByID c), modelsByName := fmupd (Name m) (ID m) (modelsByName c),
       negByID := fmdrop (ID m) (negByID c), negByName := fmdrop (Name m) (negByName c)\<rparr>"

definition cacheModel :: "call \<Rightarrow> ModelConfig \<Rightarrow> CachedModelsConfig \<Rightarrow> CachedModelsConfig" where
  "cacheModel e m c =
     (let c1 = rebuild_lists e (install_row m c)
      in if IsGroup m then rebuildClaims_mc e c1 else c1)"

fun evictClaimEntriesLocked :: "string list \<Rightarrow> CachedModelsConfig \<Rightarrow> CachedModelsConfig" where
  "evictClaimEntriesLocked [] c = c"
| "evictClaimEntriesLocked (i # is) c =
     evictClaimEntriesLocked is
       (if i = [] then c else c\<lparr>modelsByID := fmdrop i (modelsByID c), negByID := fmdrop i (negByID c)\<rparr>)"

section \<open>Reads\<close>

definition neg_fresh :: "call \<Rightarrow> CachedModelsConfig \<Rightarrow> time option \<Rightarrow> bool" where
  "neg_fresh e c n = (case n of None \<Rightarrow> False | Some t \<Rightarrow> clock e - t \<le> ModelsNegTTL (mopts c))"

definition lookupCachedModel :: "call \<Rightarrow> CachedModelsConfig \<Rightarrow> string \<Rightarrow> ModelConfig option \<times> bool" where
  "lookupCachedModel e c i =
     (if neg_fresh e c (fmlookup (negByID c) i) then (None, True) else (fmlookup (modelsByID c) i, False))"

definition lookupCachedModelByName :: "call \<Rightarrow> CachedModelsConfig \<Rightarrow> string \<Rightarrow> ModelConfig option \<times> bool" where
  "lookupCachedModelByName e c n =
     (if neg_fresh e c (fmlookup (negByName c) n) then (None, True)
      else (case fmlookup (modelsByName c) n of None \<Rightarrow> (None, False) | Some i \<Rightarrow> (fmlookup (modelsByID c) i, False)))"

definition claiming_group :: "CachedModelsConfig \<Rightarrow> string \<Rightarrow> ModelConfig option" where
  "claiming_group c i =
     (case fmlookup (claimsByID c) i of None \<Rightarrow> None
      | Some g \<Rightarrow> (case fmlookup (modelsByID c) g of None \<Rightarrow> None
         | Some m \<Rightarrow> if Enabled m \<and> IsGroup m then Some m else None))"

definition gm_finish :: "call \<Rightarrow> strict_error + ModelConfig \<Rightarrow> string \<Rightarrow> CachedModelsConfig
    \<Rightarrow> ModelConfig option \<times> CachedModelsConfig" where
  "gm_finish e ans i c =
     (case ans of
        Inr m \<Rightarrow> (Some m, cacheModel e m c)
      | Inl ModelNotFound \<Rightarrow>
          (case claiming_group c i of Some g \<Rightarrow> (Some g, c) | None \<Rightarrow> (None, storeNegativeByID e i c))
      | Inl _ \<Rightarrow> (None, markUnhealthy c))"

definition GetModel_sections :: "call \<Rightarrow> CachedModelsConfig \<Rightarrow> CachedModelsConfig \<Rightarrow> strict_error + ModelConfig
    \<Rightarrow> CachedModelsConfig \<Rightarrow> string \<Rightarrow> ModelConfig option \<times> CachedModelsConfig" where
  "GetModel_sections e c1 c2 ans c3 i =
     (case claiming_group c1 i of
        Some g \<Rightarrow> (Some g, c3)
      | None \<Rightarrow>
          (case lookupCachedModel e c2 i of
             (_, True) \<Rightarrow> (None, c3)
           | (Some m, False) \<Rightarrow> (Some m, c3)
           | (None, False) \<Rightarrow> gm_finish e ans i c3))"

definition GetModel_mc :: "call \<Rightarrow> ModelsManager \<Rightarrow> CachedModelsConfig \<Rightarrow> string \<Rightarrow> ModelConfig option \<times> CachedModelsConfig" where
  "GetModel_mc e mm c i = GetModel_sections e c c (GetModelStrict (conn e) mm i) c i"

definition name_finish :: "call \<Rightarrow> strict_error + ModelConfig \<Rightarrow> string \<Rightarrow> CachedModelsConfig
    \<Rightarrow> ModelConfig option \<times> CachedModelsConfig" where
  "name_finish e ans n c =
     (case ans of
        Inr m \<Rightarrow> (Some m, cacheModel e m c)
      | Inl ModelNotFound \<Rightarrow> (None, storeNegativeByName e n c)
      | Inl _ \<Rightarrow> (None, markUnhealthy c))"

definition GetModelByName_mc :: "call \<Rightarrow> ModelsManager \<Rightarrow> CachedModelsConfig \<Rightarrow> string \<Rightarrow> ModelConfig option \<times> CachedModelsConfig" where
  "GetModelByName_mc e mm c n =
     (case lookupCachedModelByName e c n of
        (_, True) \<Rightarrow> (None, c)
      | (Some m, False) \<Rightarrow> (Some m, c)
      | (None, False) \<Rightarrow> name_finish e (GetModelByNameStrict (conn e) mm n) n c)"

definition fill_finish :: "call \<Rightarrow> strict_error + ModelConfig \<Rightarrow> string \<Rightarrow> CachedModelsConfig
    \<Rightarrow> ModelConfig option \<times> CachedModelsConfig" where
  "fill_finish e ans i c =
     (case ans of
        Inr m \<Rightarrow> (Some m, cacheModel e m c)
      | Inl ModelNotFound \<Rightarrow> (None, storeNegativeByID e i c)
      | Inl _ \<Rightarrow> (None, markUnhealthy c))"

definition fillModelByDirectID :: "call \<Rightarrow> ModelsManager \<Rightarrow> CachedModelsConfig \<Rightarrow> string \<Rightarrow> ModelConfig option \<times> CachedModelsConfig" where
  "fillModelByDirectID e mm c i =
     (if i = [] then (None, c) else fill_finish e (GetModelStrict (conn e) mm i) i c)"

definition GetModelNative_mc :: "call \<Rightarrow> ModelsManager \<Rightarrow> CachedModelsConfig \<Rightarrow> string \<Rightarrow> ModelConfig option \<times> CachedModelsConfig" where
  "GetModelNative_mc e mm c i =
     (if i = [] then (None, c)
      else (case lookupCachedModel e c i of
              (_, True) \<Rightarrow> (None, c)
            | (Some m, False) \<Rightarrow> (Some m, c)
            | (None, False) \<Rightarrow> fillModelByDirectID e mm c i))"

definition GetModels_mc :: "CachedModelsConfig \<Rightarrow> ModelConfig list" where
  "GetModels_mc c = modelsSnap c"

definition GetEnabledModels_mc :: "CachedModelsConfig \<Rightarrow> ModelConfig list" where
  "GetEnabledModels_mc c = enabledSnap c"

definition GetTruncateParams_mc :: "CachedModelsConfig \<Rightarrow> string \<Rightarrow> string list" where
  "GetTruncateParams_mc c i =
     (case fmlookup (modelsByID c) i of None \<Rightarrow> [] | Some m \<Rightarrow> if length (TruncateParams m) = 0 then [] else TruncateParams m)"

definition GetFallbackChain_mc :: "CachedModelsConfig \<Rightarrow> string \<Rightarrow> string list option" where
  "GetFallbackChain_mc c i =
     (case fmlookup (modelsByID c) i of None \<Rightarrow> None | Some m \<Rightarrow> Some (ID m # FallbackChain m))"

definition usable :: "credEntry \<Rightarrow> CredentialConfig option" where
  "usable k = (if \<not> decryptOK k \<or> ce_cred k = None then None else ce_cred k)"

definition cred_finish :: "call \<Rightarrow> strict_error + CredentialConfig \<Rightarrow> string \<Rightarrow> CachedModelsConfig
    \<Rightarrow> CredentialConfig option \<times> CachedModelsConfig" where
  "cred_finish e ans i c =
     (case ans of
        Inr k \<Rightarrow> (Some k, c\<lparr>credsByID := fmupd i (good_entry e k) (credsByID c)\<rparr>)
      | Inl DecryptionFailed \<Rightarrow>
          (None, c\<lparr>credsByID := fmupd i \<lparr>ce_cred = None, decryptOK = False, refreshedAt = clock e\<rparr> (credsByID c)\<rparr>)
      | Inl CredentialNotFound \<Rightarrow> (None, c)
      | Inl _ \<Rightarrow> (None, markUnhealthy c))"

definition GetCredential_mc :: "call \<Rightarrow> ModelsManager \<Rightarrow> CachedModelsConfig \<Rightarrow> string \<Rightarrow> CredentialConfig option \<times> CachedModelsConfig" where
  "GetCredential_mc e mm c i =
     (case fmlookup (credsByID c) i of
        Some k \<Rightarrow> (usable k, c)
      | None \<Rightarrow> cred_finish e (GetCredentialStrict (cipher e) (conn e) mm i) i c)"

definition GetCredentials_mc :: "CachedModelsConfig \<Rightarrow> CredentialConfig list" where
  "GetCredentials_mc c =
     sort_key ID_c (List.map_filter (\<lambda>i. case fmlookup (credsByID c) i of None \<Rightarrow> None | Some k \<Rightarrow> usable k)
       (sorted_list_of_fset (fmdom (credsByID c))))"

section \<open>Resolution\<close>

definition credLookup :: "CachedModelsConfig \<Rightarrow> string \<Rightarrow> CredentialConfig option" where
  "credLookup c i = (case fmlookup (credsByID c) i of None \<Rightarrow> None | Some k \<Rightarrow> usable k)"

definition cached_row :: "call \<Rightarrow> ModelsManager \<Rightarrow> CachedModelsConfig \<Rightarrow> string \<Rightarrow> ModelConfig option \<times> CachedModelsConfig" where
  "cached_row e mm c i =
     (case lookupCachedModel e c i of
        (Some m, False) \<Rightarrow> (Some m, c)
      | (_, negFresh) \<Rightarrow>
          (case (if \<not> negFresh then fillModelByDirectID e mm c i else (None, c)) of
             (Some m, c') \<Rightarrow> (Some m, c')
           | (None, c') \<Rightarrow> (fmlookup (modelsByID c') i, c')))"

definition Resolve_mc :: "call \<Rightarrow> nat \<Rightarrow> nat \<Rightarrow> string \<Rightarrow> string \<Rightarrow> CachedModelsConfig \<times> ModelsManager
    \<Rightarrow> ResolvedCredential option \<times> CachedModelsConfig \<times> ModelsManager" where
  "Resolve_mc e u u' i key = (\<lambda>(c, mm).
     (case cached_row e mm c i of
        (None, c') \<Rightarrow> (None, c', mm)
      | (Some m, c') \<Rightarrow>
          (case ResolveInternalConfigWithAffinityCached (Some m) (clock e) u u' key (credLookup c') mm of
             (r, mm') \<Rightarrow> (r, c', mm'))))"

definition ResolveInternalConfig_mc ::
  "call \<Rightarrow> CachedModelsConfig \<Rightarrow> string \<Rightarrow> (string \<times> string \<times> string \<times> string) option" where
  "ResolveInternalConfig_mc e c i =
     (case lookupCachedModel e c i of
        (_, True) \<Rightarrow> None
      | (None, False) \<Rightarrow> None
      | (Some m, False) \<Rightarrow>
          if \<not> Internal m then None
          else if PrimaryCredentialID m = [] then None
          else (case credLookup c (PrimaryCredentialID m) of
                  None \<Rightarrow> None
                | Some k \<Rightarrow>
                    let peakModel = ResolvePeakHourModel m (clock e) in
                    Some (Provider k, APIKey k, (if InternalBaseURL m = [] then BaseURL k else InternalBaseURL m),
                          (if peakModel \<noteq> [] then peakModel else InternalModel m))))"

section \<open>Writes\<close>

text \<open>The inner store decides; what it refuses leaves the cache alone.\<close>

definition write_through ::
  "(CachedModelsConfig \<Rightarrow> CachedModelsConfig) \<Rightarrow> store_verdict \<times> ModelsManager \<Rightarrow> CachedModelsConfig
     \<Rightarrow> store_verdict \<times> CachedModelsConfig \<times> ModelsManager" where
  "write_through f inner c = (case inner of (v, mm) \<Rightarrow> (v, (if v = Accepted then f c else c), mm))"

definition added_row :: "call \<Rightarrow> ModelConfig \<Rightarrow> CachedModelsConfig \<Rightarrow> CachedModelsConfig" where
  "added_row e m c =
     (let c1 = install_row m c;
          c2 = (if IsGroup m then evictClaimEntriesLocked [ShadowModelID m] c1 else c1)
      in (rebuildClaims_mc e (rebuild_lists e c2))\<lparr>healthy_mc := True\<rparr>)"

definition AddModel_mc :: "call \<Rightarrow> ModelConfig \<Rightarrow> CachedModelsConfig \<times> ModelsManager
    \<Rightarrow> store_verdict \<times> CachedModelsConfig \<times> ModelsManager" where
  "AddModel_mc e m0 = (\<lambda>(c, mm).
     let m = m0\<lparr>Internal := True\<rparr> in write_through (added_row e m) (AddModel_db (cipher e) (conn e) m mm) c)"

definition old_shadow :: "CachedModelsConfig \<Rightarrow> string \<Rightarrow> string" where
  "old_shadow c i =
     (case fmlookup (modelsByID c) i of None \<Rightarrow> [] | Some old \<Rightarrow> if IsGroup old then ShadowModelID old else [])"

definition updated_row :: "call \<Rightarrow> string \<Rightarrow> ModelConfig \<Rightarrow> CachedModelsConfig \<Rightarrow> CachedModelsConfig" where
  "updated_row e i m c =
     (let oldShadow = old_shadow c i;
          c1 = (case fmlookup (modelsByID c) i of
                  Some old \<Rightarrow> if Name old \<noteq> Name m then c\<lparr>modelsByName := fmdrop (Name old) (modelsByName c)\<rparr> else c
                | None \<Rightarrow> c);
          c2 = install_row m (c1\<lparr>modelsByID := fmdrop i (modelsByID c1)\<rparr>);
          c3 = (if IsGroup m \<or> oldShadow \<noteq> [] then evictClaimEntriesLocked [oldShadow, ShadowModelID m] c2 else c2)
      in (rebuildClaims_mc e (rebuild_lists e c3))\<lparr>healthy_mc := True\<rparr>)"

definition UpdateModel_mc :: "call \<Rightarrow> string \<Rightarrow> ModelConfig \<Rightarrow> CachedModelsConfig \<times> ModelsManager
    \<Rightarrow> store_verdict \<times> CachedModelsConfig \<times> ModelsManager" where
  "UpdateModel_mc e i m0 = (\<lambda>(c, mm).
     let m = m0\<lparr>Internal := True\<rparr> in write_through (updated_row e i m) (UpdateModel_db (cipher e) (conn e) i m mm) c)"

definition removed_row :: "call \<Rightarrow> string \<Rightarrow> CachedModelsConfig \<Rightarrow> CachedModelsConfig" where
  "removed_row e i c =
     (let oldShadow = old_shadow c i;
          c1 = (case fmlookup (modelsByID c) i of
                  Some old \<Rightarrow> c\<lparr>modelsByName := fmdrop (Name old) (modelsByName c), negByName := fmdrop (Name old) (negByName c)\<rparr>
                | None \<Rightarrow> c);
          c2 = c1\<lparr>modelsByID := fmdrop i (modelsByID c1), negByID := fmdrop i (negByID c1)\<rparr>;
          c3 = (if oldShadow \<noteq> [] then evictClaimEntriesLocked [oldShadow] c2 else c2)
      in rebuildClaims_mc e (rebuild_lists e c3))"

definition RemoveModel_mc :: "call \<Rightarrow> string \<Rightarrow> CachedModelsConfig \<times> ModelsManager
    \<Rightarrow> store_verdict \<times> CachedModelsConfig \<times> ModelsManager" where
  "RemoveModel_mc e i = (\<lambda>(c, mm). write_through (removed_row e i) (RemoveModel_db (conn e) i mm) c)"

definition AddCredential_mc :: "call \<Rightarrow> CredentialConfig \<Rightarrow> CachedModelsConfig \<times> ModelsManager
    \<Rightarrow> store_verdict \<times> CachedModelsConfig \<times> ModelsManager" where
  "AddCredential_mc e k = (\<lambda>(c, mm).
     write_through (\<lambda>c. c\<lparr>credsByID := fmupd (ID_c k) (good_entry e k) (credsByID c)\<rparr>)
       (AddCredential_db (cipher e) (conn e) k mm) c)"

text \<open>The written credential is read back; when that fails the old entry stays.\<close>

definition updated_cred :: "call \<Rightarrow> string \<Rightarrow> strict_error + CredentialConfig \<Rightarrow> CachedModelsConfig \<Rightarrow> CachedModelsConfig" where
  "updated_cred e i ans c =
     (case ans of
        Inl _ \<Rightarrow> c
      | Inr fresh \<Rightarrow>
          let creds = (if i \<noteq> ID_c fresh then fmdrop i (credsByID c) else credsByID c)
          in c\<lparr>credsByID := fmupd (ID_c fresh) (good_entry e fresh) creds\<rparr>)"

definition UpdateCredential_mc :: "call \<Rightarrow> string \<Rightarrow> CredentialConfig \<Rightarrow> CachedModelsConfig \<times> ModelsManager
    \<Rightarrow> store_verdict \<times> CachedModelsConfig \<times> ModelsManager" where
  "UpdateCredential_mc e i k = (\<lambda>(c, mm).
     case UpdateCredential_db (cipher e) (conn e) i k mm of
       (v, mm') \<Rightarrow> write_through (updated_cred e i (GetCredentialStrict (cipher e) (conn e) mm' (ID_c k))) (v, mm') c)"

definition RemoveCredential_mc :: "call \<Rightarrow> string \<Rightarrow> CachedModelsConfig \<times> ModelsManager
    \<Rightarrow> store_verdict \<times> CachedModelsConfig \<times> ModelsManager" where
  "RemoveCredential_mc e i = (\<lambda>(c, mm).
     write_through (\<lambda>c. c\<lparr>credsByID := fmdrop i (credsByID c)\<rparr>) (RemoveCredential_db (conn e) i mm) c)"

definition Validate_mc :: "call \<Rightarrow> CachedModelsConfig \<times> ModelsManager \<Rightarrow> verdict" where
  "Validate_mc e = (\<lambda>(c, mm). Validate_db (cipher e) (conn e) mm)"

section \<open>The claim index\<close>

definition claims_in :: "(string \<Rightarrow> ModelConfig option) \<Rightarrow> string \<Rightarrow> string \<Rightarrow> bool" where
  "claims_in rows g s \<longleftrightarrow>
     (\<exists>m. rows g = Some m \<and> IsGroup m \<and> Enabled m \<and> ShadowModelID m = s \<and> s \<noteq> [])"

definition claims_by :: "(string, ModelConfig) fmap \<Rightarrow> string \<Rightarrow> string \<Rightarrow> bool" where
  "claims_by rows g s \<longleftrightarrow> claims_in (fmlookup rows) g s \<and> s \<noteq> g"

lemma claim_loop_Some:
  "fmlookup (claim_loop rows is cl) s = Some g \<Longrightarrow> claims_by rows g s \<or> fmlookup cl s = Some g"
  by (induction rows "is" cl rule: claim_loop.induct)
     (fastforce simp: claims_by_def claims_in_def claim_of_def split: option.splits if_splits)+

lemma claim_loop_None:
  "fmlookup (claim_loop rows is cl) s = None \<Longrightarrow> fmlookup cl s = None \<and> (\<forall>g \<in> set is. \<not> claims_by rows g s)"
  by (induction rows "is" cl rule: claim_loop.induct)
     (auto simp: claims_by_def claims_in_def claim_of_def split: option.splits if_splits)

text \<open>A call may iterate in any order, but visits every key.\<close>

definition visits :: "call \<Rightarrow> bool" where
  "visits e \<longleftrightarrow> (\<forall>rows. distinct (iter e rows) \<and> set (iter e rows) = fset (fmdom rows))"

lemma claims_by_dom: "claims_by rows g s \<Longrightarrow> g \<in> fset (fmdom rows)"
  by (auto simp: claims_by_def claims_in_def intro: fmdomI)

lemma claimsByID_index:
  assumes "visits e" "\<forall>g g'. claims_by (modelsByID c) g s \<longrightarrow> claims_by (modelsByID c) g' s \<longrightarrow> g = g'"
  shows "fmlookup (claimsByID (rebuildClaims_mc e c)) s = Some g \<longleftrightarrow> claims_by (modelsByID c) g s"
proof
  show "fmlookup (claimsByID (rebuildClaims_mc e c)) s = Some g \<Longrightarrow> claims_by (modelsByID c) g s"
    using claim_loop_Some [of "modelsByID c" "iter e (modelsByID c)" fmempty s g] by (simp add: rebuildClaims_mc_def)
next
  assume g: "claims_by (modelsByID c) g s"
  then have "fmlookup (claimsByID (rebuildClaims_mc e c)) s \<noteq> None"
    using claim_loop_None [of "modelsByID c" "iter e (modelsByID c)" fmempty s] claims_by_dom [OF g] assms(1)
    by (auto simp: rebuildClaims_mc_def visits_def)
  then obtain g' where g': "fmlookup (claimsByID (rebuildClaims_mc e c)) s = Some g'" by blast
  then have "claims_by (modelsByID c) g' s"
    using claim_loop_Some [of "modelsByID c" "iter e (modelsByID c)" fmempty s g'] by (simp add: rebuildClaims_mc_def)
  then have "g' = g" using assms(2) g by blast
  then show "fmlookup (claimsByID (rebuildClaims_mc e c)) s = Some g" using g' by simp
qed

section \<open>The cache and the tables\<close>

text \<open>What the proofs need of the stored rows: no row without an identifier, at most one enabled group per
  claimed identifier, and no group that is itself claimed.\<close>

definition row_of :: "ModelsManager \<Rightarrow> string \<Rightarrow> ModelConfig option" where
  "row_of mm i = map_option dbModelRowToConfig (find_row i (tmodels mm))"

definition good_rows :: "(string \<Rightarrow> ModelConfig option) \<Rightarrow> bool" where
  "good_rows R \<longleftrightarrow> R [] = None
     \<and> (\<forall>s g g'. claims_in R g s \<longrightarrow> claims_in R g' s \<longrightarrow> g = g')
     \<and> (\<forall>g m g' m'. R g = Some m \<longrightarrow> IsGroup m \<longrightarrow> R g' = Some m' \<longrightarrow> IsGroup m' \<longrightarrow> ShadowModelID m \<noteq> g')"

definition fits_rows :: "(string \<Rightarrow> ModelConfig option) \<Rightarrow> ModelConfig \<Rightarrow> bool" where
  "fits_rows R m \<longleftrightarrow> ID m \<noteq> [] \<and> (\<not> IsGroup m \<longrightarrow> ShadowModelID m = []) \<and> (IsGroup m \<longrightarrow>
     ShadowModelID m \<noteq> ID m
     \<and> (\<forall>t. ShadowModelID m \<noteq> [] \<longrightarrow> R (ShadowModelID m) = Some t \<longrightarrow> \<not> IsGroup t)
     \<and> (\<forall>g. g \<noteq> ID m \<longrightarrow> \<not> claims_in R g (ShadowModelID m))
     \<and> (\<forall>g m'. R g = Some m' \<longrightarrow> IsGroup m' \<longrightarrow> ShadowModelID m' \<noteq> ID m))"

lemma claims_in_upd:
  "claims_in (R(i := v)) g s \<longleftrightarrow>
     (if g = i then (\<exists>m. v = Some m \<and> IsGroup m \<and> Enabled m \<and> ShadowModelID m = s \<and> s \<noteq> []) else claims_in R g s)"
  by (simp add: claims_in_def)

lemma good_rows_put:
  assumes "good_rows R" "fits_rows R m"
  shows "good_rows (R(ID m := Some m))"
  using assms unfolding good_rows_def fits_rows_def claims_in_upd by (auto split: if_splits)

lemma good_rows_del: "good_rows R \<Longrightarrow> good_rows (R(i := None))"
  unfolding good_rows_def claims_in_upd by (auto split: if_splits)

definition rows_cached :: "CachedModelsConfig \<Rightarrow> (string \<Rightarrow> ModelConfig option) \<Rightarrow> bool" where
  "rows_cached c R \<longleftrightarrow>
     (\<forall>i m. fmlookup (modelsByID c) i = Some m \<longrightarrow> R i = Some m)
     \<and> (\<forall>i m. R i = Some m \<longrightarrow> IsGroup m \<longrightarrow> fmlookup (modelsByID c) i = Some m)
     \<and> (\<forall>i t. fmlookup (negByID c) i = Some t \<longrightarrow> R i = None)"

definition claims_cached :: "CachedModelsConfig \<Rightarrow> (string \<Rightarrow> ModelConfig option) \<Rightarrow> bool" where
  "claims_cached c R \<longleftrightarrow> (\<forall>s g. fmlookup (claimsByID c) s = Some g \<longleftrightarrow> claims_in R g s)"

lemma rows_cachedD:
  "rows_cached c R \<Longrightarrow> fmlookup (modelsByID c) i = Some m \<Longrightarrow> R i = Some m"
  "rows_cached c R \<Longrightarrow> R i = Some m \<Longrightarrow> IsGroup m \<Longrightarrow> fmlookup (modelsByID c) i = Some m"
  "rows_cached c R \<Longrightarrow> fmlookup (negByID c) i = Some t \<Longrightarrow> R i = None"
  unfolding rows_cached_def by blast+

lemma rows_cachedI:
  assumes "\<And>i m. fmlookup (modelsByID c) i = Some m \<Longrightarrow> R i = Some m"
    "\<And>i m. R i = Some m \<Longrightarrow> IsGroup m \<Longrightarrow> fmlookup (modelsByID c) i = Some m"
    "\<And>i t. fmlookup (negByID c) i = Some t \<Longrightarrow> R i = None"
  shows "rows_cached c R"
  unfolding rows_cached_def using assms by blast

lemma rows_cached_eq:
  "fmlookup (modelsByID c') = fmlookup (modelsByID c) \<Longrightarrow> fmlookup (negByID c') = fmlookup (negByID c) \<Longrightarrow>
     rows_cached c R \<Longrightarrow> rows_cached c' R"
  unfolding rows_cached_def by metis

lemma good_rows_no_self: "good_rows R \<Longrightarrow> R g = Some m \<Longrightarrow> IsGroup m \<Longrightarrow> ShadowModelID m \<noteq> g"
  unfolding good_rows_def by blast

lemma claims_by_rows:
  assumes "good_rows R" "rows_cached c R"
  shows "claims_by (modelsByID c) g s \<longleftrightarrow> claims_in R g s"
proof
  show "claims_by (modelsByID c) g s \<Longrightarrow> claims_in R g s"
    using rows_cachedD(1) [OF assms(2), of g] unfolding claims_by_def claims_in_def by blast
next
  assume "claims_in R g s"
  then obtain m where m: "R g = Some m" "IsGroup m" "Enabled m" "ShadowModelID m = s" "s \<noteq> []" by (auto simp: claims_in_def)
  have "s \<noteq> g" using good_rows_no_self [OF assms(1) m(1,2)] m(4) by simp
  then show "claims_by (modelsByID c) g s"
    using rows_cachedD(2) [OF assms(2) m(1,2)] m by (simp add: claims_by_def claims_in_def)
qed

lemma claims_rebuilt:
  assumes "visits e" "good_rows R" "rows_cached c R"
  shows "claims_cached (rebuildClaims_mc e c) R"
  unfolding claims_cached_def
proof (intro allI)
  fix s g
  have "\<forall>g g'. claims_by (modelsByID c) g s \<longrightarrow> claims_by (modelsByID c) g' s \<longrightarrow> g = g'"
    using assms(2) unfolding claims_by_rows [OF assms(2,3)] by (auto simp: good_rows_def)
  from claimsByID_index [OF assms(1) this]
  show "fmlookup (claimsByID (rebuildClaims_mc e c)) s = Some g \<longleftrightarrow> claims_in R g s"
    by (simp add: claims_by_rows [OF assms(2,3)])
qed

lemma rows_cached_cong:
  "modelsByID c' = modelsByID c \<Longrightarrow> negByID c' = negByID c \<Longrightarrow> rows_cached c' R \<longleftrightarrow> rows_cached c R"
  by (simp add: rows_cached_def)

lemma rebuild_mc_frame [simp]:
  "modelsByID (rebuildClaims_mc e c) = modelsByID c" "negByID (rebuildClaims_mc e c) = negByID c"
  "credsByID (rebuildClaims_mc e c) = credsByID c" "mopts (rebuildClaims_mc e c) = mopts c"
  "modelsByID (rebuild_lists e c) = modelsByID c" "negByID (rebuild_lists e c) = negByID c"
  "credsByID (rebuild_lists e c) = credsByID c" "claimsByID (rebuild_lists e c) = claimsByID c"
  by (simp_all add: rebuildClaims_mc_def rebuild_lists_def case_prod_beta)

text \<open>What the maps hold after a write.\<close>

lemma evict_frame [simp]: "credsByID (evictClaimEntriesLocked is c) = credsByID c"
  by (induction "is" c rule: evictClaimEntriesLocked.induct) auto

lemma evict_lookup:
  "fmlookup (modelsByID (evictClaimEntriesLocked is c)) i =
     (if i \<in> set is \<and> i \<noteq> [] then None else fmlookup (modelsByID c) i)"
  "fmlookup (negByID (evictClaimEntriesLocked is c)) i =
     (if i \<in> set is \<and> i \<noteq> [] then None else fmlookup (negByID c) i)"
  by (induction "is" c rule: evictClaimEntriesLocked.induct) auto

lemma install_lookup [simp]:
  "fmlookup (modelsByID (install_row m c)) i = (if i = ID m then Some m else fmlookup (modelsByID c) i)"
  "fmlookup (negByID (install_row m c)) i = (if i = ID m then None else fmlookup (negByID c) i)"
  "credsByID (install_row m c) = credsByID c" "claimsByID (install_row m c) = claimsByID c"
  by (simp_all add: install_row_def)

lemma rows_cached_evict:
  assumes "rows_cached c R" "\<forall>s \<in> set ss. \<forall>m. s \<noteq> [] \<longrightarrow> R s = Some m \<longrightarrow> \<not> IsGroup m"
  shows "rows_cached (evictClaimEntriesLocked ss c) R"
proof -
  have "fmlookup (modelsByID (evictClaimEntriesLocked ss c)) i = Some m" if "R i = Some m" "IsGroup m" for i m
    using rows_cachedD(2) [OF assms(1) that] assms(2) that by (auto simp: evict_lookup)
  then show ?thesis
    using rows_cachedD(1,3) [OF assms(1)] by (intro rows_cachedI) (auto simp: evict_lookup split: if_splits)
qed

lemma rows_cached_install:
  assumes "rows_cached c R" shows "rows_cached (install_row m c) (R(ID m := Some m))" (is "rows_cached ?c ?R")
proof (rule rows_cachedI)
  fix j n t
  note D = rows_cachedD [OF assms, of j]
  show "fmlookup (modelsByID ?c) j = Some n \<Longrightarrow> ?R j = Some n" using D(1) [of n] by (simp split: if_splits)
  show "?R j = Some n \<Longrightarrow> IsGroup n \<Longrightarrow> fmlookup (modelsByID ?c) j = Some n" using D(2) [of n] by (simp split: if_splits)
  show "fmlookup (negByID ?c) j = Some t \<Longrightarrow> ?R j = None" using D(3) [of t] by (simp split: if_splits)
qed

lemma rows_cached_drop:
  assumes "rows_cached c R"
  shows "rows_cached (c\<lparr>modelsByID := fmdrop i (modelsByID c), negByID := fmdrop i (negByID c)\<rparr>) (R(i := None))" (is "rows_cached ?c ?R")
proof (rule rows_cachedI)
  fix j n t
  note D = rows_cachedD [OF assms, of j]
  show "fmlookup (modelsByID ?c) j = Some n \<Longrightarrow> ?R j = Some n" using D(1) [of n] by (simp split: if_splits)
  show "?R j = Some n \<Longrightarrow> IsGroup n \<Longrightarrow> fmlookup (modelsByID ?c) j = Some n" using D(2) [of n] by (simp split: if_splits)
  show "fmlookup (negByID ?c) j = Some t \<Longrightarrow> ?R j = None" using D(3) [of t] by (simp split: if_splits)
qed

lemma claims_frame [simp]:
  "claims_cached (c\<lparr>healthy_mc := h\<rparr>) R = claims_cached c R" "rows_cached (c\<lparr>healthy_mc := h\<rparr>) R = rows_cached c R"
  by (simp add: claims_cached_def) (rule iffI; erule rows_cached_eq [rotated 2]; simp)

lemma rebuilt:
  assumes "visits e" "good_rows R" "rows_cached c R"
  shows "rows_cached (rebuildClaims_mc e (rebuild_lists e c)) R \<and> claims_cached (rebuildClaims_mc e (rebuild_lists e c)) R"
proof -
  have r: "rows_cached (rebuild_lists e c) R" by (rule rows_cached_eq [OF _ _ assms(3)]) simp_all
  have "rows_cached (rebuildClaims_mc e (rebuild_lists e c)) R" by (rule rows_cached_eq [OF _ _ r]) simp_all
  then show ?thesis using claims_rebuilt [OF assms(1,2) r] by blast
qed

lemma old_shadow_plain:
  assumes "rows_cached c R" "good_rows R" "old_shadow c i \<noteq> []"
  shows "R (old_shadow c i) = Some m \<Longrightarrow> \<not> IsGroup m" "old_shadow c i \<noteq> i"
proof -
  obtain old where old: "fmlookup (modelsByID c) i = Some old" "IsGroup old" "old_shadow c i = ShadowModelID old"
    using assms(3) by (auto simp: old_shadow_def split: option.splits if_splits)
  have R: "R i = Some old" using rows_cachedD(1) [OF assms(1) old(1)] .
  show "R (old_shadow c i) = Some m \<Longrightarrow> \<not> IsGroup m" using assms(2) R old(2,3) unfolding good_rows_def by metis
  show "old_shadow c i \<noteq> i" using good_rows_no_self [OF assms(2) R old(2)] old(3) by simp
qed

lemma fits_plain:
  "fits_rows R m \<Longrightarrow> ShadowModelID m \<noteq> [] \<Longrightarrow>
     ShadowModelID m \<noteq> ID m \<and> (\<forall>t. R (ShadowModelID m) = Some t \<longrightarrow> \<not> IsGroup t)"
  unfolding fits_rows_def by blast

lemma added_cached:
  assumes "visits e" "good_rows R" "fits_rows R m" "rows_cached c R"
  shows "rows_cached (added_row e m c) (R(ID m := Some m)) \<and> claims_cached (added_row e m c) (R(ID m := Some m))"
proof -
  let ?R = "R(ID m := Some m)"
  have "rows_cached (if IsGroup m then evictClaimEntriesLocked [ShadowModelID m] (install_row m c) else install_row m c) ?R"
    using fits_plain [OF assms(3)] rows_cached_install [OF assms(4), of m]
      rows_cached_evict [OF rows_cached_install [OF assms(4), of m], of "[ShadowModelID m]"]
    by (simp del: evictClaimEntriesLocked.simps)
  from rebuilt [OF assms(1) good_rows_put [OF assms(2,3)] this] show ?thesis
    by (simp add: added_row_def Let_def del: evictClaimEntriesLocked.simps)
qed

lemma updated_cached:
  assumes "visits e" "good_rows R" "fits_rows R m" "rows_cached c R" "ID m = i"
  shows "rows_cached (updated_row e i m c) (R(i := Some m)) \<and> claims_cached (updated_row e i m c) (R(i := Some m))"
proof -
  let ?R = "R(i := Some m)" and ?s = "old_shadow c i"
  define c1 where "c1 = (case fmlookup (modelsByID c) i of
      Some old \<Rightarrow> if Name old \<noteq> Name m then c\<lparr>modelsByName := fmdrop (Name old) (modelsByName c)\<rparr> else c | None \<Rightarrow> c)"
  have [simp]: "modelsByID c1 = modelsByID c" "negByID c1 = negByID c" by (simp_all add: c1_def split: option.split)
  define c2 where "c2 = install_row m (c1\<lparr>modelsByID := fmdrop i (modelsByID c1)\<rparr>)"
  have "rows_cached (install_row m c) ?R" using rows_cached_install [OF assms(4), of m] assms(5) by simp
  then have c2: "rows_cached c2 ?R" by (rule rows_cached_eq [rotated 2]) (auto simp: c2_def assms(5) fun_eq_iff)
  have "\<not> IsGroup t" if "s \<in> set [?s, ShadowModelID m]" "s \<noteq> []" "?R s = Some t" for s t
  proof (cases "s = ?s")
    case True
    then show ?thesis using old_shadow_plain [OF assms(4,2), of i] that by (auto split: if_splits)
  next
    case False
    then show ?thesis using that fits_plain [OF assms(3)] assms(5) by (auto split: if_splits)
  qed
  then have c3: "rows_cached (if IsGroup m \<or> ?s \<noteq> [] then evictClaimEntriesLocked [?s, ShadowModelID m] c2 else c2) ?R"
    using rows_cached_evict [OF c2, of "[?s, ShadowModelID m]"] c2 by (simp del: evictClaimEntriesLocked.simps)
  have good: "good_rows ?R" using good_rows_put [OF assms(2,3)] assms(5) by simp
  define c4 where "c4 = rebuildClaims_mc e (rebuild_lists e
      (if IsGroup m \<or> ?s \<noteq> [] then evictClaimEntriesLocked [?s, ShadowModelID m] c2 else c2))"
  from rebuilt [OF assms(1) good c3]
  have r: "rows_cached c4 ?R \<and> claims_cached c4 ?R" unfolding c4_def .
  have "updated_row e i m c = c4\<lparr>healthy_mc := True\<rparr>" by (simp only: updated_row_def Let_def c1_def c2_def c4_def)
  then show ?thesis using r by (simp only: claims_frame)
qed

lemma removed_cached:
  assumes "visits e" "good_rows R" "rows_cached c R"
  shows "rows_cached (removed_row e i c) (R(i := None)) \<and> claims_cached (removed_row e i c) (R(i := None))"
proof -
  let ?R = "R(i := None)" and ?s = "old_shadow c i"
  define c1 where "c1 = (case fmlookup (modelsByID c) i of
      Some old \<Rightarrow> c\<lparr>modelsByName := fmdrop (Name old) (modelsByName c), negByName := fmdrop (Name old) (negByName c)\<rparr>
    | None \<Rightarrow> c)"
  have [simp]: "modelsByID c1 = modelsByID c" "negByID c1 = negByID c" by (simp_all add: c1_def split: option.split)
  define c2 where "c2 = c1\<lparr>modelsByID := fmdrop i (modelsByID c1), negByID := fmdrop i (negByID c1)\<rparr>"
  have c2: "rows_cached c2 ?R"
    by (rule rows_cached_eq [OF _ _ rows_cached_drop [OF assms(3), of i]]) (simp_all add: c2_def)
  have "\<not> IsGroup t" if "?s \<noteq> []" "?R ?s = Some t" for t
    using old_shadow_plain [OF assms(3,2) that(1)] that(2) by (auto split: if_splits)
  then have c3: "rows_cached (if ?s \<noteq> [] then evictClaimEntriesLocked [?s] c2 else c2) ?R"
    using rows_cached_evict [OF c2, of "[?s]"] c2 by (simp del: evictClaimEntriesLocked.simps)
  have "removed_row e i c
      = rebuildClaims_mc e (rebuild_lists e (if ?s \<noteq> [] then evictClaimEntriesLocked [?s] c2 else c2))"
    by (simp only: removed_row_def Let_def c1_def c2_def)
  then show ?thesis using rebuilt [OF assms(1) good_rows_del [OF assms(2)] c3] by simp
qed

section \<open>The tables\<close>

definition tables_ok :: "world \<Rightarrow> Dialect \<Rightarrow> ModelsManager \<Rightarrow> bool" where
  "tables_ok w dl mm \<longleftrightarrow> ids_distinct mm \<and> good_rows (row_of mm)
     \<and> (\<forall>r \<in> set (tmodels mm). where_enabled dl r \<longleftrightarrow> isEnabled r)
     \<and> distinct (map k_ID (tcreds mm)) \<and> (\<forall>k \<in> set (tcreds mm). strict_credential w k \<noteq> None)
     \<and> (\<forall>s g. fmlookup (mclaims mm) s = Some g \<longleftrightarrow> claims_in (row_of mm) g s)"

text \<open>A driver that is up answers every statement with every row.\<close>

definition up :: "world \<Rightarrow> Dialect \<Rightarrow> call \<Rightarrow> bool" where
  "up w dl e \<longleftrightarrow> visits e \<and> cipher e = w \<and> dialect (conn e) = dl \<and> returns_rows (conn e)
     \<and> (\<forall>q. answers (conn e) q) \<and> (\<forall>q. breaks (conn e) q = None)"

lemma conv_simps [simp]:
  "ID (dbModelRowToConfig r) = d_ID r" "Kind (dbModelRowToConfig r) = d_Kind r"
  "Enabled (dbModelRowToConfig r) = isEnabled r" "ShadowModelID (dbModelRowToConfig r) = d_ShadowModelID r"
  by (simp_all add: dbModelRowToConfig_def)

lemma row_of_ID: "row_of mm i = Some m \<Longrightarrow> ID m = i"
  by (auto simp: row_of_def dest: find_row_Some)

lemma row_of_row: "ids_distinct mm \<Longrightarrow> r \<in> set (tmodels mm) \<Longrightarrow> row_of mm (d_ID r) = Some (dbModelRowToConfig r)"
  by (simp add: row_of_def ids_distinct_def find_row_distinct)

lemma row_of_some: "row_of mm i = Some m \<Longrightarrow> \<exists>r \<in> set (tmodels mm). d_ID r = i \<and> m = dbModelRowToConfig r"
  by (auto simp: row_of_def dest: find_row_Some)

lemma claims_in_rows:
  assumes "ids_distinct mm" "\<forall>r \<in> set (tmodels mm). where_enabled dl r \<longleftrightarrow> isEnabled r"
  shows "claims_in (row_of mm) g s \<longleftrightarrow>
     (\<exists>r \<in> set (tmodels mm). where_group dl r \<and> d_ID r = g \<and> d_ShadowModelID r = s \<and> s \<noteq> [])"
proof
  assume "claims_in (row_of mm) g s"
  then obtain m where m: "row_of mm g = Some m" "IsGroup m" "Enabled m" "ShadowModelID m = s" "s \<noteq> []"
    by (auto simp: claims_in_def)
  obtain r where "r \<in> set (tmodels mm)" "d_ID r = g" "m = dbModelRowToConfig r" using row_of_some [OF m(1)] by blast
  then show "\<exists>r \<in> set (tmodels mm). where_group dl r \<and> d_ID r = g \<and> d_ShadowModelID r = s \<and> s \<noteq> []"
    using m assms(2) by (auto simp: where_group_def IsGroup_def)
next
  assume "\<exists>r \<in> set (tmodels mm). where_group dl r \<and> d_ID r = g \<and> d_ShadowModelID r = s \<and> s \<noteq> []"
  then obtain r where r: "r \<in> set (tmodels mm)" "where_group dl r" "d_ID r = g" "d_ShadowModelID r = s" "s \<noteq> []" by blast
  then show "claims_in (row_of mm) g s"
    using row_of_row [OF assms(1) r(1)] assms(2) by (auto simp: claims_in_def where_group_def IsGroup_def)
qed

lemma claim_rows_None:
  "fmlookup (claim_rows cl rs) s = None \<Longrightarrow>
     fmlookup cl s = None \<and> (\<forall>r \<in> set rs. d_ShadowModelID r = s \<longrightarrow> s = [])"
proof (induction rs arbitrary: cl)
  case (Cons a rs)
  from Cons.IH [OF Cons.prems [unfolded claim_rows.simps]] show ?case by (auto split: if_splits)
qed simp

lemma mclaims_rebuilt:
  assumes "up w dl e" "ids_distinct mm" "\<forall>r \<in> set (tmodels mm). where_enabled dl r \<longleftrightarrow> isEnabled r" "good_rows (row_of mm)"
  shows "fmlookup (mclaims (rebuildClaimsLocked_db (conn e) mm)) s = Some g \<longleftrightarrow> claims_in (row_of mm) g s"
proof -
  let ?rs = "arrange (conn e) SelectClaims (filter (where_group dl) (tmodels mm))"
  have set: "set ?rs = {r \<in> set (tmodels mm). where_group dl r}"
    using assms(1) by (auto simp: up_def arrange_set)
  have eq: "mclaims (rebuildClaimsLocked_db (conn e) mm) = claim_rows fmempty ?rs"
    using assms(1) by (simp add: rebuildClaimsLocked_db_def up_def)
  have some: "fmlookup (claim_rows fmempty ?rs) s = Some g' \<Longrightarrow> claims_in (row_of mm) g' s" for g'
    using claim_rows_Some [of fmempty ?rs s g'] set unfolding claims_in_rows [OF assms(2,3)] by auto
  show ?thesis
  proof
    assume c: "claims_in (row_of mm) g s"
    then have "fmlookup (claim_rows fmempty ?rs) s \<noteq> None"
      using claim_rows_None [of fmempty ?rs s] set unfolding claims_in_rows [OF assms(2,3)] by auto
    then obtain g' where g': "fmlookup (claim_rows fmempty ?rs) s = Some g'" by blast
    have "g' = g" using some [OF g'] c assms(4) unfolding good_rows_def by blast
    then show "fmlookup (mclaims (rebuildClaimsLocked_db (conn e) mm)) s = Some g" using g' eq by simp
  qed (use some eq in simp)
qed

text \<open>What a write does to the stored rows.\<close>

lemma row_of_insert:
  "row_fits fmt m \<Longrightarrow> row_of (mm\<lparr>tmodels := insert_row (bound_row dl fmt m) (tmodels mm)\<rparr>)
     = (row_of mm)(ID m := Some (stored_model m))"
  by (auto simp: row_of_def find_row_insert bound_row_back)

lemma bound_row_id [simp]: "(bound_row dl fmt m)\<lparr>d_ID := ID m\<rparr> = bound_row dl fmt m"
  by (simp add: bound_row_def)

lemma row_of_update:
  "row_fits fmt m \<Longrightarrow> ID m = i \<Longrightarrow> find_row i (tmodels mm) \<noteq> None \<Longrightarrow>
     row_of (mm\<lparr>tmodels := update_row i (bound_row dl fmt m) (tmodels mm)\<rparr>) = (row_of mm)(i := Some (stored_model m))"
  by (auto simp: row_of_def find_row_update bound_row_back)

lemma row_of_delete: "row_of (mm\<lparr>tmodels := delete_row i (tmodels mm)\<rparr>) = (row_of mm)(i := None)"
  by (auto simp: row_of_def find_row_delete)

lemma row_of_cong: "tmodels mm' = tmodels mm \<Longrightarrow> row_of mm' = row_of mm"
  by (simp add: row_of_def fun_eq_iff)

lemma bound_row_enabled: "where_enabled dl (bound_row dl fmt m) \<longleftrightarrow> isEnabled (bound_row dl fmt m)"
  by (cases dl) (auto simp: where_enabled_def bound_row_def BooleanLiteral_def isEnabled_def)

lemma enabled_kept:
  assumes "\<forall>r \<in> set rows. where_enabled dl r \<longleftrightarrow> isEnabled r"
  shows "\<forall>r \<in> set (insert_row (bound_row dl fmt m) rows). where_enabled dl r \<longleftrightarrow> isEnabled r"
    "ID m = i \<Longrightarrow> \<forall>r \<in> set (update_row i (bound_row dl fmt m) rows). where_enabled dl r \<longleftrightarrow> isEnabled r"
    "\<forall>r \<in> set (delete_row i rows). where_enabled dl r \<longleftrightarrow> isEnabled r"
  using assms bound_row_enabled [of dl fmt m] by (auto simp: insert_row_def update_row_def delete_row_def)

text \<open>What validation of an accepted write guarantees.\<close>

lemma up_scan: "up w dl e \<Longrightarrow> set (GetModels_db (conn e) mm) = dbModelRowToConfig ` set (tmodels mm)"
  by (simp add: up_def GetModels_db_def scanModels_def arrange_set)

lemma up_scan_distinct:
  assumes "up w dl e" "ids_distinct mm" shows "distinct (map ID (GetModels_db (conn e) mm))"
proof -
  have "mset (map d_ID (arrange (conn e) SelectAllModels (tmodels mm))) = mset (map d_ID (tmodels mm))"
    using assms(1) by (simp add: up_def returns_rows_def)
  then have "distinct (map d_ID (arrange (conn e) SelectAllModels (tmodels mm)))"
    using assms(2) unfolding ids_distinct_def by (metis mset_eq_imp_distinct_iff)
  then show ?thesis using assms(1) by (simp add: up_def GetModels_db_def scanModels_def comp_def)
qed

lemma group_write_fits:
  assumes "up w dl e" "ids_distinct mm" "IsGroup m" "validateGroupWrite (conn e) mm m = None"
  shows "ShadowModelID m \<noteq> [] \<Longrightarrow> ShadowModelID m \<noteq> ID m"
    "ShadowModelID m \<noteq> [] \<Longrightarrow> row_of mm (ShadowModelID m) = Some t \<Longrightarrow> \<not> IsGroup t"
    "g \<noteq> ID m \<Longrightarrow> \<not> claims_in (row_of mm) g (ShadowModelID m)"
proof -
  let ?ms = "GetModels_db (conn e) mm"
  have k: "ValidateKindRules m [] = None" "ValidateGroupMembers m ?ms = None"
    using assms(4) by (auto simp: validateGroupWrite_def split: option.splits)
  have v: "validate_shadow m ?ms = None"
    using k(2) by (auto simp: ValidateGroupMembers_def split: if_splits option.splits)
  show "ShadowModelID m \<noteq> [] \<Longrightarrow> ShadowModelID m \<noteq> ID m"
    using k(1) assms(3) by (auto simp: ValidateKindRules_def IsGroup_def validateGroupRules_def split: if_splits)
  show "\<not> IsGroup t" if ne: "ShadowModelID m \<noteq> []" and rt: "row_of mm (ShadowModelID m) = Some t"
  proof -
    obtain t' where t': "byID ?ms (ShadowModelID m) = Some t'" "is_chat t'"
      using validate_shadow_None(1) [OF v ne] by blast
    obtain r where "r \<in> set (tmodels mm)" "d_ID r = ShadowModelID m" "t = dbModelRowToConfig r"
      using row_of_some [OF rt] by blast
    then have "t \<in> set ?ms" "ID t = ShadowModelID m" using up_scan [OF assms(1), of mm] by auto
    then have "t = t'" using t'(1) byID_iff [OF up_scan_distinct [OF assms(1,2)], of "ShadowModelID m" t] by simp
    then show ?thesis using t'(2) by (auto simp: is_chat_def IsGroup_def)
  qed
  show "\<not> claims_in (row_of mm) g (ShadowModelID m)" if "g \<noteq> ID m"
  proof
    assume "claims_in (row_of mm) g (ShadowModelID m)"
    then obtain o' where o': "row_of mm g = Some o'" "IsGroup o'" "Enabled o'" "ShadowModelID o' = ShadowModelID m"
        "ShadowModelID m \<noteq> []" by (auto simp: claims_in_def)
    obtain r where "r \<in> set (tmodels mm)" "d_ID r = g" "o' = dbModelRowToConfig r" using row_of_some [OF o'(1)] by blast
    then have "o' \<in> set ?ms" using up_scan [OF assms(1), of mm] by auto
    moreover have "claimed_by_other m o'"
      using o' row_of_ID [OF o'(1)] that by (simp add: claimed_by_other_def IsGroup_def)
    ultimately show False using validate_shadow_None(2) [OF v o'(5)] by blast
  qed
qed

text \<open>Beyond what the store checks, a write may not make a claimed row a group, only groups claim, and the
  model has a row that reads back exactly.\<close>

definition plain_write :: "call \<Rightarrow> ModelsManager \<Rightarrow> ModelConfig \<Rightarrow> bool" where
  "plain_write e mm m \<longleftrightarrow> row_fits (float_text (conn e)) m \<and> stored_model m = m
     \<and> (\<not> IsGroup m \<longrightarrow> ShadowModelID m = [])
     \<and> (IsGroup m \<longrightarrow> (\<forall>g m'. row_of mm g = Some m' \<longrightarrow> IsGroup m' \<longrightarrow> ShadowModelID m' \<noteq> ID m))"

lemma write_fits:
  assumes "up w dl e" "ids_distinct mm" "plain_write e mm m" "ID m \<noteq> []" "validateBeforeWrite w' (conn e) mm m = None"
  shows "fits_rows (row_of mm) m"
proof (cases "IsGroup m")
  case True
  then have v: "validateGroupWrite (conn e) mm m = None" using assms(5) by (simp add: validateBeforeWrite_def IsGroup_def)
  have "ShadowModelID m \<noteq> ID m" using group_write_fits(1) [OF assms(1,2) True v] assms(4) by metis
  then show ?thesis
    using group_write_fits(2,3) [OF assms(1,2) True v] assms(3,4) True unfolding fits_rows_def plain_write_def by blast
next
  case False
  then show ?thesis using assms(3,4) by (simp add: fits_rows_def plain_write_def)
qed

lemma plain_write_internal [simp]: "row_fits fmt (m\<lparr>Internal := b\<rparr>) = row_fits fmt m"
  by (simp add: row_fits_def)

lemma notify_frame [simp]:
  "tmodels (notifyGroupEngineLocked k i ms mm) = tmodels mm" "tcreds (notifyGroupEngineLocked k i ms mm) = tcreds mm"
  "mclaims (notifyGroupEngineLocked k i ms mm) = mclaims mm"
  "tmodels (on_group_changed i gs mm) = tmodels mm" "tcreds (on_group_changed i gs mm) = tcreds mm"
  "mclaims (on_group_changed i gs mm) = mclaims mm" "tmodels (on_model_changed i rs mm) = tmodels mm"
  "tcreds (on_model_changed i rs mm) = tcreds mm" "mclaims (on_model_changed i rs mm) = mclaims mm"
  by (simp_all add: notifyGroupEngineLocked_def on_group_changed_def on_model_changed_def)

text \<open>The tables after the three writes of models.\<close>

lemma tables_rebuilt:
  assumes "up w dl e" "tables_ok w dl mm" "tmodels mm' = rows" "tcreds mm' = tcreds mm"
    "distinct (map d_ID rows)" "\<forall>r \<in> set rows. where_enabled dl r \<longleftrightarrow> isEnabled r" "good_rows (row_of mm')"
    "tmodels mm'' = rows" "tcreds mm'' = tcreds mm" "mclaims mm'' = mclaims (rebuildClaimsLocked_db (conn e) mm')"
  shows "tables_ok w dl mm''"
proof -
  have r: "row_of mm'' = row_of mm'" using assms(3,8) by (intro row_of_cong) simp
  have "ids_distinct mm'" using assms(3,5) by (simp add: ids_distinct_def)
  from mclaims_rebuilt [OF assms(1) this _ assms(7)] show ?thesis
    using assms by (simp add: tables_ok_def r ids_distinct_def)
qed

lemma up_up: "up w dl e \<Longrightarrow> dialect (conn e) = dl" "up w dl e \<Longrightarrow> cipher e = w" "up w dl e \<Longrightarrow> visits e"
  by (simp_all add: up_def)

definition written :: "call \<Rightarrow> ModelConfig \<Rightarrow> dbModelRow" where
  "written e m = bound_row (dialect (conn e)) (float_text (conn e)) m"

lemma after_write_tables:
  "tmodels (after_write d m mm) = tmodels mm" "tcreds (after_write d m mm) = tcreds mm"
  "mclaims (after_write d m mm)
     = mclaims (rebuildClaimsLocked_db d (publishCredentialsChanged (ID m) (on_model_changed (ID m) (Credentials m) mm)))"
  by (simp_all add: after_write_def publishCredentialsChanged_def on_model_changed_def split: option.split)

lemma rebuild_claims_of: "tmodels mm = tmodels mm' \<Longrightarrow> mclaims (rebuildClaimsLocked_db d mm) = mclaims (rebuildClaimsLocked_db d mm')"
  by (simp add: rebuildClaimsLocked_db_def Let_def)

lemma add_accepted:
  assumes "AddModel_db w d m mm = (Accepted, mm')" "Internal m"
  shows "ID m \<noteq> []" "validateBeforeWrite w d mm m = None"
    "mm' = after_write d m (mm\<lparr>tmodels := insert_row (bound_row (dialect d) (float_text d) m) (tmodels mm)\<rparr>)"
proof -
  have "m\<lparr>Internal := True\<rparr> = m" using assms(2) by simp
  then show "ID m \<noteq> []" "validateBeforeWrite w d mm m = None"
    "mm' = after_write d m (mm\<lparr>tmodels := insert_row (bound_row (dialect d) (float_text d) m) (tmodels mm)\<rparr>)"
    using assms(1) by (auto simp: AddModel_db_def Let_def split: if_splits option.splits)
qed

lemma update_accepted:
  assumes "UpdateModel_db w d i m mm = (Accepted, mm')" "Internal m"
  shows "ID m \<noteq> []" "ID m = i" "validateBeforeWrite w d mm m = None" "find_row i (tmodels mm) \<noteq> None"
    "mm' = after_write d m (mm\<lparr>tmodels := update_row i (bound_row (dialect d) (float_text d) m) (tmodels mm)\<rparr>)"
proof -
  have "m\<lparr>Internal := True\<rparr> = m" using assms(2) by simp
  then show "ID m \<noteq> []" "ID m = i" "validateBeforeWrite w d mm m = None" "find_row i (tmodels mm) \<noteq> None"
    "mm' = after_write d m (mm\<lparr>tmodels := update_row i (bound_row (dialect d) (float_text d) m) (tmodels mm)\<rparr>)"
    using assms(1) by (auto simp: UpdateModel_db_def Let_def row_found_def split: if_splits option.splits)
qed

lemma tables_simps:
  assumes "tables_ok w dl mm"
  shows "ids_distinct mm" "good_rows (row_of mm)" "distinct (map d_ID (tmodels mm))"
    "\<forall>r \<in> set (tmodels mm). where_enabled dl r \<longleftrightarrow> isEnabled r"
  using assms by (simp_all add: tables_ok_def ids_distinct_def)

lemma add_tables:
  assumes "up w dl e" "tables_ok w dl mm" "plain_write e mm m" "Internal m" "AddModel_db w (conn e) m mm = (Accepted, mm')"
  shows "fits_rows (row_of mm) m" "row_of mm' = (row_of mm)(ID m := Some m)" "tcreds mm' = tcreds mm" "tables_ok w dl mm'"
proof -
  note t = tables_simps [OF assms(2)] and acc = add_accepted [OF assms(5,4)]
  let ?rows = "insert_row (bound_row (dialect (conn e)) (float_text (conn e)) m) (tmodels mm)"
  let ?mm = "mm\<lparr>tmodels := ?rows\<rparr>"
  show fits: "fits_rows (row_of mm) m" using write_fits [OF assms(1) t(1) assms(3) acc(1,2)] .
  have row: "row_of ?mm = (row_of mm)(ID m := Some m)" using row_of_insert assms(3) by (simp add: plain_write_def)
  show "row_of mm' = (row_of mm)(ID m := Some m)"
    using row row_of_cong [of mm' ?mm] acc(3) by (simp add: after_write_tables)
  show tc: "tcreds mm' = tcreds mm" using acc(3) by (simp add: after_write_tables)
  show "tables_ok w dl mm'"
  proof (rule tables_rebuilt [OF assms(1,2), of ?mm ?rows, rotated -1])
    show "mclaims mm' = mclaims (rebuildClaimsLocked_db (conn e) ?mm)"
      unfolding acc(3) after_write_tables by (rule rebuild_claims_of) (simp add: publish_frame)
    show "good_rows (row_of ?mm)" unfolding row by (rule good_rows_put [OF t(2) fits])
    show "\<forall>r \<in> set ?rows. where_enabled dl r \<longleftrightarrow> isEnabled r"
      using enabled_kept(1) [OF t(4)] by (simp only: up_up(1) [OF assms(1)])
    show "tmodels mm' = ?rows" unfolding acc(3) after_write_tables by simp
  qed (use distinct_insert [OF t(3)] tc in simp_all)
qed

lemma update_tables:
  assumes "up w dl e" "tables_ok w dl mm" "plain_write e mm m" "Internal m" "UpdateModel_db w (conn e) i m mm = (Accepted, mm')"
  shows "fits_rows (row_of mm) m" "ID m = i" "row_of mm' = (row_of mm)(i := Some m)" "tcreds mm' = tcreds mm" "tables_ok w dl mm'"
proof -
  note t = tables_simps [OF assms(2)] and acc = update_accepted [OF assms(5,4)]
  let ?rows = "update_row i (bound_row (dialect (conn e)) (float_text (conn e)) m) (tmodels mm)"
  let ?mm = "mm\<lparr>tmodels := ?rows\<rparr>"
  show fits: "fits_rows (row_of mm) m" using write_fits [OF assms(1) t(1) assms(3) acc(1,3)] .
  show "ID m = i" using acc(2) .
  have row: "row_of ?mm = (row_of mm)(i := Some m)"
    using row_of_update [OF _ acc(2,4)] assms(3) by (simp add: plain_write_def)
  show "row_of mm' = (row_of mm)(i := Some m)"
    using row row_of_cong [of mm' ?mm] acc(5) by (simp add: after_write_tables)
  show tc: "tcreds mm' = tcreds mm" using acc(5) by (simp add: after_write_tables)
  show "tables_ok w dl mm'"
  proof (rule tables_rebuilt [OF assms(1,2), of ?mm ?rows, rotated -1])
    show "mclaims mm' = mclaims (rebuildClaimsLocked_db (conn e) ?mm)"
      unfolding acc(5) after_write_tables by (rule rebuild_claims_of) (simp add: publish_frame)
    show "good_rows (row_of ?mm)" unfolding row using good_rows_put [OF t(2) fits] by (simp only: acc(2))
    show "\<forall>r \<in> set ?rows. where_enabled dl r \<longleftrightarrow> isEnabled r"
      using enabled_kept(2) [OF t(4) acc(2)] by (simp only: up_up(1) [OF assms(1)])
    show "tmodels mm' = ?rows" unfolding acc(5) after_write_tables by simp
  qed (use distinct_update [OF t(3)] tc in simp_all)
qed

lemma remove_tables:
  assumes "up w dl e" "tables_ok w dl mm" "RemoveModel_db (conn e) i mm = (Accepted, mm')"
  shows "row_of mm' = (row_of mm)(i := None)" "tcreds mm' = tcreds mm" "tables_ok w dl mm'"
proof -
  note t = tables_simps [OF assms(2)]
  let ?mm = "mm\<lparr>tmodels := delete_row i (tmodels mm)\<rparr>"
  let ?mm1 = "rebuildClaimsLocked_db (conn e) (on_model_changed i [] ?mm)"
  have mm': "mm' = ?mm1 \<or> mm' = on_group_changed i [] ?mm1"
    using assms(3) by (auto simp: RemoveModel_db_def Let_def split: if_splits option.splits)
  then have f: "tmodels mm' = delete_row i (tmodels mm)" "tcreds mm' = tcreds mm"
    "mclaims mm' = mclaims (rebuildClaimsLocked_db (conn e) (on_model_changed i [] ?mm))" by auto
  show "row_of mm' = (row_of mm)(i := None)" using row_of_cong [of mm' ?mm] f(1) by (simp add: row_of_delete)
  show "tcreds mm' = tcreds mm" using f(2) .
  show "tables_ok w dl mm'"
  proof (rule tables_rebuilt [OF assms(1,2), of ?mm "delete_row i (tmodels mm)", rotated -1])
    show "mclaims mm' = mclaims (rebuildClaimsLocked_db (conn e) ?mm)"
      unfolding f(3) by (rule rebuild_claims_of) simp
    show "good_rows (row_of ?mm)" unfolding row_of_delete by (rule good_rows_del [OF t(2)])
    show "\<forall>r \<in> set (delete_row i (tmodels mm)). where_enabled dl r \<longleftrightarrow> isEnabled r" using enabled_kept(3) [OF t(4)] .
  qed (use distinct_delete [OF t(3)] f in simp_all)
qed

section \<open>Credentials\<close>

definition stored_key :: "world \<Rightarrow> ModelsManager \<Rightarrow> string \<Rightarrow> CredentialConfig option" where
  "stored_key w mm i = (case find_cred i (tcreds mm) of None \<Rightarrow> None | Some r \<Rightarrow> strict_credential w r)"

definition creds_cached :: "world \<Rightarrow> CachedModelsConfig \<Rightarrow> ModelsManager \<Rightarrow> bool" where
  "creds_cached w c mm \<longleftrightarrow> (\<forall>i. credLookup c i = stored_key w mm i \<and>
     (fmlookup (credsByID c) i = None \<longleftrightarrow> find_cred i (tcreds mm) = None))"

lemma usable_good [simp]: "usable (good_entry e k) = Some k"
  by (simp add: usable_def good_entry_def)

lemma credLookup_upd [simp]:
  "credLookup (c\<lparr>credsByID := fmupd i k cs\<rparr>) j = (if j = i then usable k else credLookup (c\<lparr>credsByID := cs\<rparr>) j)"
  "credLookup (c\<lparr>credsByID := fmdrop i cs\<rparr>) j = (if j = i then None else credLookup (c\<lparr>credsByID := cs\<rparr>) j)"
  by (simp_all add: credLookup_def)

lemma creds_cached_cong:
  "credsByID c' = credsByID c \<Longrightarrow> tcreds mm' = tcreds mm \<Longrightarrow> creds_cached w c mm \<Longrightarrow> creds_cached w c' mm'"
  by (simp add: creds_cached_def credLookup_def stored_key_def)

lemma find_cred_some: "find_cred i rs = Some r \<Longrightarrow> r \<in> set rs \<and> k_ID r = i"
  by (auto simp: find_cred_def find_Some_iff)

lemma find_cred_iff: "distinct (map k_ID rs) \<Longrightarrow> find_cred i rs = Some r \<longleftrightarrow> r \<in> set rs \<and> k_ID r = i"
  by (induction rs) (auto simp: find_cred_def image_iff)

lemma find_cred_append: "find_cred i (rs @ rs') = (case find_cred i rs of Some r \<Rightarrow> Some r | None \<Rightarrow> find_cred i rs')"
  by (induction rs) (auto simp: find_cred_def)

lemma find_cred_one [simp]: "find_cred i [r] = (if k_ID r = i then Some r else None)"
  by (simp add: find_cred_def)

lemma find_cred_replace:
  "k_ID r = j \<Longrightarrow> find_cred i (map (\<lambda>r'. if k_ID r' = j then r else r') rs) =
     (if i = j \<and> find_cred j rs \<noteq> None then Some r else find_cred i rs)"
  by (induction rs) (auto simp: find_cred_def)

lemma find_cred_filter: "find_cred i (filter (\<lambda>r. k_ID r \<noteq> j) rs) = (if i = j then None else find_cred i rs)"
  by (induction rs) (auto simp: find_cred_def)

lemma stored_cred_reads:
  assumes "crypto_ok w" "stored_cred w k = Some r"
  shows "strict_credential w r = Some k" "k_ID r = ID_c k"
  using assms
  by (auto simp: stored_cred_def encrypted_def strict_credential_def row_credential_def crypto_ok_def Let_def
      split: if_splits)

lemma tables_creds:
  "tables_ok w dl mm \<Longrightarrow> tmodels mm' = tmodels mm \<Longrightarrow> mclaims mm' = mclaims mm \<Longrightarrow> distinct (map k_ID (tcreds mm')) \<Longrightarrow>
     \<forall>k \<in> set (tcreds mm'). strict_credential w k \<noteq> None \<Longrightarrow> tables_ok w dl mm'"
  using row_of_cong [of mm' mm] by (simp add: tables_ok_def ids_distinct_def)

lemma tables_keys:
  "tables_ok w dl mm \<Longrightarrow> distinct (map k_ID (tcreds mm))"
  "tables_ok w dl mm \<Longrightarrow> \<forall>k \<in> set (tcreds mm). strict_credential w k \<noteq> None"
  by (simp_all add: tables_ok_def)

lemma add_cred_cached:
  assumes "crypto_ok w" "tables_ok w dl mm" "creds_cached w c mm" "AddCredential_db w d k mm = (Accepted, mm')"
  shows "tables_ok w dl mm'" "row_of mm' = row_of mm"
    "creds_cached w (c\<lparr>credsByID := fmupd (ID_c k) (good_entry e k) (credsByID c)\<rparr>) mm'"
proof -
  obtain r where r: "stored_cred w k = Some r" "find_cred (k_ID r) (tcreds mm) = None" "mm' = mm\<lparr>tcreds := tcreds mm @ [r]\<rparr>"
    using assms(4) by (auto simp: AddCredential_db_def split: verdict.splits option.splits if_splits)
  note sr = stored_cred_reads [OF assms(1) r(1)]
  show rows: "row_of mm' = row_of mm" using r(3) by (intro row_of_cong) simp
  have "k_ID r \<notin> k_ID ` set (tcreds mm)" using r(2) by (auto simp: find_cred_def find_None_iff)
  then show "tables_ok w dl mm'"
    using tables_creds [OF assms(2), of mm'] tables_keys [OF assms(2)] r(3) sr by simp
  show "creds_cached w (c\<lparr>credsByID := fmupd (ID_c k) (good_entry e k) (credsByID c)\<rparr>) mm'"
    using assms(3) r(2,3) sr by (auto simp: creds_cached_def stored_key_def find_cred_append split: option.split)
qed

lemma update_cred_stored:
  assumes "crypto_ok w" "tables_ok w dl mm" "UpdateCredential_db w d i k mm = (Accepted, mm')"
  shows "tables_ok w dl mm'" "row_of mm' = row_of mm" "ID_c k = i"
    "find_cred j (tcreds mm') = None \<longleftrightarrow> find_cred j (tcreds mm) = None"
    "stored_key w mm' j = (if j = i then Some k else stored_key w mm j)"
proof -
  obtain r where r: "stored_cred w k = Some r" "find_cred i (tcreds mm) \<noteq> None" "ID_c k = i"
      "mm' = mm\<lparr>tcreds := map (\<lambda>r'. if k_ID r' = i then r else r') (tcreds mm)\<rparr>"
    using assms(3) by (auto simp: UpdateCredential_db_def split: verdict.splits option.splits if_splits)
  note sr = stored_cred_reads [OF assms(1) r(1)]
  have ki: "k_ID r = i" using sr(2) r(3) by simp
  show rows: "row_of mm' = row_of mm" using r(4) by (intro row_of_cong) simp
  show "ID_c k = i" using r(3) .
  have "map k_ID (tcreds mm') = map k_ID (tcreds mm)" using r(4) ki by auto
  then have "distinct (map k_ID (tcreds mm'))" using tables_keys(1) [OF assms(2)] by simp
  moreover have "\<forall>k \<in> set (tcreds mm'). strict_credential w k \<noteq> None"
    using tables_keys(2) [OF assms(2)] r(4) sr by auto
  ultimately show "tables_ok w dl mm'" using tables_creds [OF assms(2), of mm'] r(4) by simp
  show "find_cred j (tcreds mm') = None \<longleftrightarrow> find_cred j (tcreds mm) = None"
    "stored_key w mm' j = (if j = i then Some k else stored_key w mm j)"
    using r(2,4) sr by (auto simp: stored_key_def find_cred_replace [OF ki])
qed

lemma update_cred_cached:
  assumes "crypto_ok w" "up w dl e" "tables_ok w dl mm" "creds_cached w c mm"
    "UpdateCredential_db w (conn e) i k mm = (Accepted, mm')"
  shows "creds_cached w (updated_cred e i (GetCredentialStrict w (conn e) mm' (ID_c k)) c) mm'"
proof -
  note u = update_cred_stored [OF assms(1,3,5)]
  have "GetCredentialStrict w (conn e) mm' i = Inr k"
    using u(4,5) [of i] assms(2)
    by (auto simp: GetCredentialStrict_def up_def stored_key_def split: option.splits)
  then have eq: "updated_cred e i (GetCredentialStrict w (conn e) mm' (ID_c k)) c
      = c\<lparr>credsByID := fmupd i (good_entry e k) (credsByID c)\<rparr>"
    using u(3) by (simp add: updated_cred_def)
  have "find_cred i (tcreds mm) \<noteq> None"
    using assms(5) by (auto simp: UpdateCredential_db_def split: verdict.splits option.splits if_splits)
  then show ?thesis using assms(4) u(4,5) by (simp add: eq creds_cached_def)
qed

lemma remove_cred_cached:
  assumes "tables_ok w dl mm" "creds_cached w c mm" "RemoveCredential_db d i mm = (Accepted, mm')"
  shows "tables_ok w dl mm'" "row_of mm' = row_of mm" "creds_cached w (c\<lparr>credsByID := fmdrop i (credsByID c)\<rparr>) mm'"
proof -
  have f: "tmodels mm' = tmodels mm" "mclaims mm' = mclaims mm" "tcreds mm' = filter (\<lambda>r. k_ID r \<noteq> i) (tcreds mm)"
    using assms(3) by (auto simp: RemoveCredential_db_def Let_def split: option.splits if_splits)
  show rows: "row_of mm' = row_of mm" using f(1) by (rule row_of_cong)
  show "tables_ok w dl mm'"
    using tables_creds [OF assms(1), of mm'] tables_keys [OF assms(1)] f by (simp add: distinct_map_filter)
  show "creds_cached w (c\<lparr>credsByID := fmdrop i (credsByID c)\<rparr>) mm'"
    using assms(2) f(3) by (simp add: creds_cached_def stored_key_def find_cred_filter)
qed

section \<open>Snapshots of the tables\<close>

lemma fold_upd_lookup:
  "distinct (map k xs) \<Longrightarrow>
     fmlookup (fold (\<lambda>x. fmupd (k x) (v x)) xs f) i = Some y \<longleftrightarrow>
       (\<exists>x \<in> set xs. k x = i \<and> v x = y) \<or> i \<notin> k ` set xs \<and> fmlookup f i = Some y"
proof (induction xs arbitrary: f)
  case (Cons x xs)
  then show ?case by (cases "k x = i") auto
qed simp

lemma strict_rows_list:
  "strict_rows w acc rs = (cs, None) \<Longrightarrow> \<exists>ks. cs = acc @ ks \<and> map (strict_credential w) rs = map Some ks"
proof (induction rs arbitrary: acc)
  case (Cons r rs)
  then obtain c where c: "strict_credential w r = Some c" "strict_rows w (acc @ [c]) rs = (cs, None)"
    by (auto split: option.splits)
  from Cons.IH [OF c(2)] obtain ks where "cs = (acc @ [c]) @ ks" "map (strict_credential w) rs = map Some ks" by blast
  then show ?case using c(1) by (intro exI [of _ "c # ks"]) simp
qed simp

lemma strict_credential_ID: "strict_credential w r = Some k \<Longrightarrow> ID_c k = k_ID r"
  by (auto simp: strict_credential_def row_credential_def Let_def split: if_splits)

lemma snapshot_rows:
  assumes "returns_rows (conn e)" "strictSnapshot e mm = Inr (ml, el, cs)"
  shows "mset ml = image_mset dbModelRowToConfig (mset (tmodels mm))"
    "\<exists>rs. mset rs = mset (tcreds mm) \<and> map (strict_credential (cipher e)) rs = map Some cs"
proof -
  have ms: "GetModelsStrict (conn e) mm = Inr ml" and ks: "GetCredentialsStrict (cipher e) (conn e) mm = (cs, None)"
    using assms(2) by (auto simp: strictSnapshot_def split: sum.splits option.splits prod.splits)
  have "ml = map dbModelRowToConfig (arrange (conn e) SelectAllModels (tmodels mm))"
    using ms by (auto simp: GetModelsStrict_def scanModels_def split: if_splits option.splits)
  then show "mset ml = image_mset dbModelRowToConfig (mset (tmodels mm))" using assms(1) by (simp add: returns_rows_def)
  have "strict_rows (cipher e) [] (arrange_creds (conn e) (tcreds mm)) = (cs, None)"
    using ks by (auto simp: GetCredentialsStrict_def Let_def split: if_splits option.splits prod.splits)
  from strict_rows_list [OF this] have "map (strict_credential (cipher e)) (arrange_creds (conn e) (tcreds mm)) = map Some cs" by simp
  then show "\<exists>rs. mset rs = mset (tcreds mm) \<and> map (strict_credential (cipher e)) rs = map Some cs"
    using assms(1) unfolding returns_rows_def by blast
qed

lemma applied_rows:
  assumes "mset ml = image_mset dbModelRowToConfig (mset (tmodels mm))" "ids_distinct mm"
  shows "fmlookup (modelsByID (applySnapshot e (ml, el, cs) c)) i = row_of mm i"
proof -
  have "mset (map ID ml) = image_mset ID (image_mset dbModelRowToConfig (mset (tmodels mm)))" using assms(1) by simp
  also have "\<dots> = mset (map d_ID (tmodels mm))" by (simp add: multiset.map_comp comp_def)
  finally have dist: "distinct (map ID ml)" using assms(2) unfolding ids_distinct_def by (metis mset_eq_imp_distinct_iff)
  have set: "set ml = dbModelRowToConfig ` set (tmodels mm)"
    using arg_cong [OF assms(1), of set_mset] by simp
  have "fmlookup (modelsByID (applySnapshot e (ml, el, cs) c)) i = Some m \<longleftrightarrow> row_of mm i = Some m" for m
  proof -
    have "fmlookup (modelsByID (applySnapshot e (ml, el, cs) c)) i = Some m \<longleftrightarrow> m \<in> set ml \<and> ID m = i"
      using fold_upd_lookup [OF dist, of "\<lambda>m. m" fmempty i m] by (auto simp: applySnapshot_def)
    also have "\<dots> \<longleftrightarrow> row_of mm i = Some m"
      using row_of_row [OF assms(2)] row_of_some [of mm i m] by (auto simp: set)
    finally show ?thesis .
  qed
  then show ?thesis by (metis option.exhaust)
qed

lemma applied_creds:
  assumes "mset rs = mset (tcreds mm)" "map (strict_credential w) rs = map Some cs" "distinct (map k_ID (tcreds mm))"
  shows "creds_cached w (applySnapshot e (ml, el, cs) c) mm"
proof -
  have ids: "map ID_c cs = map k_ID rs"
    using assms(2) by (induction rs arbitrary: cs) (auto dest: strict_credential_ID)
  have dist: "distinct (map ID_c cs)"
    unfolding ids using assms(1,3) by (metis mset_eq_imp_distinct_iff mset_map)
  have look: "fmlookup (credsByID (applySnapshot e (ml, el, cs) c)) i = Some y \<longleftrightarrow> (\<exists>k \<in> set cs. ID_c k = i \<and> good_entry e k = y)" for i y
    using fold_upd_lookup [OF dist, of "good_entry e" fmempty i y] by (auto simp: applySnapshot_def)
  have set: "set rs = set (tcreds mm)" using assms(1) by (metis set_mset_mset)
  have row: "(\<exists>r \<in> set rs. strict_credential w r = Some k) \<longleftrightarrow> k \<in> set cs" for k
  proof -
    have img: "strict_credential w ` set rs = Some ` set cs" using arg_cong [OF assms(2), of set] by simp
    have "(\<exists>r \<in> set rs. strict_credential w r = Some k) \<longleftrightarrow> Some k \<in> strict_credential w ` set rs" by force
    then show ?thesis unfolding img by auto
  qed
  have found: "find_cred i (tcreds mm) = Some r \<longleftrightarrow> r \<in> set rs \<and> k_ID r = i" for i r
    using find_cred_iff [OF assms(3)] by (simp add: set)
  show ?thesis unfolding creds_cached_def
  proof
    fix i
    show "credLookup (applySnapshot e (ml, el, cs) c) i = stored_key w mm i
      \<and> (fmlookup (credsByID (applySnapshot e (ml, el, cs) c)) i = None \<longleftrightarrow> find_cred i (tcreds mm) = None)"
    proof (cases "find_cred i (tcreds mm)")
      case None
      have "fmlookup (credsByID (applySnapshot e (ml, el, cs) c)) i = None"
      proof (rule ccontr)
        assume "\<not> ?thesis"
        then obtain k where k: "k \<in> set cs" "ID_c k = i" using look by fastforce
        then obtain r where "r \<in> set rs" "strict_credential w r = Some k" using row by blast
        then have "find_cred i (tcreds mm) = Some r" using k strict_credential_ID found by metis
        then show False using None by simp
      qed
      then show ?thesis using None by (simp add: credLookup_def stored_key_def)
    next
      case (Some r)
      then have r: "r \<in> set rs" "k_ID r = i" using found by blast+
      have "strict_credential w r \<in> set (map Some cs)" using r(1) assms(2) by (metis image_eqI set_map)
      then obtain k where k: "strict_credential w r = Some k" "k \<in> set cs" by auto
      have "fmlookup (credsByID (applySnapshot e (ml, el, cs) c)) i = Some (good_entry e k)"
        using look k r(2) strict_credential_ID by blast
      then show ?thesis using Some k by (simp add: credLookup_def stored_key_def)
    qed
  qed
qed

section \<open>Runs\<close>

definition in_step :: "world \<Rightarrow> CachedModelsConfig \<Rightarrow> ModelsManager \<Rightarrow> bool" where
  "in_step w c mm \<longleftrightarrow> rows_cached c (row_of mm) \<and> claims_cached c (row_of mm) \<and> creds_cached w c mm"

text \<open>A driver that may fail at will, but reads the tables and knows the dialect and the keys.\<close>

definition reading :: "world \<Rightarrow> call \<Rightarrow> bool" where
  "reading w e \<longleftrightarrow> visits e \<and> cipher e = w \<and> returns_rows (conn e)"

lemma up_reading: "up w dl e \<Longrightarrow> reading w e"
  by (simp add: up_def reading_def)

lemma in_step_eq:
  assumes "modelsByID c' = modelsByID c" "negByID c' = negByID c" "claimsByID c' = claimsByID c" "credsByID c' = credsByID c"
  shows "in_step w c' mm \<longleftrightarrow> in_step w c mm"
proof -
  have "rows_cached c' R \<longleftrightarrow> rows_cached c R" for R
    by (rule iffI; erule rows_cached_eq [rotated 2]) (simp_all add: assms)
  then show ?thesis
    by (simp add: in_step_def claims_cached_def creds_cached_def credLookup_def assms)
qed

lemma in_step_frame [simp]:
  "in_step w (markUnhealthy c) mm = in_step w c mm" "in_step w (storeNegativeByName e n c) mm = in_step w c mm"
  "in_step w (keep_snapshot e c) mm = in_step w c mm" "in_step w (Stop_mc c) mm = in_step w c mm"
  by (intro in_step_eq; simp add: markUnhealthy_def storeNegativeByName_def keep_snapshot_def Stop_mc_def)+

lemma strict_read:
  "GetModelStrict d mm i = Inr m \<Longrightarrow> row_of mm i = Some m"
  "GetModelStrict d mm i = Inl ModelNotFound \<Longrightarrow> row_of mm i = None"
  by (auto simp: GetModelStrict_def getModelStrict_def row_of_def split: if_splits option.splits)

lemma strict_read_name:
  assumes "returns_rows d" "ids_distinct mm" "GetModelByNameStrict d mm n = Inr m"
  shows "row_of mm (ID m) = Some m"
proof -
  obtain r where r: "List.find (\<lambda>r. d_Name r = n) (arrange d SelectModelByName (tmodels mm)) = Some r" "m = dbModelRowToConfig r"
    using assms(3) by (auto simp: GetModelByNameStrict_def getModelStrict_def split: if_splits option.splits)
  then have "r \<in> set (arrange d SelectModelByName (tmodels mm))" by (metis find_Some_iff nth_mem)
  then have "r \<in> set (tmodels mm)" using assms(1) by (simp add: arrange_set)
  then show ?thesis using row_of_row [OF assms(2)] r(2) by simp
qed

lemma cacheModel_in_step:
  assumes "visits e" "good_rows (row_of mm)" "in_step w c mm" "row_of mm (ID m) = Some m"
  shows "in_step w (cacheModel e m c) mm"
proof -
  let ?R = "row_of mm"
  have R: "rows_cached c ?R" "claims_cached c ?R" "creds_cached w c mm" using assms(3) by (simp_all add: in_step_def)
  have "?R(ID m := Some m) = ?R" using assms(4) by (metis fun_upd_triv)
  then have i: "rows_cached (install_row m c) ?R" using rows_cached_install [OF R(1), of m] by simp
  have c: "creds_cached w (cacheModel e m c) mm"
    by (rule creds_cached_cong [OF _ _ R(3)]) (simp_all add: cacheModel_def Let_def)
  show ?thesis
  proof (cases "IsGroup m")
    case True
    then show ?thesis using rebuilt [OF assms(1,2) i] c by (simp add: in_step_def cacheModel_def Let_def)
  next
    case False
    have "rows_cached (rebuild_lists e (install_row m c)) ?R" by (rule rows_cached_eq [OF _ _ i]) simp_all
    then show ?thesis using False R(2) c by (simp add: in_step_def cacheModel_def Let_def claims_cached_def)
  qed
qed

lemma neg_in_step:
  assumes "in_step w c mm" "row_of mm i = None"
  shows "in_step w (storeNegativeByID e i c) mm"
proof -
  let ?c = "storeNegativeByID e i c"
  have R: "rows_cached c (row_of mm)" "claims_cached c (row_of mm)" "creds_cached w c mm" using assms(1) by (simp_all add: in_step_def)
  have "rows_cached ?c (row_of mm)"
  proof (rule rows_cachedI)
    fix j n t
    note D = rows_cachedD [OF R(1), of j]
    show "fmlookup (modelsByID ?c) j = Some n \<Longrightarrow> row_of mm j = Some n" using D(1) [of n] by (simp add: storeNegativeByID_def)
    show "row_of mm j = Some n \<Longrightarrow> IsGroup n \<Longrightarrow> fmlookup (modelsByID ?c) j = Some n"
      using D(2) [of n] by (simp add: storeNegativeByID_def)
    show "fmlookup (negByID ?c) j = Some t \<Longrightarrow> row_of mm j = None"
      using D(3) [of t] assms(2) by (simp add: storeNegativeByID_def split: if_splits)
  qed
  moreover have "claims_cached ?c (row_of mm)" "creds_cached w ?c mm"
    using R(2,3) by (simp_all add: claims_cached_def creds_cached_def credLookup_def storeNegativeByID_def)
  ultimately show ?thesis by (simp add: in_step_def)
qed

lemma fill_in_step:
  assumes "visits e" "good_rows (row_of mm)" "in_step w c mm"
  shows "in_step w (snd (fillModelByDirectID e mm c i)) mm"
proof -
  have "in_step w (snd (fill_finish e (GetModelStrict (conn e) mm i) i c)) mm"
  proof (cases "GetModelStrict (conn e) mm i")
    case (Inl x)
    then show ?thesis using assms(3) neg_in_step [OF assms(3)] strict_read(2)
      by (cases x) (auto simp: fill_finish_def)
  next
    case (Inr m)
    then have "row_of mm (ID m) = Some m" using strict_read(1) row_of_ID by metis
    then show ?thesis using Inr cacheModel_in_step [OF assms] by (simp add: fill_finish_def)
  qed
  then show ?thesis using assms(3) by (simp add: fillModelByDirectID_def)
qed

text \<open>
  Reads of the store on their way into the cache. A fill reads the store outside the lock and installs
  the answer later; a sweep reads rows, enabled rows and credentials one after the other and swaps later.
\<close>

datatype store_read = RModel string | RName string | RNative string | RKey string | RSweep

datatype flight =
    FModel string call "strict_error + ModelConfig"
  | FName string call "strict_error + ModelConfig"
  | FNative string call "strict_error + ModelConfig"
  | FKey string call "strict_error + CredentialConfig"
  | FSweep call

fun read_store :: "call \<Rightarrow> ModelsManager \<Rightarrow> store_read \<Rightarrow> flight" where
  "read_store e mm (RModel i) = FModel i e (GetModelStrict (conn e) mm i)"
| "read_store e mm (RName n) = FName n e (GetModelByNameStrict (conn e) mm n)"
| "read_store e mm (RNative i) = FNative i e (GetModelStrict (conn e) mm i)"
| "read_store e mm (RKey i) = FKey i e (GetCredentialStrict (cipher e) (conn e) mm i)"
| "read_store e mm RSweep = FSweep e"

fun call_of :: "flight \<Rightarrow> call" where
  "call_of (FModel i e ans) = e"
| "call_of (FName n e ans) = e"
| "call_of (FNative i e ans) = e"
| "call_of (FKey i e ans) = e"
| "call_of (FSweep e) = e"

text \<open>A fill lands at the time \<open>t\<close>.\<close>

fun land :: "time \<Rightarrow> flight \<Rightarrow> CachedModelsConfig \<Rightarrow> CachedModelsConfig" where
  "land t (FModel i e ans) c = snd (gm_finish (e\<lparr>clock := t\<rparr>) ans i c)"
| "land t (FName n e ans) c = snd (name_finish (e\<lparr>clock := t\<rparr>) ans n c)"
| "land t (FNative i e ans) c = snd (fill_finish (e\<lparr>clock := t\<rparr>) ans i c)"
| "land t (FKey i e ans) c = snd (cred_finish (e\<lparr>clock := t\<rparr>) ans i c)"
| "land t (FSweep e) c = c"

fun is_sweep :: "flight \<Rightarrow> bool" where
  "is_sweep (FSweep e) = True"
| "is_sweep f = False"

definition sweep_swaps :: "strict_error + snapshot \<Rightarrow> CachedModelsConfig \<Rightarrow> CachedModelsConfig \<Rightarrow> bool" where
  "sweep_swaps ans cg c =
     (case ans of
        Inl _ \<Rightarrow> False
      | Inr (modelsList, enabledList, creds) \<Rightarrow>
          \<not> (length modelsList = 0 \<and> length (modelsSnap cg) > 0 \<or> length creds = 0 \<and> map_len (credsByID cg) > 0)
          \<and> \<not> stopped_mc c)"

text \<open>The writes; each writes the store first and updates the cache, under the lock, afterwards.\<close>

datatype write_op = WAdd ModelConfig | WUpdate string ModelConfig | WRemove string
  | WAddKey CredentialConfig | WUpdateKey string CredentialConfig | WRemoveKey string

fun do_write :: "call \<Rightarrow> write_op \<Rightarrow> CachedModelsConfig \<times> ModelsManager
    \<Rightarrow> store_verdict \<times> CachedModelsConfig \<times> ModelsManager" where
  "do_write e (WAdd m) = AddModel_mc e m"
| "do_write e (WUpdate i m) = UpdateModel_mc e i m"
| "do_write e (WRemove i) = RemoveModel_mc e i"
| "do_write e (WAddKey k) = AddCredential_mc e k"
| "do_write e (WUpdateKey i k) = UpdateCredential_mc e i k"
| "do_write e (WRemoveKey i) = RemoveCredential_mc e i"

fun plain_op :: "call \<Rightarrow> ModelsManager \<Rightarrow> write_op \<Rightarrow> bool" where
  "plain_op e mm (WAdd m) = plain_write e mm (m\<lparr>Internal := True\<rparr>)"
| "plain_op e mm (WUpdate i m) = plain_write e mm (m\<lparr>Internal := True\<rparr>)"
| "plain_op e mm op = True"

text \<open>
  Cache and manager together, with the reads in flight and the writes that have changed the store and not
  yet the cache. A read is \<open>True\<close> in \<open>flights\<close> when a write has overlapped it. \<open>dirty\<close> says that an
  overlapped read has landed, or two writes have overlapped, and no sweep that no write overlapped has
  swapped since.
\<close>

record cache_sys =
  sc :: CachedModelsConfig
  sm :: ModelsManager
  flights :: "(flight \<times> bool) list"
  writes :: "(CachedModelsConfig \<Rightarrow> CachedModelsConfig) list"
  dirty :: bool

definition drop_at :: "nat \<Rightarrow> 'a list \<Rightarrow> 'a list" where
  "drop_at i xs = take i xs @ drop (Suc i) xs"

text \<open>
  The steps, each with the call it belongs to. Reads see any driver. What an overlapped sweep has read is
  arbitrary, since the write may fall between its three statements. Accepted writes see a database that is
  up; \<open>write_begins\<close> writes the store, \<open>write_lands\<close> the cache. Whatever else happens in the manager
  (engines, bus, drain loop) leaves its tables alone.
\<close>

inductive cache_step :: "world \<Rightarrow> Dialect \<Rightarrow> call \<Rightarrow> cache_sys \<Rightarrow> cache_sys \<Rightarrow> bool" for w dl where
  read_begins: "reading w e \<Longrightarrow>
     cache_step w dl e s (s\<lparr>flights := flights s @ [(read_store e (sm s) r, writes s \<noteq> [])]\<rparr>)"
| fill_lands: "i < length (flights s) \<Longrightarrow> flights s ! i = (f, b) \<Longrightarrow> \<not> is_sweep f \<Longrightarrow>
     cache_step w dl (call_of f) s (s\<lparr>sc := land t f (sc s), flights := drop_at i (flights s), dirty := (dirty s \<or> b)\<rparr>)"
| sweep_lands: "i < length (flights s) \<Longrightarrow> flights s ! i = (FSweep e, b) \<Longrightarrow> b \<or> ans = strictSnapshot e (sm s) \<Longrightarrow>
     cache_step w dl e s (s\<lparr>sc := reconcile_sections (e\<lparr>clock := t\<rparr>) ans cg (sc s), flights := drop_at i (flights s),
       dirty := (b \<or> dirty s \<and> \<not> sweep_swaps ans cg (sc s))\<rparr>)"
| write_begins: "up w dl e \<Longrightarrow> plain_op e (sm s) op \<Longrightarrow> (\<And>c. do_write e op (c, sm s) = (Accepted, f c, mm')) \<Longrightarrow>
     cache_step w dl e s (s\<lparr>sm := mm', writes := writes s @ [f], flights := map (\<lambda>(x, b). (x, True)) (flights s),
       dirty := (dirty s \<or> writes s \<noteq> [])\<rparr>)"
| write_lands: "i < length (writes s) \<Longrightarrow>
     cache_step w dl e s (s\<lparr>sc := (writes s ! i) (sc s), writes := drop_at i (writes s)\<rparr>)"
| write_refused: "do_write e op (sc s, sm s) = (v, c', mm') \<Longrightarrow> v \<noteq> Accepted \<Longrightarrow>
     cache_step w dl e s (s\<lparr>sc := c', sm := mm'\<rparr>)"
| stop: "cache_step w dl e s (s\<lparr>sc := Stop_mc (sc s)\<rparr>)"
| other_work: "tmodels mm' = tmodels (sm s) \<Longrightarrow> tcreds mm' = tcreds (sm s) \<Longrightarrow> mclaims mm' = mclaims (sm s) \<Longrightarrow>
     cache_step w dl e s (s\<lparr>sm := mm'\<rparr>)"

definition booted :: "CachedModelsConfig \<Rightarrow> ModelsManager \<Rightarrow> cache_sys" where
  "booted c mm = \<lparr>sc = c, sm = mm, flights = [], writes = [], dirty = False\<rparr>"

inductive cache_reach :: "world \<Rightarrow> Dialect \<Rightarrow> cache_sys \<Rightarrow> bool" for w dl where
  boot: "tables_ok w dl mm \<Longrightarrow> reading w e \<Longrightarrow> NewCachedModelsConfig o1 e mm = Inr c \<Longrightarrow> cache_reach w dl (booted c mm)"
| run: "cache_reach w dl s \<Longrightarrow> cache_step w dl e s s' \<Longrightarrow> cache_reach w dl s'"

text \<open>Nothing overlaps and nothing overlapped is left: between writes, and clean.\<close>

definition at_rest :: "cache_sys \<Rightarrow> bool" where
  "at_rest s \<longleftrightarrow> \<not> dirty s \<and> writes s = []"

lemma call_clock [simp]:
  "visits (e\<lparr>clock := t\<rparr>) = visits e" "conn (e\<lparr>clock := t\<rparr>) = conn e" "cipher (e\<lparr>clock := t\<rparr>) = cipher e"
  "reading w (e\<lparr>clock := t\<rparr>) = reading w e"
  by (simp_all add: visits_def reading_def)

lemma strictSnapshot_clock [simp]: "strictSnapshot (e\<lparr>clock := t\<rparr>) mm = strictSnapshot e mm"
  unfolding strictSnapshot_def call_clock(2,3) ..

text \<open>The answer of a read in flight is still what the store would say.\<close>

fun current :: "world \<Rightarrow> ModelsManager \<Rightarrow> flight \<Rightarrow> bool" where
  "current w mm (FModel i e ans) \<longleftrightarrow>
     (\<forall>m. ans = Inr m \<longrightarrow> row_of mm (ID m) = Some m) \<and> (ans = Inl ModelNotFound \<longrightarrow> row_of mm i = None)"
| "current w mm (FName n e ans) \<longleftrightarrow> (\<forall>m. ans = Inr m \<longrightarrow> row_of mm (ID m) = Some m)"
| "current w mm (FNative i e ans) \<longleftrightarrow>
     (\<forall>m. ans = Inr m \<longrightarrow> row_of mm (ID m) = Some m) \<and> (ans = Inl ModelNotFound \<longrightarrow> row_of mm i = None)"
| "current w mm (FKey i e ans) \<longleftrightarrow>
     (\<forall>k. ans = Inr k \<longrightarrow> stored_key w mm i = Some k \<and> find_cred i (tcreds mm) \<noteq> None) \<and> ans \<noteq> Inl DecryptionFailed"
| "current w mm (FSweep e) \<longleftrightarrow> True"

lemma read_current:
  assumes "reading w e" "tables_ok w dl mm"
  shows "current w mm (read_store e mm r)"
proof (cases r)
  case (RName n)
  then show ?thesis using strict_read_name [of "conn e" mm n] assms tables_simps(1) [OF assms(2)]
    by (auto simp: reading_def)
next
  case (RKey i)
  have "strict_credential w x \<noteq> None" if "find_cred i (tcreds mm) = Some x" for x
    using tables_keys(2) [OF assms(2)] find_cred_some [OF that] by blast
  then show ?thesis using RKey assms(1)
    by (auto simp: reading_def GetCredentialStrict_def stored_key_def split: option.splits if_splits)
qed (auto dest: strict_read simp: row_of_ID)

lemma current_cong:
  "tmodels mm' = tmodels mm \<Longrightarrow> tcreds mm' = tcreds mm \<Longrightarrow> current w mm' f \<longleftrightarrow> current w mm f"
  using row_of_cong [of mm' mm] by (cases f) (auto simp: stored_key_def)

lemma in_step_cong:
  assumes "tmodels mm' = tmodels mm" "tcreds mm' = tcreds mm"
  shows "in_step w c mm' \<longleftrightarrow> in_step w c mm"
  using row_of_cong [OF assms(1)] assms(2) by (simp add: in_step_def creds_cached_def stored_key_def)

lemma tables_cong:
  "tmodels mm' = tmodels mm \<Longrightarrow> tcreds mm' = tcreds mm \<Longrightarrow> mclaims mm' = mclaims mm \<Longrightarrow> tables_ok w dl mm \<Longrightarrow> tables_ok w dl mm'"
  using tables_creds [of w dl mm mm'] tables_keys [of w dl mm] by simp

lemma applied_in_step:
  assumes "reading w e" "tables_ok w dl mm" "strictSnapshot e mm = Inr s"
  shows "in_step w (applySnapshot e s c) mm"
proof -
  obtain ml el cs where s: "s = (ml, el, cs)" by (cases s)
  have e: "visits e" "returns_rows (conn e)" "cipher e = w" using assms(1) by (simp_all add: reading_def)
  note t = tables_simps [OF assms(2)] and snap = snapshot_rows [OF e(2) assms(3) [unfolded s]]
  let ?c = "applySnapshot e (ml, el, cs) c"
  have rows: "fmlookup (modelsByID ?c) i = row_of mm i" for i using applied_rows [OF snap(1) t(1)] .
  have neg: "negByID ?c = fmempty" by (simp add: applySnapshot_def)
  have "rows_cached ?c (row_of mm)" by (rule rows_cachedI) (simp_all add: rows neg)
  moreover obtain rs where "mset rs = mset (tcreds mm)" "map (strict_credential w) rs = map Some cs"
    using snap(2) e(3) by blast
  then have "creds_cached w ?c mm" using applied_creds tables_keys(1) [OF assms(2)] by blast
  moreover have "claims_cached ?c (row_of mm)"
  proof -
    obtain c1 where c1: "?c = (rebuildClaims_mc e c1)\<lparr>lastRefresh := clock e, healthy_mc := True, staleWarnOnce := False\<rparr>"
      by (simp add: applySnapshot_def Let_def)
    then have "modelsByID c1 = modelsByID ?c" "negByID c1 = negByID ?c" by simp_all
    then have "rows_cached c1 (row_of mm)" using \<open>rows_cached ?c (row_of mm)\<close> by (metis rows_cached_eq)
    from claims_rebuilt [OF e(1) t(2) this] show ?thesis by (simp add: c1 claims_cached_def)
  qed
  ultimately show ?thesis by (simp add: s in_step_def)
qed

lemma write_through_cases:
  assumes "write_through f (v0, mm0) c = (v, c', mm')"
  shows "v0 = v" "mm0 = mm'" "v = Accepted \<Longrightarrow> c' = f c" "v \<noteq> Accepted \<Longrightarrow> c' = c"
  using assms by (auto simp: write_through_def split: if_splits)

lemma refused_same:
  "AddModel_db w d m mm = (v, mm') \<Longrightarrow> v \<noteq> Accepted \<Longrightarrow> mm' = mm"
  "UpdateModel_db w d i m mm = (v, mm') \<Longrightarrow> v \<noteq> Accepted \<Longrightarrow> mm' = mm"
  "RemoveModel_db d i mm = (v, mm') \<Longrightarrow> v \<noteq> Accepted \<Longrightarrow> mm' = mm"
  "AddCredential_db w d k mm = (v, mm') \<Longrightarrow> v \<noteq> Accepted \<Longrightarrow> mm' = mm"
  "UpdateCredential_db w d i k mm = (v, mm') \<Longrightarrow> v \<noteq> Accepted \<Longrightarrow> mm' = mm"
  "RemoveCredential_db d i mm = (v, mm') \<Longrightarrow> v \<noteq> Accepted \<Longrightarrow> mm' = mm"
  by (auto simp: AddModel_db_def UpdateModel_db_def RemoveModel_db_def AddCredential_db_def UpdateCredential_db_def
      RemoveCredential_db_def Let_def split: if_splits option.splits verdict.splits)

lemma added_frame [simp]:
  "credsByID (added_row e m c) = credsByID c" "credsByID (updated_row e i m c) = credsByID c"
  "credsByID (removed_row e i c) = credsByID c"
  by (simp_all add: added_row_def updated_row_def removed_row_def Let_def del: evictClaimEntriesLocked.simps split: option.split)

lemma key_frame:
  assumes "in_step w c mm" "row_of mm' = row_of mm" "creds_cached w (c\<lparr>credsByID := cs\<rparr>) mm'"
  shows "in_step w (c\<lparr>credsByID := cs\<rparr>) mm'"
proof -
  have "rows_cached (c\<lparr>credsByID := cs\<rparr>) (row_of mm)"
    by (rule rows_cached_eq [of _ c]) (use assms(1) in \<open>simp_all add: in_step_def\<close>)
  then show ?thesis using assms by (simp add: in_step_def claims_cached_def)
qed

lemma write_in_step:
  assumes "crypto_ok w" "up w dl e" "tables_ok w dl mm" "in_step w c mm"
  shows "plain_write e mm (m\<lparr>Internal := True\<rparr>) \<Longrightarrow> AddModel_mc e m (c, mm) = (v, c', mm') \<Longrightarrow> tables_ok w dl mm' \<and> in_step w c' mm'"
    "plain_write e mm (m\<lparr>Internal := True\<rparr>) \<Longrightarrow> UpdateModel_mc e i m (c, mm) = (v, c', mm') \<Longrightarrow> tables_ok w dl mm' \<and> in_step w c' mm'"
    "RemoveModel_mc e i (c, mm) = (v, c', mm') \<Longrightarrow> tables_ok w dl mm' \<and> in_step w c' mm'"
proof -
  note e = up_up [OF assms(2)] and t = tables_simps [OF assms(3)]
  have R: "rows_cached c (row_of mm)" "creds_cached w c mm" using assms(4) by (simp_all add: in_step_def)
  let ?m = "m\<lparr>Internal := True\<rparr>"
  show "tables_ok w dl mm' \<and> in_step w c' mm'" if pw: "plain_write e mm ?m" and st: "AddModel_mc e m (c, mm) = (v, c', mm')"
  proof -
    obtain v0 mm0 where db: "AddModel_db w (conn e) ?m mm = (v0, mm0)" by fastforce
    note wt = write_through_cases [of "added_row e ?m" v0 mm0 c v c' mm']
    have wt': "write_through (added_row e ?m) (v0, mm0) c = (v, c', mm')"
      using st by (simp add: AddModel_mc_def Let_def e(2) db)
    show ?thesis
    proof (cases "v = Accepted")
      case True
      then have db': "AddModel_db w (conn e) ?m mm = (Accepted, mm')" using db wt(1,2) [OF wt'] by simp
      note a = add_tables [OF assms(2,3) pw _ db', simplified]
      have "creds_cached w c' mm'"
        by (rule creds_cached_cong [OF _ a(3) R(2)]) (use wt(3) [OF wt' True] in simp)
      then show ?thesis
        using a wt(3) [OF wt' True] added_cached [OF e(3) t(2) a(1) R(1)] by (simp add: in_step_def)
    next
      case False
      then show ?thesis using refused_same(1) [OF db] wt [OF wt'] assms(3,4) by simp
    qed
  qed
  show "tables_ok w dl mm' \<and> in_step w c' mm'" if pw: "plain_write e mm ?m" and st: "UpdateModel_mc e i m (c, mm) = (v, c', mm')"
  proof -
    obtain v0 mm0 where db: "UpdateModel_db w (conn e) i ?m mm = (v0, mm0)" by fastforce
    note wt = write_through_cases [of "updated_row e i ?m" v0 mm0 c v c' mm']
    have wt': "write_through (updated_row e i ?m) (v0, mm0) c = (v, c', mm')"
      using st by (simp add: UpdateModel_mc_def Let_def e(2) db)
    show ?thesis
    proof (cases "v = Accepted")
      case True
      then have db': "UpdateModel_db w (conn e) i ?m mm = (Accepted, mm')" using db wt(1,2) [OF wt'] by simp
      note a = update_tables [OF assms(2,3) pw _ db', simplified]
      have "creds_cached w c' mm'"
        by (rule creds_cached_cong [OF _ a(4) R(2)]) (use wt(3) [OF wt' True] in simp)
      then show ?thesis
        using a wt(3) [OF wt' True] updated_cached [OF e(3) t(2) a(1) R(1), of i] by (simp add: in_step_def)
    next
      case False
      then show ?thesis using refused_same(2) [OF db] wt [OF wt'] assms(3,4) by simp
    qed
  qed
  show "tables_ok w dl mm' \<and> in_step w c' mm'" if st: "RemoveModel_mc e i (c, mm) = (v, c', mm')"
  proof -
    obtain v0 mm0 where db: "RemoveModel_db (conn e) i mm = (v0, mm0)" by fastforce
    note wt = write_through_cases [of "removed_row e i" v0 mm0 c v c' mm']
    have wt': "write_through (removed_row e i) (v0, mm0) c = (v, c', mm')"
      using st by (simp add: RemoveModel_mc_def db)
    show ?thesis
    proof (cases "v = Accepted")
      case True
      then have db': "RemoveModel_db (conn e) i mm = (Accepted, mm')" using db wt(1,2) [OF wt'] by simp
      note a = remove_tables [OF assms(2,3) db']
      have "creds_cached w c' mm'"
        by (rule creds_cached_cong [OF _ a(2) R(2)]) (use wt(3) [OF wt' True] in simp)
      then show ?thesis
        using a wt(3) [OF wt' True] removed_cached [OF e(3) t(2) R(1), of i] by (simp add: in_step_def)
    next
      case False
      then show ?thesis using refused_same(3) [OF db] wt [OF wt'] assms(3,4) by simp
    qed
  qed
qed

lemma key_write_in_step:
  assumes "crypto_ok w" "up w dl e" "tables_ok w dl mm" "in_step w c mm"
  shows "AddCredential_mc e k (c, mm) = (v, c', mm') \<Longrightarrow> tables_ok w dl mm' \<and> in_step w c' mm'"
    "UpdateCredential_mc e i k (c, mm) = (v, c', mm') \<Longrightarrow> tables_ok w dl mm' \<and> in_step w c' mm'"
    "RemoveCredential_mc e i (c, mm) = (v, c', mm') \<Longrightarrow> tables_ok w dl mm' \<and> in_step w c' mm'"
proof -
  note e = up_up [OF assms(2)]
  have R: "creds_cached w c mm" using assms(4) by (simp add: in_step_def)
  show "tables_ok w dl mm' \<and> in_step w c' mm'" if st: "AddCredential_mc e k (c, mm) = (v, c', mm')"
  proof -
    obtain v0 mm0 where db: "AddCredential_db w (conn e) k mm = (v0, mm0)" by fastforce
    have wt': "write_through (\<lambda>c. c\<lparr>credsByID := fmupd (ID_c k) (good_entry e k) (credsByID c)\<rparr>) (v0, mm0) c = (v, c', mm')"
      using st by (simp add: AddCredential_mc_def e(2) db)
    note wt = write_through_cases [OF wt']
    show ?thesis
    proof (cases "v = Accepted")
      case True
      have db': "AddCredential_db w (conn e) k mm = (Accepted, mm')" using db wt(1,2) True by simp
      note a = add_cred_cached(1,2) [OF assms(1,3) R db']
      show ?thesis using a(1) key_frame [OF assms(4) a(2) add_cred_cached(3) [OF assms(1,3) R db', of e]] wt(3) [OF True] by simp
    next
      case False
      then show ?thesis using refused_same(4) [OF db] wt assms(3,4) by simp
    qed
  qed
  show "tables_ok w dl mm' \<and> in_step w c' mm'" if st: "UpdateCredential_mc e i k (c, mm) = (v, c', mm')"
  proof -
    obtain v0 mm0 where db: "UpdateCredential_db w (conn e) i k mm = (v0, mm0)" by fastforce
    have wt': "write_through (updated_cred e i (GetCredentialStrict w (conn e) mm0 (ID_c k))) (v0, mm0) c = (v, c', mm')"
      using st by (simp add: UpdateCredential_mc_def e(2) db)
    note wt = write_through_cases [OF wt']
    show ?thesis
    proof (cases "v = Accepted")
      case True
      have db': "UpdateCredential_db w (conn e) i k mm = (Accepted, mm')" using db wt(1,2) True by simp
      note a = update_cred_stored [OF assms(1,3) db'] and b = update_cred_cached [OF assms(1,2,3) R db']
      have "c' = updated_cred e i (GetCredentialStrict w (conn e) mm' (ID_c k)) c" using wt(2,3) True by simp
      moreover have "\<exists>cs. updated_cred e i ans c = c\<lparr>credsByID := cs\<rparr>" for ans
        by (cases ans) (auto simp: updated_cred_def Let_def intro: exI [of _ "credsByID c"])
      ultimately obtain cs where "c' = c\<lparr>credsByID := cs\<rparr>" "creds_cached w (c\<lparr>credsByID := cs\<rparr>) mm'" using b by metis
      then show ?thesis using a(1) key_frame [OF assms(4) a(2)] by simp
    next
      case False
      then show ?thesis using refused_same(5) [OF db] wt assms(3,4) by simp
    qed
  qed
  show "tables_ok w dl mm' \<and> in_step w c' mm'" if st: "RemoveCredential_mc e i (c, mm) = (v, c', mm')"
  proof -
    obtain v0 mm0 where db: "RemoveCredential_db (conn e) i mm = (v0, mm0)" by fastforce
    have wt': "write_through (\<lambda>c. c\<lparr>credsByID := fmdrop i (credsByID c)\<rparr>) (v0, mm0) c = (v, c', mm')"
      using st by (simp add: RemoveCredential_mc_def db)
    note wt = write_through_cases [OF wt']
    show ?thesis
    proof (cases "v = Accepted")
      case True
      have "RemoveCredential_db (conn e) i mm = (Accepted, mm')" using db wt(1,2) True by simp
      note a = remove_cred_cached [OF assms(3) R this]
      show ?thesis using a(1) key_frame [OF assms(4) a(2,3)] wt(3) [OF True] by simp
    next
      case False
      then show ?thesis using refused_same(6) [OF db] wt assms(3,4) by simp
    qed
  qed
qed

lemma key_lands:
  assumes "in_step w c mm" "stored_key w mm i = Some k" "find_cred i (tcreds mm) \<noteq> None"
  shows "in_step w (c\<lparr>credsByID := fmupd i (good_entry e k) (credsByID c)\<rparr>) mm"
  by (rule key_frame [OF assms(1) refl])
    (use assms in \<open>simp add: in_step_def creds_cached_def credLookup_def\<close>)

lemma land_in_step:
  assumes "reading w (call_of f)" "tables_ok w dl mm" "in_step w c mm" "current w mm f"
  shows "in_step w (land t f c) mm"
proof -
  note good = tables_simps(2) [OF assms(2)]
  have cache: "in_step w (cacheModel (e\<lparr>clock := t\<rparr>) m c) mm" if "reading w e" "row_of mm (ID m) = Some m" for e m
    using cacheModel_in_step [OF _ good assms(3) that(2), of "e\<lparr>clock := t\<rparr>"] that(1) by (simp add: reading_def)
  show ?thesis
  proof (cases f)
    case (FModel i e ans)
    then show ?thesis using assms(1,3,4) cache neg_in_step [OF assms(3)]
      by (cases ans; cases "projl ans") (auto simp: gm_finish_def split: option.split)
  next
    case (FName n e ans)
    then show ?thesis using assms(1,3,4) cache by (cases ans; cases "projl ans") (auto simp: name_finish_def)
  next
    case (FNative i e ans)
    then show ?thesis using assms(1,3,4) cache neg_in_step [OF assms(3)]
      by (cases ans; cases "projl ans") (auto simp: fill_finish_def)
  next
    case (FKey i e ans)
    then show ?thesis using assms(3,4) key_lands [OF assms(3)]
      by (cases ans; cases "projl ans") (auto simp: cred_finish_def)
  qed (use assms(3) in simp)
qed

lemma sweep_in_step:
  assumes "reading w e" "tables_ok w dl mm" "ans = strictSnapshot e mm"
  shows "in_step w c mm \<or> sweep_swaps ans cg c \<Longrightarrow> in_step w (reconcile_sections (e\<lparr>clock := t\<rparr>) ans cg c) mm"
proof -
  assume a: "in_step w c mm \<or> sweep_swaps ans cg c"
  have "in_step w (applySnapshot (e\<lparr>clock := t\<rparr>) x c) mm" if "ans = Inr x" for x
    using applied_in_step [of w "e\<lparr>clock := t\<rparr>" dl mm x c] assms that by simp
  then show ?thesis using a
    by (auto simp: reconcile_sections_def sweep_swaps_def split: sum.splits prod.splits if_splits)
qed

lemma refused_write:
  assumes "do_write e op (c, mm) = (v, c', mm')" "v \<noteq> Accepted"
  shows "c' = c \<and> mm' = mm"
  using assms
  by (cases op)
    (auto simp: AddModel_mc_def UpdateModel_mc_def RemoveModel_mc_def AddCredential_mc_def UpdateCredential_mc_def
      RemoveCredential_mc_def write_through_def Let_def split: prod.splits if_splits dest: refused_same)

lemma do_write_in_step:
  assumes "crypto_ok w" "up w dl e" "tables_ok w dl mm" "in_step w c mm" "plain_op e mm op"
    and "do_write e op (c, mm) = (v, c', mm')"
  shows "tables_ok w dl mm' \<and> in_step w c' mm'"
  using assms(5,6) write_in_step [OF assms(1-4)] key_write_in_step [OF assms(1-4)]
  by (cases op) simp_all

lemma strict_rows_ok:
  "\<forall>r \<in> set rs. strict_credential w r \<noteq> None \<Longrightarrow> \<exists>cs. strict_rows w acc rs = (cs, None)"
  by (induction rs arbitrary: acc) auto

lemma up_snapshot:
  assumes "up w dl e" "tables_ok w dl mm"
  shows "\<exists>s. strictSnapshot e mm = Inr s"
proof -
  have u: "answers (conn e) q" "breaks (conn e) q = None" "cipher e = w" for q using assms(1) by (simp_all add: up_def)
  have "set (arrange_creds (conn e) (tcreds mm)) = set (tcreds mm)"
    using assms(1) unfolding up_def returns_rows_def by (metis set_mset_mset)
  then obtain cs where "strict_rows w [] (arrange_creds (conn e) (tcreds mm)) = (cs, None)"
    using strict_rows_ok [of "arrange_creds (conn e) (tcreds mm)" w "[]"] tables_keys(2) [OF assms(2)] by auto
  then show ?thesis
    using u by (simp add: strictSnapshot_def GetModelsStrict_def GetEnabledModelsStrict_def scanModels_def GetCredentialsStrict_def)
qed

text \<open>Some cache is in step with any good tables, so a write keeps them good whatever the cache holds.\<close>

lemma write_keeps:
  assumes "crypto_ok w" "up w dl e" "tables_ok w dl mm" "plain_op e mm op"
    and "\<And>c. do_write e op (c, mm) = (Accepted, f c, mm')"
  shows "tables_ok w dl mm'" "in_step w c mm \<Longrightarrow> in_step w (f c) mm'"
proof -
  obtain s where "strictSnapshot e mm = Inr s" using up_snapshot [OF assms(2,3)] by blast
  from applied_in_step [OF up_reading [OF assms(2)] assms(3) this]
  have "in_step w (applySnapshot e s (empty_cache ex)) mm" for ex .
  from do_write_in_step [OF assms(1-3) this assms(4,5)] show "tables_ok w dl mm'" by blast
  show "in_step w c mm \<Longrightarrow> in_step w (f c) mm'"
    using do_write_in_step [OF assms(1-3) _ assms(4,5)] by blast
qed

definition sys_ok :: "world \<Rightarrow> cache_sys \<Rightarrow> bool" where
  "sys_ok w s \<longleftrightarrow>
     (dirty s \<or> writes s = [] \<and> in_step w (sc s) (sm s)
      \<or> (\<exists>f mm0. writes s = [f] \<and> in_step w (sc s) mm0 \<and> (\<forall>c. in_step w c mm0 \<longrightarrow> in_step w (f c) (sm s))))"

definition flights_ok :: "world \<Rightarrow> cache_sys \<Rightarrow> bool" where
  "flights_ok w s \<longleftrightarrow>
     (\<forall>(f, b) \<in> set (flights s). reading w (call_of f) \<and> (\<not> b \<longrightarrow> writes s = [] \<and> current w (sm s) f))"

lemma set_drop_at: "set (drop_at i xs) \<subseteq> set xs"
  by (auto simp: drop_at_def dest: in_set_takeD in_set_dropD)

lemma flights_okD:
  "flights_ok w s \<Longrightarrow> i < length (flights s) \<Longrightarrow> flights s ! i = (f, b) \<Longrightarrow>
     reading w (call_of f) \<and> (\<not> b \<longrightarrow> writes s = [] \<and> current w (sm s) f)"
  unfolding flights_ok_def by (metis (mono_tags, lifting) case_prodD nth_mem)

lemma flights_ok_drop:
  "flights_ok w s \<Longrightarrow> sm s' = sm s \<Longrightarrow> writes s' = writes s \<Longrightarrow> flights s' = drop_at i (flights s) \<Longrightarrow> flights_ok w s'"
  using set_drop_at [of i "flights s"] by (auto simp: flights_ok_def)

lemma sys_ok_clean: "sys_ok w s \<Longrightarrow> \<not> dirty s \<Longrightarrow> writes s = [] \<Longrightarrow> in_step w (sc s) (sm s)"
  by (auto simp: sys_ok_def)

lemma call_of_read [simp]: "call_of (read_store e mm r) = e"
  by (cases r) simp_all

lemma sys_step:
  assumes "crypto_ok w" and "cache_step w dl e s s'" and "tables_ok w dl (sm s)" "flights_ok w s" "sys_ok w s"
  shows "tables_ok w dl (sm s') \<and> flights_ok w s' \<and> sys_ok w s'"
  using assms(2-)
proof (cases rule: cache_step.cases)
  case (read_begins r)
  then show ?thesis using assms(3-5) read_current [OF _ assms(3)] by (auto simp: flights_ok_def sys_ok_def)
next
  case (fill_lands i f b t)
  note D = flights_okD [OF assms(4) fill_lands(3,4)]
  have "flights_ok w s'" by (rule flights_ok_drop [OF assms(4)]) (simp_all add: fill_lands(2))
  moreover have "sys_ok w s'"
  proof (cases "dirty s \<or> b")
    case False
    then have "in_step w (sc s) (sm s)" "current w (sm s) f" "writes s = []"
      using D sys_ok_clean [OF assms(5)] by blast+
    then have "in_step w (land t f (sc s)) (sm s)" using land_in_step [OF _ assms(3)] D by blast
    then show ?thesis using \<open>writes s = []\<close> by (simp add: sys_ok_def fill_lands(2))
  qed (simp add: sys_ok_def fill_lands(2))
  ultimately show ?thesis using assms(3) by (simp add: fill_lands(2))
next
  case (sweep_lands i b ans cg t)
  note D = flights_okD [OF assms(4) sweep_lands(2,3)]
  have "flights_ok w s'" by (rule flights_ok_drop [OF assms(4)]) (simp_all add: sweep_lands(1))
  moreover have "sys_ok w s'"
  proof (cases "b \<or> dirty s \<and> \<not> sweep_swaps ans cg (sc s)")
    case False
    then have "writes s = []" "in_step w (sc s) (sm s) \<or> sweep_swaps ans cg (sc s)"
      using D sys_ok_clean [OF assms(5)] by blast+
    moreover have "ans = strictSnapshot e (sm s)" "reading w e" using False sweep_lands(4) D by auto
    ultimately show ?thesis
      using sweep_in_step [OF _ assms(3), of e ans "sc s" cg t] by (simp add: sys_ok_def sweep_lands(1))
  qed (simp add: sys_ok_def sweep_lands(1))
  ultimately show ?thesis using assms(3) by (simp add: sweep_lands(1))
next
  case (write_begins op f mm')
  note k = write_keeps [OF assms(1) write_begins(2) assms(3) write_begins(3,4)]
  have "flights_ok w s'" using assms(4) by (auto simp: flights_ok_def write_begins(1))
  moreover have "sys_ok w s'"
  proof (cases "dirty s \<or> writes s \<noteq> []")
    case False
    then have "in_step w (sc s) (sm s)" using sys_ok_clean [OF assms(5)] by blast
    then show ?thesis using k(2) False by (auto simp: sys_ok_def write_begins(1) intro: exI [of _ "sm s"])
  qed (simp add: sys_ok_def write_begins(1))
  ultimately show ?thesis using k(1) by (simp add: write_begins(1))
next
  case (write_lands i)
  have "flights_ok w s'" using assms(4) write_lands(2) by (fastforce simp: flights_ok_def write_lands(1))
  moreover have "sys_ok w s'"
    using assms(5) write_lands(2) by (auto simp: sys_ok_def write_lands(1) drop_at_def)
  ultimately show ?thesis using assms(3) by (simp add: write_lands(1))
next
  case (write_refused op v c' mm')
  then show ?thesis using refused_write [OF write_refused(2,3)] assms(3-5) by simp
next
  case stop
  then show ?thesis using assms(3-5) by (auto simp: flights_ok_def sys_ok_def)
next
  case (other_work mm')
  have "flights_ok w s'"
    using assms(4) current_cong [OF other_work(2,3)] by (simp add: flights_ok_def other_work(1))
  moreover have "sys_ok w s'"
    using assms(5) in_step_cong [OF other_work(2,3)] by (simp add: sys_ok_def other_work(1))
  ultimately show ?thesis using tables_cong [OF other_work(2-4) assms(3)] by (simp add: other_work(1))
qed

lemma cache_reach_ok:
  assumes "crypto_ok w" "cache_reach w dl s"
  shows "tables_ok w dl (sm s) \<and> flights_ok w s \<and> sys_ok w s"
  using assms(2)
proof induction
  case (boot mm e o1 c)
  then obtain x where "strictSnapshot e mm = Inr x" "c = applySnapshot e x (empty_cache o1)"
    by (auto simp: NewCachedModelsConfig_def split: sum.splits)
  then show ?case using boot applied_in_step by (simp add: booted_def flights_ok_def sys_ok_def)
next
  case (run s e s')
  then show ?case using sys_step [OF assms(1)] by blast
qed

lemma settled_ok:
  assumes "crypto_ok w" "cache_reach w dl s" "at_rest s"
  shows "tables_ok w dl (sm s)" "in_step w (sc s) (sm s)"
  using cache_reach_ok [OF assms(1,2)] assms(3) sys_ok_clean by (auto simp: at_rest_def)

section \<open>The cache answers like the store\<close>

lemma up_rows:
  assumes "up w dl e"
  shows "getModelRowByID (conn e) mm i = row_of mm i"
    "GetModelStrict (conn e) mm i = (case row_of mm i of None \<Rightarrow> Inl ModelNotFound | Some m \<Rightarrow> Inr m)"
  using assms by (auto simp: up_def getModelRowByID_def row_of_def GetModelStrict_def getModelStrict_def split: option.split)

lemma lookup_hit:
  assumes "rows_cached c R"
  shows "lookupCachedModel e c i = (Some m, b) \<Longrightarrow> R i = Some m \<and> \<not> b"
    "lookupCachedModel e c i = (x, True) \<Longrightarrow> R i = None"
proof -
  assume l: "lookupCachedModel e c i = (Some m, b)"
  then have "fmlookup (modelsByID c) i = Some m" "\<not> b" by (auto simp: lookupCachedModel_def split: if_splits)
  then show "R i = Some m \<and> \<not> b" using rows_cachedD(1) [OF assms] by blast
next
  assume l: "lookupCachedModel e c i = (x, True)"
  then obtain t where "fmlookup (negByID c) i = Some t"
    by (auto simp: lookupCachedModel_def neg_fresh_def split: if_splits option.splits)
  then show "R i = None" using rows_cachedD(3) [OF assms] by blast
qed

lemma claiming_group_in:
  assumes "rows_cached c R" "claims_cached c R" "good_rows R"
  shows "claiming_group c i = Some m \<longleftrightarrow> (\<exists>g. claims_in R g i \<and> R g = Some m)"
proof
  assume "claiming_group c i = Some m"
  then obtain g where g: "fmlookup (claimsByID c) i = Some g" "fmlookup (modelsByID c) g = Some m"
    by (auto simp: claiming_group_def split: option.splits if_splits)
  then show "\<exists>g. claims_in R g i \<and> R g = Some m"
    using assms(2) rows_cachedD(1) [OF assms(1) g(2)] by (auto simp: claims_cached_def)
next
  assume "\<exists>g. claims_in R g i \<and> R g = Some m"
  then obtain g where g: "claims_in R g i" "R g = Some m" by blast
  then have m: "IsGroup m" "Enabled m" by (auto simp: claims_in_def)
  have "fmlookup (claimsByID c) i = Some g" using assms(2) g(1) by (simp add: claims_cached_def)
  then show "claiming_group c i = Some m"
    using rows_cachedD(2) [OF assms(1) g(2) m(1)] m by (simp add: claiming_group_def)
qed

lemma native_answers:
  assumes "up w dl e" "rows_cached c (row_of mm)" "row_of mm [] = None"
  shows "fst (GetModelNative_mc e mm c i) = row_of mm i" "fst (cached_row e mm c i) = row_of mm i"
proof -
  have fill: "fst (fillModelByDirectID e mm c i) = row_of mm i"
    using assms(3) by (auto simp: fillModelByDirectID_def fill_finish_def up_rows [OF assms(1)] split: option.split)
  have none: "fmlookup (modelsByID c') i = None" if "row_of mm i = None" "rows_cached c' (row_of mm)" for c'
    using rows_cachedD(1) [OF that(2), of i] that(1) by (cases "fmlookup (modelsByID c') i") auto
  have fill_none: "fmlookup (modelsByID (snd (fillModelByDirectID e mm c i))) i = None" if "row_of mm i = None"
    using none [OF that assms(2)] that
    by (auto simp: fillModelByDirectID_def fill_finish_def up_rows [OF assms(1)] storeNegativeByID_def)
  obtain x b where l: "lookupCachedModel e c i = (x, b)" by fastforce
  show "fst (GetModelNative_mc e mm c i) = row_of mm i"
    using lookup_hit [OF assms(2)] l fill assms(3) by (cases x; cases b) (auto simp: GetModelNative_mc_def)
  show "fst (cached_row e mm c i) = row_of mm i"
  proof (cases b)
    case True
    then have "row_of mm i = None" using lookup_hit(2) [OF assms(2), of e i x] l by simp
    then show ?thesis using l True none [OF _ assms(2)] lookup_hit(1) [OF assms(2)]
      by (cases x) (auto simp: cached_row_def)
  next
    case False
    show ?thesis
    proof (cases x)
      case None
      then show ?thesis using l False fill fill_none
        by (cases "fillModelByDirectID e mm c i"; cases "fst (fillModelByDirectID e mm c i)") (auto simp: cached_row_def)
    next
      case (Some m)
      then show ?thesis using l False lookup_hit(1) [OF assms(2)] by (simp add: cached_row_def)
    qed
  qed
qed

lemma model_answers:
  assumes "up w dl e" "tables_ok w dl mm" "in_step w c mm"
  shows "fst (GetModel_mc e mm c i) = GetModel_db (conn e) mm i"
proof -
  let ?R = "row_of mm"
  have R: "rows_cached c ?R" "claims_cached c ?R" using assms(3) by (simp_all add: in_step_def)
  have good: "good_rows ?R" and cl: "\<And>s g. fmlookup (mclaims mm) s = Some g \<longleftrightarrow> claims_in ?R g s"
    using assms(2) by (simp_all add: tables_ok_def)
  have e0: "?R [] = None" using good by (simp add: good_rows_def)
  show ?thesis
  proof (cases "claiming_group c i")
    case (Some m)
    then obtain g where g: "claims_in ?R g i" "?R g = Some m" using claiming_group_in [OF R good] by blast
    then have "fmlookup (mclaims mm) i = Some g" "Enabled m" "g \<noteq> []" using cl e0 by (auto simp: claims_in_def)
    then show ?thesis using Some g(2)
      by (simp add: GetModel_mc_def GetModel_sections_def GetModel_db_def up_rows [OF assms(1)])
  next
    case None
    have "fmlookup (mclaims mm) i = None"
    proof (rule ccontr)
      assume "\<not> ?thesis"
      then obtain g where "claims_in ?R g i" using cl by (metis option.exhaust)
      then have "claiming_group c i \<noteq> None" using claiming_group_in [OF R good] by (auto simp: claims_in_def)
      then show False using None by simp
    qed
    then have db: "GetModel_db (conn e) mm i = ?R i" by (simp add: GetModel_db_def up_rows [OF assms(1)])
    obtain x b where l: "lookupCachedModel e c i = (x, b)" by fastforce
    have "fst (gm_finish e (GetModelStrict (conn e) mm i) i c) = ?R i"
      using None by (simp add: gm_finish_def up_rows [OF assms(1)] split: option.split)
    then show ?thesis using None l lookup_hit [OF R(1)] db
      by (cases x; cases b) (auto simp: GetModel_mc_def GetModel_sections_def)
  qed
qed

lemma stored_key_db:
  assumes "up w dl e" "tables_ok w dl mm"
  shows "GetCredential_db w (conn e) 0 mm i = stored_key w mm i"
proof (cases "find_cred i (tcreds mm)")
  case (Some r)
  then have "strict_credential w r \<noteq> None" using tables_keys(2) [OF assms(2)] find_cred_some by blast
  then show ?thesis using Some assms(1)
    by (auto simp: up_def GetCredential_db_def stored_key_def strict_credential_def decrypted_def row_credential_def Let_def
        split: option.splits if_splits)
qed (use assms(1) in \<open>simp add: up_def GetCredential_db_def stored_key_def\<close>)

lemma key_answers:
  assumes "up w dl e" "tables_ok w dl mm" "in_step w c mm"
  shows "fst (GetCredential_mc e mm c i) = GetCredential_db w (conn e) 0 mm i" "credLookup c = GetCredential_db w (conn e) 0 mm"
proof -
  have k: "credLookup c j = stored_key w mm j" "fmlookup (credsByID c) j = None \<longleftrightarrow> find_cred j (tcreds mm) = None" for j
    using assms(3) by (simp_all add: in_step_def creds_cached_def)
  show "credLookup c = GetCredential_db w (conn e) 0 mm" using k(1) stored_key_db [OF assms(1,2)] by (simp add: fun_eq_iff)
  show "fst (GetCredential_mc e mm c i) = GetCredential_db w (conn e) 0 mm i"
  proof (cases "fmlookup (credsByID c) i")
    case None
    then show ?thesis using k(2) [of i] assms(1)
      by (simp add: GetCredential_mc_def cred_finish_def GetCredentialStrict_def up_def GetCredential_db_def)
  next
    case (Some y)
    then show ?thesis using k(1) [of i] stored_key_db [OF assms(1,2)] by (simp add: GetCredential_mc_def credLookup_def)
  qed
qed

lemma cached_row_keys: "credsByID (snd (cached_row e mm c i)) = credsByID c"
  by (auto simp: cached_row_def fillModelByDirectID_def fill_finish_def cacheModel_def storeNegativeByID_def
      markUnhealthy_def Let_def split: option.split prod.split bool.split sum.split strict_error.split)

lemma resolve_answers:
  assumes "up w dl e" "tables_ok w dl mm" "in_step w c mm"
  shows "(case Resolve_mc e u u' i key (c, mm) of (r, c', mm') \<Rightarrow> (r, mm'))
     = ResolveInternalConfigWithAffinity_db w (conn e) (clock e) u u' i key mm"
proof -
  have row: "fst (cached_row e mm c i) = row_of mm i"
    using native_answers(2) [OF assms(1), of c mm i] assms(2,3) by (simp add: in_step_def tables_ok_def good_rows_def)
  have look: "credLookup (snd (cached_row e mm c i)) = GetCredential_db w (conn e) 0 mm"
    using key_answers(2) [OF assms] by (simp add: credLookup_def cached_row_keys fun_eq_iff)
  have nat: "GetModelNative_db (conn e) mm i = row_of mm i" by (simp add: GetModelNative_db_def up_rows [OF assms(1)])
  obtain x c1 where x: "cached_row e mm c i = (x, c1)" by fastforce
  have "(case Resolve_mc e u u' i key (c, mm) of (r, c', mm') \<Rightarrow> (r, mm'))
      = ResolveInternalConfigWithAffinityCached (row_of mm i) (clock e) u u' key (GetCredential_db w (conn e) 0 mm) mm"
  proof (cases x)
    case None
    then have "row_of mm i = None" using row x by simp
    then show ?thesis using None by (simp add: Resolve_mc_def x ResolveInternalConfigWithAffinityCached_def)
  next
    case (Some m)
    then have "row_of mm i = Some m" "credLookup c1 = GetCredential_db w (conn e) 0 mm" using row look x by simp_all
    then show ?thesis using Some by (simp add: Resolve_mc_def x case_prod_beta)
  qed
  then show ?thesis using resolver_variants [of "conn e" mm i "clock e" u u' key w] nat by simp
qed


text \<open>The exception is real, and the comment of \<open>GetModelNative\<close> accepts it: a fill that has read a row before an
  update and lands after it brings the old row back, although the update has reached store and cache.\<close>

theorem overtaken_fill_serves_old_row:
  assumes "crypto_ok w" "cache_reach w dl s" "at_rest s" "up w dl e" "row_of (sm s) i = Some m"
    and "plain_write e (sm s) (m2\<lparr>Internal := True\<rparr>)" "UpdateModel_mc e i m2 (sc s, sm s) = (Accepted, c', mm')"
  shows "\<exists>s'. cache_reach w dl s' \<and> sm s' = mm' \<and> writes s' = [] \<and> fst (GetModelNative_mc e (sm s') (sc s') i) = Some m"
proof -
  let ?f = "updated_row e i (m2\<lparr>Internal := True\<rparr>)" and ?n = "length (flights s)"
  have nw: "writes s = []" using assms(3) by (simp add: at_rest_def)
  have i: "ID m = i" "i \<noteq> []"
    using row_of_ID [OF assms(5)] assms(5) tables_simps(2) [OF settled_ok(1) [OF assms(1-3)]] by (auto simp: good_rows_def)
  have w: "do_write e (WUpdate i m2) (c, sm s) = (Accepted, ?f c, mm')" for c
    using assms(7) by (auto simp: UpdateModel_mc_def write_through_def Let_def split: prod.splits if_splits)
  have ans: "GetModelStrict (conn e) (sm s) i = Inr m" using up_rows(2) [OF assms(4)] assms(5) by simp
  define s1 where "s1 = s\<lparr>flights := flights s @ [(FNative i e (Inr m), False)]\<rparr>"
  define s2 where "s2 = s1\<lparr>sm := mm', writes := [?f], flights := map (\<lambda>(x, b). (x, True)) (flights s1), dirty := dirty s\<rparr>"
  define s3 where "s3 = s2\<lparr>sc := ?f (sc s), writes := []\<rparr>"
  define s4 where "s4 = s3\<lparr>sc := land (clock e) (FNative i e (Inr m)) (?f (sc s)),
    flights := drop_at ?n (flights s3), dirty := True\<rparr>"
  have "cache_reach w dl s1"
    using cache_reach.run [OF assms(2) read_begins [OF up_reading [OF assms(4)], where r = "RNative i"]] ans nw by (simp add: s1_def)
  from cache_reach.run [OF this write_begins [OF assms(4), of s1 "WUpdate i m2" ?f mm']]
  have "cache_reach w dl s2" using assms(6) w nw by (simp add: s1_def s2_def)
  from cache_reach.run [OF this write_lands [of 0]]
  have r3: "cache_reach w dl s3" by (simp add: s1_def s2_def s3_def drop_at_def)
  have "flights s3 ! ?n = (FNative i e (Inr m), True)" "?n < length (flights s3)"
    by (simp_all add: s1_def s2_def s3_def nth_append)
  from cache_reach.run [OF r3 fill_lands [OF this(2,1)], of "clock e"]
  have r4: "cache_reach w dl s4" by (simp add: s1_def s2_def s3_def s4_def)
  have "sc s4 = cacheModel e m (?f (sc s))" by (simp add: s4_def fill_finish_def)
  then have "fmlookup (modelsByID (sc s4)) i = Some m" "fmlookup (negByID (sc s4)) i = None"
    using i(1) by (simp_all add: cacheModel_def Let_def)
  then have "fst (GetModelNative_mc e (sm s4) (sc s4) i) = Some m"
    using i(2) by (simp add: GetModelNative_mc_def lookupCachedModel_def neg_fresh_def)
  then show ?thesis using r4 by (intro exI [of _ s4]) (simp add: s1_def s2_def s3_def s4_def)
qed

section \<open>Outages\<close>

definition down :: "world \<Rightarrow> call \<Rightarrow> bool" where
  "down w e \<longleftrightarrow> reading w e \<and> (\<forall>q. \<not> answers (conn e) q)"

text \<open>What may happen while no statement is answered: every step of the cache and of the manager whose
  call finds the database down.\<close>

inductive outage_run :: "world \<Rightarrow> Dialect \<Rightarrow> cache_sys \<Rightarrow> cache_sys \<Rightarrow> bool" for w dl s where
  o_none: "outage_run w dl s s"
| o_step: "outage_run w dl s t \<Longrightarrow> down w e \<Longrightarrow> cache_step w dl e t t' \<Longrightarrow> outage_run w dl s t'"

definition same_memory :: "CachedModelsConfig \<Rightarrow> CachedModelsConfig \<Rightarrow> bool" where
  "same_memory c c' \<longleftrightarrow> modelsByID c' = modelsByID c \<and> modelsByName c' = modelsByName c \<and> credsByID c' = credsByID c
     \<and> negByID c' = negByID c \<and> negByName c' = negByName c \<and> modelsSnap c' = modelsSnap c \<and> enabledSnap c' = enabledSnap c
     \<and> claimsByID c' = claimsByID c \<and> mopts c' = mopts c"

lemma same_memory_refl [simp]: "same_memory c c"
  "same_memory c (markUnhealthy c)" "same_memory c (keep_snapshot e c)" "same_memory c (Stop_mc c)"
  by (simp_all add: same_memory_def markUnhealthy_def keep_snapshot_def Stop_mc_def)

lemma same_memory_trans: "same_memory a b \<Longrightarrow> same_memory b c \<Longrightarrow> same_memory a c"
  by (simp add: same_memory_def)

lemma down_reads:
  assumes "\<forall>q. \<not> answers (conn e) q"
  shows "GetModelStrict (conn e) mm i = Inl (Infra (SelectModel i))"
    "GetModelByNameStrict (conn e) mm n = Inl (Infra SelectModelByName)"
    "GetCredentialStrict (cipher e) (conn e) mm i = Inl (Infra (SelectCredential 0 i))"
    "strictSnapshot e mm = Inl (Infra SelectAllModels)"
  using assms by (simp_all add: GetModelStrict_def GetModelByNameStrict_def getModelStrict_def GetCredentialStrict_def
      strictSnapshot_def GetModelsStrict_def scanModels_def)

text \<open>A read that got no answer changes nothing but the health flag.\<close>

fun unanswered :: "flight \<Rightarrow> bool" where
  "unanswered (FModel i e ans) \<longleftrightarrow> (\<exists>q. ans = Inl (Infra q))"
| "unanswered (FName n e ans) \<longleftrightarrow> (\<exists>q. ans = Inl (Infra q))"
| "unanswered (FNative i e ans) \<longleftrightarrow> (\<exists>q. ans = Inl (Infra q))"
| "unanswered (FKey i e ans) \<longleftrightarrow> (\<exists>q. ans = Inl (Infra q))"
| "unanswered (FSweep e) \<longleftrightarrow> (\<forall>q. \<not> answers (conn e) q)"

lemma down_unanswered: "down w e \<Longrightarrow> unanswered (read_store e mm r)"
  using down_reads [of e] by (cases r) (auto simp: down_def)

lemma unanswered_land: "unanswered f \<Longrightarrow> same_memory c (land t f c)"
  by (cases f) (auto simp: gm_finish_def name_finish_def fill_finish_def cred_finish_def)

lemma unanswered_sweep:
  assumes "unanswered (FSweep e)" "ans = strictSnapshot e mm"
  shows "same_memory c (reconcile_sections (e\<lparr>clock := t\<rparr>) ans cg c)" "\<not> sweep_swaps ans cg c"
proof -
  have "ans = Inl (Infra SelectAllModels)" using assms down_reads(4) [of e mm] by simp
  then show "same_memory c (reconcile_sections (e\<lparr>clock := t\<rparr>) ans cg c)" "\<not> sweep_swaps ans cg c"
    by (simp_all add: reconcile_sections_def sweep_swaps_def)
qed

definition waits :: "cache_sys \<Rightarrow> bool" where
  "waits t \<longleftrightarrow> writes t = [] \<and> (\<forall>(f, b) \<in> set (flights t). \<not> b \<and> unanswered f)"

lemma waits_at: "waits t \<Longrightarrow> i < length (flights t) \<Longrightarrow> flights t ! i = (f, b) \<Longrightarrow> \<not> b \<and> unanswered f"
  unfolding waits_def by (metis (mono_tags, lifting) case_prodD nth_mem)

lemma waits_drop: "waits t \<Longrightarrow> writes t' = writes t \<Longrightarrow> flights t' = drop_at i (flights t) \<Longrightarrow> waits t'"
  using set_drop_at [of i "flights t"] by (auto simp: waits_def)

lemma outage_step:
  assumes "cache_step w dl e t t'" "down w e" "waits t"
  shows "waits t' \<and> same_memory (sc t) (sc t') \<and> dirty t' = dirty t"
  using assms
proof (cases rule: cache_step.cases)
  case (read_begins r)
  then show ?thesis using assms(3) down_unanswered [OF assms(2)] by (auto simp: waits_def)
next
  case (fill_lands i f b t0)
  have "waits t'" by (rule waits_drop [OF assms(3)]) (simp_all add: fill_lands(2))
  then show ?thesis
    using waits_at [OF assms(3) fill_lands(3,4)] unanswered_land [of f "sc t" t0] by (simp add: fill_lands(2))
next
  case (sweep_lands i b ans cg t0)
  have "waits t'" by (rule waits_drop [OF assms(3)]) (simp_all add: sweep_lands(1))
  moreover have "\<not> b" "unanswered (FSweep e)" using waits_at [OF assms(3) sweep_lands(2,3)] by simp_all
  moreover have "ans = strictSnapshot e (sm t)" using sweep_lands(4) \<open>\<not> b\<close> by simp
  ultimately show ?thesis
    using unanswered_sweep [of e ans "sm t"] by (simp add: sweep_lands(1))
next
  case (write_begins op f mm')
  then show ?thesis using assms(2) by (simp add: up_def down_def)
next
  case (write_lands i)
  then show ?thesis using assms(3) by (simp add: waits_def)
next
  case (write_refused op v c' mm')
  then show ?thesis using refused_write [OF write_refused(2,3)] assms(3) by (simp add: waits_def)
qed (use assms(3) in \<open>simp_all add: waits_def\<close>)

lemma outage_run_keeps:
  assumes "outage_run w dl s t" "cache_reach w dl s" "waits s"
  shows "cache_reach w dl t \<and> waits t \<and> same_memory (sc s) (sc t) \<and> dirty t = dirty s"
  using assms
proof induction
  case (o_step t e t')
  then have "waits t" "cache_reach w dl t" "same_memory (sc s) (sc t)" "dirty t = dirty s" by blast+
  moreover note outage_step [OF o_step(3,2) \<open>waits t\<close>]
  moreover have "cache_reach w dl t'" using cache_reach.run [OF \<open>cache_reach w dl t\<close> o_step(3)] .
  ultimately show ?case using same_memory_trans by metis
qed simp

lemma warm_reads:
  assumes "rows_cached c R" "fmlookup (modelsByID c) i = Some m"
  shows "lookupCachedModel e c i = (Some m, False)"
proof -
  have "fmlookup (negByID c) i = None"
    using rows_cachedD(1) [OF assms] rows_cachedD(3) [OF assms(1), of i] by (cases "fmlookup (negByID c) i") auto
  then show ?thesis using assms(2) by (simp add: lookupCachedModel_def neg_fresh_def)
qed

lemma down_key_answers:
  assumes "\<forall>q. \<not> answers (conn e) q" "up w dl e'" "tables_ok w dl mm" "in_step w c mm"
  shows "fst (GetCredential_mc e mm c k) = GetCredential_db w (conn e') 0 mm k"
proof -
  have "fst (GetCredential_mc e mm c k) = credLookup c k"
    by (auto simp: GetCredential_mc_def cred_finish_def down_reads(3) [OF assms(1)] credLookup_def split: option.split)
  then show ?thesis using key_answers(2) [OF assms(2-4)] by simp
qed

text \<open>C8: an outage does not change what is served, for as long as it lasts. From a settled state with no read
  in flight, let any reads, fills, sweeps and refused writes happen, in any interleaving and over any time,
  while the database answers nothing: a row that was in the cache is found, resolved and looked up by clients
  exactly as the database would do it if it were up, so is every credential; the lists of models, of enabled
  models and of credentials are the last ones known; and a sweep reports the outage. There is no time
  limit, although the README and the comments of \<open>StaleCap\<close> promise a hard cap of 24 hours.\<close>

theorem outage_serves_last_known:
  assumes "crypto_ok w" "cache_reach w dl s" "at_rest s" "flights s = []" "fmlookup (modelsByID (sc s)) i = Some m"
    and "outage_run w dl s t" "down w e" and "up w dl e'" "clock e' = clock e"
  shows "fst (GetModel_mc e (sm t) (sc t) i) = GetModel_db (conn e') (sm t) i
     \<and> fst (GetModelNative_mc e (sm t) (sc t) i) = Some m
     \<and> (case Resolve_mc e u u' i key (sc t, sm t) of (r, _, mm'') \<Rightarrow> (r, mm''))
         = ResolveInternalConfigWithAffinity_db w (conn e') (clock e) u u' i key (sm t)
     \<and> fst (GetCredential_mc e (sm t) (sc t) k) = GetCredential_db w (conn e') 0 (sm t) k
     \<and> GetModels_mc (sc t) = GetModels_mc (sc s) \<and> GetEnabledModels_mc (sc t) = GetEnabledModels_mc (sc s)
     \<and> GetCredentials_mc (sc t) = GetCredentials_mc (sc s) \<and> \<not> Healthy (reconcileOnce e (sm t) (sc t))"
proof -
  let ?c = "sc t" and ?mm = "sm t"
  have "waits s" using assms(3,4) by (simp add: waits_def at_rest_def)
  note keep = outage_run_keeps [OF assms(6,2) this]
  then have run: "cache_reach w dl t" and mem: "same_memory (sc s) ?c" and "at_rest t"
    using assms(3) by (auto simp: at_rest_def waits_def)
  note ok = settled_ok [OF assms(1) run \<open>at_rest t\<close>]
  have R: "rows_cached ?c (row_of ?mm)" using ok(2) by (simp add: in_step_def)
  have no: "\<forall>q. \<not> answers (conn e) q" using assms(7) by (simp add: down_def)
  have warm: "fmlookup (modelsByID ?c) i = Some m" using assms(5) mem by (simp add: same_memory_def)
  have hit: "lookupCachedModel x ?c i = (Some m, False)" for x using warm_reads [OF R warm] .
  have row: "row_of ?mm i = Some m" using rows_cachedD(1) [OF R warm] .
  have "i \<noteq> []" using ok(1) row by (auto simp: tables_ok_def good_rows_def)
  then have nat: "fst (GetModelNative_mc e ?mm ?c i) = Some m" by (simp add: GetModelNative_mc_def hit)
  have get: "fst (GetModel_mc e ?mm ?c i) = fst (GetModel_mc e' ?mm ?c i)"
    by (simp add: GetModel_mc_def GetModel_sections_def hit split: option.split)
  have res: "Resolve_mc e u u' i key (?c, ?mm) = Resolve_mc e' u u' i key (?c, ?mm)"
    by (simp add: Resolve_mc_def cached_row_def hit assms(9))
  have "(case Resolve_mc e u u' i key (?c, ?mm) of (r, _, mm'') \<Rightarrow> (r, mm''))
      = ResolveInternalConfigWithAffinity_db w (conn e') (clock e) u u' i key ?mm"
    using resolve_answers [OF assms(8) ok, of u u' i key] assms(9) by (simp add: res)
  moreover have "\<not> Healthy (reconcileOnce e ?mm ?c)"
    by (simp add: reconcileOnce_def reconcile_sections_def down_reads(4) [OF no] Healthy_def keep_snapshot_def)
  moreover have "GetModels_mc ?c = GetModels_mc (sc s)" "GetEnabledModels_mc ?c = GetEnabledModels_mc (sc s)"
    "GetCredentials_mc ?c = GetCredentials_mc (sc s)"
    using mem by (simp_all add: same_memory_def GetModels_mc_def GetEnabledModels_mc_def GetCredentials_mc_def)
  ultimately show ?thesis
    using nat get model_answers [OF assms(8) ok] down_key_answers [OF no assms(8) ok] by simp
qed

section \<open>Rows hidden by a group\<close>

lemma map_filter_set: "set (List.map_filter f xs) = {y. \<exists>x \<in> set xs. f x = Some y}"
  by (induction xs) (auto simp: List.map_filter_simps split: option.split)

lemma snap_rows:
  "set (modelsSnap (rebuildClaims_mc e (rebuild_lists e c))) \<subseteq> {m. \<exists>i. fmlookup (modelsByID c) i = Some m}"
  "set (enabledSnap (rebuildClaims_mc e (rebuild_lists e c))) \<subseteq> {m. \<exists>i. fmlookup (modelsByID c) i = Some m}"
  by (auto simp: rebuildClaims_mc_def rebuild_lists_def rebuildSnapshotsLocked_def Let_def map_filter_set)

lemma added_rows:
  "modelsByID (added_row e m c) = modelsByID (if IsGroup m then evictClaimEntriesLocked [ShadowModelID m] (install_row m c) else install_row m c)"
  "set (modelsSnap (added_row e m c)) \<subseteq> {x. \<exists>i. fmlookup (modelsByID (added_row e m c)) i = Some x}"
  "set (enabledSnap (added_row e m c)) \<subseteq> {x. \<exists>i. fmlookup (modelsByID (added_row e m c)) i = Some x}"
  using snap_rows [of e "if IsGroup m then evictClaimEntriesLocked [ShadowModelID m] (install_row m c) else install_row m c"]
  by (auto simp: added_row_def Let_def simp del: evictClaimEntriesLocked.simps)

lemma unlisted:
  assumes "rows_cached c (row_of mm)" "fmlookup (modelsByID c) i = None"
    and "set xs \<subseteq> {x. \<exists>i. fmlookup (modelsByID c) i = Some x}"
  shows "i \<notin> ID ` set xs"
proof
  assume "i \<in> ID ` set xs"
  then obtain x j where x: "ID x = i" "fmlookup (modelsByID c) j = Some x" using assms(3) by auto
  then have "j = i" using rows_cachedD(1) [OF assms(1)] row_of_ID by metis
  then show False using assms(2) x(2) by simp
qed

text \<open>What the store itself answers about a stored row.\<close>

lemma stored_answers:
  assumes "up w dl e" "tables_ok w dl mm" "row_of mm i = Some m"
  shows "m \<in> set (GetModels_db (conn e) mm)" "Enabled m \<Longrightarrow> m \<in> set (GetEnabledModels_db (conn e) mm)"
    "GetTruncateParams_db (conn e) mm i = TruncateParams m" "GetFallbackChain_db (conn e) mm i = Some (i # FallbackChain m)"
proof -
  obtain r where r: "find_row i (tmodels mm) = Some r" "m = dbModelRowToConfig r" using assms(3) by (auto simp: row_of_def)
  then have s: "r \<in> set (tmodels mm)" "d_ID r = i" by (auto dest: find_row_Some)
  show "m \<in> set (GetModels_db (conn e) mm)" using s r(2) up_scan [OF assms(1)] by blast
  have "where_enabled dl r \<longleftrightarrow> isEnabled r" using assms(2) s(1) by (simp add: tables_ok_def)
  then show "Enabled m \<Longrightarrow> m \<in> set (GetEnabledModels_db (conn e) mm)"
    using assms(1) s(1) r(2) by (auto simp: up_def GetEnabledModels_db_def scanModels_def arrange_set)
  show "GetTruncateParams_db (conn e) mm i = TruncateParams m" "GetFallbackChain_db (conn e) mm i = Some (i # FallbackChain m)"
    using assms(1) r s(2) by (simp_all add: up_def GetTruncateParams_db_def GetFallbackChain_db_def dbModelRowToConfig_def)
qed

text \<open>C40: adding a group hides the model it claims. The write evicts the claimed row and then rebuilds the lists
  from what is left. The store still has the model, with its parameters and fallbacks, and lists it, among
  the enabled ones when it is enabled; but the list and the enabled list of the cache lack it, the cache
  has no parameters and no fallback chain for it, and the legacy resolver does not know it, until the next
  sweep or a look-up that fills the row again.\<close>

theorem group_write_hides_model:
  assumes "crypto_ok w" "cache_reach w dl s" "at_rest s" "up w dl e" "plain_write e (sm s) (g\<lparr>Internal := True\<rparr>)"
    and "Kind g = KindGroup" "ShadowModelID g \<noteq> []" "row_of (sm s) (ShadowModelID g) = Some m"
    and "AddModel_mc e g (sc s, sm s) = (Accepted, c', mm')"
  shows "m \<in> set (GetModels_db (conn e) mm') \<and> (Enabled m \<longrightarrow> m \<in> set (GetEnabledModels_db (conn e) mm'))
     \<and> GetTruncateParams_db (conn e) mm' (ShadowModelID g) = TruncateParams m
     \<and> GetFallbackChain_db (conn e) mm' (ShadowModelID g) = Some (ShadowModelID g # FallbackChain m)
     \<and> ShadowModelID g \<notin> ID ` set (GetModels_mc c') \<and> ShadowModelID g \<notin> ID ` set (GetEnabledModels_mc c')
     \<and> GetTruncateParams_mc c' (ShadowModelID g) = [] \<and> GetFallbackChain_mc c' (ShadowModelID g) = None
     \<and> ResolveInternalConfig_mc e c' (ShadowModelID g) = None"
proof -
  let ?g = "g\<lparr>Internal := True\<rparr>" and ?s = "ShadowModelID g"
  note ok = settled_ok [OF assms(1-3)]
  have ok': "tables_ok w dl mm'" "in_step w c' mm'"
    using write_in_step(1) [OF assms(1,4) ok assms(5,9)] by simp_all
  then have R': "rows_cached c' (row_of mm')" by (simp add: in_step_def)
  obtain v0 mm0 where db: "AddModel_db w (conn e) ?g (sm s) = (v0, mm0)" by fastforce
  have "write_through (added_row e ?g) (v0, mm0) (sc s) = (Accepted, c', mm')"
    using assms(9) by (simp add: AddModel_mc_def Let_def up_up(2) [OF assms(4)] db)
  note wt = write_through_cases [OF this]
  have c': "c' = added_row e ?g (sc s)" and db': "AddModel_db w (conn e) ?g (sm s) = (Accepted, mm')"
    using wt(1,2,3) db by simp_all
  note a = add_tables [OF assms(4) ok(1) assms(5) _ db', simplified]
  have "?s \<noteq> ID g" using a(1) assms(6) by (simp add: fits_rows_def IsGroup_def)
  then have "row_of mm' ?s = Some m" using a(2) assms(8) by simp
  note st = stored_answers [OF assms(4) ok'(1) this]
  have gone: "fmlookup (modelsByID c') ?s = None"
    using assms(6,7) by (simp add: c' added_rows(1) IsGroup_def evict_lookup del: evictClaimEntriesLocked.simps)
  have "?s \<notin> ID ` set (GetModels_mc c')" "?s \<notin> ID ` set (GetEnabledModels_mc c')"
    using unlisted [OF R' gone] added_rows(2,3) [of e ?g "sc s"]
    by (simp_all add: GetModels_mc_def GetEnabledModels_mc_def c')
  moreover have "GetTruncateParams_mc c' ?s = []" "GetFallbackChain_mc c' ?s = None" "ResolveInternalConfig_mc e c' ?s = None"
    using gone by (simp_all add: GetTruncateParams_mc_def GetFallbackChain_mc_def ResolveInternalConfig_mc_def lookupCachedModel_def)
  ultimately show ?thesis using st by blast
qed

section \<open>Examples\<close>

definition ex_call :: "bool \<Rightarrow> call" where
  "ex_call alive = \<lparr>clock = 0, conn = ex_driver\<lparr>answers := \<lambda>_. alive\<rparr>, cipher = ex_world,
     iter = \<lambda>rows. sorted_list_of_fset (fmdom rows)\<rparr>"

text \<open>With a database that is up the cache boots, with every row in it.\<close>

lemma boots_up:
  assumes "up w dl e" "tables_ok w dl mm"
  shows "\<exists>c. NewCachedModelsConfig o1 e mm = Inr c \<and> cache_reach w dl (booted c mm) \<and> (\<forall>i. fmlookup (modelsByID c) i = row_of mm i)"
proof -
  obtain ml el cs where s: "strictSnapshot e mm = Inr (ml, el, cs)" using up_snapshot [OF assms] by (metis prod_cases3)
  let ?c = "applySnapshot e (ml, el, cs) (empty_cache o1)"
  have c: "NewCachedModelsConfig o1 e mm = Inr ?c" by (simp add: NewCachedModelsConfig_def s)
  have "returns_rows (conn e)" using assms(1) by (simp add: up_def)
  then have "fmlookup (modelsByID ?c) i = row_of mm i" for i
    using applied_rows [OF snapshot_rows(1) [OF _ s] tables_simps(1) [OF assms(2)]] by blast
  then show ?thesis using c cache_reach.boot [OF assms(2) up_reading [OF assms(1)] c] by blast
qed

lemma booted_settled: "at_rest (booted c mm)" "flights (booted c mm) = []" "sc (booted c mm) = c" "sm (booted c mm) = mm"
  by (simp_all add: at_rest_def booted_def)

lemma ex_call_modes: "up ex_world SQLite (ex_call True)" "down ex_world (ex_call False)"
  by (simp_all add: up_def down_def reading_def visits_def ex_call_def ex_driver_def returns_rows_def sorted_list_of_fset.rep_eq)

lemma ex_crypto: "crypto_ok ex_world"
  by (simp add: crypto_ok_def ex_world_def)

lemma ex_row_back: "dbModelRowToConfig (bound_row SQLite (\<lambda>_. ''1'') (ex_model ''m'' [''c1'', ''c2''])) = ex_model ''m'' [''c1'', ''c2'']"
proof -
  have "row_fits (\<lambda>_. ''1'') (ex_model ''m'' [''c1'', ''c2''])"
    by (simp add: row_fits_def ex_model_def ref_fits_def ex_fits fits64_def)
  from bound_row_back [OF this] show ?thesis by (simp add: stored_model_def ex_model_def millis_def)
qed

lemma ex_row_of: "row_of ex_store i = (if i = ''m'' then Some (ex_model ''m'' [''c1'', ''c2'']) else None)"
  by (simp add: row_of_def ex_store_tables ex_rows_def find_row_Cons ex_row_back) (simp add: ex_model_def)

lemma ex_not_group: "\<not> IsGroup (ex_model i cs)"
  by (simp add: IsGroup_def ex_model_def)

lemma ex_store_ok: "tables_ok ex_world SQLite ex_store"
proof -
  have none: "\<not> claims_in (row_of ex_store) g s" for g s by (simp add: claims_in_def ex_row_of ex_not_group)
  have "mclaims ex_store = fmempty"
    by (simp add: ex_store_def NewModelsManager_def Let_def rebuildClaimsLocked_db_def ex_driver_def ex_rows_def
        where_group_def) (simp add: ex_model_def)
  moreover have "good_rows (row_of ex_store)"
    using none by (auto simp: good_rows_def ex_row_of ex_not_group split: if_splits)
  moreover have "distinct (map d_ID ex_rows)" "\<forall>r \<in> set ex_rows. where_enabled SQLite r \<longleftrightarrow> isEnabled r"
    using bound_row_enabled by (simp_all add: ex_rows_def)
  ultimately show ?thesis
    using none by (simp add: tables_ok_def ids_distinct_def ex_store_tables ex_cred_row_def strict_credential_def ex_world_def Let_def)
qed

definition ex_group :: ModelConfig where
  "ex_group = ex_group_row ''g'' ''m'' ''m''"

lemma ex_group_plain: "plain_write (ex_call True) ex_store ex_group"
proof -
  have val: "digits_val ''1'' = 1" "exponent_val [] = 0" "isDigit CHR ''1''" "\<not> HasPrefix ''1'' ''-''" by code_simp+
  have num: "wf_num ''1''" "num_val ''1'' = 1" "float_fits 1"
    by code_simp (simp_all add: num_val_def val float_fits_def)
  have "row_fits (\<lambda>_. ''1'') ex_group"
    by (simp add: ex_group_def ex_group_row_def row_fits_def ex_model_def member_fits_def ex_fits fits64_def num)
  moreover have "IsGroup ex_group" "stored_model ex_group = ex_group"
    by (simp_all add: ex_group_def ex_group_row_def ex_model_def IsGroup_def stored_model_def millis_def)
  ultimately show ?thesis
    by (simp add: plain_write_def ex_call_def ex_driver_def ex_row_of ex_not_group)
qed

lemma ex_group_added: "fst (AddModel_mc (ex_call True) ex_group (c, ex_store)) = Accepted"
proof -
  have g: "ID ex_group = ''g''" "Name ex_group = ''g''" "ex_group\<lparr>Internal := True\<rparr> = ex_group" "Kind ex_group = KindGroup"
    by (simp_all add: ex_group_def ex_group_row_def ex_model_def)
  have rows: "GetModels_db (ex_driver\<lparr>answers := \<lambda>_. True\<rparr>) ex_store = [ex_model ''m'' [''c1'', ''c2'']]"
    by (simp add: GetModels_db_def scanModels_def ex_driver_def ex_store_tables ex_rows_def ex_row_back)
  have k: "ValidateKindRules ex_group [] = None"
    by (simp add: ex_group_def ex_group_row_def ex_model_def ValidateKindRules_def validateGroupRules_def)
  have mem: "ValidateGroupMembers ex_group [ex_model ''m'' [''c1'', ''c2'']] = None"
    by (simp add: ex_group_def ex_group_row_def ex_model_def ValidateGroupMembers_def byID_def MaxGroupMembers_def
        validate_shadow_def claimed_by_other_def)
  have none: "find_row ''g'' ex_rows = None" by (simp add: ex_rows_def find_row_Cons) (simp add: ex_model_def)
  have "fst (AddModel_db ex_world (ex_driver\<lparr>answers := \<lambda>_. True\<rparr>) ex_group ex_store) = Accepted"
    using g by (simp add: AddModel_db_def Let_def validateBeforeWrite_def validateGroupWrite_def rows k mem row_found_def
        ex_store_tables none)
  then show ?thesis by (simp add: AddModel_mc_def ex_call_def g write_through_def case_prod_beta)
qed


text \<open>An outage in which a sweep begins and lands.\<close>

definition ex_swept :: "CachedModelsConfig \<Rightarrow> cache_sys" where
  "ex_swept c = (booted c ex_store)\<lparr>sc := reconcileOnce (ex_call False) ex_store c\<rparr>"

lemma ex_outage: "outage_run ex_world SQLite (booted c ex_store) (ex_swept c)"
proof -
  let ?e = "ex_call False"
  let ?s = "(booted c ex_store)\<lparr>flights := [(FSweep ?e, False)]\<rparr>"
  have r: "reading ex_world ?e" using ex_call_modes(2) by (simp add: down_def)
  have "outage_run ex_world SQLite (booted c ex_store) ?s"
    using o_step [OF o_none ex_call_modes(2) read_begins [OF r, where r = RSweep], of SQLite "booted c ex_store"]
    by (simp add: booted_def)
  moreover have "cache_step ex_world SQLite ?e ?s (ex_swept c)"
  proof -
    have ce: "?e\<lparr>clock := clock ?e\<rparr> = ?e" by (simp add: ex_call_def)
    have sw: "\<not> sweep_swaps (strictSnapshot ?e ex_store) c c"
      using down_reads(4) [of ?e ex_store] ex_call_modes(2) by (simp add: down_def sweep_swaps_def)
    show ?thesis
      using sweep_lands [of 0 ?s ?e False "strictSnapshot ?e ex_store" ex_world SQLite c "clock ?e"] sw ce
      by (simp add: booted_def ex_swept_def reconcileOnce_def drop_at_def)
  qed
  ultimately show ?thesis using o_step [OF _ ex_call_modes(2)] by blast
qed

theorem outage_serves_last_known_witness:
  "\<exists>c. NewCachedModelsConfig ex_opts (ex_call True) ex_store = Inr c
     \<and> (let c' = reconcileOnce (ex_call False) ex_store c in
          fst (GetModelNative_mc (ex_call False) ex_store c' ''m'') = Some (ex_model ''m'' [''c1'', ''c2''])
          \<and> fst (GetModel_mc (ex_call False) ex_store c' ''m'') = GetModel_db (conn (ex_call True)) ex_store ''m''
          \<and> GetModels_mc c' = GetModels_mc c \<and> GetEnabledModels_mc c' = GetEnabledModels_mc c)"
proof -
  obtain c where c: "NewCachedModelsConfig ex_opts (ex_call True) ex_store = Inr c"
      "cache_reach ex_world SQLite (booted c ex_store)" "fmlookup (modelsByID c) ''m'' = row_of ex_store ''m''"
    using boots_up [OF ex_call_modes(1) ex_store_ok] by blast
  have m: "fmlookup (modelsByID (sc (booted c ex_store))) ''m'' = Some (ex_model ''m'' [''c1'', ''c2''])"
    using c(3) by (simp add: ex_row_of booted_def)
  have clk: "clock (ex_call True) = clock (ex_call False)" by (simp add: ex_call_def)
  have sw: "sc (ex_swept c) = reconcileOnce (ex_call False) ex_store c" "sm (ex_swept c) = ex_store"
    by (simp_all add: ex_swept_def booted_def)
  from outage_serves_last_known [OF ex_crypto c(2) booted_settled(1,2) m ex_outage ex_call_modes(2) ex_call_modes(1) clk] c(1)
  show ?thesis unfolding Let_def sw booted_settled by blast
qed

theorem group_write_hides_model_witness:
  "\<exists>c c' mm'. NewCachedModelsConfig ex_opts (ex_call True) ex_store = Inr c
     \<and> AddModel_mc (ex_call True) ex_group (c, ex_store) = (Accepted, c', mm')
     \<and> ex_model ''m'' [''c1'', ''c2''] \<in> set (GetModels_db (conn (ex_call True)) mm')
     \<and> ''m'' \<notin> ID ` set (GetModels_mc c') \<and> GetFallbackChain_mc c' ''m'' = None
     \<and> ResolveInternalConfig_mc (ex_call True) c' ''m'' = None"
proof -
  obtain c where c: "NewCachedModelsConfig ex_opts (ex_call True) ex_store = Inr c"
      "cache_reach ex_world SQLite (booted c ex_store)"
    using boots_up [OF ex_call_modes(1) ex_store_ok] by blast
  obtain c' mm' where st: "AddModel_mc (ex_call True) ex_group (c, ex_store) = (Accepted, c', mm')"
    using ex_group_added [of c] by (metis prod.collapse)
  have g: "ex_group\<lparr>Internal := True\<rparr> = ex_group" "Kind ex_group = KindGroup" "ShadowModelID ex_group = ''m''"
    by (simp_all add: ex_group_def ex_group_row_def ex_model_def)
  have "row_of ex_store (ShadowModelID ex_group) = Some (ex_model ''m'' [''c1'', ''c2''])" by (simp add: g ex_row_of)
  note t = group_write_hides_model [OF ex_crypto c(2) booted_settled(1) ex_call_modes(1), unfolded booted_settled, OF _ g(2) _ this st]
  show ?thesis using t ex_group_plain g c(1) st by auto
qed

end
