(* ===== verification/StreamTranslator.thy ===== *)
theory StreamTranslator
  imports GoJson "HOL-Library.Multiset"
begin

text \<open>
  Translation of an OpenAI stream into Anthropic events (\<open>translator/incremental_stream.go\<close>,
  \<open>stream.go\<close>, the stream types of \<open>types.go\<close>): the accumulation of chunks in a \<open>StreamState\<close>, the
  batch translation of a whole buffer and the incremental translator with its blocks. An event is a
  value of \<open>stream_event\<close>, the arguments of the formatting functions of the code; \<open>formatSSEEvent\<close> gives
  its text. Access to a tool call with a negative index panics; a panic is the result \<open>None\<close>. The
  identifier of the message, which the code draws at random, is an argument. The client's side is the
  reader \<open>read_event\<close>, which accepts a stream only in the order the Anthropic protocol prescribes.
\<close>

section \<open>State\<close>

text \<open>The two cache counters of the usage are left out: no stream sets them.\<close>

record UsageInfo =
  InputTokens :: int
  OutputTokens :: int

record ToolCallState =
  ts_Index :: int
  ts_ID :: string
  ts_Name :: string
  ts_Arguments :: string

record StreamState =
  MessageID :: string
  OriginalModel :: string
  AccumulatedContent :: string
  ThinkingContent :: string
  ToolCalls :: "ToolCallState list"
  Usage :: UsageInfo
  StopReason :: string

datatype content_block = text_block | thinking_block | tool_use string string

datatype block_delta = text_delta string | thinking_delta string | input_json_delta string

datatype stream_event =
    EventMessageStart string string int
  | EventPing
  | EventContentBlockStart nat content_block
  | EventContentBlockDelta nat block_delta
  | EventContentBlockStop nat
  | EventMessageDelta string int
  | EventMessageStop

definition newStreamState :: "string \<Rightarrow> string \<Rightarrow> StreamState" where
  "newStreamState mid model =
     \<lparr>MessageID = mid, OriginalModel = model, AccumulatedContent = [], ThinkingContent = [], ToolCalls = [],
      Usage = \<lparr>InputTokens = 0, OutputTokens = 0\<rparr>, StopReason = []\<rparr>"

definition mapFinishReason :: "string \<Rightarrow> string" where
  "mapFinishReason r =
     (if r = ''stop'' then ''end_turn'' else if r = ''length'' then ''max_tokens''
      else if r = ''tool_calls'' then ''tool_use'' else ''end_turn'')"

definition token_count :: "(string \<times> json) list \<Rightarrow> string \<Rightarrow> int" where
  "token_count u k = (case as_num (obj_get u k) of None \<Rightarrow> 0 | Some x \<Rightarrow> go_int x)"

definition translateUsage :: "(string \<times> json) list \<Rightarrow> UsageInfo" where
  "translateUsage u = \<lparr>InputTokens = token_count u ''prompt_tokens'', OutputTokens = token_count u ''completion_tokens''\<rparr>"

section \<open>Accumulation\<close>

text \<open>Slots are added up to the index of a fragment; each new one gets that index.\<close>

definition add_slots :: "int \<Rightarrow> ToolCallState list \<Rightarrow> ToolCallState list" where
  "add_slots i calls =
     calls @ replicate (nat (i + 1) - length calls) \<lparr>ts_Index = i, ts_ID = [], ts_Name = [], ts_Arguments = []\<rparr>"

definition at_slot :: "int \<Rightarrow> (ToolCallState \<Rightarrow> ToolCallState) \<Rightarrow> ToolCallState list \<Rightarrow> ToolCallState list option" where
  "at_slot i f calls = (if i < 0 \<or> length calls \<le> nat i then None else Some (calls[nat i := f (calls ! nat i)]))"

definition when_some :: "'a option \<Rightarrow> ('a \<Rightarrow> 'b \<Rightarrow> 'b option) \<Rightarrow> 'b \<Rightarrow> 'b option" where
  "when_some x f b = (case x of None \<Rightarrow> Some b | Some a \<Rightarrow> f a b)"

definition accumulate_call :: "json \<Rightarrow> ToolCallState list \<Rightarrow> ToolCallState list option" where
  "accumulate_call tc calls =
     (case as_obj (Some tc) of
        None \<Rightarrow> Some calls
      | Some m \<Rightarrow>
          let i = tc_index m in do {
            calls1 \<leftarrow> when_some (as_str (obj_get m ''id''))
              (\<lambda>tid cs. if tid = [] then Some cs else at_slot i (ts_ID_update (\<lambda>_. tid)) cs) (add_slots i calls);
            when_some (as_obj (obj_get m ''function''))
              (\<lambda>fn cs. do {
                 cs1 \<leftarrow> when_some (as_str (obj_get fn ''name'')) (\<lambda>nm. at_slot i (ts_Name_update (\<lambda>_. nm))) cs;
                 when_some (as_str (obj_get fn ''arguments''))
                   (\<lambda>args. at_slot i (ts_Arguments_update (\<lambda>a. a @ args))) cs1 }) calls1 })"

fun accumulate_calls :: "json list \<Rightarrow> ToolCallState list \<Rightarrow> ToolCallState list option" where
  "accumulate_calls [] calls = Some calls"
| "accumulate_calls (tc # tcs) calls = do { calls1 \<leftarrow> accumulate_call tc calls; accumulate_calls tcs calls1 }"

text \<open>The delta of a chunk: the object \<open>delta\<close> of its first choice.\<close>

definition first_choice :: "(string \<times> json) list \<Rightarrow> (string \<times> json) list option" where
  "first_choice chunk =
     (case as_arr (obj_get chunk ''choices'') of
        Some (c # _) \<Rightarrow> as_obj (Some c)
      | _ \<Rightarrow> None)"

definition chunk_delta :: "(string \<times> json) list \<Rightarrow> (string \<times> json) list option" where
  "chunk_delta chunk = do { choice \<leftarrow> first_choice chunk; as_obj (obj_get choice ''delta'') }"

definition accumulate_delta :: "(string \<times> json) list \<Rightarrow> StreamState \<Rightarrow> StreamState option" where
  "accumulate_delta delta st =
     (let st1 = st\<lparr>AccumulatedContent := AccumulatedContent st @ str_field delta ''content'',
                   ThinkingContent := ThinkingContent st @ str_field delta ''reasoning_content'' @ str_field delta ''thinking''\<rparr>
      in (case as_arr (obj_get delta ''tool_calls'') of
            None \<Rightarrow> Some st1
          | Some tcs \<Rightarrow> map_option (\<lambda>calls. st1\<lparr>ToolCalls := calls\<rparr>) (accumulate_calls tcs (ToolCalls st1))))"

definition accumulateChunk :: "(string \<times> json) list \<Rightarrow> StreamState \<Rightarrow> StreamState option" where
  "accumulateChunk chunk st =
     (case first_choice chunk of
        None \<Rightarrow> Some st
      | Some choice \<Rightarrow>
          let st1 = (case as_obj (obj_get chunk ''usage'') of None \<Rightarrow> st | Some u \<Rightarrow> st\<lparr>Usage := translateUsage u\<rparr>);
              st2 = (case as_str (obj_get choice ''finish_reason'') of None \<Rightarrow> st1
                     | Some r \<Rightarrow> st1\<lparr>StopReason := mapFinishReason r\<rparr>)
          in (case as_obj (obj_get choice ''delta'') of None \<Rightarrow> Some st2 | Some delta \<Rightarrow> accumulate_delta delta st2))"

section \<open>Events and their text\<close>

definition event_name :: "stream_event \<Rightarrow> string" where
  "event_name ev =
     (case ev of EventMessageStart _ _ _ \<Rightarrow> ''message_start'' | EventPing \<Rightarrow> ''ping''
      | EventContentBlockStart _ _ \<Rightarrow> ''content_block_start'' | EventContentBlockDelta _ _ \<Rightarrow> ''content_block_delta''
      | EventContentBlockStop _ \<Rightarrow> ''content_block_stop'' | EventMessageDelta _ _ \<Rightarrow> ''message_delta''
      | EventMessageStop \<Rightarrow> ''message_stop'')"

definition JInt :: "int \<Rightarrow> json" where
  "JInt n = JNum (show_int n)"

definition block_json :: "content_block \<Rightarrow> json" where
  "block_json b =
     (case b of
        text_block \<Rightarrow> JObj [(''text'', JStr []), (''type'', JStr ''text'')]
      | thinking_block \<Rightarrow> JObj [(''thinking'', JStr []), (''type'', JStr ''thinking'')]
      | tool_use tid nm \<Rightarrow> JObj [(''id'', JStr tid), (''input'', JObj []), (''name'', JStr nm), (''type'', JStr ''tool_use'')])"

definition delta_json :: "block_delta \<Rightarrow> json" where
  "delta_json d =
     (case d of
        text_delta s \<Rightarrow> JObj [(''text'', JStr s), (''type'', JStr ''text_delta'')]
      | thinking_delta s \<Rightarrow> JObj [(''thinking'', JStr s), (''type'', JStr ''thinking_delta'')]
      | input_json_delta s \<Rightarrow> JObj [(''partial_json'', JStr s), (''type'', JStr ''input_json_delta'')])"

definition event_json :: "stream_event \<Rightarrow> json" where
  "event_json ev =
     (let ty = (''type'', JStr (event_name ev)) in
      case ev of
        EventMessageStart mid model n \<Rightarrow>
          JObj [(''message'', JObj [(''content'', JArr []), (''id'', JStr mid), (''model'', JStr model),
                  (''role'', JStr ''assistant''), (''stop_reason'', JNull), (''type'', JStr ''message''),
                  (''usage'', JObj [(''input_tokens'', JInt n), (''output_tokens'', JInt 0)])]), ty]
      | EventPing \<Rightarrow> JObj [ty]
      | EventContentBlockStart i b \<Rightarrow> JObj [(''content_block'', block_json b), (''index'', JInt (int i)), ty]
      | EventContentBlockDelta i d \<Rightarrow> JObj [(''delta'', delta_json d), (''index'', JInt (int i)), ty]
      | EventContentBlockStop i \<Rightarrow> JObj [(''index'', JInt (int i)), ty]
      | EventMessageDelta r n \<Rightarrow>
          JObj [(''delta'', JObj [(''stop_reason'', JStr r)]), ty, (''usage'', JObj [(''output_tokens'', JInt n)])]
      | EventMessageStop \<Rightarrow> JObj [ty])"

definition line_feed :: char where
  "line_feed = CHR 0x0A"

definition formatSSEEvent :: "stream_event \<Rightarrow> string" where
  "formatSSEEvent ev =
     ''event: '' @ event_name ev @ [line_feed] @ ''data: '' @ marshal (event_json ev) @ [line_feed, line_feed]"

section \<open>Batch translation\<close>

definition message_start_event :: "StreamState \<Rightarrow> stream_event" where
  "message_start_event st = EventMessageStart (MessageID st) (OriginalModel st) (InputTokens (Usage st))"

definition message_delta_event :: "StreamState \<Rightarrow> stream_event" where
  "message_delta_event st = EventMessageDelta (StopReason st) (OutputTokens (Usage st))"

definition batch_call :: "ToolCallState \<Rightarrow> (stream_event list \<times> nat) \<Rightarrow> stream_event list \<times> nat" where
  "batch_call tc = (\<lambda>(evs, i).
     if ts_ID tc = [] \<or> ts_Name tc = [] then (evs, i)
     else (evs @ [EventContentBlockStart i (tool_use (ts_ID tc) (ts_Name tc))]
             @ (if ts_Arguments tc \<noteq> [] then [EventContentBlockDelta i (input_json_delta (ts_Arguments tc))] else [])
             @ [EventContentBlockStop i], i + 1))"

definition batch_text :: "content_block \<Rightarrow> (string \<Rightarrow> block_delta) \<Rightarrow> string \<Rightarrow> (stream_event list \<times> nat) \<Rightarrow> stream_event list \<times> nat" where
  "batch_text b mk s = (\<lambda>(evs, i).
     if s = [] then (evs, i)
     else (evs @ [EventContentBlockStart i b, EventContentBlockDelta i (mk s), EventContentBlockStop i], i + 1))"

definition generateAnthropicEvents :: "StreamState \<Rightarrow> stream_event list" where
  "generateAnthropicEvents st =
     (let p0 = ([message_start_event st, EventPing], 0);
          p1 = batch_text thinking_block thinking_delta (ThinkingContent st) p0;
          p2 = batch_text text_block text_delta (AccumulatedContent st) p1;
          p3 = fold batch_call (ToolCalls st) p2
      in fst p3 @ [message_delta_event st, EventMessageStop])"

text \<open>The scanner's lines: without the line end, and none behind a line that does not fit its buffer.\<close>

definition maxTokenSize :: nat where
  "maxTokenSize = 1024 * 1024"

definition drop_cr :: "string \<Rightarrow> string" where
  "drop_cr l = (if l \<noteq> [] \<and> last l = CHR 0x0D then butlast l else l)"

function scan_lines :: "string \<Rightarrow> string list" where
  "scan_lines s =
     (if s = [] then []
      else let l = takeWhile (\<lambda>c. c \<noteq> line_feed) s in
           if length l \<ge> maxTokenSize then [] else drop_cr l # scan_lines (drop (length l + 1) s))"
  by pat_completeness auto
termination
  by (relation "measure length") auto

declare scan_lines.simps [simp del]

definition batch_line :: "string \<Rightarrow> StreamState \<Rightarrow> StreamState option" where
  "batch_line line st =
     (if \<not> HasPrefix line ''data: '' then Some st
      else let d = TrimPrefix line ''data: '' in
           if d = ''[DONE]'' then Some st
           else (case as_obj (Unmarshal_any d) of None \<Rightarrow> Some st | Some chunk \<Rightarrow> accumulateChunk chunk st))"

fun batch_lines :: "string list \<Rightarrow> StreamState \<Rightarrow> StreamState option" where
  "batch_lines [] st = Some st"
| "batch_lines (l # ls) st = do { st1 \<leftarrow> batch_line l st; batch_lines ls st1 }"

definition TranslateBufferedStream :: "string \<Rightarrow> string \<Rightarrow> string \<Rightarrow> string option" where
  "TranslateBufferedStream mid buffer model =
     map_option (\<lambda>st. concat (map formatSSEEvent (generateAnthropicEvents st)))
       (batch_lines (scan_lines buffer) (newStreamState mid model))"

section \<open>Incremental translation\<close>

datatype translator_error = AfterFinalize | ParseFailed

record IncrementalStreamTranslator =
  tr_state :: StreamState
  textBlockOpen :: bool
  textBlockIndex :: nat
  thinkingBlockOpen :: bool
  thinkingBlockIdx :: nat
  toolBlocksOpen :: "(int, bool) fmap"
  toolBlockIndex :: "(int, nat) fmap"
  preIDArgs :: "(int, string) fmap"
  messageStartSent :: bool
  pingSent :: bool
  nextBlockIndex :: nat
  finalized :: bool

definition NewIncrementalStreamTranslator :: "string \<Rightarrow> string \<Rightarrow> IncrementalStreamTranslator" where
  "NewIncrementalStreamTranslator mid model =
     \<lparr>tr_state = newStreamState mid model, textBlockOpen = False, textBlockIndex = 0, thinkingBlockOpen = False,
      thinkingBlockIdx = 0, toolBlocksOpen = fmempty, toolBlockIndex = fmempty, preIDArgs = fmempty,
      messageStartSent = False, pingSent = False, nextBlockIndex = 0, finalized = False\<rparr>"

text \<open>The emitting functions extend the list of events.\<close>

type_synonym emission = "IncrementalStreamTranslator \<times> stream_event list"

definition emitPreamble :: "emission \<Rightarrow> emission" where
  "emitPreamble = (\<lambda>(t, out).
     let (t1, out1) = (if messageStartSent t then (t, out)
            else (t\<lparr>messageStartSent := True\<rparr>, out @ [message_start_event (tr_state t)]))
     in if pingSent t1 then (t1, out1) else (t1\<lparr>pingSent := True\<rparr>, out1 @ [EventPing]))"

definition emitTextDelta :: "string \<Rightarrow> emission \<Rightarrow> emission" where
  "emitTextDelta s = (\<lambda>(t, out).
     let (t1, out1) = (if textBlockOpen t then (t, out)
            else (t\<lparr>nextBlockIndex := nextBlockIndex t + 1, textBlockOpen := True, textBlockIndex := nextBlockIndex t\<rparr>,
                  out @ [EventContentBlockStart (nextBlockIndex t) text_block]))
     in (t1, out1 @ [EventContentBlockDelta (textBlockIndex t1) (text_delta s)]))"

definition emitThinkingDelta :: "string \<Rightarrow> emission \<Rightarrow> emission" where
  "emitThinkingDelta s = (\<lambda>(t, out).
     let (t1, out1) = (if thinkingBlockOpen t then (t, out)
            else (t\<lparr>nextBlockIndex := nextBlockIndex t + 1, thinkingBlockOpen := True, thinkingBlockIdx := nextBlockIndex t\<rparr>,
                  out @ [EventContentBlockStart (nextBlockIndex t) thinking_block]))
     in (t1, out1 @ [EventContentBlockDelta (thinkingBlockIdx t1) (thinking_delta s)]))"

definition tool_open :: "IncrementalStreamTranslator \<Rightarrow> int \<Rightarrow> bool" where
  "tool_open t k = (fmlookup (toolBlocksOpen t) k = Some True)"

definition tool_block :: "IncrementalStreamTranslator \<Rightarrow> int \<Rightarrow> nat" where
  "tool_block t k = (case fmlookup (toolBlockIndex t) k of None \<Rightarrow> 0 | Some i \<Rightarrow> i)"

definition pre_args :: "IncrementalStreamTranslator \<Rightarrow> int \<Rightarrow> string" where
  "pre_args t k = (case fmlookup (preIDArgs t) k of None \<Rightarrow> [] | Some a \<Rightarrow> a)"

definition open_tool :: "int \<Rightarrow> string \<Rightarrow> string \<Rightarrow> emission \<Rightarrow> emission" where
  "open_tool k tid nm = (\<lambda>(t, out).
     if tool_open t k then (t, out)
     else (t\<lparr>nextBlockIndex := nextBlockIndex t + 1, toolBlocksOpen := fmupd k True (toolBlocksOpen t),
             toolBlockIndex := fmupd k (nextBlockIndex t) (toolBlockIndex t)\<rparr>,
           out @ [EventContentBlockStart (nextBlockIndex t) (tool_use tid nm)]))"

definition emit_args :: "int \<Rightarrow> string \<Rightarrow> emission \<Rightarrow> emission" where
  "emit_args k args = (\<lambda>(t, out).
     if args = [] then (t, out) else (t, out @ [EventContentBlockDelta (tool_block t k) (input_json_delta args)]))"

definition flush_args :: "int \<Rightarrow> emission \<Rightarrow> emission" where
  "flush_args k = (\<lambda>(t, out).
     if pre_args t k = [] then (t, out)
     else case emit_args k (pre_args t k) (t, out) of (t1, out1) \<Rightarrow> (t1\<lparr>preIDArgs := fmupd k [] (preIDArgs t1)\<rparr>, out1))"

definition emitToolDelta :: "int \<Rightarrow> string \<Rightarrow> string \<Rightarrow> string \<Rightarrow> emission \<Rightarrow> emission" where
  "emitToolDelta k tid nm args e =
     (if tid \<noteq> [] \<and> nm \<noteq> [] then emit_args k args (flush_args k (open_tool k tid nm e))
      else if tool_open (fst e) k then emit_args k args e
      else ((fst e)\<lparr>preIDArgs := fmupd k (pre_args (fst e) k @ args) (preIDArgs (fst e))\<rparr>, snd e))"

definition emit_call :: "json \<Rightarrow> emission \<Rightarrow> emission" where
  "emit_call tc e =
     (case as_obj (Some tc) of
        None \<Rightarrow> e
      | Some m \<Rightarrow>
          let fn = (case as_obj (obj_get m ''function'') of None \<Rightarrow> [] | Some fn \<Rightarrow> fn)
          in emitToolDelta (tc_index m) (str_field m ''id'') (str_field fn ''name'') (str_field fn ''arguments'') e)"

definition emit_if :: "(string \<Rightarrow> emission \<Rightarrow> emission) \<Rightarrow> string \<Rightarrow> emission \<Rightarrow> emission" where
  "emit_if f s e = (if s \<noteq> [] then f s e else e)"

text \<open>The emission for one delta: text, both kinds of thinking, tool calls.\<close>

definition emit_parts :: "string \<Rightarrow> string \<Rightarrow> string \<Rightarrow> json list \<Rightarrow> emission \<Rightarrow> emission" where
  "emit_parts content reasoning thinking tcs e =
     fold emit_call tcs (emit_if emitThinkingDelta thinking (emit_if emitThinkingDelta reasoning (emit_if emitTextDelta content e)))"

definition ParseOpenAISSEChunk :: "string \<Rightarrow> translator_error + (string \<times> json) list option \<times> bool" where
  "ParseOpenAISSEChunk line0 =
     (let line = TrimSpace line0 in
      if \<not> HasPrefix line ''data: '' then Inr (None, False)
      else let d = TrimPrefix line ''data: '' in
           if d = ''[DONE]'' then Inr (None, True)
           else (case Unmarshal_any d of
                   Some (JObj chunk) \<Rightarrow> Inr (Some chunk, False)
                 | Some JNull \<Rightarrow> Inr (None, False)
                 | _ \<Rightarrow> Inl ParseFailed))"

definition delta_calls :: "(string \<times> json) list \<Rightarrow> json list" where
  "delta_calls delta = (case as_arr (obj_get delta ''tool_calls'') of None \<Rightarrow> [] | Some tcs \<Rightarrow> tcs)"

definition emit_chunk :: "(string \<times> json) list \<Rightarrow> emission \<Rightarrow> emission" where
  "emit_chunk chunk e =
     (case chunk_delta chunk of
        None \<Rightarrow> e
      | Some delta \<Rightarrow> emit_parts (str_field delta ''content'') (str_field delta ''reasoning_content'')
          (str_field delta ''thinking'') (delta_calls delta) e)"

definition ProcessChunk_tr :: "string \<Rightarrow> IncrementalStreamTranslator
    \<Rightarrow> (IncrementalStreamTranslator \<times> stream_event list \<times> translator_error option) option" where
  "ProcessChunk_tr raw t =
     (if finalized t then Some (t, [], Some AfterFinalize)
      else case emitPreamble (t, []) of (t1, out) \<Rightarrow>
        (case ParseOpenAISSEChunk raw of
           Inl x \<Rightarrow> Some (t1, out, Some x)
         | Inr (None, _) \<Rightarrow> Some (t1, out, None)
         | Inr (Some chunk, _) \<Rightarrow>
             (case accumulateChunk chunk (tr_state t1) of
                None \<Rightarrow> None
              | Some st \<Rightarrow> (case emit_chunk chunk (t1\<lparr>tr_state := st\<rparr>, out) of (t2, out2) \<Rightarrow> Some (t2, out2, None)))))"

definition ProcessEvent :: "string \<Rightarrow> string \<Rightarrow> string \<Rightarrow> json list \<Rightarrow> IncrementalStreamTranslator
    \<Rightarrow> (IncrementalStreamTranslator \<times> stream_event list \<times> translator_error option) option" where
  "ProcessEvent content reasoning thinking tcs t =
     (if finalized t then Some (t, [], Some AfterFinalize)
      else case emitPreamble (t, []) of (t1, out) \<Rightarrow>
        let st = tr_state t1;
            st1 = st\<lparr>AccumulatedContent := AccumulatedContent st @ content, ThinkingContent := ThinkingContent st @ reasoning @ thinking\<rparr>
        in (case accumulate_calls tcs (ToolCalls st1) of
              None \<Rightarrow> None
            | Some calls \<Rightarrow>
                (case emit_parts content reasoning thinking tcs (t1\<lparr>tr_state := st1\<lparr>ToolCalls := calls\<rparr>\<rparr>, out) of
                   (t2, out2) \<Rightarrow> Some (t2, out2, None))))"

text \<open>Closing the blocks of the tools in the order of their indices; the map is searched key by key.\<close>

definition stop_tool :: "nat \<Rightarrow> emission \<Rightarrow> emission" where
  "stop_tool i = (\<lambda>(t, out).
     case List.find (\<lambda>k. fmlookup (toolBlockIndex t) k = Some i \<and> tool_open t k)
            (sorted_list_of_fset (fmdom (toolBlockIndex t))) of
       None \<Rightarrow> (t, out)
     | Some k \<Rightarrow> (t\<lparr>toolBlocksOpen := fmupd k False (toolBlocksOpen t)\<rparr>, out @ [EventContentBlockStop i]))"

definition stop_text :: "emission \<Rightarrow> emission" where
  "stop_text = (\<lambda>(t, out). if textBlockOpen t then (t\<lparr>textBlockOpen := False\<rparr>, out @ [EventContentBlockStop (textBlockIndex t)]) else (t, out))"

definition stop_thinking :: "emission \<Rightarrow> emission" where
  "stop_thinking = (\<lambda>(t, out).
     if thinkingBlockOpen t then (t\<lparr>thinkingBlockOpen := False\<rparr>, out @ [EventContentBlockStop (thinkingBlockIdx t)]) else (t, out))"

definition Finalize :: "IncrementalStreamTranslator \<Rightarrow> IncrementalStreamTranslator \<times> stream_event list \<times> translator_error option" where
  "Finalize t =
     (if finalized t then (t, [], Some AfterFinalize)
      else case stop_thinking (stop_text (emitPreamble (t, []))) of (t1, out1) \<Rightarrow>
        (case fold stop_tool [0..<nextBlockIndex t1] (t1, out1) of (t2, out2) \<Rightarrow>
           (t2\<lparr>finalized := True\<rparr>, out2 @ [message_delta_event (tr_state t2), EventMessageStop], None)))"

section \<open>The client's reader\<close>

text \<open>A block that was read: its kind, the text of its deltas, whether it is still open. The reader is stuck
  (\<open>None\<close>) on any event the protocol does not allow at this point.\<close>

type_synonym read_block = "content_block \<times> string \<times> bool"

record reader =
  r_started :: bool
  r_blocks :: "read_block list"
  r_stop :: "(string \<times> int) option"
  r_done :: bool

definition empty_reader :: reader where
  "empty_reader = \<lparr>r_started = False, r_blocks = [], r_stop = None, r_done = False\<rparr>"

fun delta_text :: "block_delta \<Rightarrow> content_block \<Rightarrow> string option" where
  "delta_text (text_delta s) text_block = Some s"
| "delta_text (thinking_delta s) thinking_block = Some s"
| "delta_text (input_json_delta s) (tool_use _ _) = Some s"
| "delta_text _ _ = None"

definition in_body :: "reader \<Rightarrow> bool" where
  "in_body r \<longleftrightarrow> r_started r \<and> r_stop r = None"

fun read_event :: "stream_event \<Rightarrow> reader \<Rightarrow> reader option" where
  "read_event (EventMessageStart _ _ _) r = (if r_started r then None else Some (r\<lparr>r_started := True\<rparr>))"
| "read_event EventPing r = (if r_started r \<and> \<not> r_done r then Some r else None)"
| "read_event (EventContentBlockStart i b) r =
     (if in_body r \<and> i = length (r_blocks r) then Some (r\<lparr>r_blocks := r_blocks r @ [(b, [], True)]\<rparr>) else None)"
| "read_event (EventContentBlockDelta i d) r =
     (if in_body r \<and> i < length (r_blocks r) then
        (case r_blocks r ! i of (b, s, opened) \<Rightarrow>
           if \<not> opened then None
           else map_option (\<lambda>x. r\<lparr>r_blocks := (r_blocks r)[i := (b, s @ x, True)]\<rparr>) (delta_text d b))
      else None)"
| "read_event (EventContentBlockStop i) r =
     (if in_body r \<and> i < length (r_blocks r) then
        (case r_blocks r ! i of (b, s, opened) \<Rightarrow>
           if opened then Some (r\<lparr>r_blocks := (r_blocks r)[i := (b, s, False)]\<rparr>) else None)
      else None)"
| "read_event (EventMessageDelta why n) r =
     (if in_body r \<and> list_all (\<lambda>(_, _, opened). \<not> opened) (r_blocks r) then Some (r\<lparr>r_stop := Some (why, n)\<rparr>) else None)"
| "read_event EventMessageStop r = (if r_stop r \<noteq> None \<and> \<not> r_done r then Some (r\<lparr>r_done := True\<rparr>) else None)"

fun read_all :: "stream_event list \<Rightarrow> reader \<Rightarrow> reader option" where
  "read_all [] r = Some r"
| "read_all (e # es) r = do { r1 \<leftarrow> read_event e r; read_all es r1 }"

lemma read_all_append [simp]: "read_all (es @ fs) r = do { r1 \<leftarrow> read_all es r; read_all fs r1 }"
  by (induction es arbitrary: r) (auto split: bind_splits)

lemma read_all_chain: "read_all es r = Some r1 \<Longrightarrow> read_all fs r1 = Some r2 \<Longrightarrow> read_all (es @ fs) r = Some r2"
  by simp

lemma read_all_snoc: "read_all es r = Some r1 \<Longrightarrow> read_event e r1 = Some r2 \<Longrightarrow> read_all (es @ [e]) r = Some r2"
  by simp

section \<open>What the incremental translator has sent\<close>

text \<open>The blocks of the reader are the text and thinking sent so far and one block per announced tool call:
  \<open>W\<close> maps the index of a call to its identifier, name and sent arguments.\<close>

type_synonym sent_calls = "(int, string \<times> string \<times> string) fmap"

definition sent_block :: "content_block \<Rightarrow> string \<Rightarrow> read_block multiset" where
  "sent_block b s = (if s = [] then {#} else {#(b, s, True)#})"

definition call_block :: "sent_calls \<Rightarrow> int \<Rightarrow> read_block" where
  "call_block W k = (case fmlookup W k of None \<Rightarrow> (tool_use [] [], [], True) | Some (i, n, a) \<Rightarrow> (tool_use i n, a, True))"

definition call_blocks :: "sent_calls \<Rightarrow> read_block multiset" where
  "call_blocks W = image_mset (call_block W) (mset_set (fset (fmdom W)))"

definition sent :: "IncrementalStreamTranslator \<Rightarrow> reader \<Rightarrow> string \<Rightarrow> string \<Rightarrow> sent_calls \<Rightarrow> bool" where
  "sent t r txt thk W \<longleftrightarrow>
     in_body r \<and> \<not> r_done r \<and> messageStartSent t \<and> pingSent t \<and> \<not> finalized t \<and> length (r_blocks r) = nextBlockIndex t
     \<and> (textBlockOpen t \<longleftrightarrow> txt \<noteq> [])
     \<and> (txt \<noteq> [] \<longrightarrow> textBlockIndex t < nextBlockIndex t \<and> r_blocks r ! textBlockIndex t = (text_block, txt, True))
     \<and> (thinkingBlockOpen t \<longleftrightarrow> thk \<noteq> [])
     \<and> (thk \<noteq> [] \<longrightarrow> thinkingBlockIdx t < nextBlockIndex t \<and> r_blocks r ! thinkingBlockIdx t = (thinking_block, thk, True))
     \<and> (\<forall>k. tool_open t k \<longleftrightarrow> fmlookup W k \<noteq> None)
     \<and> fmdom (toolBlockIndex t) = fmdom W
     \<and> (\<forall>k \<in> fset (fmdom W). tool_block t k < nextBlockIndex t \<and> r_blocks r ! tool_block t k = call_block W k)
     \<and> inj_on (tool_block t) (fset (fmdom W))
     \<and> mset (r_blocks r) = sent_block text_block txt + sent_block thinking_block thk + call_blocks W"

definition sends :: "reader \<Rightarrow> emission \<Rightarrow> string \<Rightarrow> string \<Rightarrow> sent_calls \<Rightarrow> bool" where
  "sends r0 e txt thk W \<longleftrightarrow> (\<exists>r. read_all (snd e) r0 = Some r \<and> sent (fst e) r txt thk W)"

lemma sendsE:
  assumes "sends r0 e txt thk W"
  obtains t out r where "e = (t, out)" "read_all out r0 = Some r" "sent t r txt thk W"
  using assms by (cases e) (auto simp: sends_def)

lemma call_block_kind: "\<exists>i n a. call_block W k = (tool_use i n, a, True)"
  by (auto simp: call_block_def split: option.split)

lemma call_block_upd [simp]:
  "call_block (fmupd k v W) k' = (if k' = k then (case v of (i, n, a) \<Rightarrow> (tool_use i n, a, True)) else call_block W k')"
  by (auto simp: call_block_def split: option.split)

lemma call_blocks_new:
  assumes "fmlookup W k = None"
  shows "call_blocks (fmupd k (i, n, a) W) = add_mset (tool_use i n, a, True) (call_blocks W)"
proof -
  have k: "k \<notin> fset (fmdom W)" using assms by (simp add: fmlookup_dom_iff)
  have "image_mset (call_block (fmupd k (i, n, a) W)) (mset_set (fset (fmdom W))) = call_blocks W"
    unfolding call_blocks_def by (rule image_mset_cong) (use k in auto)
  then show ?thesis using k by (simp add: call_blocks_def)
qed

lemma call_blocks_upd:
  assumes "fmlookup W k = Some v"
  shows "call_blocks (fmupd k (i, n, a) W) = add_mset (tool_use i n, a, True) (call_blocks W - {#call_block W k#})"
proof -
  have k: "k \<in> fset (fmdom W)" using assms by (rule fmdomI)
  define D where "D = mset_set (fset (fmdom W) - {k})"
  have d: "mset_set (fset (fmdom W)) = add_mset k D"
    using k unfolding D_def by (metis finite_fset mset_set.remove)
  have "image_mset (call_block (fmupd k (i, n, a) W)) D = image_mset (call_block W) D"
    by (rule image_mset_cong) (auto simp: D_def)
  then show ?thesis using k d assms by (cases v) (simp add: call_blocks_def insert_absorb)
qed

lemma sent_pointers:
  assumes "sent t r txt thk W"
  shows "txt \<noteq> [] \<Longrightarrow> k \<in> fset (fmdom W) \<Longrightarrow> textBlockIndex t \<noteq> tool_block t k \<and> tool_block t k \<noteq> textBlockIndex t"
    "thk \<noteq> [] \<Longrightarrow> k \<in> fset (fmdom W) \<Longrightarrow> thinkingBlockIdx t \<noteq> tool_block t k \<and> tool_block t k \<noteq> thinkingBlockIdx t"
    "txt \<noteq> [] \<Longrightarrow> thk \<noteq> [] \<Longrightarrow> textBlockIndex t \<noteq> thinkingBlockIdx t \<and> thinkingBlockIdx t \<noteq> textBlockIndex t"
proof -
  obtain i n a where "call_block W k = (tool_use i n, a, True)" using call_block_kind by blast
  then show "txt \<noteq> [] \<Longrightarrow> k \<in> fset (fmdom W) \<Longrightarrow> textBlockIndex t \<noteq> tool_block t k \<and> tool_block t k \<noteq> textBlockIndex t"
    "thk \<noteq> [] \<Longrightarrow> k \<in> fset (fmdom W) \<Longrightarrow> thinkingBlockIdx t \<noteq> tool_block t k \<and> tool_block t k \<noteq> thinkingBlockIdx t"
    "txt \<noteq> [] \<Longrightarrow> thk \<noteq> [] \<Longrightarrow> textBlockIndex t \<noteq> thinkingBlockIdx t \<and> thinkingBlockIdx t \<noteq> textBlockIndex t"
    using assms by (auto simp: sent_def dest!: bspec [where x = k])
qed

text \<open>Sending text: the block is opened by the first piece.\<close>

lemma sends_text:
  assumes "sends r0 e txt thk W" "s \<noteq> []"
  shows "sends r0 (emitTextDelta s e) (txt @ s) thk W"
proof -
  obtain t out r where e: "e = (t, out)" and r: "read_all out r0 = Some r" and ok: "sent t r txt thk W"
    using assms(1) by (rule sendsE)
  note p = sent_pointers [OF ok]
  show ?thesis
  proof (cases "txt = []")
    case True
    let ?i = "nextBlockIndex t"
    have "read_event (EventContentBlockStart ?i text_block) r = Some (r\<lparr>r_blocks := r_blocks r @ [(text_block, [], True)]\<rparr>)"
      using ok by (simp add: sent_def)
    moreover have "read_event (EventContentBlockDelta ?i (text_delta s)) (r\<lparr>r_blocks := r_blocks r @ [(text_block, [], True)]\<rparr>)
        = Some (r\<lparr>r_blocks := r_blocks r @ [(text_block, s, True)]\<rparr>)"
      using ok by (simp add: sent_def nth_append in_body_def list_update_append)
    moreover have "sent (fst (emitTextDelta s e)) (r\<lparr>r_blocks := r_blocks r @ [(text_block, s, True)]\<rparr>) s thk W"
      using ok True assms(2)
      by (auto simp: e emitTextDelta_def sent_def nth_append in_body_def tool_open_def tool_block_def sent_block_def inj_on_def)
    ultimately show ?thesis using ok True r by (simp add: sends_def e emitTextDelta_def sent_def)
  next
    case False
    let ?i = "textBlockIndex t" and ?r = "r\<lparr>r_blocks := (r_blocks r)[textBlockIndex t := (text_block, txt @ s, True)]\<rparr>"
    have "read_event (EventContentBlockDelta ?i (text_delta s)) r = Some ?r"
      using ok False by (simp add: sent_def)
    moreover have "sent t ?r (txt @ s) thk W"
      using ok False assms(2) p by (auto simp: sent_def in_body_def mset_update sent_block_def)
    ultimately show ?thesis using ok False r by (simp add: sends_def e emitTextDelta_def sent_def)
  qed
qed

lemma sends_thinking:
  assumes "sends r0 e txt thk W" "s \<noteq> []"
  shows "sends r0 (emitThinkingDelta s e) txt (thk @ s) W"
proof -
  obtain t out r where e: "e = (t, out)" and r: "read_all out r0 = Some r" and ok: "sent t r txt thk W"
    using assms(1) by (rule sendsE)
  note p = sent_pointers [OF ok]
  show ?thesis
  proof (cases "thk = []")
    case True
    let ?i = "nextBlockIndex t" and ?r = "\<lambda>x. r\<lparr>r_blocks := r_blocks r @ [(thinking_block, x, True)]\<rparr>"
    have "read_event (EventContentBlockStart ?i thinking_block) r = Some (?r [])"
      "read_event (EventContentBlockDelta ?i (thinking_delta s)) (?r []) = Some (?r s)"
      using ok by (simp_all add: sent_def nth_append in_body_def list_update_append)
    moreover have "sent (fst (emitThinkingDelta s e)) (?r s) txt s W"
      using ok True assms(2)
      by (auto simp: e emitThinkingDelta_def sent_def nth_append in_body_def tool_open_def tool_block_def sent_block_def inj_on_def)
    ultimately show ?thesis using ok True r by (simp add: sends_def e emitThinkingDelta_def sent_def)
  next
    case False
    let ?i = "thinkingBlockIdx t" and ?r = "r\<lparr>r_blocks := (r_blocks r)[thinkingBlockIdx t := (thinking_block, thk @ s, True)]\<rparr>"
    have "read_event (EventContentBlockDelta ?i (thinking_delta s)) r = Some ?r"
      using ok False by (simp add: sent_def)
    moreover have "sent t ?r txt (thk @ s) W"
      using ok False assms(2) p by (auto simp: sent_def in_body_def mset_update sent_block_def)
    ultimately show ?thesis using ok False r by (simp add: sends_def e emitThinkingDelta_def sent_def)
  qed
qed

lemma sends_open:
  assumes "sends r0 e txt thk W"
  shows "sends r0 (open_tool k i n e) txt thk (if fmlookup W k = None then fmupd k (i, n, []) W else W)"
proof -
  obtain t out r where e: "e = (t, out)" and r: "read_all out r0 = Some r" and ok: "sent t r txt thk W"
    using assms(1) by (rule sendsE)
  have op: "tool_open t k \<longleftrightarrow> fmlookup W k \<noteq> None" using ok by (simp add: sent_def)
  show ?thesis
  proof (cases "fmlookup W k")
    case None
    let ?r = "r\<lparr>r_blocks := r_blocks r @ [(tool_use i n, [], True)]\<rparr>"
    have "read_event (EventContentBlockStart (nextBlockIndex t) (tool_use i n)) r = Some ?r"
      using ok by (simp add: sent_def)
    moreover have "sent (fst (open_tool k i n e)) ?r txt thk (fmupd k (i, n, []) W)"
    proof -
      define t' where "t' = fst (open_tool k i n e)"
      have t: "t' = t\<lparr>nextBlockIndex := nextBlockIndex t + 1, toolBlocksOpen := fmupd k True (toolBlocksOpen t),
             toolBlockIndex := fmupd k (nextBlockIndex t) (toolBlockIndex t)\<rparr>"
        using op None by (simp add: t'_def e open_tool_def)
      have f: "textBlockOpen t' = textBlockOpen t" "textBlockIndex t' = textBlockIndex t" "thinkingBlockOpen t' = thinkingBlockOpen t"
        "thinkingBlockIdx t' = thinkingBlockIdx t" "messageStartSent t' = messageStartSent t" "pingSent t' = pingSent t"
        "finalized t' = finalized t" "nextBlockIndex t' = Suc (nextBlockIndex t)" "fmdom (toolBlockIndex t') = finsert k (fmdom (toolBlockIndex t))"
        by (simp_all add: t)
      have kd: "k |\<notin>| fmdom W" using None by (rule fmdom_notI)
      have i: "tool_block t' x = (if x = k then nextBlockIndex t else tool_block t x)" for x by (simp add: t tool_block_def)
      have o: "tool_open t' x \<longleftrightarrow> fmlookup (fmupd k (i, n, []) W) x \<noteq> None" for x
        using ok by (simp add: t sent_def tool_open_def)
      have d: "\<forall>x \<in> fset (fmdom W). tool_block t x < nextBlockIndex t \<and> r_blocks r ! tool_block t x = call_block W x"
        "inj_on (tool_block t) (fset (fmdom W))" "length (r_blocks r) = nextBlockIndex t" using ok by (simp_all add: sent_def)
      have j: "inj_on (tool_block t') (fset (fmdom (fmupd k (i, n, []) W)))"
        using d(1,2) kd by (auto simp: i inj_on_def)
      have p: "\<forall>x \<in> fset (fmdom (fmupd k (i, n, []) W)). tool_block t' x < nextBlockIndex t'
          \<and> r_blocks ?r ! tool_block t' x = call_block (fmupd k (i, n, []) W) x"
        using d(1,3) kd unfolding i by (auto simp: f nth_append)
      show ?thesis unfolding t'_def [symmetric] sent_def
        using ok o j p by (intro conjI; simp add: sent_def in_body_def call_blocks_new [OF None] f nth_append less_Suc_eq)
    qed
    ultimately show ?thesis using op None r by (simp add: sends_def e open_tool_def)
  next
    case (Some v)
    then show ?thesis using assms op by (simp add: e open_tool_def)
  qed
qed

lemma sends_args:
  assumes "sends r0 e txt thk W" "fmlookup W k = Some (i, n, a)"
  shows "sends r0 (emit_args k args e) txt thk (fmupd k (i, n, a @ args) W)"
proof -
  obtain t out r where e: "e = (t, out)" and r: "read_all out r0 = Some r" and ok: "sent t r txt thk W"
    using assms(1) by (rule sendsE)
  have k: "k \<in> fset (fmdom W)" using assms(2) by (rule fmdomI)
  let ?j = "tool_block t k" and ?r = "r\<lparr>r_blocks := (r_blocks r)[tool_block t k := (tool_use i n, a @ args, True)]\<rparr>"
  have j: "?j < length (r_blocks r)" "r_blocks r ! ?j = (tool_use i n, a, True)"
    using ok k assms(2) by (simp_all add: sent_def call_block_def)
  show ?thesis
  proof (cases "args = []")
    case True
    have "fmupd k (i, n, a) W = W" using assms(2) by (auto intro!: fmap_ext)
    then show ?thesis using assms(1) True by (simp add: e emit_args_def)
  next
    case False
    have "read_event (EventContentBlockDelta ?j (input_json_delta args)) r = Some ?r"
      using ok j by (simp add: sent_def)
    moreover have "sent t ?r txt thk (fmupd k (i, n, a @ args) W)"
    proof -
      have "\<forall>k' \<in> fset (fmdom W). ?j = tool_block t k' \<longrightarrow> k' = k"
        using ok k by (auto simp: sent_def inj_on_def)
      moreover have "mset ((r_blocks r)[?j := (tool_use i n, a @ args, True)])
          = sent_block text_block txt + sent_block thinking_block thk + call_blocks (fmupd k (i, n, a @ args) W)"
      proof -
        have "k \<in># mset_set (fset (fmdom W))" using k by simp
        then have "call_block W k \<in># call_blocks W" unfolding call_blocks_def by (metis imageI set_image_mset)
        then have "A + call_blocks W - {#(tool_use i n, a, True)#} = A + (call_blocks W - {#(tool_use i n, a, True)#})" for A
          using assms(2) diff_union_single_conv [of "call_block W k" "call_blocks W"] by (simp add: call_block_def)
        moreover have "mset (r_blocks r) = sent_block text_block txt + sent_block thinking_block thk + call_blocks W"
          using ok by (simp add: sent_def)
        ultimately show ?thesis using j assms(2)
          by (simp add: mset_update call_blocks_upd [OF assms(2)] del: fmupd_lookup) (simp add: call_block_def)
      qed
      moreover have "finsert k (fmdom W) = fmdom W" using k by (rule finsert_absorb)
      ultimately show ?thesis unfolding sent_def
        using ok k j assms(2) sent_pointers [OF ok]
        by (intro conjI; auto simp: sent_def in_body_def nth_list_update)
    qed
    ultimately show ?thesis using False r by (simp add: sends_def e emit_args_def)
  qed
qed

section \<open>The fragments of the tool calls\<close>

text \<open>A fragment: the index, the identifier (empty when missing), the name when there is one, the arguments.
  The first fragment with both an identifier and a name announces its call.\<close>

type_synonym call_fragment = "int \<times> string \<times> string option \<times> string"

definition fragment_of :: "json \<Rightarrow> call_fragment option" where
  "fragment_of tc =
     map_option (\<lambda>m. let fn = (case as_obj (obj_get m ''function'') of None \<Rightarrow> [] | Some fn \<Rightarrow> fn)
         in (tc_index m, str_field m ''id'', as_str (obj_get fn ''name''), str_field fn ''arguments''))
       (as_obj (Some tc))"

definition fragments :: "json list \<Rightarrow> call_fragment list" where
  "fragments tcs = List.map_filter fragment_of tcs"

definition frag_name :: "string option \<Rightarrow> string" where
  "frag_name n = (case n of None \<Rightarrow> [] | Some s \<Rightarrow> s)"

definition announces :: "int \<Rightarrow> call_fragment \<Rightarrow> bool" where
  "announces k = (\<lambda>(j, i, n, a). j = k \<and> i \<noteq> [] \<and> frag_name n \<noteq> [])"

definition announce :: "int \<Rightarrow> call_fragment list \<Rightarrow> call_fragment option" where
  "announce k gs = List.find (announces k) gs"

definition args_of :: "int \<Rightarrow> call_fragment list \<Rightarrow> string" where
  "args_of k gs = concat (map (\<lambda>(j, i, n, a). if j = k then a else []) gs)"

lemma args_of_append [simp]: "args_of k (gs @ hs) = args_of k gs @ args_of k hs" "args_of k [] = []"
  "args_of k ((j, i, n, a) # gs) = (if j = k then a else []) @ args_of k gs"
  by (simp_all add: args_of_def)

lemma find_append: "List.find P (xs @ ys) = (case List.find P xs of None \<Rightarrow> List.find P ys | Some x \<Rightarrow> Some x)"
  by (induction xs) auto

lemma announce_snoc: "announce k (gs @ [g]) = (case announce k gs of None \<Rightarrow> if announces k g then Some g else None | Some x \<Rightarrow> Some x)"
  by (auto simp: announce_def find_append split: option.split)

lemma announce_Some: "announce k gs = Some (j, i, n, a) \<Longrightarrow> j = k \<and> i \<noteq> [] \<and> frag_name n \<noteq> [] \<and> (j, i, n, a) \<in> set gs"
  by (auto simp: announce_def find_Some_iff announces_def) (metis nth_mem)

definition calls_sent :: "IncrementalStreamTranslator \<Rightarrow> call_fragment list \<Rightarrow> sent_calls \<Rightarrow> bool" where
  "calls_sent t gs W \<longleftrightarrow>
     (\<forall>k. fmlookup W k = (case announce k gs of None \<Rightarrow> None | Some (_, i, n, _) \<Rightarrow> Some (i, frag_name n, args_of k gs))
        \<and> pre_args t k = (if announce k gs = None then args_of k gs else []))"

definition streamed :: "reader \<Rightarrow> emission \<Rightarrow> string \<Rightarrow> string \<Rightarrow> call_fragment list \<Rightarrow> bool" where
  "streamed r0 e txt thk gs \<longleftrightarrow> (\<exists>W. sends r0 e txt thk W \<and> calls_sent (fst e) gs W)"

lemma calls_sent_eq: "preIDArgs t' = preIDArgs t \<Longrightarrow> calls_sent t' gs W = calls_sent t gs W"
  by (simp add: calls_sent_def pre_args_def)

lemma emit_frame [simp]:
  "preIDArgs (fst (emitTextDelta s e)) = preIDArgs (fst e)" "preIDArgs (fst (emitThinkingDelta s e)) = preIDArgs (fst e)"
  "preIDArgs (fst (open_tool k i n e)) = preIDArgs (fst e)" "fst (emit_args k a e) = fst e"
  "tr_state (fst (emitTextDelta s e)) = tr_state (fst e)" "tr_state (fst (emitThinkingDelta s e)) = tr_state (fst e)"
  "tr_state (fst (open_tool k i n e)) = tr_state (fst e)" "tr_state (fst (flush_args k e)) = tr_state (fst e)"
  by (simp_all add: emitTextDelta_def emitThinkingDelta_def open_tool_def emit_args_def flush_args_def case_prod_beta Let_def split: if_splits)

lemma emitToolDelta_state [simp]: "tr_state (fst (emitToolDelta k i n a e)) = tr_state (fst e)"
  by (simp add: emitToolDelta_def)

lemma emit_if_state [simp]:
  "(\<And>e. tr_state (fst (f s e)) = tr_state (fst e)) \<Longrightarrow> tr_state (fst (emit_if f s e)) = tr_state (fst e)"
  by (simp add: emit_if_def)

lemma emit_call_fragment:
  "emit_call tc e = (case fragment_of tc of None \<Rightarrow> e | Some (k, i, n, a) \<Rightarrow> emitToolDelta k i (frag_name n) a e)"
  by (auto simp: emit_call_def fragment_of_def frag_name_def str_field_def Let_def split: option.split)

lemma fold_emit_state [simp]: "tr_state (fst (fold emit_call tcs e)) = tr_state (fst e)"
  by (induction tcs arbitrary: e) (auto simp: emit_call_fragment split: option.split)

lemma emit_parts_state [simp]: "tr_state (fst (emit_parts c r th tcs e)) = tr_state (fst e)"
  by (simp add: emit_parts_def)

lemma streamed_text: "streamed r0 e txt thk gs \<Longrightarrow> streamed r0 (emit_if emitTextDelta s e) (txt @ s) thk gs"
  by (auto simp: streamed_def emit_if_def calls_sent_eq [of "fst (emitTextDelta s e)" "fst e"] intro: sends_text)

lemma streamed_thinking: "streamed r0 e txt thk gs \<Longrightarrow> streamed r0 (emit_if emitThinkingDelta s e) txt (thk @ s) gs"
  by (auto simp: streamed_def emit_if_def calls_sent_eq [of "fst (emitThinkingDelta s e)" "fst e"] intro: sends_thinking)

lemma sent_open: "sends r0 e txt thk W \<Longrightarrow> tool_open (fst e) k \<longleftrightarrow> fmlookup W k \<noteq> None"
  by (auto simp: sends_def sent_def)

lemma sent_frame: "sent (t\<lparr>preIDArgs := p\<rparr>) r txt thk W = sent t r txt thk W"
proof -
  have "tool_open (t\<lparr>preIDArgs := p\<rparr>) = tool_open t" "tool_block (t\<lparr>preIDArgs := p\<rparr>) = tool_block t"
    by (auto simp: tool_open_def tool_block_def fun_eq_iff)
  then show ?thesis by (simp add: sent_def)
qed

lemma streamed_tool:
  assumes "streamed r0 e txt thk gs"
  shows "streamed r0 (emitToolDelta k i (frag_name n) a e) txt thk (gs @ [(k, i, n, a)])"
proof -
  obtain W where W: "sends r0 e txt thk W" "calls_sent (fst e) gs W" using assms by (auto simp: streamed_def)
  have pre: "pre_args (fst e) k' = (if announce k' gs = None then args_of k' gs else [])" for k'
    using W(2) by (simp add: calls_sent_def)
  have look: "fmlookup W k' = (case announce k' gs of None \<Rightarrow> None | Some (_, x, y, _) \<Rightarrow> Some (x, frag_name y, args_of k' gs))" for k'
    using W(2) by (simp add: calls_sent_def)
  show ?thesis
  proof (cases "announces k (k, i, n, a)")
    case True
    let ?e1 = "open_tool k i (frag_name n) e" and ?e2 = "flush_args k (open_tool k i (frag_name n) e)"
    let ?W1 = "if fmlookup W k = None then fmupd k (i, frag_name n, []) W else W"
    have 1: "sends r0 ?e1 txt thk ?W1" by (rule sends_open [OF W(1)])
    obtain i' nn bb b where h: "fmlookup ?W1 k = Some (i', frag_name nn, b)"
      "announce k (gs @ [(k, i, n, a)]) = Some (k, i', nn, bb)" "b @ pre_args (fst e) k = args_of k gs"
      using True look [of k] pre [of k] by (cases "announce k gs") (auto simp: announce_snoc dest: announce_Some)
    let ?n = "frag_name nn"
    have p1: "pre_args (fst ?e1) k' = pre_args (fst e) k'" for k' by (simp add: pre_args_def)
    have 2: "sends r0 ?e2 txt thk (fmupd k (i', ?n, args_of k gs) ?W1)"
    proof (cases "pre_args (fst e) k = []")
      case True
      then have "fmupd k (i', ?n, args_of k gs) ?W1 = ?W1" using h(1,3) by (auto intro!: fmap_ext)
      then show ?thesis using 1 True p1 [of k] by (simp add: flush_args_def case_prod_beta)
    next
      case False
      have "sends r0 (emit_args k (pre_args (fst e) k) ?e1) txt thk (fmupd k (i', ?n, b @ pre_args (fst e) k) ?W1)"
        by (rule sends_args [OF 1 h(1)])
      then show ?thesis using False p1 [of k] h(3) by (simp add: flush_args_def case_prod_beta sends_def sent_frame)
    qed
    have "fmlookup (fmupd k (i', ?n, args_of k gs) ?W1) k = Some (i', ?n, args_of k gs)" by simp
    from sends_args [OF 2 this, of a]
    have 3: "sends r0 (emit_args k a ?e2) txt thk (fmupd k (i', ?n, args_of k gs @ a) (fmupd k (i', ?n, args_of k gs) ?W1))" .
    have p2: "pre_args (fst ?e2) k' = (if k' = k then [] else pre_args (fst e) k')" for k'
      using p1 by (auto simp: flush_args_def case_prod_beta pre_args_def)
    have l2: "fmlookup (fmupd k (i', ?n, args_of k gs @ a) (fmupd k (i', ?n, args_of k gs) ?W1)) k'
          = (case announce k' (gs @ [(k, i, n, a)]) of None \<Rightarrow> None
             | Some (_, x, y, _) \<Rightarrow> Some (x, frag_name y, args_of k' (gs @ [(k, i, n, a)])))" for k'
    proof (cases "k' = k")
      case True
      then show ?thesis using h(2) by simp
    next
      case False
      then have "announce k' (gs @ [(k, i, n, a)]) = announce k' gs" by (auto simp: announce_snoc announces_def split: option.split)
      then show ?thesis using False look [of k'] by (auto split: option.split)
    qed
    have p3: "pre_args (fst (emit_args k a ?e2)) k' = (if announce k' (gs @ [(k, i, n, a)]) = None then args_of k' (gs @ [(k, i, n, a)]) else [])" for k'
      using h(2) p2 [of k'] pre [of k'] by (auto simp: announce_snoc announces_def split: option.split)
    have "calls_sent (fst (emit_args k a ?e2)) (gs @ [(k, i, n, a)]) (fmupd k (i', ?n, args_of k gs @ a) (fmupd k (i', ?n, args_of k gs) ?W1))"
      unfolding calls_sent_def using l2 p3 by blast
    then show ?thesis using 3 True by (auto simp: streamed_def emitToolDelta_def announces_def)
  next
    case False
    then have n: "\<not> (i \<noteq> [] \<and> frag_name n \<noteq> [])" by (simp add: announces_def)
    have an: "announce k' (gs @ [(k, i, n, a)]) = announce k' gs" for k'
      using False by (auto simp: announce_snoc announces_def split: option.split)
    show ?thesis
    proof (cases "announce k gs")
      case None
      let ?e1 = "((fst e)\<lparr>preIDArgs := fmupd k (pre_args (fst e) k @ a) (preIDArgs (fst e))\<rparr>, snd e)"
      have "emitToolDelta k i (frag_name n) a e = ?e1"
        using n None look [of k] sent_open [OF W(1), of k] by (auto simp: emitToolDelta_def)
      moreover have "sends r0 ?e1 txt thk W" using W(1) by (simp add: sends_def sent_frame)
      moreover have "pre_args (fst ?e1) k' = (if k' = k then pre_args (fst e) k @ a else pre_args (fst e) k')" for k'
        by (simp add: pre_args_def)
      then have "calls_sent (fst ?e1) (gs @ [(k, i, n, a)]) W"
        using look pre None unfolding calls_sent_def an by (auto split: option.split)
      ultimately show ?thesis by (auto simp: streamed_def)
    next
      case (Some g)
      obtain j i' n' b where g: "g = (j, i', n', b)" by (cases g)
      have l: "fmlookup W k = Some (i', frag_name n', args_of k gs)" using look [of k] Some g by simp
      have "emitToolDelta k i (frag_name n) a e = emit_args k a e"
        using n sent_open [OF W(1), of k] l by (auto simp: emitToolDelta_def)
      moreover have "sends r0 (emit_args k a e) txt thk (fmupd k (i', frag_name n', args_of k gs @ a) W)"
        by (rule sends_args [OF W(1) l])
      moreover have "calls_sent (fst (emit_args k a e)) (gs @ [(k, i, n, a)]) (fmupd k (i', frag_name n', args_of k gs @ a) W)"
        using look pre Some g unfolding calls_sent_def an by (auto split: option.split)
      ultimately show ?thesis by (auto simp: streamed_def)
    qed
  qed
qed

lemma fragments_Cons: "fragments (tc # tcs) = (case fragment_of tc of None \<Rightarrow> fragments tcs | Some g \<Rightarrow> g # fragments tcs)"
  by (simp add: fragments_def List.map_filter_simps split: option.split)

lemma fragments_Nil [simp]: "fragments [] = []"
  by (simp add: fragments_def List.map_filter_simps)

lemma streamed_calls: "streamed r0 e txt thk gs \<Longrightarrow> streamed r0 (fold emit_call tcs e) txt thk (gs @ fragments tcs)"
proof (induction tcs arbitrary: e gs)
  case (Cons tc tcs)
  show ?case
  proof (cases "fragment_of tc")
    case None
    then show ?thesis using Cons by (simp add: emit_call_fragment fragments_Cons)
  next
    case (Some g)
    obtain k i n a where g: "g = (k, i, n, a)" by (cases g)
    have "streamed r0 (emitToolDelta k i (frag_name n) a e) txt thk (gs @ [g])"
      unfolding g by (rule streamed_tool [OF Cons.prems])
    from Cons.IH [OF this] show ?thesis by (simp add: emit_call_fragment fragments_Cons Some g)
  qed
qed simp

lemma streamed_parts:
  "streamed r0 e txt thk gs \<Longrightarrow> streamed r0 (emit_parts c rs th tcs e) (txt @ c) (thk @ rs @ th) (gs @ fragments tcs)"
  using streamed_calls [OF streamed_thinking [OF streamed_thinking [OF streamed_text]]] by (simp add: emit_parts_def)

text \<open>The preamble: after it the reader is in the body of the message.\<close>

definition fresh :: "IncrementalStreamTranslator \<Rightarrow> bool" where
  "fresh t \<longleftrightarrow> \<not> messageStartSent t \<and> \<not> pingSent t \<and> \<not> finalized t \<and> nextBlockIndex t = 0 \<and> \<not> textBlockOpen t
     \<and> \<not> thinkingBlockOpen t \<and> toolBlocksOpen t = fmempty \<and> toolBlockIndex t = fmempty \<and> preIDArgs t = fmempty"

lemma streamed_preamble:
  assumes "fresh t"
  shows "streamed empty_reader (emitPreamble (t, [])) [] [] []"
proof -
  let ?r = "empty_reader\<lparr>r_started := True\<rparr>"
  have "read_all (snd (emitPreamble (t, []))) empty_reader = Some ?r"
    using assms by (simp add: emitPreamble_def fresh_def message_start_event_def empty_reader_def)
  moreover have "sent (fst (emitPreamble (t, []))) ?r [] [] fmempty"
    using assms by (simp add: emitPreamble_def fresh_def sent_def in_body_def empty_reader_def tool_open_def sent_block_def call_blocks_def)
  moreover have "calls_sent (fst (emitPreamble (t, []))) [] fmempty"
    using assms by (simp add: emitPreamble_def fresh_def calls_sent_def announce_def pre_args_def)
  ultimately show ?thesis by (auto simp: streamed_def sends_def)
qed

lemma preamble_again: "messageStartSent t \<Longrightarrow> pingSent t \<Longrightarrow> emitPreamble (t, out) = (t, out)"
  by (simp add: emitPreamble_def)

lemma preamble_state [simp]: "tr_state (fst (emitPreamble e)) = tr_state (fst e)" "finalized (fst (emitPreamble e)) = finalized (fst e)"
  by (simp_all add: emitPreamble_def case_prod_beta Let_def)

text \<open>Emission appends to what was emitted before.\<close>

lemma emit_prefix:
  "emitPreamble (t, out @ o') = (fst (emitPreamble (t, o')), out @ snd (emitPreamble (t, o')))"
  "emitTextDelta s (t, out @ o') = (fst (emitTextDelta s (t, o')), out @ snd (emitTextDelta s (t, o')))"
  "emitThinkingDelta s (t, out @ o') = (fst (emitThinkingDelta s (t, o')), out @ snd (emitThinkingDelta s (t, o')))"
  "emitToolDelta k i n a (t, out @ o') = (fst (emitToolDelta k i n a (t, o')), out @ snd (emitToolDelta k i n a (t, o')))"
  by (simp_all add: emitPreamble_def emitTextDelta_def emitThinkingDelta_def emitToolDelta_def open_tool_def emit_args_def flush_args_def
      case_prod_beta Let_def)

lemma emit_if_prefix:
  assumes "\<And>t out o'. f s (t, out @ o') = (fst (f s (t, o')), out @ snd (f s (t, o')))"
  shows "emit_if f s (t, out @ o') = (fst (emit_if f s (t, o')), out @ snd (emit_if f s (t, o')))"
  using assms by (simp add: emit_if_def)

lemma emit_calls_prefix: "fold emit_call tcs (t, out @ o') = (fst (fold emit_call tcs (t, o')), out @ snd (fold emit_call tcs (t, o')))"
proof (induction tcs arbitrary: t o')
  case (Cons tc tcs)
  have "emit_call tc (t, out @ o') = (fst (emit_call tc (t, o')), out @ snd (emit_call tc (t, o')))"
    using emit_prefix(4) by (auto simp: emit_call_fragment split: option.split)
  then show ?case using Cons [of "fst (emit_call tc (t, o'))" "snd (emit_call tc (t, o'))"] by simp
qed simp

lemma emit_parts_prefix:
  "emit_parts c rs th tcs (t, out @ o') = (fst (emit_parts c rs th tcs (t, o')), out @ snd (emit_parts c rs th tcs (t, o')))"
proof -
  let ?e1 = "emit_if emitTextDelta c (t, o')" and ?e2 = "emit_if emitThinkingDelta rs (emit_if emitTextDelta c (t, o'))"
  note p = emit_if_prefix [of emitTextDelta, OF emit_prefix(2)] emit_if_prefix [of emitThinkingDelta, OF emit_prefix(3)]
  have "emit_if emitTextDelta c (t, out @ o') = (fst ?e1, out @ snd ?e1)" by (rule p(1))
  moreover have "emit_if emitThinkingDelta rs (fst ?e1, out @ snd ?e1) = (fst ?e2, out @ snd ?e2)"
    using p(2) [of rs "fst ?e1" out "snd ?e1"] by simp
  moreover have "emit_if emitThinkingDelta th (fst ?e2, out @ snd ?e2)
      = (fst (emit_if emitThinkingDelta th ?e2), out @ snd (emit_if emitThinkingDelta th ?e2))"
    using p(2) [of th "fst ?e2" out "snd ?e2"] by simp
  ultimately show ?thesis unfolding emit_parts_def
    using emit_calls_prefix [of tcs "fst (emit_if emitThinkingDelta th ?e2)" out "snd (emit_if emitThinkingDelta th ?e2)"] by simp
qed

section \<open>The accumulated tool calls\<close>

definition merge_fragment :: "string \<Rightarrow> string option \<Rightarrow> string \<Rightarrow> ToolCallState \<Rightarrow> ToolCallState" where
  "merge_fragment i n a s =
     s\<lparr>ts_ID := (if i = [] then ts_ID s else i), ts_Name := (case n of None \<Rightarrow> ts_Name s | Some nm \<Rightarrow> nm),
       ts_Arguments := ts_Arguments s @ a\<rparr>"

definition put_fragment :: "call_fragment \<Rightarrow> ToolCallState list \<Rightarrow> ToolCallState list" where
  "put_fragment = (\<lambda>(k, i, n, a) calls.
     if k < 0 then calls
     else let cs = add_slots k calls in cs[nat k := merge_fragment i n a (cs ! nat k)])"

definition last_id :: "int \<Rightarrow> call_fragment list \<Rightarrow> string" where
  "last_id k gs = foldl (\<lambda>s (j, i, n, a). if j = k \<and> i \<noteq> [] then i else s) [] gs"

definition last_name :: "int \<Rightarrow> call_fragment list \<Rightarrow> string" where
  "last_name k gs = foldl (\<lambda>s (j, i, n, a). if j = k then (case n of None \<Rightarrow> s | Some nm \<Rightarrow> nm) else s) [] gs"

lemma no_member [simp]: "as_str (obj_get [] k) = None"
  by (simp add: obj_get_def as_str_def)

lemma accumulate_call_fragment:
  assumes "accumulate_call tc calls = Some calls'"
  shows "calls' = (case fragment_of tc of None \<Rightarrow> calls | Some g \<Rightarrow> put_fragment g calls)"
proof (cases "as_obj (Some tc)")
  case None
  then show ?thesis using assms by (simp add: accumulate_call_def fragment_of_def)
next
  case (Some m)
  let ?k = "tc_index m" and ?cs = "add_slots (tc_index m) calls"
  show ?thesis
  proof (cases "?k < 0")
    case True
    then show ?thesis using assms Some
      by (auto simp: accumulate_call_def fragment_of_def put_fragment_def add_slots_def when_some_def at_slot_def Let_def
          split: option.splits if_splits bind_splits)
  next
    case False
    then have len: "nat ?k < length ?cs" by (simp add: add_slots_def)
    then show ?thesis using assms Some False
      by (auto simp: accumulate_call_def fragment_of_def put_fragment_def when_some_def at_slot_def Let_def merge_fragment_def str_field_def
          intro!: list_update_same_conv [THEN iffD2, symmetric] arg_cong [where f = "list_update ?cs (nat ?k)"]
          split: option.splits if_splits bind_splits)
  qed
qed

lemma accumulate_calls_fragments: "accumulate_calls tcs calls = Some calls' \<Longrightarrow> calls' = fold put_fragment (fragments tcs) calls"
proof (induction tcs arbitrary: calls)
  case (Cons tc tcs)
  then obtain calls1 where "accumulate_call tc calls = Some calls1" "accumulate_calls tcs calls1 = Some calls'"
    by (auto split: bind_splits)
  then show ?case using Cons.IH [of calls1] accumulate_call_fragment [of tc calls calls1]
    by (auto simp: fragments_Cons split: option.splits)
qed simp

definition calls_of :: "call_fragment list \<Rightarrow> ToolCallState list" where
  "calls_of gs = fold put_fragment gs []"

lemma calls_of_snoc [simp]: "calls_of (gs @ [g]) = put_fragment g (calls_of gs)" "calls_of [] = []"
  by (simp_all add: calls_of_def)

lemma last_snoc [simp]:
  "last_id k (gs @ [(j, i, n, a)]) = (if j = k \<and> i \<noteq> [] then i else last_id k gs)" "last_id k [] = []"
  "last_name k (gs @ [(j, i, n, a)]) = (if j = k then (case n of None \<Rightarrow> last_name k gs | Some nm \<Rightarrow> nm) else last_name k gs)"
  "last_name k [] = []"
  by (simp_all add: last_id_def last_name_def split: option.split)

lemma add_slots_nth:
  "length (add_slots k calls) = max (length calls) (nat (k + 1))"
  "j < length calls \<Longrightarrow> add_slots k calls ! j = calls ! j"
  "length calls \<le> j \<Longrightarrow> j < nat (k + 1) \<Longrightarrow> add_slots k calls ! j = \<lparr>ts_Index = k, ts_ID = [], ts_Name = [], ts_Arguments = []\<rparr>"
  by (auto simp: add_slots_def nth_append)

text \<open>What a slot holds: the last identifier and name, all arguments; slots that no fragment names are empty.\<close>

definition slot_holds :: "call_fragment list \<Rightarrow> nat \<Rightarrow> ToolCallState \<Rightarrow> bool" where
  "slot_holds gs j s \<longleftrightarrow> ts_ID s = last_id (int j) gs \<and> ts_Name s = last_name (int j) gs \<and> ts_Arguments s = args_of (int j) gs"

lemma unnamed_slot: "int j \<notin> fst ` set gs \<Longrightarrow> last_id (int j) gs = [] \<and> last_name (int j) gs = [] \<and> args_of (int j) gs = []"
proof (induction gs rule: rev_induct)
  case (snoc g gs)
  then show ?case by (cases g) auto
qed simp

lemma calls_of_slots:
  "(\<forall>j < length (calls_of gs). slot_holds gs j (calls_of gs ! j)) \<and> (\<forall>k \<in> fst ` set gs. k < int (length (calls_of gs)))"
proof (induction gs rule: rev_induct)
  case (snoc g gs)
  obtain k i n a where g: "g = (k, i, n, a)" by (cases g)
  show ?case
  proof (cases "k < 0")
    case True
    then show ?thesis using snoc by (auto simp: g put_fragment_def slot_holds_def)
  next
    case False
    let ?cs = "add_slots k (calls_of gs)"
    have len: "length (calls_of (gs @ [g])) = max (length (calls_of gs)) (nat k + 1)"
      using False by (simp add: g put_fragment_def add_slots_nth Let_def nat_add_distrib)
    have old: "slot_holds gs j (?cs ! j)" if "j < length ?cs" for j
    proof (cases "j < length (calls_of gs)")
      case True
      then show ?thesis using snoc by (simp add: add_slots_nth)
    next
      case False
      then have "int j \<notin> fst ` set gs" using snoc by auto
      then show ?thesis using False that unnamed_slot [of j gs] by (simp add: add_slots_nth slot_holds_def)
    qed
    have "slot_holds (gs @ [g]) j (calls_of (gs @ [g]) ! j)" if "j < length (calls_of (gs @ [g]))" for j
    proof (cases "j = nat k")
      case True
      then have "slot_holds gs j (?cs ! j)" using old that len False by (simp add: add_slots_nth nat_add_distrib)
      moreover have "nat k < length ?cs" using False by (simp add: add_slots_nth nat_add_distrib)
      ultimately show ?thesis using True False
        by (auto simp: g put_fragment_def slot_holds_def merge_fragment_def Let_def split: option.split)
    next
      case False
      then have "slot_holds gs j (?cs ! j)" using old that len \<open>\<not> k < 0\<close> by (simp add: add_slots_nth nat_add_distrib)
      moreover have "int j \<noteq> k" using False by auto
      ultimately show ?thesis using False \<open>\<not> k < 0\<close> by (simp add: g put_fragment_def slot_holds_def Let_def)
    qed
    moreover have "\<forall>x \<in> fst ` set (gs @ [g]). x < int (length (calls_of (gs @ [g])))"
      unfolding len using snoc by (auto simp: g)
    ultimately show ?thesis by blast
  qed
qed simp

section \<open>Runs\<close>

datatype tr_input = Chunk string | Event string string string "json list"

definition tr_step :: "tr_input \<Rightarrow> IncrementalStreamTranslator
    \<Rightarrow> (IncrementalStreamTranslator \<times> stream_event list \<times> translator_error option) option" where
  "tr_step x t = (case x of Chunk raw \<Rightarrow> ProcessChunk_tr raw t | Event c rs th tcs \<Rightarrow> ProcessEvent c rs th tcs t)"

fun tr_run :: "tr_input list \<Rightarrow> IncrementalStreamTranslator \<Rightarrow> (IncrementalStreamTranslator \<times> stream_event list) option" where
  "tr_run [] t = Some (t, [])"
| "tr_run (x # xs) t =
     do { (t1, evs, _) \<leftarrow> tr_step x t; (t2, evs2) \<leftarrow> tr_run xs t1; Some (t2, evs @ evs2) }"

definition chunk_fragments :: "(string \<times> json) list \<Rightarrow> call_fragment list" where
  "chunk_fragments chunk = (case chunk_delta chunk of None \<Rightarrow> [] | Some d \<Rightarrow> fragments (delta_calls d))"

definition input_fragments :: "tr_input \<Rightarrow> call_fragment list" where
  "input_fragments x =
     (case x of
        Chunk raw \<Rightarrow> (case ParseOpenAISSEChunk raw of Inr (Some chunk, _) \<Rightarrow> chunk_fragments chunk | _ \<Rightarrow> [])
      | Event c rs th tcs \<Rightarrow> fragments tcs)"

definition on_wire :: "IncrementalStreamTranslator \<Rightarrow> stream_event list \<Rightarrow> call_fragment list \<Rightarrow> bool" where
  "on_wire t es gs \<longleftrightarrow> ToolCalls (tr_state t) = calls_of gs
     \<and> (fresh t \<and> es = [] \<and> AccumulatedContent (tr_state t) = [] \<and> ThinkingContent (tr_state t) = [] \<and> gs = []
        \<or> streamed empty_reader (t, es) (AccumulatedContent (tr_state t)) (ThinkingContent (tr_state t)) gs)"

lemma streamed_state: "streamed r0 (t\<lparr>tr_state := st\<rparr>, es) txt thk gs = streamed r0 (t, es) txt thk gs"
proof -
  have "tool_open (t\<lparr>tr_state := st\<rparr>) = tool_open t" "tool_block (t\<lparr>tr_state := st\<rparr>) = tool_block t"
    "pre_args (t\<lparr>tr_state := st\<rparr>) = pre_args t"
    by (auto simp: tool_open_def tool_block_def pre_args_def fun_eq_iff)
  then show ?thesis by (simp add: streamed_def sends_def sent_def calls_sent_def)
qed

lemma streamed_started: "streamed r0 (t, es) txt thk gs \<Longrightarrow> messageStartSent t \<and> pingSent t \<and> \<not> finalized t"
  by (auto simp: streamed_def sends_def sent_def)

lemma on_wire_preamble:
  assumes "on_wire t es gs"
  shows "streamed empty_reader (fst (emitPreamble (t, [])), es @ snd (emitPreamble (t, [])))
      (AccumulatedContent (tr_state t)) (ThinkingContent (tr_state t)) gs" "\<not> finalized t"
proof -
  consider "fresh t" "es = []" "AccumulatedContent (tr_state t) = []" "ThinkingContent (tr_state t) = []" "gs = []"
    | "streamed empty_reader (t, es) (AccumulatedContent (tr_state t)) (ThinkingContent (tr_state t)) gs"
    using assms by (auto simp: on_wire_def)
  then have "streamed empty_reader (fst (emitPreamble (t, [])), es @ snd (emitPreamble (t, [])))
      (AccumulatedContent (tr_state t)) (ThinkingContent (tr_state t)) gs \<and> \<not> finalized t"
  proof cases
    case 1
    then show ?thesis using streamed_preamble [of t] by (simp add: fresh_def)
  next
    case 2
    then show ?thesis using streamed_started [OF 2] preamble_again [of t "[]"] by simp
  qed
  then show "streamed empty_reader (fst (emitPreamble (t, [])), es @ snd (emitPreamble (t, [])))
      (AccumulatedContent (tr_state t)) (ThinkingContent (tr_state t)) gs" "\<not> finalized t" by simp_all
qed

lemma chunk_delta_eq: "chunk_delta chunk = (case first_choice chunk of None \<Rightarrow> None | Some choice \<Rightarrow> as_obj (obj_get choice ''delta''))"
  by (simp add: chunk_delta_def split: option.split)

lemma accumulateChunk_parts:
  assumes "accumulateChunk chunk st = Some st'"
  shows "chunk_delta chunk = None \<Longrightarrow> AccumulatedContent st' = AccumulatedContent st \<and> ThinkingContent st' = ThinkingContent st
      \<and> ToolCalls st' = ToolCalls st"
    "chunk_delta chunk = Some d \<Longrightarrow> AccumulatedContent st' = AccumulatedContent st @ str_field d ''content''
      \<and> ThinkingContent st' = ThinkingContent st @ str_field d ''reasoning_content'' @ str_field d ''thinking''
      \<and> ToolCalls st' = fold put_fragment (fragments (delta_calls d)) (ToolCalls st)"
proof -
  show "chunk_delta chunk = None \<Longrightarrow> AccumulatedContent st' = AccumulatedContent st \<and> ThinkingContent st' = ThinkingContent st
      \<and> ToolCalls st' = ToolCalls st"
    using assms by (auto simp: accumulateChunk_def chunk_delta_eq Let_def split: option.splits)
  assume d: "chunk_delta chunk = Some d"
  then obtain st2 where st2: "accumulate_delta d st2 = Some st'" "AccumulatedContent st2 = AccumulatedContent st"
    "ThinkingContent st2 = ThinkingContent st" "ToolCalls st2 = ToolCalls st"
    using assms by (auto simp: accumulateChunk_def chunk_delta_eq Let_def split: option.splits)
  then show "AccumulatedContent st' = AccumulatedContent st @ str_field d ''content''
      \<and> ThinkingContent st' = ThinkingContent st @ str_field d ''reasoning_content'' @ str_field d ''thinking''
      \<and> ToolCalls st' = fold put_fragment (fragments (delta_calls d)) (ToolCalls st)"
    by (auto simp: accumulate_delta_def delta_calls_def Let_def dest: accumulate_calls_fragments split: option.splits)
qed

lemma calls_of_append: "calls_of (gs @ hs) = fold put_fragment hs (calls_of gs)"
  by (simp add: calls_of_def)

lemma parts_on_wire:
  assumes "streamed empty_reader (t1, es @ out) txt thk gs"
    and "emit_parts c rs th tcs (t1\<lparr>tr_state := st\<rparr>, out) = (t2, out2)"
    and "AccumulatedContent st = txt @ c" "ThinkingContent st = thk @ rs @ th" "ToolCalls st = calls_of (gs @ fragments tcs)"
  shows "on_wire t2 (es @ out2) (gs @ fragments tcs)"
proof -
  have "streamed empty_reader (emit_parts c rs th tcs (t1\<lparr>tr_state := st\<rparr>, es @ out)) (txt @ c) (thk @ rs @ th) (gs @ fragments tcs)"
    using assms(1) by (intro streamed_parts) (simp add: streamed_state)
  then have "streamed empty_reader (t2, es @ out2) (txt @ c) (thk @ rs @ th) (gs @ fragments tcs)"
    using assms(2) emit_parts_prefix [of c rs th tcs "t1\<lparr>tr_state := st\<rparr>" es out] by simp
  moreover have "tr_state t2 = st" using assms(2) emit_parts_state [of c rs th tcs "(t1\<lparr>tr_state := st\<rparr>, out)"] by simp
  ultimately show ?thesis using assms(3-5) by (simp add: on_wire_def)
qed

lemma tr_step_on_wire:
  assumes "on_wire t es gs" "tr_step x t = Some (t1, evs, err)"
  shows "on_wire t1 (es @ evs) (gs @ input_fragments x)"
proof -
  obtain t0 out where p: "emitPreamble (t, []) = (t0, out)" by fastforce
  have st0: "tr_state t0 = tr_state t" using preamble_state(1) [of "(t, [])"] p by simp
  have s: "streamed empty_reader (t0, es @ out) (AccumulatedContent (tr_state t0)) (ThinkingContent (tr_state t0)) gs"
    using on_wire_preamble(1) [OF assms(1)] p st0 by simp
  have calls: "ToolCalls (tr_state t0) = calls_of gs" using assms(1) st0 by (simp add: on_wire_def)
  have w0: "on_wire t0 (es @ out) gs" using s calls by (simp add: on_wire_def)
  note nf = on_wire_preamble(2) [OF assms(1)]
  show ?thesis
  proof (cases x)
    case (Event c rs th tcs)
    let ?st1 = "(tr_state t0)\<lparr>AccumulatedContent := AccumulatedContent (tr_state t0) @ c,
        ThinkingContent := ThinkingContent (tr_state t0) @ rs @ th\<rparr>"
    obtain cs where cs: "accumulate_calls tcs (ToolCalls (tr_state t0)) = Some cs"
      and e: "emit_parts c rs th tcs (t0\<lparr>tr_state := ?st1\<lparr>ToolCalls := cs\<rparr>\<rparr>, out) = (t1, evs)"
      using assms(2) nf Event p by (auto simp: tr_step_def ProcessEvent_def Let_def split: option.splits prod.splits)
    show ?thesis unfolding Event input_fragments_def
      using parts_on_wire [OF s e] accumulate_calls_fragments [OF cs] calls by (simp add: calls_of_append)
  next
    case (Chunk raw)
    note d = assms(2) [unfolded Chunk tr_step_def ProcessChunk_tr_def]
    show ?thesis
    proof (cases "ParseOpenAISSEChunk raw")
      case (Inl y)
      then show ?thesis using d nf p w0 Chunk by (simp add: input_fragments_def)
    next
      case (Inr y)
      show ?thesis
      proof (cases "fst y")
        case None
        then show ?thesis using d nf p w0 Chunk Inr by (cases y) (simp add: input_fragments_def)
      next
        case (Some chunk)
        obtain b where y: "y = (Some chunk, b)" using Some by (cases y) simp
        obtain st where st: "accumulateChunk chunk (tr_state t0) = Some st"
          and e: "emit_chunk chunk (t0\<lparr>tr_state := st\<rparr>, out) = (t1, evs)"
          using d nf p Inr y by (auto split: option.splits prod.splits)
        note parts = accumulateChunk_parts [OF st]
        show ?thesis
        proof (cases "chunk_delta chunk")
          case None
          then show ?thesis using e parts(1) s calls Chunk Inr y
            by (auto simp: emit_chunk_def input_fragments_def chunk_fragments_def on_wire_def streamed_state)
        next
          case (Some dl)
          have "emit_parts (str_field dl ''content'') (str_field dl ''reasoning_content'') (str_field dl ''thinking'') (delta_calls dl)
              (t0\<lparr>tr_state := st\<rparr>, out) = (t1, evs)"
            using e Some by (simp add: emit_chunk_def)
          from parts_on_wire [OF s this] show ?thesis
            using parts(2) [OF Some] calls Chunk Inr y Some by (simp add: input_fragments_def chunk_fragments_def calls_of_append)
        qed
      qed
    qed
  qed
qed

lemma tr_run_on_wire:
  "on_wire t es gs \<Longrightarrow> tr_run xs t = Some (t1, evs) \<Longrightarrow> on_wire t1 (es @ evs) (gs @ concat (map input_fragments xs))"
proof (induction xs arbitrary: t es gs evs)
  case (Cons x xs)
  then obtain t0 evs0 err evs1 where s: "tr_step x t = Some (t0, evs0, err)" "tr_run xs t0 = Some (t1, evs1)" "evs = evs0 @ evs1"
    by (auto split: bind_splits)
  from Cons.IH [OF tr_step_on_wire [OF Cons.prems(1) s(1)] s(2)] show ?case by (simp add: s(3))
qed simp

lemma new_on_wire: "on_wire (NewIncrementalStreamTranslator mid model) [] []"
  by (simp add: on_wire_def NewIncrementalStreamTranslator_def newStreamState_def fresh_def)

section \<open>The end of a stream\<close>

definition shut :: "read_block \<Rightarrow> read_block" where
  "shut = (\<lambda>(b, s, _). (b, s, False))"

lemma read_stops:
  assumes "distinct is" "\<forall>i \<in> set is. i < length (r_blocks r) \<and> snd (snd (r_blocks r ! i))" "in_body r"
  shows "read_all (map EventContentBlockStop is) r = Some (r\<lparr>r_blocks := fold (\<lambda>i bs. bs[i := shut (bs ! i)]) is (r_blocks r)\<rparr>)"
  using assms
proof (induction "is" arbitrary: r)
  case (Cons i "is")
  obtain b s where bi: "r_blocks r ! i = (b, s, True)" using Cons.prems(2) by (cases "r_blocks r ! i") auto
  let ?r = "r\<lparr>r_blocks := (r_blocks r)[i := shut (r_blocks r ! i)]\<rparr>"
  have "read_event (EventContentBlockStop i) r = Some ?r" using Cons.prems bi by (simp add: shut_def)
  moreover have "read_all (map EventContentBlockStop is) ?r
      = Some (?r\<lparr>r_blocks := fold (\<lambda>i bs. bs[i := shut (bs ! i)]) is (r_blocks ?r)\<rparr>)"
    using Cons.prems by (intro Cons.IH) (auto simp: in_body_def nth_list_update)
  ultimately show ?case by simp
qed simp

lemma fold_close_nth:
  "distinct is \<Longrightarrow> j < length bs \<Longrightarrow> fold (\<lambda>i bs. bs[i := shut (bs ! i)]) is bs ! j = (if j \<in> set is then shut (bs ! j) else bs ! j)"
  by (induction "is" arbitrary: bs) (auto simp: nth_list_update, metis nth_list_update_neq)

lemma fold_close_length [simp]: "length (fold (\<lambda>i bs. bs[i := shut (bs ! i)]) is bs) = length bs"
  by (induction "is" arbitrary: bs) auto

lemma fold_close_all: "distinct is \<Longrightarrow> set is = {0..<length bs} \<Longrightarrow> fold (\<lambda>i bs. bs[i := shut (bs ! i)]) is bs = map shut bs"
  by (rule nth_equalityI) (simp_all add: fold_close_nth)

lemma stop_tools:
  "distinct is \<Longrightarrow> snd (fold stop_tool is (t, out))
     = out @ map EventContentBlockStop (filter (\<lambda>i. \<exists>k. fmlookup (toolBlockIndex t) k = Some i \<and> tool_open t k) is)
   \<and> tr_state (fst (fold stop_tool is (t, out))) = tr_state t"
proof (induction "is" arbitrary: t out)
  case (Cons i "is")
  let ?P = "\<lambda>k. fmlookup (toolBlockIndex t) k = Some i \<and> tool_open t k"
  show ?case
  proof (cases "List.find ?P (sorted_list_of_fset (fmdom (toolBlockIndex t)))")
    case None
    then have "\<not> (\<exists>k. ?P k)" by (auto simp: find_None_iff dest: fmdomI)
    moreover have "stop_tool i (t, out) = (t, out)" using None by (simp add: stop_tool_def)
    ultimately show ?thesis using Cons by simp
  next
    case (Some k)
    let ?t = "t\<lparr>toolBlocksOpen := fmupd k False (toolBlocksOpen t)\<rparr>"
    have k: "?P k" using Some by (auto simp: find_Some_iff)
    have s: "stop_tool i (t, out) = (?t, out @ [EventContentBlockStop i])" using Some by (simp add: stop_tool_def)
    have same: "(\<exists>k'. fmlookup (toolBlockIndex ?t) k' = Some j \<and> tool_open ?t k') = (\<exists>k'. fmlookup (toolBlockIndex t) k' = Some j \<and> tool_open t k')"
      if "j \<noteq> i" for j
      using k that by (auto simp: tool_open_def) (metis option.inject)
    have "filter (\<lambda>j. \<exists>k'. fmlookup (toolBlockIndex ?t) k' = Some j \<and> tool_open ?t k') is
        = filter (\<lambda>j. \<exists>k'. fmlookup (toolBlockIndex t) k' = Some j \<and> tool_open t k') is"
    proof (rule filter_cong [OF refl])
      fix j assume "j \<in> set is"
      then have "j \<noteq> i" using Cons.prems by auto
      then show "(\<exists>k'. fmlookup (toolBlockIndex ?t) k' = Some j \<and> tool_open ?t k') = (\<exists>k'. fmlookup (toolBlockIndex t) k' = Some j \<and> tool_open t k')"
        by (rule same)
    qed
    then show ?thesis using Cons.IH [of ?t "out @ [EventContentBlockStop i]"] Cons.prems s k by auto
  qed
qed simp

lemma stop_tools_all:
  "snd (fold stop_tool [0..<n] e)
     = snd e @ map EventContentBlockStop (filter (\<lambda>i. \<exists>k. fmlookup (toolBlockIndex (fst e)) k = Some i \<and> tool_open (fst e) k) [0..<n])"
  "tr_state (fst (fold stop_tool [0..<n] e)) = tr_state (fst e)"
  using stop_tools [of "[0..<n]" "fst e" "snd e"] by simp_all

lemma sent_all_open: "sent t r txt thk W \<Longrightarrow> b \<in> set (r_blocks r) \<Longrightarrow> snd (snd b)"
proof -
  assume s: "sent t r txt thk W" and b: "b \<in> set (r_blocks r)"
  have "b \<in># sent_block text_block txt + sent_block thinking_block thk + call_blocks W"
    using s b by (simp add: sent_def flip: set_mset_mset)
  then show "snd (snd b)"
    by (auto simp: sent_block_def call_blocks_def call_block_def split: if_splits option.splits)
qed

lemma closing_stops:
  assumes "sent t r txt thk W"
  defines "is \<equiv> (if txt \<noteq> [] then [textBlockIndex t] else []) @ (if thk \<noteq> [] then [thinkingBlockIdx t] else [])
      @ filter (\<lambda>i. \<exists>k. fmlookup (toolBlockIndex t) k = Some i \<and> tool_open t k) [0..<nextBlockIndex t]"
  shows "distinct is" "set is = {0..<length (r_blocks r)}"
proof -
  let ?n = "nextBlockIndex t" and ?D = "fset (fmdom W)"
  let ?T = "filter (\<lambda>i. \<exists>k. fmlookup (toolBlockIndex t) k = Some i \<and> tool_open t k) [0..<?n]"
  note s = assms(1) [unfolded sent_def]
  note p = sent_pointers [OF assms(1)]
  have T: "set ?T = tool_block t ` ?D"
  proof -
    have "fmlookup (toolBlockIndex t) k = Some i \<and> tool_open t k \<longleftrightarrow> k \<in> ?D \<and> tool_block t k = i" for k i
    proof -
      have "fmlookup (toolBlockIndex t) k \<noteq> None \<longleftrightarrow> k \<in> ?D" "tool_open t k \<longleftrightarrow> k \<in> ?D"
        using s by (auto simp: fmlookup_dom_iff)
      then show ?thesis by (auto simp: tool_block_def split: option.split)
    qed
    then show ?thesis using s by auto
  qed
  show d: "distinct is"
    using p T s by (auto simp: is_def)
  have sub: "set is \<subseteq> {0..<?n}" using s T by (auto simp: is_def split: if_splits)
  have "length ?T = card ?D" using T s distinct_card [of ?T] card_image [of "tool_block t" ?D] by simp
  moreover have "?n = size (sent_block text_block txt + sent_block thinking_block thk + call_blocks W)"
    using s by (metis size_mset)
  ultimately have "length is = ?n" by (simp add: is_def) (simp add: sent_block_def call_blocks_def)
  then have "card (set is) = ?n" using d distinct_card by fastforce
  then show "set is = {0..<length (r_blocks r)}" using sub s card_subset_eq [of "{0..<?n}" "set is"] by simp
qed

lemma mset_at_most_one: "mset xs = mset (if c then [] else [x]) \<Longrightarrow> xs = (if c then [] else [x])"
  by (cases c) simp_all

lemma filter_mset_none: "(\<And>x. x \<in># M \<Longrightarrow> \<not> P x) \<Longrightarrow> filter_mset P M = {#}"
  by (induction M) auto

lemma finalize_on_wire:
  assumes "on_wire t es gs" "Finalize t = (t1, fin, err)"
  obtains W r where "read_all (es @ fin) empty_reader = Some r" "r_done r" "err = None" "finalized t1"
    "r_stop r = Some (StopReason (tr_state t), OutputTokens (Usage (tr_state t)))"
    "mset (r_blocks r) = image_mset shut (sent_block text_block (AccumulatedContent (tr_state t))
        + sent_block thinking_block (ThinkingContent (tr_state t)) + call_blocks W)"
    "calls_sent t gs W"
proof -
  obtain t0 out where p: "emitPreamble (t, []) = (t0, out)" by fastforce
  have st0: "tr_state t0 = tr_state t" "preIDArgs t0 = preIDArgs t"
    using p by (auto simp: emitPreamble_def Let_def split: if_splits)
  let ?txt = "AccumulatedContent (tr_state t)" and ?thk = "ThinkingContent (tr_state t)"
  obtain W r where W: "read_all (es @ out) empty_reader = Some r" "sent t0 r ?txt ?thk W" "calls_sent t0 gs W"
    using on_wire_preamble(1) [OF assms(1)] p by (auto simp: streamed_def sends_def)
  note s = W(2) [unfolded sent_def]
  let ?t2 = "fst (stop_thinking (stop_text (t0, out)))"
  let ?T = "filter (\<lambda>i. \<exists>k. fmlookup (toolBlockIndex t0) k = Some i \<and> tool_open t0 k) [0..<nextBlockIndex t0]"
  let ?is = "(if ?txt \<noteq> [] then [textBlockIndex t0] else []) @ (if ?thk \<noteq> [] then [thinkingBlockIdx t0] else []) @ ?T"
  have t2: "tool_open ?t2 = tool_open t0" "toolBlockIndex ?t2 = toolBlockIndex t0" "nextBlockIndex ?t2 = nextBlockIndex t0"
    "tr_state ?t2 = tr_state t"
    using st0 by (auto simp: stop_thinking_def stop_text_def tool_open_def fun_eq_iff)
  have o2: "snd (stop_thinking (stop_text (t0, out))) = out @ map EventContentBlockStop
      ((if ?txt \<noteq> [] then [textBlockIndex t0] else []) @ (if ?thk \<noteq> [] then [thinkingBlockIdx t0] else []))"
    using s by (simp add: stop_thinking_def stop_text_def)
  have tools: "snd (fold stop_tool [0..<nextBlockIndex ?t2] (stop_thinking (stop_text (t0, out)))) = out @ map EventContentBlockStop ?is"
    "tr_state (fst (fold stop_tool [0..<nextBlockIndex ?t2] (stop_thinking (stop_text (t0, out))))) = tr_state t"
    unfolding stop_tools_all t2 o2 by simp_all
  have fin: "fin = out @ map EventContentBlockStop ?is @ [message_delta_event (tr_state t), EventMessageStop]" "err = None" "finalized t1"
    using assms(2) on_wire_preamble(2) [OF assms(1)] p tools by (auto simp: Finalize_def case_prod_beta)
  let ?r1 = "r\<lparr>r_blocks := map shut (r_blocks r)\<rparr>"
  note is_ok = closing_stops [OF W(2)]
  have "read_all (map EventContentBlockStop ?is) r = Some ?r1"
  proof -
    have "\<forall>i \<in> set ?is. i < length (r_blocks r) \<and> snd (snd (r_blocks r ! i))"
      using is_ok(2) sent_all_open [OF W(2)] by (metis atLeastLessThan_iff nth_mem)
    from read_stops [OF is_ok(1) this conjunct1 [OF s]] show ?thesis unfolding fold_close_all [OF is_ok] .
  qed
  moreover have "read_all [message_delta_event (tr_state t), EventMessageStop] ?r1
      = Some (?r1\<lparr>r_stop := Some (StopReason (tr_state t), OutputTokens (Usage (tr_state t))), r_done := True\<rparr>)"
  proof -
    have "list_all (\<lambda>(_, _, opened). \<not> opened) (map shut (r_blocks r))" by (auto simp: list_all_iff shut_def)
    moreover have "in_body r" "\<not> r_done r" using s by simp_all
    ultimately show ?thesis by (simp add: message_delta_event_def in_body_def)
  qed
  ultimately have "read_all ((es @ out) @ map EventContentBlockStop ?is @ [message_delta_event (tr_state t), EventMessageStop]) empty_reader
      = Some (?r1\<lparr>r_stop := Some (StopReason (tr_state t), OutputTokens (Usage (tr_state t))), r_done := True\<rparr>)"
    by (intro read_all_chain [OF W(1)] read_all_chain)
  then have "read_all (es @ fin) empty_reader
      = Some (?r1\<lparr>r_stop := Some (StopReason (tr_state t), OutputTokens (Usage (tr_state t))), r_done := True\<rparr>)"
    unfolding fin(1) append_assoc .
  moreover have "mset (map shut (r_blocks r)) = image_mset shut (sent_block text_block ?txt + sent_block thinking_block ?thk + call_blocks W)"
    using s by simp
  moreover have "calls_sent t gs W" using W(3) calls_sent_eq [OF st0(2)] by blast
  ultimately show thesis using that fin(2,3) by fastforce
qed

lemma single_blocks:
  assumes "mset (r_blocks r) = image_mset shut (sent_block text_block txt + sent_block thinking_block thk + call_blocks W)"
  shows "filter (\<lambda>(b, _). b = text_block) (r_blocks r) = (if txt = [] then [] else [(text_block, txt, False)])"
    "filter (\<lambda>(b, _). b = thinking_block) (r_blocks r) = (if thk = [] then [] else [(thinking_block, thk, False)])"
proof -
  have kind: "\<exists>i n. fst x = tool_use i n" if "x \<in># image_mset shut (call_blocks W)" for x
    using that call_block_kind [of W] by (auto simp: call_blocks_def shut_def) (metis fst_conv)
  have none: "filter_mset (\<lambda>(b, _). b = text_block) (image_mset shut (call_blocks W)) = {#}"
    "filter_mset (\<lambda>(b, _). b = thinking_block) (image_mset shut (call_blocks W)) = {#}"
    by (rule filter_mset_none; use kind in fastforce)+
  have "mset (filter (\<lambda>(b, _). b = text_block) (r_blocks r)) = mset (if txt = [] then [] else [(text_block, txt, False)])"
    "mset (filter (\<lambda>(b, _). b = thinking_block) (r_blocks r)) = mset (if thk = [] then [] else [(thinking_block, thk, False)])"
    using assms none by (simp_all add: mset_filter sent_block_def shut_def)
  from this [THEN mset_at_most_one]
  show "filter (\<lambda>(b, _). b = text_block) (r_blocks r) = (if txt = [] then [] else [(text_block, txt, False)])"
    "filter (\<lambda>(b, _). b = thinking_block) (r_blocks r) = (if thk = [] then [] else [(thinking_block, thk, False)])" .
qed

text \<open>C20: a client always gets a complete message. Whatever lines and events the translator is fed, none of
  which panics, and however they are mixed, what it writes until after \<open>Finalize\<close> is accepted by a reader
  that insists on the order of the protocol: the start first and once, blocks with consecutive indices,
  deltas only of the right kind and into open blocks, every block closed once, the stop reason and the end of
  the message last. Text and thinking are each one block that holds exactly what was accumulated.\<close>

theorem live_stream_well_formed:
  assumes "tr_run xs (NewIncrementalStreamTranslator mid model) = Some (t, evs)"
  shows "\<exists>t' fin r. Finalize t = (t', fin, None) \<and> read_all (evs @ fin) empty_reader = Some r \<and> r_done r
     \<and> r_stop r = Some (StopReason (tr_state t), OutputTokens (Usage (tr_state t)))
     \<and> filter (\<lambda>(b, _). b = text_block) (r_blocks r)
         = (if AccumulatedContent (tr_state t) = [] then [] else [(text_block, AccumulatedContent (tr_state t), False)])
     \<and> filter (\<lambda>(b, _). b = thinking_block) (r_blocks r)
         = (if ThinkingContent (tr_state t) = [] then [] else [(thinking_block, ThinkingContent (tr_state t), False)])
     \<and> finalized t' \<and> Finalize t' = (t', [], Some AfterFinalize)"
proof -
  have w: "on_wire t evs (concat (map input_fragments xs))"
    using tr_run_on_wire [OF new_on_wire assms] by simp
  obtain t' fin err where f: "Finalize t = (t', fin, err)" by (cases "Finalize t")
  obtain W r where r: "read_all (evs @ fin) empty_reader = Some r" "r_done r" "err = None" "finalized t'"
    "r_stop r = Some (StopReason (tr_state t), OutputTokens (Usage (tr_state t)))"
    "mset (r_blocks r) = image_mset shut (sent_block text_block (AccumulatedContent (tr_state t))
        + sent_block thinking_block (ThinkingContent (tr_state t)) + call_blocks W)"
    using finalize_on_wire [OF w f] by blast
  have "Finalize t' = (t', [], Some AfterFinalize)" using r(4) by (simp add: Finalize_def)
  then show ?thesis using r(1-5) f single_blocks [OF r(6)] by blast
qed

section \<open>Batch and incremental translation\<close>

definition batch_ok :: "stream_event list \<times> nat \<Rightarrow> read_block list \<Rightarrow> bool" where
  "batch_ok p bs \<longleftrightarrow> (\<exists>r. read_all (fst p) empty_reader = Some r \<and> in_body r \<and> \<not> r_done r \<and> r_blocks r = bs) \<and> snd p = length bs"

definition text_entry :: "content_block \<Rightarrow> string \<Rightarrow> read_block list" where
  "text_entry b s = (if s = [] then [] else [(b, s, False)])"

definition call_entry :: "ToolCallState \<Rightarrow> read_block list" where
  "call_entry tc = (if ts_ID tc = [] \<or> ts_Name tc = [] then [] else [(tool_use (ts_ID tc) (ts_Name tc), ts_Arguments tc, False)])"

lemma read_one_block:
  assumes "in_body r"
  shows "read_all [EventContentBlockStart (length (r_blocks r)) b, EventContentBlockStop (length (r_blocks r))] r
      = Some (r\<lparr>r_blocks := r_blocks r @ [(b, [], False)]\<rparr>)"
    "delta_text d b = Some s \<Longrightarrow> read_all [EventContentBlockStart (length (r_blocks r)) b,
        EventContentBlockDelta (length (r_blocks r)) d, EventContentBlockStop (length (r_blocks r))] r
      = Some (r\<lparr>r_blocks := r_blocks r @ [(b, s, False)]\<rparr>)"
  using assms by (simp_all add: in_body_def)

lemma batch_block:
  assumes "batch_ok (evs, i) bs" "\<And>r. in_body r \<Longrightarrow> length (r_blocks r) = i \<Longrightarrow> read_all new r = Some (r\<lparr>r_blocks := r_blocks r @ [x]\<rparr>)"
  shows "batch_ok (evs @ new, i + 1) (bs @ [x])"
proof -
  obtain r where r: "read_all evs empty_reader = Some r" "in_body r" "\<not> r_done r" "r_blocks r = bs" "i = length bs"
    using assms(1) by (auto simp: batch_ok_def)
  then show ?thesis using assms(2) [of r] by (auto simp: batch_ok_def in_body_def)
qed

lemma batch_text_ok:
  assumes "batch_ok p bs" "delta_text (mk s) b = Some s"
  shows "batch_ok (batch_text b mk s p) (bs @ text_entry b s)"
proof (cases "s = []")
  case False
  obtain evs i where p: "p = (evs, i)" by (cases p)
  show ?thesis using batch_block [OF assms(1) [unfolded p] , of "[EventContentBlockStart i b, EventContentBlockDelta i (mk s), EventContentBlockStop i]" "(b, s, False)"]
    read_one_block(2) [OF _ assms(2)] False by (simp add: p batch_text_def text_entry_def del: read_all.simps) blast
qed (use assms in \<open>simp add: batch_text_def text_entry_def case_prod_beta\<close>)

lemma batch_call_ok:
  assumes "batch_ok p bs"
  shows "batch_ok (batch_call tc p) (bs @ call_entry tc)"
proof (cases "ts_ID tc = [] \<or> ts_Name tc = []")
  case False
  obtain evs i where p: "p = (evs, i)" by (cases p)
  let ?b = "tool_use (ts_ID tc) (ts_Name tc)"
  let ?new = "[EventContentBlockStart i ?b] @ (if ts_Arguments tc \<noteq> [] then [EventContentBlockDelta i (input_json_delta (ts_Arguments tc))] else [])
      @ [EventContentBlockStop i]"
  have "read_all ?new r = Some (r\<lparr>r_blocks := r_blocks r @ [(?b, ts_Arguments tc, False)]\<rparr>)" if "in_body r" "length (r_blocks r) = i" for r
    using that read_one_block(1) [OF that(1), of ?b] read_one_block(2) [OF that(1), of "input_json_delta (ts_Arguments tc)" ?b "ts_Arguments tc"]
    by (cases "ts_Arguments tc = []") (simp_all del: read_all.simps)
  from batch_block [OF assms [unfolded p] this] show ?thesis using False by (simp add: p batch_call_def call_entry_def)
qed (use assms in \<open>simp add: batch_call_def call_entry_def case_prod_beta\<close>)

lemma batch_calls_ok: "batch_ok p bs \<Longrightarrow> batch_ok (fold batch_call tcs p) (bs @ concat (map call_entry tcs))"
proof (induction tcs arbitrary: p bs)
  case (Cons tc tcs)
  from Cons.IH [OF batch_call_ok [OF Cons.prems]] show ?case by simp
qed simp

definition batch_blocks :: "StreamState \<Rightarrow> read_block list" where
  "batch_blocks st = text_entry thinking_block (ThinkingContent st) @ text_entry text_block (AccumulatedContent st)
     @ concat (map call_entry (ToolCalls st))"

lemma batch_reads:
  "\<exists>r. read_all (generateAnthropicEvents st) empty_reader = Some r \<and> r_done r \<and> r_blocks r = batch_blocks st
     \<and> r_stop r = Some (StopReason st, OutputTokens (Usage st))"
proof -
  let ?p = "fold batch_call (ToolCalls st) (batch_text text_block text_delta (AccumulatedContent st)
      (batch_text thinking_block thinking_delta (ThinkingContent st) ([message_start_event st, EventPing], 0)))"
  have "batch_ok ([message_start_event st, EventPing], 0) []"
    by (simp add: batch_ok_def message_start_event_def empty_reader_def in_body_def)
  from batch_text_ok [OF this, of thinking_delta "ThinkingContent st" thinking_block]
  have "batch_ok (batch_text thinking_block thinking_delta (ThinkingContent st) ([message_start_event st, EventPing], 0))
      (text_entry thinking_block (ThinkingContent st))" by simp
  from batch_calls_ok [OF batch_text_ok [OF this, of text_delta "AccumulatedContent st" text_block], of "ToolCalls st"]
  have "batch_ok ?p (batch_blocks st)" by (simp add: batch_blocks_def)
  then obtain r where r: "read_all (fst ?p) empty_reader = Some r" "in_body r" "\<not> r_done r" "r_blocks r = batch_blocks st"
    by (auto simp: batch_ok_def)
  have "list_all (\<lambda>(_, _, opened). \<not> opened) (batch_blocks st)"
    by (auto simp: batch_blocks_def text_entry_def call_entry_def list_all_iff split: if_splits)
  then have "read_all [message_delta_event st, EventMessageStop] r
      = Some (r\<lparr>r_stop := Some (StopReason st, OutputTokens (Usage st)), r_done := True\<rparr>)"
    using r by (simp add: message_delta_event_def in_body_def)
  from read_all_chain [OF r(1) this] show ?thesis using r(4) by (simp add: generateAnthropicEvents_def Let_def del: read_all_append)
qed

text \<open>A steady stream: indices are natural, every call is announced by a fragment with its identifier and
  name, and no other fragment of the call carries another identifier or another name, not even an empty one.\<close>

definition steady :: "call_fragment list \<Rightarrow> bool" where
  "steady gs = list_all (\<lambda>(k, i, n, a). 0 \<le> k \<and>
     (case announce k gs of None \<Rightarrow> False | Some (_, i', n', _) \<Rightarrow> (i = [] \<or> i = i') \<and> (n = None \<or> n = n'))) gs"

lemma last_id_steady:
  "(\<And>j i n a. (j, i, n, a) \<in> set gs \<Longrightarrow> j = k \<Longrightarrow> i = [] \<or> i = x) \<Longrightarrow> last_id k gs = (if (\<exists>n a. (k, x, n, a) \<in> set gs) then x else [])"
proof (induction gs rule: rev_induct)
  case (snoc g gs)
  obtain j i n a where g: "g = (j, i, n, a)" by (cases g)
  have "last_id k gs = (if (\<exists>n a. (k, x, n, a) \<in> set gs) then x else [])" using snoc by (metis Un_iff set_append)
  moreover have "j = k \<Longrightarrow> i = [] \<or> i = x" using snoc.prems [of j i n a] g by simp
  ultimately show ?case by (auto simp: g)
qed simp

lemma last_name_steady:
  "(\<And>j i n a. (j, i, n, a) \<in> set gs \<Longrightarrow> j = k \<Longrightarrow> n = None \<or> n = Some y) \<Longrightarrow> last_name k gs = (if (\<exists>i a. (k, i, Some y, a) \<in> set gs) then y else [])"
proof (induction gs rule: rev_induct)
  case (snoc g gs)
  obtain j i n a where g: "g = (j, i, n, a)" by (cases g)
  have "last_name k gs = (if (\<exists>i a. (k, i, Some y, a) \<in> set gs) then y else [])" using snoc by (metis Un_iff set_append)
  moreover have "j = k \<Longrightarrow> n = None \<or> n = Some y" using snoc.prems [of j i n a] g by simp
  ultimately show ?case by (auto simp: g split: option.split)
qed simp

lemma steady_slot:
  assumes "steady gs" "k \<in> fst ` set gs"
  obtains i n b where "announce k gs = Some (k, i, Some n, b)" "i \<noteq> []" "n \<noteq> []" "last_id k gs = i" "last_name k gs = n" "0 \<le> k"
proof -
  have s: "0 \<le> j \<and> (case announce j gs of None \<Rightarrow> False | Some (_, x, y, _) \<Rightarrow> (i = [] \<or> i = x) \<and> (n = None \<or> n = y))"
    if "(j, i, n, a) \<in> set gs" for j i n a
    using assms(1) that by (fastforce simp: steady_def list_all_iff)
  from assms(2) obtain i0 n0 a0 where k: "(k, i0, n0, a0) \<in> set gs" by auto
  then obtain g where g0: "announce k gs = Some g" using s [OF k] by (auto split: option.splits)
  obtain j i n' b where g: "g = (j, i, n', b)" by (cases g)
  have h: "j = k" "i \<noteq> []" "frag_name n' \<noteq> []" "(j, i, n', b) \<in> set gs" using announce_Some g0 g by auto
  then obtain n where n: "n' = Some n" "n \<noteq> []" by (cases n') (auto simp: frag_name_def)
  have "last_id k gs = i" using last_id_steady [of gs k i] s g0 g h by fastforce
  moreover have "last_name k gs = n" using last_name_steady [of gs k n] s g0 g h n by fastforce
  ultimately show thesis using that g0 g h n s [OF k] by auto
qed

lemma unannounced: "k \<notin> fst ` set gs \<Longrightarrow> announce k gs = None"
  by (cases "announce k gs") (auto dest: announce_Some simp: image_iff, metis announce_Some fst_conv prod_cases4)

lemma concat_singletons: "concat (map (\<lambda>j. if P j then [f j] else []) js) = map f (filter P js)"
  by (induction js) simp_all

text \<open>On a steady stream the tool blocks of both translations are the same, each counted once.\<close>

lemma steady_blocks:
  assumes "steady gs" "calls_sent t gs W"
  shows "mset (concat (map call_entry (calls_of gs))) = image_mset shut (call_blocks W)"
proof -
  let ?n = "length (calls_of gs)" and ?K = "fst ` set gs"
  let ?J = "filter (\<lambda>j. int j \<in> ?K) [0..<?n]"
  have look: "fmlookup W k = (case announce k gs of None \<Rightarrow> None | Some (_, x, y, _) \<Rightarrow> Some (x, frag_name y, args_of k gs))" for k
    using assms(2) by (simp add: calls_sent_def)
  have dom: "k \<in> fset (fmdom W) \<longleftrightarrow> k \<in> ?K" for k
  proof
    assume "k \<in> ?K"
    then obtain i n b where "announce k gs = Some (k, i, Some n, b)" using steady_slot [OF assms(1)] by metis
    then show "k \<in> fset (fmdom W)" using look [of k] by (auto intro: fmdomI)
  next
    assume k: "k \<in> fset (fmdom W)"
    then have "fmlookup W k \<noteq> None" by (metis fmdom_notI)
    then show "k \<in> ?K" using look [of k] unannounced [of k gs] by fastforce
  qed
  have entry: "call_entry (calls_of gs ! j) = (if int j \<in> ?K then [shut (call_block W (int j))] else [])" if "j < ?n" for j
  proof -
    have h: "slot_holds gs j (calls_of gs ! j)" using calls_of_slots that by blast
    show ?thesis
    proof (cases "int j \<in> ?K")
      case True
      then obtain i n b where "announce (int j) gs = Some (int j, i, Some n, b)" "i \<noteq> []" "n \<noteq> []" "last_id (int j) gs = i" "last_name (int j) gs = n"
        using steady_slot [OF assms(1)] by metis
      then show ?thesis using h look [of "int j"] True by (simp add: slot_holds_def call_entry_def call_block_def shut_def frag_name_def)
    next
      case False
      then show ?thesis using h unnamed_slot [of j gs] by (simp add: slot_holds_def call_entry_def)
    qed
  qed
  have "concat (map call_entry (calls_of gs)) = concat (map (\<lambda>j. call_entry (calls_of gs ! j)) [0..<?n])"
    by (simp add: map_nth flip: map_map [unfolded comp_def])
  also have "\<dots> = concat (map (\<lambda>j. if int j \<in> ?K then [shut (call_block W (int j))] else []) [0..<?n])"
    using entry by (intro arg_cong [where f = concat] map_cong) simp_all
  also have "\<dots> = map (\<lambda>j. shut (call_block W (int j))) ?J"
    by (rule concat_singletons)
  finally have list: "concat (map call_entry (calls_of gs)) = map (\<lambda>j. shut (call_block W (int j))) ?J" .
  have img: "int ` set ?J = fset (fmdom W)"
  proof
    show "int ` set ?J \<subseteq> fset (fmdom W)" using dom by auto
    show "fset (fmdom W) \<subseteq> int ` set ?J"
    proof
      fix k assume "k \<in> fset (fmdom W)"
      then have k: "k \<in> ?K" using dom by simp
      then have "0 \<le> k" using steady_slot [OF assms(1)] by metis
      moreover have "k < int ?n" using calls_of_slots k by blast
      ultimately show "k \<in> int ` set ?J" using k by (intro image_eqI [of _ _ "nat k"]) auto
    qed
  qed
  have "mset (map (\<lambda>j. shut (call_block W (int j))) ?J) = image_mset (\<lambda>j. shut (call_block W (int j))) (mset_set (set ?J))"
    by (simp add: mset_set_set)
  also have "\<dots> = image_mset (\<lambda>k. shut (call_block W k)) (image_mset int (mset_set (set ?J)))"
    by (simp add: multiset.map_comp comp_def)
  also have "image_mset int (mset_set (set ?J)) = mset_set (int ` set ?J)"
    by (rule image_mset_mset_set) (simp add: inj_on_def)
  finally show ?thesis unfolding list img by (simp add: call_blocks_def multiset.map_comp comp_def)
qed

lemma batch_line_parse:
  assumes "HasPrefix l ''data: ''" "TrimSpace l = l"
  shows "batch_line l st = (case ParseOpenAISSEChunk l of Inr (Some chunk, _) \<Rightarrow> accumulateChunk chunk st | _ \<Rightarrow> Some st)"
  using assms by (auto simp: batch_line_def ParseOpenAISSEChunk_def as_obj_def Let_def split: option.split json.split)

lemma emit_chunk_state [simp]: "tr_state (fst (emit_chunk chunk e)) = tr_state (fst e)"
  by (simp add: emit_chunk_def split: option.split)

lemma chunk_state:
  assumes "HasPrefix l ''data: ''" "TrimSpace l = l" "\<not> finalized t" "batch_line l (tr_state t) = Some st"
  shows "\<exists>t1 evs err. tr_step (Chunk l) t = Some (t1, evs, err) \<and> tr_state t1 = st"
proof -
  obtain t0 out where p: "emitPreamble (t, []) = (t0, out)" by fastforce
  have t0: "tr_state t0 = tr_state t" using preamble_state(1) [of "(t, [])"] p by simp
  have b: "(case ParseOpenAISSEChunk l of Inr (Some chunk, _) \<Rightarrow> accumulateChunk chunk (tr_state t) | _ \<Rightarrow> Some (tr_state t)) = Some st"
    using assms(4) batch_line_parse [OF assms(1,2)] by simp
  show ?thesis
  proof (cases "ParseOpenAISSEChunk l")
    case (Inl y)
    then show ?thesis using b p t0 assms(3) by (simp add: tr_step_def ProcessChunk_tr_def)
  next
    case (Inr y)
    obtain c d where y: "y = (c, d)" by (cases y)
    show ?thesis
    proof (cases c)
      case None
      then show ?thesis using b p t0 assms(3) Inr y by (simp add: tr_step_def ProcessChunk_tr_def)
    next
      case (Some chunk)
      obtain t2 out2 where e: "emit_chunk chunk (t0\<lparr>tr_state := st\<rparr>, out) = (t2, out2)" by fastforce
      then have "tr_state t2 = st" using emit_chunk_state [of chunk "(t0\<lparr>tr_state := st\<rparr>, out)"] by simp
      then show ?thesis using b p t0 assms(3) Inr y Some e by (simp add: tr_step_def ProcessChunk_tr_def)
    qed
  qed
qed

lemma run_state:
  "\<lbrakk>\<forall>l \<in> set ls. HasPrefix l ''data: '' \<and> TrimSpace l = l; on_wire t es gs; batch_lines ls (tr_state t) = Some st\<rbrakk>
    \<Longrightarrow> \<exists>t1 evs. tr_run (map Chunk ls) t = Some (t1, evs) \<and> tr_state t1 = st"
proof (induction ls arbitrary: t es gs)
  case (Cons l ls)
  then obtain st1 where st1: "batch_line l (tr_state t) = Some st1" "batch_lines ls st1 = Some st" by (auto split: bind_splits)
  obtain t1 evs err where s: "tr_step (Chunk l) t = Some (t1, evs, err)" "tr_state t1 = st1"
    using chunk_state [OF _ _ on_wire_preamble(2) [OF Cons.prems(2)] st1(1)] Cons.prems(1) by auto
  from Cons.IH [OF _ tr_step_on_wire [OF Cons.prems(2) s(1)]] obtain t2 evs2
    where "tr_run (map Chunk ls) t1 = Some (t2, evs2)" "tr_state t2 = st" using Cons.prems(1) st1(2) s(2) by auto
  then show ?case using s(1) by simp
qed simp

text \<open>C21: live and buffered mode tell the client the same. When the lines of a stream are fed to the
  incremental translator one by one, the client reads the same blocks with the same contents, the same stop
  reason and the same output tokens as from the batch translation of all lines, up to the order of the
  blocks, for every stream whose tool calls are announced by one fragment each.\<close>

theorem live_equals_buffered:
  assumes "\<forall>l \<in> set ls. HasPrefix l ''data: '' \<and> TrimSpace l = l"
    and "batch_lines ls (newStreamState mid model) = Some st"
    and "steady (concat (map (input_fragments \<circ> Chunk) ls))"
  shows "\<exists>t evs t' fin r r'. tr_run (map Chunk ls) (NewIncrementalStreamTranslator mid model) = Some (t, evs)
     \<and> Finalize t = (t', fin, None) \<and> tr_state t = st
     \<and> read_all (evs @ fin) empty_reader = Some r \<and> read_all (generateAnthropicEvents st) empty_reader = Some r'
     \<and> mset (r_blocks r) = mset (r_blocks r') \<and> r_stop r = r_stop r' \<and> r_done r \<and> r_done r'"
proof -
  let ?t0 = "NewIncrementalStreamTranslator mid model" and ?gs = "concat (map (input_fragments \<circ> Chunk) ls)"
  have st0: "tr_state ?t0 = newStreamState mid model" by (simp add: NewIncrementalStreamTranslator_def)
  obtain t evs where run: "tr_run (map Chunk ls) ?t0 = Some (t, evs)" "tr_state t = st"
    using run_state [OF assms(1) new_on_wire, of mid model st] assms(2) st0 by auto
  have w: "on_wire t evs ?gs" using tr_run_on_wire [OF new_on_wire run(1)] by simp
  obtain t' fin err where f: "Finalize t = (t', fin, err)" by (cases "Finalize t")
  obtain W r where r: "read_all (evs @ fin) empty_reader = Some r" "r_done r" "err = None"
    "r_stop r = Some (StopReason st, OutputTokens (Usage st))"
    "mset (r_blocks r) = image_mset shut (sent_block text_block (AccumulatedContent st) + sent_block thinking_block (ThinkingContent st) + call_blocks W)"
    "calls_sent t ?gs W"
    using finalize_on_wire [OF w f] run(2) by blast
  obtain r' where r': "read_all (generateAnthropicEvents st) empty_reader = Some r'" "r_done r'" "r_blocks r' = batch_blocks st"
    "r_stop r' = Some (StopReason st, OutputTokens (Usage st))" using batch_reads by blast
  have "ToolCalls st = calls_of ?gs" using w run(2) by (simp add: on_wire_def)
  then have "mset (concat (map call_entry (ToolCalls st))) = image_mset shut (call_blocks W)"
    using steady_blocks [OF assms(3) r(6)] by simp
  then have "mset (r_blocks r) = mset (r_blocks r')"
    using r(5) r'(3) by (simp add: batch_blocks_def text_entry_def sent_block_def shut_def)
  then show ?thesis using run f r(1-4) r'(1,2,4) by metis
qed

text \<open>C22: a provider that never sends the identifier and the name of a call in one fragment loses its calls in
  live mode. The client reads no tool call at all, although the accumulated state has the call with its
  identifier, name and arguments, and the batch translation of the same lines shows it.\<close>

theorem split_announcement_drops_calls:
  assumes "\<forall>l \<in> set ls. HasPrefix l ''data: '' \<and> TrimSpace l = l"
    and "batch_lines ls (newStreamState mid model) = Some st"
    and "gs = concat (map (input_fragments \<circ> Chunk) ls)"
    and "\<forall>(k, i, n, a) \<in> set gs. i = [] \<or> frag_name n = []"
    and "0 \<le> k" "k \<in> fst ` set gs" "last_id k gs \<noteq> []" "last_name k gs \<noteq> []"
  shows "\<exists>t evs t' fin r r'. tr_run (map Chunk ls) (NewIncrementalStreamTranslator mid model) = Some (t, evs)
     \<and> Finalize t = (t', fin, None) \<and> read_all (evs @ fin) empty_reader = Some r
     \<and> (\<forall>b \<in> set (r_blocks r). fst b = text_block \<or> fst b = thinking_block)
     \<and> read_all (generateAnthropicEvents st) empty_reader = Some r'
     \<and> (tool_use (last_id k gs) (last_name k gs), args_of k gs, False) \<in> set (r_blocks r')"
proof -
  let ?t0 = "NewIncrementalStreamTranslator mid model"
  have st0: "tr_state ?t0 = newStreamState mid model" by (simp add: NewIncrementalStreamTranslator_def)
  obtain t evs where run: "tr_run (map Chunk ls) ?t0 = Some (t, evs)" "tr_state t = st"
    using run_state [OF assms(1) new_on_wire, of mid model st] assms(2) st0 by auto
  have w: "on_wire t evs gs" using tr_run_on_wire [OF new_on_wire run(1)] assms(3) by simp
  obtain t' fin err where f: "Finalize t = (t', fin, err)" by (cases "Finalize t")
  obtain W r where r: "read_all (evs @ fin) empty_reader = Some r" "err = None"
    "mset (r_blocks r) = image_mset shut (sent_block text_block (AccumulatedContent st) + sent_block thinking_block (ThinkingContent st) + call_blocks W)"
    "calls_sent t gs W"
    using finalize_on_wire [OF w f] run(2) by blast
  have "announce k' gs = None" for k'
    using assms(4) by (cases "announce k' gs") (auto dest!: announce_Some)
  then have "fmlookup W k' = None" for k' using r(4) by (simp add: calls_sent_def)
  then have "W = fmempty" by (auto intro: fmap_ext)
  then have "mset (r_blocks r) = image_mset shut (sent_block text_block (AccumulatedContent st) + sent_block thinking_block (ThinkingContent st))"
    using r(3) by (simp add: call_blocks_def)
  then have kinds: "\<forall>b \<in> set (r_blocks r). fst b = text_block \<or> fst b = thinking_block"
    by (auto simp: sent_block_def shut_def simp flip: set_mset_mset split: if_splits)
  obtain r' where r': "read_all (generateAnthropicEvents st) empty_reader = Some r'" "r_blocks r' = batch_blocks st" using batch_reads by blast
  have calls: "ToolCalls st = calls_of gs" using w run(2) by (simp add: on_wire_def)
  have j: "nat k < length (calls_of gs)" using calls_of_slots assms(5,6) by fastforce
  then have "slot_holds gs (nat k) (calls_of gs ! nat k)" using calls_of_slots by blast
  then have "(tool_use (last_id k gs) (last_name k gs), args_of k gs, False) \<in> set (call_entry (calls_of gs ! nat k))"
    using assms(5,7,8) by (simp add: slot_holds_def call_entry_def)
  then have "(tool_use (last_id k gs) (last_name k gs), args_of k gs, False) \<in> set (batch_blocks st)"
    using j by (auto simp: batch_blocks_def calls)
  then show ?thesis using run(1) f r(1,2) kinds r' by metis
qed

section \<open>Witnesses\<close>

lemma live_stream_well_formed_witness:
  "\<exists>t evs t' fin r. tr_run [Event ''Hi'' [] ''hm'' [], Event '' you'' [] [] []] (NewIncrementalStreamTranslator ''msg_1'' ''m'') = Some (t, evs)
     \<and> Finalize t = (t', fin, None) \<and> read_all (evs @ fin) empty_reader = Some r \<and> r_done r
     \<and> filter (\<lambda>(b, _). b = text_block) (r_blocks r) = [(text_block, ''Hi you'', False)]"
proof -
  let ?t0 = "NewIncrementalStreamTranslator ''msg_1'' ''m''"
  obtain t evs where run: "tr_run [Event ''Hi'' [] ''hm'' [], Event '' you'' [] [] []] ?t0 = Some (t, evs)"
    and st: "AccumulatedContent (tr_state t) = ''Hi you''"
    by (simp add: tr_step_def ProcessEvent_def NewIncrementalStreamTranslator_def newStreamState_def emitPreamble_def emit_parts_def
        emit_if_def emitTextDelta_def emitThinkingDelta_def)
  show ?thesis using live_stream_well_formed [OF run] run st by auto
qed

definition ex_line :: "json \<Rightarrow> string" where
  "ex_line call = ''data: '' @ marshal (JObj [(''choices'', JArr [JObj [(''delta'', JObj [(''tool_calls'', JArr [call])])]])])"

lemma tc_index_missing: "obj_get m ''index'' = None \<Longrightarrow> tc_index m = 0"
  by (simp add: tc_index_def as_num_def go_int_def)

lemma ex_chunk_parses:
  assumes "wf_json (Suc (Suc (Suc (Suc (Suc 0))))) call" "json_fits call" "TrimSpace (ex_line call) = ex_line call"
  shows "ParseOpenAISSEChunk (ex_line call) = Inr (Some [(''choices'', JArr [JObj [(''delta'', JObj [(''tool_calls'', JArr [call])])]])], False)"
proof -
  let ?j = "JObj [(''choices'', JArr [JObj [(''delta'', JObj [(''tool_calls'', JArr [call])])]])]"
  have "valid_utf8 ''choices''" "valid_utf8 ''delta''" "valid_utf8 ''tool_calls''" by code_simp+
  then have "wf_json 0 ?j" using assms(1) by (simp add: maxNestingDepth_def)
  from json_round_trip [OF this] have "Unmarshal_any (marshal ?j) = Some ?j"
    using assms(2) by (simp add: Unmarshal_any_def del: marshal.simps)
  moreover have "marshal ?j \<noteq> ''[DONE]''" by simp
  moreover have "TrimPrefix (ex_line call) ''data: '' = marshal ?j"
    unfolding ex_line_def by (rule TrimPrefix_append)
  moreover have "HasPrefix (ex_line call) ''data: ''"
    by (simp add: ex_line_def HasPrefix_iff del: marshal.simps)
  ultimately show ?thesis using assms(3) by (simp add: ParseOpenAISSEChunk_def Let_def del: marshal.simps)
qed

definition ex_call1 :: json where
  "ex_call1 = JObj [(''id'', JStr ''c1''), (''function'', JObj [(''name'', JStr ''f''), (''arguments'', JStr ''{}'')])]"

definition ex_call2 :: json where
  "ex_call2 = JObj [(''id'', JStr ''c1''), (''function'', JObj [(''arguments'', JStr ''{'')])]"

definition ex_call3 :: json where
  "ex_call3 = JObj [(''function'', JObj [(''name'', JStr ''f''), (''arguments'', JStr ''}'')])]"

lemma ex_calls_ok:
  "wf_json (Suc (Suc (Suc (Suc (Suc 0))))) ex_call1" "wf_json (Suc (Suc (Suc (Suc (Suc 0))))) ex_call2" "wf_json (Suc (Suc (Suc (Suc (Suc 0))))) ex_call3" "json_fits ex_call1" "json_fits ex_call2" "json_fits ex_call3"
  "TrimSpace (ex_line ex_call1) = ex_line ex_call1" "TrimSpace (ex_line ex_call2) = ex_line ex_call2"
  "TrimSpace (ex_line ex_call3) = ex_line ex_call3"
  by code_simp+

lemma ex_chunk_line: "HasPrefix (ex_line call) ''data: ''"
  by (simp add: ex_line_def HasPrefix_iff)

lemma ex_chunk_delta:
  "chunk_delta [(''choices'', JArr [JObj [(''delta'', JObj [(''tool_calls'', JArr [call])])]])] = Some [(''tool_calls'', JArr [call])]"
  "first_choice [(''choices'', JArr [JObj [(''delta'', d)]])] = Some [(''delta'', d)]"
  by (simp_all add: chunk_delta_def first_choice_def obj_get_def as_arr_def as_obj_def)

lemma ex_fragments:
  "fragment_of ex_call1 = Some (0, ''c1'', Some ''f'', ''{}'')"
  "fragment_of ex_call2 = Some (0, ''c1'', None, ''{'')"
  "fragment_of ex_call3 = Some (0, [], Some ''f'', ''}'')"
  by (simp_all add: fragment_of_def ex_call1_def ex_call2_def ex_call3_def as_obj_def as_str_def obj_get_def str_field_def tc_index_missing)

lemma ex_input_fragments:
  assumes "wf_json (Suc (Suc (Suc (Suc (Suc 0))))) call" "json_fits call" "TrimSpace (ex_line call) = ex_line call"
  shows "input_fragments (Chunk (ex_line call)) = fragments [call]"
  by (simp add: input_fragments_def ex_chunk_parses [OF assms] chunk_fragments_def ex_chunk_delta)
    (simp add: delta_calls_def obj_get_def as_arr_def)

lemma ex_batch_line:
  assumes "wf_json (Suc (Suc (Suc (Suc (Suc 0))))) call" "json_fits call" "TrimSpace (ex_line call) = ex_line call"
    "accumulate_call call (ToolCalls st) = Some calls"
  shows "batch_line (ex_line call) st = Some (st\<lparr>ToolCalls := calls\<rparr>)"
  using assms(4) unfolding batch_line_parse [OF ex_chunk_line assms(3)] ex_chunk_parses [OF assms(1-3)]
  by (simp add: accumulateChunk_def ex_chunk_delta accumulate_delta_def obj_get_def as_obj_def as_str_def as_arr_def str_field_def)

lemma ex_accumulate:
  "accumulate_call ex_call1 [] = Some [\<lparr>ts_Index = 0, ts_ID = ''c1'', ts_Name = ''f'', ts_Arguments = ''{}''\<rparr>]"
  "accumulate_call ex_call2 [] = Some [\<lparr>ts_Index = 0, ts_ID = ''c1'', ts_Name = [], ts_Arguments = ''{''\<rparr>]"
  "accumulate_call ex_call3 [\<lparr>ts_Index = 0, ts_ID = ''c1'', ts_Name = [], ts_Arguments = ''{''\<rparr>]
     = Some [\<lparr>ts_Index = 0, ts_ID = ''c1'', ts_Name = ''f'', ts_Arguments = ''{}''\<rparr>]"
  by (simp_all add: accumulate_call_def ex_call1_def ex_call2_def ex_call3_def as_obj_def as_str_def obj_get_def tc_index_missing
      add_slots_def when_some_def at_slot_def)

lemma live_equals_buffered_witness:
  "\<exists>st t evs t' fin r r'. batch_lines [ex_line ex_call1] (newStreamState ''msg_1'' ''m'') = Some st
     \<and> ts_Name (ToolCalls st ! 0) = ''f''
     \<and> tr_run (map Chunk [ex_line ex_call1]) (NewIncrementalStreamTranslator ''msg_1'' ''m'') = Some (t, evs)
     \<and> Finalize t = (t', fin, None) \<and> tr_state t = st
     \<and> read_all (evs @ fin) empty_reader = Some r \<and> read_all (generateAnthropicEvents st) empty_reader = Some r'
     \<and> mset (r_blocks r) = mset (r_blocks r') \<and> r_stop r = r_stop r' \<and> r_done r \<and> r_done r'"
proof -
  let ?st = "(newStreamState ''msg_1'' ''m'')\<lparr>ToolCalls := [\<lparr>ts_Index = 0, ts_ID = ''c1'', ts_Name = ''f'', ts_Arguments = ''{}''\<rparr>]\<rparr>"
  have b: "batch_lines [ex_line ex_call1] (newStreamState ''msg_1'' ''m'') = Some ?st"
    using ex_batch_line [OF ex_calls_ok(1,4,7)] ex_accumulate(1) by (simp add: newStreamState_def)
  have l: "\<forall>l \<in> set [ex_line ex_call1]. HasPrefix l ''data: '' \<and> TrimSpace l = l" using ex_chunk_line ex_calls_ok(7) by simp
  have "steady [(0, ''c1'', Some ''f'', ''{}'')]" by (simp add: steady_def announce_def announces_def frag_name_def)
  then have s: "steady (concat (map (input_fragments \<circ> Chunk) [ex_line ex_call1]))"
    using ex_input_fragments [OF ex_calls_ok(1,4,7)] ex_fragments(1) by (simp add: fragments_Cons)
  have "ts_Name (ToolCalls ?st ! 0) = ''f''" by simp
  then show ?thesis using live_equals_buffered [OF l b s] b by blast
qed

lemma split_announcement_drops_calls_witness:
  "\<exists>st t evs t' fin r r'. batch_lines [ex_line ex_call2, ex_line ex_call3] (newStreamState ''msg_1'' ''m'') = Some st
     \<and> tr_run (map Chunk [ex_line ex_call2, ex_line ex_call3]) (NewIncrementalStreamTranslator ''msg_1'' ''m'') = Some (t, evs)
     \<and> Finalize t = (t', fin, None) \<and> read_all (evs @ fin) empty_reader = Some r
     \<and> list_all (\<lambda>b. fst b = text_block \<or> fst b = thinking_block) (r_blocks r)
     \<and> read_all (generateAnthropicEvents st) empty_reader = Some r' \<and> (tool_use ''c1'' ''f'', ''{}'', False) \<in> set (r_blocks r')"
proof -
  let ?ls = "[ex_line ex_call2, ex_line ex_call3]"
  let ?st = "(newStreamState ''msg_1'' ''m'')\<lparr>ToolCalls := [\<lparr>ts_Index = 0, ts_ID = ''c1'', ts_Name = ''f'', ts_Arguments = ''{}''\<rparr>]\<rparr>"
  let ?gs = "[(0, ''c1'', None, ''{''), (0, [], Some ''f'', ''}'')] :: call_fragment list"
  have b: "batch_lines ?ls (newStreamState ''msg_1'' ''m'') = Some ?st"
    using ex_batch_line [OF ex_calls_ok(2,5,8)] ex_batch_line [OF ex_calls_ok(3,6,9)] ex_accumulate(2,3) by (simp add: newStreamState_def)
  have l: "\<forall>l \<in> set ?ls. HasPrefix l ''data: '' \<and> TrimSpace l = l" using ex_chunk_line ex_calls_ok(8,9) by simp
  have g: "?gs = concat (map (input_fragments \<circ> Chunk) ?ls)"
    using ex_input_fragments [OF ex_calls_ok(2,5,8)] ex_input_fragments [OF ex_calls_ok(3,6,9)] ex_fragments(2,3) by (simp add: fragments_Cons)
  have n: "\<forall>(k, i, n, a) \<in> set ?gs. i = [] \<or> frag_name n = []" by (simp add: frag_name_def)
  have last: "last_id 0 ?gs = ''c1''" "last_name 0 ?gs = ''f''" "args_of 0 ?gs = ''{}''" by (simp_all add: last_id_def last_name_def args_of_def)
  show ?thesis using split_announcement_drops_calls [OF l b g n, of 0] last b by (auto simp: list_all_iff)
qed

end
