(* ===== verification/LiveStream.thy ===== *)
theory LiveStream
  imports ToolCallBuffer StreamTranslator
begin

text \<open>
  The live arm of the internal handler's stream (\<open>proxy/internal_handler.go\<close>, \<open>handleStream\<close> with a
  translator): provider events go through the incremental translator to the client, tool calls first
  through the tool-call buffer. The wire is the list of what was written. Whether a write succeeds is
  the argument \<open>up\<close>, a function of how many were written before, so a broken connection stays broken. The clock
  of an event gives the nanoseconds of the line built from it; a panic is the result \<open>None\<close>.
\<close>

section \<open>Provider events and lines\<close>

text \<open>The whole response that a final event may carry is left out, the handler never reads it.\<close>

record ToolCall =
  pc_Index :: int
  pc_ID :: string
  pc_Type :: string
  pc_Name :: string
  pc_Arguments :: string

record StreamEvent =
  ev_Type :: string
  ev_Content :: string
  ev_ReasoningContent :: string
  ev_ToolCalls :: "ToolCall list"
  ev_FinishReason :: string
  ev_Error :: string

text \<open>The members of a struct are written in the order of its fields, an index 0 is omitted.\<close>

definition delta_call_json :: "ToolCall \<Rightarrow> json" where
  "delta_call_json tc =
     JObj ((if pc_Index tc = 0 then [] else [(''index'', JInt (pc_Index tc))])
       @ [(''id'', JStr (pc_ID tc)), (''type'', JStr (pc_Type tc)),
          (''function'', JObj [(''name'', JStr (pc_Name tc)), (''arguments'', JStr (pc_Arguments tc))])])"

definition tool_call_chunk :: "string \<Rightarrow> nat \<Rightarrow> ToolCall list \<Rightarrow> json" where
  "tool_call_chunk model nano tcs =
     JObj [(''id'', JStr (''chatcmpl-'' @ show_nat nano)), (''object'', JStr ''chat.completion.chunk''),
           (''created'', JNum (show_nat (nano div 10 ^ 9))), (''model'', JStr model),
           (''choices'', JArr [JObj [(''index'', JNum ''0''),
              (''delta'', JObj ([(''role'', JStr ''assistant''), (''content'', JNull)]
                 @ (if tcs = [] then [] else [(''tool_calls'', JArr (map delta_call_json tcs))]))),
              (''finish_reason'', JStr [])]]),
           (''usage'', JObj [(''prompt_tokens'', JNum ''0''), (''completion_tokens'', JNum ''0''), (''total_tokens'', JNum ''0'')])]"

definition parse_tool_call :: "json \<Rightarrow> ToolCall option" where
  "parse_tool_call tc =
     (case as_obj (Some tc) of
        None \<Rightarrow> None
      | Some m \<Rightarrow>
          let fn = (case as_obj (obj_get m ''function'') of None \<Rightarrow> [] | Some fn \<Rightarrow> fn) in
          Some \<lparr>pc_Index = 0, pc_ID = str_field m ''id'', pc_Type = str_field m ''type'',
                pc_Name = str_field fn ''name'', pc_Arguments = str_field fn ''arguments''\<rparr>)"

definition parseBufferEmittedToolCalls :: "string \<Rightarrow> ToolCall list" where
  "parseBufferEmittedToolCalls line =
     (let s = TrimSpace line in
      if \<not> HasPrefix s ''data: '' then []
      else (case do {
          chunk \<leftarrow> as_obj (Unmarshal_any (TrimPrefix s ''data: ''));
          choices \<leftarrow> as_arr (obj_get chunk ''choices'');
          if choices = [] then None else do {
            choice \<leftarrow> as_obj (Some (hd choices));
            delta \<leftarrow> as_obj (obj_get choice ''delta'');
            as_arr (obj_get delta ''tool_calls'') } } of
        None \<Rightarrow> []
      | Some tcs \<Rightarrow> List.map_filter parse_tool_call tcs))"

definition convert_call :: "nat \<Rightarrow> ToolCall \<Rightarrow> json" where
  "convert_call i tc =
     JObj [(''index'', JNum (show_nat i)), (''id'', JStr (pc_ID tc)), (''type'', JStr (pc_Type tc)),
           (''function'', JObj [(''name'', JStr (pc_Name tc)), (''arguments'', JStr (pc_Arguments tc))])]"

definition convertProvidersToolCallsToMapList :: "ToolCall list \<Rightarrow> json list" where
  "convertProvidersToolCallsToMapList tcs = map (\<lambda>(i, tc). convert_call i tc) (enumerate 0 tcs)"

section \<open>State and writes\<close>

datatype wire_item = Connected | Sse stream_event | SseError string

text \<open>\<open>headersSent\<close> is \<open>None\<close> without a request context, \<open>thinkingSink\<close> is \<open>None\<close> without a sink.\<close>

record live_stream =
  lv_tr :: IncrementalStreamTranslator
  lv_buf :: "ToolCallBuffer option"
  wire :: "wire_item list"
  headersSent :: "bool option"
  thinkingSink :: "string option"

datatype write_result = Written | Refused | Broken

definition put_item :: "(nat \<Rightarrow> bool) \<Rightarrow> wire_item \<Rightarrow> live_stream \<Rightarrow> live_stream \<times> bool" where
  "put_item up x s = (if up (length (wire s)) then (s\<lparr>wire := wire s @ [x]\<rparr>, True) else (s, False))"

definition emitLivePreamble :: "(nat \<Rightarrow> bool) \<Rightarrow> live_stream \<Rightarrow> live_stream" where
  "emitLivePreamble up s =
     (if headersSent s = Some False then fst (put_item up Connected (s\<lparr>headersSent := Some True\<rparr>)) else s)"

fun put_events :: "(nat \<Rightarrow> bool) \<Rightarrow> stream_event list \<Rightarrow> live_stream \<Rightarrow> live_stream \<times> write_result" where
  "put_events up [] s = (s, Written)"
| "put_events up (e # es) s =
     (case put_item up (Sse e) s of (s1, ok) \<Rightarrow> if ok then put_events up es s1 else (s1, Broken))"

definition write_live :: "(nat \<Rightarrow> bool) \<Rightarrow> stream_event list \<Rightarrow> live_stream \<Rightarrow> live_stream \<times> write_result" where
  "write_live up evs s = put_events up evs (if evs \<noteq> [] then emitLivePreamble up s else s)"

definition drive_event :: "(nat \<Rightarrow> bool) \<Rightarrow> string \<Rightarrow> string \<Rightarrow> json list \<Rightarrow> live_stream \<Rightarrow> (live_stream \<times> write_result) option" where
  "drive_event up content reasoning tcs s =
     (case ProcessEvent content reasoning [] tcs (lv_tr s) of
        None \<Rightarrow> None
      | Some (t, evs, Some _) \<Rightarrow> Some (s\<lparr>lv_tr := t\<rparr>, Refused)
      | Some (t, evs, None) \<Rightarrow> Some (write_live up evs (s\<lparr>lv_tr := t\<rparr>)))"

definition drive_chunk :: "(nat \<Rightarrow> bool) \<Rightarrow> string \<Rightarrow> live_stream \<Rightarrow> (live_stream \<times> write_result) option" where
  "drive_chunk up emitted s =
     (let tcs = parseBufferEmittedToolCalls emitted in
      if tcs = [] then Some (s, Written) else drive_event up [] [] (convertProvidersToolCallsToMapList tcs) s)"

text \<open>The tool-call arm stops at a refusal, the flush goes on to the next chunk.\<close>

fun drive_chunks :: "(nat \<Rightarrow> bool) \<Rightarrow> string list \<Rightarrow> live_stream \<Rightarrow> (live_stream \<times> write_result) option" where
  "drive_chunks up [] s = Some (s, Written)"
| "drive_chunks up (c # cs) s =
     do { (s1, r) \<leftarrow> drive_chunk up c s; if r = Written then drive_chunks up cs s1 else Some (s1, r) }"

fun flush_chunks :: "(nat \<Rightarrow> bool) \<Rightarrow> string list \<Rightarrow> live_stream \<Rightarrow> (live_stream \<times> write_result) option" where
  "flush_chunks up [] s = Some (s, Written)"
| "flush_chunks up (c # cs) s =
     do { (s1, r) \<leftarrow> drive_chunk up c s; if r = Broken then Some (s1, r) else flush_chunks up cs s1 }"

definition driveBufferFlushIntoLiveTranslator ::
    "(string \<Rightarrow> string option) \<Rightarrow> (nat \<Rightarrow> nat) \<Rightarrow> (nat \<Rightarrow> bool) \<Rightarrow> live_stream \<Rightarrow> (live_stream \<times> write_result) option" where
  "driveBufferFlushIntoLiveTranslator jr clock up s =
     (case lv_buf s of
        None \<Rightarrow> Some (s, Written)
      | Some b \<Rightarrow> (case Flush jr clock b of (chunks, b1) \<Rightarrow> flush_chunks up chunks (s\<lparr>lv_buf := Some b1\<rparr>)))"

definition finalize_live :: "(nat \<Rightarrow> bool) \<Rightarrow> live_stream \<Rightarrow> live_stream \<times> write_result" where
  "finalize_live up s =
     (case Finalize (lv_tr s) of
        (t, evs, None) \<Rightarrow> write_live up evs (s\<lparr>lv_tr := t\<rparr>)
      | (t, evs, Some _) \<Rightarrow> (s\<lparr>lv_tr := t\<rparr>, Refused))"

section \<open>The stream\<close>

datatype stream_result = Returned | WriteFailed | StreamFailed string

definition tool_call_chunks :: "(string \<Rightarrow> string option) \<Rightarrow> string \<Rightarrow> (nat \<Rightarrow> nat) \<Rightarrow> ToolCall list \<Rightarrow> live_stream \<Rightarrow> string list \<times> live_stream" where
  "tool_call_chunks jr model clock tcs s =
     (let line = sse_chunk (tool_call_chunk model (clock 0) tcs) in
      case lv_buf s of
        None \<Rightarrow> ([line], s)
      | Some b \<Rightarrow> (case ProcessChunk jr (\<lambda>i. clock (i + 1)) line b of (chunks, b1) \<Rightarrow> (chunks, s\<lparr>lv_buf := Some b1\<rparr>)))"

definition after_live_write :: "live_stream \<times> write_result \<Rightarrow> live_stream \<times> stream_result option" where
  "after_live_write = (\<lambda>(s, r). (s, if r = Broken then Some WriteFailed else None))"

definition sink_thinking :: "string \<Rightarrow> live_stream \<Rightarrow> live_stream" where
  "sink_thinking t s = s\<lparr>thinkingSink := map_option (\<lambda>x. x @ t) (thinkingSink s)\<rparr>"

text \<open>The end of the stream: what is held is flushed before the message is closed.\<close>

definition done_event :: "(string \<Rightarrow> string option) \<Rightarrow> (nat \<Rightarrow> nat) \<Rightarrow> (nat \<Rightarrow> bool) \<Rightarrow> live_stream \<Rightarrow> (live_stream \<times> stream_result) option" where
  "done_event jr clock up s = do {
     (s1, r) \<leftarrow> driveBufferFlushIntoLiveTranslator jr clock up s;
     if r = Broken then Some (s1, WriteFailed)
     else (case finalize_live up s1 of (s2, r2) \<Rightarrow> Some (s2, if r2 = Broken then WriteFailed else Returned)) }"

definition close_stream :: "(string \<Rightarrow> string option) \<Rightarrow> (nat \<Rightarrow> nat) \<Rightarrow> (nat \<Rightarrow> bool) \<Rightarrow> live_stream \<Rightarrow> live_stream option" where
  "close_stream jr clock up s = do {
     (s1, _) \<leftarrow> driveBufferFlushIntoLiveTranslator jr clock up s; Some (fst (finalize_live up s1)) }"

text \<open>The arms of the switch over the type of an event.\<close>

definition content_arm :: "(nat \<Rightarrow> bool) \<Rightarrow> StreamEvent \<Rightarrow> live_stream \<Rightarrow> (live_stream \<times> stream_result option) option" where
  "content_arm up ev s =
     map_option after_live_write (drive_event up (ev_Content ev) [] (convertProvidersToolCallsToMapList (ev_ToolCalls ev)) s)"

definition thinking_arm :: "(nat \<Rightarrow> bool) \<Rightarrow> StreamEvent \<Rightarrow> live_stream \<Rightarrow> (live_stream \<times> stream_result option) option" where
  "thinking_arm up ev s =
     map_option after_live_write (drive_event up [] (ev_ReasoningContent ev) [] (sink_thinking (ev_ReasoningContent ev) s))"

definition tool_call_arm :: "(string \<Rightarrow> string option) \<Rightarrow> string \<Rightarrow> (nat \<Rightarrow> nat) \<Rightarrow> (nat \<Rightarrow> bool) \<Rightarrow> StreamEvent \<Rightarrow> live_stream
    \<Rightarrow> (live_stream \<times> stream_result option) option" where
  "tool_call_arm jr model clock up ev s =
     (case tool_call_chunks jr model clock (ev_ToolCalls ev) s of
        (chunks, s1) \<Rightarrow> map_option after_live_write (drive_chunks up chunks s1))"

definition error_arm :: "(string \<Rightarrow> string option) \<Rightarrow> (nat \<Rightarrow> nat) \<Rightarrow> (nat \<Rightarrow> bool) \<Rightarrow> StreamEvent \<Rightarrow> live_stream
    \<Rightarrow> (live_stream \<times> stream_result option) option" where
  "error_arm jr clock up ev s =
     map_option (\<lambda>s1. (fst (put_item up (SseError (ev_Error ev)) s1), Some (StreamFailed (ev_Error ev)))) (close_stream jr clock up s)"

definition live_step :: "(string \<Rightarrow> string option) \<Rightarrow> string \<Rightarrow> (nat \<Rightarrow> nat) \<Rightarrow> (nat \<Rightarrow> bool) \<Rightarrow> StreamEvent \<Rightarrow> live_stream
    \<Rightarrow> (live_stream \<times> stream_result option) option" where
  "live_step jr model clock up ev s =
     (if ev_Type ev = ''content'' then content_arm up ev s
      else if ev_Type ev = ''thinking'' then thinking_arm up ev s
      else if ev_Type ev = ''tool_call'' then tool_call_arm jr model clock up ev s
      else if ev_Type ev = ''done'' then map_option (\<lambda>(s1, r). (s1, Some r)) (done_event jr clock up s)
      else if ev_Type ev = ''error'' then error_arm jr clock up ev s
      else Some (s, None))"

lemmas arm_defs = live_step_def content_arm_def thinking_arm_def tool_call_arm_def error_arm_def

text \<open>The loop over the provider's channel; \<open>clocks k\<close> is the clock of event \<open>k\<close>, also of the closing.\<close>

fun live_loop :: "(string \<Rightarrow> string option) \<Rightarrow> string \<Rightarrow> (nat \<Rightarrow> nat \<Rightarrow> nat) \<Rightarrow> nat \<Rightarrow> (nat \<Rightarrow> bool) \<Rightarrow> StreamEvent list \<Rightarrow> live_stream
    \<Rightarrow> (live_stream \<times> stream_result) option" where
  "live_loop jr model clocks k up [] s = map_option (\<lambda>s1. (s1, Returned)) (close_stream jr (clocks k) up s)"
| "live_loop jr model clocks k up (ev # evs) s = do {
     (s1, r) \<leftarrow> live_step jr model (clocks k) up ev s;
     (case r of Some x \<Rightarrow> Some (s1, x) | None \<Rightarrow> live_loop jr model clocks (k + 1) up evs s1) }"

definition new_tool_call_buffer :: "bool \<Rightarrow> Config option \<Rightarrow> int \<Rightarrow> string \<Rightarrow> ToolCallBuffer option" where
  "new_tool_call_buffer disabled cfg maxsz model =
     (if disabled then None
      else (case cfg of
          Some c \<Rightarrow> if Enabled c then Some (NewToolCallBufferWithRepair maxsz model cfg) else Some (NewToolCallBuffer maxsz model)
        | None \<Rightarrow> Some (NewToolCallBuffer maxsz model)))"

definition new_live :: "ToolCallBuffer option \<Rightarrow> string \<Rightarrow> string \<Rightarrow> live_stream" where
  "new_live buf mid original =
     \<lparr>lv_tr = NewIncrementalStreamTranslator mid original, lv_buf = buf, wire = [], headersSent = Some False, thinkingSink = Some []\<rparr>"

definition handleStream :: "(string \<Rightarrow> string option) \<Rightarrow> string \<Rightarrow> (nat \<Rightarrow> nat \<Rightarrow> nat) \<Rightarrow> (nat \<Rightarrow> bool) \<Rightarrow> string + StreamEvent list \<Rightarrow> live_stream
    \<Rightarrow> (live_stream \<times> stream_result) option" where
  "handleStream jr model clocks up ch s =
     (case ch of Inl err \<Rightarrow> Some (s, StreamFailed err) | Inr evs \<Rightarrow> live_loop jr model clocks 0 up evs s)"

text \<open>What is stored of the answer: text, thinking and the calls with an identifier and a name.\<close>

definition mirrored_calls :: "StreamState \<Rightarrow> (string \<times> string \<times> string) list" where
  "mirrored_calls st =
     map (\<lambda>tc. (ts_ID tc, ts_Name tc, ts_Arguments tc)) (filter (\<lambda>tc. ts_ID tc \<noteq> [] \<and> ts_Name tc \<noteq> []) (ToolCalls st))"

section \<open>What reaches the wire\<close>

text \<open>The relation between the translator and what was written holds after every event, as long as no write
  fails; the stop reason and the usage stay what they were at the start.\<close>

definition wire_events :: "wire_item list \<Rightarrow> stream_event list" where
  "wire_events = List.map_filter (\<lambda>x. case x of Sse e \<Rightarrow> Some e | _ \<Rightarrow> None)"

lemma wire_events_simps [simp]:
  "wire_events [] = []" "wire_events (xs @ ys) = wire_events xs @ wire_events ys"
  "wire_events (x # xs) = (case x of Sse e \<Rightarrow> e # wire_events xs | _ \<Rightarrow> wire_events xs)"
  by (simp_all add: wire_events_def List.map_filter_def split: wire_item.split)

definition connected_once :: "wire_item list \<Rightarrow> bool" where
  "connected_once xs \<longleftrightarrow> (\<exists>ys. xs = Connected # ys \<and> Connected \<notin> set ys)"

lemma connected_once_snoc [simp]: "connected_once xs \<Longrightarrow> x \<noteq> Connected \<Longrightarrow> connected_once (xs @ [x])"
  by (auto simp: connected_once_def)

definition greeted :: "live_stream \<Rightarrow> bool" where
  "greeted s \<longleftrightarrow> headersSent s = Some False \<and> wire s = [] \<or> headersSent s = Some True \<and> connected_once (wire s)"

definition live_ok :: "live_stream \<Rightarrow> string \<Rightarrow> string \<Rightarrow> call_fragment list \<Rightarrow> bool" where
  "live_ok s txt thk gs \<longleftrightarrow> on_wire (lv_tr s) (wire_events (wire s)) gs
     \<and> AccumulatedContent (tr_state (lv_tr s)) = txt \<and> ThinkingContent (tr_state (lv_tr s)) = thk
     \<and> StopReason (tr_state (lv_tr s)) = [] \<and> OutputTokens (Usage (tr_state (lv_tr s))) = 0
     \<and> greeted s"

lemma put_events_up:
  assumes "\<forall>n. up n"
  shows "\<exists>s'. put_events up evs s = (s', Written) \<and> wire_events (wire s') = wire_events (wire s) @ evs
     \<and> lv_tr s' = lv_tr s \<and> lv_buf s' = lv_buf s \<and> headersSent s' = headersSent s
     \<and> (connected_once (wire s) \<longrightarrow> connected_once (wire s'))"
proof (induction evs arbitrary: s)
  case (Cons e evs)
  show ?case using Cons.IH [of "s\<lparr>wire := wire s @ [Sse e]\<rparr>"] assms by (auto simp: put_item_def)
qed simp

lemma emitLivePreamble_frame [simp]:
  "lv_tr (emitLivePreamble up s) = lv_tr s" "lv_buf (emitLivePreamble up s) = lv_buf s"
  "wire_events (wire (emitLivePreamble up s)) = wire_events (wire s)"
  by (simp_all add: emitLivePreamble_def put_item_def)

lemma preamble_greets: "\<forall>n. up n \<Longrightarrow> greeted s \<Longrightarrow> headersSent (emitLivePreamble up s) = Some True \<and> connected_once (wire (emitLivePreamble up s))"
  by (auto simp: greeted_def emitLivePreamble_def put_item_def connected_once_def)

lemma write_live_up:
  assumes "\<forall>n. up n" "greeted s"
  obtains s' where "write_live up evs s = (s', Written)" "wire_events (wire s') = wire_events (wire s) @ evs"
    "lv_tr s' = lv_tr s" "lv_buf s' = lv_buf s" "greeted s'" "evs \<noteq> [] \<Longrightarrow> connected_once (wire s')"
proof (cases "evs = []")
  case True
  then show thesis using assms(2) by (intro that [of s]) (simp_all add: write_live_def)
next
  case False
  let ?s = "emitLivePreamble up s"
  obtain s' where "put_events up evs ?s = (s', Written)" "wire_events (wire s') = wire_events (wire ?s) @ evs"
    "lv_tr s' = lv_tr ?s" "lv_buf s' = lv_buf ?s" "headersSent s' = headersSent ?s" "connected_once (wire ?s) \<longrightarrow> connected_once (wire s')"
    using put_events_up [OF assms(1), of evs ?s] by blast
  then show thesis using preamble_greets [OF assms] False by (intro that [of s']) (simp_all add: write_live_def greeted_def)
qed

lemma accumulate_call_total:
  assumes "\<And>m. as_obj (Some tc) = Some m \<Longrightarrow> 0 \<le> tc_index m"
  shows "accumulate_call tc calls \<noteq> None"
proof (cases "as_obj (Some tc)")
  case (Some m)
  let ?i = "tc_index m" and ?cs = "add_slots (tc_index m) calls"
  have a: "at_slot ?i f cs = Some (cs[nat ?i := f (cs ! nat ?i)])" if "length cs = length ?cs" for f cs
    using that assms [OF Some] by (simp add: at_slot_def add_slots_nth nat_add_distrib)
  show ?thesis using Some
    by (auto simp: accumulate_call_def when_some_def a Let_def split: option.split if_splits bind_splits)
qed (simp add: accumulate_call_def)

lemma accumulate_calls_total:
  assumes "\<And>tc m. tc \<in> set tcs \<Longrightarrow> as_obj (Some tc) = Some m \<Longrightarrow> 0 \<le> tc_index m"
  shows "accumulate_calls tcs calls \<noteq> None"
  using assms
proof (induction tcs arbitrary: calls)
  case (Cons tc tcs)
  obtain c1 where "accumulate_call tc calls = Some c1"
    using accumulate_call_total [of tc calls] Cons.prems by fastforce
  then show ?case using Cons by (auto split: bind_splits)
qed simp

lemma tc_index_nat: "obj_get m ''index'' = Some (JNum (show_nat n)) \<Longrightarrow> tc_index m = int n"
  by (simp add: tc_index_def as_num_def num_val_nat go_int_def)

lemma convert_call_fragment: "fragment_of (convert_call i tc) = Some (int i, pc_ID tc, Some (pc_Name tc), pc_Arguments tc)"
  by (simp add: fragment_of_def convert_call_def as_obj_def as_str_def obj_get_def str_field_def tc_index_nat)

definition nonneg_indices :: "json list \<Rightarrow> bool" where
  "nonneg_indices tcs \<longleftrightarrow> (\<forall>tc \<in> set tcs. \<forall>m. as_obj (Some tc) = Some m \<longrightarrow> 0 \<le> tc_index m)"

lemma convert_indexed [simp]: "nonneg_indices (convertProvidersToolCallsToMapList tcs)"
  by (auto simp: nonneg_indices_def convertProvidersToolCallsToMapList_def convert_call_def as_obj_def tc_index_nat obj_get_def)

lemma indexed_Nil [simp]: "nonneg_indices []"
  by (simp add: nonneg_indices_def)

definition position_fragments :: "ToolCall list \<Rightarrow> call_fragment list" where
  "position_fragments tcs = map (\<lambda>(i, tc). (int i, pc_ID tc, Some (pc_Name tc), pc_Arguments tc)) (enumerate 0 tcs)"

lemma fragments_convert: "fragments (convertProvidersToolCallsToMapList tcs) = position_fragments tcs"
proof -
  have "fragments (map (\<lambda>(i, tc). convert_call i tc) xs) = map (\<lambda>(i, tc). (int i, pc_ID tc, Some (pc_Name tc), pc_Arguments tc)) xs" for xs
    by (induction xs) (auto simp: fragments_Cons convert_call_fragment)
  then show ?thesis by (simp add: convertProvidersToolCallsToMapList_def position_fragments_def)
qed

lemma ProcessEvent_state:
  assumes "ProcessEvent c rs th tcs t = Some (t1, evs, err)" "\<not> finalized t"
  shows "err = None" "AccumulatedContent (tr_state t1) = AccumulatedContent (tr_state t) @ c"
    "ThinkingContent (tr_state t1) = ThinkingContent (tr_state t) @ rs @ th"
    "StopReason (tr_state t1) = StopReason (tr_state t)" "Usage (tr_state t1) = Usage (tr_state t)"
proof -
  obtain t0 out where p: "emitPreamble (t, []) = (t0, out)" by fastforce
  have st0: "tr_state t0 = tr_state t" using preamble_state(1) [of "(t, [])"] p by simp
  let ?st1 = "(tr_state t0)\<lparr>AccumulatedContent := AccumulatedContent (tr_state t0) @ c,
      ThinkingContent := ThinkingContent (tr_state t0) @ rs @ th\<rparr>"
  obtain cs where e: "emit_parts c rs th tcs (t0\<lparr>tr_state := ?st1\<lparr>ToolCalls := cs\<rparr>\<rparr>, out) = (t1, evs)" and "err = None"
    using assms p by (auto simp: ProcessEvent_def Let_def split: option.splits prod.splits)
  moreover have "tr_state t1 = ?st1\<lparr>ToolCalls := cs\<rparr>"
    using e emit_parts_state [of c rs th tcs "(t0\<lparr>tr_state := ?st1\<lparr>ToolCalls := cs\<rparr>\<rparr>, out)"] by simp
  ultimately show "err = None" "AccumulatedContent (tr_state t1) = AccumulatedContent (tr_state t) @ c"
    "ThinkingContent (tr_state t1) = ThinkingContent (tr_state t) @ rs @ th"
    "StopReason (tr_state t1) = StopReason (tr_state t)" "Usage (tr_state t1) = Usage (tr_state t)"
    using st0 by simp_all
qed

lemma drive_event_ok:
  assumes up: "\<forall>n. up n" and ok: "live_ok s txt thk gs"
    and tcs: "nonneg_indices tcs"
  obtains s' where "drive_event up c rs tcs s = Some (s', Written)" "live_ok s' (txt @ c) (thk @ rs) (gs @ fragments tcs)"
    "lv_buf s' = lv_buf s"
proof -
  have w: "on_wire (lv_tr s) (wire_events (wire s)) gs" using ok by (simp add: live_ok_def)
  note nf = on_wire_preamble(2) [OF w]
  obtain t evs err where e: "ProcessEvent c rs [] tcs (lv_tr s) = Some (t, evs, err)"
  proof -
    obtain t0 out where p: "emitPreamble (lv_tr s, []) = (t0, out)" by fastforce
    obtain cs where "accumulate_calls tcs (ToolCalls (tr_state t0)) = Some cs" using accumulate_calls_total [of tcs "ToolCalls (tr_state t0)"] tcs by (auto simp: nonneg_indices_def)
    then show thesis using that nf p by (simp add: ProcessEvent_def Let_def case_prod_beta)
  qed
  note st = ProcessEvent_state [OF e nf]
  have "tr_step (Event c rs [] tcs) (lv_tr s) = Some (t, evs, err)" using e by (simp add: tr_step_def)
  from tr_step_on_wire [OF w this] have w1: "on_wire t (wire_events (wire s) @ evs) (gs @ fragments tcs)" by (simp add: input_fragments_def)
  obtain s' where s': "write_live up evs (s\<lparr>lv_tr := t\<rparr>) = (s', Written)" "wire_events (wire s') = wire_events (wire s) @ evs"
    "lv_tr s' = t" "lv_buf s' = lv_buf s" "greeted s'"
  proof -
    have "greeted (s\<lparr>lv_tr := t\<rparr>)" using ok by (simp add: live_ok_def greeted_def)
    from write_live_up [OF up this, of evs] show thesis using that by auto
  qed
  have "drive_event up c rs tcs s = Some (s', Written)" using e st(1) s'(1) by (simp add: drive_event_def)
  moreover have "live_ok s' (txt @ c) (thk @ rs) (gs @ fragments tcs)" using ok st w1 s' by (simp add: live_ok_def)
  ultimately show thesis using s'(4) by (rule that)
qed

definition emitted_fragments :: "string \<Rightarrow> call_fragment list" where
  "emitted_fragments c = position_fragments (parseBufferEmittedToolCalls c)"

lemma drive_chunk_ok:
  assumes "\<forall>n. up n" "live_ok s txt thk gs"
  obtains s' where "drive_chunk up c s = Some (s', Written)" "live_ok s' txt thk (gs @ emitted_fragments c)" "lv_buf s' = lv_buf s"
proof (cases "parseBufferEmittedToolCalls c = []")
  case True
  then show thesis using assms(2) by (intro that [of s]) (simp_all add: drive_chunk_def emitted_fragments_def position_fragments_def)
next
  case False
  let ?tcs = "convertProvidersToolCallsToMapList (parseBufferEmittedToolCalls c)"
  obtain s' where "drive_event up [] [] ?tcs s = Some (s', Written)" "live_ok s' (txt @ []) (thk @ []) (gs @ fragments ?tcs)" "lv_buf s' = lv_buf s"
    using drive_event_ok [OF assms(1,2) convert_indexed] by blast
  then show thesis using that False by (simp add: drive_chunk_def fragments_convert emitted_fragments_def)
qed

lemma drive_chunks_ok:
  assumes "\<forall>n. up n" "live_ok s txt thk gs"
  shows "\<exists>s'. drive_chunks up cs s = Some (s', Written) \<and> flush_chunks up cs s = Some (s', Written)
     \<and> live_ok s' txt thk (gs @ concat (map emitted_fragments cs)) \<and> lv_buf s' = lv_buf s"
  using assms(2)
proof (induction cs arbitrary: s gs)
  case (Cons c cs)
  obtain s1 where s1: "drive_chunk up c s = Some (s1, Written)" "live_ok s1 txt thk (gs @ emitted_fragments c)" "lv_buf s1 = lv_buf s"
    using drive_chunk_ok [OF assms(1) Cons.prems] by blast
  show ?case using Cons.IH [OF s1(2)] s1(1,3) by simp
qed simp

lemma flush_ok:
  assumes "\<forall>n. up n" "live_ok s txt thk gs"
  shows "\<exists>s'. driveBufferFlushIntoLiveTranslator jr clock up s = Some (s', Written)
     \<and> live_ok s' txt thk (gs @ (case lv_buf s of None \<Rightarrow> [] | Some b \<Rightarrow> concat (map emitted_fragments (fst (Flush jr clock b)))))"
proof (cases "lv_buf s")
  case None
  then show ?thesis using assms(2) by (simp add: driveBufferFlushIntoLiveTranslator_def)
next
  case (Some b)
  obtain chunks b1 where f: "Flush jr clock b = (chunks, b1)" by fastforce
  have "live_ok (s\<lparr>lv_buf := Some b1\<rparr>) txt thk gs" using assms(2) by (simp add: live_ok_def greeted_def)
  from drive_chunks_ok [OF assms(1) this, of chunks] show ?thesis using Some f
    by (auto simp: driveBufferFlushIntoLiveTranslator_def)
qed

lemma Finalize_state: "tr_state (fst (Finalize t)) = tr_state t"
proof -
  have "tr_state (fst (stop_thinking (stop_text e))) = tr_state (fst e)" for e
    by (simp add: stop_thinking_def stop_text_def case_prod_beta)
  then show ?thesis using stop_tools_all(2) by (simp add: Finalize_def case_prod_beta)
qed

lemma finalize_live_ok:
  assumes "\<forall>n. up n" "live_ok s txt thk gs"
  obtains s' W r where "finalize_live up s = (s', Written)" "connected_once (wire s')" "tr_state (lv_tr s') = tr_state (lv_tr s)"
    "read_all (wire_events (wire s')) empty_reader = Some r" "r_done r" "r_stop r = Some ([], 0)"
    "mset (r_blocks r) = image_mset shut (sent_block text_block txt + sent_block thinking_block thk + call_blocks W)"
    "calls_sent (lv_tr s) gs W"
proof -
  have w: "on_wire (lv_tr s) (wire_events (wire s)) gs" using assms(2) by (simp add: live_ok_def)
  obtain t fin err where f: "Finalize (lv_tr s) = (t, fin, err)" by (cases "Finalize (lv_tr s)")
  obtain W r where r: "read_all (wire_events (wire s) @ fin) empty_reader = Some r" "r_done r" "err = None"
    "r_stop r = Some (StopReason (tr_state (lv_tr s)), OutputTokens (Usage (tr_state (lv_tr s))))"
    "mset (r_blocks r) = image_mset shut (sent_block text_block (AccumulatedContent (tr_state (lv_tr s)))
        + sent_block thinking_block (ThinkingContent (tr_state (lv_tr s))) + call_blocks W)"
    "calls_sent (lv_tr s) gs W"
    using finalize_on_wire [OF w f] by blast
  have ne: "fin \<noteq> []" using f r(3) by (auto simp: Finalize_def case_prod_beta split: if_splits)
  have "greeted (s\<lparr>lv_tr := t\<rparr>)" using assms(2) by (simp add: live_ok_def greeted_def)
  from write_live_up [OF assms(1) this, of fin] obtain s' where s': "write_live up fin (s\<lparr>lv_tr := t\<rparr>) = (s', Written)"
    "wire_events (wire s') = wire_events (wire s) @ fin" "lv_tr s' = t" "connected_once (wire s')"
    using ne by auto
  have "finalize_live up s = (s', Written)" using f r(3) s'(1) by (simp add: finalize_live_def)
  moreover have "tr_state (lv_tr s') = tr_state (lv_tr s)" using Finalize_state [of "lv_tr s"] f s'(3) by simp
  ultimately show thesis using that r s'(2,4) assms(2) by (simp add: live_ok_def)
qed

section \<open>Every stream ends in a complete message\<close>

definition ends_stream :: "StreamEvent \<Rightarrow> bool" where
  "ends_stream ev \<longleftrightarrow> ev_Type ev = ''done'' \<or> ev_Type ev = ''error''"

definition said :: "string \<Rightarrow> (StreamEvent \<Rightarrow> string) \<Rightarrow> StreamEvent list \<Rightarrow> string" where
  "said ty f evs = concat (map f (filter (\<lambda>ev. ev_Type ev = ty) (takeWhile (\<lambda>ev. \<not> ends_stream ev) evs)))"

definition stream_end :: "StreamEvent list \<Rightarrow> stream_result" where
  "stream_end evs =
     (case dropWhile (\<lambda>ev. \<not> ends_stream ev) evs of
        [] \<Rightarrow> Returned
      | ev # _ \<Rightarrow> if ev_Type ev = ''error'' then StreamFailed (ev_Error ev) else Returned)"

lemma said_Cons:
  "said ty f (ev # evs) = (if ends_stream ev then [] else (if ev_Type ev = ty then f ev else []) @ said ty f evs)" "said ty f [] = []"
  by (simp_all add: said_def)

lemma stream_end_Cons:
  "stream_end (ev # evs) = (if ev_Type ev = ''error'' then StreamFailed (ev_Error ev) else if ev_Type ev = ''done'' then Returned else stream_end evs)"
  "stream_end [] = Returned"
  by (simp_all add: stream_end_def ends_stream_def)

lemma live_ok_frame: "live_ok s txt thk gs \<Longrightarrow> lv_tr s' = lv_tr s \<Longrightarrow> wire s' = wire s \<Longrightarrow> headersSent s' = headersSent s \<Longrightarrow> live_ok s' txt thk gs"
  by (simp add: live_ok_def greeted_def)

lemma live_step_ok:
  assumes "\<forall>n. up n" "live_ok s txt thk gs" "\<not> ends_stream ev"
  shows "\<exists>s' gs'. live_step jr model clock up ev s = Some (s', None)
     \<and> live_ok s' (txt @ (if ev_Type ev = ''content'' then ev_Content ev else []))
         (thk @ (if ev_Type ev = ''thinking'' then ev_ReasoningContent ev else [])) gs'"
proof -
  consider "ev_Type ev = ''content''" | "ev_Type ev = ''thinking''" | "ev_Type ev = ''tool_call''"
    | "ev_Type ev \<notin> {''content'', ''thinking'', ''tool_call'', ''done'', ''error''}"
    using assms(3) by (auto simp: ends_stream_def)
  then show ?thesis
  proof cases
    case 1
    obtain s' where "drive_event up (ev_Content ev) [] (convertProvidersToolCallsToMapList (ev_ToolCalls ev)) s = Some (s', Written)"
      "live_ok s' (txt @ ev_Content ev) (thk @ []) (gs @ fragments (convertProvidersToolCallsToMapList (ev_ToolCalls ev)))"
      using drive_event_ok [OF assms(1,2) convert_indexed] by blast
    then show ?thesis using 1 by (auto simp: arm_defs after_live_write_def)
  next
    case 2
    have "live_ok (sink_thinking (ev_ReasoningContent ev) s) txt thk gs" by (rule live_ok_frame [OF assms(2)]) (simp_all add: sink_thinking_def)
    from drive_event_ok [OF assms(1) this indexed_Nil, of "[]" "ev_ReasoningContent ev"] obtain s' where
      "drive_event up [] (ev_ReasoningContent ev) [] (sink_thinking (ev_ReasoningContent ev) s) = Some (s', Written)"
      "live_ok s' (txt @ []) (thk @ ev_ReasoningContent ev) (gs @ fragments [])" by blast
    then show ?thesis using 2 by (auto simp: arm_defs after_live_write_def)
  next
    case 3
    obtain chunks s1 where c: "tool_call_chunks jr model clock (ev_ToolCalls ev) s = (chunks, s1)" by fastforce
    have "live_ok s1 txt thk gs"
      by (rule live_ok_frame [OF assms(2)]) (use c in \<open>auto simp: tool_call_chunks_def Let_def split: option.splits prod.splits\<close>)
    from drive_chunks_ok [OF assms(1) this, of chunks] show ?thesis using 3 c by (auto simp: arm_defs after_live_write_def)
  next
    case 4
    then show ?thesis using assms(2) by (auto simp: arm_defs)
  qed
qed

text \<open>A stream that is over: what the client has read, and the end of the connection.\<close>

definition whole_message :: "live_stream \<Rightarrow> string \<Rightarrow> string \<Rightarrow> bool" where
  "whole_message s txt thk \<longleftrightarrow> (\<exists>r. read_all (wire_events (wire s)) empty_reader = Some r \<and> r_done r \<and> r_stop r = Some ([], 0)
     \<and> filter (\<lambda>(b, _). b = text_block) (r_blocks r) = (if txt = [] then [] else [(text_block, txt, False)])
     \<and> filter (\<lambda>(b, _). b = thinking_block) (r_blocks r) = (if thk = [] then [] else [(thinking_block, thk, False)]))
     \<and> connected_once (wire s)"

lemma closing_ok:
  assumes "\<forall>n. up n" "live_ok s txt thk gs"
  obtains s' where "done_event jr clock up s = Some (s', Returned)" "close_stream jr clock up s = Some s'" "whole_message s' txt thk"
proof -
  obtain s1 gs1 where s1: "driveBufferFlushIntoLiveTranslator jr clock up s = Some (s1, Written)" "live_ok s1 txt thk gs1"
    using flush_ok [OF assms] by blast
  obtain s' W r where f: "finalize_live up s1 = (s', Written)" "connected_once (wire s')"
    "read_all (wire_events (wire s')) empty_reader = Some r" "r_done r" "r_stop r = Some ([], 0)"
    "mset (r_blocks r) = image_mset shut (sent_block text_block txt + sent_block thinking_block thk + call_blocks W)"
    using finalize_live_ok [OF assms(1) s1(2)] by metis
  have "whole_message s' txt thk" using f(2-5) single_blocks [OF f(6)] unfolding whole_message_def by blast
  then show thesis using s1(1) f(1) by (intro that [of s']) (simp_all add: done_event_def close_stream_def)
qed

lemma live_loop_ok:
  assumes "\<forall>n. up n" "live_ok s txt thk gs"
  shows "\<exists>s'. live_loop jr model clocks k up evs s = Some (s', stream_end evs)
     \<and> whole_message s' (txt @ said ''content'' ev_Content evs) (thk @ said ''thinking'' ev_ReasoningContent evs)
     \<and> (\<forall>e. stream_end evs = StreamFailed e \<longrightarrow> last (wire s') = SseError e)"
  using assms(2)
proof (induction evs arbitrary: s "txt" thk gs k)
  case Nil
  obtain s' where "close_stream jr (clocks k) up s = Some s'" "whole_message s' txt thk" by (rule closing_ok [OF assms(1) Nil])
  then show ?case by (simp add: said_Cons stream_end_Cons)
next
  case (Cons ev evs)
  show ?case
  proof (cases "ends_stream ev")
    case True
    obtain s' where s': "done_event jr (clocks k) up s = Some (s', Returned)" "close_stream jr (clocks k) up s = Some s'" "whole_message s' txt thk"
      by (rule closing_ok [OF assms(1) Cons.prems])
    have p: "put_item up x s' = (s'\<lparr>wire := wire s' @ [x]\<rparr>, True)" for x using assms(1) by (simp add: put_item_def)
    have "whole_message (s'\<lparr>wire := wire s' @ [SseError e]\<rparr>) txt thk" for e
      using s'(3) by (simp add: whole_message_def)
    then show ?thesis using s' p True by (auto simp: ends_stream_def said_Cons stream_end_Cons arm_defs)
  next
    case False
    obtain s1 gs1 where s1: "live_step jr model (clocks k) up ev s = Some (s1, None)"
      "live_ok s1 (txt @ (if ev_Type ev = ''content'' then ev_Content ev else []))
         (thk @ (if ev_Type ev = ''thinking'' then ev_ReasoningContent ev else [])) gs1"
      using live_step_ok [OF assms(1) Cons.prems False] by blast
    have "stream_end (ev # evs) = stream_end evs" using False by (simp add: stream_end_Cons ends_stream_def)
    then show ?thesis using Cons.IH [OF s1(2), of "k + 1"] s1(1) False by (simp add: said_Cons)
  qed
qed

lemma new_live_ok: "live_ok (new_live buf mid original) [] [] []"
  using new_on_wire [of mid original]
  by (simp add: live_ok_def greeted_def new_live_def NewIncrementalStreamTranslator_def newStreamState_def)

text \<open>C23: however a provider's stream goes, a live client whose connection holds reads one complete message:
  nothing panics, the first write is the connection comment and it is written once, text and thinking are
  one block each with everything the provider sent, and after an error the error event comes last. But
  the message never says why it stopped, and its usage is always 0 output tokens, whatever the
  provider's final event says.\<close>

theorem live_wire_complete:
  assumes "\<forall>n. up n"
  shows "\<exists>s r. handleStream jr model clocks up (Inr evs) (new_live buf mid original) = Some (s, stream_end evs)
     \<and> read_all (wire_events (wire s)) empty_reader = Some r \<and> r_done r \<and> r_stop r = Some ([], 0)
     \<and> filter (\<lambda>(b, _). b = text_block) (r_blocks r)
         = (let txt = said ''content'' ev_Content evs in if txt = [] then [] else [(text_block, txt, False)])
     \<and> filter (\<lambda>(b, _). b = thinking_block) (r_blocks r)
         = (let thk = said ''thinking'' ev_ReasoningContent evs in if thk = [] then [] else [(thinking_block, thk, False)])
     \<and> connected_once (wire s) \<and> (\<forall>e. stream_end evs = StreamFailed e \<longrightarrow> last (wire s) = SseError e)"
  using live_loop_ok [OF assms new_live_ok, of jr model clocks 0 evs buf mid original]
  by (auto simp: handleStream_def whole_message_def Let_def)

section \<open>Tool calls through the buffer\<close>

lemma TrimSpace_tail:
  assumes "u \<noteq> []" "\<not> isSpace (hd u)" "\<not> isSpace (last u)" "\<forall>c \<in> set g. isSpace c"
  shows "TrimSpace (u @ g) = u"
proof -
  have "dropWhile isSpace (u @ g) = u @ g" using assms(1,2) by (cases u) auto
  moreover have "dropWhile isSpace (rev u) = rev u" using assms(1,3) by (cases u rule: rev_cases) auto
  ultimately show ?thesis using assms(4) by (simp add: TrimSpace_def dropWhile_append)
qed

lemma sse_chunk_trim: "TrimSpace (sse_chunk (JObj kvs)) = ''data: '' @ marshal (JObj kvs)"
proof -
  let ?u = "''data: '' @ marshal (JObj kvs)"
  have "TrimSpace (?u @ [CHR 0x0A, CHR 0x0A]) = ?u"
    by (rule TrimSpace_tail) (simp_all add: isSpace_def)
  then show ?thesis by (simp add: sse_chunk_def)
qed

lemma Unmarshal_marshal: "wf_json 0 j \<Longrightarrow> json_fits j \<Longrightarrow> Unmarshal_any (marshal j) = Some j"
  by (simp add: Unmarshal_any_def json_round_trip)

text \<open>A call whose strings are text, and its entry in a chunk of the provider.\<close>

definition valid_call :: "ToolCall \<Rightarrow> bool" where
  "valid_call tc \<longleftrightarrow> 0 \<le> pc_Index tc \<and> pc_Index tc \<le> 99 \<and> valid_utf8 (pc_ID tc) \<and> valid_utf8 (pc_Type tc)
     \<and> valid_utf8 (pc_Name tc) \<and> valid_utf8 (pc_Arguments tc)"

lemma wf_show_nat [simp]: "wf_num (show_nat n)"
  using wf_show_int [of "int n"] by (simp add: show_int_def)

lemma wf_zero [simp]: "wf_num ''0''"
  by code_simp

lemma float_fits_zero [simp]: "float_fits (num_val ''0'')"
  by (simp add: float_fits_def num_val_0)

lemma JInt_nat: "0 \<le> i \<Longrightarrow> JInt i = JNum (show_nat (nat i))"
  by (simp add: JInt_def show_int_def)

lemma member_names [simp]:
  "valid_utf8 ''id''" "valid_utf8 ''object''" "valid_utf8 ''created''" "valid_utf8 ''model''" "valid_utf8 ''choices''"
  "valid_utf8 ''index''" "valid_utf8 ''delta''" "valid_utf8 ''role''" "valid_utf8 ''content''" "valid_utf8 ''assistant''"
  "valid_utf8 ''tool_calls''" "valid_utf8 ''finish_reason''" "valid_utf8 ''usage''" "valid_utf8 ''prompt_tokens''"
  "valid_utf8 ''completion_tokens''" "valid_utf8 ''total_tokens''" "valid_utf8 ''type''" "valid_utf8 ''function''"
  "valid_utf8 ''name''" "valid_utf8 ''arguments''" "valid_utf8 ''chat.completion.chunk''"
  by code_simp+

lemma chunk_id_utf8 [simp]: "valid_utf8 (''chatcmpl-'' @ show_nat n)"
proof -
  have "list_all (\<lambda>c. (of_char c :: nat) < 0x80) ''chatcmpl-''" by code_simp
  from valid_utf8_ascii_append [OF this] show ?thesis by (simp add: show_nat_utf8)
qed

lemma float_fits_show [simp]: "n < 2 ^ 64 \<Longrightarrow> float_fits (num_val (show_nat n))"
  by (simp only: num_val_nat float_fits_nat)

lemma delta_call_ok:
  "valid_call tc \<Longrightarrow> d < 100 \<Longrightarrow> wf_json d (delta_call_json tc)" "valid_call tc \<Longrightarrow> json_fits (delta_call_json tc)"
  by (auto simp: valid_call_def delta_call_json_def JInt_nat maxNestingDepth_def)

lemma tool_call_line:
  assumes "tcs \<noteq> []" "list_all valid_call tcs" "valid_utf8 model" "nano < 2 ^ 64"
  shows "chunk_tool_calls (sse_chunk (tool_call_chunk model nano tcs)) = Some (map delta_call_json tcs)"
proof -
  let ?j = "tool_call_chunk model nano tcs"
  obtain kvs where kvs: "?j = JObj kvs" by (simp add: tool_call_chunk_def)
  have "nano div 10 ^ 9 < 2 ^ 64" using assms(4) div_le_dividend le_less_trans by blast
  then have "wf_json 0 ?j" "json_fits ?j"
    using assms delta_call_ok by (auto simp: tool_call_chunk_def maxNestingDepth_def list_all_iff simp del: append.simps)
  from Unmarshal_marshal [OF this] have u: "Unmarshal_any (marshal ?j) = Some ?j" .
  have t: "TrimSpace (sse_chunk ?j) = ''data: '' @ marshal ?j" unfolding kvs by (rule sse_chunk_trim)
  have n: "''data: '' @ marshal ?j \<noteq> ''data: [DONE]''" unfolding kvs by simp
  have "HasPrefix (''data: '' @ marshal ?j) ''data: ''" by (simp add: HasPrefix_iff del: append.simps)
  moreover have "TrimPrefix (''data: '' @ marshal ?j) ''data: '' = marshal ?j" by (rule TrimPrefix_append)
  ultimately show ?thesis using n assms(1) unfolding chunk_tool_calls_def t Let_def
    by (simp add: u del: append.simps) (simp add: tool_call_chunk_def obj_get_def as_obj_def as_arr_def)
qed

text \<open>A chunk of the buffer gives one call, without its index.\<close>

lemma emitted_call:
  assumes "valid_utf8 model" "nano < 2 ^ 64" "valid_utf8 (b_ID bl)" "valid_utf8 (b_Type bl)" "valid_utf8 (b_Name bl)" "valid_utf8 args"
    and "nat i < 2 ^ 64"
  shows "parseBufferEmittedToolCalls (sse_chunk (chunk_json model nano (call_json i bl args)))
    = [\<lparr>pc_Index = 0, pc_ID = b_ID bl, pc_Type = b_Type bl, pc_Name = b_Name bl, pc_Arguments = args\<rparr>]"
proof -
  let ?j = "chunk_json model nano (call_json i bl args)"
  obtain kvs where kvs: "?j = JObj kvs" by (simp add: chunk_json_def)
  have "nano div 10 ^ 9 < 2 ^ 64" using assms(2) div_le_dividend le_less_trans by blast
  then have "wf_json 0 ?j" "json_fits ?j"
    using assms by (auto simp: chunk_json_def call_json_def maxNestingDepth_def simp del: append.simps)
  from Unmarshal_marshal [OF this] have u: "Unmarshal_any (marshal ?j) = Some ?j" .
  have t: "TrimSpace (sse_chunk ?j) = ''data: '' @ marshal ?j" unfolding kvs by (rule sse_chunk_trim)
  have "HasPrefix (''data: '' @ marshal ?j) ''data: ''" by (simp add: HasPrefix_iff del: append.simps)
  moreover have "TrimPrefix (''data: '' @ marshal ?j) ''data: '' = marshal ?j" by (rule TrimPrefix_append)
  ultimately show ?thesis unfolding parseBufferEmittedToolCalls_def t Let_def
    by (simp add: u del: append.simps)
      (simp add: chunk_json_def call_json_def parse_tool_call_def obj_get_def as_obj_def as_arr_def str_field_def as_str_def List.map_filter_simps)
qed

definition settled :: "ToolCallBuffer \<Rightarrow> bool" where
  "settled b \<longleftrightarrow> (\<forall>i p. fmlookup (builders b) i = Some p \<longrightarrow> p < length (heap b) \<and> hasEmitted (heap b ! p))"

lemma settled_flush: "settled b \<Longrightarrow> Flush jr clock b = ([], b)"
proof -
  assume "settled b"
  then have "flush_requests b = []" by (auto simp: settled_def flush_requests_def split: option.split)
  then show ?thesis by (simp add: Flush_def)
qed

definition call_builder :: "ToolCall \<Rightarrow> ToolCallBuilder" where
  "call_builder tc = \<lparr>b_ID = pc_ID tc, b_Type = pc_Type tc, b_Name = pc_Name tc, b_Arguments = pc_Arguments tc, hasEmitted = False\<rparr>"

definition with_call :: "ToolCall \<Rightarrow> ToolCallBuffer \<Rightarrow> ToolCallBuffer" where
  "with_call tc b = b\<lparr>heap := heap b @ [call_builder tc\<lparr>hasEmitted := True\<rparr>], builders := fmupd (pc_Index tc) (length (heap b)) (builders b),
     totalSize := totalSize b + int (length (pc_Arguments tc))\<rparr>"

lemma delta_call_parts:
  assumes "0 \<le> pc_Index tc"
  shows "is_fragment (pc_Index tc) (delta_call_json tc)" "frag_text (delta_call_json tc) = pc_Arguments tc"
    "merge_call (delta_call_json tc) bl = bl\<lparr>b_ID := override (pc_ID tc) (b_ID bl), b_Type := override (pc_Type tc) (b_Type bl),
      b_Name := override (pc_Name tc) (b_Name bl), b_Arguments := b_Arguments bl @ pc_Arguments tc\<rparr>"
    "merge_call (delta_call_json tc) new_builder = call_builder tc"
proof -
  have "as_obj (Some (delta_call_json tc)) \<noteq> None" by (simp add: delta_call_json_def as_obj_def)
  moreover have i: "tc_index (call_map (delta_call_json tc)) = pc_Index tc"
    using assms by (simp add: delta_call_json_def call_map_def JInt_nat tc_index_nat obj_get_def) (simp add: tc_index_def obj_get_def as_num_def go_int_def)
  moreover have f: "obj_get (call_map (delta_call_json tc)) ''function''
      = Some (JObj [(''name'', JStr (pc_Name tc)), (''arguments'', JStr (pc_Arguments tc))])"
    "obj_get (call_map (delta_call_json tc)) ''id'' = Some (JStr (pc_ID tc))" "obj_get (call_map (delta_call_json tc)) ''type'' = Some (JStr (pc_Type tc))"
    by (simp_all add: delta_call_json_def call_map_def obj_get_def)
  moreover have c: "call_function (delta_call_json tc) = [(''name'', JStr (pc_Name tc)), (''arguments'', JStr (pc_Arguments tc))]"
    by (simp add: call_function_def f as_obj_def)
  ultimately show "is_fragment (pc_Index tc) (delta_call_json tc)" by (simp add: is_fragment_def as_obj_def as_str_def obj_get_def)
  show t: "frag_text (delta_call_json tc) = pc_Arguments tc" by (simp add: frag_text_def c str_field_def obj_get_def as_str_def)
  show m: "merge_call (delta_call_json tc) bl = bl\<lparr>b_ID := override (pc_ID tc) (b_ID bl), b_Type := override (pc_Type tc) (b_Type bl),
      b_Name := override (pc_Name tc) (b_Name bl), b_Arguments := b_Arguments bl @ pc_Arguments tc\<rparr>" for bl
    by (simp add: merge_call_def str_field_def f c t as_str_def) (simp add: obj_get_def)
  show "merge_call (delta_call_json tc) new_builder = call_builder tc"
    by (simp add: m new_builder_def call_builder_def override_def)
qed

lemma whole_call_chunk:
  assumes "valid_call tc" "isValidJSON (pc_Arguments tc)" "pc_Arguments tc \<noteq> []"
    and "fmlookup (builders b) (pc_Index tc) = None" "map_len (builders b) < 99"
    and "totalSize b + int (length (pc_Arguments tc)) \<le> maxSize b"
  shows "processToolCallChunk jr clock [delta_call_json tc] b
    = ([sse_chunk (chunk_json (modelID b) (clock 0) (call_json (pc_Index tc) (call_builder tc) (pc_Arguments tc)))], with_call tc b)"
proof -
  let ?i = "pc_Index tc" and ?p = "length (heap b)" and ?b = "fst (install_builder (pc_Index tc) b)" and ?j = "delta_call_json tc"
  have r: "0 \<le> ?i" "?i \<le> 99" using assms(1) by (simp_all add: valid_call_def)
  note d = delta_call_parts [OF r(1)]
  have i: "fmlookup (builders ?b) ?i = Some ?p" "?p < length (heap ?b)" "heap ?b ! ?p = new_builder" "totalSize ?b = totalSize b"
    "maxSize ?b = maxSize b" "map_len (builders ?b) < 100"
    using assms(4,5) by (simp_all add: install_builder_def map_len_fmupd)
  have "process_call ?j (?b, []) = (grown ?j ?p ?b, [\<lparr>req_idx = ?i, req_args = pc_Arguments tc, req_builder = ?p\<rparr>])"
    using process_fragment [OF d(1) r i(6) _ i(1,2), of "[]"] assms(2,3,6) i(3-5) d(2) by (simp add: new_builder_def)
  then have p: "process_call ?j (b, []) = (grown ?j ?p ?b, [\<lparr>req_idx = ?i, req_args = pc_Arguments tc, req_builder = ?p\<rparr>])"
    using process_call_install [OF d(1) r assms(4,5)] by simp
  have g: "heap (grown ?j ?p ?b) ! ?p = call_builder tc" "modelID (grown ?j ?p ?b) = modelID b"
    using i(2,3) d(4) by (simp_all add: grown_def install_builder_def)
  have "upd_builder ?p (\<lambda>bl. bl\<lparr>hasEmitted := True\<rparr>) (grown ?j ?p ?b) = with_call tc b"
    using d(2,4) by (simp add: grown_def with_call_def upd_builder_def install_builder_def)
  moreover have "emitToolCall jr (clock 0) \<lparr>req_idx = ?i, req_args = pc_Arguments tc, req_builder = ?p\<rparr> (grown ?j ?p ?b)
      = (sse_chunk (chunk_json (modelID b) (clock 0) (call_json ?i (call_builder tc) (pc_Arguments tc))), grown ?j ?p ?b)"
    using emit_complete [of "\<lparr>req_idx = ?i, req_args = pc_Arguments tc, req_builder = ?p\<rparr>" "pc_Arguments tc"] assms(2) g by simp
  ultimately show ?thesis by (simp add: processToolCallChunk_def p)
qed

section \<open>Calls that are complete in one event\<close>

definition whole_call :: "ToolCall \<Rightarrow> bool" where
  "whole_call tc \<longleftrightarrow> valid_call tc \<and> isValidJSON (pc_Arguments tc) \<and> pc_Arguments tc \<noteq> []"

definition tool_event :: "ToolCall \<Rightarrow> StreamEvent" where
  "tool_event tc = \<lparr>ev_Type = ''tool_call'', ev_Content = [], ev_ReasoningContent = [], ev_ToolCalls = [tc], ev_FinishReason = [], ev_Error = []\<rparr>"

definition done_ev :: StreamEvent where
  "done_ev = \<lparr>ev_Type = ''done'', ev_Content = [], ev_ReasoningContent = [], ev_ToolCalls = [], ev_FinishReason = ''tool_calls'', ev_Error = []\<rparr>"

text \<open>The fragment the translator sees: always at index 0.\<close>

definition whole_fragment :: "ToolCall \<Rightarrow> call_fragment" where
  "whole_fragment tc = (0, pc_ID tc, Some (pc_Name tc), pc_Arguments tc)"

lemma with_call_fields [simp]:
  "fmlookup (builders (with_call tc b)) i = (if i = pc_Index tc then Some (length (heap b)) else fmlookup (builders b) i)"
  "totalSize (with_call tc b) = totalSize b + int (length (pc_Arguments tc))" "maxSize (with_call tc b) = maxSize b"
  "modelID (with_call tc b) = modelID b"
  by (simp_all add: with_call_def)

lemma with_call_settled: "settled b \<Longrightarrow> settled (with_call tc b)"
  by (auto simp: settled_def with_call_def nth_append less_SucI)

lemma with_call_len: "fmlookup (builders b) (pc_Index tc) = None \<Longrightarrow> map_len (builders (with_call tc b)) = map_len (builders b) + 1"
  by (simp add: with_call_def map_len_fmupd)

lemma handle_tool_event:
  assumes "\<forall>n. up n" "\<forall>i. clock i < 2 ^ 64" "live_ok s txt thk gs" "lv_buf s = Some b" "valid_utf8 model" "valid_call tc"
    and "processToolCallChunk jr (\<lambda>i. clock (i + 1)) [delta_call_json tc] b = (chunks, b1)"
  obtains s' where "live_step jr model clock up (tool_event tc) s = Some (s', None)"
    "live_ok s' txt thk (gs @ concat (map emitted_fragments chunks))" "lv_buf s' = Some b1"
proof -
  let ?line = "sse_chunk (tool_call_chunk model (clock 0) [tc])" and ?s = "s\<lparr>lv_buf := Some b1\<rparr>"
  have "chunk_tool_calls ?line = Some [delta_call_json tc]"
    using tool_call_line [of "[tc]" model "clock 0"] assms(2,5,6) by simp
  then have t: "tool_call_chunks jr model clock [tc] s = (chunks, ?s)"
    using assms(4,7) by (simp add: tool_call_chunks_def ProcessChunk_def)
  have "live_ok ?s txt thk gs" by (rule live_ok_frame [OF assms(3)]) simp_all
  from drive_chunks_ok [OF assms(1) this, of chunks] obtain s' where "drive_chunks up chunks ?s = Some (s', Written)"
    "live_ok s' txt thk (gs @ concat (map emitted_fragments chunks))" "lv_buf s' = Some b1" by auto
  then show thesis using t that by (simp add: arm_defs tool_event_def after_live_write_def)
qed

lemma emitted_one:
  assumes "valid_utf8 model" "nano < 2 ^ 64" "valid_utf8 (b_ID bl)" "valid_utf8 (b_Type bl)" "valid_utf8 (b_Name bl)" "valid_utf8 args" "i \<le> 99"
  shows "emitted_fragments (sse_chunk (chunk_json model nano (call_json i bl args))) = [(0, b_ID bl, Some (b_Name bl), args)]"
proof -
  have "nat i \<le> 99" using assms(7) by (simp add: nat_le_iff)
  then have "nat i < 2 ^ 64" by simp
  from emitted_call [OF assms(1-6) this] show ?thesis by (simp add: emitted_fragments_def position_fragments_def)
qed

lemma handle_whole_call:
  assumes "\<forall>n. up n" "\<forall>i. clock i < 2 ^ 64" "live_ok s txt thk gs" "lv_buf s = Some b" "valid_utf8 model" "valid_utf8 (modelID b)" "whole_call tc"
    and "fmlookup (builders b) (pc_Index tc) = None" "map_len (builders b) < 99"
    and "totalSize b + int (length (pc_Arguments tc)) \<le> maxSize b"
  obtains s' where "live_step jr model clock up (tool_event tc) s = Some (s', None)"
    "live_ok s' txt thk (gs @ [whole_fragment tc])" "lv_buf s' = Some (with_call tc b)"
proof -
  have v: "valid_call tc" "isValidJSON (pc_Arguments tc)" "pc_Arguments tc \<noteq> []" using assms(7) by (simp_all add: whole_call_def)
  let ?c = "sse_chunk (chunk_json (modelID b) (clock 1) (call_json (pc_Index tc) (call_builder tc) (pc_Arguments tc)))"
  have e: "emitted_fragments ?c = [whole_fragment tc]"
    using emitted_one [of "modelID b" "clock 1" "call_builder tc" "pc_Arguments tc" "pc_Index tc"] assms(2,6) v(1)
    by (simp add: call_builder_def valid_call_def whole_fragment_def)
  have "processToolCallChunk jr (\<lambda>i. clock (i + 1)) [delta_call_json tc] b = ([?c], with_call tc b)"
    using whole_call_chunk [OF v assms(8-10), of jr "\<lambda>i. clock (i + 1)"] by simp
  from handle_tool_event [OF assms(1-5) v(1) this] show thesis using that e by auto
qed

lemma handle_whole_calls:
  assumes "\<forall>n. up n" "\<forall>k i. clocks k i < 2 ^ 64" "valid_utf8 model"
  shows "\<lbrakk>live_ok s txt thk gs; lv_buf s = Some b; settled b; valid_utf8 (modelID b); list_all whole_call tcs; distinct (map pc_Index tcs);
     \<forall>tc \<in> set tcs. fmlookup (builders b) (pc_Index tc) = None; map_len (builders b) + length tcs \<le> 99;
     totalSize b + int (length (concat (map pc_Arguments tcs))) \<le> maxSize b\<rbrakk>
     \<Longrightarrow> \<exists>s' k' b'. live_loop jr model clocks k up (map tool_event tcs @ evs) s = live_loop jr model clocks k' up evs s'
       \<and> live_ok s' txt thk (gs @ map whole_fragment tcs) \<and> lv_buf s' = Some b' \<and> settled b'"
proof (induction tcs arbitrary: s b gs k)
  case (Cons tc tcs)
  have c: "\<forall>i. clocks k i < 2 ^ 64" using assms(2) by blast
  obtain s1 where s1: "live_step jr model (clocks k) up (tool_event tc) s = Some (s1, None)"
    "live_ok s1 txt thk (gs @ [whole_fragment tc])" "lv_buf s1 = Some (with_call tc b)"
    using handle_whole_call [OF assms(1) c Cons.prems(1,2) assms(3) Cons.prems(4), of tc] Cons.prems by auto
  have "\<exists>s' k' b'. live_loop jr model clocks (k + 1) up (map tool_event tcs @ evs) s1 = live_loop jr model clocks k' up evs s'
       \<and> live_ok s' txt thk ((gs @ [whole_fragment tc]) @ map whole_fragment tcs) \<and> lv_buf s' = Some b' \<and> settled b'"
    by (rule Cons.IH [OF s1(2,3) with_call_settled]) (use Cons.prems in \<open>auto simp: with_call_len image_iff\<close>)
  then show ?case using s1(1) by simp
qed auto

lemma done_settled:
  assumes "\<forall>n. up n" "live_ok s txt thk gs" "lv_buf s = Some b" "settled b"
  obtains s' W r where "live_loop jr model clocks k up [done_ev] s = Some (s', Returned)" "tr_state (lv_tr s') = tr_state (lv_tr s)"
    "read_all (wire_events (wire s')) empty_reader = Some r" "r_done r" "calls_sent (lv_tr s) gs W"
    "mset (r_blocks r) = image_mset shut (sent_block text_block txt + sent_block thinking_block thk + call_blocks W)"
proof -
  let ?s = "s\<lparr>lv_buf := Some b\<rparr>"
  have "live_ok ?s txt thk gs" by (rule live_ok_frame [OF assms(2)]) simp_all
  from finalize_live_ok [OF assms(1) this] obtain s' W r where f: "finalize_live up ?s = (s', Written)" "tr_state (lv_tr s') = tr_state (lv_tr ?s)"
    "read_all (wire_events (wire s')) empty_reader = Some r" "r_done r" "calls_sent (lv_tr ?s) gs W"
    "mset (r_blocks r) = image_mset shut (sent_block text_block txt + sent_block thinking_block thk + call_blocks W)" by metis
  have "live_loop jr model clocks k up [done_ev] s = Some (s', Returned)"
    using f(1) assms(3) settled_flush [OF assms(4)]
    by (simp add: arm_defs done_ev_def done_event_def driveBufferFlushIntoLiveTranslator_def)
  then show thesis using that f(2-6) by simp
qed

text \<open>The blocks and the stored calls when every fragment is at index 0.\<close>

lemma one_block:
  assumes "calls_sent t gs W" "gs = map whole_fragment tcs" "tcs = tc # rest" "pc_ID tc \<noteq> []" "pc_Name tc \<noteq> []"
  shows "call_blocks W = {#(tool_use (pc_ID tc) (pc_Name tc), concat (map pc_Arguments tcs), True)#}"
proof -
  have a: "args_of k (map whole_fragment xs) = (if k = 0 then concat (map pc_Arguments xs) else [])" for k xs
    by (induction xs) (auto simp: whole_fragment_def)
  have n: "announce k (map whole_fragment xs) = None" if "k \<noteq> 0" for k xs
    using that by (auto simp: announce_def find_None_iff announces_def whole_fragment_def)
  have f: "announce 0 gs = Some (whole_fragment tc)"
    using assms(2-5) by (simp add: announce_def announces_def whole_fragment_def frag_name_def)
  have "fmlookup W k = (if k = 0 then Some (pc_ID tc, pc_Name tc, concat (map pc_Arguments tcs)) else None)" for k
    using assms(1) f n [of k tcs] a [of k tcs] unfolding calls_sent_def assms(2)
    by (auto simp: whole_fragment_def frag_name_def split: option.splits)
  then have "W = fmupd 0 (pc_ID tc, pc_Name tc, concat (map pc_Arguments tcs)) fmempty" by (auto intro: fmap_ext)
  then show ?thesis using call_blocks_new [of fmempty 0] by (simp add: call_blocks_def)
qed

lemma calls_of_single: "calls_of [g] = put_fragment g []"
  by (simp add: calls_of_def)

lemma one_slot:
  "tcs \<noteq> [] \<Longrightarrow> \<forall>tc \<in> set tcs. pc_ID tc \<noteq> [] \<Longrightarrow> calls_of (map whole_fragment tcs)
     = [\<lparr>ts_Index = 0, ts_ID = pc_ID (last tcs), ts_Name = pc_Name (last tcs), ts_Arguments = concat (map pc_Arguments tcs)\<rparr>]"
proof (induction tcs rule: rev_induct)
  case (snoc tc tcs)
  then show ?case
    by (cases "tcs = []") (auto simp: calls_of_single whole_fragment_def put_fragment_def add_slots_def merge_fragment_def Let_def)
qed simp

lemma new_buffer:
  assumes "buf = new_tool_call_buffer False cfg 0 model"
  obtains b where "buf = Some b" "builders b = fmempty" "totalSize b = 0" "maxSize b = 1024 * 1024" "modelID b = model"
  using assms by (auto simp: new_tool_call_buffer_def NewToolCallBufferWithRepair_def NewToolCallBuffer_def Let_def split: option.splits if_splits)

lemma last_concat_map: "xs \<noteq> [] \<Longrightarrow> f (last xs) \<noteq> [] \<Longrightarrow> last (concat (map f xs)) = last (f (last xs))"
  by (induction xs rule: rev_induct) auto

text \<open>C25: calls run into one another. When a provider makes several tool calls, each complete in one event and
  with its own index, a live client reads a single call: identifier and name are those of the first, the
  arguments are those of all calls one behind the other, which is not JSON when there are two or more. What
  is stored for the conversation is again different: the merged arguments under the last call's name.\<close>

theorem parallel_calls_merge:
  assumes "\<forall>n. up n" "\<forall>k i. clocks k i < 2 ^ 64" "valid_utf8 model"
    and "list_all whole_call tcs" "distinct (map pc_Index tcs)" "\<forall>tc \<in> set tcs. pc_ID tc \<noteq> [] \<and> pc_Name tc \<noteq> []"
    and "\<forall>tc \<in> set tcs. HasPrefix (pc_Arguments tc) ''{'' \<and> last (pc_Arguments tc) = CHR ''}''"
    and "2 \<le> length tcs" "length tcs \<le> 99" "length (concat (map pc_Arguments tcs)) \<le> 1024 * 1024"
    and "buf = new_tool_call_buffer False cfg 0 model"
  shows "\<exists>s r args. handleStream jr model clocks up (Inr (map tool_event tcs @ [done_ev])) (new_live buf mid original) = Some (s, Returned)
     \<and> read_all (wire_events (wire s)) empty_reader = Some r \<and> r_done r
     \<and> r_blocks r = [(tool_use (pc_ID (hd tcs)) (pc_Name (hd tcs)), args, False)]
     \<and> mirrored_calls (tr_state (lv_tr s)) = [(pc_ID (last tcs), pc_Name (last tcs), args)]
     \<and> args = concat (map pc_Arguments tcs) \<and> \<not> isValidJSON args"
proof -
  obtain b where b: "buf = Some b" "builders b = fmempty" "totalSize b = 0" "maxSize b = 1024 * 1024" "modelID b = model"
    using new_buffer [OF assms(11)] by blast
  let ?s0 = "new_live buf mid original" and ?gs = "map whole_fragment tcs" and ?args = "concat (map pc_Arguments tcs)"
  obtain tc rest where tcs: "tcs = tc # rest" using assms(8) by (cases tcs) auto
  have "settled b" "map_len (builders b) = 0" using b(2) by (simp_all add: settled_def)
  then obtain s1 k' b' where s1: "live_loop jr model clocks 0 up (map tool_event tcs @ [done_ev]) ?s0 = live_loop jr model clocks k' up [done_ev] s1"
    "live_ok s1 [] [] ?gs" "lv_buf s1 = Some b'" "settled b'"
    using handle_whole_calls [OF assms(1-3) new_live_ok, of buf mid original b tcs jr 0 "[done_ev]"] b assms(3-5,9,10)
    by (auto simp: new_live_def)
  obtain s' W r where f: "live_loop jr model clocks k' up [done_ev] s1 = Some (s', Returned)" "tr_state (lv_tr s') = tr_state (lv_tr s1)"
    "read_all (wire_events (wire s')) empty_reader = Some r" "r_done r" "calls_sent (lv_tr s1) ?gs W"
    "mset (r_blocks r) = image_mset shut (sent_block text_block [] + sent_block thinking_block [] + call_blocks W)"
    by (rule done_settled [OF assms(1) s1(2-4)])
  have "r_blocks r = [(tool_use (pc_ID (hd tcs)) (pc_Name (hd tcs)), ?args, False)]"
    using f(6) one_block [OF f(5) refl tcs] assms(6) tcs by (simp add: sent_block_def shut_def)
  moreover have "mirrored_calls (tr_state (lv_tr s')) = [(pc_ID (last tcs), pc_Name (last tcs), ?args)]"
  proof -
    have "ToolCalls (tr_state (lv_tr s1)) = calls_of ?gs" using s1(2) by (simp add: live_ok_def on_wire_def)
    then show ?thesis using one_slot [of tcs] f(2) assms(6) tcs by (simp add: mirrored_calls_def)
  qed
  moreover have "\<not> isValidJSON ?args"
  proof
    assume v: "isValidJSON ?args"
    let ?q = "concat (map pc_Arguments rest)"
    have w: "isValidJSON (pc_Arguments tc)" "pc_Arguments tc \<noteq> []" using assms(4) tcs by (simp_all add: whole_call_def)
    have r: "rest \<noteq> []" using assms(8) tcs by (cases rest) auto
    have ne: "pc_Arguments x \<noteq> []" if "x \<in> set tcs" for x using assms(4) that by (auto simp: list_all_iff whole_call_def)
    have q: "?q \<noteq> []" using r ne tcs by (cases rest) auto
    have "last ?args = CHR ''}''"
      using last_concat_map [of tcs pc_Arguments] ne assms(7) last_in_set [of tcs] tcs by fastforce
    moreover have "HasPrefix ?args ''{''" using assms(7) tcs by (auto simp: HasPrefix_iff)
    ultimately have "\<not> (pc_Arguments tc \<noteq> [] \<and> isValidJSON (pc_Arguments tc))"
      using prefix_incomplete [of "pc_Arguments tc" ?q] v q tcs by simp
    then show False using w by simp
  qed
  ultimately show ?thesis using s1(1) f(1,3,4) by (auto simp: handleStream_def)
qed

section \<open>A call cut into events\<close>

lemma valid_utf8_append: "valid_utf8 s \<Longrightarrow> valid_utf8 (s @ t) = valid_utf8 t"
proof (induction s rule: valid_utf8.induct)
  case (1 s)
  show ?case
  proof (cases "s = []")
    case False
    let ?n = "utf8_len s"
    have n: "0 < ?n" "valid_utf8 (drop ?n s)" using "1.prems" False by (subst (asm) valid_utf8.simps, simp split: if_splits)+
    have "utf8_len (s @ t) = ?n" using utf8_len_take [OF n(1), of "drop ?n s @ t"] by (simp flip: append_assoc)
    moreover have "drop ?n (s @ t) = drop ?n s @ t" using utf8_len_le [of s] by simp
    ultimately have "valid_utf8 (s @ t) = valid_utf8 (drop ?n s @ t)"
      using False n(1) by (subst valid_utf8.simps) simp
    then show ?thesis using "1.IH" [OF False] n by simp
  qed simp
qed

definition text_builder :: "ToolCallBuilder \<Rightarrow> bool" where
  "text_builder bl \<longleftrightarrow> valid_utf8 (b_ID bl) \<and> valid_utf8 (b_Type bl) \<and> valid_utf8 (b_Name bl) \<and> valid_utf8 (b_Arguments bl)"

lemma text_builder_merge: "valid_call tc \<Longrightarrow> text_builder bl \<Longrightarrow> text_builder (merge_call (delta_call_json tc) bl)"
  by (simp add: text_builder_def delta_call_parts valid_call_def valid_utf8_append override_def)

text \<open>What the fragments say together: the last non-empty value of a field.\<close>

definition latest :: "(ToolCall \<Rightarrow> string) \<Rightarrow> ToolCall list \<Rightarrow> string \<Rightarrow> string" where
  "latest f tcs x = fold (\<lambda>tc. override (f tc)) tcs x"

lemma handle_fragments:
  assumes "\<forall>n. up n" "\<forall>k i. clocks k i < 2 ^ 64" "valid_utf8 model"
    and obj: "isValidJSON obj" "HasPrefix obj ''{''" "last obj = CHR ''}''" and "tcs \<noteq> []" "pc_Arguments (last tcs) \<noteq> []"
  shows "\<lbrakk>live_ok s txt thk gs; lv_buf s = Some b; valid_utf8 (modelID b); \<forall>tc \<in> set tcs. valid_call tc \<and> pc_Index tc = i;
     b_Arguments (heap b ! p) @ concat (map pc_Arguments tcs) = obj; builders b = fmupd i p fmempty;
     p < length (heap b); \<not> hasEmitted (heap b ! p); text_builder (heap b ! p);
     totalSize b + int (length (concat (map pc_Arguments tcs))) \<le> maxSize b\<rbrakk>
     \<Longrightarrow> \<exists>s' k' b'. live_loop jr model clocks k up (map tool_event tcs @ evs) s = live_loop jr model clocks k' up evs s'
       \<and> live_ok s' txt thk (gs @ [(0, latest pc_ID tcs (b_ID (heap b ! p)), Some (latest pc_Name tcs (b_Name (heap b ! p))), obj)])
       \<and> lv_buf s' = Some b' \<and> settled b'"
  using assms(7,8)
proof (induction tcs arbitrary: s b k rule: list_nonempty_induct)
  case (single tc)
  have v: "valid_call tc" "pc_Index tc = i" "0 \<le> i" "i \<le> 99" using single.prems by (auto simp: valid_call_def)
  have c: "\<forall>n. clocks k n < 2 ^ 64" using assms(2) by blast
  let ?j = "delta_call_json tc"
  note d = delta_call_parts [of tc, unfolded v(2), OF v(3)]
  let ?bl = "merge_call ?j (heap b ! p)"
  let ?c = "sse_chunk (chunk_json (modelID b) (clocks k 1) (call_json i ?bl obj))"
  have "processToolCallChunk jr (\<lambda>n. clocks k (n + 1)) [?j] b = ([?c], emitted_builder p (grown ?j p b))"
    using fragment_completes [OF d(1) v(3,4), of b p obj jr "\<lambda>n. clocks k (n + 1)"] single.prems obj d(2) by (simp add: map_len_fmupd)
  then obtain s' where s': "live_step jr model (clocks k) up (tool_event tc) s = Some (s', None)"
    "live_ok s' txt thk (gs @ concat (map emitted_fragments [?c]))" "lv_buf s' = Some (emitted_builder p (grown ?j p b))"
    using handle_tool_event [OF assms(1) c single.prems(1,2) assms(3) v(1)] by blast
  have t: "text_builder ?bl" using text_builder_merge v(1) single.prems by blast
  moreover have "b_Arguments ?bl = obj" using single.prems d(2) by simp
  ultimately have "emitted_fragments ?c = [(0, latest pc_ID [tc] (b_ID (heap b ! p)), Some (latest pc_Name [tc] (b_Name (heap b ! p))), obj)]"
    using emitted_one [of "modelID b" "clocks k 1" ?bl obj i] single.prems c v(4) d(3) by (simp add: text_builder_def latest_def)
  moreover have "settled (emitted_builder p (grown ?j p b))"
    using single.prems by (simp add: settled_def emitted_builder_def grown_fields)
  ultimately show ?case using s' by (intro exI [of _ s'] exI [of _ "k + 1"]) simp
next
  case (cons tc tcs)
  have v: "valid_call tc" "pc_Index tc = i" "0 \<le> i" "i \<le> 99" using cons.prems by (auto simp: valid_call_def)
  have c: "\<forall>n. clocks k n < 2 ^ 64" using assms(2) by blast
  let ?j = "delta_call_json tc"
  note d = delta_call_parts [of tc, unfolded v(2), OF v(3)]
  let ?b = "grown ?j p b"
  have "processToolCallChunk jr (\<lambda>n. clocks k (n + 1)) [?j] b = ([], ?b)"
    using fragment_waits [OF d(1) v(3,4), of b p obj "concat (map pc_Arguments tcs)" jr "\<lambda>n. clocks k (n + 1)"]
      rest_not_empty [of tcs pc_Arguments] cons.prems cons.hyps obj d(2) by (simp add: map_len_fmupd)
  then obtain s1 where s1: "live_step jr model (clocks k) up (tool_event tc) s = Some (s1, None)"
    "live_ok s1 txt thk (gs @ concat (map emitted_fragments []))" "lv_buf s1 = Some ?b"
    using handle_tool_event [OF assms(1) c cons.prems(1,2) assms(3) v(1)] by blast
  have l: "live_ok s1 txt thk gs" using s1(2) by simp
  have h: "heap ?b ! p = merge_call ?j (heap b ! p)" using cons.prems by (simp add: grown_fields)
  have "\<exists>s' k' b'. live_loop jr model clocks (k + 1) up (map tool_event tcs @ evs) s1 = live_loop jr model clocks k' up evs s'
       \<and> live_ok s' txt thk (gs @ [(0, latest pc_ID tcs (b_ID (heap ?b ! p)), Some (latest pc_Name tcs (b_Name (heap ?b ! p))), obj)])
       \<and> lv_buf s' = Some b' \<and> settled b'"
    by (rule cons.IH [OF l s1(3)])
      (use cons.prems cons.hyps d(2) h text_builder_merge [OF v(1)] in \<open>simp_all add: grown_fields\<close>)
  then show ?case using s1(1) h d(3) by (simp add: latest_def)
qed

text \<open>The first fragment finds no builder and installs one.\<close>

lemma first_fragment:
  assumes "valid_call tc" "valid_utf8 model" "\<forall>i. clock i < 2 ^ 64" "lv_buf s = Some b" "builders b = fmempty"
  shows "live_step jr model clock up (tool_event tc) s
    = live_step jr model clock up (tool_event tc) (s\<lparr>lv_buf := Some (fst (install_builder (pc_Index tc) b))\<rparr>)"
proof -
  let ?b = "fst (install_builder (pc_Index tc) b)"
  have r: "0 \<le> pc_Index tc" "pc_Index tc \<le> 99" using assms(1) by (simp_all add: valid_call_def)
  have "process_call (delta_call_json tc) (b, []) = process_call (delta_call_json tc) (?b, [])"
    using process_call_install [OF delta_call_parts(1) [OF r(1)] r] assms(5) by simp
  moreover have "chunk_tool_calls (sse_chunk (tool_call_chunk model (clock 0) [tc])) = Some [delta_call_json tc]"
    using tool_call_line [of "[tc]" model "clock 0"] assms(1-3) by simp
  ultimately have "tool_call_chunks jr model clock [tc] s = tool_call_chunks jr model clock [tc] (s\<lparr>lv_buf := Some ?b\<rparr>)"
    using assms(4) by (simp add: tool_call_chunks_def ProcessChunk_def processToolCallChunk_def)
  then show ?thesis by (simp add: arm_defs tool_event_def)
qed

text \<open>C24: a call arrives. When a provider streams one tool call in fragments, however many and however cut,
  whose arguments add up to a JSON object, a live client reads exactly one call with the last non-empty
  identifier and name and the whole arguments, and the same call is stored.\<close>

theorem live_call_arrives:
  assumes "\<forall>n. up n" "\<forall>k i. clocks k i < 2 ^ 64" "valid_utf8 model"
    and "tcs \<noteq> []" "pc_Arguments (last tcs) \<noteq> []" "\<forall>tc \<in> set tcs. valid_call tc \<and> pc_Index tc = i"
    and "isValidJSON obj" "HasPrefix obj ''{''" "last obj = CHR ''}''" "concat (map pc_Arguments tcs) = obj" "length obj \<le> 1024 * 1024"
    and "name = latest pc_Name tcs []" "cid = latest pc_ID tcs []" "name \<noteq> []" "cid \<noteq> []"
    and "buf = new_tool_call_buffer False cfg 0 model"
  shows "\<exists>s r. handleStream jr model clocks up (Inr (map tool_event tcs @ [done_ev])) (new_live buf mid original) = Some (s, Returned)
     \<and> read_all (wire_events (wire s)) empty_reader = Some r \<and> r_done r
     \<and> r_blocks r = [(tool_use cid name, obj, False)] \<and> mirrored_calls (tr_state (lv_tr s)) = [(cid, name, obj)]"
proof -
  let ?init = "new_live buf mid original" and ?tc = "\<lparr>pc_Index = 0, pc_ID = cid, pc_Type = [], pc_Name = name, pc_Arguments = obj\<rparr>"
  obtain b where b: "buf = Some b" "builders b = fmempty" "totalSize b = 0" "maxSize b = 1024 * 1024" "modelID b = model"
    using new_buffer [OF assms(16)] by blast
  let ?b = "fst (install_builder i b)" and ?start = "?init\<lparr>lv_buf := Some (fst (install_builder i b))\<rparr>"
  obtain tc rest where tcs: "tcs = tc # rest" using assms(4) by (cases tcs) auto
  have c: "\<forall>n. clocks 0 n < 2 ^ 64" using assms(2) by blast
  have "valid_call tc" "pc_Index tc = i" "lv_buf ?init = Some b" using assms(6) tcs b(1) by (simp_all add: new_live_def)
  then have first: "live_loop jr model clocks 0 up (map tool_event tcs @ [done_ev]) ?init
      = live_loop jr model clocks 0 up (map tool_event tcs @ [done_ev]) ?start"
    using first_fragment [OF _ assms(3) c _ b(2), of tc ?init jr up] tcs by simp
  have "live_ok ?start [] [] []" by (rule live_ok_frame [OF new_live_ok]) simp_all
  then obtain s1 k' b' where s1: "live_loop jr model clocks 0 up (map tool_event tcs @ [done_ev]) ?start = live_loop jr model clocks k' up [done_ev] s1"
    "live_ok s1 [] [] [(0, cid, Some name, obj)]" "lv_buf s1 = Some b'" "settled b'"
    using handle_fragments [OF assms(1-3,7-9,4,5), of ?start "[]" "[]" "[]" ?b i "length (heap b)" jr 0 "[done_ev]"] assms(3,6,10-13) b
    by (auto simp: install_builder_def new_builder_def text_builder_def)
  obtain s' W r where f: "live_loop jr model clocks k' up [done_ev] s1 = Some (s', Returned)" "tr_state (lv_tr s') = tr_state (lv_tr s1)"
    "read_all (wire_events (wire s')) empty_reader = Some r" "r_done r" "calls_sent (lv_tr s1) [(0, cid, Some name, obj)] W"
    "mset (r_blocks r) = image_mset shut (sent_block text_block [] + sent_block thinking_block [] + call_blocks W)"
    by (rule done_settled [OF assms(1) s1(2-4)])
  have g: "[(0, cid, Some name, obj)] = map whole_fragment [?tc]" by (simp add: whole_fragment_def)
  have "r_blocks r = [(tool_use cid name, obj, False)]"
    using f(6) one_block [OF f(5) g refl] assms(14,15) by (simp add: sent_block_def shut_def)
  moreover have "mirrored_calls (tr_state (lv_tr s')) = [(cid, name, obj)]"
  proof -
    have "ToolCalls (tr_state (lv_tr s1)) = calls_of (map whole_fragment [?tc])" using s1(2) unfolding g by (simp add: live_ok_def on_wire_def)
    then show ?thesis using one_slot [of "[?tc]"] f(2) assms(14,15) by (simp add: mirrored_calls_def)
  qed
  ultimately show ?thesis using first s1(1) f(1,3,4) by (auto simp: handleStream_def)
qed

section \<open>Witnesses\<close>

definition ex_hi :: StreamEvent where
  "ex_hi = \<lparr>ev_Type = ''content'', ev_Content = ''Hi'', ev_ReasoningContent = [], ev_ToolCalls = [], ev_FinishReason = [], ev_Error = []\<rparr>"

definition ex_down :: StreamEvent where
  "ex_down = \<lparr>ev_Type = ''error'', ev_Content = [], ev_ReasoningContent = [], ev_ToolCalls = [], ev_FinishReason = [], ev_Error = ''down''\<rparr>"

lemma live_wire_complete_witness:
  "\<exists>s r. handleStream (\<lambda>_. None) ''glm'' (\<lambda>_ _. 0) (\<lambda>_. True) (Inr [ex_hi, ex_down]) (new_live None ''msg_1'' ''m'') = Some (s, StreamFailed ''down'')
     \<and> read_all (wire_events (wire s)) empty_reader = Some r \<and> r_done r
     \<and> filter (\<lambda>(b, _). b = text_block) (r_blocks r) = [(text_block, ''Hi'', False)] \<and> last (wire s) = SseError ''down''"
proof -
  have "stream_end [ex_hi, ex_down] = StreamFailed ''down''" by (simp add: stream_end_Cons ex_hi_def ex_down_def)
  moreover have "said ''content'' ev_Content [ex_hi, ex_down] = ''Hi''" by (simp add: said_Cons ex_hi_def ex_down_def ends_stream_def)
  ultimately show ?thesis
    using live_wire_complete [of "\<lambda>_. True" "\<lambda>_. None" "''glm''" "\<lambda>_ _. 0" "[ex_hi, ex_down]" None "''msg_1''" "''m''"] by auto
qed

definition ex_tool :: "int \<Rightarrow> string \<Rightarrow> string \<Rightarrow> string \<Rightarrow> ToolCall" where
  "ex_tool i cid nm args = \<lparr>pc_Index = i, pc_ID = cid, pc_Type = ''function'', pc_Name = nm, pc_Arguments = args\<rparr>"

lemma ex_tool_fields [simp]:
  "pc_Index (ex_tool i cid nm args) = i" "pc_ID (ex_tool i cid nm args) = cid" "pc_Name (ex_tool i cid nm args) = nm"
  "pc_Arguments (ex_tool i cid nm args) = args" "pc_Type (ex_tool i cid nm args) = ''function''"
  by (simp_all add: ex_tool_def)

lemma ex_strings:
  "valid_utf8 ''c1''" "valid_utf8 ''c2''" "valid_utf8 ''ls''" "valid_utf8 ''rm''" "valid_utf8 ''{}''" "valid_utf8 ''{''" "valid_utf8 ''}''"
  "valid_utf8 ''glm''" "isValidJSON ''{}''"
  by code_simp+

lemma parallel_calls_merge_witness:
  "\<exists>s r args. handleStream (\<lambda>_. None) ''glm'' (\<lambda>_ _. 0) (\<lambda>_. True)
       (Inr (map tool_event [ex_tool 0 ''c1'' ''ls'' ''{}'', ex_tool 1 ''c2'' ''rm'' ''{}''] @ [done_ev]))
       (new_live (new_tool_call_buffer False None 0 ''glm'') ''msg_1'' ''m'') = Some (s, Returned)
     \<and> read_all (wire_events (wire s)) empty_reader = Some r \<and> r_done r
     \<and> r_blocks r = [(tool_use ''c1'' ''ls'', args, False)] \<and> mirrored_calls (tr_state (lv_tr s)) = [(''c2'', ''rm'', args)]
     \<and> args = ''{}{}'' \<and> \<not> isValidJSON args"
proof -
  let ?tcs = "[ex_tool 0 ''c1'' ''ls'' ''{}'', ex_tool 1 ''c2'' ''rm'' ''{}'']"
  have w: "list_all whole_call ?tcs" using ex_strings by (simp add: whole_call_def valid_call_def)
  show ?thesis
    using parallel_calls_merge [OF _ _ ex_strings(8) w _ _ _ _ _ _ refl, of "\<lambda>_. True" "\<lambda>_ _. 0" "\<lambda>_. None" None "''msg_1''" "''m''"] by simp
qed

lemma live_call_arrives_witness:
  "\<exists>s r. handleStream (\<lambda>_. None) ''glm'' (\<lambda>_ _. 0) (\<lambda>_. True)
       (Inr (map tool_event [ex_tool 3 ''c1'' ''ls'' ''{'', ex_tool 3 [] [] ''}''] @ [done_ev]))
       (new_live (new_tool_call_buffer False None 0 ''glm'') ''msg_1'' ''m'') = Some (s, Returned)
     \<and> read_all (wire_events (wire s)) empty_reader = Some r \<and> r_done r
     \<and> r_blocks r = [(tool_use ''c1'' ''ls'', ''{}'', False)] \<and> mirrored_calls (tr_state (lv_tr s)) = [(''c1'', ''ls'', ''{}'')]"
proof -
  let ?tcs = "[ex_tool 3 ''c1'' ''ls'' ''{'', ex_tool 3 [] [] ''}'']"
  have v: "\<forall>tc \<in> set ?tcs. valid_call tc \<and> pc_Index tc = 3" using ex_strings by (simp add: valid_call_def)
  have l: "latest pc_Name ?tcs [] = ''ls''" "latest pc_ID ?tcs [] = ''c1''" by (simp_all add: latest_def override_def)
  show ?thesis
    using live_call_arrives [OF _ _ ex_strings(8) _ _ v ex_strings(9) _ _ _ _ refl refl _ _ refl,
        of "\<lambda>_. True" "\<lambda>_ _. 0" "\<lambda>_. None" None "''msg_1''" "''m''"] l by simp
qed

end
