(* ===== verification/Spec2Isabelle.thy ===== *)
theory Spec2Isabelle
  imports GroupRewrite ModelMask ToolCallBuffer RaceCoordinator UltimateModel ModelsCache LiveStream
begin

text \<open>
  Verification development of the LLM supervisor proxy.

  The program is an HTTP proxy in front of large-language-model providers. A client request names a
  model or a group of models. The proxy authenticates the client's token, lets the ultimate-model
  trigger see the messages, resolves a group to one of its members (sticky per conversation), starts
  a race of upstream attempts over the model's fallback chain, rotates credentials on rate-limit and
  quota failures, and relays the winner's buffered stream to the client.

  \<^bold>\<open>Theories and the code they model\<close> (paths below \<open>src/pkg\<close>; a definition has the name of the Go
  function or type it models, with a suffix \<open>_g\<close> for the group engine, \<open>_hc\<close> or a short prefix where
  the Go name is taken; parts of a long function have names of their own).

  \<^item> \<open>Prelude\<close>, \<open>GoStrings\<close>: finite maps with their sizes, signed 64-bit arithmetic, the functions of
    the Go \<open>strings\<close> package.
  \<^item> \<open>WeightedSelector\<close>, \<open>CredentialLB\<close> (\<open>credentiallb/selector.go\<close>, \<open>binding.go\<close>, \<open>engine.go\<close>,
    \<open>failure_class.go\<close>): the record \<open>Engine\<close> maps model names to \<open>modelState\<close> (references, selector,
    bindings, cooldowns, counters). \<open>GetOrSelect\<close> is split into its critical sections \<open>gos_read\<close>,
    \<open>gos_hit\<close>, \<open>gos_full\<close>/\<open>gos_pick\<close>; \<open>gos_sections\<close> runs them on three different states, so other
    goroutines may change the state between them.
  \<^item> \<open>GroupLB\<close> (\<open>grouplb/\<close>): the same for groups with a default and a backup pool.
  \<^item> \<open>PeakHours\<close>, \<open>Credentials\<close>, \<open>ModelsConfig\<close> (\<open>models/peak_hours.go\<close>, \<open>credential.go\<close>, \<open>config.go\<close>,
    \<open>group.go\<close>): rows of the four kinds and their validation, credentials with environment expansion,
    shadow claims, and every operation of the JSON-backed collection. The environment, the cipher and
    the iteration order of maps are the fields of the record \<open>world\<close>.
  \<^item> \<open>GroupRewrite\<close> (\<open>store/database/store_group_rewrite.go\<close>, \<open>proxy/handler_groups.go\<close>, the re-entry of
    \<open>proxy/handler.go\<close>): replacement of a group in the request's model list by a servable member, over the
    group engine. The rows are a function \<open>native\<close>; the locale \<open>stale_retry\<close> is the contract of a pool
    in the selection loop, interpreted for both pools.
  \<^item> \<open>GoJson\<close>: the part of \<open>encoding/json\<close> the proxy uses: values with members in order, the parser, the
    decoder's reading of a prefix, quoting, \<open>Marshal\<close>. Numbers keep their text; one outside the range of
    \<open>float64\<close> makes \<open>Unmarshal\<close> into an empty interface fail, as in Go.
  \<^item> \<open>ModelMask\<close> (\<open>proxy/handler_groups.go\<close>): the position of the top-level model in a body, its patch, and
    the masker of event streams with the bytes it holds back.
  \<^item> \<open>ToolRepair\<close> (\<open>toolrepair/\<close>): the repair strategies, the fixer and the statistics. \<open>ToolCallBuffer\<close>
    (\<open>toolcall/buffer.go\<close>): accumulation of streamed tool calls; builders live on the list \<open>heap\<close> because
    an emission keeps its builder while the index already has another one.
  \<^item> \<open>EventBus\<close> (\<open>events/bus.go\<close>): subscribers with bounded channels and a history that is replayed.
  \<^item> \<open>ModelRows\<close>, \<open>ModelStore\<close> (\<open>store/database/store.go\<close>, the type \<open>ModelsManager\<close>, and the statements of
    \<open>querybuilder.go\<close>): the same collection in a database. A row is the record \<open>dbModelRow\<close> with its JSON
    columns; a call is one step, because its writes hold the manager's mutex. The record \<open>driver\<close> says which
    statements of the call the database answers, where a result breaks off and in which order rows come. The
    manager owns both engines and re-reads a row for every event it receives from the bus; that read and the
    call of the engine after it are two steps of \<open>sys_step\<close>, with whole calls between them. \<open>behind\<close> are the
    identifiers the engine may be wrong about (failed scan at boot, failed or overtaken re-read).
  \<^item> \<open>StickyAffinity\<close>: the locale \<open>sticky_selector\<close>, the contract of a binding table that answers with
    the bound entity while its binding lives; interpreted for the credential engine and for both pools
    of the group engine.
  \<^item> \<open>StreamBuffer\<close> (\<open>proxy/stream_buffer.go\<close>, the relay loop of \<open>proxy/handler.go\<close>): any
    number of writers, \<open>Close\<close>, captures and the relay, each in its atomic actions, interleaved by \<open>sb_step\<close>;
    the relay drains once after \<open>done\<close> and may stop at any wait or write.
  \<^item> \<open>ProviderErrors\<close> (\<open>providers/interface.go\<close>, \<open>models/errors.go\<close>, \<open>proxy/cred_failover_class.go\<close>):
    classification of upstream errors.
  \<^item> \<open>RaceRequest\<close> (\<open>proxy/race_request.go\<close>): one attempt, its status and buffer.
  \<^item> \<open>RaceCoordinator\<close> (\<open>proxy/race_coordinator.go\<close>): the race. \<open>manage_tick\<close> is one turn of the manage
    loop (ticker case), \<open>handleStreamingDeadline\<close>, \<open>handleHardDeadline\<close> and \<open>ctx_done\<close> are its other
    cases; \<open>race_step\<close> interleaves them with the steps of the executors and of the credential engine.
  \<^item> \<open>UltimateModel\<close> (\<open>ultimatemodel/hash_cache.go\<close>, the trigger part of \<open>handler.go\<close>): the circular
    buffer of hashes, the escalation schedule.
  \<^item> \<open>LruCache\<close> (\<open>modelscache/lru.go\<close>), \<open>TokenCache\<close> (\<open>modelscache/tokens.go\<close>, \<open>health.go\<close>,
    \<open>auth/token.go\<close>): the token cache over the inner store, on a bounded LRU that meets the locale
    \<open>lookup_cache\<close>.
  \<^item> \<open>ModelsCache\<close> (\<open>modelscache/models.go\<close>, \<open>copy.go\<close>, \<open>strict.go\<close>): the decorator over the manager of
    \<open>ModelStore\<close>. The record \<open>call\<close> is what one call sees: clock, driver, cipher, iteration order of the map
    of rows. A function with the suffix \<open>_sections\<close> takes one cache per critical section. The steps
    \<open>cache_step\<close> move cache and manager together, with fills, sweeps and writes in flight between the store and
    the cache; \<open>at_rest\<close> are the states without a half-done write and without traces of an overlapped read;
    \<open>outage_run\<close> is what happens while no statement is answered.

  \<^item> \<open>StreamTranslator\<close> (\<open>proxy/translator/incremental_stream.go\<close>, \<open>stream.go\<close>): OpenAI streams as Anthropic
    events, in one go from a buffer and chunk by chunk. Events are values of \<open>stream_event\<close>; the reader
    \<open>read_event\<close> is the abstract client, which accepts only the order of the Anthropic protocol.
  \<^item> \<open>LiveStream\<close> (\<open>proxy/internal_handler.go\<close>, the live arms of \<open>handleStream\<close>): provider events through
    the tool-call buffer and the translator to the client. The record \<open>live\<close> holds both and the wire; which
    writes succeed is the argument \<open>up\<close>.

  \<^bold>\<open>What the lemmas show.\<close> Selection: a draw selects a credential with probability proportional to its
  weight, cooling credentials are never selected while another is healthy, a conversation keeps its
  credential or member within the TTL, failover answers as documented, and the counters reported are
  the sizes of the binding tables, for every reachable state and every interleaving of critical
  sections. Streams: buffered bytes stay below the limit, the relay writes accepted lines once and
  in order, all of them when the writer closes the buffer, and no wake-up is lost. Race: the number of attempts is bounded, failed races make progress or
  end, the first eligible attempt wins and stays winner, credential failover happens only under its
  conditions, the reported error is honest about rate limits. Tokens: every accepted token is backed by
  a verdict of the store within the TTLs, a revocation clears the cache. Configuration: whatever
  operations, savings and loadings of valid files build passes validation (except after the two changes shown to break it), a valid row
  resolves to a credential, claims are unique, a group is served while one member is servable and not
  cooling, the re-entry avoids the failed member. Database: a row reads back as the model that was written; the
  engine knows exactly the references of the stored rows, except those a failed scan at boot or a failed or
  overtaken re-read of the drain loop left it behind on, so every other stored model is served. While the
  database answers, no write is half done and no overlapped read has landed since the last clean sweep, the
  models cache is invisible; in an outage what it knows is served as the database would, for as long as it
  lasts (the documented cap of 24 hours is not enforced for models). Bodies and streams: what \<open>Marshal\<close> writes parses back,
  masking a stream does not depend on its chunks and changes the model only, a tool call cut into
  fragments is emitted whole and once, repair turns invalid arguments into valid ones or leaves them. The
  translator writes a complete message whatever it is fed, the same chunk by chunk as from a buffer; a tool call cut into provider events reaches the live client whole. Ultimate model: the schedule
  counts exactly while nothing is removed. Some theorems show where the code does not do what its
  comments say: an overflow of credential weights, a retried first credential, a stalled empty
  completion, a skipped third model, lost hashes after a removal, revoked or expired tokens that are
  served (also by an answer that a revocation overtook), an engine that a failed or overtaken re-read
  leaves behind the rows, an old row that an overtaken fill brings back, malformed permissions that allow everything, a refused removal that removes, a provider
  change that invalidates rows, keys handed out unexpanded, an expansion that does not return, a group
  left in the execution list by a member's chain, tool calls split after an overflow of their buffer, a
  claimed model that the cache hides after a group write, tool calls announced in two fragments that the live
  translation drops, parallel tool calls that run into one another, live messages without a stop reason.

  \<^bold>\<open>Parameters.\<close> The clock and random draws are arguments (\<open>now\<close>, and \<open>w\<close> or \<open>u\<close>, the raw value that
  the Go generator reduces to its range). The number of credentials a model is configured with is the
  argument \<open>creds\<close> of the race. The \<open>world\<close> of the configuration holds the environment, encryption and
  decryption, and the order in which a map is iterated. The database of the tokens, SHA-256 and \<open>json.Unmarshal\<close> are arguments of the token
  cache and of the message hash. The \<open>jsonrepair\<close> library, the fixer's model call and the clock of an emission are
  arguments of the tool-call repair. The tables of models and credentials are part of the state; the
  \<open>driver\<close> of a call is an argument, with the text of a \<open>float64\<close> weight. Instants and durations are unbounded integers of nanoseconds; sums of
  \<open>int\<close> weights wrap at 64 bits, the counters are 64-bit words; the weights of groups, \<open>float64\<close> in the
  code, are rationals, which is exact while the partial sums fit 53 bits. The error of an \<open>error\<close> event is a
  string: a nil error would panic, and every provider client sets it.

  \<^bold>\<open>Termination.\<close> All loops are structural recursion except the binary search (measure: the width of
  the interval), the eviction loop of the LRU (measure: the length of the list), \<open>os.Expand\<close> and the scans of \<open>ModelMask\<close>
  and \<open>ToolRepair\<close> (measure: the rest of the text) and the substitution loop for \<open>${VAR:-default}\<close>, which
  may run for ever and is a \<open>partial_function (option)\<close>. Only the JSON parser takes fuel, \<open>2 * length s + 1\<close>
  for the text \<open>s\<close>; \<open>json_prefix_stable\<close> shows that more changes nothing.

  \<^bold>\<open>Not modelled.\<close> HTTP handlers, the buffered arms of the internal handler, upstream clients and the executor (their effects on an attempt are the
  steps of \<open>RaceRequest\<close>), the translation of request and response bodies, stream normalisation, loop detection,
  the other stores, the MCP proxy, image generation, decision models and the user interface; log lines
  and event payloads everywhere. Planned next: loop detection, stream normalisation.
\<close>

end
